(* ===== verification/Prelude.thy ===== *)
theory Prelude
  imports Main "HOL-Library.List_Lexorder" "HOL-Library.Char_ord"
begin

text \<open>
  Shared vocabulary of the development: the fragment of the C++ standard library that the
  sources use (\<^verbatim>\<open>std::string\<close> searching and editing, \<^verbatim>\<open>std::set<std::string>\<close>,
  \<^verbatim>\<open>std::map<std::string, std::string>\<close>, character classes of the "C" locale), and the
  generic facts on lists that the component theories use.  A position of type
  \<^verbatim>\<open>std::string::size_type\<close> that may be \<^verbatim>\<open>npos\<close> is an \<open>nat option\<close>, with \<open>None\<close>
  for \<^verbatim>\<open>npos\<close>.
\<close>

section \<open>Collections of facts\<close>

named_theorems cpp_string \<open>characterisations of the string primitives\<close>

section \<open>Characters\<close>

abbreviation nl :: char where "nl \<equiv> CHR 0x0A"
abbreviation tab :: char where "tab \<equiv> CHR 0x09"
abbreviation dquote :: char where "dquote \<equiv> CHR 0x22"
abbreviation backslash :: char where "backslash \<equiv> CHR 0x5C"

text \<open>\<^verbatim>\<open>isspace\<close> of the "C" locale: blank, \<^verbatim>\<open>\t \n \v \f \r\<close>.\<close>

definition ws_chars :: string where
  "ws_chars = [CHR 0x20, CHR 0x09, CHR 0x0C, CHR 0x0B, CHR 0x0D, CHR 0x0A]"

definition is_space :: "char \<Rightarrow> bool" where
  "is_space c \<longleftrightarrow> c \<in> set ws_chars"

definition is_digit :: "char \<Rightarrow> bool" where
  "is_digit c \<longleftrightarrow> 48 \<le> (of_char c :: nat) \<and> (of_char c :: nat) \<le> 57"

definition is_upper :: "char \<Rightarrow> bool" where
  "is_upper c \<longleftrightarrow> 65 \<le> (of_char c :: nat) \<and> (of_char c :: nat) \<le> 90"

definition is_lower :: "char \<Rightarrow> bool" where
  "is_lower c \<longleftrightarrow> 97 \<le> (of_char c :: nat) \<and> (of_char c :: nat) \<le> 122"

definition is_alnum :: "char \<Rightarrow> bool" where
  "is_alnum c \<longleftrightarrow> is_digit c \<or> is_upper c \<or> is_lower c"

definition to_upper :: "char \<Rightarrow> char" where
  "to_upper c = (if is_lower c then char_of ((of_char c :: nat) - 32) else c)"

lemma not_lower_to_upper: "\<not> is_lower (to_upper c)"
proof (cases "is_lower c")
  case True
  then have "((of_char c :: nat) - 32) mod 256 = of_char c - 32"
    unfolding is_lower_def by (intro mod_less) linarith
  with True show ?thesis by (auto simp: to_upper_def is_lower_def)
qed (simp add: to_upper_def)

lemma to_upper_idem [simp]: "to_upper (to_upper c) = to_upper c"
  using not_lower_to_upper [of c] by (simp add: to_upper_def)

text \<open>\<^verbatim>\<open>strcasecmp(a, b) == 0\<close>.\<close>

definition case_eq :: "string \<Rightarrow> string \<Rightarrow> bool" where
  "case_eq a b \<longleftrightarrow> map to_upper a = map to_upper b"

lemma case_eq_refl [simp]: "case_eq a a"
  by (simp add: case_eq_def)

lemma case_eq_sym: "case_eq a b \<longleftrightarrow> case_eq b a"
  by (auto simp: case_eq_def)

lemma case_eq_trans: "case_eq a b \<Longrightarrow> case_eq b c \<Longrightarrow> case_eq a c"
  by (simp add: case_eq_def)

section \<open>Searching in a string\<close>

fun find_idx :: "('a \<Rightarrow> bool) \<Rightarrow> 'a list \<Rightarrow> nat option" where
  "find_idx P [] = None"
| "find_idx P (x # xs) = (if P x then Some 0 else map_option Suc (find_idx P xs))"

definition find_from :: "(char \<Rightarrow> bool) \<Rightarrow> string \<Rightarrow> nat \<Rightarrow> nat option" where
  "find_from P s pos = map_option (\<lambda>i. i + pos) (find_idx P (drop pos s))"

definition find_last :: "(char \<Rightarrow> bool) \<Rightarrow> string \<Rightarrow> nat option" where
  "find_last P s = map_option (\<lambda>i. length s - 1 - i) (find_idx P (rev s))"

definition find_first_of :: "string \<Rightarrow> string \<Rightarrow> nat \<Rightarrow> nat option" where
  "find_first_of s cs pos = find_from (\<lambda>c. c \<in> set cs) s pos"

definition find_first_not_of :: "string \<Rightarrow> string \<Rightarrow> nat \<Rightarrow> nat option" where
  "find_first_not_of s cs pos = find_from (\<lambda>c. c \<notin> set cs) s pos"

definition find_last_of :: "string \<Rightarrow> string \<Rightarrow> nat option" where
  "find_last_of s cs = find_last (\<lambda>c. c \<in> set cs) s"

definition find_last_not_of :: "string \<Rightarrow> string \<Rightarrow> nat option" where
  "find_last_not_of s cs = find_last (\<lambda>c. c \<notin> set cs) s"

text \<open>\<^verbatim>\<open>s.find(pat, pos)\<close> for a pattern string.\<close>

fun starts_with :: "string \<Rightarrow> string \<Rightarrow> bool" where
  "starts_with [] s = True"
| "starts_with (p # ps) [] = False"
| "starts_with (p # ps) (c # cs) = (p = c \<and> starts_with ps cs)"

fun find_sub :: "string \<Rightarrow> string \<Rightarrow> nat option" where
  "find_sub pat [] = (if pat = [] then Some 0 else None)"
| "find_sub pat (c # cs) =
     (if starts_with pat (c # cs) then Some 0 else map_option Suc (find_sub pat cs))"

definition find_str :: "string \<Rightarrow> string \<Rightarrow> nat \<Rightarrow> nat option" where
  "find_str s pat pos =
     (if pos \<le> length s then map_option (\<lambda>i. i + pos) (find_sub pat (drop pos s)) else None)"

section \<open>Editing a string\<close>

text \<open>
  \<^verbatim>\<open>substr\<close> and \<^verbatim>\<open>erase\<close> with a count that may be \<^verbatim>\<open>npos\<close>.  Every call of the
  sources has a start position within the string, so the \<^verbatim>\<open>out_of_range\<close> exception of the
  library cannot arise; \<open>pos_succ\<close> is \<^verbatim>\<open>pos + 1\<close>, which wraps \<^verbatim>\<open>npos\<close> to 0.
\<close>

definition substr :: "string \<Rightarrow> nat \<Rightarrow> nat option \<Rightarrow> string" where
  "substr s pos n = (case n of None \<Rightarrow> drop pos s | Some k \<Rightarrow> take k (drop pos s))"

definition erase :: "string \<Rightarrow> nat \<Rightarrow> nat option \<Rightarrow> string" where
  "erase s pos n = (case n of None \<Rightarrow> take pos s | Some k \<Rightarrow> take pos s @ drop (pos + k) s)"

definition pos_succ :: "nat option \<Rightarrow> nat" where
  "pos_succ p = (case p of None \<Rightarrow> 0 | Some i \<Rightarrow> Suc i)"

definition replace :: "string \<Rightarrow> nat \<Rightarrow> nat \<Rightarrow> string \<Rightarrow> string" where
  "replace s pos n r = take pos s @ r @ drop (pos + n) s"

subsection \<open>Facts\<close>

lemma find_idx_None [cpp_string]: "find_idx P xs = None \<longleftrightarrow> (\<forall>x \<in> set xs. \<not> P x)"
  by (induction xs) auto

lemma find_idx_eq:
  "find_idx P xs =
     (if \<exists>x \<in> set xs. P x then Some (length (takeWhile (\<lambda>x. \<not> P x) xs)) else None)"
  by (induction xs) auto

lemma find_idx_Some [cpp_string]:
  "find_idx P xs = Some i \<longleftrightarrow> i < length xs \<and> P (xs ! i) \<and> (\<forall>x \<in> set (take i xs). \<not> P x)"
proof (induction xs arbitrary: i)
  case (Cons a xs)
  show ?case by (cases i) (auto simp: Cons.IH)
qed simp

lemma drop_length_takeWhile [simp]: "drop (length (takeWhile P xs)) xs = dropWhile P xs"
  by (induction xs) auto

lemma take_length_takeWhile [simp]: "take (length (takeWhile P xs)) xs = takeWhile P xs"
  by (induction xs) auto

lemma erase_leading [cpp_string]:
  "erase s 0 (find_first_not_of s cs 0) = dropWhile (\<lambda>c. c \<in> set cs) s"
  by (auto simp: erase_def find_first_not_of_def find_from_def find_idx_eq
      dest: dropWhile_eq_Nil_conv [THEN iffD2, symmetric])

lemma find_last_eq:
  "find_last P s =
     (if \<exists>x \<in> set s. P x
      then Some (length s - 1 - length (takeWhile (\<lambda>x. \<not> P x) (rev s))) else None)"
  by (simp add: find_last_def find_idx_eq)

lemma length_takeWhile_lt: "x \<in> set xs \<Longrightarrow> \<not> P x \<Longrightarrow> length (takeWhile P xs) < length xs"
  by (induction xs) auto

lemma rev_dropWhile_rev: "rev (dropWhile P (rev s)) = take (length s - length (takeWhile P (rev s))) s"
proof -
  have "dropWhile P (rev s) = drop (length (takeWhile P (rev s))) (rev s)" by simp
  then show ?thesis by (simp add: rev_drop del: drop_length_takeWhile)
qed

lemma erase_trailing [cpp_string]:
  "erase s (pos_succ (find_last_not_of s cs)) None = rev (dropWhile (\<lambda>c. c \<in> set cs) (rev s))"
proof (cases "\<exists>x \<in> set s. x \<notin> set cs")
  case True
  then obtain x where x: "x \<in> set (rev s)" "x \<notin> set cs" by auto
  then have "length (takeWhile (\<lambda>c. c \<in> set cs) (rev s)) < length (rev s)"
    by (rule length_takeWhile_lt)
  with True show ?thesis
    by (simp add: erase_def pos_succ_def find_last_not_of_def find_last_eq rev_dropWhile_rev Suc_diff_Suc)
next
  case False
  then show ?thesis
    by (auto simp: erase_def pos_succ_def find_last_not_of_def find_last_eq dropWhile_eq_Nil_conv)
qed

lemma starts_with_iff: "starts_with p s \<longleftrightarrow> (\<exists>t. s = p @ t)"
  by (induction p s rule: starts_with.induct) auto

lemma starts_with_single [simp]: "starts_with [c] s \<longleftrightarrow> (\<exists>t. s = c # t)"
  by (auto simp: starts_with_iff)

lemma find_sub_single [cpp_string]: "find_sub [c] s = find_idx (\<lambda>x. x = c) s"
  by (induction s) auto

section \<open>Sets and maps of strings\<close>

text \<open>
  A \<^verbatim>\<open>std::set<std::string>\<close> (\<open>sset_t\<close>) is iterated in lexicographic order, and a
  \<^verbatim>\<open>std::map\<close> (\<open>ssmap_t\<close>) in the order of its keys: they are strictly sorted lists.
\<close>

type_synonym sset = "string list"
type_synonym ssmap = "(string \<times> string) list"

fun sset_insert :: "string \<Rightarrow> sset \<Rightarrow> sset" where
  "sset_insert x [] = [x]"
| "sset_insert x (y # ys) =
     (if x < y then x # y # ys else if x = y then y # ys else y # sset_insert x ys)"

fun ssmap_update :: "string \<Rightarrow> string \<Rightarrow> ssmap \<Rightarrow> ssmap" where
  "ssmap_update k v [] = [(k, v)]"
| "ssmap_update k v ((k', v') # m) =
     (if k < k' then (k, v) # (k', v') # m
      else if k = k' then (k, v) # m else (k', v') # ssmap_update k v m)"

definition sset_ok :: "sset \<Rightarrow> bool" where
  "sset_ok s \<longleftrightarrow> sorted_wrt (<) s"

definition ssmap_ok :: "ssmap \<Rightarrow> bool" where
  "ssmap_ok m \<longleftrightarrow> sorted_wrt (<) (map fst m)"

lemma set_sset_insert [simp]: "set (sset_insert x s) = insert x (set s)"
  by (induction s) auto

lemma sset_ok_Nil [simp]: "sset_ok []"
  by (simp add: sset_ok_def)

lemma sset_ok_insert [intro, simp]: "sset_ok s \<Longrightarrow> sset_ok (sset_insert x s)"
  by (induction s) (auto simp: sset_ok_def)

lemma sset_ok_distinct: "sset_ok s \<Longrightarrow> distinct s"
  by (simp add: sset_ok_def strict_sorted_iff)

lemma sset_ok_unique: "sset_ok s \<Longrightarrow> sset_ok t \<Longrightarrow> set s = set t \<Longrightarrow> s = t"
  by (simp add: sset_ok_def strict_sorted_equal)

lemma keys_ssmap_update [simp]: "fst ` set (ssmap_update k v m) = insert k (fst ` set m)"
  by (induction k v m rule: ssmap_update.induct) auto

lemma ssmap_ok_Nil [simp]: "ssmap_ok []"
  by (simp add: ssmap_ok_def)

lemma ssmap_ok_update [intro, simp]: "ssmap_ok m \<Longrightarrow> ssmap_ok (ssmap_update k v m)"
proof (induction k v m rule: ssmap_update.induct)
  case (2 k v k' v' m)
  have "\<forall>x \<in> set (map fst (ssmap_update k v m)). x = k \<or> x \<in> set (map fst m)"
    using keys_ssmap_update [of k v m] by auto
  with 2 show ?case by (fastforce simp: ssmap_ok_def)
qed (simp add: ssmap_ok_def)

lemma map_of_ssmap_update: "ssmap_ok m \<Longrightarrow> map_of (ssmap_update k v m) = (map_of m)(k \<mapsto> v)"
proof (induction k v m rule: ssmap_update.induct)
  case (2 k v k' v' m)
  show ?case
  proof (cases "k < k'")
    case False
    with 2 show ?thesis by (auto simp: ssmap_ok_def fun_eq_iff)
  qed (auto simp: fun_eq_iff)
qed simp

section \<open>First occurrences\<close>

text \<open>The elements of a list once each, in the order of their first occurrences.\<close>

fun firsts :: "'a list \<Rightarrow> 'a list" where
  "firsts [] = []"
| "firsts (x # xs) = x # filter (\<lambda>y. y \<noteq> x) (firsts xs)"

lemma distinct_firsts [simp]: "distinct (firsts xs)"
  by (induction xs) auto

lemma set_firsts [simp]: "set (firsts xs) = set xs"
  by (induction xs) auto

lemma firsts_snoc: "firsts (xs @ [x]) = (if x \<in> set xs then firsts xs else firsts xs @ [x])"
  by (induction xs) auto

lemma firsts_distinct: "distinct xs \<Longrightarrow> firsts xs = xs"
proof (induction xs)
  case (Cons x xs)
  then have "filter (\<lambda>y. y \<noteq> x) xs = xs" by (intro filter_True) auto
  with Cons show ?case by simp
qed simp

end
