(* ===== verification/Sc_Runnable.thy ===== *)
theory Sc_Runnable
  imports Prelude "HOL-Library.Monad_Syntax" "HOL-Library.Multiset"
begin

text \<open>
  The ready-to-run queues of the simulation kernel, class \<^verbatim>\<open>sc_runnable\<close>
  (kernel/sc_runnable.h, kernel/sc_runnable_int.h), with the randomised pops that PSCV adds,
  and the table of existing processes, class \<^verbatim>\<open>sc_process_table\<close>
  (kernel/sc_simcontext.cpp).

  A process is named by the number of its object.  The queues are intrusive singly linked
  lists threaded through the processes' \<^verbatim>\<open>m_runnable_p\<close> fields, so the model keeps the
  pointers: \<open>link\<close> maps a process to its field, a \<open>ptr\<close> is the null pointer, the queue-end
  marker \<^verbatim>\<open>SC_NO_METHODS\<close>/\<^verbatim>\<open>SC_NO_THREADS\<close> (the address 0xdb), or a process.  An
  operation that follows the null pointer or the marker, or that loops forever, has the value
  \<open>None\<close>.  The method queues and the thread queues are two copies of the same code in the
  source; the model has one generic definition per operation, used by both.
\<close>

section \<open>Pointers and queues\<close>

datatype ptr = Null | QEnd | Proc nat

type_synonym link = "nat \<Rightarrow> ptr"

record rqueue =
  push_head :: ptr
  push_tail :: ptr
  pop_q :: ptr

record sc_runnable =
  methods :: rqueue
  threads :: rqueue
  runnable_p :: link

fun get_next :: "link \<Rightarrow> ptr \<Rightarrow> ptr option" where
  "get_next nx (Proc a) = Some (nx a)"
| "get_next nx Null = None"
| "get_next nx QEnd = None"

fun set_next :: "ptr \<Rightarrow> ptr \<Rightarrow> link \<Rightarrow> link option" where
  "set_next (Proc a) v nx = Some (nx(a := v))"
| "set_next Null v nx = None"
| "set_next QEnd v nx = None"

subsection \<open>The operations on one pair of queues\<close>

definition q_ctor :: rqueue where
  "q_ctor = \<lparr>push_head = Null, push_tail = Null, pop_q = QEnd\<rparr>"

text \<open>\<open>fresh\<close> is the process object that \<^verbatim>\<open>new\<close> returns when there is no head yet.\<close>

definition q_init :: "nat \<Rightarrow> rqueue \<Rightarrow> link \<Rightarrow> (rqueue \<times> link) option" where
  "q_init fresh q nx =
     (let q1 = q\<lparr>pop_q := QEnd\<rparr>;
          q2 = (if push_head q1 = Null then q1\<lparr>push_head := Proc fresh\<rparr> else q1);
          q3 = q2\<lparr>push_tail := push_head q2\<rparr>
      in do { nx' \<leftarrow> set_next (push_head q3) QEnd nx; Some (q3, nx') })"

definition q_execute_next :: "nat \<Rightarrow> rqueue \<Rightarrow> link \<Rightarrow> rqueue \<times> link" where
  "q_execute_next p q nx = (q\<lparr>pop_q := Proc p\<rparr>, nx(p := pop_q q))"

definition q_is_empty :: "rqueue \<Rightarrow> link \<Rightarrow> bool option" where
  "q_is_empty q nx = do {
     first \<leftarrow> get_next nx (push_head q);
     Some (first = QEnd \<and> pop_q q = QEnd) }"

definition q_push_back :: "nat \<Rightarrow> rqueue \<Rightarrow> link \<Rightarrow> (rqueue \<times> link) option" where
  "q_push_back p q nx = do {
     let nx1 = nx(p := QEnd);
     nx2 \<leftarrow> set_next (push_tail q) (Proc p) nx1;
     Some (q\<lparr>push_tail := Proc p\<rparr>, nx2) }"

definition q_push_front :: "nat \<Rightarrow> rqueue \<Rightarrow> link \<Rightarrow> (rqueue \<times> link) option" where
  "q_push_front p q nx = do {
     first \<leftarrow> get_next nx (push_head q);
     let nx1 = nx(p := first);
     if push_tail q = push_head q then do {
       nx2 \<leftarrow> set_next (push_tail q) (Proc p) nx1;
       Some (q\<lparr>push_tail := Proc p\<rparr>, nx2) }
     else do {
       nx2 \<leftarrow> set_next (push_head q) (Proc p) nx1;
       Some (q, nx2) } }"

definition q_pop :: "rqueue \<Rightarrow> link \<Rightarrow> (nat option \<times> rqueue \<times> link) option" where
  "q_pop q nx =
     (case pop_q q of
        QEnd \<Rightarrow> Some (None, q, nx)
      | Null \<Rightarrow> None
      | Proc a \<Rightarrow> Some (Some a, q\<lparr>pop_q := nx a\<rparr>, nx(a := Null)))"

text \<open>The two loops of the randomised pops: count the queue, then walk to an index.\<close>

partial_function (option) q_count :: "link \<Rightarrow> ptr \<Rightarrow> nat \<Rightarrow> nat option" where
  "q_count nx p n =
     (case p of QEnd \<Rightarrow> Some n | Null \<Rightarrow> None | Proc a \<Rightarrow> q_count nx (nx a) (Suc n))"

partial_function (option) q_walk ::
  "link \<Rightarrow> nat \<Rightarrow> nat \<Rightarrow> ptr \<Rightarrow> ptr \<Rightarrow> (ptr \<times> nat) option option" where
  "q_walk nx target index prior now =
     (case now of
        QEnd \<Rightarrow> Some None
      | Null \<Rightarrow> None
      | Proc a \<Rightarrow>
          if index = target then Some (Some (prior, a))
          else q_walk nx target (Suc index) now (nx a))"

text \<open>
  \<open>w\<close> is the width of the counter (\<^verbatim>\<open>unsigned int\<close> for methods, \<^verbatim>\<open>unsigned long\<close> for
  threads) and \<open>r\<close> the value that \<^verbatim>\<open>rand()\<close> returns; a count of zero modulo \<open>2 ^ w\<close> is a
  division by zero.
\<close>

definition q_pop_random ::
  "nat \<Rightarrow> nat \<Rightarrow> rqueue \<Rightarrow> link \<Rightarrow> (nat option \<times> rqueue \<times> link) option" where
  "q_pop_random w r q nx =
     (if pop_q q = QEnd then Some (None, q, nx)
      else do {
        c \<leftarrow> q_count nx (pop_q q) 0;
        let n = c mod 2 ^ w;
        if n = 0 then None
        else do {
          hit \<leftarrow> q_walk nx (r mod n) 0 Null (pop_q q);
          case hit of
            None \<Rightarrow> (case pop_q q of Proc a \<Rightarrow> Some (Some a, q, nx) | _ \<Rightarrow> None)
          | Some (prior, a) \<Rightarrow>
              if prior \<noteq> Null then do {
                nx1 \<leftarrow> set_next prior (nx a) nx;
                Some (Some a, q, nx1(a := Null)) }
              else Some (Some a, q\<lparr>pop_q := nx a\<rparr>, nx(a := Null)) } })"

text \<open>The search loop of \<^verbatim>\<open>remove_method\<close>/\<^verbatim>\<open>remove_thread\<close>, with the prior entry.\<close>

partial_function (option) q_search ::
  "link \<Rightarrow> nat \<Rightarrow> ptr \<Rightarrow> ptr \<Rightarrow> ptr option option" where
  "q_search nx target prior now =
     (case now of
        QEnd \<Rightarrow> Some None
      | Null \<Rightarrow> None
      | Proc a \<Rightarrow>
          if a = target then Some (Some prior) else q_search nx target now (nx a))"

definition q_remove :: "nat \<Rightarrow> rqueue \<Rightarrow> link \<Rightarrow> (rqueue \<times> link) option" where
  "q_remove p q nx = do {
     pushed \<leftarrow> q_search nx p (push_head q) (push_head q);
     case pushed of
       Some prior \<Rightarrow> do {
         nx1 \<leftarrow> set_next prior (nx p) nx;
         Some ((if push_tail q = Proc p then q\<lparr>push_tail := prior\<rparr> else q), nx1(p := Null)) }
     | None \<Rightarrow> do {
         popped \<leftarrow> q_search nx p Null (pop_q q);
         case popped of
           None \<Rightarrow> Some (q, nx)
         | Some prior \<Rightarrow>
             if prior \<noteq> Null then do {
               nx1 \<leftarrow> set_next prior (nx p) nx;
               Some (q, nx1(p := Null)) }
             else Some (q\<lparr>pop_q := nx p\<rparr>, nx(p := Null)) } }"

definition q_toggle :: "rqueue \<Rightarrow> link \<Rightarrow> (rqueue \<times> link) option" where
  "q_toggle q nx =
     (if pop_q q = QEnd then do {
        first \<leftarrow> get_next nx (push_head q);
        nx1 \<leftarrow> set_next (push_head q) QEnd nx;
        Some (q\<lparr>pop_q := first, push_tail := push_head q\<rparr>, nx1) }
      else Some (q, nx))"

section \<open>The class sc_runnable\<close>

definition sc_runnable_ctor :: "link \<Rightarrow> sc_runnable" where
  "sc_runnable_ctor nx = \<lparr>methods = q_ctor, threads = q_ctor, runnable_p = nx\<rparr>"

definition runnable_init :: "nat \<Rightarrow> nat \<Rightarrow> sc_runnable \<Rightarrow> sc_runnable option" where
  "runnable_init fresh_m fresh_t s = do {
     (qm, nx1) \<leftarrow> q_init fresh_m (methods s) (runnable_p s);
     (qt, nx2) \<leftarrow> q_init fresh_t (threads s) nx1;
     Some \<lparr>methods = qm, threads = qt, runnable_p = nx2\<rparr> }"

definition is_initialized :: "sc_runnable \<Rightarrow> bool" where
  "is_initialized s \<longleftrightarrow> push_head (methods s) \<noteq> Null \<and> push_head (threads s) \<noteq> Null"

text \<open>The conjunction short-circuits: the thread queue is read when the method queue is empty.\<close>

definition is_empty :: "sc_runnable \<Rightarrow> bool option" where
  "is_empty s = do {
     m \<leftarrow> q_is_empty (methods s) (runnable_p s);
     if m then q_is_empty (threads s) (runnable_p s) else Some False }"

text \<open>Running an operation of one pair of queues on the whole object.\<close>

definition on_methods :: "(rqueue \<Rightarrow> link \<Rightarrow> (rqueue \<times> link) option) \<Rightarrow> sc_runnable \<Rightarrow> sc_runnable option" where
  "on_methods f s = do {
     (q, nx) \<leftarrow> f (methods s) (runnable_p s); Some (s\<lparr>methods := q, runnable_p := nx\<rparr>) }"

definition on_threads :: "(rqueue \<Rightarrow> link \<Rightarrow> (rqueue \<times> link) option) \<Rightarrow> sc_runnable \<Rightarrow> sc_runnable option" where
  "on_threads f s = do {
     (q, nx) \<leftarrow> f (threads s) (runnable_p s); Some (s\<lparr>threads := q, runnable_p := nx\<rparr>) }"

definition popping_methods ::
  "(rqueue \<Rightarrow> link \<Rightarrow> (nat option \<times> rqueue \<times> link) option) \<Rightarrow> sc_runnable \<Rightarrow> (nat option \<times> sc_runnable) option" where
  "popping_methods f s = do {
     (r, q, nx) \<leftarrow> f (methods s) (runnable_p s); Some (r, s\<lparr>methods := q, runnable_p := nx\<rparr>) }"

definition popping_threads ::
  "(rqueue \<Rightarrow> link \<Rightarrow> (nat option \<times> rqueue \<times> link) option) \<Rightarrow> sc_runnable \<Rightarrow> (nat option \<times> sc_runnable) option" where
  "popping_threads f s = do {
     (r, q, nx) \<leftarrow> f (threads s) (runnable_p s); Some (r, s\<lparr>threads := q, runnable_p := nx\<rparr>) }"

definition execute_method_next :: "nat \<Rightarrow> sc_runnable \<Rightarrow> sc_runnable option" where
  "execute_method_next p = on_methods (\<lambda>q nx. Some (q_execute_next p q nx))"

definition execute_thread_next :: "nat \<Rightarrow> sc_runnable \<Rightarrow> sc_runnable option" where
  "execute_thread_next p = on_threads (\<lambda>q nx. Some (q_execute_next p q nx))"

definition push_back_method :: "nat \<Rightarrow> sc_runnable \<Rightarrow> sc_runnable option" where
  "push_back_method p = on_methods (q_push_back p)"

definition push_back_thread :: "nat \<Rightarrow> sc_runnable \<Rightarrow> sc_runnable option" where
  "push_back_thread p = on_threads (q_push_back p)"

definition push_front_method :: "nat \<Rightarrow> sc_runnable \<Rightarrow> sc_runnable option" where
  "push_front_method p = on_methods (q_push_front p)"

definition push_front_thread :: "nat \<Rightarrow> sc_runnable \<Rightarrow> sc_runnable option" where
  "push_front_thread p = on_threads (q_push_front p)"

definition pop_method :: "sc_runnable \<Rightarrow> (nat option \<times> sc_runnable) option" where
  "pop_method = popping_methods q_pop"

definition pop_thread :: "sc_runnable \<Rightarrow> (nat option \<times> sc_runnable) option" where
  "pop_thread = popping_threads q_pop"

definition pop_method_random :: "nat \<Rightarrow> sc_runnable \<Rightarrow> (nat option \<times> sc_runnable) option" where
  "pop_method_random r = popping_methods (q_pop_random 32 r)"

definition pop_thread_random :: "nat \<Rightarrow> sc_runnable \<Rightarrow> (nat option \<times> sc_runnable) option" where
  "pop_thread_random r = popping_threads (q_pop_random 64 r)"

definition remove_method :: "nat \<Rightarrow> sc_runnable \<Rightarrow> sc_runnable option" where
  "remove_method p s = (if is_initialized s then on_methods (q_remove p) s else Some s)"

definition remove_thread :: "nat \<Rightarrow> sc_runnable \<Rightarrow> sc_runnable option" where
  "remove_thread p s = (if is_initialized s then on_threads (q_remove p) s else Some s)"

definition toggle_methods :: "sc_runnable \<Rightarrow> sc_runnable option" where
  "toggle_methods = on_methods q_toggle"

definition toggle_threads :: "sc_runnable \<Rightarrow> sc_runnable option" where
  "toggle_threads = on_threads q_toggle"

section \<open>Reading the pointers as lists\<close>

text \<open>
  \<open>chain nx p xs\<close>: following \<open>nx\<close> from \<open>p\<close> visits exactly the processes \<open>xs\<close> and then
  meets the end marker.  \<open>q_rel q nx h ps xs\<close>: the head object of \<open>q\<close> is \<open>h\<close>, its push queue
  holds \<open>ps\<close> and its pop queue holds \<open>xs\<close>, front first, and no object occurs twice.
\<close>

fun chain :: "link \<Rightarrow> ptr \<Rightarrow> nat list \<Rightarrow> bool" where
  "chain nx p [] \<longleftrightarrow> p = QEnd"
| "chain nx p (x # xs) \<longleftrightarrow> p = Proc x \<and> chain nx (nx x) xs"

definition q_rel :: "rqueue \<Rightarrow> link \<Rightarrow> nat \<Rightarrow> nat list \<Rightarrow> nat list \<Rightarrow> bool" where
  "q_rel q nx h ps xs \<longleftrightarrow>
     push_head q = Proc h \<and> chain nx (Proc h) (h # ps) \<and> push_tail q = Proc (last (h # ps)) \<and>
     chain nx (pop_q q) xs \<and> distinct (h # ps @ xs)"

lemma chain_upd [simp]: "a \<notin> set xs \<Longrightarrow> chain (nx(a := v)) p xs = chain nx p xs"
  by (induction xs arbitrary: p) auto

lemma chain_QEnd [simp]: "chain nx QEnd xs \<longleftrightarrow> xs = []"
  by (cases xs) auto

lemma chain_Null [simp]: "\<not> chain nx Null xs"
  by (cases xs) auto

lemma chain_Proc: "chain nx (Proc a) xs \<longleftrightarrow> (\<exists>ys. xs = a # ys \<and> chain nx (nx a) ys)"
  by (cases xs) auto

lemma chain_append_snoc:
  "chain nx p (xs @ [t]) \<Longrightarrow> a \<notin> set (xs @ [t]) \<Longrightarrow> t \<notin> set xs \<Longrightarrow>
   chain (nx(a := QEnd, t := Proc a)) p (xs @ [t, a])"
  by (induction xs arbitrary: p) auto

lemma chain_unlink:
  "chain nx p (us @ y # a # vs) \<Longrightarrow> distinct (us @ y # a # vs) \<Longrightarrow>
   chain (nx(y := nx a, a := Null)) p (us @ y # vs)"
  by (induction us arbitrary: p) (auto simp: chain_Proc)

lemma chain_mid: "chain nx p (us @ a # vs) \<Longrightarrow> chain nx (nx a) vs"
  by (induction us arbitrary: p) auto

lemma q_rel_frame: "q_rel q nx h ps xs \<Longrightarrow> a \<notin> set (h # ps @ xs) \<Longrightarrow> q_rel q (nx(a := v)) h ps xs"
  by (auto simp: q_rel_def)

lemma q_count_chain: "chain nx p xs \<Longrightarrow> q_count nx p n = Some (n + length xs)"
  by (induction xs arbitrary: p n) (auto simp: q_count.simps)

lemma q_walk_chain:
  "chain nx p xs \<Longrightarrow> i + k = target \<Longrightarrow> k < length xs \<Longrightarrow>
   q_walk nx target i prior p =
     Some (Some (if k = 0 then prior else Proc (xs ! (k - 1)), xs ! k))"
proof (induction xs arbitrary: p i k prior)
  case (Cons x xs)
  show ?case
  proof (cases k)
    case 0
    with Cons.prems show ?thesis by (simp add: q_walk.simps)
  next
    case (Suc k')
    with Cons.prems Cons.IH [of "nx x" "Suc i" k' "Proc x"] show ?thesis
      by (auto simp: q_walk.simps [of nx target i prior] nth_Cons split: nat.splits)
  qed
qed simp

lemma q_search_found:
  "chain nx p (us @ a # vs) \<Longrightarrow> a \<notin> set us \<Longrightarrow>
   q_search nx a prior p = Some (Some (if us = [] then prior else Proc (last us)))"
  by (induction us arbitrary: p prior) (auto simp: q_search.simps)

lemma q_search_missing: "chain nx p xs \<Longrightarrow> a \<notin> set xs \<Longrightarrow> q_search nx a prior p = Some None"
  by (induction xs arbitrary: p prior) (auto simp: q_search.simps)

section \<open>The operations as list operations\<close>

definition drop_nth :: "nat \<Rightarrow> 'a list \<Rightarrow> 'a list" where
  "drop_nth k xs = take k xs @ drop (Suc k) xs"

lemma mset_drop_nth: "k < length xs \<Longrightarrow> add_mset (xs ! k) (mset (drop_nth k xs)) = mset xs"
  by (simp add: drop_nth_def flip: mset_append mset.simps(2) union_mset_add_mset_right)
    (metis Cons_nth_drop_Suc append_take_drop_id mset.simps(2) mset_append union_mset_add_mset_right)

lemma set_drop_nth: "set (drop_nth k xs) \<subseteq> set xs"
  by (auto simp: drop_nth_def dest: in_set_takeD in_set_dropD)

lemma distinct_drop_nth: "distinct xs \<Longrightarrow> distinct (drop_nth k xs)"
  by (simp add: drop_nth_def set_take_disj_set_drop_if_distinct)

lemma length_drop_nth: "k < length xs \<Longrightarrow> length (drop_nth k xs) = length xs - 1"
  by (simp add: drop_nth_def)

lemma q_init_rel:
  "push_head q = Null \<and> h = fresh \<or> push_head q = Proc h \<Longrightarrow>
   \<exists>q'. q_init fresh q nx = Some (q', nx(h := QEnd)) \<and> q_rel q' (nx(h := QEnd)) h [] []"
  by (auto simp: q_init_def q_rel_def Let_def)

lemma q_is_empty_rel:
  "q_rel q nx h ps xs \<Longrightarrow> q_is_empty q nx = Some (ps = [] \<and> xs = [])"
  by (cases ps; cases xs) (auto simp: q_is_empty_def q_rel_def)

lemma q_push_back_rel:
  assumes "q_rel q nx h ps xs" and "p \<notin> set (h # ps @ xs)"
  shows "\<exists>q'. q_push_back p q nx = Some (q', nx(p := QEnd, last (h # ps) := Proc p)) \<and>
           q_rel q' (nx(p := QEnd, last (h # ps) := Proc p)) h (ps @ [p]) xs"
proof -
  let ?t = "last (h # ps)" and ?us = "butlast (h # ps)"
  have split: "h # ps = ?us @ [?t]" by simp
  have "distinct (?us @ [?t])" "p \<notin> set (?us @ [?t])"
    using assms unfolding split [symmetric] by (auto simp: q_rel_def)
  moreover have "chain nx (Proc h) (?us @ [?t])"
    using assms(1) unfolding split [symmetric] by (simp add: q_rel_def)
  ultimately have "chain (nx(p := QEnd, ?t := Proc p)) (Proc h) (?us @ [?t, p])"
    by (intro chain_append_snoc) auto
  then have "chain (nx(p := QEnd, ?t := Proc p)) (Proc h) (h # ps @ [p])"
    using split by (metis append.assoc append_Cons append_Nil)
  moreover have "?t \<notin> set xs"
    using assms(1) last_in_set [of "h # ps"] by (auto simp: q_rel_def)
  ultimately show ?thesis
    using assms by (auto simp: q_push_back_def q_rel_def Let_def)
qed

lemma q_push_front_rel:
  assumes "q_rel q nx h ps xs" and "p \<notin> set (h # ps @ xs)"
  shows "\<exists>q'. q_push_front p q nx = Some (q', nx(p := nx h, h := Proc p)) \<and>
           q_rel q' (nx(p := nx h, h := Proc p)) h (p # ps) xs"
  using assms by (cases ps) (auto simp: q_push_front_def q_rel_def Let_def)

lemma q_execute_next_rel:
  assumes "q_rel q nx h ps xs" and "p \<notin> set (h # ps @ xs)"
  shows "\<exists>q'. q_execute_next p q nx = (q', nx(p := pop_q q)) \<and>
           q_rel q' (nx(p := pop_q q)) h ps (p # xs)"
  using assms by (auto simp: q_execute_next_def q_rel_def)

lemma q_pop_Nil: "q_rel q nx h ps [] \<Longrightarrow> q_pop q nx = Some (None, q, nx)"
  by (auto simp: q_pop_def q_rel_def)

lemma q_pop_Cons:
  "q_rel q nx h ps (x # xs) \<Longrightarrow>
   \<exists>q'. q_pop q nx = Some (Some x, q', nx(x := Null)) \<and> q_rel q' (nx(x := Null)) h ps xs"
  by (auto simp: q_pop_def q_rel_def)

lemma q_pop_random_Nil: "q_rel q nx h ps [] \<Longrightarrow> q_pop_random w r q nx = Some (None, q, nx)"
  by (auto simp: q_pop_random_def q_rel_def)

lemma q_pop_random_Cons:
  fixes r :: nat
  assumes rel: "q_rel q nx h ps xs" and ne: "xs \<noteq> []" and w: "length xs < 2 ^ w"
  defines "k \<equiv> r mod length xs"
  shows "\<exists>q' nx'. q_pop_random w r q nx = Some (Some (xs ! k), q', nx') \<and>
           q_rel q' nx' h ps (drop_nth k xs) \<and> nx' (xs ! k) = Null \<and>
           (\<forall>a. a \<notin> set xs \<longrightarrow> nx' a = nx a)"
proof -
  have k: "k < length xs" using ne by (simp add: k_def)
  have ch: "chain nx (pop_q q) xs" and d: "distinct (h # ps @ xs)"
    using rel by (auto simp: q_rel_def)
  then have nE: "pop_q q \<noteq> QEnd" using ne by auto
  have cnt: "q_count nx (pop_q q) 0 = Some (length xs)"
    using q_count_chain [OF ch] by simp
  have walk: "q_walk nx k 0 Null (pop_q q) =
      Some (Some (if k = 0 then Null else Proc (xs ! (k - 1)), xs ! k))"
    using q_walk_chain [OF ch _ k] by simp
  show ?thesis
  proof (cases k)
    case 0
    have eq: "q_pop_random w r q nx =
        Some (Some (xs ! k), q\<lparr>pop_q := nx (xs ! k)\<rparr>, nx(xs ! k := Null))"
      using walk cnt nE w ne 0 by (simp add: q_pop_random_def Let_def flip: k_def)
    obtain x xs' where xs: "xs = x # xs'" using ne by (cases xs) auto
    with 0 have "xs ! k = x" "drop_nth k xs = xs'" by (simp_all add: drop_nth_def)
    with eq rel xs show ?thesis by (auto simp: q_rel_def)
  next
    case (Suc j)
    define us y a vs where "us = take j xs" and "y = xs ! j" and "a = xs ! k" and "vs = drop (Suc k) xs"
    have xs: "xs = us @ y # a # vs"
      using k Suc by (simp add: us_def y_def a_def vs_def Cons_nth_drop_Suc id_take_nth_drop)
    have dn: "drop_nth k xs = us @ y # vs"
      using k Suc by (simp add: drop_nth_def us_def y_def vs_def take_Suc_conv_app_nth)
    have eq: "q_pop_random w r q nx = Some (Some a, q, nx(y := nx a, a := Null))"
      using walk cnt nE w ne Suc
      by (simp add: q_pop_random_def Let_def a_def y_def flip: k_def)
    have "chain (nx(y := nx a, a := Null)) (pop_q q) (us @ y # vs)"
      using ch d xs by (intro chain_unlink) auto
    with rel d xs have "q_rel q (nx(y := nx a, a := Null)) h ps (us @ y # vs)"
      by (auto simp: q_rel_def)
    moreover have "\<forall>b. b \<notin> set xs \<longrightarrow> (nx(y := nx a, a := Null)) b = nx b" using xs by auto
    moreover have "(nx(y := nx a, a := Null)) a = Null" by simp
    ultimately show ?thesis using eq unfolding dn a_def [symmetric] by blast
  qed
qed

lemma q_toggle_nonempty: "q_rel q nx h ps (x # xs) \<Longrightarrow> q_toggle q nx = Some (q, nx)"
  by (auto simp: q_toggle_def q_rel_def)

lemma q_toggle_rel:
  "q_rel q nx h ps [] \<Longrightarrow>
   \<exists>q'. q_toggle q nx = Some (q', nx(h := QEnd)) \<and> q_rel q' (nx(h := QEnd)) h [] ps"
  by (auto simp: q_toggle_def q_rel_def)

lemma remove1_split: "a \<in> set xs \<Longrightarrow> distinct xs \<Longrightarrow>
  \<exists>us vs. xs = us @ a # vs \<and> remove1 a xs = us @ vs \<and> a \<notin> set us \<and> a \<notin> set vs"
  by (drule split_list) (fastforce simp: remove1_append)

lemma q_remove_missing:
  assumes "q_rel q nx h ps xs" and "p \<notin> set (h # ps @ xs)"
  shows "q_remove p q nx = Some (q, nx)"
proof -
  have "q_search nx p (push_head q) (push_head q) = Some None"
    using assms by (intro q_search_missing [of _ _ "h # ps"]) (auto simp: q_rel_def)
  moreover have "q_search nx p Null (pop_q q) = Some None"
    using assms by (intro q_search_missing [of _ _ xs]) (auto simp: q_rel_def)
  ultimately show ?thesis by (simp add: q_remove_def)
qed

lemma q_remove_pushed:
  assumes rel: "q_rel q nx h ps xs" and p: "p \<in> set ps"
  shows "\<exists>q' nx'. q_remove p q nx = Some (q', nx') \<and> q_rel q' nx' h (remove1 p ps) xs \<and>
           nx' p = Null \<and> (\<forall>a. a \<notin> set (h # ps) \<longrightarrow> nx' a = nx a)"
proof -
  have d: "distinct (h # ps @ xs)" and ch: "chain nx (Proc h) (h # ps)"
    using rel by (auto simp: q_rel_def)
  obtain us vs where ps: "ps = us @ p # vs" "remove1 p ps = us @ vs" "p \<notin> set us" "p \<notin> set vs"
    using remove1_split [OF p] d by auto
  let ?y = "last (h # us)" and ?us = "butlast (h # us)"
  have hus: "h # us = ?us @ [?y]" by simp
  have "q_search nx p (Proc h) (Proc h) = Some (Some (Proc ?y))"
    using q_search_found [of nx "Proc h" "h # us" p vs] ch d ps by auto
  then have eq: "q_remove p q nx =
      Some (if push_tail q = Proc p then q\<lparr>push_tail := Proc ?y\<rparr> else q, nx(?y := nx p, p := Null))"
    using rel by (simp add: q_remove_def q_rel_def)
  have "chain nx (Proc h) (?us @ ?y # p # vs)"
    using ch hus ps(1) by (metis append.assoc append_Cons append_Nil)
  moreover have "distinct (?us @ ?y # p # vs)"
    using d hus ps(1) by (metis append.assoc append_Cons append_Nil distinct_append)
  ultimately have "chain (nx(?y := nx p, p := Null)) (Proc h) (?us @ ?y # vs)"
    by (rule chain_unlink)
  then have "chain (nx(?y := nx p, p := Null)) (Proc h) (h # remove1 p ps)"
    using hus ps(2) by (metis append.assoc append_Cons append_Nil)
  moreover have "?y \<in> set (h # us)" by (rule last_in_set) simp
  moreover from this have "?y \<notin> set xs" using d ps(1) by auto
  moreover have "vs = [] \<Longrightarrow> push_tail q = Proc p"
    and "vs \<noteq> [] \<Longrightarrow> push_tail q = Proc (last vs)"
    using rel ps(1) by (auto simp: q_rel_def)
  ultimately show ?thesis
    using rel ps d eq by (cases "vs = []") (auto simp: q_rel_def split: if_splits)
qed

lemma q_remove_popped:
  assumes rel: "q_rel q nx h ps xs" and p: "p \<in> set xs"
  shows "\<exists>q' nx'. q_remove p q nx = Some (q', nx') \<and> q_rel q' nx' h ps (remove1 p xs) \<and>
           nx' p = Null \<and> (\<forall>a. a \<notin> set xs \<longrightarrow> nx' a = nx a)"
proof -
  have d: "distinct (h # ps @ xs)" and ch: "chain nx (pop_q q) xs"
    using rel by (auto simp: q_rel_def)
  have miss: "q_search nx p (push_head q) (push_head q) = Some None"
    using rel d p by (intro q_search_missing [of _ _ "h # ps"]) (auto simp: q_rel_def)
  obtain us vs where xs: "xs = us @ p # vs" "remove1 p xs = us @ vs" "p \<notin> set us" "p \<notin> set vs"
    using remove1_split [OF p] d by auto
  have found: "q_search nx p Null (pop_q q) = Some (Some (if us = [] then Null else Proc (last us)))"
    using q_search_found [of nx "pop_q q" us p vs] ch xs by auto
  show ?thesis
  proof (cases "us = []")
    case True
    with rel miss found xs show ?thesis by (auto simp: q_remove_def q_rel_def)
  next
    case False
    then obtain us' y where us: "us = us' @ [y]" by (cases us rule: rev_exhaust) auto
    have "chain (nx(y := nx p, p := Null)) (pop_q q) (us' @ y # vs)"
      using ch d xs us by (intro chain_unlink) auto
    with rel miss found xs us d show ?thesis by (auto simp: q_remove_def q_rel_def)
  qed
qed

section \<open>The queues as an abstract machine\<close>

text \<open>
  The operations that the kernel calls on a pair of queues as commands, what each does to the
  two lists (\<open>q_spec\<close>), and what its callers guarantee (\<open>q_guard\<close>): a process is queued
  only when it is not queued already ("Can't queue twice" in the source), and the pop queue
  is shorter than the counter's range.
\<close>

datatype qcmd =
  PushBack nat | PushFront nat | ExecNext nat | Pop | PopRandom nat | Remove nat | Toggle

fun q_spec :: "qcmd \<Rightarrow> nat list \<times> nat list \<Rightarrow> nat option \<times> nat list \<times> nat list" where
  "q_spec (PushBack p) (ps, xs) = (None, ps @ [p], xs)"
| "q_spec (PushFront p) (ps, xs) = (None, p # ps, xs)"
| "q_spec (ExecNext p) (ps, xs) = (None, ps, p # xs)"
| "q_spec Pop (ps, []) = (None, ps, [])"
| "q_spec Pop (ps, x # xs) = (Some x, ps, xs)"
| "q_spec (PopRandom r) (ps, []) = (None, ps, [])"
| "q_spec (PopRandom r) (ps, x # xs) =
     (let k = r mod length (x # xs) in (Some ((x # xs) ! k), ps, drop_nth k (x # xs)))"
| "q_spec (Remove p) (ps, xs) =
     (None, if p \<in> set ps then (remove1 p ps, xs) else (ps, remove1 p xs))"
| "q_spec Toggle (ps, []) = (None, [], ps)"
| "q_spec Toggle (ps, x # xs) = (None, ps, x # xs)"

fun q_guard :: "nat \<Rightarrow> nat \<Rightarrow> qcmd \<Rightarrow> nat list \<times> nat list \<Rightarrow> bool" where
  "q_guard w h (PushBack p) (ps, xs) = (p \<notin> set (h # ps @ xs))"
| "q_guard w h (PushFront p) (ps, xs) = (p \<notin> set (h # ps @ xs))"
| "q_guard w h (ExecNext p) (ps, xs) = (p \<notin> set (h # ps @ xs))"
| "q_guard w h (Remove p) (ps, xs) = (p \<noteq> h)"
| "q_guard w h (PopRandom r) (ps, xs) = (length xs < 2 ^ w)"
| "q_guard w h c (ps, xs) = True"

fun q_adds :: "qcmd \<Rightarrow> nat set" where
  "q_adds (PushBack p) = {p}"
| "q_adds (PushFront p) = {p}"
| "q_adds (ExecNext p) = {p}"
| "q_adds c = {}"

fun q_exec :: "nat \<Rightarrow> qcmd \<Rightarrow> rqueue \<Rightarrow> link \<Rightarrow> (nat option \<times> rqueue \<times> link) option" where
  "q_exec w (PushBack p) q nx = map_option (Pair None) (q_push_back p q nx)"
| "q_exec w (PushFront p) q nx = map_option (Pair None) (q_push_front p q nx)"
| "q_exec w (ExecNext p) q nx = Some (None, q_execute_next p q nx)"
| "q_exec w Pop q nx = q_pop q nx"
| "q_exec w (PopRandom r) q nx = q_pop_random w r q nx"
| "q_exec w (Remove p) q nx = map_option (Pair None) (q_remove p q nx)"
| "q_exec w Toggle q nx = map_option (Pair None) (q_toggle q nx)"

lemma q_exec_refines:
  assumes rel: "q_rel q nx h ps xs" and g: "q_guard w h c (ps, xs)"
    and spec: "q_spec c (ps, xs) = (r, ps', xs')"
  shows "\<exists>q' nx'. q_exec w c q nx = Some (r, q', nx') \<and> q_rel q' nx' h ps' xs' \<and>
           (\<forall>a. a \<notin> set (h # ps @ xs) \<union> q_adds c \<longrightarrow> nx' a = nx a)"
proof (cases c)
  case (PushBack p)
  then show ?thesis
    using q_push_back_rel [OF rel, of p] g spec last_in_set [of "h # ps"]
    by (auto simp del: last.simps)
next
  case (PushFront p)
  then show ?thesis using q_push_front_rel [OF rel, of p] g spec by auto
next
  case (ExecNext p)
  then show ?thesis using q_execute_next_rel [OF rel, of p] g spec by auto
next
  case Pop
  then show ?thesis
    using rel spec q_pop_Nil [of q nx h ps] q_pop_Cons [of q nx h ps "hd xs" "tl xs"]
    by (cases xs) auto
next
  case (PopRandom x)
  then show ?thesis
    using rel spec g q_pop_random_Nil [of q nx h ps] q_pop_random_Cons [OF rel, of w x]
    by (cases xs) (fastforce simp: Let_def)+
next
  case (Remove p)
  then consider "p \<in> set ps" | "p \<notin> set ps" "p \<in> set xs" | "p \<notin> set (h # ps @ xs)"
    using g by auto
  then show ?thesis
  proof cases
    case 1
    then show ?thesis using q_remove_pushed [OF rel] spec Remove by fastforce
  next
    case 2
    then show ?thesis using q_remove_popped [OF rel] spec Remove by fastforce
  next
    case 3
    then show ?thesis using q_remove_missing [OF rel] rel spec Remove by (auto simp: remove1_idem)
  qed
next
  case Toggle
  then show ?thesis
    using rel spec q_toggle_rel [of q nx h ps] q_toggle_nonempty [of q nx h ps "hd xs" "tl xs"]
    by (cases xs) auto
qed

lemma q_spec_set:
  "q_spec c (ps, xs) = (r, ps', xs') \<Longrightarrow> set ps' \<union> set xs' \<subseteq> set ps \<union> set xs \<union> q_adds c"
  using set_drop_nth set_remove1_subset
  by (induction c "(ps, xs)" rule: q_spec.induct) (fastforce simp: Let_def split: if_splits)+

lemma chain_cong: "chain nx p xs \<Longrightarrow> \<forall>a \<in> set xs. nx' a = nx a \<Longrightarrow> chain nx' p xs"
  by (induction xs arbitrary: p) auto

lemma chain_next_not_Null: "chain nx p xs \<Longrightarrow> a \<in> set xs \<Longrightarrow> nx a \<noteq> Null"
proof (induction xs arbitrary: p)
  case (Cons x xs)
  then show ?case by (cases "a = x") auto
qed simp

lemma q_rel_cong:
  "q_rel q nx h ps xs \<Longrightarrow> \<forall>a \<in> set (h # ps @ xs). nx' a = nx a \<Longrightarrow> q_rel q nx' h ps xs"
  using chain_cong [of nx "Proc h" "h # ps" nx'] chain_cong [of nx "pop_q q" xs nx']
  by (auto simp: q_rel_def)

subsection \<open>Both pairs of queues\<close>

record ready =
  m_push :: "nat list"
  m_pop :: "nat list"
  t_push :: "nat list"
  t_pop :: "nat list"

definition refines :: "sc_runnable \<Rightarrow> nat \<Rightarrow> nat \<Rightarrow> ready \<Rightarrow> bool" where
  "refines s hm ht R \<longleftrightarrow>
     q_rel (methods s) (runnable_p s) hm (m_push R) (m_pop R) \<and>
     q_rel (threads s) (runnable_p s) ht (t_push R) (t_pop R) \<and>
     set (hm # m_push R @ m_pop R) \<inter> set (ht # t_push R @ t_pop R) = {}"

datatype rcmd = Methods qcmd | Threads qcmd

fun run_cmd :: "rcmd \<Rightarrow> sc_runnable \<Rightarrow> (nat option \<times> sc_runnable) option" where
  "run_cmd (Methods (PushBack p)) s = map_option (Pair None) (push_back_method p s)"
| "run_cmd (Methods (PushFront p)) s = map_option (Pair None) (push_front_method p s)"
| "run_cmd (Methods (ExecNext p)) s = map_option (Pair None) (execute_method_next p s)"
| "run_cmd (Methods Pop) s = pop_method s"
| "run_cmd (Methods (PopRandom r)) s = pop_method_random r s"
| "run_cmd (Methods (Remove p)) s = map_option (Pair None) (remove_method p s)"
| "run_cmd (Methods Toggle) s = map_option (Pair None) (toggle_methods s)"
| "run_cmd (Threads (PushBack p)) s = map_option (Pair None) (push_back_thread p s)"
| "run_cmd (Threads (PushFront p)) s = map_option (Pair None) (push_front_thread p s)"
| "run_cmd (Threads (ExecNext p)) s = map_option (Pair None) (execute_thread_next p s)"
| "run_cmd (Threads Pop) s = pop_thread s"
| "run_cmd (Threads (PopRandom r)) s = pop_thread_random r s"
| "run_cmd (Threads (Remove p)) s = map_option (Pair None) (remove_thread p s)"
| "run_cmd (Threads Toggle) s = map_option (Pair None) (toggle_threads s)"

fun spec_cmd :: "rcmd \<Rightarrow> ready \<Rightarrow> nat option \<times> ready" where
  "spec_cmd (Methods c) R =
     (case q_spec c (m_push R, m_pop R) of (r, ps, xs) \<Rightarrow> (r, R\<lparr>m_push := ps, m_pop := xs\<rparr>))"
| "spec_cmd (Threads c) R =
     (case q_spec c (t_push R, t_pop R) of (r, ps, xs) \<Rightarrow> (r, R\<lparr>t_push := ps, t_pop := xs\<rparr>))"

fun cmd_ok :: "nat \<Rightarrow> nat \<Rightarrow> rcmd \<Rightarrow> ready \<Rightarrow> bool" where
  "cmd_ok hm ht (Methods c) R \<longleftrightarrow>
     q_guard 32 hm c (m_push R, m_pop R) \<and> q_adds c \<inter> set (ht # t_push R @ t_pop R) = {}"
| "cmd_ok hm ht (Threads c) R \<longleftrightarrow>
     q_guard 64 ht c (t_push R, t_pop R) \<and> q_adds c \<inter> set (hm # m_push R @ m_pop R) = {}"

lemmas runnable_ops_def = push_back_method_def push_back_thread_def push_front_method_def
  push_front_thread_def execute_method_next_def execute_thread_next_def pop_method_def
  pop_thread_def pop_method_random_def pop_thread_random_def remove_method_def remove_thread_def
  toggle_methods_def toggle_threads_def on_methods_def on_threads_def popping_methods_def
  popping_threads_def

lemma run_Methods:
  "is_initialized s \<Longrightarrow> run_cmd (Methods c) s =
     map_option (\<lambda>(r, q, nx). (r, s\<lparr>methods := q, runnable_p := nx\<rparr>)) (q_exec 32 c (methods s) (runnable_p s))"
  by (cases c) (auto simp: runnable_ops_def split: option.splits Option.bind_splits prod.splits)

lemma run_Threads:
  "is_initialized s \<Longrightarrow> run_cmd (Threads c) s =
     map_option (\<lambda>(r, q, nx). (r, s\<lparr>threads := q, runnable_p := nx\<rparr>)) (q_exec 64 c (threads s) (runnable_p s))"
  by (cases c) (auto simp: runnable_ops_def split: option.splits Option.bind_splits prod.splits)

lemma refines_initialized: "refines s hm ht R \<Longrightarrow> is_initialized s"
  by (simp add: refines_def q_rel_def is_initialized_def)

lemma run_cmd_refines:
  assumes R: "refines s hm ht R" and ok: "cmd_ok hm ht c R"
  shows "\<exists>s'. run_cmd c s = Some (fst (spec_cmd c R), s') \<and> refines s' hm ht (snd (spec_cmd c R))"
proof (cases c)
  case (Methods d)
  obtain r ps xs where spec: "q_spec d (m_push R, m_pop R) = (r, ps, xs)" by (metis prod_cases3)
  have rel0: "q_rel (methods s) (runnable_p s) hm (m_push R) (m_pop R)"
    and g: "q_guard 32 hm d (m_push R, m_pop R)"
    using R ok Methods by (simp_all add: refines_def)
  obtain q nx where "q_exec 32 d (methods s) (runnable_p s) = Some (r, q, nx) \<and> q_rel q nx hm ps xs \<and>
      (\<forall>a. a \<notin> set (hm # m_push R @ m_pop R) \<union> q_adds d \<longrightarrow> nx a = runnable_p s a)"
    using q_exec_refines [OF rel0 g spec] by (elim exE)
  then have ex: "q_exec 32 d (methods s) (runnable_p s) = Some (r, q, nx)"
    and rel: "q_rel q nx hm ps xs"
    and fr: "\<And>a. a \<notin> set (hm # m_push R @ m_pop R) \<union> q_adds d \<Longrightarrow> nx a = runnable_p s a"
    by (elim conjE; blast)+
  have keep: "q_rel (threads s) nx ht (t_push R) (t_pop R)"
  proof (rule q_rel_cong)
    show "q_rel (threads s) (runnable_p s) ht (t_push R) (t_pop R)" using R by (simp add: refines_def)
    show "\<forall>a \<in> set (ht # t_push R @ t_pop R). nx a = runnable_p s a"
      using R ok Methods by (intro ballI fr) (auto simp: refines_def)
  qed
  have "set (hm # ps @ xs) \<subseteq> set (hm # m_push R @ m_pop R) \<union> q_adds d"
    using q_spec_set [OF spec] by auto
  moreover have "(set (hm # m_push R @ m_pop R) \<union> q_adds d) \<inter> set (ht # t_push R @ t_pop R) = {}"
    using R ok Methods unfolding refines_def by (simp only: cmd_ok.simps Int_Un_distrib2) simp
  ultimately have disj: "set (hm # ps @ xs) \<inter> set (ht # t_push R @ t_pop R) = {}" by blast
  have "run_cmd c s = Some (r, s\<lparr>methods := q, runnable_p := nx\<rparr>)"
    using run_Methods [OF refines_initialized [OF R], of d] ex Methods by simp
  moreover have "spec_cmd c R = (r, R\<lparr>m_push := ps, m_pop := xs\<rparr>)" using spec Methods by simp
  ultimately show ?thesis using rel keep disj by (simp add: refines_def del: set_append)
next
  case (Threads d)
  obtain r ps xs where spec: "q_spec d (t_push R, t_pop R) = (r, ps, xs)" by (metis prod_cases3)
  have rel0: "q_rel (threads s) (runnable_p s) ht (t_push R) (t_pop R)"
    and g: "q_guard 64 ht d (t_push R, t_pop R)"
    using R ok Threads by (simp_all add: refines_def)
  obtain q nx where "q_exec 64 d (threads s) (runnable_p s) = Some (r, q, nx) \<and> q_rel q nx ht ps xs \<and>
      (\<forall>a. a \<notin> set (ht # t_push R @ t_pop R) \<union> q_adds d \<longrightarrow> nx a = runnable_p s a)"
    using q_exec_refines [OF rel0 g spec] by (elim exE)
  then have ex: "q_exec 64 d (threads s) (runnable_p s) = Some (r, q, nx)"
    and rel: "q_rel q nx ht ps xs"
    and fr: "\<And>a. a \<notin> set (ht # t_push R @ t_pop R) \<union> q_adds d \<Longrightarrow> nx a = runnable_p s a"
    by (elim conjE; blast)+
  have keep: "q_rel (methods s) nx hm (m_push R) (m_pop R)"
  proof (rule q_rel_cong)
    show "q_rel (methods s) (runnable_p s) hm (m_push R) (m_pop R)" using R by (simp add: refines_def)
    show "\<forall>a \<in> set (hm # m_push R @ m_pop R). nx a = runnable_p s a"
      using R ok Threads by (intro ballI fr) (auto simp: refines_def)
  qed
  have "set (ht # ps @ xs) \<subseteq> set (ht # t_push R @ t_pop R) \<union> q_adds d"
    using q_spec_set [OF spec] by auto
  moreover have "set (hm # m_push R @ m_pop R) \<inter> (set (ht # t_push R @ t_pop R) \<union> q_adds d) = {}"
    using R ok Threads unfolding refines_def
    by (simp only: cmd_ok.simps Int_Un_distrib) (simp add: Int_commute)
  ultimately have disj: "set (hm # m_push R @ m_pop R) \<inter> set (ht # ps @ xs) = {}" by blast
  have "run_cmd c s = Some (r, s\<lparr>threads := q, runnable_p := nx\<rparr>)"
    using run_Threads [OF refines_initialized [OF R], of d] ex Threads by simp
  moreover have "spec_cmd c R = (r, R\<lparr>t_push := ps, t_pop := xs\<rparr>)" using spec Threads by simp
  ultimately show ?thesis using rel keep disj by (simp add: refines_def del: set_append)
qed

subsection \<open>Runs of commands\<close>

fun run_cmds :: "rcmd list \<Rightarrow> sc_runnable \<Rightarrow> (nat option list \<times> sc_runnable) option" where
  "run_cmds [] s = Some ([], s)"
| "run_cmds (c # cs) s = do {
     (r, s1) \<leftarrow> run_cmd c s;
     (rs, s2) \<leftarrow> run_cmds cs s1;
     Some (r # rs, s2) }"

fun spec_cmds :: "rcmd list \<Rightarrow> ready \<Rightarrow> nat option list \<times> ready" where
  "spec_cmds [] R = ([], R)"
| "spec_cmds (c # cs) R =
     (let (r, R1) = spec_cmd c R; (rs, R2) = spec_cmds cs R1 in (r # rs, R2))"

fun cmds_ok :: "nat \<Rightarrow> nat \<Rightarrow> rcmd list \<Rightarrow> ready \<Rightarrow> bool" where
  "cmds_ok hm ht [] R = True"
| "cmds_ok hm ht (c # cs) R = (cmd_ok hm ht c R \<and> cmds_ok hm ht cs (snd (spec_cmd c R)))"

definition no_ready :: ready where
  "no_ready = \<lparr>m_push = [], m_pop = [], t_push = [], t_pop = []\<rparr>"

lemma run_cmds_refines:
  "refines s hm ht R \<Longrightarrow> cmds_ok hm ht cs R \<Longrightarrow>
   \<exists>s'. run_cmds cs s = Some (fst (spec_cmds cs R), s') \<and> refines s' hm ht (snd (spec_cmds cs R))"
proof (induction cs arbitrary: s R)
  case (Cons c cs)
  obtain s1 where s1: "run_cmd c s = Some (fst (spec_cmd c R), s1)" "refines s1 hm ht (snd (spec_cmd c R))"
    using run_cmd_refines [OF Cons.prems(1), of c] Cons.prems(2) by auto
  with Cons.IH [OF s1(2)] Cons.prems(2) show ?case by (auto simp: case_prod_beta Let_def)
qed simp

lemma runnable_init_refines:
  assumes "fm \<noteq> ft"
  shows "\<exists>s. runnable_init fm ft (sc_runnable_ctor nx) = Some s \<and> refines s fm ft no_ready"
proof -
  obtain qm where m: "q_init fm q_ctor nx = Some (qm, nx(fm := QEnd))" "q_rel qm (nx(fm := QEnd)) fm [] []"
    using q_init_rel [of q_ctor fm fm nx] by (auto simp: q_ctor_def)
  obtain qt where t: "q_init ft q_ctor (nx(fm := QEnd)) = Some (qt, nx(fm := QEnd, ft := QEnd))"
    "q_rel qt (nx(fm := QEnd, ft := QEnd)) ft [] []"
    using q_init_rel [of q_ctor ft ft "nx(fm := QEnd)"] by (auto simp: q_ctor_def)
  have "q_rel qm (nx(fm := QEnd, ft := QEnd)) fm [] []"
    using q_rel_frame [OF m(2)] assms by auto
  with m t assms show ?thesis
    by (auto simp: runnable_init_def sc_runnable_ctor_def refines_def no_ready_def)
qed

lemma is_empty_refines:
  "refines s hm ht R \<Longrightarrow>
   is_empty s = Some (m_push R = [] \<and> m_pop R = [] \<and> t_push R = [] \<and> t_pop R = [])"
  by (auto simp: refines_def is_empty_def q_is_empty_rel)

section \<open>Random scheduling\<close>

text \<open>
  One evaluation loop of \<^verbatim>\<open>sc_simcontext::crunch\<close> pops until the queue is empty; \<open>drain\<close>
  lists what it pops when \<^verbatim>\<open>rand()\<close> returns the values \<open>rs\<close>.
\<close>

fun drain :: "(nat \<Rightarrow> 'q \<Rightarrow> (nat option \<times> 'q) option) \<Rightarrow> nat list \<Rightarrow> 'q \<Rightarrow> (nat list \<times> 'q) option" where
  "drain pop [] q = Some ([], q)"
| "drain pop (r # rs) q = do {
     (p, q1) \<leftarrow> pop r q;
     case p of
       None \<Rightarrow> Some ([], q1)
     | Some a \<Rightarrow> do { (ys, q2) \<leftarrow> drain pop rs q1; Some (a # ys, q2) } }"

text \<open>The contract of a randomised pop: it removes the entry at \<open>r\<close> modulo the length.\<close>

locale random_pop =
  fixes rel :: "'q \<Rightarrow> nat list \<Rightarrow> bool"
    and pop :: "nat \<Rightarrow> 'q \<Rightarrow> (nat option \<times> 'q) option"
    and bound :: nat
  assumes pop_Nil: "rel q [] \<Longrightarrow> pop r q = Some (None, q)"
    and pop_nth: "rel q xs \<Longrightarrow> xs \<noteq> [] \<Longrightarrow> length xs < bound \<Longrightarrow>
      \<exists>q'. pop r q = Some (Some (xs ! (r mod length xs)), q') \<and> rel q' (drop_nth (r mod length xs) xs)"
begin

lemma drain_perm:
  "rel q xs \<Longrightarrow> length xs < bound \<Longrightarrow> length xs \<le> length rs \<Longrightarrow>
   \<exists>ys q'. drain pop rs q = Some (ys, q') \<and> mset ys = mset xs \<and> rel q' []"
proof (induction rs arbitrary: q xs)
  case (Cons r rs)
  show ?case
  proof (cases "xs = []")
    case True
    with Cons.prems show ?thesis by (auto simp: pop_Nil)
  next
    case False
    let ?k = "r mod length xs"
    have k: "?k < length xs" using False by simp
    obtain q1 where q1: "pop r q = Some (Some (xs ! ?k), q1)" "rel q1 (drop_nth ?k xs)"
      using pop_nth [OF Cons.prems(1) False Cons.prems(2)] by blast
    have "length (drop_nth ?k xs) < bound" "length (drop_nth ?k xs) \<le> length rs"
      using k Cons.prems by (simp_all add: length_drop_nth)
    from Cons.IH [OF q1(2) this] obtain ys q2
      where "drain pop rs q1 = Some (ys, q2)" "mset ys = mset (drop_nth ?k xs)" "rel q2 []"
      by blast
    with q1 mset_drop_nth [OF k] show ?thesis by auto
  qed
qed auto

lemma drain_any:
  "rel q xs \<Longrightarrow> length xs < bound \<Longrightarrow> mset ys = mset xs \<Longrightarrow>
   \<exists>rs q'. length rs = length xs \<and> (\<forall>r \<in> set rs. r < length xs) \<and>
     drain pop rs q = Some (ys, q') \<and> rel q' []"
proof (induction ys arbitrary: q xs)
  case (Cons y ys)
  then have "y \<in> set xs" by (metis list.set_intros(1) set_mset_mset)
  then obtain k where k: "k < length xs" "xs ! k = y" by (auto simp: in_set_conv_nth)
  then obtain q1 where q1: "pop k q = Some (Some y, q1)" "rel q1 (drop_nth k xs)"
    using pop_nth [OF Cons.prems(1) _ Cons.prems(2), of k] by fastforce
  have "mset ys = mset (drop_nth k xs)"
    using mset_drop_nth [OF k(1)] Cons.prems(3) k(2) by (metis add_mset_eq_singleton_iff add_mset_remove_trivial mset.simps(2))
  moreover have "length (drop_nth k xs) < bound"
    using Cons.prems k by (simp add: length_drop_nth)
  ultimately obtain rs q2 where
    "length rs = length (drop_nth k xs)" "\<forall>r \<in> set rs. r < length (drop_nth k xs)"
    "drain pop rs q1 = Some (ys, q2)" "rel q2 []"
    using Cons.IH [OF q1(2)] by blast
  with q1 k show ?case by (intro exI [of _ "k # rs"]) (auto simp: length_drop_nth)
qed auto

end

definition methods_pop_rel :: "sc_runnable \<Rightarrow> nat list \<Rightarrow> bool" where
  "methods_pop_rel s xs \<longleftrightarrow> (\<exists>hm ht R. refines s hm ht R \<and> m_pop R = xs)"

definition threads_pop_rel :: "sc_runnable \<Rightarrow> nat list \<Rightarrow> bool" where
  "threads_pop_rel s xs \<longleftrightarrow> (\<exists>hm ht R. refines s hm ht R \<and> t_pop R = xs)"

interpretation mq: random_pop methods_pop_rel pop_method_random "2 ^ 32"
proof unfold_locales
  fix s r
  assume "methods_pop_rel s []"
  then show "pop_method_random r s = Some (None, s)"
    by (auto simp: methods_pop_rel_def refines_def pop_method_random_def popping_methods_def q_pop_random_Nil)
next
  fix s xs r
  assume rel: "methods_pop_rel s xs" and ne: "xs \<noteq> []" and "length xs < 2 ^ 32"
  then obtain hm ht R where R: "refines s hm ht R" "m_pop R = xs" by (auto simp: methods_pop_rel_def)
  with run_cmd_refines [OF R(1), of "Methods (PopRandom r)"] ne \<open>length xs < 2 ^ 32\<close>
  show "\<exists>s'. pop_method_random r s = Some (Some (xs ! (r mod length xs)), s') \<and>
      methods_pop_rel s' (drop_nth (r mod length xs) xs)"
    by (cases xs) (fastforce simp: methods_pop_rel_def Let_def)+
qed

interpretation tq: random_pop threads_pop_rel pop_thread_random "2 ^ 64"
proof unfold_locales
  fix s r
  assume "threads_pop_rel s []"
  then show "pop_thread_random r s = Some (None, s)"
    by (auto simp: threads_pop_rel_def refines_def pop_thread_random_def popping_threads_def q_pop_random_Nil)
next
  fix s xs r
  assume rel: "threads_pop_rel s xs" and ne: "xs \<noteq> []" and "length xs < 2 ^ 64"
  then obtain hm ht R where R: "refines s hm ht R" "t_pop R = xs" by (auto simp: threads_pop_rel_def)
  with run_cmd_refines [OF R(1), of "Threads (PopRandom r)"] ne \<open>length xs < 2 ^ 64\<close>
  show "\<exists>s'. pop_thread_random r s = Some (Some (xs ! (r mod length xs)), s') \<and>
      threads_pop_rel s' (drop_nth (r mod length xs) xs)"
    by (cases xs) (fastforce simp: threads_pop_rel_def Let_def)+
qed

lemma card_mod_eq:
  assumes "k < n"
  shows "card {r. r < (M::nat) \<and> r mod n = k} = M div n + (if k < M mod n then 1 else 0)"
proof (induction M)
  case (Suc M)
  have "{r. r < Suc M \<and> r mod n = k} =
      (if M mod n = k then insert M {r. r < M \<and> r mod n = k} else {r. r < M \<and> r mod n = k})"
    by (auto simp: less_Suc_eq)
  then have "card {r. r < Suc M \<and> r mod n = k} =
      card {r. r < M \<and> r mod n = k} + (if M mod n = k then 1 else 0)"
    by simp
  with Suc assms show ?case by (auto simp: div_Suc mod_Suc)
qed (use assms in simp)

section \<open>The process table\<close>

text \<open>
  \<^verbatim>\<open>sc_process_table\<close> threads the existing processes of each kind through their
  \<^verbatim>\<open>m_exist_p\<close> fields, null-terminated.  The loop of \<^verbatim>\<open>remove\<close> declares a pointer to the
  prior entry and never advances it; \<open>table_remove_loop\<close> keeps that.
\<close>

record sc_process_table =
  m_method_q :: ptr
  m_thread_q :: ptr

definition process_table_ctor :: sc_process_table where
  "process_table_ctor = \<lparr>m_method_q = Null, m_thread_q = Null\<rparr>"

definition table_push_front_method ::
  "nat \<Rightarrow> sc_process_table \<Rightarrow> link \<Rightarrow> sc_process_table \<times> link" where
  "table_push_front_method p t ex = (t\<lparr>m_method_q := Proc p\<rparr>, ex(p := m_method_q t))"

definition table_push_front_thread ::
  "nat \<Rightarrow> sc_process_table \<Rightarrow> link \<Rightarrow> sc_process_table \<times> link" where
  "table_push_front_thread p t ex = (t\<lparr>m_thread_q := Proc p\<rparr>, ex(p := m_thread_q t))"

partial_function (option) table_remove_loop ::
  "link \<Rightarrow> nat \<Rightarrow> ptr \<Rightarrow> ptr \<Rightarrow> ptr option option" where
  "table_remove_loop ex handle now prior =
     (case now of
        Null \<Rightarrow> Some None
      | QEnd \<Rightarrow> None
      | Proc a \<Rightarrow>
          if a = handle then Some (Some prior) else table_remove_loop ex handle (ex a) prior)"

definition table_remove_method ::
  "nat \<Rightarrow> sc_process_table \<Rightarrow> link \<Rightarrow> (bool \<times> sc_process_table \<times> link) option" where
  "table_remove_method p t ex = do {
     hit \<leftarrow> table_remove_loop ex p (m_method_q t) Null;
     case hit of
       None \<Rightarrow> Some (False, t, ex)
     | Some prior \<Rightarrow>
         if prior \<noteq> Null then do { ex1 \<leftarrow> set_next prior (ex p) ex; Some (True, t, ex1) }
         else Some (True, t\<lparr>m_method_q := ex p\<rparr>, ex) }"

definition table_remove_thread ::
  "nat \<Rightarrow> sc_process_table \<Rightarrow> link \<Rightarrow> (bool \<times> sc_process_table \<times> link) option" where
  "table_remove_thread p t ex = do {
     hit \<leftarrow> table_remove_loop ex p (m_thread_q t) Null;
     case hit of
       None \<Rightarrow> Some (False, t, ex)
     | Some prior \<Rightarrow>
         if prior \<noteq> Null then do { ex1 \<leftarrow> set_next prior (ex p) ex; Some (True, t, ex1) }
         else Some (True, t\<lparr>m_thread_q := ex p\<rparr>, ex) }"

fun exist_list :: "link \<Rightarrow> ptr \<Rightarrow> nat list \<Rightarrow> bool" where
  "exist_list ex p [] \<longleftrightarrow> p = Null"
| "exist_list ex p (x # xs) \<longleftrightarrow> p = Proc x \<and> exist_list ex (ex x) xs"

lemma exist_list_upd [simp]: "a \<notin> set xs \<Longrightarrow> exist_list (ex(a := v)) p xs = exist_list ex p xs"
  by (induction xs arbitrary: p) auto

lemma exist_list_mid: "exist_list ex p (us @ a # vs) \<Longrightarrow> exist_list ex (ex a) vs"
  by (induction us arbitrary: p) auto

lemma table_remove_loop_found:
  "exist_list ex p (us @ a # vs) \<Longrightarrow> a \<notin> set us \<Longrightarrow> table_remove_loop ex a p prior = Some (Some prior)"
  by (induction us arbitrary: p) (auto simp: table_remove_loop.simps)

section \<open>Properties\<close>

text \<open>
  C11. The pointer queues implement four lists.  Whatever sequence of pushes, pops, random
  pops, removals and toggles the kernel issues after \<open>init\<close>, as long as it never queues a
  process that is queued already, no null pointer is followed, every loop ends, the processes
  returned are those of the list specification, and \<open>is_empty\<close> answers for the lists.
\<close>

theorem runnable_refines_lists:
  assumes "fm \<noteq> ft" and "cmds_ok fm ft cs no_ready"
  shows "\<exists>s0 s'. runnable_init fm ft (sc_runnable_ctor nx) = Some s0 \<and>
    run_cmds cs s0 = Some (fst (spec_cmds cs no_ready), s') \<and>
    refines s' fm ft (snd (spec_cmds cs no_ready)) \<and>
    is_empty s' = Some (snd (spec_cmds cs no_ready) = no_ready)"
proof -
  obtain s0 where s0: "runnable_init fm ft (sc_runnable_ctor nx) = Some s0" "refines s0 fm ft no_ready"
    using runnable_init_refines [OF assms(1)] by blast
  obtain s' where s': "run_cmds cs s0 = Some (fst (spec_cmds cs no_ready), s')"
    "refines s' fm ft (snd (spec_cmds cs no_ready))"
    using run_cmds_refines [OF s0(2) assms(2)] by blast
  have "R = no_ready \<longleftrightarrow> m_push R = [] \<and> m_pop R = [] \<and> t_push R = [] \<and> t_pop R = []" for R
    by (auto simp: no_ready_def)
  with is_empty_refines [OF s'(2)] s0 s' show ?thesis by auto
qed

theorem runnable_refines_lists_witness:
  "\<exists>s0 s'. runnable_init 100 200 (sc_runnable_ctor (\<lambda>_. Null)) = Some s0 \<and>
     run_cmds [Methods (PushBack 1), Methods (PushBack 2), Methods (PushFront 3), Methods Toggle,
       Methods (PopRandom 4), Threads (PushBack 7), Methods (Remove 3), Methods Pop] s0 =
       Some ([None, None, None, None, Some 1, None, None, Some 2], s') \<and>
     is_empty s' = Some False"
  using runnable_refines_lists [of 100 200 "[Methods (PushBack 1), Methods (PushBack 2),
    Methods (PushFront 3), Methods Toggle, Methods (PopRandom 4), Threads (PushBack 7),
    Methods (Remove 3), Methods Pop]" "\<lambda>_. Null"]
  by (auto simp: no_ready_def drop_nth_def Let_def)

text \<open>
  C12. The random scheduler can produce every order: for each permutation of the runnable
  methods there are values of \<^verbatim>\<open>rand()\<close>, all smaller than the number of runnable methods,
  that make the pops return exactly that permutation.
\<close>

theorem random_schedule_complete:
  assumes "refines s hm ht R" and "length (m_pop R) < 2 ^ 32" and "mset ys = mset (m_pop R)"
  shows "\<exists>rs s'. length rs = length (m_pop R) \<and> (\<forall>r \<in> set rs. r < length (m_pop R)) \<and>
    drain pop_method_random rs s = Some (ys, s')"
proof -
  have "methods_pop_rel s (m_pop R)" using assms(1) by (auto simp: methods_pop_rel_def)
  from mq.drain_any [OF this assms(2,3)] show ?thesis by blast
qed

definition two_methods :: sc_runnable where
  "two_methods = \<lparr>methods = \<lparr>push_head = Proc 9, push_tail = Proc 9, pop_q = Proc 1\<rparr>,
     threads = \<lparr>push_head = Proc 8, push_tail = Proc 8, pop_q = QEnd\<rparr>,
     runnable_p = (\<lambda>_. Null)(9 := QEnd, 8 := QEnd, 1 := Proc 2, 2 := QEnd)\<rparr>"

lemma two_methods_refines:
  "refines two_methods 9 8 \<lparr>m_push = [], m_pop = [1, 2], t_push = [], t_pop = []\<rparr>"
  by (simp add: two_methods_def refines_def q_rel_def)

theorem random_schedule_complete_witness:
  "(\<exists>rs s'. drain pop_method_random rs two_methods = Some ([2, 1], s')) \<and>
   (\<exists>rs s'. drain pop_method_random rs two_methods = Some ([1, 2], s'))"
  using random_schedule_complete [OF two_methods_refines, of "[2, 1]"]
    random_schedule_complete [OF two_methods_refines, of "[1, 2]"]
  by (auto simp: add_mset_commute)

text \<open>
  No process is lost and none runs twice: whatever \<^verbatim>\<open>rand()\<close> returns, popping the thread
  queue until it is empty returns a permutation of the runnable threads.
\<close>

theorem random_schedule_perm:
  assumes "refines s hm ht R" and "length (t_pop R) < 2 ^ 64" and "length (t_pop R) \<le> length rs"
  shows "\<exists>ys s'. drain pop_thread_random rs s = Some (ys, s') \<and> mset ys = mset (t_pop R) \<and>
    pop_thread_random r s' = Some (None, s')"
proof -
  have "threads_pop_rel s (t_pop R)" using assms(1) by (auto simp: threads_pop_rel_def)
  from tq.drain_perm [OF this assms(2,3)] show ?thesis by (blast intro: tq.pop_Nil)
qed

definition two_threads :: sc_runnable where
  "two_threads = \<lparr>methods = \<lparr>push_head = Proc 9, push_tail = Proc 9, pop_q = QEnd\<rparr>,
     threads = \<lparr>push_head = Proc 8, push_tail = Proc 8, pop_q = Proc 1\<rparr>,
     runnable_p = (\<lambda>_. Null)(9 := QEnd, 8 := QEnd, 1 := Proc 2, 2 := QEnd)\<rparr>"

theorem random_schedule_perm_witness:
  "\<exists>ys s'. drain pop_thread_random [7, 4] two_threads = Some (ys, s') \<and> mset ys = {#1, 2#}"
proof -
  have "refines two_threads 9 8 \<lparr>m_push = [], m_pop = [], t_push = [], t_pop = [1, 2]\<rparr>"
    by (simp add: two_threads_def refines_def q_rel_def)
  from random_schedule_perm [OF this, where rs = "[7, 4]" and r = 0] show ?thesis
    by (auto simp del: drain.simps)
qed

text \<open>
  How often each runnable method is chosen when \<^verbatim>\<open>rand()\<close> ranges over \<open>M\<close> values
  (\<open>RAND_MAX + 1\<close>): the entry at position \<open>k\<close> of \<open>n\<close> is chosen \<open>M div n\<close> times, and once
  more when \<open>k < M mod n\<close>.  So the choice is uniform, as the comment of the source says, only
  when \<open>n\<close> divides \<open>RAND_MAX + 1\<close>; otherwise the entries at the front are favoured.
\<close>

theorem random_pop_distribution:
  assumes "refines s hm ht R" and "k < length (m_pop R)" and "length (m_pop R) < 2 ^ 32"
  shows "card {r. r < M \<and> map_option fst (pop_method_random r s) = Some (Some (m_pop R ! k))} =
    M div length (m_pop R) + (if k < M mod length (m_pop R) then 1 else 0)"
proof -
  let ?xs = "m_pop R"
  have rel: "methods_pop_rel s ?xs" using assms(1) by (auto simp: methods_pop_rel_def)
  have ne: "?xs \<noteq> []" using assms(2) by auto
  have d: "distinct ?xs" using assms(1) by (auto simp: refines_def q_rel_def)
  have "map_option fst (pop_method_random r s) = Some (Some (?xs ! k)) \<longleftrightarrow> r mod length ?xs = k" for r
    using mq.pop_nth [OF rel ne assms(3), of r] d ne assms(2) by (auto simp: nth_eq_iff_index_eq)
  then show ?thesis using card_mod_eq [OF assms(2), of M] by simp
qed

theorem random_pop_distribution_witness:
  "card {r. r < 7 \<and> map_option fst (pop_method_random r two_methods) = Some (Some 1)} = 4 \<and>
   card {r. r < 7 \<and> map_option fst (pop_method_random r two_methods) = Some (Some 2)} = 3"
  using random_pop_distribution [OF two_methods_refines, of 0 7]
    random_pop_distribution [OF two_methods_refines, of 1 7]
  by (simp add: numeral_2_eq_2 [symmetric])

text \<open>
  \<^verbatim>\<open>sc_process_table::remove\<close> is right for the first entry only: removing a method drops
  it together with every entry in front of it, because the pointer to the prior entry is never
  advanced.
\<close>

theorem process_table_remove_truncates:
  assumes "exist_list ex (m_method_q t) (us @ p # vs)" and "p \<notin> set us"
  shows "\<exists>t'. table_remove_method p t ex = Some (True, t', ex) \<and> exist_list ex (m_method_q t') vs"
  using table_remove_loop_found [OF assms, of Null] exist_list_mid [OF assms(1)]
  by (simp add: table_remove_method_def)

theorem process_table_remove_truncates_witness:
  "\<exists>t'. table_remove_method 2 \<lparr>m_method_q = Proc 1, m_thread_q = Null\<rparr>
      ((\<lambda>_. Null)(1 := Proc 2, 2 := Proc 3)) =
      Some (True, t', (\<lambda>_. Null)(1 := Proc 2, 2 := Proc 3)) \<and>
    exist_list ((\<lambda>_. Null)(1 := Proc 2, 2 := Proc 3)) (m_method_q t') [3]"
  by (rule process_table_remove_truncates [where us = "[1]"]) simp_all

end
