(* ===== verification/Sc_Pq.thy ===== *)
theory Sc_Pq
  imports Prelude "HOL-Library.Multiset" "HOL-Library.Word"
begin

text \<open>
  The priority queue of utils/sc_pq.h and utils/sc_pq.cpp, class \<^verbatim>\<open>sc_ppq_base\<close>: a binary
  heap in an array indexed from 1, with a comparison function that the caller supplies.  The
  simulation context keeps the timed notifications in it (\<^verbatim>\<open>m_timed_events\<close>).

  \<open>m_heap\<close> is the array as a function of the index; cells above \<open>m_heap_size\<close> hold whatever
  the allocation left there.  The proofs show that no operation writes a cell outside
  1 .. \<open>m_heap_size\<close> and that \<open>m_heap_size\<close> never exceeds \<open>m_size_alloc\<close>, so every access is
  within the \<open>m_size_alloc + 1\<close> allocated cells.
\<close>

section \<open>The code\<close>

record 'a ppq =
  m_heap :: "nat \<Rightarrow> 'a"
  m_size_alloc :: nat
  m_heap_size :: nat

text \<open>\<open>junk\<close> is the contents of a fresh allocation.\<close>

definition ppq_ctor :: "(nat \<Rightarrow> 'a) \<Rightarrow> nat \<Rightarrow> 'a \<Rightarrow> 'a ppq" where
  "ppq_ctor junk sz zero =
     (let alloc = (if sz < 2 then 2 else sz)
      in \<lparr>m_heap = (\<lambda>i. if i < alloc then zero else junk i), m_size_alloc = alloc, m_heap_size = 0\<rparr>)"

definition pq_top :: "'a ppq \<Rightarrow> 'a" where
  "pq_top q = m_heap q 1"

definition pq_size :: "'a ppq \<Rightarrow> nat" where
  "pq_size q = m_heap_size q"

definition pq_empty :: "'a ppq \<Rightarrow> bool" where
  "pq_empty q \<longleftrightarrow> m_heap_size q = 0"

definition pq_parent :: "nat \<Rightarrow> nat" where "pq_parent i = i div 2"
definition pq_left :: "nat \<Rightarrow> nat" where "pq_left i = i * 2"
definition pq_right :: "nat \<Rightarrow> nat" where "pq_right i = i * 2 + 1"

function heapify :: "('a \<Rightarrow> 'a \<Rightarrow> int) \<Rightarrow> nat \<Rightarrow> (nat \<Rightarrow> 'a) \<Rightarrow> nat \<Rightarrow> (nat \<Rightarrow> 'a)" where
  "heapify cmp n h i =
     (let l = pq_left i in
      if l \<le> n then
        (let largest = (if cmp (h l) (h i) > 0 then l else i);
             r = pq_right i;
             largest' = (if r \<le> n \<and> cmp (h r) (h largest) > 0 then r else largest)
         in if largest' \<noteq> i
            then heapify cmp n (h(i := h largest', largest' := h i)) largest'
            else h)
      else h)"
  by pat_completeness auto
termination
  by (relation "measure (\<lambda>(cmp, n, h, i). Suc n - i)") (auto simp: pq_left_def pq_right_def split: if_splits)

declare heapify.simps [simp del]

text \<open>\<^verbatim>\<open>assert( m_heap_size > 0 )\<close> fails on an empty queue: \<open>None\<close>.\<close>

definition extract_top :: "('a \<Rightarrow> 'a \<Rightarrow> int) \<Rightarrow> 'a ppq \<Rightarrow> ('a \<times> 'a ppq) option" where
  "extract_top cmp q =
     (if m_heap_size q = 0 then None
      else let topelem = m_heap q 1;
               h = (m_heap q)(1 := m_heap q (m_heap_size q));
               n = m_heap_size q - 1
           in Some (topelem, q\<lparr>m_heap := heapify cmp n h 1, m_heap_size := n\<rparr>))"

function sift_up :: "('a \<Rightarrow> 'a \<Rightarrow> int) \<Rightarrow> 'a \<Rightarrow> (nat \<Rightarrow> 'a) \<Rightarrow> nat \<Rightarrow> (nat \<Rightarrow> 'a)" where
  "sift_up cmp elem h i =
     (if i > 1 \<and> cmp (h (pq_parent i)) elem < 0
      then sift_up cmp elem (h(i := h (pq_parent i))) (pq_parent i)
      else h(i := elem))"
  by pat_completeness auto
termination
  by (relation "measure (\<lambda>(cmp, elem, h, i). i)") (auto simp: pq_parent_def)

declare sift_up.simps [simp del]

definition pq_insert :: "('a \<Rightarrow> 'a \<Rightarrow> int) \<Rightarrow> (nat \<Rightarrow> 'a) \<Rightarrow> 'a \<Rightarrow> 'a ppq \<Rightarrow> 'a ppq" where
  "pq_insert cmp junk elem q =
     (let n = m_heap_size q + 1;
          grow = n > m_size_alloc q;
          alloc = (if grow then m_size_alloc q + m_size_alloc q div 2 else m_size_alloc q);
          h = (if grow then (\<lambda>j. if 1 \<le> j \<and> j < n then m_heap q j else junk j) else m_heap q)
      in \<lparr>m_heap = sift_up cmp elem h n, m_size_alloc = alloc, m_heap_size = n\<rparr>)"

section \<open>What the comparison function must satisfy\<close>

locale comparator =
  fixes cmp :: "'a \<Rightarrow> 'a \<Rightarrow> int"
  assumes cmp_sym: "cmp a b < 0 \<longleftrightarrow> 0 < cmp b a"
    and cmp_trans: "cmp a b \<le> 0 \<Longrightarrow> cmp b c \<le> 0 \<Longrightarrow> cmp a c \<le> 0"
begin

lemma cmp_total: "cmp a b \<le> 0 \<or> cmp b a \<le> 0"
  using cmp_sym by (meson linorder_not_le order_less_imp_le)

lemma cmp_refl: "cmp a a \<le> 0"
  using cmp_total by blast

lemma not_pos: "\<not> 0 < cmp a b \<longleftrightarrow> cmp a b \<le> 0"
  by auto

lemma not_neg: "\<not> cmp a b < 0 \<longleftrightarrow> cmp b a \<le> 0"
  using cmp_sym by (auto simp: not_less)

lemma pos_le: "0 < cmp a b \<Longrightarrow> cmp b a \<le> 0"
  using cmp_sym by (simp add: order_less_imp_le)

end

text \<open>The heap order on the cells 1 .. \<open>n\<close>, and the queue's contents.\<close>

definition heap_ok :: "('a \<Rightarrow> 'a \<Rightarrow> int) \<Rightarrow> nat \<Rightarrow> (nat \<Rightarrow> 'a) \<Rightarrow> bool" where
  "heap_ok cmp n h \<longleftrightarrow> (\<forall>j. 2 \<le> j \<and> j \<le> n \<longrightarrow> cmp (h j) (h (pq_parent j)) \<le> 0)"

definition cells :: "nat \<Rightarrow> (nat \<Rightarrow> 'a) \<Rightarrow> 'a multiset" where
  "cells n h = image_mset h (mset_set {1..n})"

definition pq_elems :: "'a ppq \<Rightarrow> 'a multiset" where
  "pq_elems q = cells (m_heap_size q) (m_heap q)"

definition pq_ok :: "('a \<Rightarrow> 'a \<Rightarrow> int) \<Rightarrow> 'a ppq \<Rightarrow> bool" where
  "pq_ok cmp q \<longleftrightarrow> 2 \<le> m_size_alloc q \<and> m_heap_size q \<le> m_size_alloc q \<and>
     heap_ok cmp (m_heap_size q) (m_heap q)"

lemma cells_upd:
  assumes "1 \<le> i" "i \<le> n"
  shows "cells n (h(i := v)) = add_mset v (cells n h - {#h i#})"
proof -
  have S: "{1..n} = insert i ({1..n} - {i})" using assms by auto
  have m: "mset_set {1..n} = add_mset i (mset_set ({1..n} - {i}))"
    by (subst S) (rule mset_set.insert, simp_all)
  have "image_mset (h(i := v)) (mset_set ({1..n} - {i})) = image_mset h (mset_set ({1..n} - {i}))"
    by (rule image_mset_cong) auto
  with m show ?thesis by (simp add: cells_def)
qed

lemma in_cells: "1 \<le> i \<Longrightarrow> i \<le> n \<Longrightarrow> h i \<in># cells n h"
  by (auto simp: cells_def)

lemma cells_swap:
  assumes "1 \<le> i" "i \<le> n" "1 \<le> j" "j \<le> n"
  shows "cells n (h(i := h j, j := h i)) = cells n h"
proof (cases "i = j")
  case False
  let ?B = "cells n h - {#h i#}"
  have A: "cells n h = add_mset (h i) ?B" using assms in_cells [of i n h] by simp
  have "cells n (h(i := h j)) = add_mset (h j) ?B" using assms by (simp add: cells_upd)
  then have "cells n (h(i := h j, j := h i)) = add_mset (h i) (add_mset (h j) ?B - {#h j#})"
    using assms False by (simp add: cells_upd)
  then show ?thesis using A by simp
qed simp

lemma cells_Suc: "cells (Suc n) h = add_mset (h (Suc n)) (cells n h)"
proof -
  have "{1..Suc n} = insert (Suc n) {1..n}" by auto
  then show ?thesis by (simp add: cells_def)
qed

lemma cells_cong: "(\<And>j. 1 \<le> j \<Longrightarrow> j \<le> n \<Longrightarrow> h j = h' j) \<Longrightarrow> cells n h = cells n h'"
  by (auto simp: cells_def intro!: image_mset_cong)

section \<open>Sifting\<close>

text \<open>The index that one turn of \<^verbatim>\<open>heapify\<close> moves to, and the turn written with it.\<close>

definition largest :: "('a \<Rightarrow> 'a \<Rightarrow> int) \<Rightarrow> nat \<Rightarrow> (nat \<Rightarrow> 'a) \<Rightarrow> nat \<Rightarrow> nat" where
  "largest cmp n h i =
     (let m = (if cmp (h (2 * i)) (h i) > 0 then 2 * i else i)
      in if 2 * i + 1 \<le> n \<and> cmp (h (2 * i + 1)) (h m) > 0 then 2 * i + 1 else m)"

lemma heapify_step:
  "heapify cmp n h i =
     (if 2 * i \<le> n \<and> largest cmp n h i \<noteq> i
      then heapify cmp n (h(i := h (largest cmp n h i), largest cmp n h i := h i)) (largest cmp n h i)
      else h)"
  using heapify.simps [of cmp n h i]
  by (simp only: largest_def Let_def pq_left_def pq_right_def mult.commute [of i]) (auto simp del: fun_upd_apply)

lemma largest_child: "largest cmp n h i \<noteq> i \<Longrightarrow> largest cmp n h i = 2 * i \<or> largest cmp n h i = 2 * i + 1"
  by (auto simp: largest_def Let_def split: if_splits)

lemma largest_le: "2 * i \<le> n \<Longrightarrow> largest cmp n h i \<le> n"
  by (auto simp: largest_def Let_def)

lemma heapify_rule:
  assumes "1 \<le> i" "P h i"
    and step: "\<And>h i m. 1 \<le> i \<Longrightarrow> P h i \<Longrightarrow> m = 2 * i \<or> m = 2 * i + 1 \<Longrightarrow> m \<le> n \<Longrightarrow>
      m = largest cmp n h i \<Longrightarrow> P (h(i := h m, m := h i)) m"
    and stop: "\<And>h i. 1 \<le> i \<Longrightarrow> P h i \<Longrightarrow> \<not> (2 * i \<le> n \<and> largest cmp n h i \<noteq> i) \<Longrightarrow> Q h"
  shows "Q (heapify cmp n h i)"
  using assms(1,2)
proof (induction "Suc n - i" arbitrary: h i rule: less_induct)
  case less
  show ?case
  proof (cases "2 * i \<le> n \<and> largest cmp n h i \<noteq> i")
    case True
    let ?m = "largest cmp n h i"
    have m: "?m = 2 * i \<or> ?m = 2 * i + 1" "?m \<le> n" using True largest_child largest_le by blast+
    then have "Suc n - ?m < Suc n - i" "1 \<le> ?m" using less.prems by auto
    with less.hyps step [OF less.prems m refl] have "Q (heapify cmp n (h(i := h ?m, ?m := h i)) ?m)"
      by blast
    with heapify_step [of cmp n h i] True show ?thesis by presburger
  next
    case False
    have "heapify cmp n h i = h" using heapify_step [of cmp n h i] False by presburger
    with stop [OF less.prems False] show ?thesis by simp
  qed
qed

lemma heapify_cells: "1 \<le> i \<Longrightarrow> cells n (heapify cmp n h i) = cells n h"
  by (rule heapify_rule [where P = "\<lambda>g i. cells n g = cells n h" and i = i])
    (auto simp del: fun_upd_apply simp: cells_swap)

lemma heapify_frame: "1 \<le> i \<Longrightarrow> j < 1 \<or> n < j \<Longrightarrow> heapify cmp n h i j = h j"
  by (rule heapify_rule [where P = "\<lambda>g i. g j = h j" and i = i]) auto

lemma sift_up_frame: "j < 1 \<or> i < j \<Longrightarrow> 1 \<le> i \<Longrightarrow> sift_up cmp e h i j = h j"
proof (induction cmp e h i rule: sift_up.induct)
  case (1 cmp e h i)
  show ?case
  proof (cases "i > 1 \<and> cmp (h (pq_parent i)) e < 0")
    case True
    then have "1 \<le> pq_parent i" "pq_parent i < i" by (auto simp: pq_parent_def)
    with "1.IH" [OF True] "1.prems" have "sift_up cmp e (h(i := h (pq_parent i))) (pq_parent i) j = h j"
      by (auto simp: fun_upd_def)
    with sift_up.simps [of cmp e h i] True show ?thesis by presburger
  next
    case False
    with sift_up.simps [of cmp e h i] "1.prems" show ?thesis by auto
  qed
qed

lemma sift_up_cells:
  "1 \<le> i \<Longrightarrow> i \<le> n \<Longrightarrow> cells n (sift_up cmp e h i) = cells n (h(i := e))"
proof (induction cmp e h i rule: sift_up.induct)
  case (1 cmp e h i)
  show ?case
  proof (cases "i > 1 \<and> cmp (h (pq_parent i)) e < 0")
    case True
    let ?p = "pq_parent i" and ?h = "h(i := e)"
    have p: "1 \<le> ?p" "?p \<le> n" "?p \<noteq> i" using True "1.prems" by (auto simp: pq_parent_def)
    have "h(i := h ?p, ?p := e) = ?h(i := ?h ?p, ?p := ?h i)" using p by auto
    then have eq: "cells n (h(i := h ?p, ?p := e)) = cells n ?h"
      using cells_swap [of i n ?p ?h] p "1.prems" by (simp del: fun_upd_apply)
    have "sift_up cmp e h i = sift_up cmp e (h(i := h ?p)) ?p"
      using sift_up.simps [of cmp e h i] True by presburger
    with "1.IH" [OF True p(1,2)] eq show ?thesis by (simp del: fun_upd_apply)
  next
    case False
    have "sift_up cmp e h i = h(i := e)" using sift_up.simps [of cmp e h i] False by presburger
    then show ?thesis by simp
  qed
qed

text \<open>The heap order everywhere except below the hole \<open>i\<close>, whose children are below its parent.\<close>

definition heap_but :: "('a \<Rightarrow> 'a \<Rightarrow> int) \<Rightarrow> nat \<Rightarrow> (nat \<Rightarrow> 'a) \<Rightarrow> nat \<Rightarrow> bool" where
  "heap_but cmp n h i \<longleftrightarrow>
     (\<forall>j. 2 \<le> j \<and> j \<le> n \<and> pq_parent j \<noteq> i \<longrightarrow> cmp (h j) (h (pq_parent j)) \<le> 0) \<and>
     (\<forall>j. 2 \<le> j \<and> j \<le> n \<and> pq_parent j = i \<and> 2 \<le> i \<longrightarrow> cmp (h j) (h (pq_parent i)) \<le> 0)"

text \<open>The heap order once \<open>e\<close> is put in the hole \<open>i\<close>, but for \<open>i\<close> and its parent.\<close>

definition heap_hole :: "('a \<Rightarrow> 'a \<Rightarrow> int) \<Rightarrow> nat \<Rightarrow> 'a \<Rightarrow> (nat \<Rightarrow> 'a) \<Rightarrow> nat \<Rightarrow> bool" where
  "heap_hole cmp n e h i \<longleftrightarrow>
     (\<forall>j. 2 \<le> j \<and> j \<le> n \<and> j \<noteq> i \<longrightarrow> cmp ((h(i := e)) j) ((h(i := e)) (pq_parent j)) \<le> 0) \<and>
     (\<forall>j. 2 \<le> j \<and> j \<le> n \<and> pq_parent j = i \<and> 2 \<le> i \<longrightarrow> cmp (h j) (h (pq_parent i)) \<le> 0)"

lemma child_iff: "1 \<le> i \<Longrightarrow> pq_parent j = i \<longleftrightarrow> j = 2 * i \<or> j = 2 * i + 1"
  by (auto simp: pq_parent_def)

context comparator
begin

lemma largest_ge:
  assumes "j \<le> n" "j = i \<or> j = 2 * i \<or> j = 2 * i + 1"
  shows "cmp (h j) (h (largest cmp n h i)) \<le> 0"
proof -
  let ?m = "if cmp (h (2 * i)) (h i) > 0 then 2 * i else i"
  have m: "cmp (h i) (h ?m) \<le> 0" "cmp (h (2 * i)) (h ?m) \<le> 0"
    using pos_le cmp_refl by auto
  show ?thesis
  proof (cases "2 * i + 1 \<le> n \<and> cmp (h (2 * i + 1)) (h ?m) > 0")
    case True
    then have "largest cmp n h i = 2 * i + 1" by (auto simp: largest_def Let_def)
    moreover have "cmp (h ?m) (h (2 * i + 1)) \<le> 0" using True pos_le by blast
    moreover have "cmp (h i) (h (2 * i + 1)) \<le> 0" "cmp (h (2 * i)) (h (2 * i + 1)) \<le> 0"
      using m calculation(2) cmp_trans by blast+
    ultimately show ?thesis using assms(2) cmp_refl by (elim disjE) simp_all
  next
    case False
    then have "largest cmp n h i = ?m" unfolding largest_def Let_def by (rule if_not_P)
    moreover have "2 * i + 1 \<le> n \<Longrightarrow> cmp (h (2 * i + 1)) (h ?m) \<le> 0" using False not_pos by blast
    ultimately show ?thesis using assms m by (elim disjE) (simp_all del: if_split)
  qed
qed

lemma heap_but_stop:
  assumes "1 \<le> i" "heap_but cmp n h i" "\<not> (2 * i \<le> n \<and> largest cmp n h i \<noteq> i)"
  shows "heap_ok cmp n h"
  unfolding heap_ok_def
proof (intro allI impI)
  fix j assume j: "2 \<le> j \<and> j \<le> n"
  show "cmp (h j) (h (pq_parent j)) \<le> 0"
  proof (cases "pq_parent j = i")
    case True
    then have c: "j = 2 * i \<or> j = 2 * i + 1" using assms(1) child_iff by blast
    then have "largest cmp n h i = i" using assms(3) j by auto
    then show ?thesis using largest_ge [of j n i h] j c True by auto
  next
    case False
    with assms(2) j show ?thesis by (simp add: heap_but_def)
  qed
qed

lemma heap_but_step:
  assumes i: "1 \<le> i" and H: "heap_but cmp n h i" and m: "m = 2 * i \<or> m = 2 * i + 1" "m \<le> n"
    and l: "m = largest cmp n h i"
  shows "heap_but cmp n (h(i := h m, m := h i)) m"
proof -
  let ?h = "h(i := h m, m := h i)"
  have im: "i \<noteq> m" "pq_parent m = i" using m(1) i by (auto simp: child_iff)
  have "cmp (?h j) (?h (pq_parent j)) \<le> 0" if j: "2 \<le> j" "j \<le> n" "pq_parent j \<noteq> m" for j
  proof (cases "pq_parent j = i")
    case True
    then have c: "j = 2 * i \<or> j = 2 * i + 1" using i child_iff by blast
    then have "j \<noteq> i" using i by auto
    from c have "cmp (h j) (h m) \<le> 0" "cmp (h i) (h m) \<le> 0"
      using largest_ge [of j n i h] largest_ge [of i n i h] l j m i by auto
    with True im \<open>j \<noteq> i\<close> show ?thesis by (cases "j = m") auto
  next
    case False
    have jm: "j \<noteq> m" using False im by blast
    have "j = i \<Longrightarrow> cmp (h m) (h (pq_parent i)) \<le> 0" using H m im j by (auto simp: heap_but_def)
    moreover have "j \<noteq> i \<Longrightarrow> cmp (h j) (h (pq_parent j)) \<le> 0"
      using H j False by (auto simp: heap_but_def)
    ultimately show ?thesis using jm False j by auto
  qed
  moreover have "cmp (?h j) (?h (pq_parent m)) \<le> 0" if j: "2 \<le> j" "j \<le> n" "pq_parent j = m" for j
  proof -
    have "j \<noteq> i" "j \<noteq> m" "pq_parent j \<noteq> i" using j m(1) i by (auto simp: pq_parent_def)
    moreover from this have "cmp (h j) (h m) \<le> 0" using H j by (auto simp: heap_but_def)
    ultimately show ?thesis using im by auto
  qed
  ultimately show ?thesis by (simp add: heap_but_def del: fun_upd_apply)
qed

lemma heapify_heap: "1 \<le> i \<Longrightarrow> heap_but cmp n h i \<Longrightarrow> heap_ok cmp n (heapify cmp n h i)"
  by (erule heapify_rule [where P = "heap_but cmp n"])
    (assumption | rule heap_but_step heap_but_stop)+

lemma sift_up_heap:
  assumes "1 \<le> i" "heap_hole cmp n e h i"
  shows "heap_ok cmp n (sift_up cmp e h i)"
  using assms
proof (induction "i" arbitrary: h rule: less_induct)
  case (less i)
  let ?p = "pq_parent i"
  note eq = sift_up.simps [of cmp e h i]
  have H: "\<And>j. 2 \<le> j \<Longrightarrow> j \<le> n \<Longrightarrow> j \<noteq> i \<Longrightarrow> cmp ((h(i := e)) j) ((h(i := e)) (pq_parent j)) \<le> 0"
    and G: "\<And>j. 2 \<le> i \<Longrightarrow> 2 \<le> j \<Longrightarrow> j \<le> n \<Longrightarrow> pq_parent j = i \<Longrightarrow> cmp (h j) (h ?p) \<le> 0"
    using less.prems by (simp_all add: heap_hole_def)
  show ?case
  proof (cases "i > 1 \<and> cmp (h ?p) e < 0")
    case True
    then have p: "1 \<le> ?p" "?p < i" and pe: "cmp (h ?p) e \<le> 0" by (auto simp: pq_parent_def)
    have sib: "cmp (h j) (h ?p) \<le> 0" if "2 \<le> j" "j \<le> n" "pq_parent j = ?p" "j \<noteq> i" for j
      using H [of j] that p by auto
    have "heap_hole cmp n e (h(i := h ?p)) ?p"
      unfolding heap_hole_def
    proof (intro conjI allI impI)
      fix j assume j: "2 \<le> j \<and> j \<le> n \<and> j \<noteq> ?p"
      consider "j = i" | "j \<noteq> i" "pq_parent j = i" | "j \<noteq> i" "pq_parent j = ?p"
        | "j \<noteq> i" "pq_parent j \<noteq> i" "pq_parent j \<noteq> ?p" by blast
      then show "cmp ((h(i := h ?p, ?p := e)) j) ((h(i := h ?p, ?p := e)) (pq_parent j)) \<le> 0"
      proof cases
        case 1
        with p pe show ?thesis by auto
      next
        case 2
        with G [of j] j p True show ?thesis by auto
      next
        case 3
        with sib [of j] j p pe cmp_trans show ?thesis by auto
      next
        case 4
        with H [of j] j show ?thesis by auto
      qed
    next
      fix j assume j: "2 \<le> j \<and> j \<le> n \<and> pq_parent j = ?p \<and> 2 \<le> ?p"
      have pp: "pq_parent ?p \<noteq> i" "pq_parent ?p \<noteq> ?p" using p j by (auto simp: pq_parent_def)
      show "cmp ((h(i := h ?p)) j) ((h(i := h ?p)) (pq_parent ?p)) \<le> 0"
      proof (cases "j = i")
        case True
        then have "?p \<le> n" "2 \<le> ?p" using j p by auto
        with H [of ?p] p pp True show ?thesis by auto
      next
        case False
        have "?p \<le> n" "2 \<le> ?p" using j by (auto simp: pq_parent_def)
        with H [of ?p] p pp have "cmp (h ?p) (h (pq_parent ?p)) \<le> 0" by auto
        with sib [of j] False j pp cmp_trans show ?thesis by auto
      qed
    qed
    then have "heap_ok cmp n (sift_up cmp e (h(i := h ?p)) ?p)" using less.IH p by blast
    with eq True show ?thesis by presburger
  next
    case False
    have "heap_ok cmp n (h(i := e))"
      unfolding heap_ok_def
    proof (intro allI impI)
      fix j assume j: "2 \<le> j \<and> j \<le> n"
      show "cmp ((h(i := e)) j) ((h(i := e)) (pq_parent j)) \<le> 0"
      proof (cases "j = i")
        case True
        then have "cmp e (h ?p) \<le> 0" "?p \<noteq> i" using False j not_neg by (auto simp: pq_parent_def)
        with True show ?thesis by auto
      next
        case False
        with H [of j] j show ?thesis by blast
      qed
    qed
    with eq False show ?thesis by presburger
  qed
qed

end

section \<open>The operations\<close>

text \<open>What each operation does to the contents and to the allocation.\<close>

lemma pq_elems_ctor [simp]: "pq_elems (ppq_ctor junk sz z) = {#}"
  by (simp add: pq_elems_def ppq_ctor_def cells_def Let_def)

lemma ppq_ctor_size [simp]: "m_heap_size (ppq_ctor junk sz z) = 0"
  by (simp add: ppq_ctor_def Let_def)

lemma pq_ok_ctor: "pq_ok cmp (ppq_ctor junk sz z)"
  by (simp add: pq_ok_def ppq_ctor_def heap_ok_def Let_def)

lemma size_cells [simp]: "size (cells n h) = n"
  by (simp add: cells_def)

lemma size_pq_elems: "size (pq_elems q) = m_heap_size q"
  by (simp add: pq_elems_def)

lemma pq_insert_size [simp]: "m_heap_size (pq_insert cmp junk e q) = Suc (m_heap_size q)"
  by (simp add: pq_insert_def Let_def)

lemma cells_sift_up:
  assumes "\<And>j. 1 \<le> j \<Longrightarrow> j \<le> n \<Longrightarrow> h j = g j"
  shows "cells (Suc n) (sift_up cmp e h (Suc n)) = add_mset e (cells n g)"
proof -
  have "cells (Suc n) (sift_up cmp e h (Suc n)) = cells (Suc n) (h(Suc n := e))"
    by (simp add: sift_up_cells)
  also have "\<dots> = add_mset e (cells n (h(Suc n := e)))" by (simp add: cells_Suc)
  also have "cells n (h(Suc n := e)) = cells n g" using assms by (intro cells_cong) auto
  finally show ?thesis .
qed

lemma pq_insert_elems: "pq_elems (pq_insert cmp junk e q) = add_mset e (pq_elems q)"
  by (simp add: pq_elems_def pq_insert_def Let_def) (auto intro!: cells_sift_up)

lemma extract_top_elems:
  assumes "extract_top cmp q = Some (x, q')"
  shows "pq_elems q = add_mset x (pq_elems q')" "x = pq_top q"
    "m_heap_size q = Suc (m_heap_size q')" "m_size_alloc q' = m_size_alloc q"
proof -
  let ?n = "m_heap_size q" and ?h = "m_heap q"
  have n: "?n \<noteq> 0" and x: "x = ?h 1"
    and q': "q' = q\<lparr>m_heap := heapify cmp (?n - 1) (?h(1 := ?h ?n)) 1, m_heap_size := ?n - 1\<rparr>"
    using assms by (auto simp: extract_top_def Let_def split: if_splits)
  have e: "pq_elems q' = cells (?n - 1) (?h(1 := ?h ?n))"
    using q' by (simp add: pq_elems_def heapify_cells)
  have "cells ?n ?h = add_mset (?h 1) (cells (?n - 1) (?h(1 := ?h ?n)))"
  proof (cases "?n = 1")
    case True
    then show ?thesis by (simp add: cells_def)
  next
    case False
    then have "?h 1 \<in># cells (?n - 1) ?h" using n by (intro in_cells) auto
    moreover have "cells ?n ?h = add_mset (?h ?n) (cells (?n - 1) ?h)"
      using n cells_Suc [of "?n - 1" ?h] by simp
    moreover have "cells (?n - 1) (?h(1 := ?h ?n)) = add_mset (?h ?n) (cells (?n - 1) ?h - {#?h 1#})"
      using n False by (intro cells_upd) auto
    ultimately show ?thesis by simp
  qed
  with e x show "pq_elems q = add_mset x (pq_elems q')" by (simp add: pq_elems_def)
  show "x = pq_top q" "m_heap_size q = Suc (m_heap_size q')" "m_size_alloc q' = m_size_alloc q"
    using n x q' by (simp_all add: pq_top_def)
qed

context comparator
begin

lemma top_greatest:
  assumes "heap_ok cmp n h" "1 \<le> j" "j \<le> n"
  shows "cmp (h j) (h 1) \<le> 0"
  using assms(2,3)
proof (induction j rule: less_induct)
  case (less j)
  show ?case
  proof (cases "j = 1")
    case False
    let ?p = "pq_parent j"
    have p: "1 \<le> ?p" "?p < j" using less.prems False by (auto simp: pq_parent_def)
    have "cmp (h j) (h ?p) \<le> 0" using assms(1) less.prems False by (simp add: heap_ok_def)
    with less.IH [of ?p] p less.prems cmp_trans show ?thesis by force
  qed (simp add: cmp_refl)
qed

lemma pq_top_max: "pq_ok cmp q \<Longrightarrow> y \<in># pq_elems q \<Longrightarrow> cmp y (pq_top q) \<le> 0"
  using top_greatest by (auto simp: pq_ok_def pq_elems_def cells_def pq_top_def)

lemma pq_insert_ok:
  assumes "pq_ok cmp q"
  shows "pq_ok cmp (pq_insert cmp junk e q)"
proof -
  let ?n = "m_heap_size q + 1"
  let ?h = "if ?n > m_size_alloc q then (\<lambda>j. if 1 \<le> j \<and> j < ?n then m_heap q j else junk j) else m_heap q"
  have "cmp (m_heap q j) (m_heap q (pq_parent j)) \<le> 0" if "2 \<le> j" "j < ?n" for j
    using assms that by (simp add: pq_ok_def heap_ok_def)
  moreover have "1 \<le> pq_parent j" "pq_parent j < j" if "2 \<le> j" for j
    using that by (auto simp: pq_parent_def)
  ultimately have "heap_hole cmp ?n e ?h ?n"
    by (fastforce simp: heap_hole_def)
  then have "heap_ok cmp ?n (sift_up cmp e ?h ?n)" by (intro sift_up_heap) auto
  moreover have "?n \<le> (if ?n > m_size_alloc q then m_size_alloc q + m_size_alloc q div 2 else m_size_alloc q)"
    using assms by (auto simp: pq_ok_def)
  moreover have "2 \<le> m_size_alloc q" using assms by (simp add: pq_ok_def)
  ultimately show ?thesis by (simp add: pq_ok_def pq_insert_def Let_def del: One_nat_def)
qed

lemma extract_top_ok:
  assumes "pq_ok cmp q" "extract_top cmp q = Some (x, q')"
  shows "pq_ok cmp q'"
proof -
  let ?n = "m_heap_size q" and ?h = "m_heap q"
  have n: "?n \<noteq> 0"
    and q': "q' = q\<lparr>m_heap := heapify cmp (?n - 1) (?h(1 := ?h ?n)) 1, m_heap_size := ?n - 1\<rparr>"
    using assms(2) by (auto simp: extract_top_def Let_def split: if_splits)
  have "pq_parent j \<noteq> 0" if "2 \<le> j" for j using that by (auto simp: pq_parent_def)
  then have "heap_but cmp (?n - 1) (?h(1 := ?h ?n)) 1"
    using assms(1) by (auto simp: heap_but_def pq_ok_def heap_ok_def)
  then have "heap_ok cmp (?n - 1) (heapify cmp (?n - 1) (?h(1 := ?h ?n)) 1)"
    by (intro heapify_heap) auto
  with assms(1) q' show ?thesis by (auto simp: pq_ok_def)
qed

end

section \<open>The queue of timed notifications\<close>

text \<open>
  \<^verbatim>\<open>sc_event_timed\<close> of kernel/sc_event.h: the event (its identity; \<open>None\<close> once
  \<^verbatim>\<open>m_event\<close> has been cleared by \<^verbatim>\<open>sc_event::cancel\<close>) and the time, a 64-bit count of
  time units.
\<close>

record sc_event_timed =
  et_event :: "nat option"
  et_notify_time :: "64 word"

definition sc_notify_time_compare :: "sc_event_timed \<Rightarrow> sc_event_timed \<Rightarrow> int" where
  "sc_notify_time_compare et1 et2 =
     (if et_notify_time et1 < et_notify_time et2 then 1
      else if et_notify_time et1 > et_notify_time et2 then - 1 else 0)"

interpretation tm: comparator sc_notify_time_compare
  by unfold_locales (auto simp: sc_notify_time_compare_def split: if_splits)

lemma compare_le: "sc_notify_time_compare a b \<le> 0 \<longleftrightarrow> et_notify_time b \<le> et_notify_time a"
  by (auto simp: sc_notify_time_compare_def)

text \<open>A client's sequence of calls, and the bag of elements it is to be seen as.\<close>

datatype 'a pq_cmd = PqInsert 'a | PqExtract

fun pq_run :: "('a \<Rightarrow> 'a \<Rightarrow> int) \<Rightarrow> (nat \<Rightarrow> 'a) \<Rightarrow> 'a pq_cmd list \<Rightarrow> 'a ppq \<Rightarrow> ('a list \<times> 'a ppq) option" where
  "pq_run cmp junk [] q = Some ([], q)"
| "pq_run cmp junk (PqInsert e # cs) q = pq_run cmp junk cs (pq_insert cmp junk e q)"
| "pq_run cmp junk (PqExtract # cs) q =
     (case extract_top cmp q of None \<Rightarrow> None
      | Some (x, q') \<Rightarrow> map_option (\<lambda>(xs, q''). (x # xs, q'')) (pq_run cmp junk cs q'))"

fun never_empty :: "nat \<Rightarrow> 'a pq_cmd list \<Rightarrow> bool" where
  "never_empty n [] = True"
| "never_empty n (PqInsert e # cs) = never_empty (Suc n) cs"
| "never_empty n (PqExtract # cs) = (0 < n \<and> never_empty (n - 1) cs)"

fun bag_run :: "sc_event_timed multiset \<Rightarrow> sc_event_timed pq_cmd list \<Rightarrow> sc_event_timed list \<Rightarrow>
    sc_event_timed multiset \<Rightarrow> bool" where
  "bag_run M [] out M' = (out = [] \<and> M' = M)"
| "bag_run M (PqInsert e # cs) out M' = bag_run (add_mset e M) cs out M'"
| "bag_run M (PqExtract # cs) [] M' = False"
| "bag_run M (PqExtract # cs) (x # out) M' =
     (x \<in># M \<and> (\<forall>y \<in># M. et_notify_time x \<le> et_notify_time y) \<and> bag_run (M - {#x#}) cs out M')"

lemma extract_top_None: "extract_top cmp q = None \<longleftrightarrow> m_heap_size q = 0"
  by (simp add: extract_top_def Let_def)

lemma pq_run_bag:
  "pq_ok sc_notify_time_compare q \<Longrightarrow>
   case pq_run sc_notify_time_compare junk cs q of
     None \<Rightarrow> \<not> never_empty (m_heap_size q) cs
   | Some (out, q') \<Rightarrow> never_empty (m_heap_size q) cs \<and> pq_ok sc_notify_time_compare q' \<and>
       bag_run (pq_elems q) cs out (pq_elems q')"
proof (induction cs arbitrary: q)
  case (Cons c cs)
  show ?case
  proof (cases c)
    case (PqInsert e)
    with Cons.IH [OF tm.pq_insert_ok [OF Cons.prems, of junk e]] show ?thesis
      by (simp add: pq_insert_elems split: option.splits prod.splits)
  next
    case PqExtract
    show ?thesis
    proof (cases "extract_top sc_notify_time_compare q")
      case None
      then have "m_heap_size q = 0" by (simp add: extract_top_None)
    with None PqExtract show ?thesis by simp
    next
      case (Some r)
      obtain x q' where r: "extract_top sc_notify_time_compare q = Some (x, q')"
        using Some by (cases r) auto
      note e = extract_top_elems [OF r]
      have "\<forall>y \<in># pq_elems q. et_notify_time x \<le> et_notify_time y"
        using tm.pq_top_max [OF Cons.prems] e(2) compare_le by blast
      with Cons.IH [OF tm.extract_top_ok [OF Cons.prems r]] PqExtract r e(1,3)
      show ?thesis by (auto split: option.splits)
    qed
  qed
qed simp

lemma never_empty_replicate: "never_empty n (replicate k PqExtract) \<longleftrightarrow> k \<le> n"
proof (induction k arbitrary: n)
  case (Suc k)
  show ?case unfolding replicate_Suc never_empty.simps Suc.IH by linarith
qed simp

lemma never_empty_extracts: "never_empty n (map PqInsert es @ replicate k PqExtract) \<longleftrightarrow> k \<le> n + length es"
  by (induction es arbitrary: n) (simp_all add: never_empty_replicate)

lemma bag_run_inserts:
  "bag_run M (map PqInsert es @ cs) out M' = bag_run (M + mset es) cs out M'"
  by (induction es arbitrary: M) auto

lemma bag_run_extracts:
  "bag_run M (replicate k PqExtract) out M' \<Longrightarrow>
   sorted_wrt (\<lambda>x y. et_notify_time x \<le> et_notify_time y) out \<and> M = mset out + M' \<and> length out = k"
proof (induction k arbitrary: M out)
  case (Suc k)
  then obtain x out' where o: "out = x # out'" by (cases out) auto
  with Suc.prems have x: "x \<in># M" "\<forall>y \<in># M. et_notify_time x \<le> et_notify_time y"
    and b: "bag_run (M - {#x#}) (replicate k PqExtract) out' M'" by auto
  from Suc.IH [OF b] have IH: "sorted_wrt (\<lambda>x y. et_notify_time x \<le> et_notify_time y) out'"
    "M - {#x#} = mset out' + M'" "length out' = k" by auto
  have M: "M = add_mset x (mset out' + M')" using insert_DiffM [OF x(1)] IH(2) by simp
  with x(2) have "\<forall>y \<in> set out'. et_notify_time x \<le> et_notify_time y" by auto
  with IH M o show ?case by simp
qed auto

text \<open>
  C13. The priority queue of timed notifications is the bag of what was inserted and not yet
  extracted.  For every sequence of insertions and extractions on a freshly constructed queue,
  whatever its initial size and whatever the allocator leaves in the cells, the run stops at the
  assertion of \<^verbatim>\<open>extract_top\<close> exactly when an extraction meets an empty queue, and otherwise
  each extraction returns an element of the bag whose notification time no other element
  undercuts; the heap order and \<^verbatim>\<open>m_heap_size <= m_size_alloc\<close> hold at the end.
\<close>

theorem timed_queue_refines_bag:
  "case pq_run sc_notify_time_compare junk cs (ppq_ctor junk sz z) of
     None \<Rightarrow> \<not> never_empty 0 cs
   | Some (out, q) \<Rightarrow> never_empty 0 cs \<and> pq_ok sc_notify_time_compare q \<and>
       bag_run {#} cs out (pq_elems q)"
  using pq_run_bag [OF pq_ok_ctor [of _ junk sz z], of cs junk]
  unfolding ppq_ctor_size pq_elems_ctor .

text \<open>
  Notifications come out in the order of their times: after inserting any list of timed
  notifications, as many extractions succeed, return each of them exactly once, with
  nondecreasing times, and leave the queue empty.
\<close>

theorem timed_queue_sorts:
  "\<exists>out q. pq_run sc_notify_time_compare junk
       (map PqInsert es @ replicate (length es) PqExtract) (ppq_ctor junk sz z) = Some (out, q) \<and>
     sorted (map et_notify_time out) \<and> mset out = mset es \<and> pq_empty q"
proof -
  let ?cs = "map PqInsert es @ replicate (length es) PqExtract :: sc_event_timed pq_cmd list"
  from pq_run_bag [OF pq_ok_ctor [of _ junk sz z], of ?cs junk] never_empty_extracts [of 0 es "length es"]
  obtain out q where run: "pq_run sc_notify_time_compare junk ?cs (ppq_ctor junk sz z) = Some (out, q)"
    and b: "bag_run {#} ?cs out (pq_elems q)"
    by (auto split: option.splits)
  from b have s: "sorted_wrt (\<lambda>x y. et_notify_time x \<le> et_notify_time y) out"
    and m: "mset es = mset out + pq_elems q" and l: "length out = length es"
    using bag_run_extracts [of "mset es"] by (auto simp: bag_run_inserts)
  have "size (mset es) = size (mset out) + size (pq_elems q)" using m by simp
  then have "pq_elems q = {#}" using l by simp
  moreover from this have "m_heap_size q = 0" using size_pq_elems [of q] by simp
  ultimately show ?thesis using run s m by (auto simp: sorted_map pq_empty_def)
qed

text \<open>
  Writes stay inside the allocation: on a well-formed queue an insertion writes only
  cells 1 .. \<^verbatim>\<open>m_heap_size\<close> of an array whose size it has made large enough, and an
  extraction only cells of the shrunken heap and the first one.
\<close>

theorem heap_writes_in_bounds:
  assumes "pq_ok cmp q"
  shows "m_heap_size (pq_insert cmp junk e q) \<le> m_size_alloc (pq_insert cmp junk e q) \<and>
    (m_size_alloc (pq_insert cmp junk e q) = m_size_alloc q \<longrightarrow>
      (\<forall>j. j < 1 \<or> m_heap_size (pq_insert cmp junk e q) < j \<longrightarrow>
        m_heap (pq_insert cmp junk e q) j = m_heap q j)) \<and>
    (\<forall>x q'. extract_top cmp q = Some (x, q') \<longrightarrow> m_size_alloc q' = m_size_alloc q \<and>
      (\<forall>j. j < 1 \<or> max 1 (m_heap_size q') < j \<longrightarrow> m_heap q' j = m_heap q j))"
proof (intro conjI impI allI)
  show "m_heap_size (pq_insert cmp junk e q) \<le> m_size_alloc (pq_insert cmp junk e q)"
    using assms by (auto simp: pq_insert_def Let_def pq_ok_def)
next
  fix j assume "m_size_alloc (pq_insert cmp junk e q) = m_size_alloc q"
    and j: "j < 1 \<or> m_heap_size (pq_insert cmp junk e q) < j"
  then have "\<not> Suc (m_heap_size q) > m_size_alloc q"
    using assms by (auto simp: pq_insert_def Let_def pq_ok_def split: if_splits)
  with j show "m_heap (pq_insert cmp junk e q) j = m_heap q j"
    by (auto simp: pq_insert_def Let_def sift_up_frame)
next
  fix x q' assume "extract_top cmp q = Some (x, q')"
  then show "m_size_alloc q' = m_size_alloc q" by (rule extract_top_elems)
next
  fix x q' j assume "extract_top cmp q = Some (x, q')" and "j < 1 \<or> max 1 (m_heap_size q') < j"
  then show "m_heap q' j = m_heap q j"
    by (auto simp: extract_top_def Let_def heapify_frame split: if_splits)
qed

theorem heap_writes_in_bounds_witness:
  "m_heap (pq_insert (\<lambda>a b. a - b) (\<lambda>_. 7) 5 (ppq_ctor (\<lambda>_. 7) 2 (0::int))) 2 = 7"
  using heap_writes_in_bounds [of "\<lambda>a b. a - b" "ppq_ctor (\<lambda>_. 7) 2 (0::int)" "\<lambda>_. 7" 5]
  by (simp add: pq_ok_ctor) (simp add: pq_insert_def ppq_ctor_def Let_def)

end
