(* ===== verification/Sc_Observer.thy ===== *)
theory Sc_Observer
  imports Prelude
begin

text \<open>
  The observer that the modified kernel calls at its sample points: kernel/mon_observer.h,
  kernel/mon_observer.cpp and the base class of the generated monitors,
  kernel/mon_prototype.h and kernel/mon_prototype.cpp.

  The callbacks are virtual functions of generated classes.  A call is modelled by its
  occurrence: the hooks return the sequence of (monitor, callback) pairs that they perform.
  The callbacks of generated monitors record the values of their variables and do not register
  monitors, so the sets do not change while a hook iterates over them.
\<close>

section \<open>Monitors\<close>

text \<open>
  A monitor object is its address and the number its constructor gave it; \<open>num_monitors\<close>
  is the static counter.
\<close>

record mon_prototype =
  mon_ptr :: nat
  mon_id :: int

definition mon_prototype_ctor :: "nat \<Rightarrow> int \<Rightarrow> mon_prototype \<times> int" where
  "mon_prototype_ctor p num_monitors = (\<lparr>mon_ptr = p, mon_id = num_monitors\<rparr>, num_monitors + 1)"

definition get_id :: "mon_prototype \<Rightarrow> int" where
  "get_id m = mon_id m"

datatype mon_callback =
    Callback_init_phase_begin | Callback_init_phase_end
  | Callback_init_update_phase_begin | Callback_init_update_phase_end
  | Callback_init_delta_notify_phase_begin | Callback_init_delta_notify_phase_end
  | Callback_delta_cycle_begin | Callback_delta_cycle_end
  | Callback_evaluation_phase_begin | Callback_evaluation_phase_end
  | Callback_update_phase_begin | Callback_update_phase_end
  | Callback_delta_notify_phase_begin | Callback_delta_notify_phase_end
  | Callback_timed_notify_phase_begin | Callback_timed_notify_phase_end
  | Callback_thread_suspend | Callback_method_suspend
  | Callback_statement_level_trigger string
  | Callback_event_notified nat

datatype sample_point =
    MON_INIT_PHASE_BEGIN | MON_INIT_PHASE_END
  | MON_INIT_UPDATE_PHASE_BEGIN | MON_INIT_UPDATE_PHASE_END
  | MON_INIT_DELTA_NOTIFY_PHASE_BEGIN | MON_INIT_DELTA_NOTIFY_PHASE_END
  | MON_DELTA_CYCLE_BEGIN | MON_DELTA_CYCLE_END
  | MON_EVALUATION_PHASE_BEGIN | MON_EVALUATION_PHASE_END
  | MON_UPDATE_PHASE_BEGIN | MON_UPDATE_PHASE_END
  | MON_DELTA_NOTIFY_PHASE_BEGIN | MON_DELTA_NOTIFY_PHASE_END
  | MON_TIMED_NOTIFY_PHASE_BEGIN | MON_TIMED_NOTIFY_PHASE_END
  | MON_METHOD_SUSPEND | MON_THREAD_SUSPEND

definition sample_points :: "sample_point list" where
  "sample_points =
     [MON_INIT_PHASE_BEGIN, MON_INIT_PHASE_END, MON_INIT_UPDATE_PHASE_BEGIN,
      MON_INIT_UPDATE_PHASE_END, MON_INIT_DELTA_NOTIFY_PHASE_BEGIN,
      MON_INIT_DELTA_NOTIFY_PHASE_END, MON_DELTA_CYCLE_BEGIN, MON_DELTA_CYCLE_END,
      MON_EVALUATION_PHASE_BEGIN, MON_EVALUATION_PHASE_END, MON_UPDATE_PHASE_BEGIN,
      MON_UPDATE_PHASE_END, MON_DELTA_NOTIFY_PHASE_BEGIN, MON_DELTA_NOTIFY_PHASE_END,
      MON_TIMED_NOTIFY_PHASE_BEGIN, MON_TIMED_NOTIFY_PHASE_END, MON_METHOD_SUSPEND,
      MON_THREAD_SUSPEND]"

text \<open>\<^verbatim>\<open>std::set<mon_prototype*, monitor_comp>\<close>: strictly ordered by \<^verbatim>\<open>get_id\<close>.\<close>

type_synonym monitor_set = "mon_prototype list"

definition monitor_comp :: "mon_prototype \<Rightarrow> mon_prototype \<Rightarrow> bool" where
  "monitor_comp lhs rhs \<longleftrightarrow> get_id lhs < get_id rhs"

fun mset_insert :: "mon_prototype \<Rightarrow> monitor_set \<Rightarrow> monitor_set \<times> bool" where
  "mset_insert m [] = ([m], True)"
| "mset_insert m (x # xs) =
     (if monitor_comp m x then (m # x # xs, True)
      else if monitor_comp x m then (let (ys, b) = mset_insert m xs in (x # ys, b))
      else (x # xs, False))"

section \<open>The observer\<close>

text \<open>
  \<open>observed\<close> holds the events whose \<^verbatim>\<open>observer\<close> field points to this object.
  An absent key of \<^verbatim>\<open>events_to_monitor_sets\<close> and a null pointer stored under it behave
  alike (\<^verbatim>\<open>operator[]\<close> inserts the null pointer).
\<close>

record mon_observer =
  mons :: "mon_prototype list"
  mon_vectors :: "mon_prototype list list"
  arr_mon_sets :: "sample_point \<Rightarrow> monitor_set"
  events_to_monitor_sets :: "nat \<Rightarrow> monitor_set option"
  observed :: "nat set"
  debug_level :: nat

definition mon_observer_ctor :: "nat \<Rightarrow> mon_observer" where
  "mon_observer_ctor verbosity =
     \<lparr>mons = [], mon_vectors = [], arr_mon_sets = (\<lambda>_. []), events_to_monitor_sets = Map.empty,
      observed = {}, debug_level = verbosity\<rparr>"

text \<open>The objects the destructor deletes, in order.\<close>

definition mon_observer_dtor :: "mon_observer \<Rightarrow> mon_prototype list" where
  "mon_observer_dtor ob = mons ob @ concat (map (arr_mon_sets ob) sample_points)"

definition get_monitor_by_index :: "nat \<Rightarrow> mon_observer \<Rightarrow> mon_prototype option" where
  "get_monitor_by_index i ob = (if i < length (mons ob) then Some (mons ob ! i) else None)"

definition call_back :: "mon_callback \<Rightarrow> monitor_set \<Rightarrow> (mon_prototype \<times> mon_callback) list" where
  "call_back c ms = (let num_elements = length ms in
     if num_elements > 0 then map (\<lambda>mp. (mp, c)) ms else [])"

type_synonym hook = "mon_observer \<Rightarrow> (mon_prototype \<times> mon_callback) list"

definition init_begin :: hook where
  "init_begin ob = call_back Callback_init_phase_begin (arr_mon_sets ob MON_INIT_PHASE_BEGIN)"

definition init_update_begin :: hook where
  "init_update_begin ob =
     call_back Callback_init_update_phase_begin (arr_mon_sets ob MON_INIT_UPDATE_PHASE_BEGIN)"

definition init_update_end :: hook where
  "init_update_end ob =
     call_back Callback_init_update_phase_end (arr_mon_sets ob MON_INIT_UPDATE_PHASE_END)"

definition init_delta_notification_begin :: hook where
  "init_delta_notification_begin ob =
     call_back Callback_init_delta_notify_phase_begin (arr_mon_sets ob MON_INIT_DELTA_NOTIFY_PHASE_BEGIN)"

definition init_delta_notification_end :: hook where
  "init_delta_notification_end ob =
     call_back Callback_init_delta_notify_phase_end (arr_mon_sets ob MON_INIT_DELTA_NOTIFY_PHASE_END)"

definition init_end :: hook where
  "init_end ob = call_back Callback_init_phase_end (arr_mon_sets ob MON_INIT_PHASE_END)"

definition delta_cycle_begin :: hook where
  "delta_cycle_begin ob = call_back Callback_delta_cycle_begin (arr_mon_sets ob MON_DELTA_CYCLE_BEGIN)"

definition delta_cycle_end :: hook where
  "delta_cycle_end ob = call_back Callback_delta_cycle_end (arr_mon_sets ob MON_DELTA_CYCLE_END)"

definition evaluate_begin :: hook where
  "evaluate_begin ob = delta_cycle_begin ob @
     call_back Callback_evaluation_phase_begin (arr_mon_sets ob MON_EVALUATION_PHASE_BEGIN)"

definition evaluate_end :: hook where
  "evaluate_end ob = call_back Callback_evaluation_phase_end (arr_mon_sets ob MON_EVALUATION_PHASE_END)"

definition update_begin :: hook where
  "update_begin ob = call_back Callback_update_phase_begin (arr_mon_sets ob MON_UPDATE_PHASE_BEGIN)"

definition update_end :: hook where
  "update_end ob = call_back Callback_update_phase_end (arr_mon_sets ob MON_UPDATE_PHASE_END)"

definition deltanotify_begin :: hook where
  "deltanotify_begin ob =
     call_back Callback_delta_notify_phase_begin (arr_mon_sets ob MON_DELTA_NOTIFY_PHASE_BEGIN)"

definition deltanotify_end :: hook where
  "deltanotify_end ob =
     call_back Callback_delta_notify_phase_end (arr_mon_sets ob MON_DELTA_NOTIFY_PHASE_END) @
     delta_cycle_end ob"

definition timednotify_begin :: hook where
  "timednotify_begin ob =
     call_back Callback_timed_notify_phase_begin (arr_mon_sets ob MON_TIMED_NOTIFY_PHASE_BEGIN)"

definition timednotify_end :: hook where
  "timednotify_end ob =
     call_back Callback_timed_notify_phase_end (arr_mon_sets ob MON_TIMED_NOTIFY_PHASE_END)"

definition method_suspend :: hook where
  "method_suspend ob = call_back Callback_method_suspend (arr_mon_sets ob MON_METHOD_SUSPEND)"

definition thread_suspend :: hook where
  "thread_suspend ob = call_back Callback_thread_suspend (arr_mon_sets ob MON_THREAD_SUSPEND)"

text \<open>\<open>None\<close>: the null pointer is dereferenced, or the assertion on the size fails.\<close>

definition event_notified :: "nat \<Rightarrow> mon_observer \<Rightarrow> (mon_prototype \<times> mon_callback) list option" where
  "event_notified e ob =
     (case events_to_monitor_sets ob e of
        None \<Rightarrow> None
      | Some ms \<Rightarrow>
          if length ms > 0 then Some (map (\<lambda>mp. (mp, Callback_event_notified e)) ms) else None)"

definition register_monitor :: "mon_prototype \<Rightarrow> sample_point \<Rightarrow> mon_observer \<Rightarrow> mon_observer" where
  "register_monitor mon obs ob =
     (let (ms, _) = mset_insert mon (arr_mon_sets ob obs)
      in ob\<lparr>arr_mon_sets := (arr_mon_sets ob)(obs := ms)\<rparr>)"

text \<open>\<open>None\<close>: \<^verbatim>\<open>assert(p.second)\<close> fails, the monitor is registered for the event already.\<close>

definition register_event_monitor :: "mon_prototype \<Rightarrow> nat \<Rightarrow> mon_observer \<Rightarrow> mon_observer option" where
  "register_event_monitor mon eve ob =
     (case events_to_monitor_sets ob eve of
        None \<Rightarrow>
          let (newms, second) = mset_insert mon [];
              ob' = ob\<lparr>observed := insert eve (observed ob),
                     events_to_monitor_sets := (events_to_monitor_sets ob)(eve \<mapsto> newms)\<rparr>
          in if second then Some ob' else None
      | Some ms \<Rightarrow>
          let (ms', second) = mset_insert mon ms;
              ob' = ob\<lparr>events_to_monitor_sets := (events_to_monitor_sets ob)(eve \<mapsto> ms')\<rparr>
          in if second then Some ob' else None)"

section \<open>Monitor sets\<close>

definition mset_ok :: "monitor_set \<Rightarrow> bool" where
  "mset_ok ms \<longleftrightarrow> sorted_wrt monitor_comp ms"

lemma mset_ok_Nil [simp]: "mset_ok []"
  by (simp add: mset_ok_def)

lemma mset_insert_set:
  "set (fst (mset_insert m xs)) = (if snd (mset_insert m xs) then insert m (set xs) else set xs)"
  by (induction xs) (auto simp: Let_def split: prod.splits)

lemma mset_insert_ok:
  "mset_ok xs \<Longrightarrow> mset_ok (fst (mset_insert m xs))"
proof (induction xs)
  case (Cons x xs)
  have "set (fst (mset_insert m xs)) \<subseteq> insert m (set xs)"
    using mset_insert_set [of m xs] by auto
  with Cons show ?case
    by (fastforce simp: mset_ok_def monitor_comp_def Let_def split: prod.splits)
qed (simp add: mset_ok_def)

lemma mset_insert_second:
  "mset_ok xs \<Longrightarrow> snd (mset_insert m xs) \<longleftrightarrow> get_id m \<notin> get_id ` set xs"
proof (induction xs)
  case (Cons x xs)
  then show ?case
    by (fastforce simp: mset_ok_def monitor_comp_def Let_def split: prod.splits)
qed simp

lemma mset_ok_ids: "mset_ok ms \<Longrightarrow> sorted_wrt (<) (map get_id ms)"
  by (simp add: mset_ok_def monitor_comp_def [abs_def] sorted_wrt_map)

text \<open>A monitor set is the sorted list of its elements when numbers identify monitors.\<close>

lemma mset_ok_unique:
  assumes "mset_ok xs" "mset_ok ys" "set xs = set ys"
  shows "xs = ys"
proof -
  have "map get_id xs = map get_id ys"
    using assms mset_ok_ids by (intro strict_sorted_equal) auto
  moreover have "inj_on get_id (set xs \<union> set ys)"
    using assms mset_ok_ids [OF assms(1)]
    by (auto simp: strict_sorted_iff distinct_map)
  ultimately show ?thesis using map_inj_on by blast
qed

section \<open>Registrations and dispatch\<close>

fun register_all :: "(mon_prototype \<times> sample_point) list \<Rightarrow> mon_observer \<Rightarrow> mon_observer" where
  "register_all [] ob = ob"
| "register_all ((m, p) # rs) ob = register_all rs (register_monitor m p ob)"

fun register_events :: "(mon_prototype \<times> nat) list \<Rightarrow> mon_observer \<Rightarrow> mon_observer option" where
  "register_events [] ob = Some ob"
| "register_events ((m, e) # rs) ob =
     (case register_event_monitor m e ob of None \<Rightarrow> None | Some ob' \<Rightarrow> register_events rs ob')"

text \<open>What a list of registrations asks for: the monitors of a key, in the order of their numbers.\<close>

definition registered :: "(mon_prototype \<times> 'k) list \<Rightarrow> 'k \<Rightarrow> mon_prototype list" where
  "registered regs k = sort_key get_id (remdups (map fst (filter (\<lambda>r. snd r = k) regs)))"

text \<open>The hook the kernel calls at a sample point and the callback that belongs to the point.\<close>

fun kernel_hook :: "sample_point \<Rightarrow> hook" where
  "kernel_hook MON_INIT_PHASE_BEGIN = init_begin"
| "kernel_hook MON_INIT_PHASE_END = init_end"
| "kernel_hook MON_INIT_UPDATE_PHASE_BEGIN = init_update_begin"
| "kernel_hook MON_INIT_UPDATE_PHASE_END = init_update_end"
| "kernel_hook MON_INIT_DELTA_NOTIFY_PHASE_BEGIN = init_delta_notification_begin"
| "kernel_hook MON_INIT_DELTA_NOTIFY_PHASE_END = init_delta_notification_end"
| "kernel_hook MON_DELTA_CYCLE_BEGIN = delta_cycle_begin"
| "kernel_hook MON_DELTA_CYCLE_END = delta_cycle_end"
| "kernel_hook MON_EVALUATION_PHASE_BEGIN = evaluate_begin"
| "kernel_hook MON_EVALUATION_PHASE_END = evaluate_end"
| "kernel_hook MON_UPDATE_PHASE_BEGIN = update_begin"
| "kernel_hook MON_UPDATE_PHASE_END = update_end"
| "kernel_hook MON_DELTA_NOTIFY_PHASE_BEGIN = deltanotify_begin"
| "kernel_hook MON_DELTA_NOTIFY_PHASE_END = deltanotify_end"
| "kernel_hook MON_TIMED_NOTIFY_PHASE_BEGIN = timednotify_begin"
| "kernel_hook MON_TIMED_NOTIFY_PHASE_END = timednotify_end"
| "kernel_hook MON_METHOD_SUSPEND = method_suspend"
| "kernel_hook MON_THREAD_SUSPEND = thread_suspend"

fun callback_of :: "sample_point \<Rightarrow> mon_callback" where
  "callback_of MON_INIT_PHASE_BEGIN = Callback_init_phase_begin"
| "callback_of MON_INIT_PHASE_END = Callback_init_phase_end"
| "callback_of MON_INIT_UPDATE_PHASE_BEGIN = Callback_init_update_phase_begin"
| "callback_of MON_INIT_UPDATE_PHASE_END = Callback_init_update_phase_end"
| "callback_of MON_INIT_DELTA_NOTIFY_PHASE_BEGIN = Callback_init_delta_notify_phase_begin"
| "callback_of MON_INIT_DELTA_NOTIFY_PHASE_END = Callback_init_delta_notify_phase_end"
| "callback_of MON_DELTA_CYCLE_BEGIN = Callback_delta_cycle_begin"
| "callback_of MON_DELTA_CYCLE_END = Callback_delta_cycle_end"
| "callback_of MON_EVALUATION_PHASE_BEGIN = Callback_evaluation_phase_begin"
| "callback_of MON_EVALUATION_PHASE_END = Callback_evaluation_phase_end"
| "callback_of MON_UPDATE_PHASE_BEGIN = Callback_update_phase_begin"
| "callback_of MON_UPDATE_PHASE_END = Callback_update_phase_end"
| "callback_of MON_DELTA_NOTIFY_PHASE_BEGIN = Callback_delta_notify_phase_begin"
| "callback_of MON_DELTA_NOTIFY_PHASE_END = Callback_delta_notify_phase_end"
| "callback_of MON_TIMED_NOTIFY_PHASE_BEGIN = Callback_timed_notify_phase_begin"
| "callback_of MON_TIMED_NOTIFY_PHASE_END = Callback_timed_notify_phase_end"
| "callback_of MON_METHOD_SUSPEND = Callback_method_suspend"
| "callback_of MON_THREAD_SUSPEND = Callback_thread_suspend"

text \<open>A new evaluation phase begins a delta cycle; the end of a delta notification ends it.\<close>

definition points_reached :: "sample_point \<Rightarrow> sample_point list" where
  "points_reached p =
     (if p = MON_EVALUATION_PHASE_BEGIN then [MON_DELTA_CYCLE_BEGIN, p]
      else if p = MON_DELTA_NOTIFY_PHASE_END then [p, MON_DELTA_CYCLE_END] else [p])"

lemma call_back_map: "call_back c ms = map (\<lambda>m. (m, c)) ms"
  by (cases ms) (simp_all add: call_back_def)

lemmas hook_defs = init_begin_def init_end_def init_update_begin_def init_update_end_def
  init_delta_notification_begin_def init_delta_notification_end_def delta_cycle_begin_def
  delta_cycle_end_def evaluate_begin_def evaluate_end_def update_begin_def update_end_def
  deltanotify_begin_def deltanotify_end_def timednotify_begin_def timednotify_end_def
  method_suspend_def thread_suspend_def

lemma kernel_hook_eq:
  "kernel_hook p ob =
     concat (map (\<lambda>q. map (\<lambda>m. (m, callback_of q)) (arr_mon_sets ob q)) (points_reached p))"
  by (cases p) (simp_all add: hook_defs call_back_map points_reached_def)

lemma mset_insert_inj:
  assumes "mset_ok xs" "inj_on get_id (insert m (set xs))"
  shows "set (fst (mset_insert m xs)) = insert m (set xs)"
    "snd (mset_insert m xs) \<longleftrightarrow> m \<notin> set xs"
proof -
  have "get_id m \<in> get_id ` set xs \<longleftrightarrow> m \<in> set xs"
    using assms(2) by (auto simp: inj_on_def)
  then show "snd (mset_insert m xs) \<longleftrightarrow> m \<notin> set xs"
    using mset_insert_second [OF assms(1)] by simp
  then show "set (fst (mset_insert m xs)) = insert m (set xs)"
    using mset_insert_set [of m xs] by auto
qed

lemma mset_ok_registered:
  assumes "inj_on get_id (fst ` set regs)"
  shows "mset_ok (registered regs k)" "set (registered regs k) = {m. (m, k) \<in> set regs}"
proof -
  show S: "set (registered regs k) = {m. (m, k) \<in> set regs}"
    by (force simp: registered_def)
  have "set (registered regs k) \<subseteq> fst ` set regs" unfolding S by force
  then have "inj_on get_id (set (registered regs k))" using assms inj_on_subset by blast
  then have "distinct (map get_id (registered regs k))"
    by (simp add: distinct_map registered_def)
  moreover have "sorted (map get_id (registered regs k))" by (simp add: registered_def)
  ultimately have "sorted_wrt (<) (map get_id (registered regs k))"
    by (simp add: strict_sorted_iff)
  then show "mset_ok (registered regs k)"
    by (simp add: mset_ok_def monitor_comp_def [abs_def] sorted_wrt_map)
qed

lemma register_monitor_sets:
  "arr_mon_sets (register_monitor m q ob) p =
     (if p = q then fst (mset_insert m (arr_mon_sets ob q)) else arr_mon_sets ob p)"
  by (simp add: register_monitor_def case_prod_beta Let_def)

lemma register_all_sets:
  assumes "\<And>q. mset_ok (arr_mon_sets ob q)"
    and "inj_on get_id (fst ` set rs \<union> (\<Union>q. set (arr_mon_sets ob q)))"
  shows "mset_ok (arr_mon_sets (register_all rs ob) p) \<and>
    set (arr_mon_sets (register_all rs ob) p) = set (arr_mon_sets ob p) \<union> {m. (m, p) \<in> set rs}"
  using assms
proof (induction rs arbitrary: ob)
  case (Cons r rs)
  obtain m q where r: "r = (m, q)" by (cases r)
  let ?ob = "register_monitor m q ob"
  have inj: "inj_on get_id (insert m (set (arr_mon_sets ob q)))"
    using Cons.prems(2) r by (auto intro: inj_on_subset)
  have sets: "set (arr_mon_sets ?ob p) = set (arr_mon_sets ob p) \<union> (if p = q then {m} else {})" for p
    using mset_insert_inj(1) [OF Cons.prems(1) inj] by (simp add: register_monitor_sets)
  have "mset_ok (arr_mon_sets ?ob p)" for p
    using Cons.prems(1) mset_insert_ok [of "arr_mon_sets ob q" m] by (simp add: register_monitor_sets)
  moreover have "fst ` set rs \<union> (\<Union>q. set (arr_mon_sets ?ob q)) \<subseteq>
      fst ` set (r # rs) \<union> (\<Union>q. set (arr_mon_sets ob q))"
    unfolding sets r by (auto split: if_splits)
  then have "inj_on get_id (fst ` set rs \<union> (\<Union>q. set (arr_mon_sets ?ob q)))"
    using Cons.prems(2) inj_on_subset by blast
  ultimately have "mset_ok (arr_mon_sets (register_all rs ?ob) p) \<and>
      set (arr_mon_sets (register_all rs ?ob) p) = set (arr_mon_sets ?ob p) \<union> {m. (m, p) \<in> set rs}"
    by (intro Cons.IH)
  then show ?case using r sets by auto
qed simp

lemma register_all_eq:
  assumes "inj_on get_id (fst ` set regs)"
  shows "arr_mon_sets (register_all regs (mon_observer_ctor v)) p = registered regs p"
  using register_all_sets [of "mon_observer_ctor v" regs p] assms mset_ok_registered [OF assms, of p]
  by (intro mset_ok_unique) (simp_all add: mon_observer_ctor_def)

subsection \<open>Events\<close>

definition event_set :: "mon_observer \<Rightarrow> nat \<Rightarrow> monitor_set" where
  "event_set ob e = (case events_to_monitor_sets ob e of None \<Rightarrow> [] | Some ms \<Rightarrow> ms)"

definition events_ok :: "mon_observer \<Rightarrow> bool" where
  "events_ok ob \<longleftrightarrow> (\<forall>e. mset_ok (event_set ob e)) \<and>
     observed ob = {e. event_set ob e \<noteq> []} \<and> (\<forall>e. events_to_monitor_sets ob e \<noteq> Some [])"

lemma events_ok_ctor [simp]: "events_ok (mon_observer_ctor v)"
  by (simp add: events_ok_def event_set_def mon_observer_ctor_def)

lemma mset_insert_not_Nil [simp]: "fst (mset_insert m xs) \<noteq> []"
  by (cases xs) (auto simp: case_prod_beta Let_def)

lemma register_event_monitor_eq:
  "register_event_monitor m e ob =
     (if snd (mset_insert m (event_set ob e))
      then Some (ob\<lparr>observed := (if events_to_monitor_sets ob e = None then insert e (observed ob)
                                else observed ob),
                    events_to_monitor_sets :=
                      (events_to_monitor_sets ob)(e \<mapsto> fst (mset_insert m (event_set ob e)))\<rparr>)
      else None)"
  by (auto simp: register_event_monitor_def event_set_def case_prod_beta Let_def split: option.split)

lemma register_event_monitor_ok:
  assumes "events_ok ob" "inj_on get_id (insert m (set (event_set ob e)))"
  shows "case register_event_monitor m e ob of
      None \<Rightarrow> m \<in> set (event_set ob e)
    | Some ob' \<Rightarrow> m \<notin> set (event_set ob e) \<and> events_ok ob' \<and>
        (\<forall>e'. set (event_set ob' e') = set (event_set ob e') \<union> (if e' = e then {m} else {}))"
proof -
  let ?ins = "mset_insert m (event_set ob e)"
  have ok: "mset_ok (event_set ob e)" using assms(1) by (simp add: events_ok_def)
  note ins = mset_insert_inj [OF ok assms(2)]
  show ?thesis
  proof (cases "m \<in> set (event_set ob e)")
    case True
    with ins show ?thesis by (simp add: register_event_monitor_eq)
  next
    case False
    define ob' where "ob' = ob\<lparr>observed := (if events_to_monitor_sets ob e = None
        then insert e (observed ob) else observed ob),
      events_to_monitor_sets := (events_to_monitor_sets ob)(e \<mapsto> fst ?ins)\<rparr>"
    have r: "register_event_monitor m e ob = Some ob'"
      using False ins by (simp add: register_event_monitor_eq ob'_def)
    have es: "event_set ob' e' = (if e' = e then fst ?ins else event_set ob e')" for e'
      by (simp add: event_set_def ob'_def)
    have "e \<in> observed ob \<longleftrightarrow> events_to_monitor_sets ob e \<noteq> None"
      using assms(1) by (auto simp: events_ok_def event_set_def split: option.splits)
    then have "observed ob' = insert e (observed ob)" by (auto simp: ob'_def)
    then have "observed ob' = {e. event_set ob' e \<noteq> []}"
      using assms(1) es by (auto simp: events_ok_def)
    moreover have "mset_ok (event_set ob' e')" for e'
      using es assms(1) mset_insert_ok [OF ok] by (simp add: events_ok_def)
    moreover have "events_to_monitor_sets ob' e' \<noteq> Some []" for e'
      using assms(1) by (simp add: ob'_def events_ok_def)
    ultimately have "events_ok ob'" by (simp add: events_ok_def)
    with r False ins es show ?thesis by auto
  qed
qed

lemma register_events_ok:
  assumes "events_ok ob" "inj_on get_id (fst ` set rs \<union> (\<Union>e. set (event_set ob e)))"
  shows "case register_events rs ob of
      None \<Rightarrow> \<not> (distinct rs \<and> (\<forall>(m, e) \<in> set rs. m \<notin> set (event_set ob e)))
    | Some ob' \<Rightarrow> (distinct rs \<and> (\<forall>(m, e) \<in> set rs. m \<notin> set (event_set ob e))) \<and> events_ok ob' \<and>
        (\<forall>e. set (event_set ob' e) = set (event_set ob e) \<union> {m. (m, e) \<in> set rs})"
  using assms
proof (induction rs arbitrary: ob)
  case (Cons r rs)
  obtain m e where r: "r = (m, e)" by (cases r)
  have inj: "inj_on get_id (insert m (set (event_set ob e)))"
    using Cons.prems(2) r by (auto intro: inj_on_subset)
  note step = register_event_monitor_ok [OF Cons.prems(1) inj]
  show ?case
  proof (cases "register_event_monitor m e ob")
    case None
    with step r show ?thesis by auto
  next
    case (Some ob')
    with step have m: "m \<notin> set (event_set ob e)" and ok: "events_ok ob'"
      and es: "\<And>e'. set (event_set ob' e') = set (event_set ob e') \<union> (if e' = e then {m} else {})"
      by auto
    have "fst ` set rs \<union> (\<Union>e. set (event_set ob' e)) \<subseteq>
        fst ` set (r # rs) \<union> (\<Union>e. set (event_set ob e))"
      unfolding es r by (auto split: if_splits)
    then have "inj_on get_id (fst ` set rs \<union> (\<Union>e. set (event_set ob' e)))"
      using Cons.prems(2) inj_on_subset by blast
    from Cons.IH [OF ok this] Some m es r show ?thesis
      by (auto split: option.splits if_splits)
  qed
qed (simp add: events_ok_def)

lemma event_notified_eq:
  "events_ok ob \<Longrightarrow> event_notified e ob =
     (if e \<in> observed ob then Some (map (\<lambda>m. (m, Callback_event_notified e)) (event_set ob e)) else None)"
  by (auto simp: event_notified_def events_ok_def event_set_def split: option.splits)

subsection \<open>Counting deletions\<close>

lemma count_list_concat_map:
  "count_list (concat (map f xs)) m = sum_list (map (\<lambda>x. count_list (f x) m) xs)"
  by (induction xs) simp_all

lemma count_list_distinct: "distinct xs \<Longrightarrow> count_list xs x \<le> 1"
  by (induction xs) (auto simp: count_list_0_iff)

lemma count_list_distinct_eq: "distinct xs \<Longrightarrow> count_list xs x = (if x \<in> set xs then 1 else 0)"
  by (induction xs) (auto simp: count_list_0_iff)

lemma count_list_registered:
  "count_list (registered regs p) m = (if (m, p) \<in> set regs then 1 else 0)"
proof -
  have "distinct (registered regs p)" by (simp add: registered_def)
  moreover have "m \<in> set (registered regs p) \<longleftrightarrow> (m, p) \<in> set regs"
    by (force simp: registered_def)
  ultimately show ?thesis by (simp add: count_list_distinct_eq)
qed

lemma sample_points_all: "set sample_points = UNIV" "distinct sample_points"
proof -
  have "p \<in> set sample_points" for p by (cases p) (simp_all add: sample_points_def)
  then show "set sample_points = UNIV" by blast
  show "distinct sample_points" by (simp add: sample_points_def)
qed

lemma sum_list_points:
  "sum_list (map (\<lambda>p. if (m, p) \<in> set regs then 1 else 0) sample_points) = card {p. (m, p) \<in> set regs}"
proof -
  have fin: "finite (UNIV :: sample_point set)"
    using finite_set [of sample_points] sample_points_all(1) by simp
  have "sum_list (map (\<lambda>p. if (m, p) \<in> set regs then 1 else 0) sample_points) =
      (\<Sum>p\<in>UNIV. if (m, p) \<in> set regs then 1 else 0)"
    using sample_points_all by (simp add: sum_list_distinct_conv_sum_set)
  also have "\<dots> = card {p. (m, p) \<in> set regs}" using fin by (simp add: sum.If_cases)
  finally show ?thesis .
qed

section \<open>Properties\<close>

text \<open>
  C9. A monitor hears of exactly the sample points it registered for.  After any list of
  registrations on a new observer, each kernel hook calls, for every sample point it stands
  for (two for the beginning of an evaluation phase and for the end of a delta notification
  phase, which also delimit the delta cycle), the callback of that point on exactly the
  monitors registered there, each once however often it was registered, in the order in which
  the monitors were created.
\<close>

theorem observer_dispatch:
  assumes "inj_on get_id (fst ` set regs)"
  shows "kernel_hook p (register_all regs (mon_observer_ctor v)) =
    concat (map (\<lambda>q. map (\<lambda>m. (m, callback_of q)) (registered regs q)) (points_reached p))"
  by (simp add: kernel_hook_eq register_all_eq [OF assms])

definition monA :: mon_prototype where
  "monA = fst (mon_prototype_ctor 100 0)"

definition monB :: mon_prototype where
  "monB = fst (mon_prototype_ctor 200 (snd (mon_prototype_ctor 100 0)))"

theorem observer_dispatch_witness:
  "kernel_hook MON_EVALUATION_PHASE_BEGIN
     (register_all [(monB, MON_EVALUATION_PHASE_BEGIN), (monA, MON_DELTA_CYCLE_BEGIN),
        (monA, MON_EVALUATION_PHASE_BEGIN)] (mon_observer_ctor 0)) =
   [(monA, Callback_delta_cycle_begin), (monA, Callback_evaluation_phase_begin),
    (monB, Callback_evaluation_phase_begin)]"
  using observer_dispatch [of "[(monB, MON_EVALUATION_PHASE_BEGIN), (monA, MON_DELTA_CYCLE_BEGIN),
      (monA, MON_EVALUATION_PHASE_BEGIN)]" MON_EVALUATION_PHASE_BEGIN 0]
  by (simp add: monA_def monB_def mon_prototype_ctor_def get_id_def registered_def points_reached_def)

text \<open>
  C10. Event monitors: a list of registrations for events runs into the assertion of
  \<^verbatim>\<open>register_monitor\<close> exactly when it has a monitor twice for the same event.  Otherwise the
  observer is attached to exactly the events named in the list, so the kernel calls
  \<^verbatim>\<open>event_notified\<close> for no other event, and for these neither the null pointer nor the
  assertion on the size of the set is met: the call reaches the monitors of the event, in the
  order of their creation.
\<close>

theorem event_dispatch:
  assumes "inj_on get_id (fst ` set regs)"
  shows "case register_events regs (mon_observer_ctor v) of
      None \<Rightarrow> \<not> distinct regs
    | Some ob \<Rightarrow> distinct regs \<and> observed ob = snd ` set regs \<and>
        (\<forall>e. event_notified e ob =
          (if e \<in> snd ` set regs
           then Some (map (\<lambda>m. (m, Callback_event_notified e)) (registered regs e)) else None))"
proof -
  have e0: "event_set (mon_observer_ctor v) e = []" for e
    by (simp add: event_set_def mon_observer_ctor_def)
  note ok = register_events_ok [of "mon_observer_ctor v" regs, simplified e0, simplified, OF assms]
  show ?thesis
  proof (cases "register_events regs (mon_observer_ctor v)")
    case None
    with ok show ?thesis by auto
  next
    case (Some ob)
    with ok have d: "distinct regs" and ob: "events_ok ob"
      and es: "\<And>e. set (event_set ob e) = {m. (m, e) \<in> set regs}" by auto
    have eq: "event_set ob e = registered regs e" for e
      using mset_ok_registered [OF assms, of e] ob es by (intro mset_ok_unique) (auto simp: events_ok_def)
    have "observed ob = {e. event_set ob e \<noteq> []}" using ob by (simp add: events_ok_def)
    also have "\<dots> = {e. set (event_set ob e) \<noteq> {}}" by simp
    also have "\<dots> = snd ` set regs" unfolding es by force
    finally show ?thesis using Some d event_notified_eq [OF ob] eq by simp
  qed
qed

theorem event_dispatch_witness:
  "(case register_events [(monB, 7), (monA, 7), (monA, 9)] (mon_observer_ctor 0) of
      None \<Rightarrow> False
    | Some ob \<Rightarrow> observed ob = {7, 9} \<and>
        event_notified 7 ob = Some [(monA, Callback_event_notified 7), (monB, Callback_event_notified 7)])"
  using event_dispatch [of "[(monB, 7), (monA, 7), (monA, 9)]" 0]
  by (auto simp: monA_def monB_def mon_prototype_ctor_def get_id_def registered_def split: option.splits)

text \<open>
  The destructor deletes a monitor once for each of its entries in \<^verbatim>\<open>mons\<close>, where the
  generated observer stores it, and once more for each sample point it is registered at: with
  any registration the monitor is deleted twice.
\<close>

theorem dtor_deletes_twice:
  assumes "inj_on get_id (fst ` set regs)"
  shows "count_list (mon_observer_dtor ((register_all regs (mon_observer_ctor v))\<lparr>mons := created\<rparr>)) m =
      count_list created m + card {p. (m, p) \<in> set regs} \<and>
    (m \<in> set created \<and> m \<in> fst ` set regs \<longrightarrow>
      \<not> distinct (mon_observer_dtor ((register_all regs (mon_observer_ctor v))\<lparr>mons := created\<rparr>)))"
proof -
  let ?D = "mon_observer_dtor ((register_all regs (mon_observer_ctor v))\<lparr>mons := created\<rparr>)"
  have n: "count_list ?D m = count_list created m + card {p. (m, p) \<in> set regs}"
    using register_all_eq [OF assms]
    by (simp add: mon_observer_dtor_def count_list_concat_map count_list_registered
        sum_list_points sum.If_cases)
  have "\<not> distinct ?D" if "m \<in> set created" "m \<in> fst ` set regs"
  proof
    assume "distinct ?D"
    then have "count_list ?D m \<le> 1" by (rule count_list_distinct)
    moreover have "count_list created m \<noteq> 0" using that(1) by (simp add: count_list_0_iff)
    moreover have "finite {p. (m, p) \<in> set regs}"
      by (rule finite_subset [of _ "snd ` set regs"]) force+
    then have "card {p. (m, p) \<in> set regs} \<noteq> 0" using that(2) by (auto simp: card_eq_0_iff)
    ultimately show False using n by linarith
  qed
  with n show ?thesis by blast
qed

theorem dtor_deletes_twice_witness:
  "\<not> distinct (mon_observer_dtor ((register_all [(monA, MON_DELTA_CYCLE_BEGIN)] (mon_observer_ctor 0))
      \<lparr>mons := [monA]\<rparr>))"
  using dtor_deletes_twice [of "[(monA, MON_DELTA_CYCLE_BEGIN)]" "[monA]" 0 monA] by simp

end
