(* ===== verification/Sc_Event.thy ===== *)
theory Sc_Event
  imports Prelude Sc_Pq "HOL-Library.Monad_Syntax"
begin

text \<open>
  Events and their pending notifications: kernel/sc_event.h, kernel/sc_event.cpp, and the
  queues of the simulation context they use (kernel/sc_simcontext.h, kernel/sc_simcontext.cpp).

  An event and a timed notification are known by their addresses.  The timed notification
  objects live in a memory of their own, because \<^verbatim>\<open>sc_event_timed\<close> has its own allocator with
  a free list; the queue \<^verbatim>\<open>m_timed_events\<close> holds their addresses and compares what they point
  to.  \<open>None\<close> as the outcome of an operation is a failed assertion or an
  \<^verbatim>\<open>SC_REPORT_ERROR\<close>, which throws.
\<close>

section \<open>State\<close>

datatype notify_t = NONE | DELTA | TIMED

datatype execution_phase = Phase_initialize | Phase_evaluate | Phase_update | Phase_notify

record sc_event =
  m_notify_type :: notify_t
  m_delta_event_index :: int
  m_timed :: "nat option"
  m_methods_static :: "nat list"
  m_methods_dynamic :: "nat list"
  m_threads_static :: "nat list"
  m_threads_dynamic :: "nat list"
  ev_observer :: bool

text \<open>
  The part of the context that the events use.  \<open>et_brk\<close> is the first address the allocator
  has not been given yet, and \<open>fresh_cells\<close> the contents of newly allocated arrays.
\<close>

record kernel =
  events :: "nat \<Rightarrow> sc_event"
  et_mem :: "nat \<Rightarrow> sc_event_timed"
  free_list :: "nat list"
  et_brk :: nat
  fresh_cells :: "nat \<Rightarrow> nat"
  m_timed_events :: "nat ppq"
  m_delta_events :: "nat list"
  m_curr_time :: "64 word"
  m_execution_phase :: execution_phase

definition sc_event_ctor :: sc_event where
  "sc_event_ctor =
     \<lparr>m_notify_type = NONE, m_delta_event_index = - 1, m_timed = None, m_methods_static = [],
      m_methods_dynamic = [], m_threads_static = [], m_threads_dynamic = [], ev_observer = False\<rparr>"

definition kernel_init :: "(nat \<Rightarrow> nat) \<Rightarrow> kernel" where
  "kernel_init junk =
     \<lparr>events = (\<lambda>_. sc_event_ctor), et_mem = (\<lambda>_. \<lparr>et_event = None, et_notify_time = 0\<rparr>),
      free_list = [], et_brk = 1, fresh_cells = junk, m_timed_events = ppq_ctor junk 128 0,
      m_delta_events = [], m_curr_time = 0, m_execution_phase = Phase_initialize\<rparr>"

definition upd_event :: "nat \<Rightarrow> (sc_event \<Rightarrow> sc_event) \<Rightarrow> 'a kernel_scheme \<Rightarrow> 'a kernel_scheme" where
  "upd_event e f k = k\<lparr>events := (events k)(e := f (events k e))\<rparr>"

definition et_compare :: "(nat \<Rightarrow> sc_event_timed) \<Rightarrow> nat \<Rightarrow> nat \<Rightarrow> int" where
  "et_compare mem p q = sc_notify_time_compare (mem p) (mem q)"

section \<open>Timed notification objects\<close>

definition et_allocate :: "'a kernel_scheme \<Rightarrow> nat \<times> 'a kernel_scheme" where
  "et_allocate k =
     (let ALLOC_SIZE = 64;
          k1 = (if free_list k = []
                then k\<lparr>free_list := [et_brk k..<et_brk k + ALLOC_SIZE], et_brk := et_brk k + ALLOC_SIZE\<rparr>
                else k)
      in (hd (free_list k1), k1\<lparr>free_list := tl (free_list k1)\<rparr>))"

definition et_deallocate :: "nat \<Rightarrow> 'a kernel_scheme \<Rightarrow> 'a kernel_scheme" where
  "et_deallocate p k = k\<lparr>free_list := p # free_list k\<rparr>"

definition new_event_timed :: "nat \<Rightarrow> 64 word \<Rightarrow> 'a kernel_scheme \<Rightarrow> nat \<times> 'a kernel_scheme" where
  "new_event_timed e t k =
     (let (p, k1) = et_allocate k
      in (p, k1\<lparr>et_mem := (et_mem k1)(p := \<lparr>et_event = Some e, et_notify_time = t\<rparr>)\<rparr>))"

definition delete_event_timed :: "nat \<Rightarrow> 'a kernel_scheme \<Rightarrow> 'a kernel_scheme" where
  "delete_event_timed p k =
     et_deallocate p
       (case et_event (et_mem k p) of None \<Rightarrow> k | Some e \<Rightarrow> upd_event e (\<lambda>v. v\<lparr>m_timed := None\<rparr>) k)"

section \<open>The queues of the context\<close>

definition add_delta_event :: "nat \<Rightarrow> 'a kernel_scheme \<Rightarrow> int \<times> 'a kernel_scheme" where
  "add_delta_event e k =
     (let D = m_delta_events k @ [e] in (int (length D) - 1, k\<lparr>m_delta_events := D\<rparr>))"

definition remove_delta_event :: "nat \<Rightarrow> 'a kernel_scheme \<Rightarrow> 'a kernel_scheme option" where
  "remove_delta_event e k =
     (let i = m_delta_event_index (events k e);
          D = m_delta_events k;
          j = int (length D) - 1
      in if 0 \<le> i \<and> i \<le> j
         then let k1 = (if i \<noteq> j
                        then let x = D ! nat j
                             in upd_event x (\<lambda>v. v\<lparr>m_delta_event_index := i\<rparr>)
                                  (k\<lparr>m_delta_events := D[nat i := x]\<rparr>)
                        else k);
                  k2 = k1\<lparr>m_delta_events := butlast (m_delta_events k1)\<rparr>
              in Some (upd_event e (\<lambda>v. v\<lparr>m_delta_event_index := - 1\<rparr>) k2)
         else None)"

definition add_timed_event :: "nat \<Rightarrow> 'a kernel_scheme \<Rightarrow> 'a kernel_scheme" where
  "add_timed_event p k =
     k\<lparr>m_timed_events := pq_insert (et_compare (et_mem k)) (fresh_cells k) p (m_timed_events k)\<rparr>"

definition timed_extract_top :: "'a kernel_scheme \<Rightarrow> (nat \<times> 'a kernel_scheme) option" where
  "timed_extract_top k =
     (case extract_top (et_compare (et_mem k)) (m_timed_events k) of
        None \<Rightarrow> None
      | Some (p, q) \<Rightarrow> Some (p, k\<lparr>m_timed_events := q\<rparr>))"

definition time_stamp :: "'a kernel_scheme \<Rightarrow> 64 word" where
  "time_stamp k = m_curr_time k"

definition update_phase :: "'a kernel_scheme \<Rightarrow> bool" where
  "update_phase k \<longleftrightarrow> m_execution_phase k = Phase_update"

text \<open>
  \<^verbatim>\<open>next_time\<close>: cancelled notifications at the top are deleted; the result is the time of the
  first one that is not cancelled.
\<close>

function next_time :: "'a kernel_scheme \<Rightarrow> 64 word option \<times> 'a kernel_scheme" where
  "next_time k =
     (if pq_size (m_timed_events k) > 0
      then let et = pq_top (m_timed_events k)
           in if et_event (et_mem k et) \<noteq> None then (Some (et_notify_time (et_mem k et)), k)
              else (case timed_extract_top k of
                      None \<Rightarrow> (None, k)
                    | Some (p, k1) \<Rightarrow> next_time (delete_event_timed p k1))
      else (None, k))"
  by pat_completeness auto
termination
proof (relation "measure (\<lambda>k. m_heap_size (m_timed_events k))", simp_all, clarsimp)
  fix k :: "'a kernel_scheme" and p k1
  assume "timed_extract_top k = Some (p, k1)"
  then obtain q where "extract_top (et_compare (et_mem k)) (m_timed_events k) = Some (p, q)"
    and "k1 = k\<lparr>m_timed_events := q\<rparr>"
    by (auto simp: timed_extract_top_def split: option.splits)
  then show "m_heap_size (m_timed_events (delete_event_timed p k1)) < m_heap_size (m_timed_events k)"
    using extract_top_elems(3)
    by (fastforce simp: delete_event_timed_def et_deallocate_def upd_event_def split: option.splits)
qed

declare next_time.simps [simp del]

section \<open>Operations of an event\<close>

text \<open>Detaching the pending timed notification: the three lines that occur in four places.\<close>

definition drop_timed :: "nat \<Rightarrow> 'a kernel_scheme \<Rightarrow> 'a kernel_scheme option" where
  "drop_timed e k =
     (case m_timed (events k e) of
        None \<Rightarrow> None
      | Some p \<Rightarrow> Some (upd_event e (\<lambda>v. v\<lparr>m_timed := None\<rparr>)
          (k\<lparr>et_mem := (et_mem k)(p := (et_mem k p)\<lparr>et_event := None\<rparr>)\<rparr>)))"

definition cancel :: "nat \<Rightarrow> 'a kernel_scheme \<Rightarrow> 'a kernel_scheme option" where
  "cancel e k =
     (case m_notify_type (events k e) of
        DELTA \<Rightarrow> do { k1 \<leftarrow> remove_delta_event e k;
                      Some (upd_event e (\<lambda>v. v\<lparr>m_notify_type := NONE\<rparr>) k1) }
      | TIMED \<Rightarrow> do { k1 \<leftarrow> drop_timed e k;
                      Some (upd_event e (\<lambda>v. v\<lparr>m_notify_type := NONE\<rparr>) k1) }
      | NONE \<Rightarrow> Some k)"

definition notify_delta :: "nat \<Rightarrow> 'a kernel_scheme \<Rightarrow> 'a kernel_scheme" where
  "notify_delta e k =
     (let (i, k1) = add_delta_event e k
      in upd_event e (\<lambda>v. v\<lparr>m_delta_event_index := i, m_notify_type := DELTA\<rparr>) k1)"

definition notify_at :: "nat \<Rightarrow> 64 word \<Rightarrow> 'a kernel_scheme \<Rightarrow> 'a kernel_scheme" where
  "notify_at e t k =
     (let (et, k1) = new_event_timed e (time_stamp k + t) k;
          k2 = add_timed_event et k1
      in upd_event e (\<lambda>v. v\<lparr>m_timed := Some et, m_notify_type := TIMED\<rparr>) k2)"

definition notify_time :: "nat \<Rightarrow> 64 word \<Rightarrow> 'a kernel_scheme \<Rightarrow> 'a kernel_scheme option" where
  "notify_time e t k =
     (if m_notify_type (events k e) = DELTA then Some k
      else if t = 0
      then do { k1 \<leftarrow> (if m_notify_type (events k e) = TIMED then drop_timed e k else Some k);
                Some (notify_delta e k1) }
      else if m_notify_type (events k e) = TIMED
      then (case m_timed (events k e) of
              None \<Rightarrow> None
            | Some p \<Rightarrow>
                if et_notify_time (et_mem k p) \<le> time_stamp k + t then Some k
                else do { k1 \<leftarrow> drop_timed e k; Some (notify_at e t k1) })
      else Some (notify_at e t k))"

definition notify_internal :: "nat \<Rightarrow> 64 word \<Rightarrow> 'a kernel_scheme \<Rightarrow> 'a kernel_scheme" where
  "notify_internal e t k = (if t = 0 then notify_delta e k else notify_at e t k)"

definition notify_next_delta :: "nat \<Rightarrow> 'a kernel_scheme \<Rightarrow> 'a kernel_scheme option" where
  "notify_next_delta e k =
     (if m_notify_type (events k e) \<noteq> NONE then None else Some (notify_delta e k))"

definition notify_delayed :: "nat \<Rightarrow> 'a kernel_scheme \<Rightarrow> 'a kernel_scheme option" where
  "notify_delayed e k =
     (if m_notify_type (events k e) \<noteq> NONE then None else Some (notify_delta e k))"

definition notify_delayed_time :: "nat \<Rightarrow> 64 word \<Rightarrow> 'a kernel_scheme \<Rightarrow> 'a kernel_scheme option" where
  "notify_delayed_time e t k =
     (if m_notify_type (events k e) \<noteq> NONE then None
      else if t = 0 then Some (notify_delta e k) else Some (notify_at e t k))"

definition event_reset :: "nat \<Rightarrow> 'a kernel_scheme \<Rightarrow> 'a kernel_scheme" where
  "event_reset e = upd_event e (\<lambda>v. v\<lparr>m_notify_type := NONE, m_delta_event_index := - 1,
     m_timed := None, m_methods_dynamic := [], m_threads_dynamic := []\<rparr>)"

definition register_observer :: "nat \<Rightarrow> 'a kernel_scheme \<Rightarrow> 'a kernel_scheme" where
  "register_observer e = upd_event e (\<lambda>v. v\<lparr>ev_observer := True\<rparr>)"

subsection \<open>Sensitivity lists\<close>

definition add_static_method :: "nat \<Rightarrow> sc_event \<Rightarrow> sc_event" where
  "add_static_method m v = v\<lparr>m_methods_static := m_methods_static v @ [m]\<rparr>"

definition add_static_thread :: "nat \<Rightarrow> sc_event \<Rightarrow> sc_event" where
  "add_static_thread h v = v\<lparr>m_threads_static := m_threads_static v @ [h]\<rparr>"

definition add_dynamic_method :: "nat \<Rightarrow> sc_event \<Rightarrow> sc_event" where
  "add_dynamic_method m v = v\<lparr>m_methods_dynamic := m_methods_dynamic v @ [m]\<rparr>"

definition add_dynamic_thread :: "nat \<Rightarrow> sc_event \<Rightarrow> sc_event" where
  "add_dynamic_thread h v = v\<lparr>m_threads_dynamic := m_threads_dynamic v @ [h]\<rparr>"

text \<open>The loop shared by the four removals: the last occurrence is overwritten by the last entry.\<close>

fun remove_loop :: "nat \<Rightarrow> nat list \<Rightarrow> nat \<Rightarrow> nat list \<times> bool" where
  "remove_loop p xs 0 = (xs, False)"
| "remove_loop p xs (Suc i) =
     (if xs ! i = p then (butlast (xs[i := xs ! (length xs - 1)]), True) else remove_loop p xs i)"

definition remove_last_swap :: "nat \<Rightarrow> nat list \<Rightarrow> nat list \<times> bool" where
  "remove_last_swap p xs = (if length xs \<noteq> 0 then remove_loop p xs (length xs) else (xs, False))"

definition remove_static_method :: "nat \<Rightarrow> sc_event \<Rightarrow> sc_event \<times> bool" where
  "remove_static_method m v =
     (let (xs, b) = remove_last_swap m (m_methods_static v) in (v\<lparr>m_methods_static := xs\<rparr>, b))"

definition remove_static_thread :: "nat \<Rightarrow> sc_event \<Rightarrow> sc_event \<times> bool" where
  "remove_static_thread h v =
     (let (xs, b) = remove_last_swap h (m_threads_static v) in (v\<lparr>m_threads_static := xs\<rparr>, b))"

definition remove_dynamic_method :: "nat \<Rightarrow> sc_event \<Rightarrow> sc_event \<times> bool" where
  "remove_dynamic_method m v =
     (let (xs, b) = remove_last_swap m (m_methods_dynamic v) in (v\<lparr>m_methods_dynamic := xs\<rparr>, b))"

definition remove_dynamic_thread :: "nat \<Rightarrow> sc_event \<Rightarrow> sc_event \<times> bool" where
  "remove_dynamic_thread h v =
     (let (xs, b) = remove_last_swap h (m_threads_dynamic v) in (v\<lparr>m_threads_dynamic := xs\<rparr>, b))"

section \<open>Invariant\<close>

text \<open>
  An event has at most one pending notification, and the two queues and the fields of the
  event agree on it.
\<close>

abbreviation timed :: "'a kernel_scheme \<Rightarrow> nat multiset" where
  "timed k \<equiv> pq_elems (m_timed_events k)"

definition heap_inv :: "'a kernel_scheme \<Rightarrow> bool" where
  "heap_inv k \<longleftrightarrow>
     pq_ok (et_compare (et_mem k)) (m_timed_events k) \<and> (\<forall>p. count (timed k) p \<le> 1) \<and>
     distinct (free_list k) \<and> set (free_list k) \<inter> set_mset (timed k) = {} \<and>
     (\<forall>p \<in> set (free_list k) \<union> set_mset (timed k). p < et_brk k)"

definition delta_inv :: "nat list \<Rightarrow> (nat \<Rightarrow> sc_event) \<Rightarrow> bool" where
  "delta_inv D ev \<longleftrightarrow>
     (\<forall>i < length D. m_notify_type (ev (D ! i)) = DELTA \<and> m_delta_event_index (ev (D ! i)) = int i) \<and>
     (\<forall>e. m_notify_type (ev e) = DELTA \<longrightarrow> e \<in> set D)"

definition timed_inv :: "nat set \<Rightarrow> (nat \<Rightarrow> sc_event_timed) \<Rightarrow> (nat \<Rightarrow> sc_event) \<Rightarrow> bool" where
  "timed_inv T mem ev \<longleftrightarrow>
     (\<forall>e p. m_timed (ev e) = Some p \<longrightarrow>
        m_notify_type (ev e) = TIMED \<and> p \<in> T \<and> et_event (mem p) = Some e) \<and>
     (\<forall>e. m_notify_type (ev e) = TIMED \<longrightarrow> m_timed (ev e) \<noteq> None) \<and>
     (\<forall>p \<in> T. \<forall>e. et_event (mem p) = Some e \<longrightarrow> m_timed (ev e) = Some p)"

definition ev_inv :: "'a kernel_scheme \<Rightarrow> bool" where
  "ev_inv k \<longleftrightarrow> heap_inv k \<and> delta_inv (m_delta_events k) (events k) \<and>
     timed_inv (set_mset (timed k)) (et_mem k) (events k)"

text \<open>What a client of the events observes: the pending notification of each.\<close>

datatype pending = NotPending | PendDelta | PendAt "64 word"

definition pending :: "'a kernel_scheme \<Rightarrow> nat \<Rightarrow> pending" where
  "pending k e =
     (case m_notify_type (events k e) of
        NONE \<Rightarrow> NotPending
      | DELTA \<Rightarrow> PendDelta
      | TIMED \<Rightarrow> PendAt (et_notify_time (et_mem k (the (m_timed (events k e))))))"

text \<open>The rule of the standard: the earlier of two notifications stands.\<close>

fun earlier :: "pending \<Rightarrow> pending \<Rightarrow> pending" where
  "earlier NotPending q = q"
| "earlier PendDelta q = PendDelta"
| "earlier (PendAt t) NotPending = PendAt t"
| "earlier (PendAt t) PendDelta = PendDelta"
| "earlier (PendAt t) (PendAt u) = PendAt (min t u)"

subsection \<open>The queue under changes of the memory\<close>

interpretation et: comparator "et_compare mem" for mem
  unfolding et_compare_def using tm.cmp_sym tm.cmp_trans by unfold_locales blast+

lemma et_compare_le: "et_compare mem p q \<le> 0 \<longleftrightarrow> et_notify_time (mem q) \<le> et_notify_time (mem p)"
  by (simp add: et_compare_def compare_le)

lemma pq_ok_cong:
  assumes "pq_ok cmp q" and "\<And>a b. a \<in># pq_elems q \<Longrightarrow> b \<in># pq_elems q \<Longrightarrow> cmp' a b = cmp a b"
  shows "pq_ok cmp' q"
proof -
  have "m_heap q j \<in># pq_elems q" if "1 \<le> j" "j \<le> m_heap_size q" for j
    using that in_cells by (simp add: pq_elems_def)
  moreover have "1 \<le> pq_parent j" "pq_parent j \<le> j" if "2 \<le> j" for j
    using that by (auto simp: pq_parent_def)
  ultimately have "cmp' (m_heap q j) (m_heap q (pq_parent j)) = cmp (m_heap q j) (m_heap q (pq_parent j))"
    if "2 \<le> j" "j \<le> m_heap_size q" for j
    using that by (intro assms(2)) (meson le_trans one_le_numeral)+
  then show ?thesis using assms(1) by (simp add: pq_ok_def heap_ok_def)
qed

lemma pq_ok_mem_cong:
  "pq_ok (et_compare mem) q \<Longrightarrow>
   (\<And>a. a \<in># pq_elems q \<Longrightarrow> et_notify_time (mem' a) = et_notify_time (mem a)) \<Longrightarrow>
   pq_ok (et_compare mem') q"
  by (erule pq_ok_cong) (simp add: et_compare_def sc_notify_time_compare_def)

lemma upd_event_sel [simp]:
  "events (upd_event e f k) = (events k)(e := f (events k e))"
  "et_mem (upd_event e f k) = et_mem k" "free_list (upd_event e f k) = free_list k"
  "et_brk (upd_event e f k) = et_brk k" "fresh_cells (upd_event e f k) = fresh_cells k"
  "m_timed_events (upd_event e f k) = m_timed_events k"
  "m_delta_events (upd_event e f k) = m_delta_events k"
  "m_curr_time (upd_event e f k) = m_curr_time k"
  "m_execution_phase (upd_event e f k) = m_execution_phase k"
  "kernel.more (upd_event e f k) = kernel.more k"
  by (simp_all add: upd_event_def)

lemma heap_inv_upd_event [simp]: "heap_inv (upd_event e f k) = heap_inv k"
  by (simp add: heap_inv_def)

subsection \<open>Delta notifications\<close>

lemma delta_inv_distinct: "delta_inv D ev \<Longrightarrow> distinct D"
  by (metis delta_inv_def distinct_conv_nth of_nat_eq_iff)

lemma delta_inv_add:
  assumes "delta_inv D ev" "m_notify_type (ev e) \<noteq> DELTA"
    and "m_notify_type v = DELTA" "m_delta_event_index v = int (length D)"
  shows "delta_inv (D @ [e]) (ev(e := v))"
proof -
  have "D ! i \<noteq> e" if "i < length D" for i using assms(1,2) that by (auto simp: delta_inv_def)
  with assms show ?thesis by (auto simp: delta_inv_def nth_append less_Suc_eq)
qed

lemma delta_inv_remove:
  assumes inv: "delta_inv D ev" and e: "m_notify_type (ev e) = DELTA"
    and v: "m_notify_type v \<noteq> DELTA"
    and i: "i = nat (m_delta_event_index (ev e))" and x: "x = D ! (length D - 1)"
  shows "i < length D" "D ! i = e"
    "delta_inv (butlast (D[i := x])) (ev(x := (ev x)\<lparr>m_delta_event_index := int i\<rparr>, e := v))"
proof -
  from inv e obtain n where n: "n < length D" "D ! n = e"
    by (auto simp: delta_inv_def in_set_conv_nth)
  with inv i have "i = n" by (auto simp: delta_inv_def)
  with n show il: "i < length D" and ie: "D ! i = e" by auto
  have d: "distinct D" using delta_inv_distinct [OF inv] .
  let ?D = "butlast (D[i := x])"
  have nth: "?D ! j = (if j = i then x else D ! j)" if "j < length D - 1" for j
    using that by (simp add: nth_butlast nth_list_update)
  have ne: "?D ! j \<noteq> e" if "j < length D - 1" for j
    using that nth [OF that] ie il x d nth_eq_iff_index_eq [OF d] by auto
  have 1: "m_notify_type ((ev(x := (ev x)\<lparr>m_delta_event_index := int i\<rparr>, e := v)) (?D ! j)) = DELTA \<and>
      m_delta_event_index ((ev(x := (ev x)\<lparr>m_delta_event_index := int i\<rparr>, e := v)) (?D ! j)) = int j"
    if j: "j < length ?D" for j
  proof -
    have jl: "j < length D - 1" using j by simp
    have "D ! j \<noteq> x" using jl x nth_eq_iff_index_eq [OF d, of j "length D - 1"] by auto
    moreover have "m_notify_type (ev x) = DELTA" using inv x il by (auto simp: delta_inv_def)
    ultimately show ?thesis
      using ne [OF jl] nth [OF jl] jl inv by (auto simp: delta_inv_def)
  qed
  have 2: "f \<in> set ?D" if "f \<noteq> e" "m_notify_type (ev f) = DELTA" for f
  proof -
    from inv that obtain m where m: "m < length D" "D ! m = f"
      by (auto simp: delta_inv_def in_set_conv_nth)
    show ?thesis
    proof (cases "m = length D - 1")
      case True
      then have "i < length D - 1" using that m ie il by (cases "i = m") auto
      with nth [OF this] m True x show ?thesis by (metis length_butlast length_list_update nth_mem)
    next
      case False
      then have "m < length D - 1" "m \<noteq> i" using m that ie by auto
      with nth [of m] m show ?thesis by (metis length_butlast length_list_update nth_mem)
    qed
  qed
  have "m_notify_type (ev x) = DELTA" using inv x il by (auto simp: delta_inv_def)
  with 1 2 v show "delta_inv ?D (ev(x := (ev x)\<lparr>m_delta_event_index := int i\<rparr>, e := v))"
    by (auto simp: delta_inv_def)
qed

lemma delta_inv_other:
  "delta_inv D ev \<Longrightarrow> m_notify_type (ev e) \<noteq> DELTA \<Longrightarrow> m_notify_type v \<noteq> DELTA \<Longrightarrow> delta_inv D (ev(e := v))"
  unfolding delta_inv_def by auto

subsection \<open>Timed notifications\<close>

lemma timed_invI:
  assumes "\<And>e p. m_timed (ev e) = Some p \<Longrightarrow> m_notify_type (ev e) = TIMED"
    and "\<And>e p. m_timed (ev e) = Some p \<Longrightarrow> p \<in> T"
    and "\<And>e p. m_timed (ev e) = Some p \<Longrightarrow> et_event (mem p) = Some e"
    and "\<And>e. m_notify_type (ev e) = TIMED \<Longrightarrow> m_timed (ev e) \<noteq> None"
    and "\<And>p e. p \<in> T \<Longrightarrow> et_event (mem p) = Some e \<Longrightarrow> m_timed (ev e) = Some p"
  shows "timed_inv T mem ev"
  using assms unfolding timed_inv_def by blast

lemma timed_invD:
  assumes "timed_inv T mem ev"
  shows "m_timed (ev e) = Some p \<Longrightarrow> m_notify_type (ev e) = TIMED"
    "m_timed (ev e) = Some p \<Longrightarrow> p \<in> T"
    "m_timed (ev e) = Some p \<Longrightarrow> et_event (mem p) = Some e"
    "m_notify_type (ev e) = TIMED \<Longrightarrow> m_timed (ev e) \<noteq> None"
    "p \<in> T \<Longrightarrow> et_event (mem p) = Some e \<Longrightarrow> m_timed (ev e) = Some p"
  using assms unfolding timed_inv_def by blast+

lemma timed_inv_unique: "timed_inv T mem ev \<Longrightarrow> m_timed (ev e) = Some p \<Longrightarrow> m_timed (ev f) = Some p \<Longrightarrow> f = e"
  by (metis option.inject timed_invD(3))

lemma timed_inv_cancel:
  assumes inv: "timed_inv T mem ev" and e: "m_timed (ev e) = Some p"
    and v: "m_notify_type v \<noteq> TIMED" "m_timed v = None"
  shows "timed_inv T (mem(p := (mem p)\<lparr>et_event := None\<rparr>)) (ev(e := v))"
proof (rule timed_invI)
  fix f q assume "m_timed ((ev(e := v)) f) = Some q"
  then have f: "f \<noteq> e" "m_timed (ev f) = Some q" using v by (auto split: if_splits)
  then have "q \<noteq> p" using timed_inv_unique [OF inv e] by blast
  with f timed_invD(1-3) [OF inv f(2)] show "m_notify_type ((ev(e := v)) f) = TIMED" "q \<in> T"
    "et_event ((mem(p := (mem p)\<lparr>et_event := None\<rparr>)) q) = Some f" by simp_all
next
  fix f assume "m_notify_type ((ev(e := v)) f) = TIMED"
  then show "m_timed ((ev(e := v)) f) \<noteq> None" using v timed_invD(4) [OF inv] by (cases "f = e") simp_all
next
  fix q f assume q: "q \<in> T" "et_event ((mem(p := (mem p)\<lparr>et_event := None\<rparr>)) q) = Some f"
  then have "q \<noteq> p" "m_timed (ev f) = Some q" using timed_invD(5) [OF inv] by (auto split: if_splits)
  then show "m_timed ((ev(e := v)) f) = Some q" using e by (cases "f = e") simp_all
qed

lemma timed_inv_add:
  assumes inv: "timed_inv T mem ev" and p: "p \<notin> T" and e: "m_timed (ev e) = None"
    and v: "m_notify_type v = TIMED" "m_timed v = Some p" and c: "et_event c = Some e"
  shows "timed_inv (insert p T) (mem(p := c)) (ev(e := v))"
proof (rule timed_invI)
  fix f q assume "m_timed ((ev(e := v)) f) = Some q"
  then have "f = e \<and> q = p \<or> f \<noteq> e \<and> m_timed (ev f) = Some q" using v by (auto split: if_splits)
  with p v c timed_invD(1-3) [OF inv] show "m_notify_type ((ev(e := v)) f) = TIMED" "q \<in> insert p T"
    "et_event ((mem(p := c)) q) = Some f" by fastforce+
next
  fix f assume "m_notify_type ((ev(e := v)) f) = TIMED"
  then show "m_timed ((ev(e := v)) f) \<noteq> None" using v timed_invD(4) [OF inv] by (cases "f = e") simp_all
next
  fix q f assume "q \<in> insert p T" "et_event ((mem(p := c)) q) = Some f"
  then show "m_timed ((ev(e := v)) f) = Some q"
    using p v c e timed_invD(5) [OF inv] by (cases "q = p"; cases "f = e") auto
qed

lemma timed_inv_other:
  assumes inv: "timed_inv T mem ev" and e: "m_timed (ev e) = None"
    and v: "m_notify_type v \<noteq> TIMED" "m_timed v = None"
  shows "timed_inv T mem (ev(e := v))"
proof (rule timed_invI)
  fix f q assume "m_timed ((ev(e := v)) f) = Some q"
  then have "f \<noteq> e" "m_timed (ev f) = Some q" using v by (auto split: if_splits)
  then show "m_notify_type ((ev(e := v)) f) = TIMED" "q \<in> T" "et_event (mem q) = Some f"
    using timed_invD(1-3) [OF inv] by simp_all
next
  fix f assume "m_notify_type ((ev(e := v)) f) = TIMED"
  then show "m_timed ((ev(e := v)) f) \<noteq> None" using v timed_invD(4) [OF inv] by (cases "f = e") simp_all
next
  fix q f assume "q \<in> T" "et_event (mem q) = Some f"
  then show "m_timed ((ev(e := v)) f) = Some q" using e timed_invD(5) [OF inv] by (cases "f = e") auto
qed

lemma timed_inv_remove:
  assumes "timed_inv T mem ev" "et_event (mem p) = None"
  shows "timed_inv (T - {p}) mem ev"
proof (rule timed_invI)
  fix e q assume e: "m_timed (ev e) = Some q"
  then have "q \<noteq> p" using timed_invD(3) [OF assms(1) e] assms(2) by auto
  with timed_invD(1-3) [OF assms(1) e] show "m_notify_type (ev e) = TIMED" "q \<in> T - {p}"
    "et_event (mem q) = Some e" by simp_all
next
  fix e assume "m_notify_type (ev e) = TIMED"
  then show "m_timed (ev e) \<noteq> None" by (rule timed_invD(4) [OF assms(1)])
next
  fix q e assume "q \<in> T - {p}" "et_event (mem q) = Some e"
  then show "m_timed (ev e) = Some q" using timed_invD(5) [OF assms(1)] by simp
qed

lemma timed_inv_fire:
  assumes inv: "timed_inv T mem ev" and p: "p \<in> T" "et_event (mem p) = Some e"
    and v: "m_notify_type v \<noteq> TIMED" "m_timed v = None"
  shows "timed_inv (T - {p}) mem (ev(e := v))"
proof (rule timed_invI)
  fix f q assume "m_timed ((ev(e := v)) f) = Some q"
  then have f: "f \<noteq> e" "m_timed (ev f) = Some q" using v by (auto split: if_splits)
  then have "q \<noteq> p" using timed_invD(3) [OF inv f(2)] p by auto
  with f timed_invD(1-3) [OF inv f(2)] show "m_notify_type ((ev(e := v)) f) = TIMED" "q \<in> T - {p}"
    "et_event (mem q) = Some f" by simp_all
next
  fix f assume "m_notify_type ((ev(e := v)) f) = TIMED"
  then show "m_timed ((ev(e := v)) f) \<noteq> None" using v timed_invD(4) [OF inv] by (cases "f = e") simp_all
next
  fix q f assume q: "q \<in> T - {p}" "et_event (mem q) = Some f"
  then have "m_timed (ev f) = Some q" using timed_invD(5) [OF inv] by simp
  moreover have "f \<noteq> e" using calculation timed_invD(5) [OF inv p] q by auto
  ultimately show "m_timed ((ev(e := v)) f) = Some q" by simp
qed

lemma et_allocate_ok:
  assumes "heap_inv k" "et_allocate k = (p, k1)"
  shows "p \<notin># timed k" "p \<notin> set (free_list k1)" "p < et_brk k1" "heap_inv k1"
    "events k1 = events k" "et_mem k1 = et_mem k" "m_timed_events k1 = m_timed_events k"
    "m_delta_events k1 = m_delta_events k" "m_curr_time k1 = m_curr_time k"
    "fresh_cells k1 = fresh_cells k" "m_execution_phase k1 = m_execution_phase k"
    "kernel.more k1 = kernel.more k"
proof -
  have "p \<notin># timed k \<and> p \<notin> set (free_list k1) \<and> p < et_brk k1 \<and> heap_inv k1"
  proof (cases "free_list k")
    case Nil
    then have "p = et_brk k" "k1 = k\<lparr>free_list := [Suc (et_brk k)..<et_brk k + 64], et_brk := et_brk k + 64\<rparr>"
      using assms(2) by (auto simp: et_allocate_def upt_rec [of "et_brk k"])
    with assms(1) Nil show ?thesis by (fastforce simp: heap_inv_def)
  next
    case (Cons a fs)
    then have "p = a" "k1 = k\<lparr>free_list := fs\<rparr>" using assms(2) by (auto simp: et_allocate_def)
    with assms(1) Cons show ?thesis by (auto simp: heap_inv_def)
  qed
  then show "p \<notin># timed k" "p \<notin> set (free_list k1)" "p < et_brk k1" "heap_inv k1" by blast+
  show "events k1 = events k" "et_mem k1 = et_mem k" "m_timed_events k1 = m_timed_events k"
    "m_delta_events k1 = m_delta_events k" "m_curr_time k1 = m_curr_time k"
    "fresh_cells k1 = fresh_cells k" "m_execution_phase k1 = m_execution_phase k"
    "kernel.more k1 = kernel.more k"
    using assms(2) by (auto simp: et_allocate_def Let_def split: if_splits)
qed

lemma add_timed_ok:
  assumes inv: "heap_inv k" and new: "new_event_timed e t k = (p, k1)"
  defines "k2 \<equiv> add_timed_event p k1"
  shows "p \<notin># timed k" "heap_inv k2" "timed k2 = add_mset p (timed k)"
    "et_mem k2 = (et_mem k)(p := \<lparr>et_event = Some e, et_notify_time = t\<rparr>)"
    "events k2 = events k" "m_delta_events k2 = m_delta_events k" "m_curr_time k2 = m_curr_time k"
    "m_execution_phase k2 = m_execution_phase k" "kernel.more k2 = kernel.more k"
proof -
  obtain k0 where a: "et_allocate k = (p, k0)"
    and k1: "k1 = k0\<lparr>et_mem := (et_mem k0)(p := \<lparr>et_event = Some e, et_notify_time = t\<rparr>)\<rparr>"
    using new by (auto simp: new_event_timed_def split: prod.splits)
  note al = et_allocate_ok [OF inv a]
  have T: "timed k2 = add_mset p (timed k)"
    by (simp add: k2_def add_timed_event_def pq_insert_elems k1 al)
  have "pq_ok (et_compare (et_mem k1)) (m_timed_events k)"
  proof (rule pq_ok_mem_cong)
    show "pq_ok (et_compare (et_mem k)) (m_timed_events k)" using inv by (simp add: heap_inv_def)
    show "et_notify_time (et_mem k1 a) = et_notify_time (et_mem k a)" if "a \<in># timed k" for a
      using that al(1,6) by (auto simp: k1)
  qed
  then have "pq_ok (et_compare (et_mem k2)) (m_timed_events k2)"
    using et.pq_insert_ok by (simp add: k2_def add_timed_event_def k1 al)
  moreover have "count (timed k2) q \<le> 1" for q
    using al(1) inv by (auto simp: T heap_inv_def not_in_iff)
  ultimately show "heap_inv k2" using al(2,3,4) T
    by (auto simp: heap_inv_def k2_def add_timed_event_def k1 al)
  show "p \<notin># timed k" "timed k2 = add_mset p (timed k)" using al T by auto
  show "et_mem k2 = (et_mem k)(p := \<lparr>et_event = Some e, et_notify_time = t\<rparr>)"
    "events k2 = events k" "m_delta_events k2 = m_delta_events k" "m_curr_time k2 = m_curr_time k"
    "m_execution_phase k2 = m_execution_phase k" "kernel.more k2 = kernel.more k"
    by (simp_all add: k2_def add_timed_event_def k1 al)
qed

section \<open>Every operation keeps the invariant\<close>

definition same_ctx :: "'a kernel_scheme \<Rightarrow> 'a kernel_scheme \<Rightarrow> bool" where
  "same_ctx k k' \<longleftrightarrow> m_curr_time k' = m_curr_time k \<and> m_execution_phase k' = m_execution_phase k \<and>
     kernel.more k' = kernel.more k"

lemma same_ctx_refl [simp]: "same_ctx k k"
  by (simp add: same_ctx_def)

lemma same_ctx_trans: "same_ctx k k' \<Longrightarrow> same_ctx k' k'' \<Longrightarrow> same_ctx k k''"
  by (simp add: same_ctx_def)

lemma pending_cong: "events k' = events k \<Longrightarrow> et_mem k' = et_mem k \<Longrightarrow> pending k' = pending k"
  unfolding pending_def by (rule ext) presburger

lemma pending_NotPending: "pending k e = NotPending \<longleftrightarrow> m_notify_type (events k e) = NONE"
  by (simp add: pending_def split: notify_t.split)

lemma pending_PendDelta: "pending k e = PendDelta \<longleftrightarrow> m_notify_type (events k e) = DELTA"
  by (simp add: pending_def split: notify_t.split)

lemma pending_PendAt:
  "ev_inv k \<Longrightarrow> pending k e = PendAt t \<longleftrightarrow>
     (\<exists>p. m_timed (events k e) = Some p \<and> et_notify_time (et_mem k p) = t)"
proof -
  assume "ev_inv k"
  then have T: "timed_inv (set_mset (timed k)) (et_mem k) (events k)" by (simp add: ev_inv_def)
  show ?thesis
  proof (cases "m_timed (events k e)")
    case None
    then have "m_notify_type (events k e) \<noteq> TIMED" using timed_invD(4) [OF T] by blast
    with None show ?thesis by (simp add: pending_def split: notify_t.split)
  next
    case (Some p)
    then have "m_notify_type (events k e) = TIMED" by (rule timed_invD(1) [OF T])
    with Some show ?thesis by (simp add: pending_def)
  qed
qed

lemma not_timed: "ev_inv k \<Longrightarrow> m_notify_type (events k e) \<noteq> TIMED \<Longrightarrow> m_timed (events k e) = None"
  using timed_invD(1) by (fastforce simp: ev_inv_def)

lemma cancel_ok:
  assumes inv: "ev_inv k"
  obtains k' where "cancel e k = Some k'" "ev_inv k'" "same_ctx k k'"
    "pending k' = (pending k)(e := NotPending)"
proof (cases "m_notify_type (events k e)")
  case NONE
  then have "cancel e k = Some k" "pending k e = NotPending"
    by (simp_all add: cancel_def pending_NotPending)
  with inv that show ?thesis by (metis fun_upd_triv same_ctx_refl)
next
  case DELTA
  let ?D = "m_delta_events k" and ?ev = "events k"
  define x where "x = ?D ! (length ?D - 1)"
  define i where "i = nat (m_delta_event_index (?ev e))"
  define v where "v = (?ev e)\<lparr>m_delta_event_index := - 1, m_notify_type := NONE\<rparr>"
  let ?ev' = "?ev(x := (?ev x)\<lparr>m_delta_event_index := int i\<rparr>, e := v)"
  let ?k = "k\<lparr>m_delta_events := butlast (?D[i := x]), events := ?ev'\<rparr>"
  have D: "delta_inv ?D ?ev" using inv by (simp add: ev_inv_def)
  have v: "m_notify_type v \<noteq> DELTA" "m_notify_type v \<noteq> TIMED" "m_timed v = None"
    using not_timed [OF inv, of e] DELTA by (simp_all add: v_def)
  note rem = delta_inv_remove [OF D DELTA v(1) i_def x_def]
  have idx: "m_delta_event_index (?ev e) = int i" using D rem(1,2) by (auto simp: delta_inv_def)
  have x: "m_notify_type (?ev x) = DELTA" using D rem(1) by (auto simp: delta_inv_def x_def)
  have "cancel e k = Some ?k"
  proof (cases "i = length ?D - 1")
    case True
    then have "x = e" "?D[i := x] = ?D" using rem(1,2) x_def by auto
    moreover have "?D \<noteq> []" using rem(1) by auto
    ultimately show ?thesis using True DELTA idx rem(1)
      by (simp add: cancel_def remove_delta_event_def Let_def upd_event_def v_def)
  next
    case False
    then have "x \<noteq> e" using delta_inv_distinct [OF D] rem(1,2) x_def nth_eq_iff_index_eq by fastforce
    moreover have "int i \<noteq> int (length ?D) - 1" "int i \<le> int (length ?D) - 1" "nat (int (length ?D) - 1) = length ?D - 1"
      using False rem(1) by auto
    ultimately show ?thesis using DELTA idx
      by (simp add: cancel_def remove_delta_event_def Let_def upd_event_def v_def x_def fun_upd_twist)
  qed
  moreover have "m_timed (?ev x) = None" using not_timed [OF inv] x by simp
  then have "timed_inv (set_mset (timed k)) (et_mem k) ?ev'"
    using inv v x not_timed [OF inv, of e] DELTA
    by (intro timed_inv_other) (simp_all add: ev_inv_def)
  then have "ev_inv ?k" using rem(3) inv by (simp add: ev_inv_def heap_inv_def)
  moreover have "pending ?k = (pending k)(e := NotPending)"
    using x by (auto simp: pending_def v_def fun_eq_iff split: notify_t.split)
  ultimately show ?thesis using that by (simp add: same_ctx_def)
next
  case TIMED
  have T: "timed_inv (set_mset (timed k)) (et_mem k) (events k)" using inv by (simp add: ev_inv_def)
  obtain p where p: "m_timed (events k e) = Some p" using timed_invD(4) [OF T TIMED] by blast
  let ?mem = "(et_mem k)(p := (et_mem k p)\<lparr>et_event := None\<rparr>)"
  let ?v = "(events k e)\<lparr>m_timed := None, m_notify_type := NONE\<rparr>"
  let ?k = "k\<lparr>et_mem := ?mem, events := (events k)(e := ?v)\<rparr>"
  have c: "cancel e k = Some ?k"
    using TIMED p by (simp add: cancel_def drop_timed_def upd_event_def)
  have "timed_inv (set_mset (timed k)) ?mem ((events k)(e := ?v))"
    using T p by (intro timed_inv_cancel) simp_all
  moreover have "delta_inv (m_delta_events k) ((events k)(e := ?v))"
    using inv TIMED by (intro delta_inv_other) (simp_all add: ev_inv_def)
  moreover have "pq_ok (et_compare ?mem) (m_timed_events k)"
  proof (rule pq_ok_mem_cong)
    show "pq_ok (et_compare (et_mem k)) (m_timed_events k)" using inv by (simp add: ev_inv_def heap_inv_def)
  qed simp
  ultimately have "ev_inv ?k" using inv by (simp add: ev_inv_def heap_inv_def)
  moreover have "pending ?k = (pending k)(e := NotPending)"
    using timed_inv_unique [OF T p] timed_invD(4) [OF T]
    by (auto simp: pending_def fun_eq_iff split: notify_t.split)
  ultimately show ?thesis using c that by (simp add: same_ctx_def)
qed

lemma notify_delta_ok:
  assumes inv: "ev_inv k" and e: "pending k e = NotPending"
  shows "ev_inv (notify_delta e k)" "pending (notify_delta e k) = (pending k)(e := PendDelta)"
    "same_ctx k (notify_delta e k)"
proof -
  let ?v = "(events k e)\<lparr>m_delta_event_index := int (length (m_delta_events k)), m_notify_type := DELTA\<rparr>"
  have k': "notify_delta e k =
      k\<lparr>m_delta_events := m_delta_events k @ [e], events := (events k)(e := ?v)\<rparr>"
    by (simp add: notify_delta_def add_delta_event_def upd_event_def Let_def)
  have t: "m_notify_type (events k e) = NONE" using e by (simp add: pending_NotPending)
  have "timed_inv (set_mset (timed k)) (et_mem k) ((events k)(e := ?v))"
    using inv not_timed [OF inv, of e] t by (intro timed_inv_other) (simp_all add: ev_inv_def)
  moreover have "delta_inv (m_delta_events k @ [e]) ((events k)(e := ?v))"
    using inv t by (intro delta_inv_add) (simp_all add: ev_inv_def)
  ultimately show "ev_inv (notify_delta e k)"
    using inv by (simp add: k' ev_inv_def heap_inv_def)
  show "pending (notify_delta e k) = (pending k)(e := PendDelta)"
    by (auto simp: k' pending_def fun_eq_iff split: notify_t.split)
  show "same_ctx k (notify_delta e k)" by (simp add: k' same_ctx_def)
qed

lemma notify_at_ok:
  assumes inv: "ev_inv k" and e: "pending k e = NotPending"
  shows "ev_inv (notify_at e t k)"
    "pending (notify_at e t k) = (pending k)(e := PendAt (m_curr_time k + t))"
    "same_ctx k (notify_at e t k)"
proof -
  let ?t = "m_curr_time k + t"
  obtain p k1 where new: "new_event_timed e ?t k = (p, k1)" by fastforce
  define k2 where "k2 = add_timed_event p k1"
  let ?v = "(events k e)\<lparr>m_timed := Some p, m_notify_type := TIMED\<rparr>"
  have h: "heap_inv k" using inv by (simp add: ev_inv_def)
  note add = add_timed_ok [OF h new, folded k2_def]
  have k': "notify_at e t k = upd_event e (\<lambda>v. v\<lparr>m_timed := Some p, m_notify_type := TIMED\<rparr>) k2"
    using new by (simp add: notify_at_def time_stamp_def k2_def)
  have n: "m_notify_type (events k e) = NONE" using e by (simp add: pending_NotPending)
  have T: "timed_inv (set_mset (timed k)) (et_mem k) (events k)" using inv by (simp add: ev_inv_def)
  have "timed_inv (insert p (set_mset (timed k)))
      ((et_mem k)(p := \<lparr>et_event = Some e, et_notify_time = ?t\<rparr>)) ((events k)(e := ?v))"
    using T add(1) not_timed [OF inv, of e] n by (intro timed_inv_add) simp_all
  moreover have "delta_inv (m_delta_events k) ((events k)(e := ?v))"
    using inv n by (intro delta_inv_other) (simp_all add: ev_inv_def)
  ultimately show "ev_inv (notify_at e t k)"
    using add by (simp add: k' ev_inv_def)
  have "the (m_timed (events k f)) \<noteq> p" if "m_notify_type (events k f) = TIMED" for f
    using timed_invD(2,4) [OF T, of f] that add(1) by fastforce
  then show "pending (notify_at e t k) = (pending k)(e := PendAt ?t)"
    using add(4,5)
    by (auto simp: k' pending_def fun_eq_iff split: notify_t.split)
  show "same_ctx k (notify_at e t k)" using add by (simp add: k' same_ctx_def)
qed

lemma notify_delta_untyped:
  "notify_delta e (upd_event e (\<lambda>v. v\<lparr>m_notify_type := x\<rparr>) k) = notify_delta e k"
  by (simp add: notify_delta_def add_delta_event_def upd_event_def Let_def)

lemma notify_at_untyped:
  "notify_at e t (upd_event e (\<lambda>v. v\<lparr>m_notify_type := x\<rparr>) k) = notify_at e t k"
  by (simp add: notify_at_def new_event_timed_def et_allocate_def add_timed_event_def
      upd_event_def time_stamp_def Let_def split: prod.splits)

text \<open>Replacing a pending timed notification is cancelling it first.\<close>

lemma drop_timed_ok:
  assumes inv: "ev_inv k" and e: "m_notify_type (events k e) = TIMED"
  obtains k1 k' where "drop_timed e k = Some k1" "ev_inv k'" "same_ctx k k'"
    "pending k' = (pending k)(e := NotPending)"
    "notify_delta e k1 = notify_delta e k'" "\<And>t. notify_at e t k1 = notify_at e t k'"
proof -
  obtain k' where c: "cancel e k = Some k'" "ev_inv k'" "same_ctx k k'"
    "pending k' = (pending k)(e := NotPending)" using cancel_ok [OF inv] by blast
  then obtain k1 where "drop_timed e k = Some k1" "k' = upd_event e (\<lambda>v. v\<lparr>m_notify_type := NONE\<rparr>) k1"
    using e by (auto simp: cancel_def split: option.splits Option.bind_splits)
  with c that show ?thesis by (simp add: notify_delta_untyped notify_at_untyped)
qed

lemma notify_time_ok:
  assumes inv: "ev_inv k"
  obtains k' where "notify_time e t k = Some k'" "ev_inv k'" "same_ctx k k'"
    "pending k' = (pending k)(e := earlier (pending k e) (if t = 0 then PendDelta else PendAt (m_curr_time k + t)))"
proof (cases "m_notify_type (events k e)")
  case DELTA
  then have "notify_time e t k = Some k" "pending k e = PendDelta"
    by (simp_all add: notify_time_def pending_PendDelta)
  with inv that show ?thesis by (metis earlier.simps(2) fun_upd_triv same_ctx_refl)
next
  case NONE
  then have n: "pending k e = NotPending" by (simp add: pending_NotPending)
  show ?thesis
  proof (cases "t = 0")
    case True
    with NONE n notify_delta_ok [OF inv n] show ?thesis by (intro that) (simp_all add: notify_time_def)
  next
    case False
    with NONE n notify_at_ok [OF inv n, of t] show ?thesis by (intro that) (simp_all add: notify_time_def)
  qed
next
  case TIMED
  obtain p where p: "m_timed (events k e) = Some p"
    using TIMED inv timed_invD(4) by (fastforce simp: ev_inv_def)
  have pe: "pending k e = PendAt (et_notify_time (et_mem k p))"
    using TIMED p by (simp add: pending_def)
  obtain k1 k0 where d: "drop_timed e k = Some k1" "ev_inv k0" "same_ctx k k0"
    "pending k0 = (pending k)(e := NotPending)"
    "notify_delta e k1 = notify_delta e k0" "\<And>t. notify_at e t k1 = notify_at e t k0"
    using drop_timed_ok [OF inv TIMED] by blast
  have n: "pending k0 e = NotPending" using d(4) by simp
  have time: "m_curr_time k0 = m_curr_time k" using d(3) by (simp add: same_ctx_def)
  show ?thesis
  proof (cases "t = 0")
    case True
    with TIMED d have "notify_time e t k = Some (notify_delta e k0)" by (simp add: notify_time_def)
    with notify_delta_ok [OF d(2) n] d(3,4) pe True show ?thesis
      by (intro that) (auto intro: same_ctx_trans)
  next
    case False
    show ?thesis
    proof (cases "et_notify_time (et_mem k p) \<le> m_curr_time k + t")
      case True
      then have "notify_time e t k = Some k" using TIMED False p by (simp add: notify_time_def time_stamp_def)
      moreover have "earlier (pending k e) (PendAt (m_curr_time k + t)) = pending k e"
        using True pe by (simp add: min_def)
      ultimately show ?thesis using False inv by (intro that) (simp_all add: fun_upd_idem)
    next
      case le: False
      then have "notify_time e t k = Some (notify_at e t k0)"
        using TIMED False p d by (simp add: notify_time_def time_stamp_def)
      moreover have "earlier (pending k e) (PendAt (m_curr_time k + t)) = PendAt (m_curr_time k + t)"
        using le pe by (simp add: min_def)
      ultimately show ?thesis using notify_at_ok [OF d(2) n, of t] d(3,4) False time
        by (intro that) (auto intro: same_ctx_trans)
    qed
  qed
qed

lemma pop_cancelled_ok:
  assumes inv: "ev_inv k" and ex: "timed_extract_top k = Some (p, k1)" and c: "et_event (et_mem k p) = None"
  shows "ev_inv (delete_event_timed p k1)" "pending (delete_event_timed p k1) = pending k"
    "same_ctx k (delete_event_timed p k1)"
proof -
  obtain q where q: "extract_top (et_compare (et_mem k)) (m_timed_events k) = Some (p, q)"
    and k1: "k1 = k\<lparr>m_timed_events := q\<rparr>"
    using ex by (auto simp: timed_extract_top_def split: option.splits)
  let ?k = "delete_event_timed p k1"
  have k': "?k = k\<lparr>m_timed_events := q, free_list := p # free_list k\<rparr>"
    using c by (simp add: delete_event_timed_def et_deallocate_def k1)
  have h: "heap_inv k" using inv by (simp add: ev_inv_def)
  have T: "timed k = add_mset p (pq_elems q)" using extract_top_elems(1) [OF q] .
  have cnt: "count (timed k) x \<le> 1" for x using h by (simp add: heap_inv_def)
  have p: "p \<notin># pq_elems q" using cnt [of p] T by (simp add: not_in_iff)
  have "count (pq_elems q) x \<le> 1" for x using cnt [of x] T by (simp split: if_splits)
  moreover have "pq_ok (et_compare (et_mem k)) q"
    using et.extract_top_ok [OF _ q] h by (simp add: heap_inv_def)
  ultimately have "heap_inv ?k" using h p by (auto simp: k' heap_inv_def T)
  moreover have "timed_inv (set_mset (timed k) - {p}) (et_mem k) (events k)"
    using inv c by (intro timed_inv_remove) (simp_all add: ev_inv_def)
  then have "timed_inv (set_mset (pq_elems q)) (et_mem k) (events k)" using T p by simp
  ultimately show "ev_inv ?k" using inv by (simp add: k' ev_inv_def)
  show "pending ?k = pending k" by (rule pending_cong) (simp_all add: k')
  show "same_ctx k ?k" by (simp add: k' same_ctx_def)
qed

lemma timed_extract_top_None: "timed_extract_top k = None \<longleftrightarrow> m_heap_size (m_timed_events k) = 0"
  using extract_top_None [of "et_compare (et_mem k)" "m_timed_events k"]
  by (cases "extract_top (et_compare (et_mem k)) (m_timed_events k)") (auto simp: timed_extract_top_def)

lemma pending_time_ge_top:
  assumes inv: "ev_inv k" and "pending k e = PendAt u"
  shows "et_notify_time (et_mem k (pq_top (m_timed_events k))) \<le> u"
proof -
  obtain p where p: "m_timed (events k e) = Some p" "et_notify_time (et_mem k p) = u"
    using assms pending_PendAt by blast
  have T: "timed_inv (set_mset (timed k)) (et_mem k) (events k)" using inv by (simp add: ev_inv_def)
  have "p \<in># timed k" using timed_invD(2) [OF T p(1)] .
  then have "et_compare (et_mem k) p (pq_top (m_timed_events k)) \<le> 0"
    using inv et.pq_top_max by (simp add: ev_inv_def heap_inv_def)
  with p show ?thesis by (simp add: et_compare_le)
qed

lemma next_time_ok:
  assumes "ev_inv k" and "next_time k = (r, k')"
  shows "ev_inv k' \<and> same_ctx k k' \<and> pending k' = pending k \<and>
    (case r of None \<Rightarrow> \<forall>e u. pending k e \<noteq> PendAt u
     | Some t \<Rightarrow> (\<exists>e. pending k e = PendAt t) \<and> (\<forall>e u. pending k e = PendAt u \<longrightarrow> t \<le> u))"
  using assms
proof (induction k rule: next_time.induct)
  case (1 k)
  let ?top = "pq_top (m_timed_events k)"
  have T: "timed_inv (set_mset (timed k)) (et_mem k) (events k)" using "1.prems"(1) by (simp add: ev_inv_def)
  consider (empty) "m_heap_size (m_timed_events k) = 0"
    | (live) "m_heap_size (m_timed_events k) > 0" "et_event (et_mem k ?top) \<noteq> None"
    | (dead) "m_heap_size (m_timed_events k) > 0" "et_event (et_mem k ?top) = None" by blast
  then show ?case
  proof cases
    case empty
    then have "r = None" "k' = k" using "1.prems"(2) by (simp_all add: next_time.simps [of k] pq_size_def)
    moreover have "timed k = {#}" using empty size_pq_elems [of "m_timed_events k"] by simp
    then have "pending k e \<noteq> PendAt u" for e u
      using pending_PendAt [OF "1.prems"(1)] timed_invD(2) [OF T] by fastforce
    ultimately show ?thesis using "1.prems"(1) by simp
  next
    case live
    then have "r = Some (et_notify_time (et_mem k ?top))" "k' = k"
      using "1.prems"(2) by (auto simp: next_time.simps [of k] pq_size_def Let_def)
    moreover obtain e where e: "et_event (et_mem k ?top) = Some e" using live by blast
    have "?top \<in># timed k" using live by (simp add: pq_elems_def pq_top_def in_cells)
    then have "m_timed (events k e) = Some ?top" using timed_invD(5) [OF T] e by blast
    then have "pending k e = PendAt (et_notify_time (et_mem k ?top))"
      using pending_PendAt [OF "1.prems"(1)] by blast
    ultimately show ?thesis using "1.prems"(1) pending_time_ge_top by auto
  next
    case dead
    obtain p k1 where ex: "timed_extract_top k = Some (p, k1)"
      using dead timed_extract_top_None [of k] by (cases "timed_extract_top k") auto
    have "p = ?top" using ex extract_top_elems(2)
      by (fastforce simp: timed_extract_top_def split: option.splits)
    then have c: "et_event (et_mem k p) = None" using dead by simp
    have "next_time (delete_event_timed p k1) = (r, k')"
      using "1.prems"(2) dead ex by (simp add: next_time.simps [of k] pq_size_def Let_def)
    with "1.IH" [of ?top "(p, k1)" p k1] dead ex pop_cancelled_ok [OF "1.prems"(1) ex c]
    show ?thesis by (auto simp: pq_size_def intro: same_ctx_trans split: option.splits)
  qed
qed

section \<open>Sensitivity lists as bags\<close>

lemma mset_swap_out:
  assumes "i < length xs"
  shows "mset (butlast (xs[i := xs ! (length xs - 1)])) = mset xs - {#xs ! i#}"
proof -
  let ?l = "length xs - 1"
  let ?ys = "xs[i := xs ! ?l]"
  have ne: "xs \<noteq> []" "?ys \<noteq> []" using assms by auto
  have "last ?ys = xs ! ?l" using assms ne by (simp add: last_conv_nth nth_list_update)
  then have "mset ?ys = add_mset (xs ! ?l) (mset (butlast ?ys))"
    using ne(2) by (metis append_butlast_last_id mset_append mset_single_iff_right union_mset_add_mset_right add.right_neutral)
  moreover have "mset ?ys = add_mset (xs ! ?l) (mset xs - {#xs ! i#})"
    using assms by (simp add: mset_update)
  ultimately show ?thesis by simp
qed

lemma remove_loop_mset:
  "i \<le> length xs \<Longrightarrow> remove_loop p xs i = (ys, b) \<Longrightarrow>
   (b \<longleftrightarrow> p \<in> set (take i xs)) \<and> mset ys = (if b then mset xs - {#p#} else mset xs)"
proof (induction p xs i rule: remove_loop.induct)
  case (2 p xs i)
  have t: "set (take (Suc i) xs) = insert (xs ! i) (set (take i xs))"
    using "2.prems"(1) by (simp add: take_Suc_conv_app_nth)
  show ?case
  proof (cases "xs ! i = p")
    case True
    with 2 mset_swap_out [of i xs] t show ?thesis by auto
  next
    case False
    with 2 t show ?thesis by (auto split: if_splits)
  qed
qed simp

lemma remove_last_swap_mset:
  assumes "remove_last_swap p xs = (ys, b)"
  shows "b \<longleftrightarrow> p \<in> set xs" "mset ys = mset xs - {#p#}"
proof -
  have "(b \<longleftrightarrow> p \<in> set xs) \<and> mset ys = mset xs - {#p#}"
  proof (cases "xs = []")
    case True
    with assms show ?thesis by (simp add: remove_last_swap_def)
  next
    case False
    with assms remove_loop_mset [of "length xs" xs p ys b] show ?thesis
      by (auto simp: remove_last_swap_def diff_single_trivial)
  qed
  then show "b \<longleftrightarrow> p \<in> set xs" "mset ys = mset xs - {#p#}" by blast+
qed

section \<open>Sequences of operations\<close>

datatype event_cmd =
    CmdNotify nat "64 word" | CmdCancel nat | CmdNotifyDelayed nat
  | CmdNotifyDelayedTime nat "64 word" | CmdNotifyNextDelta nat | CmdNextTime

fun event_step :: "event_cmd \<Rightarrow> 'a kernel_scheme \<Rightarrow> (64 word option \<times> 'a kernel_scheme) option" where
  "event_step (CmdNotify e t) k = map_option (Pair None) (notify_time e t k)"
| "event_step (CmdCancel e) k = map_option (Pair None) (cancel e k)"
| "event_step (CmdNotifyDelayed e) k = map_option (Pair None) (notify_delayed e k)"
| "event_step (CmdNotifyDelayedTime e t) k = map_option (Pair None) (notify_delayed_time e t k)"
| "event_step (CmdNotifyNextDelta e) k = map_option (Pair None) (notify_next_delta e k)"
| "event_step CmdNextTime k = Some (next_time k)"

fun event_run :: "event_cmd list \<Rightarrow> 'a kernel_scheme \<Rightarrow> (64 word option list \<times> 'a kernel_scheme) option" where
  "event_run [] k = Some ([], k)"
| "event_run (c # cs) k =
     (case event_step c k of None \<Rightarrow> None
      | Some (r, k') \<Rightarrow> map_option (\<lambda>(rs, k''). (r # rs, k'')) (event_run cs k'))"

text \<open>The same on a map from events to pending notifications, at a fixed time \<open>now\<close>.\<close>

definition when_notified :: "64 word \<Rightarrow> 64 word \<Rightarrow> pending" where
  "when_notified now t = (if t = 0 then PendDelta else PendAt (now + t))"

fun pend_step :: "64 word \<Rightarrow> event_cmd \<Rightarrow> (nat \<Rightarrow> pending) \<Rightarrow> (nat \<Rightarrow> pending) option" where
  "pend_step now (CmdNotify e t) f = Some (f(e := earlier (f e) (when_notified now t)))"
| "pend_step now (CmdCancel e) f = Some (f(e := NotPending))"
| "pend_step now (CmdNotifyDelayed e) f = (if f e = NotPending then Some (f(e := PendDelta)) else None)"
| "pend_step now (CmdNotifyDelayedTime e t) f =
     (if f e = NotPending then Some (f(e := when_notified now t)) else None)"
| "pend_step now (CmdNotifyNextDelta e) f = (if f e = NotPending then Some (f(e := PendDelta)) else None)"
| "pend_step now CmdNextTime f = Some f"

fun answers :: "event_cmd \<Rightarrow> (nat \<Rightarrow> pending) \<Rightarrow> 64 word option \<Rightarrow> bool" where
  "answers CmdNextTime f None = (\<forall>e u. f e \<noteq> PendAt u)"
| "answers CmdNextTime f (Some t) = ((\<exists>e. f e = PendAt t) \<and> (\<forall>e u. f e = PendAt u \<longrightarrow> t \<le> u))"
| "answers _ f r = (r = None)"

fun pend_run :: "64 word \<Rightarrow> event_cmd list \<Rightarrow> (nat \<Rightarrow> pending) \<Rightarrow>
    (64 word option list \<times> (nat \<Rightarrow> pending)) option \<Rightarrow> bool" where
  "pend_run now [] f res = (res = Some ([], f))"
| "pend_run now (c # cs) f res =
     (case pend_step now c f of
        None \<Rightarrow> res = None
      | Some f' \<Rightarrow>
          (case res of
             None \<Rightarrow> pend_run now cs f' None
           | Some (rs, g) \<Rightarrow> rs \<noteq> [] \<and> answers c f (hd rs) \<and> pend_run now cs f' (Some (tl rs, g))))"

lemma ev_inv_init: "ev_inv (kernel_init junk)"
proof -
  have p: "pq_elems (m_timed_events (kernel_init junk)) = {#}" by (simp add: kernel_init_def)
  have "heap_inv (kernel_init junk)" unfolding heap_inv_def p
    by (simp add: kernel_init_def pq_ok_ctor)
  then show ?thesis
    by (simp add: ev_inv_def p delta_inv_def timed_inv_def) (simp add: kernel_init_def sc_event_ctor_def)
qed

lemma kernel_init_time: "m_curr_time (kernel_init junk) = 0"
  by (simp add: kernel_init_def)

lemma pending_init: "pending (kernel_init junk) = (\<lambda>_. NotPending)"
  by (rule ext) (simp add: pending_NotPending, simp add: kernel_init_def sc_event_ctor_def)

lemma event_step_ok:
  assumes inv: "ev_inv k"
  shows "case event_step c k of
      None \<Rightarrow> pend_step (m_curr_time k) c (pending k) = None
    | Some (r, k') \<Rightarrow> ev_inv k' \<and> same_ctx k k' \<and> answers c (pending k) r \<and>
        pend_step (m_curr_time k) c (pending k) = Some (pending k')"
proof (cases c)
  case (CmdNotify e t)
  obtain k' where "notify_time e t k = Some k'" "ev_inv k'" "same_ctx k k'"
    "pending k' = (pending k)(e := earlier (pending k e) (when_notified (m_curr_time k) t))"
    using notify_time_ok [OF inv, of e t] unfolding when_notified_def by blast
  with CmdNotify show ?thesis by simp
next
  case (CmdCancel e)
  obtain k' where "cancel e k = Some k'" "ev_inv k'" "same_ctx k k'"
    "pending k' = (pending k)(e := NotPending)" using cancel_ok [OF inv] by blast
  with CmdCancel show ?thesis by simp
next
  case (CmdNotifyDelayed e)
  then show ?thesis using notify_delta_ok [OF inv, of e] pending_NotPending [of k e]
    by (auto simp: notify_delayed_def)
next
  case (CmdNotifyDelayedTime e t)
  then show ?thesis
    using notify_delta_ok [OF inv, of e] notify_at_ok [OF inv, of e t] pending_NotPending [of k e]
    by (auto simp: notify_delayed_time_def when_notified_def)
next
  case (CmdNotifyNextDelta e)
  then show ?thesis using notify_delta_ok [OF inv, of e] pending_NotPending [of k e]
    by (auto simp: notify_next_delta_def)
next
  case CmdNextTime
  obtain r k' where r: "next_time k = (r, k')" by fastforce
  with CmdNextTime next_time_ok [OF inv r] show ?thesis by (auto split: option.splits)
qed

lemma event_run_ok:
  "ev_inv k \<Longrightarrow>
   pend_run (m_curr_time k) cs (pending k) (map_option (\<lambda>(rs, k'). (rs, pending k')) (event_run cs k))"
proof (induction cs arbitrary: k)
  case (Cons c cs)
  note step = event_step_ok [OF Cons.prems, of c]
  show ?case
  proof (cases "event_step c k")
    case None
    with step show ?thesis by simp
  next
    case (Some rk)
    then obtain r k' where s: "event_step c k = Some (r, k')" by (cases rk) auto
    with step have k': "ev_inv k'" "m_curr_time k' = m_curr_time k" "answers c (pending k) r"
      "pend_step (m_curr_time k) c (pending k) = Some (pending k')" by (simp_all add: same_ctx_def)
    from Cons.IH [OF k'(1)] s k' show ?thesis by (cases "event_run cs k'") auto
  qed
qed simp

section \<open>Properties\<close>

text \<open>
  C6. Notification semantics: each event has at most one pending notification and the earlier
  of two stands.  For every sequence of \<^verbatim>\<open>notify\<close>, \<^verbatim>\<open>cancel\<close>, \<^verbatim>\<open>notify_delayed\<close>,
  \<^verbatim>\<open>notify_next_delta\<close> and \<^verbatim>\<open>next_time\<close> on the fresh context, the heap of timed
  notifications with its cancelled entries and recycled memory, the vector of delta events with
  its swap removal, and the fields of the events behave like a map from events to pending
  notifications: an operation throws exactly when the map says so (a \<^verbatim>\<open>notify_delayed\<close> on an
  event with a notification pending), no assertion fails, and \<^verbatim>\<open>next_time\<close> answers the
  earliest pending time, or false when no timed notification is pending.
\<close>

theorem events_refine_pending:
  "pend_run 0 cs (\<lambda>_. NotPending)
     (map_option (\<lambda>(rs, k). (rs, pending k)) (event_run cs (kernel_init junk)))"
  using event_run_ok [OF ev_inv_init, of junk cs] by (simp add: pending_init kernel_init_time)

text \<open>
  C15. The queues and the events stay consistent: from any consistent state, each operation of
  an event either throws or leads to a consistent state.  In particular a delta notification sits in
  the vector exactly once at the recorded index, every live entry of the heap is the one its
  event points to, and no notification object is on the free list while it is queued.
\<close>

theorem event_operations_keep_invariant:
  assumes "ev_inv k" "event_step c k = Some (r, k')"
  shows "ev_inv k' \<and> m_curr_time k' = m_curr_time k"
  using event_step_ok [OF assms(1), of c] assms(2) by (simp add: same_ctx_def)

theorem event_operations_keep_invariant_witness:
  "\<exists>k'. event_step (CmdNotify 3 0) (kernel_init (\<lambda>_. 0)) = Some (None, k') \<and> ev_inv k'"
proof -
  obtain k' where "event_step (CmdNotify 3 0) (kernel_init (\<lambda>_. 0)) = Some (None, k')"
    by (simp add: notify_time_def kernel_init_def sc_event_ctor_def)
  with event_operations_keep_invariant [OF ev_inv_init this] show ?thesis by blast
qed

text \<open>
  A delay that does not fit: \<^verbatim>\<open>notify\<close> adds the delay to the current time without a check
  (\<^verbatim>\<open>simulate\<close> checks its duration), so a notification whose time exceeds 64 bits is queued for
  a time before the current one.
\<close>

theorem notify_overflow:
  assumes "ev_inv k" "pending k e = NotPending" "2 ^ 64 \<le> unat (m_curr_time k) + unat t"
  shows "\<exists>k' u. notify_time e t k = Some k' \<and> pending k' e = PendAt u \<and> u < m_curr_time k"
proof -
  have lt: "unat (m_curr_time k) < 2 ^ 64" "unat t < 2 ^ 64"
    using unsigned_less [of "m_curr_time k", where 'a = nat] unsigned_less [of t, where 'a = nat] by simp_all
  then have t: "t \<noteq> 0" using assms(3) by auto
  obtain k' where k': "notify_time e t k = Some k'"
    "pending k' = (pending k)(e := PendAt (m_curr_time k + t))"
    using notify_time_ok [OF assms(1), of e t] assms(2) t by auto
  have "unat (m_curr_time k + t) < unat (m_curr_time k)"
    using assms(3) lt by (simp add: unat_word_ariths mod_if [of "_ + _"])
  then have "m_curr_time k + t < m_curr_time k" by (simp add: word_less_nat_alt)
  with k' show ?thesis by auto
qed

theorem notify_overflow_witness:
  "\<exists>k' u. notify_time 1 2 ((kernel_init (\<lambda>_. 0))\<lparr>m_curr_time := - 1\<rparr>) = Some k' \<and>
     pending k' 1 = PendAt u \<and> u < - 1"
proof -
  let ?k = "(kernel_init (\<lambda>_. 0))\<lparr>m_curr_time := - 1\<rparr>"
  have "ev_inv ?k" using ev_inv_init [of "\<lambda>_. 0"] by (simp add: ev_inv_def heap_inv_def)
  moreover have "pending ?k 1 = NotPending"
    unfolding pending_NotPending by (simp add: kernel_init_def sc_event_ctor_def)
  ultimately show ?thesis using notify_overflow [of ?k 1 2] by (simp add: unsigned_minus_1_eq_mask mask_eq_exp_minus_1)
qed

text \<open>
  Removing a process from a sensitivity list takes out one occurrence, if there is one, keeps
  the other entries, and reports whether it found it.
\<close>

theorem remove_dynamic_correct:
  "case remove_dynamic_method m v of (v', found) \<Rightarrow>
     (found \<longleftrightarrow> m \<in> set (m_methods_dynamic v)) \<and>
     mset (m_methods_dynamic v') = mset (m_methods_dynamic v) - {#m#} \<and>
     m_methods_static v' = m_methods_static v \<and> m_threads_dynamic v' = m_threads_dynamic v \<and>
     m_threads_static v' = m_threads_static v"
  using remove_last_swap_mset [of m "m_methods_dynamic v"]
  by (simp add: remove_dynamic_method_def split: prod.split)

end
