(* ===== verification/Sc_Process.thy ===== *)
theory Sc_Process
  imports Prelude Sc_Event Sc_Runnable Sc_Observer
begin

text \<open>
  Event lists (kernel/sc_event.h, kernel/sc_event.cpp), processes and their sensitivity
  (kernel/sc_process.cpp, kernel/sc_method_process.h, kernel/sc_method_process.cpp,
  kernel/sc_thread_process.h, kernel/sc_thread_process.cpp) and \<^verbatim>\<open>sc_event::trigger\<close>, which
  makes processes runnable.

  The state extends the one of the events by the processes, the run queues, the current
  process, the trace of calls to the observer and the counters of the simulation loop.  Process
  control is modelled for \<^verbatim>\<open>SC_NO_DESCENDANTS\<close>; the transfer of control to another
  coroutine inside \<^verbatim>\<open>wait\<close> is part of the scheduler.  Outcome \<open>None\<close> is a failed assertion or a
  thrown report.
\<close>

section \<open>Event lists\<close>

record sc_event_list =
  el_events :: "nat list"
  el_and_list :: bool
  el_auto_delete :: bool
  el_busy :: nat

definition event_list_ctor :: "bool \<Rightarrow> bool \<Rightarrow> sc_event_list" where
  "event_list_ctor al ad =
     \<lparr>el_events = [], el_and_list = al, el_auto_delete = ad, el_busy = 0\<rparr>"

definition el_size :: "sc_event_list \<Rightarrow> int" where
  "el_size el = int (length (el_events el))"

definition el_is_busy :: "sc_event_list \<Rightarrow> bool" where
  "el_is_busy el \<longleftrightarrow> el_busy el \<noteq> 0"

definition el_temporary :: "sc_event_list \<Rightarrow> bool" where
  "el_temporary el \<longleftrightarrow> el_auto_delete el \<and> el_busy el = 0"

definition el_push_back :: "nat \<Rightarrow> sc_event_list \<Rightarrow> sc_event_list" where
  "el_push_back e el =
     (if e \<in> set (el_events el) then el else el\<lparr>el_events := el_events el @ [e]\<rparr>)"

text \<open>\<open>None\<close>: the list has deleted itself.\<close>

definition el_auto_delete_op :: "sc_event_list \<Rightarrow> sc_event_list option" where
  "el_auto_delete_op el =
     (let el1 = (if el_is_busy el then el\<lparr>el_busy := el_busy el - 1\<rparr> else el)
      in if \<not> el_is_busy el1 \<and> el_auto_delete el1 then None else Some el1)"

definition el_push_back_list :: "sc_event_list \<Rightarrow> sc_event_list \<Rightarrow> sc_event_list \<times> sc_event_list option" where
  "el_push_back_list that el = (foldl (\<lambda>l e. el_push_back e l) el (rev (el_events that)), el_auto_delete_op that)"

text \<open>\<open>None\<close>: the list is busy, \<^verbatim>\<open>report_invalid_modification\<close> fails its assertion.\<close>

definition el_swap :: "sc_event_list \<Rightarrow> sc_event_list \<Rightarrow> (sc_event_list \<times> sc_event_list) option" where
  "el_swap a b =
     (if el_is_busy a \<or> el_is_busy b then None
      else Some (a\<lparr>el_events := el_events b\<rparr>, b\<lparr>el_events := el_events a\<rparr>))"

definition el_move_from :: "sc_event_list \<Rightarrow> sc_event_list \<Rightarrow> (sc_event_list \<times> sc_event_list) option" where
  "el_move_from that el =
     (if el_temporary that then el_swap el that else Some (el\<lparr>el_events := el_events that\<rparr>, that))"

definition el_copy_ctor :: "sc_event_list \<Rightarrow> (sc_event_list \<times> sc_event_list option) option" where
  "el_copy_ctor that = do {
     (el, that') \<leftarrow> el_move_from that (event_list_ctor (el_and_list that) False);
     Some (el, el_auto_delete_op that') }"

definition el_assign :: "sc_event_list \<Rightarrow> sc_event_list \<Rightarrow> (sc_event_list \<times> sc_event_list option) option" where
  "el_assign that el =
     (if el_busy el \<noteq> 0 then None
      else do { (el', that') \<leftarrow> el_move_from that el; Some (el', el_auto_delete_op that') })"

definition or_list_ctor :: sc_event_list where
  "or_list_ctor = event_list_ctor False False"

definition or_list_ctor_event :: "nat \<Rightarrow> sc_event_list" where
  "or_list_ctor_event e = el_push_back e (event_list_ctor False False)"

definition or_list_ctor_auto :: "bool \<Rightarrow> sc_event_list" where
  "or_list_ctor_auto ad = event_list_ctor False ad"

definition and_list_ctor :: sc_event_list where
  "and_list_ctor = event_list_ctor False False"

definition and_list_ctor_event :: "nat \<Rightarrow> sc_event_list" where
  "and_list_ctor_event e = el_push_back e (event_list_ctor True False)"

definition and_list_ctor_auto :: "bool \<Rightarrow> sc_event_list" where
  "and_list_ctor_auto ad = event_list_ctor True ad"

definition el_add_event :: "nat \<Rightarrow> sc_event_list \<Rightarrow> sc_event_list option" where
  "el_add_event e el = (if el_is_busy el then None else Some (el_push_back e el))"

definition el_add_list :: "sc_event_list \<Rightarrow> sc_event_list \<Rightarrow> (sc_event_list \<times> sc_event_list option) option" where
  "el_add_list that el = (if el_is_busy el then None else Some (el_push_back_list that el))"

text \<open>
  The operands of \<^verbatim>\<open>|\<close> and \<^verbatim>\<open>&\<close> are events and lists; a list operand comes back with
  \<^verbatim>\<open>auto_delete\<close> applied to it (\<open>None\<close>: it has deleted itself).
\<close>

definition list_then_event :: "sc_event_list \<Rightarrow> sc_event_list \<Rightarrow> nat \<Rightarrow> sc_event_list \<times> sc_event_list option" where
  "list_then_event new l e = (let (x, l') = el_push_back_list l new in (el_push_back e x, l'))"

definition list_then_list ::
  "sc_event_list \<Rightarrow> sc_event_list \<Rightarrow> sc_event_list \<Rightarrow> sc_event_list \<times> sc_event_list option \<times> sc_event_list option" where
  "list_then_list new l1 l2 =
     (let (x, l1') = el_push_back_list l1 new; (y, l2') = el_push_back_list l2 x in (y, l1', l2'))"

definition event_or_event :: "nat \<Rightarrow> nat \<Rightarrow> sc_event_list" where
  "event_or_event e1 e2 = el_push_back e2 (el_push_back e1 (or_list_ctor_auto True))"

definition event_or_list :: "nat \<Rightarrow> sc_event_list \<Rightarrow> sc_event_list \<times> sc_event_list option" where
  "event_or_list e l = el_push_back_list l (el_push_back e (or_list_ctor_auto True))"

definition list_or_event :: "sc_event_list \<Rightarrow> nat \<Rightarrow> sc_event_list \<times> sc_event_list option" where
  "list_or_event = list_then_event (or_list_ctor_auto True)"

definition list_or_list :: "sc_event_list \<Rightarrow> sc_event_list \<Rightarrow> sc_event_list \<times> sc_event_list option \<times> sc_event_list option" where
  "list_or_list = list_then_list (or_list_ctor_auto True)"

definition event_and_event :: "nat \<Rightarrow> nat \<Rightarrow> sc_event_list" where
  "event_and_event e1 e2 = el_push_back e2 (el_push_back e1 (and_list_ctor_auto True))"

definition event_and_list :: "nat \<Rightarrow> sc_event_list \<Rightarrow> sc_event_list \<times> sc_event_list option" where
  "event_and_list e l = el_push_back_list l (el_push_back e (and_list_ctor_auto True))"

definition list_and_event :: "sc_event_list \<Rightarrow> nat \<Rightarrow> sc_event_list \<times> sc_event_list option" where
  "list_and_event = list_then_event (and_list_ctor_auto True)"

definition list_and_list :: "sc_event_list \<Rightarrow> sc_event_list \<Rightarrow> sc_event_list \<times> sc_event_list option \<times> sc_event_list option" where
  "list_and_list = list_then_list (and_list_ctor_auto True)"

text \<open>\<^verbatim>\<open>e1 | e2 | e3 | ...\<close> and \<^verbatim>\<open>e1 & e2 & e3 & ...\<close>: the first operator makes the list.\<close>

definition expr_push_event :: "sc_event_list \<Rightarrow> nat \<Rightarrow> sc_event_list" where
  "expr_push_event expr e = el_push_back e expr"

definition or_expr :: "nat \<Rightarrow> nat \<Rightarrow> nat list \<Rightarrow> sc_event_list" where
  "or_expr e1 e2 es = foldl expr_push_event (event_or_event e1 e2) es"

definition and_expr :: "nat \<Rightarrow> nat \<Rightarrow> nat list \<Rightarrow> sc_event_list" where
  "and_expr e1 e2 es = foldl expr_push_event (event_and_event e1 e2) es"

section \<open>Processes\<close>

datatype trigger_t = STATIC | EVENT | OR_LIST | AND_LIST | TIMEOUT | EVENT_TIMEOUT
  | OR_LIST_TIMEOUT | AND_LIST_TIMEOUT

datatype proc_kind = SC_NO_PROC | SC_METHOD_PROC | SC_THREAD_PROC | SC_CTHREAD_PROC

datatype process_throw_type = THROW_NONE | THROW_KILL | THROW_USER | THROW_ASYNC_RESET | THROW_SYNC_RESET

text \<open>The four bits of \<^verbatim>\<open>m_state\<close> are four fields; \<open>m_has_cor\<close> is \<^verbatim>\<open>m_cor_p != NULL\<close>.\<close>

record sc_process =
  m_process_kind :: proc_kind
  ps_disabled :: bool
  ps_ready_to_run :: bool
  ps_suspended :: bool
  ps_zombie :: bool
  m_trigger_type :: trigger_t
  m_event_p :: "nat option"
  m_event_list_p :: "nat option"
  m_event_count :: int
  m_timeout_event_p :: nat
  m_timed_out :: bool
  m_static_events :: "nat list"
  m_wait_cycle_n :: int
  m_dont_init :: bool
  m_has_reset_signal :: bool
  m_sticky_reset :: bool
  m_unwinding :: bool
  m_throw_status :: process_throw_type
  m_has_cor :: bool

text \<open>What the observer is told, in order.\<close>

datatype sample = Point sample_point | EventNotified nat

datatype sc_status = SC_UNITIALIZED | SC_ELABORATION | SC_BEFORE_END_OF_ELABORATION
  | SC_END_OF_ELABORATION | SC_START_OF_SIMULATION | SC_RUNNING | SC_PAUSED | SC_STOPPED
  | SC_END_OF_SIMULATION

datatype sc_stop_mode = SC_STOP_FINISH_DELTA | SC_STOP_IMMEDIATE

record sim = kernel +
  procs :: "nat \<Rightarrow> sc_process"
  event_lists :: "nat \<Rightarrow> sc_event_list option"
  m_runnable :: sc_runnable
  m_curr_proc :: "nat option"
  observer_attached :: bool
  trace :: "sample list"
  ran_enable :: bool
  rand_seq :: "nat \<Rightarrow> nat"
  rand_pos :: nat
  m_update_list_p :: ptr
  m_update_next_p :: link
  m_async_push_queue :: "nat list"
  m_prim_channel_vec :: "nat list"
  m_construction_done :: nat
  m_change_stamp :: "64 word"
  m_delta_count :: "64 word"
  m_forced_stop :: bool
  stop_mode :: sc_stop_mode
  m_simulation_status :: sc_status
  m_paused :: bool
  m_error :: bool
  m_elaboration_done :: bool
  m_ready_to_simulate :: bool
  m_in_simulator_control :: bool
  m_start_of_simulation_called :: bool
  m_end_of_simulation_called :: bool
  m_process_table :: sc_process_table
  m_exist_p :: link
  m_collectable :: "nat list"
  sc_allow_process_control_corners :: bool

abbreviation upd_proc :: "nat \<Rightarrow> (sc_process \<Rightarrow> sc_process) \<Rightarrow> 'a sim_scheme \<Rightarrow> 'a sim_scheme" where
  "upd_proc p f s \<equiv> s\<lparr>procs := (procs s)(p := f (procs s p))\<rparr>"

text \<open>
  A new process and a new context.  \<open>junk\<close> is what the array of the timed queue holds, \<open>ps\<close>
  the processes and \<open>rs\<close> the values \<^verbatim>\<open>rand\<close> will return.
\<close>

definition sc_process_ctor :: "proc_kind \<Rightarrow> nat \<Rightarrow> sc_process" where
  "sc_process_ctor kind timeout_event =
     \<lparr>m_process_kind = kind, ps_disabled = False, ps_ready_to_run = False, ps_suspended = False,
      ps_zombie = False, m_trigger_type = STATIC, m_event_p = None, m_event_list_p = None,
      m_event_count = 0, m_timeout_event_p = timeout_event, m_timed_out = False,
      m_static_events = [], m_wait_cycle_n = 0, m_dont_init = False, m_has_reset_signal = False,
      m_sticky_reset = False, m_unwinding = False, m_throw_status = THROW_NONE, m_has_cor = False\<rparr>"

definition sc_simcontext_init :: "(nat \<Rightarrow> nat) \<Rightarrow> (nat \<Rightarrow> sc_process) \<Rightarrow> (nat \<Rightarrow> nat) \<Rightarrow> sim" where
  "sc_simcontext_init junk ps rs = kernel.extend (kernel_init junk)
     \<lparr>procs = ps, event_lists = (\<lambda>_. None), m_runnable = sc_runnable_ctor (\<lambda>_. Null),
      m_curr_proc = None, observer_attached = False, trace = [], ran_enable = False,
      rand_seq = rs, rand_pos = 0, m_update_list_p = QEnd,
      m_update_next_p = (\<lambda>_. Null), m_async_push_queue = [], m_prim_channel_vec = [], m_construction_done = 0, m_change_stamp = 0, m_delta_count = 0,
      m_forced_stop = False, stop_mode = SC_STOP_FINISH_DELTA, m_simulation_status = SC_ELABORATION,
      m_paused = False, m_error = False, m_elaboration_done = False, m_ready_to_simulate = False,
      m_in_simulator_control = False, m_start_of_simulation_called = False,
      m_end_of_simulation_called = False, m_process_table = process_table_ctor,
      m_exist_p = (\<lambda>_. Null), m_collectable = [],
      sc_allow_process_control_corners = False\<rparr>"

text \<open>\<^verbatim>\<open>sc_process_b::start_unwinding\<close>: whether the flag was set by this call.\<close>

definition start_unwinding :: "sc_process \<Rightarrow> sc_process \<times> bool" where
  "start_unwinding v =
     (if \<not> m_unwinding v \<and> m_throw_status v \<in> {THROW_KILL, THROW_ASYNC_RESET, THROW_SYNC_RESET}
      then (v\<lparr>m_unwinding := True\<rparr>, True) else (v, False))"

definition clear_unwinding :: "sc_process \<Rightarrow> sc_process \<times> bool" where
  "clear_unwinding v = (v\<lparr>m_unwinding := False\<rparr>, True)"

definition add_static_event :: "nat \<Rightarrow> nat \<Rightarrow> 'a sim_scheme \<Rightarrow> 'a sim_scheme option" where
  "add_static_event p e s =
     (if e \<in> set (m_static_events (procs s p)) then Some s
      else let s1 = upd_proc p (\<lambda>v. v\<lparr>m_static_events := m_static_events v @ [e]\<rparr>) s
           in case m_process_kind (procs s p) of
                SC_METHOD_PROC \<Rightarrow> Some (upd_event e (add_static_method p) s1)
              | SC_THREAD_PROC \<Rightarrow> Some (upd_event e (add_static_thread p) s1)
              | SC_CTHREAD_PROC \<Rightarrow> Some (upd_event e (add_static_thread p) s1)
              | SC_NO_PROC \<Rightarrow> None)"

definition is_runnable :: "nat \<Rightarrow> 'a sim_scheme \<Rightarrow> bool" where
  "is_runnable p s \<longleftrightarrow> runnable_p (m_runnable s) p \<noteq> Null"

definition with_runnable :: "(sc_runnable \<Rightarrow> sc_runnable option) \<Rightarrow> 'a sim_scheme \<Rightarrow> 'a sim_scheme option" where
  "with_runnable f s = map_option (\<lambda>r. s\<lparr>m_runnable := r\<rparr>) (f (m_runnable s))"

definition push_runnable_method :: "nat \<Rightarrow> 'a sim_scheme \<Rightarrow> 'a sim_scheme option" where
  "push_runnable_method p = with_runnable (push_back_method p)"

definition push_runnable_method_front :: "nat \<Rightarrow> 'a sim_scheme \<Rightarrow> 'a sim_scheme option" where
  "push_runnable_method_front p = with_runnable (push_front_method p)"

definition push_runnable_thread :: "nat \<Rightarrow> 'a sim_scheme \<Rightarrow> 'a sim_scheme option" where
  "push_runnable_thread p = with_runnable (push_back_thread p)"

definition push_runnable_thread_front :: "nat \<Rightarrow> 'a sim_scheme \<Rightarrow> 'a sim_scheme option" where
  "push_runnable_thread_front p = with_runnable (push_front_thread p)"

definition remove_runnable_method :: "nat \<Rightarrow> 'a sim_scheme \<Rightarrow> 'a sim_scheme option" where
  "remove_runnable_method p = with_runnable (remove_method p)"

definition remove_runnable_thread :: "nat \<Rightarrow> 'a sim_scheme \<Rightarrow> 'a sim_scheme option" where
  "remove_runnable_thread p = with_runnable (remove_thread p)"

section \<open>Sensitivity\<close>

text \<open>Iterating over the events of a list from the last to the first.\<close>

definition el_add_dynamic :: "(nat \<Rightarrow> sc_event \<Rightarrow> sc_event) \<Rightarrow> nat \<Rightarrow> nat \<Rightarrow> 'a sim_scheme \<Rightarrow> 'a sim_scheme option" where
  "el_add_dynamic add l p s =
     (case event_lists s l of
        None \<Rightarrow> None
      | Some el \<Rightarrow>
          let s1 = s\<lparr>event_lists := (event_lists s)(l \<mapsto> el\<lparr>el_busy := el_busy el + 1\<rparr>)\<rparr>
          in Some (foldl (\<lambda>t e. upd_event e (add p) t) s1 (rev (el_events el))))"

definition el_remove_dynamic ::
  "(nat \<Rightarrow> sc_event \<Rightarrow> sc_event \<times> bool) \<Rightarrow> nat \<Rightarrow> nat \<Rightarrow> nat option \<Rightarrow> 'a sim_scheme \<Rightarrow> 'a sim_scheme option" where
  "el_remove_dynamic rem l p e_not s =
     (case event_lists s l of
        None \<Rightarrow> None
      | Some el \<Rightarrow>
          Some (foldl (\<lambda>t e. if Some e \<noteq> e_not then upd_event e (\<lambda>v. fst (rem p v)) t else t)
            s (rev (el_events el))))"

definition list_auto_delete :: "nat \<Rightarrow> 'a sim_scheme \<Rightarrow> 'a sim_scheme option" where
  "list_auto_delete l s =
     (case event_lists s l of
        None \<Rightarrow> None
      | Some el \<Rightarrow> Some (s\<lparr>event_lists := (event_lists s)(l := el_auto_delete_op el)\<rparr>))"

text \<open>\<^verbatim>\<open>m_event_list_p->remove_dynamic(this, e); m_event_list_p->auto_delete(); m_event_list_p = 0\<close>.\<close>

definition leave_list ::
  "(nat \<Rightarrow> sc_event \<Rightarrow> sc_event \<times> bool) \<Rightarrow> nat \<Rightarrow> nat option \<Rightarrow> 'a sim_scheme \<Rightarrow> 'a sim_scheme option" where
  "leave_list rem p e_not s =
     (case m_event_list_p (procs s p) of
        None \<Rightarrow> None
      | Some l \<Rightarrow> do {
          s1 \<leftarrow> el_remove_dynamic rem l p e_not s;
          s2 \<leftarrow> list_auto_delete l s1;
          Some (upd_proc p (\<lambda>v. v\<lparr>m_event_list_p := None\<rparr>) s2) })"

definition leave_event ::
  "(nat \<Rightarrow> sc_event \<Rightarrow> sc_event \<times> bool) \<Rightarrow> nat \<Rightarrow> 'a sim_scheme \<Rightarrow> 'a sim_scheme option" where
  "leave_event rem p s =
     (case m_event_p (procs s p) of
        None \<Rightarrow> None
      | Some e \<Rightarrow> Some (upd_proc p (\<lambda>v. v\<lparr>m_event_p := None\<rparr>) (upd_event e (\<lambda>v. fst (rem p v)) s)))"

text \<open>\<^verbatim>\<open>m_timeout_event_p->cancel(); m_timeout_event_p->reset()\<close>.\<close>

definition clear_timeout :: "nat \<Rightarrow> 'a sim_scheme \<Rightarrow> 'a sim_scheme option" where
  "clear_timeout p s = do {
     s1 \<leftarrow> cancel (m_timeout_event_p (procs s p)) s;
     Some (event_reset (m_timeout_event_p (procs s p)) s1) }"

definition clear_trigger :: "nat \<Rightarrow> 'a sim_scheme \<Rightarrow> 'a sim_scheme option" where
  "clear_trigger p s =
     (let static = (\<lambda>t. Some (upd_proc p (\<lambda>v. v\<lparr>m_trigger_type := STATIC\<rparr>) t));
          zero_count = upd_proc p (\<lambda>v. v\<lparr>m_event_count := 0\<rparr>)
      in case m_trigger_type (procs s p) of
        STATIC \<Rightarrow> Some s
      | EVENT \<Rightarrow> do { s1 \<leftarrow> leave_event remove_dynamic_method p s; static s1 }
      | OR_LIST \<Rightarrow> do { s1 \<leftarrow> leave_list remove_dynamic_method p None s; static s1 }
      | AND_LIST \<Rightarrow> do { s1 \<leftarrow> leave_list remove_dynamic_method p None s; static (zero_count s1) }
      | TIMEOUT \<Rightarrow> do { s1 \<leftarrow> clear_timeout p s; static s1 }
      | EVENT_TIMEOUT \<Rightarrow> do { s1 \<leftarrow> clear_timeout p s; s2 \<leftarrow> leave_event remove_dynamic_method p s1; static s2 }
      | OR_LIST_TIMEOUT \<Rightarrow> do { s1 \<leftarrow> clear_timeout p s; s2 \<leftarrow> leave_list remove_dynamic_method p None s1; static s2 }
      | AND_LIST_TIMEOUT \<Rightarrow> do {
          s1 \<leftarrow> clear_timeout p s; s2 \<leftarrow> leave_list remove_dynamic_method p None s1; static (zero_count s2) })"

text \<open>\<^verbatim>\<open>m_timeout_event_p->notify_internal( t ); m_timeout_event_p->add_dynamic( this )\<close>.\<close>

definition arm_timeout :: "(nat \<Rightarrow> sc_event \<Rightarrow> sc_event) \<Rightarrow> nat \<Rightarrow> 64 word \<Rightarrow> 'a sim_scheme \<Rightarrow> 'a sim_scheme" where
  "arm_timeout add p t s =
     (let e = m_timeout_event_p (procs s p) in upd_event e (add p) (notify_internal e t s))"

definition wait_event :: "(nat \<Rightarrow> sc_event \<Rightarrow> sc_event) \<Rightarrow> nat \<Rightarrow> nat \<Rightarrow> trigger_t \<Rightarrow> 'a sim_scheme \<Rightarrow> 'a sim_scheme" where
  "wait_event add p e ty s =
     upd_proc p (\<lambda>v. v\<lparr>m_event_p := Some e, m_trigger_type := ty\<rparr>) (upd_event e (add p) s)"

definition wait_list ::
  "(nat \<Rightarrow> sc_event \<Rightarrow> sc_event) \<Rightarrow> nat \<Rightarrow> nat \<Rightarrow> trigger_t \<Rightarrow> 'a sim_scheme \<Rightarrow> 'a sim_scheme option" where
  "wait_list add p l ty s = do {
     s1 \<leftarrow> el_add_dynamic add l p s;
     el \<leftarrow> event_lists s1 l;
     let s2 = upd_proc p (\<lambda>v. v\<lparr>m_event_list_p := Some l\<rparr>) s1;
         s3 = (if ty = AND_LIST \<or> ty = AND_LIST_TIMEOUT
               then upd_proc p (\<lambda>v. v\<lparr>m_event_count := el_size el\<rparr>) s2 else s2)
     in Some (upd_proc p (\<lambda>v. v\<lparr>m_trigger_type := ty\<rparr>) s3) }"

datatype wait_arg = WEvent nat | WOrList nat | WAndList nat | WTime "64 word"
  | WTimeEvent "64 word" nat | WTimeOrList "64 word" nat | WTimeAndList "64 word" nat

definition register_wait :: "(nat \<Rightarrow> sc_event \<Rightarrow> sc_event) \<Rightarrow> nat \<Rightarrow> wait_arg \<Rightarrow> 'a sim_scheme \<Rightarrow> 'a sim_scheme option" where
  "register_wait add p w s =
     (case w of
        WEvent e \<Rightarrow> Some (wait_event add p e EVENT s)
      | WOrList l \<Rightarrow> wait_list add p l OR_LIST s
      | WAndList l \<Rightarrow> wait_list add p l AND_LIST s
      | WTime t \<Rightarrow> Some (upd_proc p (\<lambda>v. v\<lparr>m_trigger_type := TIMEOUT\<rparr>) (arm_timeout add p t s))
      | WTimeEvent t e \<Rightarrow> Some (wait_event add p e EVENT_TIMEOUT (arm_timeout add p t s))
      | WTimeOrList t l \<Rightarrow> wait_list add p l OR_LIST_TIMEOUT (arm_timeout add p t s)
      | WTimeAndList t l \<Rightarrow> wait_list add p l AND_LIST_TIMEOUT (arm_timeout add p t s))"

text \<open>The seven overloads of \<^verbatim>\<open>sc_method_process::next_trigger\<close> and of \<^verbatim>\<open>sc_thread_process::wait\<close>.\<close>

definition next_trigger :: "nat \<Rightarrow> wait_arg \<Rightarrow> 'a sim_scheme \<Rightarrow> 'a sim_scheme option" where
  "next_trigger p w s = do { s1 \<leftarrow> clear_trigger p s; register_wait add_dynamic_method p w s1 }"

definition thread_wait :: "nat \<Rightarrow> wait_arg \<Rightarrow> 'a sim_scheme \<Rightarrow> 'a sim_scheme option" where
  "thread_wait p w s = (if m_unwinding (procs s p) then None else register_wait add_dynamic_thread p w s)"

definition wait_cycles :: "nat \<Rightarrow> int \<Rightarrow> 'a sim_scheme \<Rightarrow> 'a sim_scheme option" where
  "wait_cycles p n s =
     (if m_unwinding (procs s p) then None else Some (upd_proc p (\<lambda>v. v\<lparr>m_wait_cycle_n := n - 1\<rparr>) s))"

definition remove_dynamic_events :: "bool \<Rightarrow> nat \<Rightarrow> 'a sim_scheme \<Rightarrow> 'a sim_scheme option" where
  "remove_dynamic_events skip_timeout p s0 =
     (let s = upd_proc p (\<lambda>v. v\<lparr>m_trigger_type := STATIC\<rparr>) s0;
          clean = (\<lambda>rem. do {
            s1 \<leftarrow> (if skip_timeout then Some s
                   else cancel (m_timeout_event_p (procs s p))
                          (upd_event (m_timeout_event_p (procs s p)) (\<lambda>v. fst (rem p v)) s));
            let s2 = (case m_event_p (procs s p) of
                        None \<Rightarrow> s1 | Some e \<Rightarrow> upd_event e (\<lambda>v. fst (rem p v)) s1)
            in if m_event_list_p (procs s p) = None then Some s2 else leave_list rem p None s2 })
      in case m_process_kind (procs s p) of
           SC_METHOD_PROC \<Rightarrow> clean remove_dynamic_method
         | SC_THREAD_PROC \<Rightarrow> clean remove_dynamic_thread
         | SC_CTHREAD_PROC \<Rightarrow> clean remove_dynamic_thread
         | SC_NO_PROC \<Rightarrow> Some s)"

definition remove_static_events :: "nat \<Rightarrow> 'a sim_scheme \<Rightarrow> 'a sim_scheme" where
  "remove_static_events p s =
     (let clean = (\<lambda>rem.
        upd_proc p (\<lambda>v. v\<lparr>m_static_events := []\<rparr>)
          (foldl (\<lambda>t e. upd_event e (\<lambda>v. fst (rem p v)) t) s (rev (m_static_events (procs s p)))))
      in case m_process_kind (procs s p) of
           SC_METHOD_PROC \<Rightarrow> clean remove_static_method
         | SC_THREAD_PROC \<Rightarrow> clean remove_static_thread
         | SC_CTHREAD_PROC \<Rightarrow> clean remove_static_thread
         | SC_NO_PROC \<Rightarrow> s)"

section \<open>Triggering\<close>

definition method_trigger_static :: "nat \<Rightarrow> 'a sim_scheme \<Rightarrow> 'a sim_scheme option" where
  "method_trigger_static p s =
     (if ps_disabled (procs s p) \<or> is_runnable p s \<or> m_trigger_type (procs s p) \<noteq> STATIC then Some s
      else if m_curr_proc s = Some p then Some s
      else if ps_suspended (procs s p) then Some (upd_proc p (\<lambda>v. v\<lparr>ps_ready_to_run := True\<rparr>) s)
      else push_runnable_method p s)"

definition thread_trigger_static :: "nat \<Rightarrow> 'a sim_scheme \<Rightarrow> 'a sim_scheme option" where
  "thread_trigger_static p s =
     (if ps_disabled (procs s p) \<or> is_runnable p s \<or> m_trigger_type (procs s p) \<noteq> STATIC then Some s
      else if m_curr_proc s = Some p then Some s
      else if m_wait_cycle_n (procs s p) > 0
      then Some (upd_proc p (\<lambda>v. v\<lparr>m_wait_cycle_n := m_wait_cycle_n v - 1\<rparr>) s)
      else if ps_suspended (procs s p) then Some (upd_proc p (\<lambda>v. v\<lparr>ps_ready_to_run := True\<rparr>) s)
      else push_runnable_thread p s)"

text \<open>
  The switch of \<^verbatim>\<open>trigger_dynamic\<close>, the same for methods and threads.  The flag tells whether
  the wait is satisfied, so that the process is to be scheduled; otherwise the function
  returns true at once.
\<close>

definition dynamic_switch ::
  "(nat \<Rightarrow> sc_event \<Rightarrow> sc_event \<times> bool) \<Rightarrow> nat \<Rightarrow> nat \<Rightarrow> 'a sim_scheme \<Rightarrow> (bool \<times> 'a sim_scheme) option" where
  "dynamic_switch rem p e s =
     (let static = upd_proc p (\<lambda>v. v\<lparr>m_trigger_type := STATIC\<rparr>);
          timed_out = upd_proc p (\<lambda>v. v\<lparr>m_timed_out := True\<rparr>);
          no_event = upd_proc p (\<lambda>v. v\<lparr>m_event_p := None\<rparr>);
          drop_list = (\<lambda>t. do {
            l \<leftarrow> m_event_list_p (procs t p);
            t1 \<leftarrow> list_auto_delete l t;
            Some (upd_proc p (\<lambda>v. v\<lparr>m_event_list_p := None\<rparr>) t1) });
          is_timeout = (e = m_timeout_event_p (procs s p));
          counted = upd_proc p (\<lambda>v. v\<lparr>m_event_count := m_event_count v - 1\<rparr>) s
      in case m_trigger_type (procs s p) of
        EVENT \<Rightarrow> Some (True, static (no_event s))
      | AND_LIST \<Rightarrow>
          if m_event_count (procs counted p) = 0
          then do { s1 \<leftarrow> drop_list counted; Some (True, static s1) }
          else Some (False, counted)
      | OR_LIST \<Rightarrow> do { s1 \<leftarrow> leave_list rem p (Some e) s; Some (True, static s1) }
      | TIMEOUT \<Rightarrow> Some (True, static s)
      | EVENT_TIMEOUT \<Rightarrow>
          if is_timeout
          then do { s1 \<leftarrow> leave_event rem p (timed_out s); Some (True, static s1) }
          else do { s1 \<leftarrow> clear_timeout p s; Some (True, static (no_event s1)) }
      | OR_LIST_TIMEOUT \<Rightarrow>
          if is_timeout
          then do { s1 \<leftarrow> leave_list rem p (Some e) (timed_out s); Some (True, static s1) }
          else do { s1 \<leftarrow> clear_timeout p s; s2 \<leftarrow> leave_list rem p (Some e) s1; Some (True, static s2) }
      | AND_LIST_TIMEOUT \<Rightarrow>
          if is_timeout
          then do { s1 \<leftarrow> leave_list rem p (Some e) (timed_out s); Some (True, static s1) }
          else if m_event_count (procs counted p) = 0
          then do { s1 \<leftarrow> clear_timeout p counted; s2 \<leftarrow> drop_list s1; Some (True, static s2) }
          else Some (False, counted)
      | STATIC \<Rightarrow> Some (False, s))"

definition method_trigger_dynamic :: "nat \<Rightarrow> nat \<Rightarrow> 'a sim_scheme \<Rightarrow> (bool \<times> 'a sim_scheme) option" where
  "method_trigger_dynamic p e s0 =
     (let s = upd_proc p (\<lambda>v. v\<lparr>m_timed_out := False\<rparr>) s0
      in if m_curr_proc s = Some p then Some (False, s)
         else if is_runnable p s then Some (True, s)
         else if ps_disabled (procs s p)
         then if e = m_timeout_event_p (procs s p)
              then do { s1 \<leftarrow> remove_dynamic_events True p s; Some (True, s1) }
              else Some (False, s)
         else do {
           (satisfied, s1) \<leftarrow> dynamic_switch remove_dynamic_method p e s;
           if \<not> satisfied then Some (True, s1)
           else if ps_suspended (procs s1 p)
           then Some (True, upd_proc p (\<lambda>v. v\<lparr>ps_ready_to_run := True\<rparr>) s1)
           else do { s2 \<leftarrow> push_runnable_method p s1; Some (True, s2) } })"

definition thread_trigger_dynamic :: "nat \<Rightarrow> nat \<Rightarrow> 'a sim_scheme \<Rightarrow> (bool \<times> 'a sim_scheme) option" where
  "thread_trigger_dynamic p e s0 =
     (let s = upd_proc p (\<lambda>v. v\<lparr>m_timed_out := False\<rparr>) s0
      in if is_runnable p s then Some (True, s)
         else if ps_disabled (procs s p)
         then if e = m_timeout_event_p (procs s p)
              then do { s1 \<leftarrow> remove_dynamic_events True p s; Some (True, s1) }
              else Some (False, s)
         else do {
           (satisfied, s1) \<leftarrow> dynamic_switch remove_dynamic_thread p e s;
           if \<not> satisfied then Some (True, s1)
           else if ps_suspended (procs s1 p)
           then Some (True, upd_proc p (\<lambda>v. v\<lparr>ps_ready_to_run := True\<rparr>) s1)
           else do { s2 \<leftarrow> push_runnable_thread p s1; Some (True, s2) } })"

text \<open>The static loops run from the last entry to the first.\<close>

fun trigger_all :: "(nat \<Rightarrow> 'a sim_scheme \<Rightarrow> 'a sim_scheme option) \<Rightarrow> nat list \<Rightarrow> 'a sim_scheme \<Rightarrow> 'a sim_scheme option" where
  "trigger_all f [] s = Some s"
| "trigger_all f (p # ps) s = do { s1 \<leftarrow> f p s; trigger_all f ps s1 }"

text \<open>
  The dynamic loops: entry \<open>i\<close> of the vector is triggered; when it is to be removed the last
  live entry takes its place and \<open>n\<close>, the number of live entries, falls.
\<close>

function trigger_dynamic_loop ::
  "(nat \<Rightarrow> nat \<Rightarrow> 'a sim_scheme \<Rightarrow> (bool \<times> 'a sim_scheme) option) \<Rightarrow> (sc_event \<Rightarrow> nat list) \<Rightarrow>
   ((nat list \<Rightarrow> nat list) \<Rightarrow> sc_event \<Rightarrow> sc_event) \<Rightarrow> nat \<Rightarrow> nat \<Rightarrow> nat \<Rightarrow> 'a sim_scheme \<Rightarrow>
   (nat \<times> 'a sim_scheme) option" where
  "trigger_dynamic_loop f get upd e i n s =
     (if i < n
      then case f (get (events s e) ! i) e s of
             None \<Rightarrow> None
           | Some (rc, s1) \<Rightarrow>
               if rc
               then trigger_dynamic_loop f get upd e i (n - 1)
                      (upd_event e (upd (\<lambda>v. v[i := v ! (n - 1)])) s1)
               else trigger_dynamic_loop f get upd e (i + 1) n s1
      else Some (n, s))"
  by pat_completeness auto
termination by (relation "measure (\<lambda>(f, get, upd, e, i, n, s). n - i)") auto

declare trigger_dynamic_loop.simps [simp del]

definition trigger_dynamics ::
  "(nat \<Rightarrow> nat \<Rightarrow> 'a sim_scheme \<Rightarrow> (bool \<times> 'a sim_scheme) option) \<Rightarrow> (sc_event \<Rightarrow> nat list) \<Rightarrow>
   ((nat list \<Rightarrow> nat list) \<Rightarrow> sc_event \<Rightarrow> sc_event) \<Rightarrow> nat \<Rightarrow> 'a sim_scheme \<Rightarrow> 'a sim_scheme option" where
  "trigger_dynamics f get upd e s =
     (let size = length (get (events s e))
      in if size \<noteq> 0
         then do {
           (n, s1) \<leftarrow> trigger_dynamic_loop f get upd e 0 size s;
           Some (upd_event e (upd (take n)) s1) }
         else Some s)"

definition observe :: "sample \<Rightarrow> 'a sim_scheme \<Rightarrow> 'a sim_scheme" where
  "observe x s = (if observer_attached s then s\<lparr>trace := trace s @ [x]\<rparr> else s)"

definition event_trigger :: "nat \<Rightarrow> 'a sim_scheme \<Rightarrow> 'a sim_scheme option" where
  "event_trigger e s0 =
     (let s = (if ev_observer (events s0 e) then s0\<lparr>trace := trace s0 @ [EventNotified e]\<rparr> else s0)
      in do {
        s1 \<leftarrow> trigger_all method_trigger_static (rev (m_methods_static (events s e))) s;
        s2 \<leftarrow> trigger_dynamics method_trigger_dynamic m_methods_dynamic m_methods_dynamic_update e s1;
        s3 \<leftarrow> trigger_all thread_trigger_static (rev (m_threads_static (events s2 e))) s2;
        s4 \<leftarrow> trigger_dynamics thread_trigger_dynamic m_threads_dynamic m_threads_dynamic_update e s3;
        Some (upd_event e (\<lambda>v. v\<lparr>m_notify_type := NONE, m_delta_event_index := - 1, m_timed := None\<rparr>) s4) })"

text \<open>\<^verbatim>\<open>sc_event::notify()\<close>: immediate notification, an error in the update phase.\<close>

definition notify_immediate :: "nat \<Rightarrow> 'a sim_scheme \<Rightarrow> 'a sim_scheme option" where
  "notify_immediate e s =
     (if update_phase s then None else do { s1 \<leftarrow> cancel e s; event_trigger e s1 })"

section \<open>Process control\<close>

definition timeout_waiting :: "trigger_t \<Rightarrow> bool" where
  "timeout_waiting ty \<longleftrightarrow> ty \<in> {TIMEOUT, EVENT_TIMEOUT, OR_LIST_TIMEOUT, AND_LIST_TIMEOUT}"

definition method_disable_process :: "nat \<Rightarrow> 'a sim_scheme \<Rightarrow> 'a sim_scheme option" where
  "method_disable_process p s =
     (if \<not> sc_allow_process_control_corners s \<and> timeout_waiting (m_trigger_type (procs s p)) then None
      else let s1 = upd_proc p (\<lambda>v. v\<lparr>ps_disabled := True\<rparr>) s
           in if \<not> m_ready_to_simulate s1 then remove_runnable_method p s1 else Some s1)"

definition thread_disable_process :: "nat \<Rightarrow> 'a sim_scheme \<Rightarrow> 'a sim_scheme option" where
  "thread_disable_process p s =
     (if \<not> sc_allow_process_control_corners s \<and> timeout_waiting (m_trigger_type (procs s p)) then None
      else let s1 = upd_proc p (\<lambda>v. v\<lparr>ps_disabled := True\<rparr>) s
           in if \<not> m_ready_to_simulate s1
              then remove_runnable_thread p (upd_proc p (\<lambda>v. v\<lparr>ps_ready_to_run := True\<rparr>) s1) else Some s1)"

definition only_ready_to_run :: "sc_process \<Rightarrow> bool" where
  "only_ready_to_run v \<longleftrightarrow> ps_ready_to_run v \<and> \<not> ps_disabled v \<and> \<not> ps_suspended v \<and> \<not> ps_zombie v"

definition method_enable_process :: "nat \<Rightarrow> 'a sim_scheme \<Rightarrow> 'a sim_scheme option" where
  "method_enable_process p s =
     (let s1 = upd_proc p (\<lambda>v. v\<lparr>ps_disabled := False\<rparr>) s
      in if only_ready_to_run (procs s1 p)
         then let s2 = upd_proc p (\<lambda>v. v\<lparr>ps_ready_to_run := False\<rparr>) s1
              in if \<not> is_runnable p s2 then push_runnable_method p s2 else Some s2
         else Some s1)"

definition thread_enable_process :: "nat \<Rightarrow> 'a sim_scheme \<Rightarrow> 'a sim_scheme option" where
  "thread_enable_process p s =
     (let s1 = upd_proc p (\<lambda>v. v\<lparr>ps_disabled := False\<rparr>) s
      in if only_ready_to_run (procs s1 p) \<and> sc_allow_process_control_corners s1
         then let s2 = upd_proc p (\<lambda>v. v\<lparr>ps_ready_to_run := False\<rparr>) s1
              in if \<not> is_runnable p s2 then push_runnable_thread p s2 else Some s2
         else Some s1)"

definition suspend_corner :: "nat \<Rightarrow> 'a sim_scheme \<Rightarrow> bool" where
  "suspend_corner p s \<longleftrightarrow> \<not> sc_allow_process_control_corners s \<and>
     (m_has_reset_signal (procs s p) \<or> m_sticky_reset (procs s p))"

definition method_suspend_process :: "nat \<Rightarrow> 'a sim_scheme \<Rightarrow> 'a sim_scheme option" where
  "method_suspend_process p s =
     (if suspend_corner p s then None
      else do {
        let s1 = upd_proc p (\<lambda>v. v\<lparr>ps_suspended := True\<rparr>) s;
        s2 \<leftarrow> (if is_runnable p s1
               then remove_runnable_method p (upd_proc p (\<lambda>v. v\<lparr>ps_ready_to_run := True\<rparr>) s1) else Some s1);
        Some (if m_curr_proc s2 = Some p then upd_proc p (\<lambda>v. v\<lparr>ps_ready_to_run := True\<rparr>) s2 else s2) })"

definition thread_suspend_process :: "nat \<Rightarrow> 'a sim_scheme \<Rightarrow> 'a sim_scheme option" where
  "thread_suspend_process p s =
     (if suspend_corner p s then None
      else do {
        let s1 = upd_proc p (\<lambda>v. v\<lparr>ps_suspended := True\<rparr>) s;
        s2 \<leftarrow> (if is_runnable p s1
               then remove_runnable_thread p (upd_proc p (\<lambda>v. v\<lparr>ps_ready_to_run := True\<rparr>) s1) else Some s1);
        Some (if m_curr_proc s2 = Some p then upd_proc p (\<lambda>v. v\<lparr>ps_ready_to_run := True\<rparr>) s2 else s2) })"

definition method_resume_process :: "nat \<Rightarrow> 'a sim_scheme \<Rightarrow> 'a sim_scheme option" where
  "method_resume_process p s =
     (if \<not> sc_allow_process_control_corners s \<and> ps_disabled (procs s p) \<and> ps_suspended (procs s p) then None
      else let s1 = upd_proc p (\<lambda>v. v\<lparr>ps_suspended := False\<rparr>) s
           in if ps_ready_to_run (procs s1 p)
              then let s2 = upd_proc p (\<lambda>v. v\<lparr>ps_ready_to_run := False\<rparr>) s1
                   in if \<not> is_runnable p s2 \<and> m_curr_proc s2 \<noteq> Some p
                      then do { s3 \<leftarrow> push_runnable_method p s2; remove_dynamic_events False p s3 }
                      else Some s2
              else Some s1)"

definition thread_resume_process :: "nat \<Rightarrow> 'a sim_scheme \<Rightarrow> 'a sim_scheme option" where
  "thread_resume_process p s =
     (if \<not> sc_allow_process_control_corners s \<and> ps_disabled (procs s p) \<and> ps_suspended (procs s p) then None
      else let s1 = upd_proc p (\<lambda>v. v\<lparr>ps_suspended := False\<rparr>) s
           in if ps_ready_to_run (procs s1 p)
              then do {
                let s2 = upd_proc p (\<lambda>v. v\<lparr>ps_ready_to_run := False\<rparr>) s1;
                s3 \<leftarrow> (if \<not> is_runnable p s2 then push_runnable_thread p s2 else Some s2);
                remove_dynamic_events False p s3 }
              else Some s1)"

section \<open>What the event operations leave alone\<close>

lemma cancel_more:
  assumes "cancel e k = Some k'"
  shows "kernel.more k' = kernel.more k"
proof -
  have "kernel.more k1 = kernel.more k" if "remove_delta_event e k = Some k1" for k1
    using that by (auto simp: remove_delta_event_def Let_def split: if_splits)
  moreover have "kernel.more k1 = kernel.more k" if "drop_timed e k = Some k1" for k1
    using that by (auto simp: drop_timed_def split: option.splits)
  ultimately show ?thesis using assms
    by (auto simp: cancel_def split: notify_t.splits Option.bind_splits)
qed

lemma upd_event_more [simp]: "kernel.more (upd_event e f k) = kernel.more k"
  by (simp add: upd_event_def)

lemma more_eq_sim:
  "kernel.more (s :: 'a sim_scheme) = kernel.more s' \<Longrightarrow>
   procs s = procs s' \<and> m_runnable s = m_runnable s' \<and> m_curr_proc s = m_curr_proc s'"
  by (cases s; cases s') simp

definition bits :: "sc_process \<Rightarrow> bool \<times> bool \<times> bool \<times> bool" where
  "bits v = (ps_disabled v, ps_ready_to_run v, ps_suspended v, ps_zombie v)"

definition no_bits :: "(sc_process \<Rightarrow> sc_process) \<Rightarrow> bool" where
  "no_bits f \<longleftrightarrow> (\<forall>v. bits (f v) = bits v)"

lemma no_bits_updates [simp]:
  "no_bits (\<lambda>v. v\<lparr>m_trigger_type := a\<rparr>)" "no_bits (\<lambda>v. v\<lparr>m_timed_out := b\<rparr>)"
  "no_bits (\<lambda>v. v\<lparr>m_event_p := c\<rparr>)" "no_bits (\<lambda>v. v\<lparr>m_event_list_p := c\<rparr>)"
  "no_bits (m_event_count_update g)" "no_bits (\<lambda>v. v\<lparr>m_event_count := m_event_count v - 1\<rparr>)"
  "no_bits (\<lambda>v. v\<lparr>m_event_list_p := c, m_trigger_type := a\<rparr>)"
  "no_bits (\<lambda>v. v\<lparr>m_wait_cycle_n := m_wait_cycle_n v - 1\<rparr>)"
  "no_bits (\<lambda>v. v\<lparr>m_event_p := c, m_trigger_type := a\<rparr>)"
  by (simp_all add: no_bits_def bits_def)

text \<open>
  A frame condition of triggers: a preorder that holds whenever events, the dynamic sensitivity
  of a process or event lists change.  Leaving events and lists and the switch of
  \<^verbatim>\<open>trigger_dynamic\<close> stay within every frame.
\<close>

locale frame =
  fixes R :: "'a sim_scheme \<Rightarrow> 'a sim_scheme \<Rightarrow> bool"
  assumes R_refl: "R s s"
    and R_trans: "R s s' \<Longrightarrow> R s' s'' \<Longrightarrow> R s s''"
    and R_event: "R s (upd_event e f s)"
    and R_cancel: "cancel e s = Some s' \<Longrightarrow> R s s'"
    and R_proc: "no_bits g \<Longrightarrow> R s (upd_proc p g s)"
    and R_lists: "R s (s\<lparr>event_lists := x\<rparr>)"
begin

lemma R_then_proc: "R s s' \<Longrightarrow> no_bits g \<Longrightarrow> R s (upd_proc p g s')"
  using R_trans R_proc by blast

lemma R_foldl: "(\<And>t e. R t (g t e)) \<Longrightarrow> R s (foldl g s es)"
proof (induction es arbitrary: s)
  case (Cons e es)
  then show ?case using R_trans [of s "g s e"] by simp
qed (simp add: R_refl)

lemma R_leave_event: "leave_event rem p s = Some s' \<Longrightarrow> R s s'"
  using R_event R_then_proc by (auto simp: leave_event_def split: option.splits)

lemma R_list_auto_delete: "list_auto_delete l s = Some s' \<Longrightarrow> R s s'"
  using R_lists by (auto simp: list_auto_delete_def split: option.splits)

lemma R_el_remove: "el_remove_dynamic rem l p e s = Some s' \<Longrightarrow> R s s'"
  using R_event R_refl by (auto simp: el_remove_dynamic_def split: option.splits intro!: R_foldl)

lemma R_leave_list:
  assumes "leave_list rem p e s = Some s'"
  shows "R s s'"
proof -
  obtain l s1 s2 where 1: "el_remove_dynamic rem l p e s = Some s1" "list_auto_delete l s1 = Some s2"
    and s': "s' = upd_proc p (\<lambda>v. v\<lparr>m_event_list_p := None\<rparr>) s2"
    using assms by (auto simp: leave_list_def split: option.splits Option.bind_splits)
  show ?thesis
    unfolding s' using R_trans [OF R_el_remove [OF 1(1)] R_list_auto_delete [OF 1(2)]] by (rule R_then_proc) simp
qed

lemma R_clear_timeout: "clear_timeout p s = Some s' \<Longrightarrow> R s s'"
  by (auto simp: clear_timeout_def event_reset_def split: Option.bind_splits intro: R_trans [OF R_cancel R_event])

lemma R_remove_dynamic_events:
  assumes "remove_dynamic_events b p s = Some s'"
  shows "R s s'"
proof -
  let ?s = "upd_proc p (\<lambda>v. v\<lparr>m_trigger_type := STATIC\<rparr>) s"
  have q0: "R s ?s" by (rule R_proc) simp
  have clean: "R ?s s'" if c: "(do {
      s1 \<leftarrow> (if b then Some ?s
             else cancel (m_timeout_event_p (procs ?s p))
                    (upd_event (m_timeout_event_p (procs ?s p)) (\<lambda>v. fst (rem p v)) ?s));
      let s2 = (case m_event_p (procs ?s p) of
                  None \<Rightarrow> s1 | Some e \<Rightarrow> upd_event e (\<lambda>v. fst (rem p v)) s1)
      in if m_event_list_p (procs ?s p) = None then Some s2 else leave_list rem p None s2 }) = Some s'" for rem
  proof -
    from c obtain s1 where s1: "(if b then Some ?s
             else cancel (m_timeout_event_p (procs ?s p))
                    (upd_event (m_timeout_event_p (procs ?s p)) (\<lambda>v. fst (rem p v)) ?s)) = Some s1"
      and rest: "(let s2 = (case m_event_p (procs ?s p) of
                  None \<Rightarrow> s1 | Some e \<Rightarrow> upd_event e (\<lambda>v. fst (rem p v)) s1)
      in if m_event_list_p (procs ?s p) = None then Some s2 else leave_list rem p None s2) = Some s'"
      unfolding bind_eq_Some_conv by blast
    have "R ?s s1"
      using s1 R_trans [OF R_event R_cancel] by (metis option.inject R_refl)
    moreover have "R s1 (case m_event_p (procs ?s p) of
        None \<Rightarrow> s1 | Some e \<Rightarrow> upd_event e (\<lambda>v. fst (rem p v)) s1)"
      by (simp add: R_refl R_event split: option.split)
    moreover have "R (case m_event_p (procs ?s p) of
        None \<Rightarrow> s1 | Some e \<Rightarrow> upd_event e (\<lambda>v. fst (rem p v)) s1) s'"
      using rest R_leave_list unfolding Let_def by (metis option.inject R_refl)
    ultimately show ?thesis by (meson R_trans)
  qed
  have "R ?s s'"
    using assms clean [of remove_dynamic_method] clean [of remove_dynamic_thread]
    unfolding remove_dynamic_events_def Let_def
    by (cases "m_process_kind (procs s p)") (simp_all add: Let_def R_refl)
  with q0 show ?thesis by (rule R_trans)
qed

lemma R_dynamic_switch:
  assumes "dynamic_switch rem p e s = Some (b, s')"
  shows "R s s'"
proof -
  have dec: "R s (upd_proc p (m_event_count_update g) s)" for g by (rule R_proc) simp
  have to: "R s (upd_proc p (\<lambda>v. v\<lparr>m_timed_out := True\<rparr>) s)" by (rule R_proc) simp
  show ?thesis
  proof (cases "m_trigger_type (procs s p)")
    case STATIC
    with assms show ?thesis by (simp add: dynamic_switch_def R_refl)
  next
    case EVENT
    with assms show ?thesis by (auto simp: dynamic_switch_def R_refl intro!: R_then_proc)
  next
    case OR_LIST
    with assms show ?thesis
      by (auto simp: dynamic_switch_def Let_def split: Option.bind_splits
          intro!: R_then_proc intro: R_leave_list)
  next
    case AND_LIST
    with assms dec show ?thesis
      by (auto simp: dynamic_switch_def Let_def split: Option.bind_splits if_splits
          intro!: R_then_proc intro: R_trans R_list_auto_delete R_refl)
  next
    case TIMEOUT
    with assms show ?thesis by (auto simp: dynamic_switch_def R_refl intro!: R_then_proc)
  next
    case EVENT_TIMEOUT
    with assms to show ?thesis
      by (auto simp: dynamic_switch_def Let_def split: Option.bind_splits if_splits
          intro!: R_then_proc intro: R_trans R_leave_event R_clear_timeout R_refl)
  next
    case OR_LIST_TIMEOUT
    with assms to show ?thesis
      by (auto simp: dynamic_switch_def Let_def split: Option.bind_splits if_splits
          intro!: R_then_proc intro: R_trans R_leave_list R_clear_timeout R_refl)
  next
    case AND_LIST_TIMEOUT
    with assms to dec show ?thesis
      by (auto simp: dynamic_switch_def Let_def split: Option.bind_splits if_splits
          intro!: R_then_proc dest!: R_list_auto_delete R_leave_list R_clear_timeout)
        (metis R_trans R_refl)+
  qed
qed

end

text \<open>
  The first frame: the run queues, the current process and the four state bits of every process
  are unchanged.
\<close>

definition quiet :: "'a sim_scheme \<Rightarrow> 'a sim_scheme \<Rightarrow> bool" where
  "quiet s s' \<longleftrightarrow> m_runnable s' = m_runnable s \<and> m_curr_proc s' = m_curr_proc s \<and>
     (\<forall>q. bits (procs s' q) = bits (procs s q))"

lemma quiet_more: "kernel.more s' = kernel.more s \<Longrightarrow> quiet s s'"
  using more_eq_sim [of s' s] by (simp add: quiet_def)

interpretation quiet: frame quiet
proof
  show "quiet s (upd_event e f s)" for s :: "'a sim_scheme" and e f by (rule quiet_more) simp
  show "quiet s s'" if "cancel e s = Some s'" for s s' :: "'a sim_scheme" and e
    using that by (intro quiet_more cancel_more)
qed (simp_all add: quiet_def no_bits_def)

lemmas quiet_refl [simp] = quiet.R_refl
  and quiet_trans [trans] = quiet.R_trans
  and quiet_upd_event [simp] = quiet.R_event
  and quiet_cancel = quiet.R_cancel
  and quiet_then_proc = quiet.R_then_proc
  and quiet_remove_dynamic_events = quiet.R_remove_dynamic_events
  and quiet_dynamic_switch = quiet.R_dynamic_switch

end
