(* ===== verification/Sc_Schedule.thy ===== *)
theory Sc_Schedule
  imports Sc_Process
begin

text \<open>
  What notifying an event does to the run queues: every trigger appends processes that may
  run to the two push queues and touches nothing else of them (\<open>schedules\<close>), the static
  methods are exactly those that may run, and the dynamic waits on event lists of
  kernel/sc_method_process.cpp and kernel/sc_thread_process.cpp wake their process once.
\<close>

section \<open>Relations that every trigger respects\<close>

text \<open>
  The loops of \<^verbatim>\<open>sc_event::trigger\<close> need only a preorder that the four triggers of processes
  respect.
\<close>

locale trigger_relation =
  fixes R :: "'a sim_scheme \<Rightarrow> 'a sim_scheme \<Rightarrow> bool"
  assumes T_refl: "R s s"
    and T_trans: "R s s' \<Longrightarrow> R s' s'' \<Longrightarrow> R s s''"
    and T_event: "R s (upd_event e f s)"
    and T_observed: "R s (s\<lparr>trace := trace s @ [EventNotified e]\<rparr>)"
    and T_method_static: "method_trigger_static p s = Some s' \<Longrightarrow> R s s'"
    and T_thread_static: "thread_trigger_static p s = Some s' \<Longrightarrow> R s s'"
    and T_method_dynamic: "method_trigger_dynamic p e s = Some (rc, s') \<Longrightarrow> R s s'"
    and T_thread_dynamic: "thread_trigger_dynamic p e s = Some (rc, s') \<Longrightarrow> R s s'"
begin

lemma T_trigger_all:
  "(\<And>p s s'. f p s = Some s' \<Longrightarrow> R s s') \<Longrightarrow> trigger_all f ps s = Some s' \<Longrightarrow> R s s'"
proof (induction ps arbitrary: s)
  case (Cons p ps)
  then obtain s1 where "f p s = Some s1" "trigger_all f ps s1 = Some s'"
    by (auto split: Option.bind_splits)
  with Cons show ?case using T_trans by blast
qed (simp add: T_refl)

lemma T_dynamic_loop:
  assumes f: "\<And>p e s rc s'. f p e s = Some (rc, s') \<Longrightarrow> R s s'"
  shows "trigger_dynamic_loop f get upd e i n s = Some (m, s') \<Longrightarrow> R s s'"
proof (induction "n - i" arbitrary: i n s rule: less_induct)
  case less
  note unfold = trigger_dynamic_loop.simps [of f get upd e i n s]
  show ?case
  proof (cases "i < n")
    case False
    with less.prems show ?thesis by (simp add: unfold T_refl)
  next
    case True
    then obtain rc s1 where s1: "f (get (events s e) ! i) e s = Some (rc, s1)"
      using less.prems by (cases "f (get (events s e) ! i) e s") (auto simp: unfold)
    have "R s s1" using f [OF s1] .
    moreover have "R s1 s'"
    proof (cases rc)
      case True
      let ?s2 = "upd_event e (upd (\<lambda>v. v[i := v ! (n - 1)])) s1"
      have "trigger_dynamic_loop f get upd e i (n - 1) ?s2 = Some (m, s')"
        using less.prems s1 True \<open>i < n\<close> by (simp add: unfold)
      then have "R ?s2 s'" using \<open>i < n\<close> by (intro less.hyps) auto
      then show ?thesis by (blast intro: T_trans T_event)
    next
      case False
      have "trigger_dynamic_loop f get upd e (i + 1) n s1 = Some (m, s')"
        using less.prems s1 False \<open>i < n\<close> by (simp add: unfold)
      then show ?thesis using \<open>i < n\<close> by (intro less.hyps) auto
    qed
    ultimately show ?thesis by (rule T_trans)
  qed
qed

lemma T_dynamics:
  assumes f: "\<And>p e s rc s'. f p e s = Some (rc, s') \<Longrightarrow> R s s'"
    and t: "trigger_dynamics f get upd e s = Some s'"
  shows "R s s'"
proof (cases "get (events s e) = []")
  case True
  with t show ?thesis by (simp add: trigger_dynamics_def T_refl)
next
  case False
  then obtain n s1 where l: "trigger_dynamic_loop f get upd e 0 (length (get (events s e))) s = Some (n, s1)"
    and s': "s' = upd_event e (upd (take n)) s1"
    using t by (auto simp: trigger_dynamics_def Let_def split: Option.bind_splits)
  show ?thesis unfolding s' using T_dynamic_loop [OF f l] T_event by (rule T_trans)
qed

lemma T_event_trigger:
  assumes "event_trigger e s0 = Some s'"
  shows "R s0 s'"
proof -
  let ?s = "if ev_observer (events s0 e) then s0\<lparr>trace := trace s0 @ [EventNotified e]\<rparr> else s0"
  obtain s1 s2 s3 s4 where
    1: "trigger_all method_trigger_static (rev (m_methods_static (events ?s e))) ?s = Some s1" and
    2: "trigger_dynamics method_trigger_dynamic m_methods_dynamic m_methods_dynamic_update e s1 = Some s2" and
    3: "trigger_all thread_trigger_static (rev (m_threads_static (events s2 e))) s2 = Some s3" and
    4: "trigger_dynamics thread_trigger_dynamic m_threads_dynamic m_threads_dynamic_update e s3 = Some s4" and
    5: "s' = upd_event e (\<lambda>v. v\<lparr>m_notify_type := NONE, m_delta_event_index := - 1, m_timed := None\<rparr>) s4"
    using assms unfolding event_trigger_def Let_def bind_eq_Some_conv by blast
  have "R s0 ?s" by (simp add: T_refl T_observed)
  moreover have "R ?s s1" using T_method_static 1 by (rule T_trigger_all)
  moreover have "R s1 s2" using T_method_dynamic 2 by (rule T_dynamics)
  moreover have "R s2 s3" using T_thread_static 3 by (rule T_trigger_all)
  moreover have "R s3 s4" using T_thread_dynamic 4 by (rule T_dynamics)
  moreover have "R s4 s'" unfolding 5 by (rule T_event)
  ultimately show ?thesis by (meson T_trans)
qed

end

lemma trigger_dynamic_cases:
  assumes "(if c1 then Some (True, s) else if c2 then (if c3 then do { s1 \<leftarrow> rem; Some (True, s1) } else Some (False, s))
     else do {
       (satisfied, s1) \<leftarrow> sw;
       if \<not> satisfied then Some (True, s1)
       else if susp s1 then Some (True, mark s1)
       else do { s2 \<leftarrow> push s1; Some (True, s2) } }) = Some (rc, s')"
  obtains (idle) "s' = s" | (removed) "rem = Some s'"
    | (switch) b s1 where "\<not> c1" "\<not> c2" "sw = Some (b, s1)" "s' = s1 \<or> s' = mark s1 \<or> \<not> susp s1 \<and> push s1 = Some s'"
  using assms by (auto split: if_splits Option.bind_splits)

text \<open>A frame that allows a process to be queued or marked, and events to be reported.\<close>

locale trigger_frame = frame R for R :: "'a sim_scheme \<Rightarrow> 'a sim_scheme \<Rightarrow> bool" +
  assumes R_push_method: "push_runnable_method p s = Some s' \<Longrightarrow> R s s'"
    and R_push_thread: "push_runnable_thread p s = Some s' \<Longrightarrow> R s s'"
    and R_ready: "R s (upd_proc p (\<lambda>v. v\<lparr>ps_ready_to_run := True\<rparr>) s)"
    and R_observed: "R s (s\<lparr>trace := trace s @ [EventNotified e]\<rparr>)"
begin

lemma R_satisfied:
  assumes "R s0 s1" "s' = s1 \<or> s' = upd_proc p (\<lambda>v. v\<lparr>ps_ready_to_run := True\<rparr>) s1 \<or> R s1 s'"
  shows "R s0 s'"
  using assms R_ready R_trans by blast

lemma R_method_dynamic:
  assumes m: "method_trigger_dynamic p e s0 = Some (rc, s')"
  shows "R s0 s'"
proof -
  let ?s = "upd_proc p (\<lambda>v. v\<lparr>m_timed_out := False\<rparr>) s0"
  have q0: "R s0 ?s" by (rule R_proc) simp
  show ?thesis
  proof (cases "m_curr_proc ?s = Some p")
    case True
    with m q0 show ?thesis by (simp add: method_trigger_dynamic_def)
  next
    case False
    from m [unfolded method_trigger_dynamic_def Let_def if_not_P [OF False]] show ?thesis
    proof (rule trigger_dynamic_cases)
      assume "remove_dynamic_events True p ?s = Some s'"
      then show ?thesis using q0 R_remove_dynamic_events R_trans by blast
    next
      fix b s1 assume "dynamic_switch remove_dynamic_method p e ?s = Some (b, s1)"
        "s' = s1 \<or> s' = upd_proc p (\<lambda>v. v\<lparr>ps_ready_to_run := True\<rparr>) s1 \<or>
         \<not> ps_suspended (procs s1 p) \<and> push_runnable_method p s1 = Some s'"
      then show ?thesis using R_satisfied [OF R_trans [OF q0 R_dynamic_switch]] R_push_method by blast
    qed (use q0 in simp)
  qed
qed

lemma R_thread_dynamic:
  assumes m: "thread_trigger_dynamic p e s0 = Some (rc, s')"
  shows "R s0 s'"
proof -
  let ?s = "upd_proc p (\<lambda>v. v\<lparr>m_timed_out := False\<rparr>) s0"
  have q0: "R s0 ?s" by (rule R_proc) simp
  from m [unfolded thread_trigger_dynamic_def Let_def] show ?thesis
  proof (rule trigger_dynamic_cases)
    assume "remove_dynamic_events True p ?s = Some s'"
    then show ?thesis using q0 R_remove_dynamic_events R_trans by blast
  next
    fix b s1 assume "dynamic_switch remove_dynamic_thread p e ?s = Some (b, s1)"
      "s' = s1 \<or> s' = upd_proc p (\<lambda>v. v\<lparr>ps_ready_to_run := True\<rparr>) s1 \<or>
       \<not> ps_suspended (procs s1 p) \<and> push_runnable_thread p s1 = Some s'"
    then show ?thesis using R_satisfied [OF R_trans [OF q0 R_dynamic_switch]] R_push_thread by blast
  qed (use q0 in simp)
qed

end

sublocale trigger_frame \<subseteq> trigger_relation R
proof
  show "R s s'" if "method_trigger_static p s = Some s'" for p s s'
    using that R_refl R_ready R_push_method by (auto simp: method_trigger_static_def split: if_splits)
  show "R s s'" if "thread_trigger_static p s = Some s'" for p s s'
  proof -
    have "R s (upd_proc p (\<lambda>v. v\<lparr>m_wait_cycle_n := m_wait_cycle_n v - 1\<rparr>) s)" by (rule R_proc) simp
    with that R_refl R_ready R_push_thread show ?thesis
      by (auto simp: thread_trigger_static_def split: if_splits)
  qed
qed (fact R_refl R_event R_observed R_method_dynamic R_thread_dynamic | rule R_trans; assumption)+

section \<open>Which processes a trigger schedules\<close>

text \<open>
  \<open>queued s hm ht R\<close>: the run queues represent the four lists of \<open>R\<close> and exactly the queued
  processes (and the two head objects) have a non-null link.  \<open>appended R ms ts\<close> has \<open>ms\<close> more
  at the back of the method queue and \<open>ts\<close> at the back of the thread queue.
\<close>

definition in_queues :: "nat \<Rightarrow> nat \<Rightarrow> ready \<Rightarrow> nat set" where
  "in_queues hm ht R = set (hm # m_push R @ m_pop R) \<union> set (ht # t_push R @ t_pop R)"

definition queued :: "'a sim_scheme \<Rightarrow> nat \<Rightarrow> nat \<Rightarrow> ready \<Rightarrow> bool" where
  "queued s hm ht R \<longleftrightarrow> refines (m_runnable s) hm ht R \<and> (\<forall>a. is_runnable a s \<longrightarrow> a \<in> in_queues hm ht R)"

definition appended :: "ready \<Rightarrow> nat list \<Rightarrow> nat list \<Rightarrow> ready" where
  "appended R ms ts = R\<lparr>m_push := m_push R @ ms, t_push := t_push R @ ts\<rparr>"

lemma appended_simps [simp]:
  "appended R [] [] = R" "appended (appended R ms ts) ms' ts' = appended R (ms @ ms') (ts @ ts')"
  "m_push (appended R ms ts) = m_push R @ ms" "t_push (appended R ms ts) = t_push R @ ts"
  "m_pop (appended R ms ts) = m_pop R" "t_pop (appended R ms ts) = t_pop R"
  by (simp_all add: appended_def)

lemma in_queues_appended [simp]:
  "in_queues hm ht (appended R ms ts) = in_queues hm ht R \<union> set ms \<union> set ts"
  by (auto simp: in_queues_def)

lemma queued_runnable:
  assumes "queued s hm ht R"
  shows "is_runnable p s \<longleftrightarrow> p \<in> in_queues hm ht R"
proof -
  let ?nx = "runnable_p (m_runnable s)"
  have m: "chain ?nx (Proc hm) (hm # m_push R)" "chain ?nx (pop_q (methods (m_runnable s))) (m_pop R)"
    and t: "chain ?nx (Proc ht) (ht # t_push R)" "chain ?nx (pop_q (threads (m_runnable s))) (t_pop R)"
    using assms by (simp_all add: queued_def refines_def q_rel_def)
  have "?nx p \<noteq> Null" if "p \<in> in_queues hm ht R"
    using that chain_next_not_Null [OF m(1)] chain_next_not_Null [OF m(2)]
      chain_next_not_Null [OF t(1)] chain_next_not_Null [OF t(2)]
    unfolding in_queues_def by (metis Un_iff list.set_intros(1) set_ConsD set_append list.set_intros(2))
  then show ?thesis using assms by (auto simp: queued_def is_runnable_def)
qed

lemma push_runnable_method_queued:
  assumes Q: "queued s hm ht R" and p: "\<not> is_runnable p s"
  obtains r where "push_runnable_method p s = Some (s\<lparr>m_runnable := r\<rparr>)"
    "queued (s\<lparr>m_runnable := r\<rparr>) hm ht (appended R [p] [])"
proof -
  let ?r = "m_runnable s"
  have n: "p \<notin> in_queues hm ht R" using p queued_runnable [OF Q] by blast
  have R: "refines ?r hm ht R" using Q by (simp add: queued_def)
  let ?nx = "(runnable_p ?r)(p := QEnd, last (hm # m_push R) := Proc p)"
  obtain q where q: "q_push_back p (methods ?r) (runnable_p ?r) = Some (q, ?nx)"
    "q_rel q ?nx hm (m_push R @ [p]) (m_pop R)"
    using q_push_back_rel [of "methods ?r" "runnable_p ?r" hm "m_push R" "m_pop R" p] R n
    unfolding refines_def in_queues_def by auto
  let ?r' = "?r\<lparr>methods := q, runnable_p := ?nx\<rparr>"
  have l: "last (hm # m_push R) \<in> set (hm # m_push R)" using last_in_set by blast
  have "\<forall>a \<in> set (ht # t_push R @ t_pop R). ?nx a = runnable_p ?r a"
  proof
    fix a assume a: "a \<in> set (ht # t_push R @ t_pop R)"
    then have "a \<noteq> p" using n unfolding in_queues_def by blast
    moreover have "a \<noteq> last (hm # m_push R)"
      using a l R unfolding refines_def by (metis IntI Un_iff append_Cons empty_iff set_append)
    ultimately show "?nx a = runnable_p ?r a" by simp
  qed
  moreover have "q_rel (threads ?r) (runnable_p ?r) ht (t_push R) (t_pop R)" using R by (simp add: refines_def)
  ultimately have "q_rel (threads ?r) ?nx ht (t_push R) (t_pop R)" by (rule q_rel_cong [rotated])
  moreover have "set (hm # (m_push R @ [p]) @ m_pop R) \<inter> set (ht # t_push R @ t_pop R) = {}"
    using R n unfolding refines_def in_queues_def by simp
  ultimately have "refines ?r' hm ht (appended R [p] [])"
    unfolding refines_def appended_simps using q(2) by simp
  moreover have "a \<in> in_queues hm ht (appended R [p] [])" if "?nx a \<noteq> Null" for a
  proof (cases "a = p \<or> a = last (hm # m_push R)")
    case True
    with l show ?thesis unfolding in_queues_appended by (auto simp: in_queues_def)
  next
    case False
    then have "is_runnable a s" using that by (simp add: is_runnable_def)
    with Q show ?thesis by (simp add: queued_def)
  qed
  ultimately have "queued (s\<lparr>m_runnable := ?r'\<rparr>) hm ht (appended R [p] [])"
    by (simp add: queued_def is_runnable_def del: fun_upd_apply)
  moreover have "push_runnable_method p s = Some (s\<lparr>m_runnable := ?r'\<rparr>)"
    using q(1) by (simp add: push_runnable_method_def with_runnable_def push_back_method_def on_methods_def)
  ultimately show ?thesis using that by blast
qed

lemma push_runnable_thread_queued:
  assumes Q: "queued s hm ht R" and p: "\<not> is_runnable p s"
  obtains r where "push_runnable_thread p s = Some (s\<lparr>m_runnable := r\<rparr>)"
    "queued (s\<lparr>m_runnable := r\<rparr>) hm ht (appended R [] [p])"
proof -
  let ?r = "m_runnable s"
  have n: "p \<notin> in_queues hm ht R" using p queued_runnable [OF Q] by blast
  have R: "refines ?r hm ht R" using Q by (simp add: queued_def)
  let ?nx = "(runnable_p ?r)(p := QEnd, last (ht # t_push R) := Proc p)"
  obtain q where q: "q_push_back p (threads ?r) (runnable_p ?r) = Some (q, ?nx)"
    "q_rel q ?nx ht (t_push R @ [p]) (t_pop R)"
    using q_push_back_rel [of "threads ?r" "runnable_p ?r" ht "t_push R" "t_pop R" p] R n
    unfolding refines_def in_queues_def by auto
  let ?r' = "?r\<lparr>threads := q, runnable_p := ?nx\<rparr>"
  have l: "last (ht # t_push R) \<in> set (ht # t_push R)" using last_in_set by blast
  have "\<forall>a \<in> set (hm # m_push R @ m_pop R). ?nx a = runnable_p ?r a"
  proof
    fix a assume a: "a \<in> set (hm # m_push R @ m_pop R)"
    then have "a \<noteq> p" using n unfolding in_queues_def by blast
    moreover have "a \<noteq> last (ht # t_push R)"
      using a l R unfolding refines_def by (metis IntI Un_iff append_Cons empty_iff set_append)
    ultimately show "?nx a = runnable_p ?r a" by simp
  qed
  moreover have "q_rel (methods ?r) (runnable_p ?r) hm (m_push R) (m_pop R)" using R by (simp add: refines_def)
  ultimately have "q_rel (methods ?r) ?nx hm (m_push R) (m_pop R)" by (rule q_rel_cong [rotated])
  moreover have "set (hm # m_push R @ m_pop R) \<inter> set (ht # (t_push R @ [p]) @ t_pop R) = {}"
    using R n unfolding refines_def in_queues_def by simp
  ultimately have "refines ?r' hm ht (appended R [] [p])"
    unfolding refines_def appended_simps using q(2) by simp
  moreover have "a \<in> in_queues hm ht (appended R [] [p])" if "?nx a \<noteq> Null" for a
  proof (cases "a = p \<or> a = last (ht # t_push R)")
    case True
    with l show ?thesis unfolding in_queues_appended by (auto simp: in_queues_def)
  next
    case False
    then have "is_runnable a s" using that by (simp add: is_runnable_def)
    with Q show ?thesis by (simp add: queued_def)
  qed
  ultimately have "queued (s\<lparr>m_runnable := ?r'\<rparr>) hm ht (appended R [] [p])"
    by (simp add: queued_def is_runnable_def del: fun_upd_apply)
  moreover have "push_runnable_thread p s = Some (s\<lparr>m_runnable := ?r'\<rparr>)"
    using q(1) by (simp add: push_runnable_thread_def with_runnable_def push_back_thread_def on_threads_def)
  ultimately show ?thesis using that by blast
qed

lemma quiet_queued: "quiet s s' \<Longrightarrow> queued s hm ht R \<Longrightarrow> queued s' hm ht R"
  by (simp add: queued_def quiet_def is_runnable_def)

lemma quiet_runnable: "quiet s s' \<Longrightarrow> is_runnable p s' = is_runnable p s"
  by (simp add: quiet_def is_runnable_def)

subsection \<open>Any trigger\<close>

definition may_run :: "'a sim_scheme \<Rightarrow> nat \<Rightarrow> bool" where
  "may_run s p \<longleftrightarrow> \<not> ps_disabled (procs s p) \<and> \<not> ps_suspended (procs s p) \<and> \<not> is_runnable p s"

text \<open>The step appends \<open>ms\<close> and \<open>ts\<close>; all of them may run, and no method is the running one.\<close>

definition sched :: "nat \<Rightarrow> nat \<Rightarrow> ready \<Rightarrow> 'a sim_scheme \<Rightarrow> 'a sim_scheme \<Rightarrow> nat list \<Rightarrow> nat list \<Rightarrow> bool" where
  "sched hm ht R s s' ms ts \<longleftrightarrow>
     queued s' hm ht (appended R ms ts) \<and> m_curr_proc s' = m_curr_proc s \<and>
     (\<forall>q. ps_disabled (procs s' q) = ps_disabled (procs s q) \<and> ps_suspended (procs s' q) = ps_suspended (procs s q)) \<and>
     (\<forall>p \<in> set ms \<union> set ts. may_run s p) \<and> (\<forall>p \<in> set ms. m_curr_proc s \<noteq> Some p)"

lemma sched_quiet:
  "quiet s s' \<Longrightarrow> queued s hm ht R \<Longrightarrow> sched hm ht R s s' [] []"
  using quiet_queued [of s s' hm ht R] by (simp add: sched_def quiet_def bits_def)

lemma sched_queued: "sched hm ht R s s' ms ts \<Longrightarrow> queued s' hm ht (appended R ms ts)"
  by (simp add: sched_def)

lemma sched_trans:
  assumes "queued s hm ht R" "sched hm ht R s s' ms ts" "sched hm ht (appended R ms ts) s' s'' ms' ts'"
  shows "sched hm ht R s s'' (ms @ ms') (ts @ ts')"
proof -
  have "\<forall>p. is_runnable p s \<longrightarrow> is_runnable p s'"
    using queued_runnable [OF assms(1)] queued_runnable [OF sched_queued [OF assms(2)]] by auto
  with assms(2,3) show ?thesis by (auto simp: sched_def may_run_def)
qed

lemma sched_ready_to_run:
  "queued s hm ht R \<Longrightarrow> sched hm ht R s (upd_proc p (\<lambda>v. v\<lparr>ps_ready_to_run := b\<rparr>) s) [] []"
  by (simp add: sched_def queued_def is_runnable_def)

lemma sched_push_method:
  assumes "queued s hm ht R" "may_run s p" "m_curr_proc s \<noteq> Some p" "push_runnable_method p s = Some s'"
  shows "sched hm ht R s s' [p] []"
proof -
  obtain r where "push_runnable_method p s = Some (s\<lparr>m_runnable := r\<rparr>)"
    "queued (s\<lparr>m_runnable := r\<rparr>) hm ht (appended R [p] [])"
    using push_runnable_method_queued assms(1,2) unfolding may_run_def by blast
  with assms show ?thesis by (auto simp: sched_def)
qed

lemma sched_push_thread:
  assumes "queued s hm ht R" "may_run s p" "push_runnable_thread p s = Some s'"
  shows "sched hm ht R s s' [] [p]"
proof -
  obtain r where "push_runnable_thread p s = Some (s\<lparr>m_runnable := r\<rparr>)"
    "queued (s\<lparr>m_runnable := r\<rparr>) hm ht (appended R [] [p])"
    using push_runnable_thread_queued assms(1,2) unfolding may_run_def by blast
  with assms show ?thesis by (auto simp: sched_def)
qed

definition schedules :: "'a sim_scheme \<Rightarrow> 'a sim_scheme \<Rightarrow> bool" where
  "schedules s s' \<longleftrightarrow> (\<forall>hm ht R. queued s hm ht R \<longrightarrow> (\<exists>ms ts. sched hm ht R s s' ms ts))"

lemma schedules_refl [simp]: "schedules s s"
  unfolding schedules_def using sched_quiet [OF quiet_refl] by blast

lemma schedules_quiet: "quiet s s' \<Longrightarrow> schedules s s'"
  unfolding schedules_def using sched_quiet by blast

lemma schedules_trans [trans]: "schedules s s' \<Longrightarrow> schedules s' s'' \<Longrightarrow> schedules s s''"
  unfolding schedules_def using sched_trans sched_queued by meson

lemma schedules_method_static: "method_trigger_static p s = Some s' \<Longrightarrow> schedules s s'"
  unfolding schedules_def
proof (intro allI impI)
  fix hm ht R assume m: "method_trigger_static p s = Some s'" and Q: "queued s hm ht R"
  show "\<exists>ms ts. sched hm ht R s s' ms ts"
    using m sched_quiet [OF quiet_refl Q] sched_ready_to_run [OF Q, of p True] sched_push_method [OF Q, of p s']
    by (auto simp: method_trigger_static_def may_run_def split: if_splits)
qed

lemma schedules_thread_static: "thread_trigger_static p s = Some s' \<Longrightarrow> schedules s s'"
  unfolding schedules_def
proof (intro allI impI)
  fix hm ht R assume m: "thread_trigger_static p s = Some s'" and Q: "queued s hm ht R"
  have "sched hm ht R s (upd_proc p (\<lambda>v. v\<lparr>m_wait_cycle_n := m_wait_cycle_n v - 1\<rparr>) s) [] []"
    by (rule sched_quiet [OF quiet_then_proc Q]) simp_all
  with m show "\<exists>ms ts. sched hm ht R s s' ms ts"
    using sched_quiet [OF quiet_refl Q] sched_ready_to_run [OF Q, of p True] sched_push_thread [OF Q, of p s']
    by (auto simp: thread_trigger_static_def may_run_def split: if_splits)
qed

lemma quiet_may_run: "quiet s s' \<Longrightarrow> may_run s' p = may_run s p"
  by (simp add: may_run_def quiet_runnable) (simp add: quiet_def bits_def)

lemma schedules_method_dynamic:
  assumes "method_trigger_dynamic p e s0 = Some (rc, s')"
  shows "schedules s0 s'"
proof -
  let ?s = "upd_proc p (\<lambda>v. v\<lparr>m_timed_out := False\<rparr>) s0"
  have q0: "quiet s0 ?s" by (rule quiet_then_proc) simp_all
  consider (idle) "s' = ?s" | (removed) "remove_dynamic_events True p ?s = Some s'"
    | (switch) b s1 where "m_curr_proc ?s \<noteq> Some p" "\<not> is_runnable p ?s" "\<not> ps_disabled (procs ?s p)"
        "dynamic_switch remove_dynamic_method p e ?s = Some (b, s1)"
        "s' = s1 \<or> s' = upd_proc p (\<lambda>v. v\<lparr>ps_ready_to_run := True\<rparr>) s1 \<or>
         \<not> ps_suspended (procs s1 p) \<and> push_runnable_method p s1 = Some s'"
  proof (cases "m_curr_proc ?s = Some p")
    case True
    with assms idle show ?thesis by (simp add: method_trigger_dynamic_def)
  next
    case False
    from assms [unfolded method_trigger_dynamic_def Let_def if_not_P [OF False]] show ?thesis
      using False by (elim trigger_dynamic_cases) (rule idle removed switch; assumption)+
  qed
  then show ?thesis
  proof cases
    case idle
    with q0 show ?thesis by (simp add: schedules_quiet)
  next
    case removed
    with q0 show ?thesis by (blast intro: schedules_quiet quiet_trans quiet_remove_dynamic_events)
  next
    case switch
    have q1: "quiet s0 s1" using q0 quiet_dynamic_switch [OF switch(4)] by (rule quiet_trans)
    have run: "m_curr_proc s1 \<noteq> Some p" "\<not> is_runnable p s1" "\<not> ps_disabled (procs s1 p)"
      using switch(1-3) quiet_dynamic_switch [OF switch(4)] quiet_runnable [OF quiet_dynamic_switch [OF switch(4)]]
      by (simp_all add: quiet_def bits_def)
    have "schedules s1 s'"
      unfolding schedules_def
    proof (intro allI impI)
      fix hm ht R assume Q: "queued s1 hm ht R"
      show "\<exists>ms ts. sched hm ht R s1 s' ms ts"
        using switch(5) run sched_quiet [OF quiet_refl Q] sched_ready_to_run [OF Q, of p True]
          sched_push_method [OF Q, of p s'] by (auto simp: may_run_def)
    qed
    with q1 show ?thesis by (blast intro: schedules_trans schedules_quiet)
  qed
qed

lemma schedules_thread_dynamic:
  assumes "thread_trigger_dynamic p e s0 = Some (rc, s')"
  shows "schedules s0 s'"
proof -
  let ?s = "upd_proc p (\<lambda>v. v\<lparr>m_timed_out := False\<rparr>) s0"
  have q0: "quiet s0 ?s" by (rule quiet_then_proc) simp_all
  consider (idle) "s' = ?s" | (removed) "remove_dynamic_events True p ?s = Some s'"
    | (switch) b s1 where "\<not> is_runnable p ?s" "\<not> ps_disabled (procs ?s p)"
        "dynamic_switch remove_dynamic_thread p e ?s = Some (b, s1)"
        "s' = s1 \<or> s' = upd_proc p (\<lambda>v. v\<lparr>ps_ready_to_run := True\<rparr>) s1 \<or>
         \<not> ps_suspended (procs s1 p) \<and> push_runnable_thread p s1 = Some s'"
    using assms [unfolded thread_trigger_dynamic_def Let_def]
    by (elim trigger_dynamic_cases) blast+
  then show ?thesis
  proof cases
    case idle
    with q0 show ?thesis by (simp add: schedules_quiet)
  next
    case removed
    with q0 show ?thesis by (blast intro: schedules_quiet quiet_trans quiet_remove_dynamic_events)
  next
    case switch
    note q = quiet_dynamic_switch [OF switch(3)]
    have run: "\<not> is_runnable p s1" "\<not> ps_disabled (procs s1 p)"
      using switch(1,2) q quiet_runnable [OF q] by (simp_all add: quiet_def bits_def)
    have "schedules s1 s'"
      unfolding schedules_def
    proof (intro allI impI)
      fix hm ht R assume Q: "queued s1 hm ht R"
      show "\<exists>ms ts. sched hm ht R s1 s' ms ts"
        using switch(4) run sched_quiet [OF quiet_refl Q] sched_ready_to_run [OF Q, of p True]
          sched_push_thread [OF Q, of p s'] by (auto simp: may_run_def)
    qed
    with q0 q show ?thesis by (blast intro: schedules_trans schedules_quiet)
  qed
qed

interpretation schedules: trigger_relation schedules
proof
  show "schedules s s''" if "schedules s s'" "schedules s' s''" for s s' s'' :: "'a sim_scheme"
    using that by (rule schedules_trans)
  show "schedules s (s\<lparr>trace := trace s @ [EventNotified e]\<rparr>)" for s :: "'a sim_scheme" and e
    by (rule schedules_quiet) (simp add: quiet_def)
qed (blast intro: schedules_refl schedules_quiet quiet_upd_event schedules_method_static
    schedules_thread_static schedules_method_dynamic schedules_thread_dynamic)+

subsection \<open>Static sensitivity, exactly\<close>

definition waits_static :: "'a sim_scheme \<Rightarrow> nat \<Rightarrow> bool" where
  "waits_static s p \<longleftrightarrow> m_trigger_type (procs s p) = STATIC \<and> m_curr_proc s \<noteq> Some p"

text \<open>The static methods of the event that the trigger queues, in the order it does.\<close>

definition static_ready :: "'a sim_scheme \<Rightarrow> nat list \<Rightarrow> nat list" where
  "static_ready s ps = filter (\<lambda>p. may_run s p \<and> waits_static s p) (firsts ps)"

lemma may_run_after_push:
  "queued s hm ht R \<Longrightarrow> queued (s\<lparr>m_runnable := r\<rparr>) hm ht (appended R [p] []) \<Longrightarrow>
   may_run (s\<lparr>m_runnable := r\<rparr>) q \<longleftrightarrow> may_run s q \<and> q \<noteq> p"
  using queued_runnable [of s hm ht R q] queued_runnable [of "s\<lparr>m_runnable := r\<rparr>" hm ht "appended R [p] []" q]
  by (auto simp: may_run_def)

lemma method_statics_exact:
  assumes "queued s hm ht R"
  obtains s' where "trigger_all method_trigger_static ps s = Some s'"
    "queued s' hm ht (appended R (static_ready s ps) [])"
  using assms
proof (induction ps arbitrary: s R thesis)
  case Nil
  then show ?case by (simp add: static_ready_def)
next
  case (Cons p ps)
  show ?case
  proof (cases "may_run s p \<and> waits_static s p")
    case True
    then obtain r where r: "push_runnable_method p s = Some (s\<lparr>m_runnable := r\<rparr>)"
      and Q: "queued (s\<lparr>m_runnable := r\<rparr>) hm ht (appended R [p] [])"
      using push_runnable_method_queued [OF Cons.prems(2)] unfolding may_run_def by blast
    let ?s = "s\<lparr>m_runnable := r\<rparr>"
    have step: "method_trigger_static p s = Some ?s"
      using True r by (simp add: method_trigger_static_def may_run_def waits_static_def)
    obtain s' where s': "trigger_all method_trigger_static ps ?s = Some s'"
      "queued s' hm ht (appended (appended R [p] []) (static_ready ?s ps) [])"
      using Cons.IH [OF _ Q] by blast
    have "static_ready s (p # ps) = p # static_ready ?s ps"
      using True may_run_after_push [OF Cons.prems(2) Q]
      by (auto simp: static_ready_def waits_static_def intro!: filter_cong)
    with step s' show ?thesis by (intro Cons.prems(1) [of s']) simp_all
  next
    case False
    then have "method_trigger_static p s \<in>
        {Some s, Some (upd_proc p (\<lambda>v. v\<lparr>ps_ready_to_run := True\<rparr>) s)}"
      by (auto simp: method_trigger_static_def may_run_def waits_static_def)
    then obtain s1 where s1: "method_trigger_static p s = Some s1"
      and c: "s1 = s \<or> s1 = upd_proc p (\<lambda>v. v\<lparr>ps_ready_to_run := True\<rparr>) s"
      by blast
    have Q: "queued s1 hm ht R" using c Cons.prems(2) by (auto simp: queued_def is_runnable_def)
    have same: "may_run s1 q = may_run s q" "waits_static s1 q = waits_static s q" for q
      using c by (elim disjE; simp add: may_run_def waits_static_def is_runnable_def)+
    obtain s' where s': "trigger_all method_trigger_static ps s1 = Some s'"
      "queued s' hm ht (appended R (static_ready s1 ps) [])"
      using Cons.IH [OF _ Q] by blast
    have "static_ready s (p # ps) = static_ready s1 ps"
      using False by (auto simp: static_ready_def same intro!: filter_cong)
    with s1 s' show ?thesis by (intro Cons.prems(1) [of s']) simp_all
  qed
qed

text \<open>
  C1. Triggering an event touches the run queues only by appending to the two push queues,
  methods before threads: first, in the order of the event's static method list read from its
  last entry, exactly the methods that wait statically, are not running and may run, each once;
  then methods and threads all of which are neither disabled, nor suspended, nor queued already.\<close>

theorem trigger_schedules:
  assumes Q: "queued s hm ht R" and t: "event_trigger e s = Some s'"
  shows "\<exists>ms ts. queued s' hm ht
      (appended R (static_ready s (rev (m_methods_static (events s e))) @ ms) ts) \<and>
    (\<forall>p \<in> set ms \<union> set ts. may_run s p) \<and> (\<forall>p \<in> set ms. m_curr_proc s \<noteq> Some p) \<and>
    set ms \<inter> set (static_ready s (rev (m_methods_static (events s e)))) = {}"
proof -
  let ?s = "if ev_observer (events s e) then s\<lparr>trace := trace s @ [EventNotified e]\<rparr> else s"
  let ?ps = "rev (m_methods_static (events s e))"
  have q0: "quiet s ?s" by (simp add: quiet_def)
  have Q0: "queued ?s hm ht R" using quiet_queued [OF q0 Q] .
  have same: "static_ready ?s ?ps = static_ready s ?ps"
    unfolding static_ready_def using quiet_may_run [OF q0]
    by (intro filter_cong refl) (simp add: waits_static_def)
  obtain s1 where s1: "trigger_all method_trigger_static ?ps ?s = Some s1"
    "queued s1 hm ht (appended R (static_ready s ?ps) [])"
    using method_statics_exact [OF Q0, of ?ps] same by metis
  have "schedules ?s s1"
    using schedules_method_static s1(1) by (rule schedules.T_trigger_all)
  then have "\<exists>ms ts. sched hm ht R ?s s1 ms ts" using Q0 unfolding schedules_def by blast
  then have keep: "m_curr_proc s1 = m_curr_proc s" "ps_disabled (procs s1 q) = ps_disabled (procs s q)"
    "ps_suspended (procs s1 q) = ps_suspended (procs s q)" for q
    unfolding sched_def by (auto split: if_splits)
  have ev: "events ?s e = events s e" by simp
  obtain s2 s3 s4 where
    2: "trigger_dynamics method_trigger_dynamic m_methods_dynamic m_methods_dynamic_update e s1 = Some s2" and
    3: "trigger_all thread_trigger_static (rev (m_threads_static (events s2 e))) s2 = Some s3" and
    4: "trigger_dynamics thread_trigger_dynamic m_threads_dynamic m_threads_dynamic_update e s3 = Some s4" and
    5: "s' = upd_event e (\<lambda>v. v\<lparr>m_notify_type := NONE, m_delta_event_index := - 1, m_timed := None\<rparr>) s4"
    using t s1(1) unfolding event_trigger_def Let_def bind_eq_Some_conv ev by auto
  have "schedules s1 s2" using schedules_method_dynamic 2 by (rule schedules.T_dynamics)
  also have "schedules s2 s3" using schedules_thread_static 3 by (rule schedules.T_trigger_all)
  also have "schedules s3 s4" using schedules_thread_dynamic 4 by (rule schedules.T_dynamics)
  also have "schedules s4 s'" unfolding 5 by (rule schedules_quiet) simp
  finally obtain ms ts where S: "sched hm ht (appended R (static_ready s ?ps) []) s1 s' ms ts"
    using s1(2) unfolding schedules_def by blast
  have more: "may_run s p \<and> p \<notin> set (static_ready s ?ps)" if "may_run s1 p" for p
    using that queued_runnable [OF s1(2), of p] queued_runnable [OF Q, of p] keep by (auto simp: may_run_def)
  show ?thesis
    using S more keep(1) unfolding sched_def by (intro exI [of _ ms] exI [of _ ts]) auto
qed

text \<open>A context right after \<^verbatim>\<open>m_runnable->init()\<close>: its processes are methods, 100 and 200 are the heads.\<close>

definition demo_sim :: sim where
  "demo_sim = (sc_simcontext_init (\<lambda>_. 0) (\<lambda>p. sc_process_ctor SC_METHOD_PROC (1000 + p)) (\<lambda>_. 0))
     \<lparr>m_runnable := the (runnable_init 100 200 (sc_runnable_ctor (\<lambda>_. Null)))\<rparr>"

lemma demo_runnable:
  "runnable_init 100 200 (sc_runnable_ctor (\<lambda>_. Null)) = Some (m_runnable demo_sim)"
  "runnable_p (m_runnable demo_sim) = (\<lambda>_. Null)(100 := QEnd, 200 := QEnd)"
  by (simp_all add: demo_sim_def runnable_init_def sc_runnable_ctor_def q_init_def q_ctor_def)

lemma queued_demo: "queued demo_sim 100 200 no_ready"
  using runnable_init_refines [of 100 200 "\<lambda>_. Null"] demo_runnable
  by (auto simp: queued_def is_runnable_def in_queues_def)

lemma demo_may_run: "p \<noteq> 100 \<Longrightarrow> p \<noteq> 200 \<Longrightarrow> may_run demo_sim p"
  by (simp add: may_run_def is_runnable_def demo_runnable)
    (simp add: demo_sim_def sc_simcontext_init_def sc_process_ctor_def kernel.defs)

lemma demo_fields [simp]:
  "m_trigger_type (procs demo_sim p) = STATIC" "m_curr_proc demo_sim = None"
  "events demo_sim e = sc_event_ctor" "ev_observer sc_event_ctor = False"
  by (simp_all add: demo_sim_def sc_simcontext_init_def sc_process_ctor_def kernel.defs kernel_init_def
      sc_event_ctor_def)

lemmas demo_eval = demo_sim_def sc_simcontext_init_def sc_process_ctor_def kernel.defs kernel_init_def
  sc_event_ctor_def runnable_init_def sc_runnable_ctor_def q_init_def q_ctor_def upd_event_def

lemmas push_eval = push_runnable_method_def with_runnable_def push_back_method_def on_methods_def q_push_back_def

lemma upd_event_sim [simp]:
  fixes s :: "'a sim_scheme"
  shows "procs (upd_event e f s) = procs s" "m_runnable (upd_event e f s) = m_runnable s"
    "m_curr_proc (upd_event e f s) = m_curr_proc s" "event_lists (upd_event e f s) = event_lists s"
  by (simp_all add: upd_event_def)

definition demo_event :: sim where
  "demo_event = upd_event 5 (\<lambda>v. v\<lparr>m_methods_static := [1, 2]\<rparr>) demo_sim"

lemma demo_event_trigger: "\<exists>s'. event_trigger 5 demo_event = Some s'"
  by (simp add: demo_eval push_eval event_trigger_def demo_event_def method_trigger_static_def
      trigger_dynamics_def is_runnable_def)

theorem trigger_schedules_witness:
  "\<exists>s' ms ts. event_trigger 5 demo_event = Some s' \<and> queued s' 100 200 (appended no_ready ([2, 1] @ ms) ts)"
proof -
  obtain s' where s': "event_trigger 5 demo_event = Some s'" using demo_event_trigger by blast
  have Q: "queued demo_event 100 200 no_ready"
    unfolding demo_event_def by (rule quiet_queued [OF quiet_upd_event queued_demo])
  have "static_ready demo_event (rev (m_methods_static (events demo_event 5))) = [2, 1]"
    using demo_may_run [of 1] demo_may_run [of 2]
    by (simp add: static_ready_def demo_event_def waits_static_def quiet_may_run [OF quiet_upd_event])
  with trigger_schedules [OF Q s'] s' show ?thesis by auto
qed

section \<open>Waiting on a list of events\<close>

lemma remove_last_swap_snoc [simp]: "remove_last_swap p (xs @ [p]) = (xs, True)"
  by (simp add: remove_last_swap_def)

lemma remove_added_method [simp]: "fst (remove_dynamic_method p (add_dynamic_method p v)) = v"
  by (simp add: remove_dynamic_method_def add_dynamic_method_def)

lemma remove_added_thread [simp]: "fst (remove_dynamic_thread p (add_dynamic_thread p v)) = v"
  by (simp add: remove_dynamic_thread_def add_dynamic_thread_def)

lemma foldl_upd_event_more [simp]:
  "kernel.more (foldl (\<lambda>t e. if P e then upd_event e g t else t) k es) = kernel.more k"
  by (induction es arbitrary: k) auto

lemma foldl_upd_event_events:
  "distinct es \<Longrightarrow> events (foldl (\<lambda>t e. if P e then upd_event e g t else t) k es) x =
     (if x \<in> set es \<and> P x then g (events k x) else events k x)"
  by (induction es arbitrary: k) auto

lemma sim_more_fields:
  "kernel.more (s :: 'a sim_scheme) = kernel.more s' \<Longrightarrow>
   procs s = procs s' \<and> m_runnable s = m_runnable s' \<and> m_curr_proc s = m_curr_proc s' \<and>
   event_lists s = event_lists s'"
  by (cases s; cases s') simp

text \<open>Registering with every event of a list.\<close>

lemma wait_list_state:
  fixes s :: "'a sim_scheme"
  assumes "event_lists s l = Some el" "distinct (el_events el)"
  obtains s1 where "wait_list add p l ty s = Some s1"
    "\<forall>x. events s1 x = (if x \<in> set (el_events el) then add p (events s x) else events s x)"
    "event_lists s1 = (event_lists s)(l \<mapsto> el\<lparr>el_busy := el_busy el + 1\<rparr>)"
    "procs s1 = (procs s)(p := (procs s p)\<lparr>m_event_list_p := Some l,
       m_event_count := (if ty = AND_LIST \<or> ty = AND_LIST_TIMEOUT then el_size el else m_event_count (procs s p)),
       m_trigger_type := ty\<rparr>)"
    "m_runnable s1 = m_runnable s" "m_curr_proc s1 = m_curr_proc s"
proof -
  define s0 where "s0 = s\<lparr>event_lists := (event_lists s)(l \<mapsto> el\<lparr>el_busy := el_busy el + 1\<rparr>)\<rparr>"
  define t where "t = foldl (\<lambda>t e. if True then upd_event e (add p) t else t) s0 (rev (el_events el))"
  have "kernel.more t = kernel.more s0" unfolding t_def by (rule foldl_upd_event_more)
  note same = sim_more_fields [OF this]
  have ev: "events t x = (if x \<in> set (el_events el) then add p (events s x) else events s x)" for x
    unfolding t_def using assms(2) by (subst foldl_upd_event_events) (simp_all add: s0_def)
  have "el_add_dynamic add l p s = Some t"
    using assms(1) by (simp add: el_add_dynamic_def t_def s0_def)
  moreover have "el_size (el\<lparr>el_busy := n\<rparr>) = el_size el" for n by (simp add: el_size_def)
  moreover have "event_lists t l = Some (el\<lparr>el_busy := el_busy el + 1\<rparr>)" using same by (simp add: s0_def)
  ultimately have w: "wait_list add p l ty s = Some (upd_proc p (\<lambda>v. v\<lparr>m_event_list_p := Some l,
       m_event_count := (if ty = AND_LIST \<or> ty = AND_LIST_TIMEOUT then el_size el else m_event_count v),
       m_trigger_type := ty\<rparr>) t)"
    by (simp add: wait_list_def Let_def)
  show ?thesis
    using ev same by (rule_tac that [OF w]) (simp_all add: s0_def)
qed

lemma leave_list_state:
  fixes s :: "'a sim_scheme"
  assumes "m_event_list_p (procs s p) = Some l" "event_lists s l = Some el" "distinct (el_events el)"
  obtains s1 where "leave_list rem p e s = Some s1"
    "\<forall>x. events s1 x = (if x \<in> set (el_events el) \<and> Some x \<noteq> e then fst (rem p (events s x)) else events s x)"
    "event_lists s1 = (event_lists s)(l := el_auto_delete_op el)"
    "procs s1 = (procs s)(p := (procs s p)\<lparr>m_event_list_p := None\<rparr>)"
    "m_runnable s1 = m_runnable s" "m_curr_proc s1 = m_curr_proc s"
proof -
  define t where "t = foldl (\<lambda>t x. if Some x \<noteq> e then upd_event x (\<lambda>v. fst (rem p v)) t else t) s (rev (el_events el))"
  have "kernel.more t = kernel.more s" unfolding t_def by (rule foldl_upd_event_more)
  note same = sim_more_fields [OF this]
  have ev: "events t x = (if x \<in> set (el_events el) \<and> Some x \<noteq> e then fst (rem p (events s x)) else events s x)" for x
    unfolding t_def using assms(3) by (subst foldl_upd_event_events) simp_all
  have r: "el_remove_dynamic rem l p e s = Some t"
    using assms(2) by (simp add: el_remove_dynamic_def t_def)
  have w: "leave_list rem p e s = Some (upd_proc p (\<lambda>v. v\<lparr>m_event_list_p := None\<rparr>)
      (t\<lparr>event_lists := (event_lists s)(l := el_auto_delete_op el)\<rparr>))"
    using assms(1,2) r same by (simp add: leave_list_def list_auto_delete_def)
  show ?thesis
    using ev same by (rule_tac that [OF w]) simp_all
qed

text \<open>
  C7. A method that waits for \<^verbatim>\<open>next_trigger(e1 | e2 | ...)\<close> is woken by any one event of the
  list: it becomes runnable at the back of the method queue and static again, it is taken off the
  dynamic list of every other event of the list, each of which is then exactly what it was before
  the wait, and the list is freed when it was a temporary and otherwise no longer busy.\<close>

theorem or_list_round_trip:
  fixes s :: "'a sim_scheme"
  assumes Q: "queued s hm ht R" and run: "may_run s p" and st: "m_trigger_type (procs s p) = STATIC"
    and el: "event_lists s l = Some el" "distinct (el_events el)" "e \<in> set (el_events el)"
    and waiting: "next_trigger p (WOrList l) s = Some s1"
  shows "\<exists>s2. method_trigger_dynamic p e (s1\<lparr>m_curr_proc := None\<rparr>) = Some (True, s2) \<and>
    queued s2 hm ht (appended R [p] []) \<and> m_trigger_type (procs s2 p) = STATIC \<and>
    (\<forall>x. x \<noteq> e \<longrightarrow> events s2 x = events s x) \<and>
    m_methods_dynamic (events s2 e) = m_methods_dynamic (events s e) @ [p] \<and>
    event_lists s2 l = (if el_temporary el then None else Some el)"
proof -
  have w: "wait_list add_dynamic_method p l OR_LIST s = Some s1"
    using waiting st by (simp add: next_trigger_def clear_trigger_def register_wait_def)
  obtain s1' where s1': "wait_list add_dynamic_method p l OR_LIST s = Some s1'"
    and ev: "\<forall>x. events s1' x = (if x \<in> set (el_events el) then add_dynamic_method p (events s x) else events s x)"
    and els: "event_lists s1' = (event_lists s)(l \<mapsto> el\<lparr>el_busy := el_busy el + 1\<rparr>)"
    and pr: "procs s1' = (procs s)(p := (procs s p)\<lparr>m_event_list_p := Some l,
       m_event_count := (if OR_LIST = AND_LIST \<or> OR_LIST = AND_LIST_TIMEOUT then el_size el else m_event_count (procs s p)),
       m_trigger_type := OR_LIST\<rparr>)"
    and rn: "m_runnable s1' = m_runnable s" "m_curr_proc s1' = m_curr_proc s"
    by (rule wait_list_state [OF el(1,2), where add = add_dynamic_method and p = p and ty = OR_LIST])
  have [simp]: "s1' = s1" using s1' w by simp
  let ?t = "upd_proc p (\<lambda>v. v\<lparr>m_timed_out := False\<rparr>) (s1\<lparr>m_curr_proc := None\<rparr>)"
  have t: "m_event_list_p (procs ?t p) = Some l" "event_lists ?t l = Some (el\<lparr>el_busy := el_busy el + 1\<rparr>)"
    "distinct (el_events (el\<lparr>el_busy := el_busy el + 1\<rparr>))"
    using pr els el(2) by simp_all
  obtain s2 where s2: "leave_list remove_dynamic_method p (Some e) ?t = Some s2"
    and ev2: "\<forall>x. events s2 x = (if x \<in> set (el_events (el\<lparr>el_busy := el_busy el + 1\<rparr>)) \<and> Some x \<noteq> Some e
        then fst (remove_dynamic_method p (events ?t x)) else events ?t x)"
    and els2: "event_lists s2 = (event_lists ?t)(l := el_auto_delete_op (el\<lparr>el_busy := el_busy el + 1\<rparr>))"
    and pr2: "procs s2 = (procs ?t)(p := (procs ?t p)\<lparr>m_event_list_p := None\<rparr>)"
    and rn2: "m_runnable s2 = m_runnable ?t" "m_curr_proc s2 = m_curr_proc ?t"
    by (rule leave_list_state [OF t, where rem = remove_dynamic_method and e = "Some e"])
  let ?u = "upd_proc p (\<lambda>v. v\<lparr>m_trigger_type := STATIC\<rparr>) s2"
  have Qu: "queued ?u hm ht R" using Q rn rn2 by (simp add: queued_def is_runnable_def)
  have bits: "\<not> is_runnable p ?u" "\<not> ps_disabled (procs ?t p)" "\<not> ps_suspended (procs ?u p)" "\<not> is_runnable p ?t"
    using run pr pr2 rn rn2 by (simp_all add: may_run_def is_runnable_def)
  obtain r where r: "push_runnable_method p ?u = Some (?u\<lparr>m_runnable := r\<rparr>)"
    "queued (?u\<lparr>m_runnable := r\<rparr>) hm ht (appended R [p] [])"
    using push_runnable_method_queued [OF Qu bits(1)] by blast
  have sw: "dynamic_switch remove_dynamic_method p e ?t = Some (True, ?u)"
    using s2 pr by (simp add: dynamic_switch_def)
  have "method_trigger_dynamic p e (s1\<lparr>m_curr_proc := None\<rparr>) = Some (True, ?u\<lparr>m_runnable := r\<rparr>)"
    using sw bits r(1) by (simp add: method_trigger_dynamic_def Let_def)
  moreover have "events s2 x = events s x" if "x \<noteq> e" for x
    using that ev2 ev by simp
  moreover have "m_methods_dynamic (events s2 e) = m_methods_dynamic (events s e) @ [p]"
    using ev2 ev el(3) by (simp add: add_dynamic_method_def)
  moreover have "event_lists s2 l = (if el_temporary el then None else Some el)"
    using els2 by (simp add: el_auto_delete_op_def el_temporary_def el_is_busy_def)
  ultimately show ?thesis using r(2) by auto
qed

text \<open>The event list as one process sees it: its notifications, in some order.\<close>

fun trigger_by_each :: "nat \<Rightarrow> nat list \<Rightarrow> 'a sim_scheme \<Rightarrow> 'a sim_scheme option" where
  "trigger_by_each p [] s = Some s"
| "trigger_by_each p (e # es) s =
     do { (rc, s1) \<leftarrow> method_trigger_dynamic p e s; trigger_by_each p es s1 }"

lemma trigger_by_each_append:
  "trigger_by_each p (es @ fs) s = do { s1 \<leftarrow> trigger_by_each p es s; trigger_by_each p fs s1 }"
proof (induction es arbitrary: s)
  case (Cons e es)
  then show ?case by (cases "method_trigger_dynamic p e s") (auto split: prod.splits)
qed simp

text \<open>\<open>p\<close> waits for \<open>n\<close> more events of the list \<open>l\<close>.\<close>

definition and_waiting :: "nat \<Rightarrow> nat \<Rightarrow> sc_event_list \<Rightarrow> int \<Rightarrow> nat \<Rightarrow> nat \<Rightarrow> ready \<Rightarrow> 'a sim_scheme \<Rightarrow> bool" where
  "and_waiting p l el n hm ht R s \<longleftrightarrow> queued s hm ht R \<and> may_run s p \<and> m_curr_proc s \<noteq> Some p \<and>
     m_trigger_type (procs s p) = AND_LIST \<and> m_event_count (procs s p) = n \<and>
     m_event_list_p (procs s p) = Some l \<and> event_lists s l = Some el"

lemma and_waiting_step:
  assumes "and_waiting p l el n hm ht R s" "n \<noteq> 1"
  shows "\<exists>s'. method_trigger_dynamic p e s = Some (True, s') \<and> and_waiting p l el (n - 1) hm ht R s'"
  using assms
  by (auto simp: and_waiting_def method_trigger_dynamic_def dynamic_switch_def Let_def may_run_def
      is_runnable_def queued_def)

lemma and_waiting_steps:
  "and_waiting p l el n hm ht R s \<Longrightarrow> int (length es) < n \<Longrightarrow>
   \<exists>s'. trigger_by_each p es s = Some s' \<and> and_waiting p l el (n - int (length es)) hm ht R s'"
proof (induction es arbitrary: n s)
  case (Cons e es)
  then obtain s1 where s1: "method_trigger_dynamic p e s = Some (True, s1)" "and_waiting p l el (n - 1) hm ht R s1"
    using and_waiting_step [of p l el n hm ht R s e] by auto
  obtain s' where "trigger_by_each p es s1 = Some s'" "and_waiting p l el (n - 1 - int (length es)) hm ht R s'"
    using Cons.IH [OF s1(2)] Cons.prems(2) by auto
  moreover have "n - 1 - int (length es) = n - int (length (e # es))" by simp
  ultimately show ?case using s1(1) by simp
qed auto

lemma and_waiting_last:
  assumes w: "and_waiting p l el 1 hm ht R s"
  obtains s' where "method_trigger_dynamic p e s = Some (True, s')" "queued s' hm ht (appended R [p] [])"
    "m_trigger_type (procs s' p) = STATIC" "event_lists s' l = el_auto_delete_op el"
proof -
  note W = w [unfolded and_waiting_def may_run_def]
  let ?t = "upd_proc p (\<lambda>v. v\<lparr>m_timed_out := False\<rparr>) s"
  let ?u = "upd_proc p (\<lambda>v. v\<lparr>m_trigger_type := STATIC\<rparr>)
      (upd_proc p (\<lambda>v. v\<lparr>m_event_list_p := None\<rparr>)
        (upd_proc p (\<lambda>v. v\<lparr>m_event_count := m_event_count v - 1\<rparr>) ?t)
          \<lparr>event_lists := (event_lists s)(l := el_auto_delete_op el)\<rparr>)"
  have sw: "dynamic_switch remove_dynamic_method p e ?t = Some (True, ?u)"
    using W by (simp add: dynamic_switch_def list_auto_delete_def)
  have Qu: "queued ?u hm ht R" using W by (simp add: queued_def is_runnable_def)
  have bits: "\<not> is_runnable p ?u" "\<not> ps_disabled (procs ?t p)" "\<not> ps_suspended (procs ?u p)" "\<not> is_runnable p ?t"
    using W by (simp_all add: is_runnable_def)
  obtain r where r: "push_runnable_method p ?u = Some (?u\<lparr>m_runnable := r\<rparr>)"
    "queued (?u\<lparr>m_runnable := r\<rparr>) hm ht (appended R [p] [])"
    using push_runnable_method_queued [OF Qu bits(1)] by blast
  have "method_trigger_dynamic p e s = Some (True, ?u\<lparr>m_runnable := r\<rparr>)"
    using sw bits r(1) W by (simp add: method_trigger_dynamic_def Let_def)
  then show ?thesis using r(2) by (rule that) simp_all
qed


text \<open>A temporary list of two events, on which method 1 waits.\<close>

definition demo_list :: "sc_event_list \<Rightarrow> sim" where
  "demo_list el = demo_sim\<lparr>event_lists := [0 \<mapsto> el]\<rparr>"

lemma demo_list_facts:
  "queued (demo_list el) 100 200 no_ready" "may_run (demo_list el) 1"
  "m_trigger_type (procs (demo_list el) 1) = STATIC" "event_lists (demo_list el) 0 = Some el"
  using queued_demo demo_may_run [of 1]
  by (simp_all add: demo_list_def queued_def may_run_def is_runnable_def)

lemma demo_list_wait:
  assumes "distinct (el_events el)"
  shows "\<exists>s1. next_trigger 1 (WOrList 0) (demo_list el) = Some s1" "\<exists>s1. next_trigger 1 (WAndList 0) (demo_list el) = Some s1"
proof -
  have w: "\<exists>s1. wait_list add_dynamic_method 1 0 ty (demo_list el) = Some s1" for ty
    by (rule wait_list_state [OF demo_list_facts(4) assms, where add = add_dynamic_method and p = 1 and ty = ty]) blast
  have "clear_trigger 1 (demo_list el) = Some (demo_list el)"
    using demo_list_facts(3) [of el] by (simp add: clear_trigger_def)
  then show "\<exists>s1. next_trigger 1 (WOrList 0) (demo_list el) = Some s1"
    "\<exists>s1. next_trigger 1 (WAndList 0) (demo_list el) = Some s1"
    using w by (simp_all add: next_trigger_def register_wait_def)
qed

theorem or_list_round_trip_witness:
  "\<exists>s1 s2. next_trigger 1 (WOrList 0) (demo_list (or_expr 5 6 [])) = Some s1 \<and>
     method_trigger_dynamic 1 6 (s1\<lparr>m_curr_proc := None\<rparr>) = Some (True, s2) \<and>
     queued s2 100 200 (appended no_ready [1] []) \<and> event_lists s2 0 = None"
proof -
  have el: "distinct (el_events (or_expr 5 6 []))" "6 \<in> set (el_events (or_expr 5 6 []))" "el_temporary (or_expr 5 6 [])"
    by (simp_all add: or_expr_def event_or_event_def or_list_ctor_auto_def event_list_ctor_def el_push_back_def el_temporary_def)
  obtain s1 where s1: "next_trigger 1 (WOrList 0) (demo_list (or_expr 5 6 [])) = Some s1"
    using demo_list_wait(1) [OF el(1)] by blast
  obtain s2 where "method_trigger_dynamic 1 6 (s1\<lparr>m_curr_proc := None\<rparr>) = Some (True, s2)"
    "queued s2 100 200 (appended no_ready [1] [])"
    "event_lists s2 0 = (if el_temporary (or_expr 5 6 []) then None else Some (or_expr 5 6 []))"
    using or_list_round_trip [OF demo_list_facts el(1,2) s1] by blast
  with s1 el(3) show ?thesis by (intro exI [of _ s1] exI [of _ s2]) simp
qed


section \<open>Building event lists\<close>

lemma foldl_push_back:
  "el_events (foldl (\<lambda>l e. el_push_back e l) el es) = el_events el @ filter (\<lambda>e. e \<notin> set (el_events el)) (firsts es) \<and>
   el_and_list (foldl (\<lambda>l e. el_push_back e l) el es) = el_and_list el \<and>
   el_auto_delete (foldl (\<lambda>l e. el_push_back e l) el es) = el_auto_delete el \<and>
   el_busy (foldl (\<lambda>l e. el_push_back e l) el es) = el_busy el"
proof (induction es arbitrary: el)
  case (Cons e es)
  show ?case
    using Cons [of "el_push_back e el"] by (auto simp: el_push_back_def intro: filter_cong)
qed simp

text \<open>
  An event expression lists its operands once each, in the order written, in a temporary
  list of the kind of its operator, so that a wait on \<^verbatim>\<open>e1 & e2 & ...\<close> counts the different
  events; the public default constructor \<^verbatim>\<open>sc_event_and_list()\<close>, however, makes an OR list.\<close>

theorem event_expressions:
  "el_events (or_expr e1 e2 es) = firsts (e1 # e2 # es) \<and> el_events (and_expr e1 e2 es) = firsts (e1 # e2 # es) \<and>
   \<not> el_and_list (or_expr e1 e2 es) \<and> el_and_list (and_expr e1 e2 es) \<and>
   el_size (and_expr e1 e2 es) = int (card (set (e1 # e2 # es))) \<and>
   el_temporary (or_expr e1 e2 es) \<and> el_temporary (and_expr e1 e2 es) \<and> \<not> el_and_list and_list_ctor"
proof -
  have o: "or_expr e1 e2 es = foldl (\<lambda>l e. el_push_back e l) (or_list_ctor_auto True) (e1 # e2 # es)"
    and a: "and_expr e1 e2 es = foldl (\<lambda>l e. el_push_back e l) (and_list_ctor_auto True) (e1 # e2 # es)"
    by (simp_all add: or_expr_def and_expr_def event_or_event_def event_and_event_def expr_push_event_def [abs_def])
  show ?thesis
    unfolding o a
    using foldl_push_back [of "or_list_ctor_auto True" "e1 # e2 # es"]
      foldl_push_back [of "and_list_ctor_auto True" "e1 # e2 # es"]
      distinct_card [OF distinct_firsts [of "e1 # e2 # es"]] set_firsts [of "e1 # e2 # es"]
    by (simp only: el_size_def el_temporary_def or_list_ctor_auto_def and_list_ctor_auto_def and_list_ctor_def
        event_list_ctor_def sc_event_list.simps) simp
qed

end
