(* ===== verification/Sc_Wait.thy ===== *)
theory Sc_Wait
  imports Sc_Process
begin

text \<open>
  The functions a process calls to wait (kernel/sc_wait.cpp, kernel/sc_wait_cthread.cpp,
  kernel/sc_cthread_process.h).  A call leaves the process registered and suspended; what it
  does when it is resumed is part of the result.  Outcome \<open>None\<close> is a report of severity error.
\<close>

section \<open>Waiting and next triggers\<close>

definition curr_kind :: "'a sim_scheme \<Rightarrow> proc_kind" where
  "curr_kind s = (case m_curr_proc s of None \<Rightarrow> SC_NO_PROC | Some p \<Rightarrow> m_process_kind (procs s p))"

text \<open>What a resumed process does: it goes on, it waits for a cycle first, or it halts.\<close>

datatype resume = GoesOn | WaitsCycle | Halts

definition wait_static :: "'a sim_scheme \<Rightarrow> (resume \<times> 'a sim_scheme) option" where
  "wait_static s =
     (case m_curr_proc s of
        None \<Rightarrow> None
      | Some p \<Rightarrow>
          if curr_kind s = SC_THREAD_PROC \<or> curr_kind s = SC_CTHREAD_PROC
          then map_option (Pair GoesOn) (wait_cycles p 1 s) else None)"

definition sc_wait :: "wait_arg \<Rightarrow> 'a sim_scheme \<Rightarrow> (resume \<times> 'a sim_scheme) option" where
  "sc_wait w s =
     (case m_curr_proc s of
        None \<Rightarrow> None
      | Some p \<Rightarrow>
          (case m_process_kind (procs s p) of
             SC_THREAD_PROC \<Rightarrow> map_option (Pair GoesOn) (thread_wait p w s)
           | SC_CTHREAD_PROC \<Rightarrow> map_option (Pair WaitsCycle) (thread_wait p w s)
           | _ \<Rightarrow> None))"

definition next_trigger_static :: "'a sim_scheme \<Rightarrow> 'a sim_scheme option" where
  "next_trigger_static s =
     (case m_curr_proc s of
        None \<Rightarrow> None
      | Some p \<Rightarrow> if m_process_kind (procs s p) = SC_METHOD_PROC then clear_trigger p s else None)"

definition sc_next_trigger :: "wait_arg \<Rightarrow> 'a sim_scheme \<Rightarrow> 'a sim_scheme option" where
  "sc_next_trigger w s =
     (case m_curr_proc s of
        None \<Rightarrow> None
      | Some p \<Rightarrow> if m_process_kind (procs s p) = SC_METHOD_PROC then next_trigger p w s else None)"

definition timed_out :: "'a sim_scheme \<Rightarrow> bool option" where
  "timed_out s = map_option (\<lambda>p. m_timed_out (procs s p)) (m_curr_proc s)"

section \<open>Clocked threads\<close>

definition wait_n :: "int \<Rightarrow> 'a sim_scheme \<Rightarrow> (resume \<times> 'a sim_scheme) option" where
  "wait_n n s =
     (if n \<le> 0 then None
      else case m_curr_proc s of
        None \<Rightarrow> None
      | Some p \<Rightarrow>
          if curr_kind s = SC_THREAD_PROC \<or> curr_kind s = SC_CTHREAD_PROC
          then map_option (Pair GoesOn) (wait_cycles p n s) else None)"

definition halt :: "'a sim_scheme \<Rightarrow> (resume \<times> 'a sim_scheme) option" where
  "halt s =
     (case m_curr_proc s of
        None \<Rightarrow> None
      | Some p \<Rightarrow> if curr_kind s = SC_CTHREAD_PROC
          then Some (Halts, upd_proc p (\<lambda>v. v\<lparr>m_wait_cycle_n := 0\<rparr>) s) else None)"

definition sc_cthread_process_ctor :: "nat \<Rightarrow> sc_process" where
  "sc_cthread_process_ctor timeout_event =
     (sc_process_ctor SC_THREAD_PROC timeout_event)\<lparr>m_dont_init := True, m_process_kind := SC_CTHREAD_PROC\<rparr>"

text \<open>
  \<^verbatim>\<open>at_posedge\<close> and \<^verbatim>\<open>at_negedge\<close>: the two loops.  \<open>first v\<close> is the condition to stay in the
  first loop and \<open>second v\<close> that of the second; every turn of a loop begins with \<^verbatim>\<open>wait()\<close>.
\<close>

datatype at_state = InFirst | InSecond | Arrived

definition at_start :: "('v \<Rightarrow> bool) \<Rightarrow> 'v \<Rightarrow> at_state" where
  "at_start first v = (if first v then InFirst else InSecond)"

fun at_resume :: "('v \<Rightarrow> bool) \<Rightarrow> ('v \<Rightarrow> bool) \<Rightarrow> at_state \<Rightarrow> 'v \<Rightarrow> at_state" where
  "at_resume first second InFirst v = (if first v then InFirst else InSecond)"
| "at_resume first second InSecond v = (if second v then InSecond else Arrived)"
| "at_resume first second Arrived v = Arrived"

datatype sc_logic = Log_0 | Log_1 | Log_Z | Log_X

definition at_posedge :: "bool \<Rightarrow> bool list \<Rightarrow> at_state" where
  "at_posedge v vs = foldl (at_resume (\<lambda>v. v) (\<lambda>v. \<not> v)) (at_start (\<lambda>v. v) v) vs"

definition at_negedge :: "bool \<Rightarrow> bool list \<Rightarrow> at_state" where
  "at_negedge v vs = foldl (at_resume (\<lambda>v. \<not> v) (\<lambda>v. v)) (at_start (\<lambda>v. \<not> v) v) vs"

definition at_posedge_logic :: "sc_logic \<Rightarrow> sc_logic list \<Rightarrow> at_state" where
  "at_posedge_logic v vs =
     foldl (at_resume (\<lambda>v. v = Log_1) (\<lambda>v. v = Log_0)) (at_start (\<lambda>v. v = Log_1) v) vs"

definition at_negedge_logic :: "sc_logic \<Rightarrow> sc_logic list \<Rightarrow> at_state" where
  "at_negedge_logic v vs =
     foldl (at_resume (\<lambda>v. v = Log_0) (\<lambda>v. v = Log_1)) (at_start (\<lambda>v. v = Log_0) v) vs"

section \<open>Edges\<close>

text \<open>The sequence \<open>vs\<close> has an element outside \<open>first\<close> and a later one outside \<open>second\<close>.\<close>

fun crosses :: "('v \<Rightarrow> bool) \<Rightarrow> ('v \<Rightarrow> bool) \<Rightarrow> 'v list \<Rightarrow> bool" where
  "crosses first second [] = False"
| "crosses first second (v # vs) = (if first v then crosses first second vs else list_ex (\<lambda>w. \<not> second w) vs)"

lemma at_Arrived [simp]: "foldl (at_resume first second) Arrived vs = Arrived"
  by (induction vs) auto

lemma at_InSecond: "foldl (at_resume first second) InSecond vs = Arrived \<longleftrightarrow> list_ex (\<lambda>w. \<not> second w) vs"
  by (induction vs) auto

lemma at_InFirst: "foldl (at_resume first second) InFirst vs = Arrived \<longleftrightarrow> crosses first second vs"
  by (induction vs) (auto simp: at_InSecond)

lemma at_arrived: "foldl (at_resume first second) (at_start first v) vs = Arrived \<longleftrightarrow> crosses first second (v # vs)"
  by (simp add: at_start_def at_InSecond at_InFirst)

lemma crosses_rising:
  "crosses (\<lambda>v. v) (\<lambda>v. \<not> v) vs \<longleftrightarrow> (\<exists>i. Suc i < length vs \<and> \<not> vs ! i \<and> vs ! Suc i)"
proof (induction vs)
  case (Cons v vs)
  have "list_ex (\<lambda>w. w) vs \<longleftrightarrow> (\<exists>i. Suc i < length (False # vs) \<and> \<not> (False # vs) ! i \<and> (False # vs) ! Suc i)"
  proof (induction vs)
    case (Cons w ws)
    have "(\<exists>i. Suc i < length (False # False # ws) \<and> \<not> (False # False # ws) ! i \<and> (False # False # ws) ! Suc i) \<longleftrightarrow>
        (\<exists>i. Suc i < length (False # ws) \<and> \<not> (False # ws) ! i \<and> (False # ws) ! Suc i)"
      by (metis (no_types, lifting) length_Cons not0_implies_Suc not_less_eq nth_Cons_0 nth_Cons_Suc)
    with Cons show ?case by (cases w) (auto intro!: exI [of _ "0::nat"])
  qed simp
  moreover have "(\<exists>i. Suc i < length (True # vs) \<and> \<not> (True # vs) ! i \<and> (True # vs) ! Suc i) \<longleftrightarrow>
      (\<exists>i. Suc i < length vs \<and> \<not> vs ! i \<and> vs ! Suc i)"
    by (metis (no_types, lifting) length_Cons not0_implies_Suc not_less_eq nth_Cons_0 nth_Cons_Suc)
  ultimately show ?case using Cons by (cases v) simp_all
qed simp

lemma crosses_map: "crosses f g (map h vs) = crosses (\<lambda>v. f (h v)) (\<lambda>v. g (h v)) vs"
  by (induction vs) (auto simp: list_ex_iff)

text \<open>
  \<^verbatim>\<open>at_posedge\<close> on a boolean signal returns at the first cycle in which the signal, seen
  from cycle to cycle since the call, has risen, and \<^verbatim>\<open>at_negedge\<close> when it has fallen; on a
  four-valued signal the change from 0 to X already counts as a positive edge.\<close>

theorem at_edges:
  "(at_posedge v vs = Arrived \<longleftrightarrow> (\<exists>i. Suc i < length (v # vs) \<and> \<not> (v # vs) ! i \<and> (v # vs) ! Suc i)) \<and>
   (at_negedge v vs = Arrived \<longleftrightarrow> (\<exists>i. Suc i < length (v # vs) \<and> (v # vs) ! i \<and> \<not> (v # vs) ! Suc i)) \<and>
   at_posedge_logic Log_0 [Log_X] = Arrived \<and> at_negedge_logic Log_1 [Log_X] = Arrived"
proof (intro conjI)
  show "at_posedge v vs = Arrived \<longleftrightarrow> (\<exists>i. Suc i < length (v # vs) \<and> \<not> (v # vs) ! i \<and> (v # vs) ! Suc i)"
    unfolding at_posedge_def at_arrived by (rule crosses_rising)
  define us where "us = v # vs"
  have "crosses (\<lambda>v. \<not> v) (\<lambda>v. v) us = crosses (\<lambda>v. v) (\<lambda>v. \<not> v) (map Not us)"
    by (simp add: crosses_map)
  also have "\<dots> \<longleftrightarrow> (\<exists>i. Suc i < length us \<and> us ! i \<and> \<not> us ! Suc i)"
    unfolding crosses_rising by (simp add: Suc_lessD cong: conj_cong)
  finally show "at_negedge v vs = Arrived \<longleftrightarrow> (\<exists>i. Suc i < length (v # vs) \<and> (v # vs) ! i \<and> \<not> (v # vs) ! Suc i)"
    unfolding at_negedge_def at_arrived us_def .
qed (simp_all add: at_posedge_logic_def at_negedge_logic_def at_start_def)

end
