(* ===== verification/Sc_Prim_Channel.thy ===== *)
theory Sc_Prim_Channel
  imports Sc_Wait
begin

text \<open>
  The registry of primitive channels (communication/sc_prim_channel.h,
  communication/sc_prim_channel.cpp): the pending updates are linked through the channels, from
  the last request to the first, and a list of requests made outside the simulator is added to
  them at the start of the update phase.  The virtual callbacks of a channel are parameters.
  Outcome \<open>None\<close> is a thrown report or a channel that does not return.
\<close>

section \<open>The registry\<close>

definition sc_is_running :: "'a sim_scheme \<Rightarrow> bool" where
  "sc_is_running s = m_ready_to_simulate s"

definition registry_insert :: "nat \<Rightarrow> 'a sim_scheme \<Rightarrow> 'a sim_scheme option" where
  "registry_insert c s =
     (if sc_is_running s \<or> m_elaboration_done s then None
      else Some (s\<lparr>m_prim_channel_vec := m_prim_channel_vec s @ [c]\<rparr>))"

definition prim_channel_ctor :: "nat \<Rightarrow> 'a sim_scheme \<Rightarrow> 'a sim_scheme option" where
  "prim_channel_ctor c s = registry_insert c (s\<lparr>m_update_next_p := (m_update_next_p s)(c := Null)\<rparr>)"

fun find_channel :: "nat \<Rightarrow> nat list \<Rightarrow> nat \<Rightarrow> nat" where
  "find_channel c [] i = i"
| "find_channel c (x # xs) i = (if c = x then i else find_channel c xs (i + 1))"

definition registry_remove :: "nat \<Rightarrow> 'a sim_scheme \<Rightarrow> 'a sim_scheme option" where
  "registry_remove c s =
     (let v = m_prim_channel_vec s; i = find_channel c v 0
      in if i = length v then None
         else Some (s\<lparr>m_prim_channel_vec := butlast (v[i := v ! (length v - 1)])\<rparr>))"

definition update_requested :: "nat \<Rightarrow> 'a sim_scheme \<Rightarrow> bool" where
  "update_requested c s \<longleftrightarrow> m_update_next_p s c \<noteq> QEnd"

definition request_update :: "nat \<Rightarrow> 'a sim_scheme \<Rightarrow> 'a sim_scheme" where
  "request_update c s =
     (if m_update_next_p s c = Null
      then s\<lparr>m_update_next_p := (m_update_next_p s)(c := m_update_list_p s), m_update_list_p := Proc c\<rparr>
      else s)"

lemma ev_inv_request [simp]: "ev_inv (request_update c s) = ev_inv s"
  by (simp add: request_update_def ev_inv_def heap_inv_def)

lemma pending_request [simp]: "pending (request_update c s) = pending s"
  by (rule pending_cong) (simp_all add: request_update_def)

definition async_request_update :: "nat \<Rightarrow> 'a sim_scheme \<Rightarrow> 'a sim_scheme" where
  "async_request_update c s = s\<lparr>m_async_push_queue := m_async_push_queue s @ [c]\<rparr>"

definition pending_async_updates :: "'a sim_scheme \<Rightarrow> bool" where
  "pending_async_updates s \<longleftrightarrow> m_async_push_queue s \<noteq> []"

definition pending_updates :: "'a sim_scheme \<Rightarrow> bool" where
  "pending_updates s \<longleftrightarrow> m_update_list_p s \<noteq> QEnd \<or> pending_async_updates s"

definition accept_updates :: "'a sim_scheme \<Rightarrow> 'a sim_scheme" where
  "accept_updates s = foldl (\<lambda>t c. request_update c t) (s\<lparr>m_async_push_queue := []\<rparr>) (m_async_push_queue s)"

text \<open>\<open>update c\<close> is the virtual \<^verbatim>\<open>update()\<close> of channel \<open>c\<close>.\<close>

definition channel_perform_update ::
  "(nat \<Rightarrow> 'a sim_scheme \<Rightarrow> 'a sim_scheme option) \<Rightarrow> nat \<Rightarrow> 'a sim_scheme \<Rightarrow> 'a sim_scheme option" where
  "channel_perform_update update c s =
     map_option (\<lambda>t. t\<lparr>m_update_next_p := (m_update_next_p t)(c := Null)\<rparr>) (update c s)"

partial_function (option) update_loop ::
  "(nat \<Rightarrow> 'a sim_scheme \<Rightarrow> 'a sim_scheme option) \<Rightarrow> ptr \<Rightarrow> 'a sim_scheme \<Rightarrow> 'a sim_scheme option" where
  "update_loop update now s =
     (case now of
        QEnd \<Rightarrow> Some s
      | Null \<Rightarrow> None
      | Proc c \<Rightarrow>
          let next = m_update_next_p s c
          in do { s1 \<leftarrow> channel_perform_update update c s; update_loop update next s1 })"

definition perform_update ::
  "(nat \<Rightarrow> 'a sim_scheme \<Rightarrow> 'a sim_scheme option) \<Rightarrow> 'a sim_scheme \<Rightarrow> 'a sim_scheme option" where
  "perform_update update s0 =
     (let s = (if pending_async_updates s0 then accept_updates s0 else s0)
      in update_loop update (m_update_list_p s) (s\<lparr>m_update_list_p := QEnd\<rparr>))"

text \<open>
  The phase callbacks.  \<^verbatim>\<open>construction_done\<close> visits the channels it has not visited yet, also
  those that a callback creates meanwhile, and answers whether there were none.
\<close>

partial_function (option) construction_loop ::
  "(nat \<Rightarrow> 'a sim_scheme \<Rightarrow> 'a sim_scheme option) \<Rightarrow> 'a sim_scheme \<Rightarrow> 'a sim_scheme option" where
  "construction_loop cb s =
     (if m_construction_done s < length (m_prim_channel_vec s)
      then do {
        s1 \<leftarrow> cb (m_prim_channel_vec s ! m_construction_done s) s;
        construction_loop cb (s1\<lparr>m_construction_done := m_construction_done s1 + 1\<rparr>) }
      else Some s)"

definition registry_construction_done ::
  "(nat \<Rightarrow> 'a sim_scheme \<Rightarrow> 'a sim_scheme option) \<Rightarrow> 'a sim_scheme \<Rightarrow> (bool \<times> 'a sim_scheme) option" where
  "registry_construction_done cb s =
     (if length (m_prim_channel_vec s) = m_construction_done s then Some (True, s)
      else do { s1 \<leftarrow> construction_loop cb s; Some (False, s1) })"

partial_function (option) callback_loop ::
  "(nat \<Rightarrow> 'a sim_scheme \<Rightarrow> 'a sim_scheme option) \<Rightarrow> nat \<Rightarrow> 'a sim_scheme \<Rightarrow> 'a sim_scheme option" where
  "callback_loop cb i s =
     (if i < length (m_prim_channel_vec s)
      then do { s1 \<leftarrow> cb (m_prim_channel_vec s ! i) s; callback_loop cb (i + 1) s1 }
      else Some s)"

definition registry_callbacks ::
  "(nat \<Rightarrow> 'a sim_scheme \<Rightarrow> 'a sim_scheme option) \<Rightarrow> 'a sim_scheme \<Rightarrow> 'a sim_scheme option" where
  "registry_callbacks cb s = callback_loop cb 0 s"

section \<open>The pending updates are a list\<close>

definition update_queue :: "'a sim_scheme \<Rightarrow> nat list \<Rightarrow> bool" where
  "update_queue s cs \<longleftrightarrow> chain (m_update_next_p s) (m_update_list_p s) cs \<and> distinct cs \<and>
     (\<forall>c. m_update_next_p s c \<noteq> Null \<longrightarrow> c \<in> set cs)"

lemma update_queue_link: "update_queue s cs \<Longrightarrow> m_update_next_p s c \<noteq> Null \<longleftrightarrow> c \<in> set cs"
  using chain_next_not_Null unfolding update_queue_def by metis

lemma chain_last_link: "chain nx p cs \<Longrightarrow> distinct cs \<Longrightarrow> c \<in> set cs \<Longrightarrow> nx c = QEnd \<longleftrightarrow> c = last cs"
proof (induction cs arbitrary: p)
  case (Cons d cs)
  then show ?case by (cases cs) auto
qed simp

text \<open>
  What \<^verbatim>\<open>update_requested()\<close> answers when exactly the channels \<open>cs\<close> have requested an
  update: true for every channel but the one that requested first, for which it is false.\<close>

theorem update_requested_answers:
  assumes "update_queue s cs"
  shows "update_requested c s \<longleftrightarrow> cs = [] \<or> c \<noteq> last cs"
  using assms chain_last_link [of "m_update_next_p s" "m_update_list_p s" cs c] update_queue_link [OF assms, of c]
  unfolding update_requested_def update_queue_def by (cases "cs = []") auto

lemma update_queue_request:
  assumes "update_queue s cs"
  shows "update_queue (request_update c s) (if c \<in> set cs then cs else c # cs)"
  using assms update_queue_link [OF assms, of c]
  by (auto simp: request_update_def update_queue_def)

lemma update_queue_requests:
  "update_queue s (rev (firsts as)) \<Longrightarrow> update_queue (foldl (\<lambda>t c. request_update c t) s cs) (rev (firsts (as @ cs)))"
proof (induction cs arbitrary: s as)
  case (Cons c cs)
  have "update_queue (request_update c s) (rev (firsts (as @ [c])))"
    using update_queue_request [OF Cons.prems, of c] by (simp add: firsts_snoc split: if_splits)
  from Cons.IH [OF this] show ?case by simp
qed simp

fun updates :: "(nat \<Rightarrow> 'a sim_scheme \<Rightarrow> 'a sim_scheme option) \<Rightarrow> nat list \<Rightarrow> 'a sim_scheme \<Rightarrow> 'a sim_scheme option" where
  "updates update [] s = Some s"
| "updates update (c # cs) s = do { s1 \<leftarrow> channel_perform_update update c s; updates update cs s1 }"

lemma request_update_async [simp]:
  "m_async_push_queue (request_update c s) = m_async_push_queue s"
  "request_update c (s\<lparr>m_async_push_queue := x\<rparr>) = (request_update c s)\<lparr>m_async_push_queue := x\<rparr>"
  by (simp_all add: request_update_def)

lemma foldl_request_async [simp]:
  "m_async_push_queue (foldl (\<lambda>t c. request_update c t) s cs) = m_async_push_queue s"
  "foldl (\<lambda>t c. request_update c t) (s\<lparr>m_async_push_queue := x\<rparr>) cs =
   (foldl (\<lambda>t c. request_update c t) s cs)\<lparr>m_async_push_queue := x\<rparr>"
  by (induction cs arbitrary: s) simp_all

lemma foldl_async:
  "foldl (\<lambda>t c. async_request_update c t) s as = s\<lparr>m_async_push_queue := m_async_push_queue s @ as\<rparr>"
  by (induction as arbitrary: s) (simp_all add: async_request_update_def)

text \<open>
  What the registry relies on: a channel reaches the update list only through
  \<^verbatim>\<open>request_update\<close>, which leaves the link of a channel that is pending alone.
\<close>

locale update_callback =
  fixes update :: "nat \<Rightarrow> 'a sim_scheme \<Rightarrow> 'a sim_scheme option"
  assumes keeps_links: "update c s = Some s' \<Longrightarrow> m_update_next_p s d \<noteq> Null \<Longrightarrow> m_update_next_p s' d = m_update_next_p s d"
begin

lemma update_loop_list:
  "chain (m_update_next_p s) now cs \<Longrightarrow> distinct cs \<Longrightarrow> update_loop update now s = updates update cs s"
proof (induction cs arbitrary: now s)
  case Nil
  then show ?case by (simp add: update_loop.simps)
next
  case (Cons c cs)
  then have now: "now = Proc c" and rest: "chain (m_update_next_p s) (m_update_next_p s c) cs" by auto
  show ?case
  proof (cases "update c s")
    case None
    then show ?thesis by (simp add: now update_loop.simps channel_perform_update_def)
  next
    case (Some t)
    let ?t = "t\<lparr>m_update_next_p := (m_update_next_p t)(c := Null)\<rparr>"
    have "chain (m_update_next_p t) (m_update_next_p s c) cs"
      using rest keeps_links [OF Some] chain_next_not_Null [OF rest]
      by (intro chain_cong [OF rest]) auto
    then have "chain (m_update_next_p ?t) (m_update_next_p s c) cs" using Cons.prems(2) by simp
    from Cons.IH [OF this] Cons.prems(2) Some show ?thesis
      by (simp add: now update_loop.simps channel_perform_update_def Let_def)
  qed
qed

lemma perform_update_list:
  assumes "update_queue s []" "m_async_push_queue s = []"
  shows "perform_update update (foldl (\<lambda>t c. async_request_update c t) (foldl (\<lambda>t c. request_update c t) s cs) as) =
    updates update (rev (firsts (cs @ as)))
      ((foldl (\<lambda>t c. request_update c t) s (cs @ as))\<lparr>m_update_list_p := QEnd\<rparr>)"
proof -
  let ?s1 = "foldl (\<lambda>t c. request_update c t) s cs"
  let ?s2 = "foldl (\<lambda>t c. request_update c t) s (cs @ as)"
  have q: "m_async_push_queue ?s1 = []" using assms(2) by simp
  have accept: "(if pending_async_updates t then accept_updates t else t) = ?s2"
    if "t = ?s1\<lparr>m_async_push_queue := as\<rparr>" for t
  proof (cases "as = []")
    case True
    with that q show ?thesis by (simp add: pending_async_updates_def)
  next
    case False
    with that have "pending_async_updates t" by (simp add: pending_async_updates_def)
    then show ?thesis using that q by (simp add: accept_updates_def)
  qed
  have "update_queue ?s2 (rev (firsts (cs @ as)))"
    using update_queue_requests [of s "[]" "cs @ as"] assms(1) by simp
  then have loop: "update_loop update (m_update_list_p ?s2) (?s2\<lparr>m_update_list_p := QEnd\<rparr>) =
      updates update (rev (firsts (cs @ as))) (?s2\<lparr>m_update_list_p := QEnd\<rparr>)"
    by (intro update_loop_list) (simp_all add: update_queue_def)
  have "foldl (\<lambda>t c. async_request_update c t) ?s1 as = ?s1\<lparr>m_async_push_queue := as\<rparr>"
    using q by (simp add: foldl_async)
  then show ?thesis by (simp only: perform_update_def Let_def accept loop)
qed

end

text \<open>Channels 4 and 5 request an update, channel 6 does not.\<close>

theorem update_requested_answers_witness:
  "\<exists>s :: sim. update_queue s [5, 4] \<and> \<not> update_requested 4 s \<and> update_requested 5 s \<and> update_requested 6 s"
proof -
  let ?s = "sc_simcontext_init (\<lambda>_. 0) (sc_process_ctor SC_METHOD_PROC) (\<lambda>_. 0)"
  have "update_queue ?s []" by (simp add: sc_simcontext_init_def kernel.defs update_queue_def)
  from update_queue_request [OF update_queue_request [OF this, of 4], of 5]
  have q: "update_queue (request_update 5 (request_update 4 ?s)) [5, 4]" by simp
  show ?thesis using update_requested_answers [OF q] q by (intro exI [of _ "request_update 5 (request_update 4 ?s)"]) simp
qed

end
