(* ===== verification/Sc_Simcontext.thy ===== *)
theory Sc_Simcontext
  imports Sc_Prim_Channel Sc_Schedule
begin

text \<open>
  The simulation loop (kernel/sc_simcontext.cpp, kernel/sc_simcontext_int.h): elaboration, the
  initialization phase, delta cycles, timed notifications, \<^verbatim>\<open>sc_stop\<close>, \<^verbatim>\<open>sc_pause\<close> and
  \<^verbatim>\<open>sc_start\<close>, with the calls to the observer that the repository adds.

  The code of the simulated design is a parameter: what a method does when it is called, what a
  thread does from the moment it gets the processor until it suspends or ends, what the update
  method of a channel does, and the callbacks of ports, exports, channels and modules.  Outcome
  \<open>None\<close> is a failed assertion, a null pointer or a loop that does not end; a C++ exception that
  leaves a function is the flag of its result.  Writing trace files is not modelled.
\<close>

section \<open>The simulated design\<close>

text \<open>How a call of the method's function ends: it returns, it is unwound (by a reset or a
  kill), or another exception leaves it.\<close>

datatype semantics_result = Returned | Unwound bool | Threw

datatype phase_callback = BEFORE_END_OF_ELABORATION | END_OF_ELABORATION | START_OF_SIMULATION
  | END_OF_SIMULATION

text \<open>
  \<open>u_thread p\<close> tells whether the thread suspended itself or ended.  \<open>u_ports\<close> are the port
  and export registries; in the construction phase the two registries tell how many of them
  have nothing left to do, and \<open>u_modules\<close> whether the module registry has.
\<close>

record 's user_code =
  u_semantics :: "nat \<Rightarrow> 's \<Rightarrow> (semantics_result \<times> 's) option"
  u_thread :: "nat \<Rightarrow> 's \<Rightarrow> (bool \<times> 's) option"
  u_update :: "nat \<Rightarrow> 's \<Rightarrow> 's option"
  u_channel :: "phase_callback \<Rightarrow> nat \<Rightarrow> 's \<Rightarrow> 's option"
  u_ports :: "phase_callback \<Rightarrow> 's \<Rightarrow> (nat \<times> 's) option"
  u_modules :: "phase_callback \<Rightarrow> 's \<Rightarrow> (bool \<times> 's) option"

section \<open>Status\<close>

datatype sim_result = SC_SIM_OK | SC_SIM_ERROR | SC_SIM_USER_STOP

definition sim_status :: "'a sim_scheme \<Rightarrow> sim_result" where
  "sim_status s =
     (if m_error s then SC_SIM_ERROR else if m_forced_stop s then SC_SIM_USER_STOP else SC_SIM_OK)"

definition get_status :: "'a sim_scheme \<Rightarrow> sc_status" where
  "get_status s =
     (if m_simulation_status s \<noteq> SC_RUNNING then m_simulation_status s
      else if m_in_simulator_control s then SC_RUNNING else SC_PAUSED)"

definition evaluation_phase :: "'a sim_scheme \<Rightarrow> bool" where
  "evaluation_phase s \<longleftrightarrow> m_execution_phase s = Phase_evaluate \<and> m_ready_to_simulate s"

definition event_occurred :: "64 word \<Rightarrow> 'a sim_scheme \<Rightarrow> bool" where
  "event_occurred last_change_stamp s \<longleftrightarrow> m_change_stamp s = last_change_stamp"

definition attach_observer :: "'a sim_scheme \<Rightarrow> 'a sim_scheme" where
  "attach_observer s = s\<lparr>observer_attached := True\<rparr>"

definition enable_random_scheduler :: "bool \<Rightarrow> 'a sim_scheme \<Rightarrow> 'a sim_scheme" where
  "enable_random_scheduler b s = s\<lparr>ran_enable := b\<rparr>"

text \<open>\<open>rs\<close> is the sequence of \<^verbatim>\<open>rand\<close> after \<^verbatim>\<open>srand( seed )\<close>.\<close>

definition sc_set_random_seed :: "(nat \<Rightarrow> nat) \<Rightarrow> 'a sim_scheme \<Rightarrow> 'a sim_scheme" where
  "sc_set_random_seed rs s =
     (if sim_status s \<noteq> SC_SIM_OK then s
      else if get_status s \<noteq> SC_UNITIALIZED \<and> \<not> sc_is_running s \<and> \<not> m_start_of_simulation_called s
      then (enable_random_scheduler True s)\<lparr>rand_seq := rs, rand_pos := 0\<rparr>
      else s)"

section \<open>The current process and the run queues\<close>

definition set_curr_proc :: "nat \<Rightarrow> 'a sim_scheme \<Rightarrow> 'a sim_scheme" where
  "set_curr_proc p s = s\<lparr>m_curr_proc := Some p\<rparr>"

definition reset_curr_proc :: "'a sim_scheme \<Rightarrow> 'a sim_scheme" where
  "reset_curr_proc s = s\<lparr>m_curr_proc := None\<rparr>"

definition popped :: "(nat option \<times> sc_runnable) option \<Rightarrow> 'a sim_scheme \<Rightarrow> (nat option \<times> 'a sim_scheme) option" where
  "popped res s =
     (case res of
        None \<Rightarrow> None
      | Some (None, r) \<Rightarrow> Some (None, reset_curr_proc (s\<lparr>m_runnable := r\<rparr>))
      | Some (Some p, r) \<Rightarrow> Some (Some p, set_curr_proc p (s\<lparr>m_runnable := r\<rparr>)))"

text \<open>\<^verbatim>\<open>rand\<close> is called only when there is something to pop.\<close>

definition use_rand :: "'a sim_scheme \<Rightarrow> 'a sim_scheme" where
  "use_rand s = s\<lparr>rand_pos := rand_pos s + 1\<rparr>"

definition pop_runnable_method :: "'a sim_scheme \<Rightarrow> (nat option \<times> 'a sim_scheme) option" where
  "pop_runnable_method s =
     (if ran_enable s
      then popped (pop_method_random (rand_seq s (rand_pos s)) (m_runnable s))
             (if pop_q (methods (m_runnable s)) \<noteq> QEnd then use_rand s else s)
      else popped (pop_method (m_runnable s)) s)"

definition pop_runnable_thread :: "'a sim_scheme \<Rightarrow> (nat option \<times> 'a sim_scheme) option" where
  "pop_runnable_thread s =
     (if ran_enable s
      then popped (pop_thread_random (rand_seq s (rand_pos s)) (m_runnable s))
             (if pop_q (threads (m_runnable s)) \<noteq> QEnd then use_rand s else s)
      else popped (pop_thread (m_runnable s)) s)"

text \<open>Threads without a coroutine are skipped; the same loop is in \<^verbatim>\<open>crunch\<close> and \<^verbatim>\<open>next_cor\<close>.\<close>

partial_function (option) next_thread :: "'a sim_scheme \<Rightarrow> (nat option \<times> 'a sim_scheme) option" where
  "next_thread s = do {
     (h, s1) \<leftarrow> pop_runnable_thread s;
     case h of
       None \<Rightarrow> Some (None, s1)
     | Some p \<Rightarrow> if m_has_cor (procs s1 p) then Some (Some p, s1) else next_thread s1 }"

text \<open>\<open>None\<close>: the main coroutine.\<close>

definition next_cor :: "'a sim_scheme \<Rightarrow> (nat option \<times> 'a sim_scheme) option" where
  "next_cor s = (if m_error s then Some (None, s) else next_thread s)"

section \<open>Running processes\<close>

partial_function (option) run_process ::
  "('a sim_scheme) user_code \<Rightarrow> nat \<Rightarrow> 'a sim_scheme \<Rightarrow> (bool \<times> 'a sim_scheme) option" where
  "run_process u p s = do {
     (res, s1) \<leftarrow> u_semantics u p s;
     case res of
       Returned \<Rightarrow> Some (True, s1)
     | Unwound reset \<Rightarrow>
         let s2 = upd_proc p (\<lambda>v. fst (clear_unwinding v)) s1
         in if reset then run_process u p s2 else Some (True, s2)
     | Threw \<Rightarrow> Some (False, s1\<lparr>m_error := True\<rparr>) }"

text \<open>
  The thread \<open>p\<close> gets the processor; when it suspends itself the observer is told, and it hands
  the processor on to the next thread, at the end to the main coroutine.  A thread that ends
  hands on in the same way (at the end of \<^verbatim>\<open>sc_thread_cor_fn\<close>), without a call to the observer.
\<close>

partial_function (option) run_threads ::
  "('a sim_scheme) user_code \<Rightarrow> nat \<Rightarrow> 'a sim_scheme \<Rightarrow> 'a sim_scheme option" where
  "run_threads u p s = do {
     (suspended, s1) \<leftarrow> u_thread u p s;
     (h, s2) \<leftarrow> next_cor (if suspended then observe (Point MON_THREAD_SUSPEND) s1 else s1);
     case h of None \<Rightarrow> Some s2 | Some q \<Rightarrow> run_threads u q s2 }"

text \<open>The method loop: whether it was left for an error, whether a method ran, the state.\<close>

partial_function (option) method_loop ::
  "('a sim_scheme) user_code \<Rightarrow> nat option \<Rightarrow> bool \<Rightarrow> 'a sim_scheme \<Rightarrow> (bool \<times> bool \<times> 'a sim_scheme) option" where
  "method_loop u h empty_eval s =
     (case h of
        None \<Rightarrow> Some (False, empty_eval, s)
      | Some p \<Rightarrow> do {
          (ok, s1) \<leftarrow> run_process u p s;
          let s2 = observe (Point MON_METHOD_SUSPEND) s1;
          if \<not> ok then Some (True, False, s2)
          else do { (h', s3) \<leftarrow> pop_runnable_method s2; method_loop u h' False s3 } })"

text \<open>One pass over the runnable methods, then the runnable threads.\<close>

definition evaluate_pass ::
  "('a sim_scheme) user_code \<Rightarrow> bool \<Rightarrow> 'a sim_scheme \<Rightarrow> (bool \<times> bool \<times> 'a sim_scheme) option" where
  "evaluate_pass u empty_eval s = do {
     s1 \<leftarrow> with_runnable toggle_methods s;
     (h, s2) \<leftarrow> pop_runnable_method s1;
     (out, e1, s3) \<leftarrow> method_loop u h empty_eval s2;
     if out then Some (True, e1, s3)
     else do {
       s4 \<leftarrow> with_runnable toggle_threads s3;
       (t, s5) \<leftarrow> next_thread s4;
       (e2, s6) \<leftarrow> (case t of
                      None \<Rightarrow> Some (e1, s5)
                    | Some q \<Rightarrow> map_option (\<lambda>s'. (False, s')) (run_threads u q s5));
       if m_error s6 then Some (True, e2, s6)
       else if m_forced_stop s6 \<and> stop_mode s6 = SC_STOP_IMMEDIATE then Some (True, e2, s6)
       else Some (False, e2, s6) } }"

partial_function (option) evaluate_loop ::
  "('a sim_scheme) user_code \<Rightarrow> bool \<Rightarrow> 'a sim_scheme \<Rightarrow> (bool \<times> bool \<times> 'a sim_scheme) option" where
  "evaluate_loop u empty_eval s = do {
     (out, e, s1) \<leftarrow> evaluate_pass u empty_eval s;
     if out then Some (True, e, s1)
     else do {
       idle \<leftarrow> is_empty (m_runnable s1);
       if idle then Some (False, e, s1) else evaluate_loop u e s1 } }"

section \<open>Delta cycles\<close>

text \<open>
  The delta notifications, from the last index to the first.  A trigger can cancel the zero
  timeout of a process that was waiting, which shortens the vector while the loop runs over it;
  reading an index beyond its end is outcome \<open>None\<close>.
\<close>

fun delta_loop :: "nat \<Rightarrow> 'a sim_scheme \<Rightarrow> 'a sim_scheme option" where
  "delta_loop 0 s = Some s"
| "delta_loop (Suc i) s =
     (if i < length (m_delta_events s)
      then do { s1 \<leftarrow> event_trigger (m_delta_events s ! i) s; delta_loop i s1 }
      else None)"

definition notify_deltas :: "'a sim_scheme \<Rightarrow> 'a sim_scheme option" where
  "notify_deltas s =
     (let size = length (m_delta_events s)
      in if size \<noteq> 0
         then do { s1 \<leftarrow> delta_loop size s; Some (s1\<lparr>m_delta_events := []\<rparr>) }
         else Some s)"

text \<open>How a delta cycle ends: control goes round again, the loop is left, or the \<^verbatim>\<open>goto\<close> is taken.\<close>

datatype cycle_end = Again | Break | Goto_out

text \<open>From the end of the evaluation phase to the end of the update phase.\<close>

definition update_part ::
  "('a sim_scheme) user_code \<Rightarrow> bool \<Rightarrow> 'a sim_scheme \<Rightarrow> 'a sim_scheme option" where
  "update_part u empty_eval s2 = do {
     let s3 = observe (Point MON_EVALUATION_PHASE_END) (s2\<lparr>m_collectable := []\<rparr>);
     let s4 = observe (Point MON_UPDATE_PHASE_BEGIN) (s3\<lparr>m_execution_phase := Phase_update\<rparr>);
     let s5 = (if \<not> empty_eval
               then s4\<lparr>m_change_stamp := m_change_stamp s4 + 1, m_delta_count := m_delta_count s4 + 1\<rparr>
               else s4);
     s6 \<leftarrow> perform_update (u_update u) s5;
     Some (observe (Point MON_UPDATE_PHASE_END) s6) }"

definition notify_part :: "bool \<Rightarrow> 'a sim_scheme \<Rightarrow> (cycle_end \<times> 'a sim_scheme) option" where
  "notify_part once s7 =
     (let s8 = observe (Point MON_DELTA_NOTIFY_PHASE_BEGIN) (s7\<lparr>m_execution_phase := Phase_notify\<rparr>)
      in if m_forced_stop s8 then Some (Break, s8)
         else do {
           s9 \<leftarrow> notify_deltas s8;
           let s10 = observe (Point MON_DELTA_NOTIFY_PHASE_END) s9;
           idle \<leftarrow> is_empty (m_runnable s10);
           Some (if idle \<or> m_paused s10 \<or> once then Break else Again, s10) })"

definition delta_cycle ::
  "('a sim_scheme) user_code \<Rightarrow> bool \<Rightarrow> 'a sim_scheme \<Rightarrow> (cycle_end \<times> 'a sim_scheme) option" where
  "delta_cycle u once s0 = do {
     (out, empty_eval, s2) \<leftarrow> evaluate_loop u True
       (observe (Point MON_EVALUATION_PHASE_BEGIN) (s0\<lparr>m_execution_phase := Phase_evaluate\<rparr>));
     if out then Some (Goto_out, s2)
     else do { s7 \<leftarrow> update_part u empty_eval s2; notify_part once s7 } }"

partial_function (option) delta_cycles ::
  "('a sim_scheme) user_code \<Rightarrow> bool \<Rightarrow> 'a sim_scheme \<Rightarrow> 'a sim_scheme option" where
  "delta_cycles u once s = do {
     (r, s1) \<leftarrow> delta_cycle u once s;
     if r = Again then delta_cycles u once s1 else Some s1 }"

text \<open>The flag: the error is thrown again.\<close>

definition crunch ::
  "('a sim_scheme) user_code \<Rightarrow> bool \<Rightarrow> 'a sim_scheme \<Rightarrow> (bool \<times> 'a sim_scheme) option" where
  "crunch u once s = do {
     s1 \<leftarrow> delta_cycles u once s;
     Some (m_error s1, reset_curr_proc s1) }"

section \<open>Stopping\<close>

definition registries ::
  "('a sim_scheme) user_code \<Rightarrow> phase_callback \<Rightarrow> 'a sim_scheme \<Rightarrow> 'a sim_scheme option" where
  "registries u cb s = do {
     (_, s1) \<leftarrow> u_ports u cb s;
     s2 \<leftarrow> registry_callbacks (u_channel u cb) s1;
     (_, s3) \<leftarrow> u_modules u cb s2;
     Some s3 }"

definition end_simulation :: "('a sim_scheme) user_code \<Rightarrow> 'a sim_scheme \<Rightarrow> 'a sim_scheme option" where
  "end_simulation u s = do {
     s1 \<leftarrow> registries u END_OF_SIMULATION
       (s\<lparr>m_simulation_status := SC_END_OF_SIMULATION, m_ready_to_simulate := False\<rparr>);
     Some (s1\<lparr>m_end_of_simulation_called := True\<rparr>) }"

definition do_sc_stop_action :: "('a sim_scheme) user_code \<Rightarrow> 'a sim_scheme \<Rightarrow> 'a sim_scheme option" where
  "do_sc_stop_action u s = do {
     s1 \<leftarrow> (if m_start_of_simulation_called s
            then map_option (\<lambda>t. t\<lparr>m_in_simulator_control := False\<rparr>) (end_simulation u s)
            else Some s);
     Some (s1\<lparr>m_simulation_status := SC_STOPPED\<rparr>) }"

text \<open>\<open>fm\<close> and \<open>ft\<close> are the queue heads that \<^verbatim>\<open>m_runnable->init()\<close> allocates when there are none.\<close>

definition stop :: "nat \<Rightarrow> nat \<Rightarrow> ('a sim_scheme) user_code \<Rightarrow> 'a sim_scheme \<Rightarrow> 'a sim_scheme option" where
  "stop fm ft u s =
     (if m_forced_stop s then Some s
      else do {
        s1 \<leftarrow> (if stop_mode s = SC_STOP_IMMEDIATE then with_runnable (runnable_init fm ft) s else Some s);
        let s2 = s1\<lparr>m_forced_stop := True\<rparr>;
        if \<not> m_in_simulator_control s2 then do_sc_stop_action u s2 else Some s2 })"

definition sc_pause :: "'a sim_scheme \<Rightarrow> 'a sim_scheme" where
  "sc_pause s = s\<lparr>m_paused := True\<rparr>"

definition sc_set_stop_mode :: "sc_stop_mode \<Rightarrow> 'a sim_scheme \<Rightarrow> 'a sim_scheme option" where
  "sc_set_stop_mode m s = (if sc_is_running s then None else Some (s\<lparr>stop_mode := m\<rparr>))"

section \<open>Elaboration and initialization\<close>

partial_function (option) construction_rounds ::
  "('a sim_scheme) user_code \<Rightarrow> 'a sim_scheme \<Rightarrow> (bool \<times> 'a sim_scheme) option" where
  "construction_rounds u s = do {
     (cd1, s1) \<leftarrow> u_ports u BEFORE_END_OF_ELABORATION s;
     (cd2, s2) \<leftarrow> registry_construction_done (u_channel u BEFORE_END_OF_ELABORATION) s1;
     (cd3, s3) \<leftarrow> u_modules u BEFORE_END_OF_ELABORATION s2;
     if m_forced_stop s3 then Some (True, s3)
     else if cd1 + of_bool cd2 + of_bool cd3 = 4 then Some (False, s3)
     else construction_rounds u s3 }"

definition elaborate :: "('a sim_scheme) user_code \<Rightarrow> 'a sim_scheme \<Rightarrow> 'a sim_scheme option" where
  "elaborate u s =
     (if m_elaboration_done s \<or> sim_status s \<noteq> SC_SIM_OK then Some s
      else do {
        (stopped, s1) \<leftarrow> construction_rounds u (s\<lparr>m_simulation_status := SC_BEFORE_END_OF_ELABORATION\<rparr>);
        if stopped then do_sc_stop_action u s1
        else do {
          s2 \<leftarrow> registries u END_OF_ELABORATION
            (s1\<lparr>m_elaboration_done := True, m_simulation_status := SC_END_OF_ELABORATION\<rparr>);
          if m_forced_stop s2 then do_sc_stop_action u s2 else Some s2 } })"

text \<open>The loops over the process table follow the \<^verbatim>\<open>m_exist_p\<close> links.\<close>

partial_function (option) over_table ::
  "(nat \<Rightarrow> 'a sim_scheme \<Rightarrow> 'a sim_scheme option) \<Rightarrow> ptr \<Rightarrow> 'a sim_scheme \<Rightarrow> 'a sim_scheme option" where
  "over_table f now s =
     (case now of
        Null \<Rightarrow> Some s
      | QEnd \<Rightarrow> None
      | Proc p \<Rightarrow> do { s1 \<leftarrow> f p s; over_table f (m_exist_p s1 p) s1 })"

definition prepare_for_simulation :: "nat \<Rightarrow> 'a sim_scheme \<Rightarrow> 'a sim_scheme" where
  "prepare_for_simulation p = upd_proc p (\<lambda>v. v\<lparr>m_has_cor := True\<rparr>)"

definition make_runnable ::
  "(nat \<Rightarrow> 'a sim_scheme \<Rightarrow> 'a sim_scheme option) \<Rightarrow> nat \<Rightarrow> 'a sim_scheme \<Rightarrow> 'a sim_scheme option" where
  "make_runnable push_front p s =
     (if ps_disabled (procs s p) \<or> m_dont_init (procs s p) then Some s
      else if \<not> ps_suspended (procs s p) then push_front p s
      else Some (upd_proc p (\<lambda>v. v\<lparr>ps_ready_to_run := True\<rparr>) s))"

definition initialization_phase ::
  "nat \<Rightarrow> nat \<Rightarrow> ('a sim_scheme) user_code \<Rightarrow> 'a sim_scheme \<Rightarrow> 'a sim_scheme option" where
  "initialization_phase fm ft u s0 = do {
     s1 \<leftarrow> over_table (\<lambda>p s. Some (prepare_for_simulation p s)) (m_thread_q (m_process_table s0)) s0;
     s2 \<leftarrow> with_runnable (runnable_init fm ft)
       (s1\<lparr>m_simulation_status := SC_RUNNING, m_ready_to_simulate := True\<rparr>);
     let s3 = (observe (Point MON_INIT_PHASE_BEGIN) s2)\<lparr>m_execution_phase := Phase_update\<rparr>;
     let s4 = observe (Point MON_INIT_UPDATE_PHASE_BEGIN) s3;
     s5 \<leftarrow> perform_update (u_update u) s4;
     let s6 = (observe (Point MON_INIT_UPDATE_PHASE_END) s5)\<lparr>m_execution_phase := Phase_notify\<rparr>;
     let s7 = observe (Point MON_INIT_DELTA_NOTIFY_PHASE_BEGIN) s6;
     s8 \<leftarrow> over_table (make_runnable push_runnable_method_front) (m_method_q (m_process_table s7)) s7;
     s9 \<leftarrow> over_table (make_runnable push_runnable_thread_front) (m_thread_q (m_process_table s8)) s8;
     s10 \<leftarrow> notify_deltas s9;
     Some (observe (Point MON_INIT_PHASE_END) (observe (Point MON_INIT_DELTA_NOTIFY_PHASE_END) s10)) }"

definition prepare_to_simulate ::
  "nat \<Rightarrow> nat \<Rightarrow> ('a sim_scheme) user_code \<Rightarrow> 'a sim_scheme \<Rightarrow> 'a sim_scheme option" where
  "prepare_to_simulate fm ft u s =
     (if m_ready_to_simulate s \<or> sim_status s \<noteq> SC_SIM_OK then Some s
      else do {
        s1 \<leftarrow> registries u START_OF_SIMULATION (s\<lparr>m_simulation_status := SC_START_OF_SIMULATION\<rparr>);
        let s2 = s1\<lparr>m_start_of_simulation_called := True\<rparr>;
        if m_forced_stop s2 then do_sc_stop_action u s2 else initialization_phase fm ft u s2 })"

definition initial_crunch ::
  "('a sim_scheme) user_code \<Rightarrow> bool \<Rightarrow> 'a sim_scheme \<Rightarrow> (bool \<times> 'a sim_scheme) option" where
  "initial_crunch u no_crunch s =
     (if no_crunch then Some (False, s)
      else do {
        idle \<leftarrow> is_empty (m_runnable s);
        if idle then Some (False, s)
        else do {
          (threw, s1) \<leftarrow> crunch u False s;
          if threw then Some (True, s1)
          else if m_forced_stop s1 then map_option (Pair False) (do_sc_stop_action u s1)
          else Some (False, s1) } })"

definition initialize ::
  "nat \<Rightarrow> nat \<Rightarrow> ('a sim_scheme) user_code \<Rightarrow> bool \<Rightarrow> 'a sim_scheme \<Rightarrow> (bool \<times> 'a sim_scheme) option" where
  "initialize fm ft u no_crunch s = do {
     s1 \<leftarrow> elaborate u (s\<lparr>m_in_simulator_control := True\<rparr>);
     s2 \<leftarrow> prepare_to_simulate fm ft u s1;
     (threw, s3) \<leftarrow> initial_crunch u no_crunch s2;
     Some (threw, if threw then s3 else s3\<lparr>m_in_simulator_control := False\<rparr>) }"

section \<open>Simulating\<close>

text \<open>All timed notifications for the time \<open>t\<close>.\<close>

partial_function (option) timed_batch :: "64 word \<Rightarrow> 'a sim_scheme \<Rightarrow> 'a sim_scheme option" where
  "timed_batch t s = do {
     (et, s1) \<leftarrow> timed_extract_top s;
     let e = et_event (et_mem s1 et);
     let s2 = delete_event_timed et s1;
     s3 \<leftarrow> (case e of None \<Rightarrow> Some s2 | Some v \<Rightarrow> event_trigger v s2);
     if pq_size (m_timed_events s3) > 0 \<and> et_notify_time (et_mem s3 (pq_top (m_timed_events s3))) = t
     then timed_batch t s3 else Some s3 }"

text \<open>Advances time until a process is runnable; the flag is the \<^verbatim>\<open>goto exit\<close>.\<close>

partial_function (option) time_loop ::
  "64 word \<Rightarrow> 64 word \<Rightarrow> 'a sim_scheme \<Rightarrow> (bool \<times> 64 word \<times> 'a sim_scheme) option" where
  "time_loop until_t t s =
     (case next_time s of
        (None, s1) \<Rightarrow> Some (True, t, s1)
      | (Some t1, s1) \<Rightarrow>
          if t1 > until_t then Some (True, t1, s1)
          else do {
            let s2 = (if t1 > m_curr_time s1
                      then s1\<lparr>m_curr_time := t1, m_change_stamp := m_change_stamp s1 + 1\<rparr> else s1);
            s3 \<leftarrow> timed_batch t1 (observe (Point MON_TIMED_NOTIFY_PHASE_BEGIN) s2);
            idle \<leftarrow> is_empty (m_runnable s3);
            if idle then time_loop until_t t1 s3 else Some (False, t1, s3) })"

definition simulate_exit :: "64 word \<Rightarrow> 64 word \<Rightarrow> 'a sim_scheme \<Rightarrow> 'a sim_scheme" where
  "simulate_exit until_t t s =
     (let s1 = (if t > m_curr_time s \<and> t \<le> until_t
                then s\<lparr>m_curr_time := t, m_change_stamp := m_change_stamp s + 1\<rparr> else s)
      in s1\<lparr>m_in_simulator_control := False\<rparr>)"

partial_function (option) simulate_loop ::
  "('a sim_scheme) user_code \<Rightarrow> 64 word \<Rightarrow> 'a sim_scheme \<Rightarrow> (bool \<times> 'a sim_scheme) option" where
  "simulate_loop u until_t s = do {
     (threw, s1) \<leftarrow> crunch u False s;
     if threw then Some (True, s1)
     else if m_forced_stop s1 then map_option (Pair False) (do_sc_stop_action u s1)
     else if m_paused s1 then Some (False, s1\<lparr>m_in_simulator_control := False\<rparr>)
     else do {
       (out, t, s2) \<leftarrow> time_loop until_t (m_curr_time s1) s1;
       if out then Some (False, simulate_exit until_t t s2)
       else let s3 = observe (Point MON_TIMED_NOTIFY_PHASE_END) s2
            in if t < until_t then simulate_loop u until_t s3
               else Some (False, simulate_exit until_t t s3) } }"

definition simulate ::
  "nat \<Rightarrow> nat \<Rightarrow> ('a sim_scheme) user_code \<Rightarrow> 64 word \<Rightarrow> 'a sim_scheme \<Rightarrow> (bool \<times> 'a sim_scheme) option" where
  "simulate fm ft u duration s = do {
     (threw, s1) \<leftarrow> initialize fm ft u True s;
     if threw then Some (True, s1)
     else if sim_status s1 \<noteq> SC_SIM_OK then Some (False, s1)
     else if duration > - 1 - m_curr_time s1 then Some (True, s1)
     else do {
       let s2 = s1\<lparr>m_in_simulator_control := True, m_paused := False\<rparr>;
       if duration = 0
       then do {
         (threw2, s3) \<leftarrow> crunch u True s2;
         if threw2 then Some (True, s3)
         else do {
           s4 \<leftarrow> (if m_forced_stop s3 then do_sc_stop_action u s3 else Some s3);
           Some (False, s4\<lparr>m_in_simulator_control := False\<rparr>) } }
       else simulate_loop u (m_curr_time s2 + duration) s2 } }"

datatype sc_starvation_policy = SC_EXIT_ON_STARVATION | SC_RUN_TO_TIME

definition sc_start ::
  "nat \<Rightarrow> nat \<Rightarrow> ('a sim_scheme) user_code \<Rightarrow> 64 word \<Rightarrow> sc_starvation_policy \<Rightarrow> 'a sim_scheme \<Rightarrow>
   (bool \<times> 'a sim_scheme) option" where
  "sc_start fm ft u duration p s =
     (let exit_time = (if p = SC_RUN_TO_TIME then m_curr_time s + duration else 0)
      in if sim_status s \<noteq> SC_SIM_OK then Some (True, s)
         else do {
           (threw, s1) \<leftarrow> simulate fm ft u duration s;
           Some (threw,
             if \<not> threw \<and> p = SC_RUN_TO_TIME \<and> \<not> m_paused s1 \<and> sim_status s1 = SC_SIM_OK
             then s1\<lparr>m_curr_time := exit_time\<rparr> else s1) })"

definition sc_start_forever ::
  "nat \<Rightarrow> nat \<Rightarrow> ('a sim_scheme) user_code \<Rightarrow> 'a sim_scheme \<Rightarrow> (bool \<times> 'a sim_scheme) option" where
  "sc_start_forever fm ft u s = sc_start fm ft u (- 1 - m_curr_time s) SC_EXIT_ON_STARVATION s"

definition cycle :: "('a sim_scheme) user_code \<Rightarrow> 64 word \<Rightarrow> 'a sim_scheme \<Rightarrow> (bool \<times> 'a sim_scheme) option" where
  "cycle u t s = do {
     (threw, s1) \<leftarrow> crunch u False (s\<lparr>m_in_simulator_control := True\<rparr>);
     if threw then Some (True, s1)
     else let (r, s2) = next_time (s1\<lparr>m_curr_time := m_curr_time s1 + t\<rparr>)
          in Some (False, s2\<lparr>m_in_simulator_control := False\<rparr>) }"

section \<open>Activity and dynamic processes\<close>

definition pending_activity_at_current_time :: "'a sim_scheme \<Rightarrow> bool option" where
  "pending_activity_at_current_time s =
     (if m_delta_events s \<noteq> [] then Some True
      else do {
        run \<leftarrow> (if is_initialized (m_runnable s) then map_option Not (is_empty (m_runnable s)) else Some False);
        Some (run \<or> pending_updates s) })"

definition sc_time_to_pending_activity :: "'a sim_scheme \<Rightarrow> (64 word \<times> 'a sim_scheme) option" where
  "sc_time_to_pending_activity s = do {
     now \<leftarrow> pending_activity_at_current_time s;
     if now then Some (0, s)
     else let (r, s1) = next_time s
          in Some ((case r of None \<Rightarrow> - 1 | Some t \<Rightarrow> t) - time_stamp s1, s1) }"

definition create_method_process :: "nat \<Rightarrow> sc_process \<Rightarrow> 'a sim_scheme \<Rightarrow> 'a sim_scheme option" where
  "create_method_process p v s0 =
     (let s = s0\<lparr>procs := (procs s0)(p := v)\<rparr>
      in if m_ready_to_simulate s
         then if \<not> m_dont_init v then push_runnable_method p s else Some s
         else let (tab, ex) = table_push_front_method p (m_process_table s) (m_exist_p s)
              in Some (s\<lparr>m_process_table := tab, m_exist_p := ex\<rparr>))"

definition create_thread_process :: "nat \<Rightarrow> sc_process \<Rightarrow> 'a sim_scheme \<Rightarrow> 'a sim_scheme option" where
  "create_thread_process p v s0 =
     (let s = s0\<lparr>procs := (procs s0)(p := v)\<rparr>
      in if m_ready_to_simulate s
         then let s1 = prepare_for_simulation p s
              in if \<not> m_dont_init v then push_runnable_thread p s1 else Some s1
         else let (tab, ex) = table_push_front_thread p (m_process_table s) (m_exist_p s)
              in Some (s\<lparr>m_process_table := tab, m_exist_p := ex\<rparr>))"

definition create_cthread_process :: "nat \<Rightarrow> sc_process \<Rightarrow> 'a sim_scheme \<Rightarrow> 'a sim_scheme option" where
  "create_cthread_process p v s0 =
     (let s = s0\<lparr>procs := (procs s0)(p := v)\<rparr>
      in if m_ready_to_simulate s then Some (prepare_for_simulation p s)
         else let (tab, ex) = table_push_front_thread p (m_process_table s) (m_exist_p s)
              in Some (s\<lparr>m_process_table := tab, m_exist_p := ex\<rparr>))"

section \<open>A small design\<close>

text \<open>
  Method 1 notifies event 6 after the delay \<open>d\<close>, method 2 is sensitive to it and does nothing;
  an observer watches the event.  Elaboration and initialization are over and method 1 is queued.
\<close>

definition demo_code :: "64 word \<Rightarrow> sim user_code" where
  "demo_code d =
     \<lparr>u_semantics = (\<lambda>p s. if p = 1 then map_option (Pair Returned) (notify_time 6 d s) else Some (Returned, s)),
      u_thread = (\<lambda>p s. Some (True, s)), u_update = (\<lambda>c s. Some s), u_channel = (\<lambda>cb c s. Some s),
      u_ports = (\<lambda>cb s. Some (2, s)), u_modules = (\<lambda>cb s. Some (True, s))\<rparr>"

definition demo_start :: sim where
  "demo_start = (upd_event 6 (\<lambda>v. v\<lparr>m_methods_static := [2], ev_observer := True\<rparr>) demo_sim)
     \<lparr>observer_attached := True, m_elaboration_done := True, m_ready_to_simulate := True,
      m_simulation_status := SC_RUNNING,
      m_runnable := the (push_back_method 1 (m_runnable demo_sim))\<rparr>"

lemma bind_weak_cong: "x = y \<Longrightarrow> Option.bind x f = Option.bind y f"
  by simp

lemmas queue_eval = pop_runnable_method_def pop_runnable_thread_def popped_def set_curr_proc_def
  reset_curr_proc_def pop_method_def pop_thread_def popping_methods_def popping_threads_def q_pop_def
  toggle_methods_def toggle_threads_def q_toggle_def on_threads_def is_empty_def q_is_empty_def

lemmas event_eval = notify_time_def notify_at_def notify_delta_def add_delta_event_def
  new_event_timed_def add_timed_event_def time_stamp_def event_trigger_def trigger_all.simps
  method_trigger_static_def trigger_dynamics_def trigger_dynamic_loop.simps observe_def is_runnable_def

lemmas crunch_eval = crunch_def delta_cycles.simps delta_cycle_def evaluate_loop.simps
  evaluate_pass_def method_loop.simps run_process.simps next_thread.simps update_part_def
  notify_part_def notify_deltas_def delta_loop.simps perform_update_def pending_async_updates_def
  update_loop.simps queue_eval event_eval push_eval demo_eval

lemmas eval_cong = bind_weak_cong if_weak_cong option.case_cong_weak

lemma demo_crunch:
  "\<exists>s'. crunch (demo_code 0) False demo_start = Some (False, s') \<and>
     \<not> m_forced_stop s' \<and> trace s' = map Point [MON_EVALUATION_PHASE_BEGIN, MON_METHOD_SUSPEND, MON_EVALUATION_PHASE_END,
       MON_UPDATE_PHASE_BEGIN, MON_UPDATE_PHASE_END, MON_DELTA_NOTIFY_PHASE_BEGIN] @ EventNotified 6 #
       map Point [MON_DELTA_NOTIFY_PHASE_END, MON_EVALUATION_PHASE_BEGIN, MON_METHOD_SUSPEND,
       MON_EVALUATION_PHASE_END, MON_UPDATE_PHASE_BEGIN, MON_UPDATE_PHASE_END,
       MON_DELTA_NOTIFY_PHASE_BEGIN, MON_DELTA_NOTIFY_PHASE_END]"
  by (simp add: crunch_eval demo_code_def demo_start_def cong: eval_cong)

end
