(* ===== verification/Sc_Order.thy ===== *)
theory Sc_Order
  imports Sc_Simcontext
begin

text \<open>
  Which methods an evaluation pass calls and in which order (kernel/sc_simcontext.cpp,
  kernel/sc_simcontext_int.h): first in first out, or a permutation chosen by \<^verbatim>\<open>rand\<close> when the
  random scheduler is enabled.
\<close>

section \<open>Noting the calls\<close>

record logged = sim +
  called :: "nat list"

definition noting :: "logged user_code \<Rightarrow> logged user_code" where
  "noting u = u\<lparr>u_semantics := (\<lambda>p s. map_option (\<lambda>(r, t). (r, t\<lparr>called := called s @ [p]\<rparr>)) (u_semantics u p s))\<rparr>"

text \<open>The methods return and only put processes at the back of the run queues.\<close>

definition appends :: "'a sim_scheme user_code \<Rightarrow> bool" where
  "appends u \<longleftrightarrow> (\<forall>p s hm ht R. refines (m_runnable s) hm ht R \<longrightarrow>
     (\<exists>t ms ts. u_semantics u p s = Some (Returned, t) \<and> ran_enable t = ran_enable s \<and>
        refines (m_runnable t) hm ht (appended R ms ts)))"

text \<open>One pop, in either mode.\<close>

lemma pop_runnable_method_refines:
  assumes R: "refines (m_runnable s) hm ht R" and small: "length (m_pop R) < 2 ^ 32"
  shows "\<exists>h ys zs q n. pop_runnable_method s = Some (h, s\<lparr>m_runnable := q, m_curr_proc := h, rand_pos := n\<rparr>) \<and>
    m_pop R = ys @ (case h of None \<Rightarrow> [] | Some p \<Rightarrow> [p]) @ zs \<and> (h = None \<longrightarrow> zs = []) \<and>
    (h = None \<or> \<not> ran_enable s \<longrightarrow> ys = []) \<and> refines q hm ht (R\<lparr>m_pop := ys @ zs\<rparr>)"
proof -
  let ?r = "rand_seq s (rand_pos s)"
  let ?c = "if ran_enable s then PopRandom ?r else Pop"
  let ?n = "if ran_enable s \<and> pop_q (methods (m_runnable s)) \<noteq> QEnd then rand_pos s + 1 else rand_pos s"
  have code: "pop_runnable_method s = popped (run_cmd (Methods ?c) (m_runnable s)) (s\<lparr>rand_pos := ?n\<rparr>)"
    by (simp add: pop_runnable_method_def use_rand_def)
  have ok: "cmd_ok hm ht (Methods ?c) R" using small by auto
  obtain q where q: "run_cmd (Methods ?c) (m_runnable s) = Some (fst (spec_cmd (Methods ?c) R), q)"
    "refines q hm ht (snd (spec_cmd (Methods ?c) R))"
    using run_cmd_refines [OF R ok] by blast
  show ?thesis
  proof (cases "m_pop R")
    case Nil
    then have "spec_cmd (Methods ?c) R = (None, R\<lparr>m_pop := []\<rparr>)" by simp
    with code q Nil show ?thesis
      by (intro exI [of _ None] exI [of _ "[]"] exI [of _ q] exI [of _ ?n])
        (simp add: popped_def reset_curr_proc_def)
  next
    case (Cons x xs)
    define k where "k = (if ran_enable s then ?r mod length (m_pop R) else 0)"
    let ?m = "m_pop R"
    have k: "k < length ?m" by (simp add: k_def Cons)
    have sp: "spec_cmd (Methods ?c) R = (Some (?m ! k), R\<lparr>m_pop := take k ?m @ drop (Suc k) ?m\<rparr>)"
      by (simp add: k_def Cons Let_def drop_nth_def)
    show ?thesis
      using code q sp k
      by (intro exI [of _ "Some (?m ! k)"] exI [of _ "take k ?m"] exI [of _ "drop (Suc k) ?m"]
          exI [of _ q] exI [of _ ?n])
        (auto simp: popped_def set_curr_proc_def id_take_nth_drop [symmetric] k_def)
  qed
qed

lemma run_process_noting:
  assumes "appends u" "refines (m_runnable s) hm ht R"
  shows "\<exists>t ms ts. run_process (noting u) p s = Some (True, t) \<and> ran_enable t = ran_enable s \<and>
    called t = called s @ [p] \<and> refines (m_runnable t) hm ht (appended R ms ts)"
proof -
  from assms obtain t ms ts where "u_semantics u p s = Some (Returned, t)" "ran_enable t = ran_enable s"
    "refines (m_runnable t) hm ht (appended R ms ts)" unfolding appends_def by blast
  then show ?thesis
    by (intro exI [of _ "t\<lparr>called := called s @ [p]\<rparr>"] exI [of _ ms] exI [of _ ts])
      (simp add: run_process.simps noting_def)
qed

lemma pass_runs:
  assumes u: "appends u"
  shows "refines (m_runnable s) hm ht R \<Longrightarrow> length (m_pop R) < 2 ^ 32 \<Longrightarrow>
    \<exists>h s1 e' t xs ms ts. pop_runnable_method s = Some (h, s1) \<and> method_loop (noting u) h e s1 = Some (False, e', t) \<and>
      called t = called s @ xs \<and> mset xs = mset (m_pop R) \<and> (\<not> ran_enable s \<longrightarrow> xs = m_pop R) \<and>
      refines (m_runnable t) hm ht (appended (R\<lparr>m_pop := []\<rparr>) ms ts)"
proof (induction "length (m_pop R)" arbitrary: R s e rule: less_induct)
  case less
  obtain h ys zs q n where pop: "pop_runnable_method s = Some (h, s\<lparr>m_runnable := q, m_curr_proc := h, rand_pos := n\<rparr>)"
    and m: "m_pop R = ys @ (case h of None \<Rightarrow> [] | Some p \<Rightarrow> [p]) @ zs" "h = None \<longrightarrow> zs = []"
      "h = None \<or> \<not> ran_enable s \<longrightarrow> ys = []"
    and q: "refines q hm ht (R\<lparr>m_pop := ys @ zs\<rparr>)"
    using pop_runnable_method_refines [OF less.prems] by blast
  let ?s1 = "s\<lparr>m_runnable := q, m_curr_proc := h, rand_pos := n\<rparr>"
  show ?case
  proof (cases h)
    case None
    then have "m_pop R = []" using m by simp
    moreover have "refines q hm ht (appended (R\<lparr>m_pop := []\<rparr>) [] [])" using q m None by simp
    ultimately show ?thesis
      using pop None by (auto simp: method_loop.simps simp del: appended_simps(1))
  next
    case (Some p)
    obtain t ms ts where t: "run_process (noting u) p ?s1 = Some (True, t)" "ran_enable t = ran_enable s"
      "called t = called s @ [p]" "refines (m_runnable t) hm ht (appended (R\<lparr>m_pop := ys @ zs\<rparr>) ms ts)"
      using run_process_noting [OF u, of ?s1 hm ht "R\<lparr>m_pop := ys @ zs\<rparr>" p] q by auto
    let ?t = "observe (Point MON_METHOD_SUSPEND) t"
    let ?R = "appended (R\<lparr>m_pop := ys @ zs\<rparr>) ms ts"
    have t': "refines (m_runnable ?t) hm ht ?R" "ran_enable ?t = ran_enable s" "called ?t = called s @ [p]"
      using t by (simp_all add: observe_def)
    have "length (m_pop ?R) < length (m_pop R)" "length (m_pop ?R) < 2 ^ 32"
      using m Some less.prems(2) by simp_all
    from less.hyps [OF this(1) t'(1) this(2)]
    obtain h' s2 e' t2 xs ms' ts' where rest: "pop_runnable_method ?t = Some (h', s2)"
      "method_loop (noting u) h' False s2 = Some (False, e', t2)" "called t2 = called ?t @ xs"
      "mset xs = mset (ys @ zs)" "\<not> ran_enable s \<longrightarrow> xs = ys @ zs"
      "refines (m_runnable t2) hm ht (appended (?R\<lparr>m_pop := []\<rparr>) ms' ts')"
      using t'(2) by fastforce
    have loop: "method_loop (noting u) h e ?s1 = Some (False, e', t2)"
      using t(1) rest(1,2) Some by (simp add: method_loop.simps)
    have "appended (?R\<lparr>m_pop := []\<rparr>) ms' ts' = appended (R\<lparr>m_pop := []\<rparr>) (ms @ ms') (ts @ ts')"
      by (simp add: appended_def)
    with rest(6) have R2: "refines (m_runnable t2) hm ht (appended (R\<lparr>m_pop := []\<rparr>) (ms @ ms') (ts @ ts'))"
      by simp
    have xs: "called t2 = called s @ p # xs" "mset (p # xs) = mset (m_pop R)"
      "\<not> ran_enable s \<longrightarrow> p # xs = m_pop R"
      using rest(3-5) t'(3) m Some by simp_all
    from pop loop xs R2 show ?thesis by blast
  qed
qed


text \<open>Two methods that return at once.\<close>

definition demo_logged :: logged where
  "demo_logged = sim.extend (demo_sim\<lparr>m_runnable := two_methods\<rparr>) \<lparr>called = []\<rparr>"

definition idle_code :: "logged user_code" where
  "idle_code = \<lparr>u_semantics = (\<lambda>p s. Some (Returned, s)), u_thread = (\<lambda>p s. Some (True, s)),
     u_update = (\<lambda>c s. Some s), u_channel = (\<lambda>cb c s. Some s), u_ports = (\<lambda>cb s. Some (2, s)),
     u_modules = (\<lambda>cb s. Some (True, s))\<rparr>"


end
