(* ===== verification/Sc_Sample_Points.thy ===== *)
theory Sc_Sample_Points
  imports Sc_Simcontext
begin

text \<open>
  The order of the calls to the observer during a simulation (kernel/sc_simcontext.cpp): an
  automaton of the sample points, and the proof that the simulation loop follows it.
\<close>

section \<open>The automaton of the sample points\<close>

datatype phase = Between | Evaluating | Evaluated | Updating | Updated | Notifying | Timing

definition phase_table :: "((phase \<times> sample_point) \<times> phase) list" where
  "phase_table =
     [((Between, MON_EVALUATION_PHASE_BEGIN), Evaluating),
      ((Evaluating, MON_METHOD_SUSPEND), Evaluating),
      ((Evaluating, MON_THREAD_SUSPEND), Evaluating),
      ((Evaluating, MON_EVALUATION_PHASE_END), Evaluated),
      ((Evaluated, MON_UPDATE_PHASE_BEGIN), Updating),
      ((Updating, MON_UPDATE_PHASE_END), Updated),
      ((Updated, MON_DELTA_NOTIFY_PHASE_BEGIN), Notifying),
      ((Notifying, MON_DELTA_NOTIFY_PHASE_END), Between),
      ((Between, MON_TIMED_NOTIFY_PHASE_BEGIN), Timing),
      ((Timing, MON_TIMED_NOTIFY_PHASE_BEGIN), Timing),
      ((Timing, MON_TIMED_NOTIFY_PHASE_END), Between)]"

text \<open>Events are notified in four of the phases.\<close>

fun phase_step :: "phase \<Rightarrow> sample \<Rightarrow> phase option" where
  "phase_step m (Point x) = map_of phase_table (m, x)"
| "phase_step m (EventNotified e) = (if m \<in> {Evaluating, Updating, Notifying, Timing} then Some m else None)"

fun phase_run :: "phase \<Rightarrow> sample list \<Rightarrow> phase option" where
  "phase_run m [] = Some m"
| "phase_run m (x # xs) = do { m1 \<leftarrow> phase_step m x; phase_run m1 xs }"

lemma phase_run_append: "phase_run m (xs @ ys) = do { m1 \<leftarrow> phase_run m xs; phase_run m1 ys }"
proof (induction xs arbitrary: m)
  case (Cons x xs)
  then show ?case by (cases "phase_step m x") auto
qed simp

lemma phase_run_events:
  "m \<in> {Evaluating, Updating, Notifying, Timing} \<Longrightarrow> phase_run m (map EventNotified es) = Some m"
  by (induction es) auto

text \<open>With an observer attached, the step from \<open>s\<close> to \<open>s'\<close> takes the automaton from \<open>m\<close> to \<open>m'\<close>.\<close>

definition goes :: "phase \<Rightarrow> phase \<Rightarrow> 'a sim_scheme \<Rightarrow> 'a sim_scheme \<Rightarrow> bool" where
  "goes m m' s s' \<longleftrightarrow> observer_attached s \<longrightarrow>
     observer_attached s' \<and> (\<exists>w. trace s' = trace s @ w \<and> phase_run m w = Some m')"

lemma goes_trans [trans]: "goes m1 m2 s s' \<Longrightarrow> goes m2 m3 s' s'' \<Longrightarrow> goes m1 m3 s s''"
  unfolding goes_def by (auto simp: phase_run_append)

lemma goes_observe: "phase_step m (Point x) = Some m' \<Longrightarrow> goes m m' s (observe (Point x) s)"
  by (auto simp: goes_def observe_def)

definition same_trace :: "'a sim_scheme \<Rightarrow> 'a sim_scheme \<Rightarrow> bool" where
  "same_trace s s' \<longleftrightarrow> trace s' = trace s \<and> observer_attached s' = observer_attached s"

lemma goes_same: "same_trace s s' \<Longrightarrow> goes m m s s'"
  by (simp add: goes_def same_trace_def)

text \<open>Only notified events are reported between \<open>s\<close> and \<open>s'\<close>.\<close>

definition tells :: "'a sim_scheme \<Rightarrow> 'a sim_scheme \<Rightarrow> bool" where
  "tells s s' \<longleftrightarrow> observer_attached s' = observer_attached s \<and> (\<exists>es. trace s' = trace s @ map EventNotified es)"

lemma tells_refl [simp]: "tells s s"
  by (simp add: tells_def)

lemma tells_trans: "tells s s' \<Longrightarrow> tells s' s'' \<Longrightarrow> tells s s''"
  unfolding tells_def by (metis append_assoc map_append)

lemma goes_tells: "tells s s' \<Longrightarrow> m \<in> {Evaluating, Updating, Notifying, Timing} \<Longrightarrow> goes m m s s'"
  using phase_run_events by (auto simp: tells_def goes_def)

section \<open>What triggers leave alone\<close>

text \<open>
  A trigger reports only events and leaves the flags of the simulation loop, the current time
  and the queue of timed notifications' time alone.
\<close>

definition loop_flags :: "'a sim_scheme \<Rightarrow> bool \<times> sc_stop_mode \<times> bool \<times> bool \<times> 64 word \<times> execution_phase" where
  "loop_flags s = (m_forced_stop s, stop_mode s, m_error s, m_paused s, m_curr_time s, m_execution_phase s)"

definition triggers :: "'a sim_scheme \<Rightarrow> 'a sim_scheme \<Rightarrow> bool" where
  "triggers s s' \<longleftrightarrow> tells s s' \<and> loop_flags s' = loop_flags s"

lemma cancel_time:
  assumes "cancel e k = Some k'"
  shows "m_curr_time k' = m_curr_time k \<and> m_execution_phase k' = m_execution_phase k"
proof -
  have "m_curr_time k1 = m_curr_time k \<and> m_execution_phase k1 = m_execution_phase k" if "remove_delta_event e k = Some k1" for k1
    using that by (auto simp: remove_delta_event_def Let_def split: if_splits)
  moreover have "m_curr_time k1 = m_curr_time k \<and> m_execution_phase k1 = m_execution_phase k" if "drop_timed e k = Some k1" for k1
    using that by (auto simp: drop_timed_def split: option.splits)
  ultimately show ?thesis using assms
    by (auto simp: cancel_def split: notify_t.splits Option.bind_splits)
qed

lemma triggers_kernel:
  fixes s :: "'a sim_scheme"
  assumes "kernel.more s' = kernel.more s" "m_curr_time s' = m_curr_time s" "m_execution_phase s' = m_execution_phase s"
  shows "triggers s s'"
  using assms by (cases s; cases s') (simp add: triggers_def tells_def loop_flags_def)

lemma triggers_sim:
  "trace s' = trace s \<Longrightarrow> observer_attached s' = observer_attached s \<Longrightarrow> loop_flags s' = loop_flags s \<Longrightarrow> triggers s s'"
  by (simp add: triggers_def tells_def)

interpretation triggers: trigger_frame triggers
proof
  show "triggers s s''" if "triggers s s'" "triggers s' s''" for s s' s'' :: "'a sim_scheme"
    using that tells_trans by (auto simp: triggers_def)
  show "triggers s (upd_event e f s)" for s :: "'a sim_scheme" and e f
    by (rule triggers_kernel) simp_all
  show "triggers s s'" if "cancel e s = Some s'" for s s' :: "'a sim_scheme" and e
    using that cancel_more cancel_time by (intro triggers_kernel) blast+
  show "triggers s s'" if "push_runnable_method p s = Some s'" for s s' :: "'a sim_scheme" and p
    using that by (intro triggers_sim) (auto simp: push_runnable_method_def with_runnable_def loop_flags_def)
  show "triggers s s'" if "push_runnable_thread p s = Some s'" for s s' :: "'a sim_scheme" and p
    using that by (intro triggers_sim) (auto simp: push_runnable_thread_def with_runnable_def loop_flags_def)
  show "triggers s (s\<lparr>trace := trace s @ [EventNotified e]\<rparr>)" for s :: "'a sim_scheme" and e
    by (auto simp: triggers_def tells_def loop_flags_def intro: exI [of _ "[e]"])
qed (rule triggers_sim; simp add: loop_flags_def)+

lemma triggers_delta_loop: "delta_loop n s = Some s' \<Longrightarrow> triggers s s'"
proof (induction n arbitrary: s)
  case (Suc n)
  then obtain s1 where "event_trigger (m_delta_events s ! n) s = Some s1" "delta_loop n s1 = Some s'"
    by (auto split: if_splits Option.bind_splits)
  with Suc.IH show ?case using triggers.T_event_trigger triggers.R_trans by blast
qed (simp add: triggers.R_refl)

lemma triggers_notify_deltas: "notify_deltas s = Some s' \<Longrightarrow> triggers s s'"
proof -
  have "triggers t (t\<lparr>m_delta_events := []\<rparr>)" for t :: "'a sim_scheme"
    by (rule triggers_sim) (simp_all add: loop_flags_def)
  then show "notify_deltas s = Some s' \<Longrightarrow> triggers s s'" for s s' :: "'a sim_scheme"
    using triggers_delta_loop triggers.R_refl triggers.R_trans
    by (fastforce simp: notify_deltas_def Let_def split: if_splits Option.bind_splits)
qed

section \<open>The evaluation phase\<close>

text \<open>The design reaches the observer only through the events it notifies, and its update methods
  do not raise an error.\<close>

definition well_behaved :: "('a sim_scheme) user_code \<Rightarrow> bool" where
  "well_behaved u \<longleftrightarrow>
     (\<forall>p s r s'. u_semantics u p s = Some (r, s') \<longrightarrow> tells s s') \<and>
     (\<forall>p s b s'. u_thread u p s = Some (b, s') \<longrightarrow> tells s s') \<and>
     (\<forall>c s s'. u_update u c s = Some s' \<longrightarrow> tells s s' \<and> m_error s' = m_error s)"

lemma same_trace_popped: "popped r s = Some (h, s') \<Longrightarrow> same_trace s s' \<and> m_error s' = m_error s"
  by (auto simp: popped_def same_trace_def reset_curr_proc_def set_curr_proc_def split: option.splits)

lemma same_trace_pop_method: "pop_runnable_method s = Some (h, s') \<Longrightarrow> same_trace s s' \<and> m_error s' = m_error s"
  by (auto simp: pop_runnable_method_def use_rand_def same_trace_def split: if_splits dest!: same_trace_popped)

lemma same_trace_pop_thread: "pop_runnable_thread s = Some (h, s') \<Longrightarrow> same_trace s s' \<and> m_error s' = m_error s"
  by (auto simp: pop_runnable_thread_def use_rand_def same_trace_def split: if_splits dest!: same_trace_popped)

lemma same_trace_next_thread:
  assumes "next_thread s = Some r"
  shows "same_trace s (snd r)"
proof (rule next_thread.raw_induct [where P = "\<lambda>s r. same_trace s (snd r)", OF _ assms])
  fix f and s :: "'a sim_scheme" and r
  assume IH: "\<And>s r. f s = Some r \<Longrightarrow> same_trace s (snd r)"
    and b: "(do { (h, s1) \<leftarrow> pop_runnable_thread s;
      case h of None \<Rightarrow> Some (None, s1)
      | Some p \<Rightarrow> if m_has_cor (procs s1 p) then Some (Some p, s1) else f s1 }) = Some r"
  then obtain h s1 where s1: "pop_runnable_thread s = Some (h, s1)"
    by (auto split: Option.bind_splits)
  have "same_trace s s1" using same_trace_pop_thread [OF s1] by simp
  moreover have "r = (h, s1) \<or> f s1 = Some r" using b s1 by (cases h) (auto split: if_splits)
  ultimately show "same_trace s (snd r)" using IH [of s1 r] by (auto simp: same_trace_def)
qed

lemma same_trace_next_cor: "next_cor s = Some (h, s') \<Longrightarrow> same_trace s s'"
  using same_trace_next_thread [of s "(h, s')"] by (auto simp: next_cor_def same_trace_def split: if_splits)

lemma run_process_tells:
  assumes w: "well_behaved u" and r: "run_process u p s = Some r"
  shows "tells s (snd r) \<and> (\<not> fst r \<longrightarrow> m_error (snd r))"
proof -
  have "well_behaved u \<longrightarrow> tells s (snd r) \<and> (\<not> fst r \<longrightarrow> m_error (snd r))"
  proof (rule run_process.raw_induct [where P = "\<lambda>u p s r. well_behaved u \<longrightarrow> tells s (snd r) \<and> (\<not> fst r \<longrightarrow> m_error (snd r))", OF _ r])
    fix f and u :: "'a sim_scheme user_code" and p s r
    assume IH: "\<And>u p s r. f u p s = Some r \<Longrightarrow> well_behaved u \<longrightarrow> tells s (snd r) \<and> (\<not> fst r \<longrightarrow> m_error (snd r))"
      and b: "(do { (res, s1) \<leftarrow> u_semantics u p s;
        case res of Returned \<Rightarrow> Some (True, s1)
        | Unwound reset \<Rightarrow> let s2 = upd_proc p (\<lambda>v. fst (clear_unwinding v)) s1
            in if reset then f u p s2 else Some (True, s2)
        | Threw \<Rightarrow> Some (False, s1\<lparr>m_error := True\<rparr>) }) = Some r"
    show "well_behaved u \<longrightarrow> tells s (snd r) \<and> (\<not> fst r \<longrightarrow> m_error (snd r))"
    proof
      assume u: "well_behaved u"
      obtain res s1 where s1: "u_semantics u p s = Some (res, s1)" using b by (auto split: Option.bind_splits)
      have t1: "tells s s1" using u s1 by (auto simp: well_behaved_def)
      let ?s2 = "upd_proc p (\<lambda>v. fst (clear_unwinding v)) s1"
      have t2: "tells s ?s2" using t1 by (simp add: tells_def)
      show "tells s (snd r) \<and> (\<not> fst r \<longrightarrow> m_error (snd r))"
      proof (cases res)
        case (Unwound reset)
        with b s1 have "f u p ?s2 = Some r \<or> r = (True, ?s2)" by (auto simp: Let_def split: if_splits)
        then show ?thesis using IH [of u p ?s2 r] u t2 tells_trans [OF t2] by auto
      qed (use b s1 t1 in \<open>auto simp: tells_def\<close>)
    qed
  qed
  with w show ?thesis by simp
qed

lemma run_threads_goes:
  assumes w: "well_behaved u" and r: "run_threads u p s = Some s'"
  shows "goes Evaluating Evaluating s s'"
proof -
  have "well_behaved u \<longrightarrow> goes Evaluating Evaluating s s'"
  proof (rule run_threads.raw_induct [where P = "\<lambda>u p s s'. well_behaved u \<longrightarrow> goes Evaluating Evaluating s s'", OF _ r])
    fix f and u :: "'a sim_scheme user_code" and p s s'
    assume IH: "\<And>u p s s'. f u p s = Some s' \<Longrightarrow> well_behaved u \<longrightarrow> goes Evaluating Evaluating s s'"
      and b: "(do { (suspended, s1) \<leftarrow> u_thread u p s;
        (h, s2) \<leftarrow> next_cor (if suspended then observe (Point MON_THREAD_SUSPEND) s1 else s1);
        case h of None \<Rightarrow> Some s2 | Some q \<Rightarrow> f u q s2 }) = Some s'"
    show "well_behaved u \<longrightarrow> goes Evaluating Evaluating s s'"
    proof
      assume u: "well_behaved u"
      obtain b1 s1 where s1: "u_thread u p s = Some (b1, s1)" using b by (auto split: Option.bind_splits)
      let ?s1 = "if b1 then observe (Point MON_THREAD_SUSPEND) s1 else s1"
      obtain h s2 where s2: "next_cor ?s1 = Some (h, s2)" using b s1 by (auto split: Option.bind_splits)
      have "tells s s1" using u s1 by (auto simp: well_behaved_def)
      then have "goes Evaluating Evaluating s s1" by (rule goes_tells) simp
      also have "goes Evaluating Evaluating s1 ?s1"
        using goes_observe [of Evaluating MON_THREAD_SUSPEND Evaluating s1] goes_same [of s1 s1 Evaluating]
        by (simp add: same_trace_def phase_table_def)
      also have "goes Evaluating Evaluating ?s1 s2" using same_trace_next_cor [OF s2] by (rule goes_same)
      finally have g: "goes Evaluating Evaluating s s2" .
      have "s' = s2 \<or> (\<exists>q. f u q s2 = Some s')" using b s1 s2 by (cases h) auto
      then show "goes Evaluating Evaluating s s'" using g IH u goes_trans by blast
    qed
  qed
  with w show ?thesis by simp
qed

lemma method_loop_goes:
  assumes w: "well_behaved u" and r: "method_loop u h e s = Some r"
  shows "goes Evaluating Evaluating s (snd (snd r)) \<and> (fst r \<longrightarrow> m_error (snd (snd r)))"
proof -
  let ?P = "\<lambda>u (h :: nat option) (e :: bool) s r. well_behaved u \<longrightarrow>
    goes Evaluating Evaluating s (snd (snd r)) \<and> (fst r \<longrightarrow> m_error (snd (snd r)))"
  have "?P u h e s r"
  proof (rule method_loop.raw_induct [where P = ?P, OF _ r])
    fix f and u :: "'a sim_scheme user_code" and h e s r
    assume IH: "\<And>u h e s r. f u h e s = Some r \<Longrightarrow> ?P u h e s r"
      and b: "(case h of None \<Rightarrow> Some (False, e, s)
        | Some p \<Rightarrow> do { (ok, s1) \<leftarrow> run_process u p s;
            let s2 = observe (Point MON_METHOD_SUSPEND) s1;
            if \<not> ok then Some (True, False, s2)
            else do { (h', s3) \<leftarrow> pop_runnable_method s2; f u h' False s3 } }) = Some r"
    show "?P u h e s r"
    proof (cases h)
      case None
      with b show ?thesis by (auto intro: goes_same simp: same_trace_def)
    next
      case (Some p)
      show ?thesis
      proof
        assume u: "well_behaved u"
        obtain ok s1 where s1: "run_process u p s = Some (ok, s1)"
          using b Some by (auto split: Option.bind_splits)
        let ?s2 = "observe (Point MON_METHOD_SUSPEND) s1"
        have g: "goes Evaluating Evaluating s ?s2"
          using run_process_tells [OF u s1] goes_tells [of s s1 Evaluating]
            goes_observe [of Evaluating MON_METHOD_SUSPEND Evaluating s1] goes_trans
          by (fastforce simp: phase_table_def)
        show "goes Evaluating Evaluating s (snd (snd r)) \<and> (fst r \<longrightarrow> m_error (snd (snd r)))"
        proof (cases ok)
          case False
          with b Some s1 have "r = (True, False, ?s2)" by simp
          with g run_process_tells [OF u s1] False show ?thesis by (simp add: observe_def)
        next
          case True
          with b Some s1 obtain h' s3 where s3: "pop_runnable_method ?s2 = Some (h', s3)" "f u h' False s3 = Some r"
            by (auto simp: Let_def split: Option.bind_splits)
          have "goes Evaluating Evaluating ?s2 s3" using same_trace_pop_method [OF s3(1)] goes_same by blast
          with IH [OF s3(2)] u g show ?thesis using goes_trans by blast
        qed
      qed
    qed
  qed
  with w show ?thesis by simp
qed

definition stops_now :: "'a sim_scheme \<Rightarrow> bool" where
  "stops_now s \<longleftrightarrow> m_error s \<or> m_forced_stop s \<and> stop_mode s = SC_STOP_IMMEDIATE"

lemma same_trace_with_runnable: "with_runnable f s = Some s' \<Longrightarrow> same_trace s s'"
  by (auto simp: with_runnable_def same_trace_def)

lemma evaluate_pass_goes:
  assumes w: "well_behaved u" and r: "evaluate_pass u e s = Some (out, e', s')"
  shows "goes Evaluating Evaluating s s' \<and> (if out then stops_now s' else \<not> m_error s')"
proof -
  obtain s1 h s2 out1 e1 s3 where
    1: "with_runnable toggle_methods s = Some s1" "pop_runnable_method s1 = Some (h, s2)"
      "method_loop u h e s2 = Some (out1, e1, s3)"
    and rest: "(if out1 then Some (True, e1, s3)
     else do {
       s4 \<leftarrow> with_runnable toggle_threads s3;
       (t, s5) \<leftarrow> next_thread s4;
       (e2, s6) \<leftarrow> (case t of
                      None \<Rightarrow> Some (e1, s5)
                    | Some q \<Rightarrow> map_option (\<lambda>s'. (False, s')) (run_threads u q s5));
       if m_error s6 then Some (True, e2, s6)
       else if m_forced_stop s6 \<and> stop_mode s6 = SC_STOP_IMMEDIATE then Some (True, e2, s6)
       else Some (False, e2, s6) }) = Some (out, e', s')"
    using r by (auto simp: evaluate_pass_def split: Option.bind_splits)
  have "goes Evaluating Evaluating s s1" using 1(1) by (intro goes_same same_trace_with_runnable)
  also have "goes Evaluating Evaluating s1 s2" using same_trace_pop_method [OF 1(2)] goes_same by blast
  also have "goes Evaluating Evaluating s2 s3" using method_loop_goes [OF w 1(3)] by simp
  finally have g: "goes Evaluating Evaluating s s3" .
  show ?thesis
  proof (cases out1)
    case True
    with rest g method_loop_goes [OF w 1(3)] show ?thesis by (simp add: stops_now_def)
  next
    case False
    then obtain s4 t s5 e2 s6 where
      2: "with_runnable toggle_threads s3 = Some s4" "next_thread s4 = Some (t, s5)"
        "(case t of None \<Rightarrow> Some (e1, s5)
          | Some q \<Rightarrow> map_option (\<lambda>s'. (False, s')) (run_threads u q s5)) = Some (e2, s6)"
      and last: "(if m_error s6 then Some (True, e2, s6)
       else if m_forced_stop s6 \<and> stop_mode s6 = SC_STOP_IMMEDIATE then Some (True, e2, s6)
       else Some (False, e2, s6)) = Some (out, e', s')"
      using rest by (auto split: Option.bind_splits)
    have "goes Evaluating Evaluating s3 s4" using 2(1) by (intro goes_same same_trace_with_runnable)
    also have "goes Evaluating Evaluating s4 s5" using same_trace_next_thread [OF 2(2)] goes_same by simp
    also have "goes Evaluating Evaluating s5 s6"
    proof (cases t)
      case None
      with 2(3) show ?thesis by (simp add: goes_same same_trace_def)
    next
      case (Some q)
      with 2(3) run_threads_goes [OF w, of q s5] show ?thesis by auto
    qed
    finally have "goes Evaluating Evaluating s s6" using g goes_trans by blast
    with last show ?thesis by (auto simp: stops_now_def split: if_splits)
  qed
qed

lemma evaluate_loop_goes:
  assumes w: "well_behaved u" and r: "evaluate_loop u e s = Some r"
  shows "goes Evaluating Evaluating s (snd (snd r)) \<and>
    (if fst r then stops_now (snd (snd r)) else \<not> m_error (snd (snd r)))"
proof -
  let ?P = "\<lambda>u (e :: bool) s r. well_behaved u \<longrightarrow> goes Evaluating Evaluating s (snd (snd r)) \<and>
    (if fst r then stops_now (snd (snd r)) else \<not> m_error (snd (snd r)))"
  have "?P u e s r"
  proof (rule evaluate_loop.raw_induct [where P = ?P, OF _ r])
    fix f and u :: "'a sim_scheme user_code" and e s r
    assume IH: "\<And>u e s r. f u e s = Some r \<Longrightarrow> ?P u e s r"
      and b: "(do { (out, e, s1) \<leftarrow> evaluate_pass u e s;
         if out then Some (True, e, s1)
         else do { idle \<leftarrow> is_empty (m_runnable s1); if idle then Some (False, e, s1) else f u e s1 } }) = Some r"
    then obtain out e1 s1 where s1: "evaluate_pass u e s = Some (out, e1, s1)"
      by (auto split: Option.bind_splits)
    with b have r: "r = (out, e1, s1) \<or> \<not> out \<and> f u e1 s1 = Some r"
      by (auto split: Option.bind_splits if_splits)
    show "?P u e s r"
    proof
      assume u: "well_behaved u"
      note p = evaluate_pass_goes [OF u s1]
      from r show "goes Evaluating Evaluating s (snd (snd r)) \<and>
        (if fst r then stops_now (snd (snd r)) else \<not> m_error (snd (snd r)))"
      proof
        assume "\<not> out \<and> f u e1 s1 = Some r"
        with IH [of u e1 s1 r] u p show ?thesis using goes_trans by blast
      qed (use p in simp)
    qed
  qed
  with w show ?thesis by simp
qed

section \<open>The update phase\<close>

lemma tells_update_loop:
  assumes w: "well_behaved u" and r: "update_loop (u_update u) now s = Some s'"
  shows "tells s s' \<and> m_error s' = m_error s"
proof -
  let ?P = "\<lambda>upd (now :: ptr) s s'. (\<forall>c s s'. upd c s = Some s' \<longrightarrow> tells s s' \<and> m_error s' = m_error s) \<longrightarrow>
    tells s s' \<and> m_error s' = m_error s"
  have "?P (u_update u) now s s'"
  proof (rule update_loop.raw_induct [where P = ?P, OF _ r])
    fix f :: "(nat \<Rightarrow> 'a sim_scheme \<Rightarrow> 'a sim_scheme option) \<Rightarrow> ptr \<Rightarrow> 'a sim_scheme \<Rightarrow> 'a sim_scheme option"
      and upd now s s'
    assume IH: "\<And>upd now s s'. f upd now s = Some s' \<Longrightarrow> ?P upd now s s'"
      and b: "(case now of Null \<Rightarrow> None | QEnd \<Rightarrow> Some s
        | Proc c \<Rightarrow> let next = m_update_next_p s c
            in do { s1 \<leftarrow> channel_perform_update upd c s; f upd next s1 }) = Some s'"
    show "?P upd now s s'"
    proof (cases now)
      case (Proc c)
      with b obtain s1 where s1: "channel_perform_update upd c s = Some s1" "f upd (m_update_next_p s c) s1 = Some s'"
        by (auto simp: Let_def split: Option.bind_splits)
      show ?thesis
      proof
        assume u: "\<forall>c s s'. upd c s = Some s' \<longrightarrow> tells s s' \<and> m_error s' = m_error s"
        have "tells s s1 \<and> m_error s1 = m_error s"
          using s1(1) u by (fastforce simp: channel_perform_update_def tells_def)
        with IH [OF s1(2)] u show "tells s s' \<and> m_error s' = m_error s" using tells_trans by metis
      qed
    qed (use b in auto)
  qed
  with w show ?thesis by (simp add: well_behaved_def)
qed

lemma accept_updates_trace: "same_trace s (accept_updates s) \<and> m_error (accept_updates s) = m_error s"
proof -
  have "same_trace s (foldl (\<lambda>t c. request_update c t) s cs) \<and>
    m_error (foldl (\<lambda>t c. request_update c t) s cs) = m_error s" for s :: "'a sim_scheme" and cs
    by (induction cs arbitrary: s) (auto simp: request_update_def same_trace_def)
  from this [of "s\<lparr>m_async_push_queue := []\<rparr>"] show ?thesis by (simp add: accept_updates_def same_trace_def)
qed

lemma perform_update_tells:
  assumes w: "well_behaved u" and r: "perform_update (u_update u) s = Some s'"
  shows "tells s s' \<and> m_error s' = m_error s"
proof -
  let ?s = "if pending_async_updates s then accept_updates s else s"
  have "same_trace s (?s\<lparr>m_update_list_p := QEnd\<rparr>) \<and> m_error (?s\<lparr>m_update_list_p := QEnd\<rparr>) = m_error s"
    using accept_updates_trace [of s] by (simp add: same_trace_def)
  moreover have "tells (?s\<lparr>m_update_list_p := QEnd\<rparr>) s' \<and> m_error s' = m_error (?s\<lparr>m_update_list_p := QEnd\<rparr>)"
    using tells_update_loop [OF w r [unfolded perform_update_def Let_def]] .
  ultimately show ?thesis by (simp add: tells_def same_trace_def)
qed

section \<open>Delta cycles\<close>

lemma update_part_goes:
  assumes w: "well_behaved u" and r: "update_part u e s2 = Some s7"
  shows "goes Evaluating Updated s2 s7 \<and> m_error s7 = m_error s2"
proof -
  define s3 where "s3 = observe (Point MON_EVALUATION_PHASE_END) (s2\<lparr>m_collectable := []\<rparr>)"
  define s4 where "s4 = observe (Point MON_UPDATE_PHASE_BEGIN) (s3\<lparr>m_execution_phase := Phase_update\<rparr>)"
  define s5 where "s5 = (if \<not> e
               then s4\<lparr>m_change_stamp := m_change_stamp s4 + 1, m_delta_count := m_delta_count s4 + 1\<rparr>
               else s4)"
  obtain s6 where s6: "perform_update (u_update u) s5 = Some s6"
    and s7: "s7 = observe (Point MON_UPDATE_PHASE_END) s6"
    using r unfolding update_part_def Let_def s3_def [symmetric] s4_def [symmetric] s5_def [symmetric]
    by (auto simp: bind_eq_Some_conv)
  have "goes Evaluating Evaluating s2 (s2\<lparr>m_collectable := []\<rparr>)" by (simp add: goes_same same_trace_def)
  also have "goes Evaluating Evaluated (s2\<lparr>m_collectable := []\<rparr>) s3" unfolding s3_def by (rule goes_observe) (simp add: phase_table_def)
  also have "goes Evaluated Evaluated s3 (s3\<lparr>m_execution_phase := Phase_update\<rparr>)" by (simp add: goes_same same_trace_def)
  also have "goes Evaluated Updating (s3\<lparr>m_execution_phase := Phase_update\<rparr>) s4" unfolding s4_def by (rule goes_observe) (simp add: phase_table_def)
  also have "goes Updating Updating s4 s5" by (simp add: s5_def goes_same same_trace_def)
  also have "goes Updating Updating s5 s6" using perform_update_tells [OF w s6] by (simp add: goes_tells)
  also have "goes Updating Updated s6 s7" unfolding s7 by (rule goes_observe) (simp add: phase_table_def)
  finally have "goes Evaluating Updated s2 s7" .
  moreover have "m_error s7 = m_error s2"
    using perform_update_tells [OF w s6] by (simp add: s7 s5_def s4_def s3_def observe_def)
  ultimately show ?thesis by simp
qed

lemma notify_part_goes:
  assumes r: "notify_part once s7 = Some (k, s')"
  shows "goes Updated (if m_forced_stop s' then Notifying else Between) s7 s' \<and> m_error s' = m_error s7 \<and>
    k \<noteq> Goto_out \<and> (k = Again \<longrightarrow> \<not> m_forced_stop s')"
proof -
  define s8 where "s8 = observe (Point MON_DELTA_NOTIFY_PHASE_BEGIN) (s7\<lparr>m_execution_phase := Phase_notify\<rparr>)"
  have "goes Updated Updated s7 (s7\<lparr>m_execution_phase := Phase_notify\<rparr>)" by (simp add: goes_same same_trace_def)
  also have "goes Updated Notifying (s7\<lparr>m_execution_phase := Phase_notify\<rparr>) s8" unfolding s8_def by (rule goes_observe) (simp add: phase_table_def)
  finally have g8: "goes Updated Notifying s7 s8" .
  have e8: "m_error s8 = m_error s7" by (simp add: s8_def observe_def)
  note body = r [unfolded notify_part_def Let_def, folded s8_def]
  show ?thesis
  proof (cases "m_forced_stop s8")
    case True
    with body g8 e8 show ?thesis by auto
  next
    case False
    then obtain s9 where s9: "notify_deltas s8 = Some s9"
      and s': "s' = observe (Point MON_DELTA_NOTIFY_PHASE_END) s9" "k \<in> {Break, Again}"
      using body by (auto simp: bind_eq_Some_conv)
    note t = triggers_notify_deltas [OF s9]
    have "goes Notifying Notifying s8 s9" using t by (simp add: triggers_def goes_tells)
    also have "goes Notifying Between s9 s'" unfolding s' by (rule goes_observe) (simp add: phase_table_def)
    finally have "goes Updated Between s7 s'" using g8 goes_trans by blast
    moreover have "\<not> m_forced_stop s'" "m_error s' = m_error s8"
      using t False by (simp_all add: s' triggers_def loop_flags_def observe_def)
    ultimately show ?thesis using s'(2) e8 by auto
  qed
qed

lemma delta_cycle_goes:
  assumes w: "well_behaved u" and r: "delta_cycle u once s = Some (k, s')"
  shows "(case k of
      Goto_out \<Rightarrow> goes Between Evaluating s s' \<and> stops_now s'
    | Again \<Rightarrow> goes Between Between s s' \<and> \<not> m_error s' \<and> \<not> m_forced_stop s'
    | Break \<Rightarrow> goes Between (if m_forced_stop s' then Notifying else Between) s s' \<and> \<not> m_error s')"
proof -
  let ?s1 = "observe (Point MON_EVALUATION_PHASE_BEGIN) (s\<lparr>m_execution_phase := Phase_evaluate\<rparr>)"
  obtain out e s2 where s2: "evaluate_loop u True ?s1 = Some (out, e, s2)"
    using r by (auto simp: delta_cycle_def split: Option.bind_splits)
  have "goes Between Between s (s\<lparr>m_execution_phase := Phase_evaluate\<rparr>)" by (simp add: goes_same same_trace_def)
  also have "goes Between Evaluating (s\<lparr>m_execution_phase := Phase_evaluate\<rparr>) ?s1" by (rule goes_observe) (simp add: phase_table_def)
  also have "goes Evaluating Evaluating ?s1 s2" using evaluate_loop_goes [OF w s2] by simp
  finally have g2: "goes Between Evaluating s s2" .
  show ?thesis
  proof (cases out)
    case True
    with r s2 g2 evaluate_loop_goes [OF w s2] show ?thesis by (simp add: delta_cycle_def)
  next
    case False
    then obtain s7 where s7: "update_part u e s2 = Some s7" "notify_part once s7 = Some (k, s')"
      using r s2 by (auto simp: delta_cycle_def split: Option.bind_splits)
    note up = update_part_goes [OF w s7(1)] and nt = notify_part_goes [OF s7(2)]
    have "goes Between (if m_forced_stop s' then Notifying else Between) s s'"
      using g2 up nt goes_trans by blast
    moreover have "\<not> m_error s'" using evaluate_loop_goes [OF w s2] False up nt by simp
    ultimately show ?thesis using nt by (cases k) auto
  qed
qed

definition crunch_phase :: "'a sim_scheme \<Rightarrow> phase \<Rightarrow> bool" where
  "crunch_phase s m \<longleftrightarrow>
     (m = Between \<longleftrightarrow> \<not> m_error s \<and> \<not> m_forced_stop s) \<and>
     (m = Evaluating \<longrightarrow> stops_now s) \<and> (m = Notifying \<longrightarrow> m_forced_stop s \<and> \<not> m_error s) \<and>
     m \<in> {Between, Evaluating, Notifying}"

lemma delta_cycles_goes:
  assumes w: "well_behaved u" and r: "delta_cycles u once s = Some s'"
  shows "\<exists>m. goes Between m s s' \<and> crunch_phase s' m"
proof -
  let ?P = "\<lambda>u (once :: bool) s s'. well_behaved u \<longrightarrow> (\<exists>m. goes Between m s s' \<and> crunch_phase s' m)"
  have "?P u once s s'"
  proof (rule delta_cycles.raw_induct [where P = ?P, OF _ r])
    fix f and u :: "'a sim_scheme user_code" and once s s'
    assume IH: "\<And>u once s s'. f u once s = Some s' \<Longrightarrow> ?P u once s s'"
      and b: "(do { (r, s1) \<leftarrow> delta_cycle u once s; if r = Again then f u once s1 else Some s1 }) = Some s'"
    show "?P u once s s'"
    proof
      assume u: "well_behaved u"
      obtain k s1 where s1: "delta_cycle u once s = Some (k, s1)" using b by (auto split: Option.bind_splits)
      note d = delta_cycle_goes [OF u s1]
      show "\<exists>m. goes Between m s s' \<and> crunch_phase s' m"
      proof (cases k)
        case Again
        with b s1 have "f u once s1 = Some s'" by simp
        with IH u d Again show ?thesis using goes_trans by fastforce
      next
        case Break
        with b s1 have "s' = s1" by simp
        with d Break show ?thesis
          by (intro exI [of _ "if m_forced_stop s1 then Notifying else Between"]) (simp add: crunch_phase_def)
      next
        case Goto_out
        with b s1 have "s' = s1" by simp
        with d Goto_out show ?thesis
          by (intro exI [of _ Evaluating]) (auto simp: crunch_phase_def stops_now_def)
      qed
    qed
  qed
  with w show ?thesis by simp
qed

text \<open>
  C2. The observer sees the phases of the delta cycles of \<^verbatim>\<open>crunch\<close> in order: evaluation with its
  suspensions and notified events, update, delta notification, and again.  A run that ends
  normally leaves no phase open; after \<^verbatim>\<open>sc_stop\<close> the delta notification phase stays open, or,
  like after an error, the evaluation phase when the stop is immediate.\<close>

theorem crunch_sample_points:
  assumes "well_behaved u" "observer_attached s" "crunch u once s = Some (threw, s')"
  shows "\<exists>w m. trace s' = trace s @ w \<and> phase_run Between w = Some m \<and> threw = m_error s' \<and>
    (m = Between \<longleftrightarrow> \<not> threw \<and> \<not> m_forced_stop s') \<and>
    (m = Evaluating \<longrightarrow> threw \<or> m_forced_stop s' \<and> stop_mode s' = SC_STOP_IMMEDIATE) \<and>
    (m = Notifying \<longrightarrow> m_forced_stop s' \<and> \<not> threw) \<and> m \<in> {Between, Evaluating, Notifying}"
proof -
  obtain s1 where s1: "delta_cycles u once s = Some s1" and s': "threw = m_error s1" "s' = reset_curr_proc s1"
    using assms(3) by (auto simp: crunch_def split: Option.bind_splits)
  obtain m where "goes Between m s s1" "crunch_phase s1 m" using delta_cycles_goes [OF assms(1) s1] by blast
  with assms(2) show ?thesis
    by (auto simp: s' goes_def crunch_phase_def stops_now_def reset_curr_proc_def)
qed

lemma notify_time_keeps:
  fixes s :: "'a sim_scheme"
  assumes "notify_time e t s = Some s'"
  shows "kernel.more s' = kernel.more s \<and> m_curr_time s' = m_curr_time s \<and> m_execution_phase s' = m_execution_phase s"
proof -
  have a: "kernel.more (notify_at e t k) = kernel.more k \<and> m_curr_time (notify_at e t k) = m_curr_time k \<and>
      m_execution_phase (notify_at e t k) = m_execution_phase k" for k :: "'a sim_scheme"
    by (simp add: notify_at_def new_event_timed_def et_allocate_def add_timed_event_def upd_event_def Let_def
        split: prod.split list.split)
  have d: "kernel.more (notify_delta e k) = kernel.more k \<and> m_curr_time (notify_delta e k) = m_curr_time k \<and>
      m_execution_phase (notify_delta e k) = m_execution_phase k" for k :: "'a sim_scheme"
    by (simp add: notify_delta_def add_delta_event_def upd_event_def)
  have "kernel.more k' = kernel.more k \<and> m_curr_time k' = m_curr_time k \<and> m_execution_phase k' = m_execution_phase k"
    if "drop_timed e k = Some k'" for k k' :: "'a sim_scheme"
    using that by (auto simp: drop_timed_def upd_event_def split: option.splits)
  with assms a d show ?thesis
    unfolding notify_time_def by (auto simp: bind_eq_Some_conv split: if_splits option.splits)
qed

lemma demo_code_triggers:
  "u_semantics (demo_code d) p s = Some (r, s') \<Longrightarrow> triggers s s'"
  by (auto simp: demo_code_def split: if_splits dest!: notify_time_keeps intro: triggers.R_refl triggers_kernel)

lemma demo_well_behaved: "well_behaved (demo_code d)"
  unfolding well_behaved_def using demo_code_triggers by (auto simp: triggers_def) (auto simp: demo_code_def)

theorem crunch_sample_points_witness:
  "\<exists>s'. crunch (demo_code 0) False demo_start = Some (False, s') \<and>
     (\<exists>w. trace s' = w \<and> length w = 15 \<and> phase_run Between w = Some Between)"
proof -
  obtain s' where s': "crunch (demo_code 0) False demo_start = Some (False, s')" "length (trace s') = 15"
    "\<not> m_forced_stop s'"
    using demo_crunch by auto
  have "observer_attached demo_start" "trace demo_start = []" by (simp_all add: demo_start_def demo_eval)
  with crunch_sample_points [OF demo_well_behaved, of demo_start 0 False False s'] s'
  show ?thesis by auto
qed

end
