(* ===== verification/Sc_Time.thy ===== *)
theory Sc_Time
  imports Sc_Sample_Points
begin

text \<open>
  Simulated time (kernel/sc_simcontext.cpp): relations between states that a whole run of the
  delta cycles respects, and with them the bounds on the current time at the end of
  \<^verbatim>\<open>simulate\<close>.
\<close>

section \<open>Relations that a run of delta cycles respects\<close>

definition obeys :: "('a sim_scheme \<Rightarrow> 'a sim_scheme \<Rightarrow> bool) \<Rightarrow> ('a sim_scheme) user_code \<Rightarrow> bool" where
  "obeys R u \<longleftrightarrow>
     (\<forall>p s r s'. u_semantics u p s = Some (r, s') \<longrightarrow> R s s') \<and>
     (\<forall>p s b s'. u_thread u p s = Some (b, s') \<longrightarrow> R s s') \<and>
     (\<forall>c s s'. u_update u c s = Some s' \<longrightarrow> R s s')"

lemma obeysD:
  "obeys R u \<Longrightarrow> u_semantics u p s = Some (r, s') \<Longrightarrow> R s s'"
  "obeys R u \<Longrightarrow> u_thread u p s = Some (b, s') \<Longrightarrow> R s s'"
  "obeys R u \<Longrightarrow> u_update u c s = Some s' \<Longrightarrow> R s s'"
  unfolding obeys_def by blast+

text \<open>What the kernel itself changes in a delta cycle, beside triggering processes.\<close>

locale loop_relation = trigger_frame R for R :: "'a sim_scheme \<Rightarrow> 'a sim_scheme \<Rightarrow> bool" +
  assumes L_runnable: "R s (s\<lparr>m_runnable := r\<rparr>)"
    and L_curr: "R s (s\<lparr>m_curr_proc := c\<rparr>)"
    and L_rand: "R s (s\<lparr>rand_pos := n\<rparr>)"
    and L_observe: "R s (s\<lparr>trace := trace s @ [Point x]\<rparr>)"
    and L_error: "R s (s\<lparr>m_error := True\<rparr>)"
    and L_phase: "R s (s\<lparr>m_execution_phase := ph\<rparr>)"
    and L_collect: "R s (s\<lparr>m_collectable := cs\<rparr>)"
    and L_stamps: "R s (s\<lparr>m_change_stamp := i, m_delta_count := j\<rparr>)"
    and L_deltas: "R s (s\<lparr>m_delta_events := []\<rparr>)"
    and L_links: "R s (s\<lparr>m_update_next_p := nx\<rparr>)"
    and L_updates: "R s (s\<lparr>m_update_list_p := q\<rparr>)"
    and L_async: "R s (s\<lparr>m_async_push_queue := as\<rparr>)"
begin

lemma L_seen: "R s (observe (Point x) s)"
  by (simp add: observe_def R_refl L_observe)

lemma L_popped: "popped res s = Some (h, s') \<Longrightarrow> R s s'"
  using R_trans [OF L_runnable L_curr]
  by (auto simp: popped_def reset_curr_proc_def set_curr_proc_def split: option.splits)

lemma L_pop_method: "pop_runnable_method s = Some (h, s') \<Longrightarrow> R s s'"
  using L_popped R_trans [OF L_rand L_popped]
  by (auto simp: pop_runnable_method_def use_rand_def split: if_splits)

lemma L_pop_thread: "pop_runnable_thread s = Some (h, s') \<Longrightarrow> R s s'"
  using L_popped R_trans [OF L_rand L_popped]
  by (auto simp: pop_runnable_thread_def use_rand_def split: if_splits)

lemma L_next_thread:
  assumes "next_thread s = Some r"
  shows "R s (snd r)"
proof (rule next_thread.raw_induct [where P = "\<lambda>s r. R s (snd r)", OF _ assms])
  fix f s r
  assume IH: "\<And>s r. f s = Some r \<Longrightarrow> R s (snd r)"
    and b: "(do { (h, s1) \<leftarrow> pop_runnable_thread s;
      case h of None \<Rightarrow> Some (None, s1)
      | Some p \<Rightarrow> if m_has_cor (procs s1 p) then Some (Some p, s1) else f s1 }) = Some r"
  then obtain h s1 where s1: "pop_runnable_thread s = Some (h, s1)" by (auto split: Option.bind_splits)
  have "r = (h, s1) \<or> f s1 = Some r" using b s1 by (cases h) (auto split: if_splits)
  then show "R s (snd r)" using IH [of s1 r] L_pop_thread [OF s1] R_trans by auto
qed

lemma L_next_cor: "next_cor s = Some (h, s') \<Longrightarrow> R s s'"
  using L_next_thread [of s "(h, s')"] R_refl by (auto simp: next_cor_def split: if_splits)

lemma L_run_process:
  assumes u: "obeys R u" and r: "run_process u p s = Some r"
  shows "R s (snd r)"
proof -
  let ?P = "\<lambda>u (p :: nat) s r. obeys R u \<longrightarrow> R s (snd r)"
  have "?P u p s r"
  proof (rule run_process.raw_induct [where P = ?P, OF _ r])
    fix f and u :: "'a sim_scheme user_code" and p s r
    assume IH: "\<And>u p s r. f u p s = Some r \<Longrightarrow> ?P u p s r"
      and b: "(do { (res, s1) \<leftarrow> u_semantics u p s;
        case res of Returned \<Rightarrow> Some (True, s1)
        | Unwound reset \<Rightarrow> let s2 = upd_proc p (\<lambda>v. fst (clear_unwinding v)) s1
            in if reset then f u p s2 else Some (True, s2)
        | Threw \<Rightarrow> Some (False, s1\<lparr>m_error := True\<rparr>) }) = Some r"
    show "?P u p s r"
    proof
      assume u: "obeys R u"
      obtain res s1 where s1: "u_semantics u p s = Some (res, s1)" using b by (auto split: Option.bind_splits)
      let ?s2 = "upd_proc p (\<lambda>v. fst (clear_unwinding v)) s1"
      have t1: "R s s1" using obeysD(1) [OF u s1] .
      have t2: "R s ?s2" using t1 by (rule R_then_proc) (simp add: no_bits_def bits_def clear_unwinding_def)
      show "R s (snd r)"
      proof (cases res)
        case (Unwound reset)
        with b s1 have "f u p ?s2 = Some r \<or> r = (True, ?s2)" by (auto simp: Let_def split: if_splits)
        then show ?thesis using IH [of u p ?s2 r] u t2 R_trans by fastforce
      qed (use b s1 t1 R_trans [OF t1 L_error] in auto)
    qed
  qed
  with u show ?thesis by simp
qed

lemma L_run_threads:
  assumes u: "obeys R u" and r: "run_threads u p s = Some s'"
  shows "R s s'"
proof -
  let ?P = "\<lambda>u (p :: nat) s s'. obeys R u \<longrightarrow> R s s'"
  have "?P u p s s'"
  proof (rule run_threads.raw_induct [where P = ?P, OF _ r])
    fix f and u :: "'a sim_scheme user_code" and p s s'
    assume IH: "\<And>u p s s'. f u p s = Some s' \<Longrightarrow> ?P u p s s'"
      and b: "(do { (suspended, s1) \<leftarrow> u_thread u p s;
        (h, s2) \<leftarrow> next_cor (if suspended then observe (Point MON_THREAD_SUSPEND) s1 else s1);
        case h of None \<Rightarrow> Some s2 | Some q \<Rightarrow> f u q s2 }) = Some s'"
    then obtain b1 s1 h s2 where s1: "u_thread u p s = Some (b1, s1)"
      and s2: "next_cor (if b1 then observe (Point MON_THREAD_SUSPEND) s1 else s1) = Some (h, s2)"
      by (auto split: Option.bind_splits)
    have g: "R s s2" if "obeys R u"
      using obeysD(2) [OF that s1] L_next_cor [OF s2] L_seen R_trans by (cases b1) (auto, blast)
    have "s' = s2 \<or> (\<exists>q. f u q s2 = Some s')" using b s1 s2 by (cases h) auto
    then show "?P u p s s'" using g IH R_trans by blast
  qed
  with u show ?thesis by simp
qed

lemma L_method_loop:
  assumes u: "obeys R u" and r: "method_loop u h e s = Some r"
  shows "R s (snd (snd r))"
proof -
  let ?P = "\<lambda>u (h :: nat option) (e :: bool) s r. obeys R u \<longrightarrow> R s (snd (snd r))"
  have "?P u h e s r"
  proof (rule method_loop.raw_induct [where P = ?P, OF _ r])
    fix f and u :: "'a sim_scheme user_code" and h e s r
    assume IH: "\<And>u h e s r. f u h e s = Some r \<Longrightarrow> ?P u h e s r"
      and b: "(case h of None \<Rightarrow> Some (False, e, s)
        | Some p \<Rightarrow> do { (ok, s1) \<leftarrow> run_process u p s;
            let s2 = observe (Point MON_METHOD_SUSPEND) s1;
            if \<not> ok then Some (True, False, s2)
            else do { (h', s3) \<leftarrow> pop_runnable_method s2; f u h' False s3 } }) = Some r"
    show "?P u h e s r"
    proof (cases h)
      case None
      with b show ?thesis using R_refl by auto
    next
      case (Some p)
      with b obtain ok s1 where s1: "run_process u p s = Some (ok, s1)" by (auto split: Option.bind_splits)
      let ?s2 = "observe (Point MON_METHOD_SUSPEND) s1"
      have g: "R s ?s2" if "obeys R u" using L_run_process [OF that s1] L_seen R_trans by fastforce
      show ?thesis
      proof (cases ok)
        case False
        with b Some s1 have "snd (snd r) = ?s2" by auto
        with g show ?thesis by simp
      next
        case True
        with b Some s1 obtain h' s3 where s3: "pop_runnable_method ?s2 = Some (h', s3)" "f u h' False s3 = Some r"
          by (auto simp: Let_def split: Option.bind_splits)
        then show ?thesis
          using R_trans [OF R_trans [OF g L_pop_method [OF s3(1)]]] IH [OF s3(2)] by blast
      qed
    qed
  qed
  with u show ?thesis by simp
qed

lemma L_with_runnable: "with_runnable f s = Some s' \<Longrightarrow> R s s'"
  using L_runnable by (auto simp: with_runnable_def)

lemma L_evaluate_pass:
  assumes u: "obeys R u" and r: "evaluate_pass u e s = Some (out, e', s')"
  shows "R s s'"
proof -
  obtain s1 h s2 out1 e1 s3 where
    1: "with_runnable toggle_methods s = Some s1" "pop_runnable_method s1 = Some (h, s2)"
      "method_loop u h e s2 = Some (out1, e1, s3)"
    and rest: "s' = s3 \<or> (\<exists>s4 t s5 e2. with_runnable toggle_threads s3 = Some s4 \<and> next_thread s4 = Some (t, s5) \<and>
      (case t of None \<Rightarrow> Some (e1, s5)
        | Some q \<Rightarrow> map_option (\<lambda>s'. (False, s')) (run_threads u q s5)) = Some (e2, s'))"
    using r by (auto simp: evaluate_pass_def split: Option.bind_splits if_splits)
  have g: "R s s3"
    using L_with_runnable [OF 1(1)] L_pop_method [OF 1(2)] L_method_loop [OF u 1(3)] R_trans by fastforce
  from rest show ?thesis
  proof (elim disjE exE conjE)
    fix s4 t s5 e2
    assume 2: "with_runnable toggle_threads s3 = Some s4" "next_thread s4 = Some (t, s5)"
      "(case t of None \<Rightarrow> Some (e1, s5)
        | Some q \<Rightarrow> map_option (\<lambda>s'. (False, s')) (run_threads u q s5)) = Some (e2, s')"
    have "R s5 s'" using 2(3) L_run_threads [OF u] R_refl by (cases t) auto
    then show ?thesis
      using g L_with_runnable [OF 2(1)] L_next_thread [OF 2(2)] R_trans by (metis snd_conv)
  qed (use g in simp)
qed

lemma L_evaluate_loop:
  assumes u: "obeys R u" and r: "evaluate_loop u e s = Some r"
  shows "R s (snd (snd r))"
proof -
  let ?P = "\<lambda>u (e :: bool) s r. obeys R u \<longrightarrow> R s (snd (snd r))"
  have "?P u e s r"
  proof (rule evaluate_loop.raw_induct [where P = ?P, OF _ r])
    fix f and u :: "'a sim_scheme user_code" and e s r
    assume IH: "\<And>u e s r. f u e s = Some r \<Longrightarrow> ?P u e s r"
      and b: "(do { (out, e, s1) \<leftarrow> evaluate_pass u e s;
         if out then Some (True, e, s1)
         else do { idle \<leftarrow> is_empty (m_runnable s1); if idle then Some (False, e, s1) else f u e s1 } }) = Some r"
    then obtain out e1 s1 where s1: "evaluate_pass u e s = Some (out, e1, s1)" by (auto split: Option.bind_splits)
    with b have "snd (snd r) = s1 \<or> f u e1 s1 = Some r" by (auto split: Option.bind_splits if_splits)
    then show "?P u e s r" using L_evaluate_pass [OF _ s1] IH R_trans by blast
  qed
  with u show ?thesis by simp
qed

lemma L_update_loop:
  assumes u: "\<forall>c s s'. upd c s = Some s' \<longrightarrow> R s s'" and r: "update_loop upd now s = Some s'"
  shows "R s s'"
proof -
  let ?P = "\<lambda>upd (now :: ptr) s s'. (\<forall>c s s'. upd c s = Some s' \<longrightarrow> R s s') \<longrightarrow> R s s'"
  have "?P upd now s s'"
  proof (rule update_loop.raw_induct [where P = ?P, OF _ r])
    fix f and upd :: "nat \<Rightarrow> 'a sim_scheme \<Rightarrow> 'a sim_scheme option" and now s s'
    assume IH: "\<And>upd now s s'. f upd now s = Some s' \<Longrightarrow> ?P upd now s s'"
      and b: "(case now of Null \<Rightarrow> None | QEnd \<Rightarrow> Some s
        | Proc c \<Rightarrow> let next = m_update_next_p s c
            in do { s1 \<leftarrow> channel_perform_update upd c s; f upd next s1 }) = Some s'"
    show "?P upd now s s'"
    proof (cases now)
      case (Proc c)
      with b obtain s1 t where s1: "upd c s = Some t" "s1 = t\<lparr>m_update_next_p := (m_update_next_p t)(c := Null)\<rparr>"
        "f upd (m_update_next_p s c) s1 = Some s'"
        by (auto simp: Let_def channel_perform_update_def split: Option.bind_splits)
      then show ?thesis using IH [OF s1(3)] L_links R_trans by blast
    qed (use b R_refl in auto)
  qed
  with u show ?thesis by simp
qed

lemma L_request_update: "R s (request_update c s)"
proof (cases "m_update_next_p s c = Null")
  case True
  have "R s ((s\<lparr>m_update_next_p := (m_update_next_p s)(c := m_update_list_p s)\<rparr>)\<lparr>m_update_list_p := Proc c\<rparr>)"
    using L_links L_updates by (rule R_trans)
  with True show ?thesis by (simp add: request_update_def)
qed (simp add: request_update_def R_refl)

lemma L_perform_update:
  assumes u: "obeys R u" and r: "perform_update (u_update u) s = Some s'"
  shows "R s s'"
proof -
  let ?s = "if pending_async_updates s then accept_updates s else s"
  have "R s ?s"
    using R_trans [OF L_async R_foldl [of "\<lambda>t c. request_update c t"]] L_request_update
    unfolding accept_updates_def by (simp add: R_refl del: foldl_request_async)
  moreover have "R (?s\<lparr>m_update_list_p := QEnd\<rparr>) s'"
    using r obeysD(3) [OF u] by (intro L_update_loop) (auto simp: perform_update_def Let_def)
  ultimately show ?thesis using L_updates R_trans by blast
qed

lemma L_update_part:
  assumes u: "obeys R u" and r: "update_part u e s2 = Some s7"
  shows "R s2 s7"
proof -
  define s3 where "s3 = observe (Point MON_EVALUATION_PHASE_END) (s2\<lparr>m_collectable := []\<rparr>)"
  define s4 where "s4 = observe (Point MON_UPDATE_PHASE_BEGIN) (s3\<lparr>m_execution_phase := Phase_update\<rparr>)"
  define s5 where "s5 = (if \<not> e
               then s4\<lparr>m_change_stamp := m_change_stamp s4 + 1, m_delta_count := m_delta_count s4 + 1\<rparr>
               else s4)"
  obtain s6 where s6: "perform_update (u_update u) s5 = Some s6"
    and s7: "s7 = observe (Point MON_UPDATE_PHASE_END) s6"
    using r unfolding update_part_def Let_def s3_def [symmetric] s4_def [symmetric] s5_def [symmetric]
    by (auto simp: bind_eq_Some_conv)
  have "R s2 s3" unfolding s3_def using L_collect L_seen by (rule R_trans)
  moreover have "R s3 s4" unfolding s4_def using L_phase L_seen by (rule R_trans)
  moreover have "R s4 s5" by (simp add: s5_def L_stamps R_refl)
  moreover have "R s5 s6" using L_perform_update [OF u s6] .
  moreover have "R s6 s7" unfolding s7 by (rule L_seen)
  ultimately show ?thesis by (meson R_trans)
qed

lemma L_delta_loop: "delta_loop n s = Some s' \<Longrightarrow> R s s'"
proof (induction n arbitrary: s)
  case (Suc n)
  then obtain s1 where "event_trigger (m_delta_events s ! n) s = Some s1" "delta_loop n s1 = Some s'"
    by (auto split: if_splits Option.bind_splits)
  with Suc.IH show ?case using T_event_trigger R_trans by blast
qed (simp add: R_refl)

lemma L_notify_deltas: "notify_deltas s = Some s' \<Longrightarrow> R s s'"
  using R_trans [OF L_delta_loop L_deltas] R_refl
  by (auto simp: notify_deltas_def Let_def bind_eq_Some_conv split: if_splits)

lemma L_notify_part:
  assumes "notify_part once s = Some (k, s')"
  shows "R s s'"
proof -
  let ?s8 = "observe (Point MON_DELTA_NOTIFY_PHASE_BEGIN) (s\<lparr>m_execution_phase := Phase_notify\<rparr>)"
  have "R s ?s8" using L_phase L_seen by (rule R_trans)
  moreover have "s' = ?s8 \<or> (\<exists>s9. notify_deltas ?s8 = Some s9 \<and> s' = observe (Point MON_DELTA_NOTIFY_PHASE_END) s9)"
    using assms by (auto simp: notify_part_def Let_def bind_eq_Some_conv split: if_splits)
  ultimately show ?thesis using L_notify_deltas L_seen R_trans by metis
qed

lemma L_delta_cycle:
  assumes u: "obeys R u" and r: "delta_cycle u once s = Some (k, s')"
  shows "R s s'"
proof -
  let ?s1 = "observe (Point MON_EVALUATION_PHASE_BEGIN) (s\<lparr>m_execution_phase := Phase_evaluate\<rparr>)"
  obtain out e s2 where s2: "evaluate_loop u True ?s1 = Some (out, e, s2)"
    and rest: "s' = s2 \<or> (\<exists>s7. update_part u e s2 = Some s7 \<and> notify_part once s7 = Some (k, s'))"
    using r by (auto simp: delta_cycle_def bind_eq_Some_conv split: if_splits)
  have "R s ?s1" using L_phase L_seen by (rule R_trans)
  then have "R s s2" using L_evaluate_loop [OF u s2] R_trans by auto
  with rest show ?thesis using L_update_part [OF u] L_notify_part R_trans by blast
qed

lemma L_delta_cycles:
  assumes u: "obeys R u" and r: "delta_cycles u once s = Some s'"
  shows "R s s'"
proof -
  let ?P = "\<lambda>u (once :: bool) s s'. obeys R u \<longrightarrow> R s s'"
  have "?P u once s s'"
  proof (rule delta_cycles.raw_induct [where P = ?P, OF _ r])
    fix f and u :: "'a sim_scheme user_code" and once s s'
    assume IH: "\<And>u once s s'. f u once s = Some s' \<Longrightarrow> ?P u once s s'"
      and b: "(do { (r, s1) \<leftarrow> delta_cycle u once s; if r = Again then f u once s1 else Some s1 }) = Some s'"
    then obtain k s1 where "delta_cycle u once s = Some (k, s1)" "s' = s1 \<or> f u once s1 = Some s'"
      by (auto simp: bind_eq_Some_conv split: if_splits)
    then show "?P u once s s'" using L_delta_cycle IH R_trans by blast
  qed
  with u show ?thesis by simp
qed

lemma L_crunch: "obeys R u \<Longrightarrow> crunch u once s = Some (threw, s') \<Longrightarrow> R s s'"
  using L_delta_cycles R_trans [OF _ L_curr] by (auto simp: crunch_def reset_curr_proc_def bind_eq_Some_conv)

end

section \<open>Relations that a whole simulation respects\<close>

text \<open>The callbacks of ports, channels and modules count as well.\<close>

definition obeys_callbacks :: "('a sim_scheme \<Rightarrow> 'a sim_scheme \<Rightarrow> bool) \<Rightarrow> ('a sim_scheme) user_code \<Rightarrow> bool" where
  "obeys_callbacks R u \<longleftrightarrow>
     (\<forall>cb c s s'. u_channel u cb c s = Some s' \<longrightarrow> R s s') \<and>
     (\<forall>cb s n s'. u_ports u cb s = Some (n, s') \<longrightarrow> R s s') \<and>
     (\<forall>cb s b s'. u_modules u cb s = Some (b, s') \<longrightarrow> R s s')"

definition obeys_all :: "('a sim_scheme \<Rightarrow> 'a sim_scheme \<Rightarrow> bool) \<Rightarrow> ('a sim_scheme) user_code \<Rightarrow> bool" where
  "obeys_all R u \<longleftrightarrow> obeys R u \<and> obeys_callbacks R u"

lemma obeys_callbacksD:
  "obeys_callbacks R u \<Longrightarrow> u_channel u cb c s = Some s' \<Longrightarrow> R s s'"
  "obeys_callbacks R u \<Longrightarrow> u_ports u cb s = Some (n, s') \<Longrightarrow> R s s'"
  "obeys_callbacks R u \<Longrightarrow> u_modules u cb s = Some (b, s') \<Longrightarrow> R s s'"
  unfolding obeys_callbacks_def by blast+

lemma obeys_allD:
  "obeys_all R u \<Longrightarrow> obeys R u" "obeys_all R u \<Longrightarrow> obeys_callbacks R u"
  "obeys_all R u \<Longrightarrow> u_ports u cb s = Some (n, s') \<Longrightarrow> R s s'"
  "obeys_all R u \<Longrightarrow> u_modules u cb s = Some (b, s') \<Longrightarrow> R s s'"
  unfolding obeys_all_def using obeys_callbacksD by blast+

text \<open>What the end of a simulation changes.\<close>

locale stop_relation =
  fixes R :: "'a sim_scheme \<Rightarrow> 'a sim_scheme \<Rightarrow> bool"
  assumes S_refl: "R s s" and S_trans: "R s s' \<Longrightarrow> R s' s'' \<Longrightarrow> R s s''"
    and M_status: "R s (s\<lparr>m_simulation_status := a\<rparr>)"
    and M_ready: "R s (s\<lparr>m_ready_to_simulate := b\<rparr>)"
    and M_end: "R s (s\<lparr>m_end_of_simulation_called := b\<rparr>)"
    and M_control: "R s (s\<lparr>m_in_simulator_control := b\<rparr>)"
begin

lemma M_callback_loop:
  assumes u: "\<forall>c s s'. cb c s = Some s' \<longrightarrow> R s s'" and r: "callback_loop cb i s = Some s'"
  shows "R s s'"
proof -
  let ?P = "\<lambda>cb (i :: nat) s s'. (\<forall>c s s'. cb c s = Some s' \<longrightarrow> R s s') \<longrightarrow> R s s'"
  have "?P cb i s s'"
  proof (rule callback_loop.raw_induct [where P = ?P, OF _ r])
    fix f and cb :: "nat \<Rightarrow> 'a sim_scheme \<Rightarrow> 'a sim_scheme option" and i s s'
    assume IH: "\<And>cb i s s'. f cb i s = Some s' \<Longrightarrow> ?P cb i s s'"
      and b: "(if i < length (m_prim_channel_vec s)
        then do { s1 \<leftarrow> cb (m_prim_channel_vec s ! i) s; f cb (i + 1) s1 } else Some s) = Some s'"
    then show "?P cb i s s'"
      using S_refl S_trans by (auto simp: bind_eq_Some_conv split: if_splits) (metis IH)
  qed
  with u show ?thesis by simp
qed

lemma M_registries:
  assumes u: "obeys_callbacks R u" and r: "registries u cb s = Some s'"
  shows "R s s'"
proof -
  obtain n s1 s2 b where "u_ports u cb s = Some (n, s1)" "registry_callbacks (u_channel u cb) s1 = Some s2"
    "u_modules u cb s2 = Some (b, s')"
    using r by (auto simp: registries_def bind_eq_Some_conv)
  then have "R s s1" "R s1 s2" "R s2 s'"
    using obeys_callbacksD [OF u] M_callback_loop [of "u_channel u cb" 0 s1 s2] by (auto simp: registry_callbacks_def)
  then show ?thesis by (meson S_trans)
qed

lemma M_stop_action:
  assumes u: "obeys_callbacks R u" and r: "do_sc_stop_action u s = Some s'"
  shows "R s s'"
proof -
  have e: "R s (t\<lparr>m_in_simulator_control := False\<rparr>)" if e: "end_simulation u s = Some t" for t
  proof -
    obtain s1 where s1: "registries u END_OF_SIMULATION
        (s\<lparr>m_simulation_status := SC_END_OF_SIMULATION, m_ready_to_simulate := False\<rparr>) = Some s1"
      and t: "t = s1\<lparr>m_end_of_simulation_called := True\<rparr>"
      using e by (auto simp: end_simulation_def bind_eq_Some_conv)
    have "R s (s\<lparr>m_simulation_status := SC_END_OF_SIMULATION, m_ready_to_simulate := False\<rparr>)"
      using S_trans [OF M_status M_ready] by simp
    then have "R s t" unfolding t using M_registries [OF u s1] M_end S_trans by blast
    then show ?thesis using M_control S_trans by blast
  qed
  show ?thesis
    using r e S_refl S_trans [OF _ M_status] by (auto simp: do_sc_stop_action_def bind_eq_Some_conv split: if_splits)
qed

end

locale simulation_relation = loop_relation R + stop_relation R for R :: "'a sim_scheme \<Rightarrow> 'a sim_scheme \<Rightarrow> bool" +
  assumes M_start: "R s (s\<lparr>m_start_of_simulation_called := b\<rparr>)"
    and M_elaborated: "R s (s\<lparr>m_elaboration_done := b\<rparr>)"
    and M_constructed: "R s (s\<lparr>m_construction_done := n\<rparr>)"
    and M_cor: "R s (upd_proc p (\<lambda>v. v\<lparr>m_has_cor := b\<rparr>) s)"
begin

lemma M_construction_loop:
  assumes u: "\<forall>c s s'. cb c s = Some s' \<longrightarrow> R s s'" and r: "construction_loop cb s = Some s'"
  shows "R s s'"
proof -
  let ?P = "\<lambda>cb s s'. (\<forall>c s s'. cb c s = Some s' \<longrightarrow> R s s') \<longrightarrow> R s s'"
  have "?P cb s s'"
  proof (rule construction_loop.raw_induct [where P = ?P, OF _ r])
    fix f and cb :: "nat \<Rightarrow> 'a sim_scheme \<Rightarrow> 'a sim_scheme option" and s s'
    assume IH: "\<And>cb s s'. f cb s = Some s' \<Longrightarrow> ?P cb s s'"
      and b: "(if m_construction_done s < length (m_prim_channel_vec s)
        then do { s1 \<leftarrow> cb (m_prim_channel_vec s ! m_construction_done s) s;
          f cb (s1\<lparr>m_construction_done := m_construction_done s1 + 1\<rparr>) } else Some s) = Some s'"
    then have "s' = s \<or> (\<exists>c s1. cb c s = Some s1 \<and> f cb (s1\<lparr>m_construction_done := m_construction_done s1 + 1\<rparr>) = Some s')"
      by (auto simp: bind_eq_Some_conv split: if_splits)
    then show "?P cb s s'" using R_refl R_trans M_constructed IH by metis
  qed
  with u show ?thesis by simp
qed

lemma M_construction_rounds:
  assumes u: "obeys_all R u" and r: "construction_rounds u s = Some r"
  shows "R s (snd r)"
proof -
  let ?P = "\<lambda>u s r. obeys_all R u \<longrightarrow> R s (snd r)"
  have "?P u s r"
  proof (rule construction_rounds.raw_induct [where P = ?P, OF _ r])
    fix f and u :: "'a sim_scheme user_code" and s r
    assume IH: "\<And>u s r. f u s = Some r \<Longrightarrow> ?P u s r"
      and b: "(do {
         (cd1, s1) \<leftarrow> u_ports u BEFORE_END_OF_ELABORATION s;
         (cd2, s2) \<leftarrow> registry_construction_done (u_channel u BEFORE_END_OF_ELABORATION) s1;
         (cd3, s3) \<leftarrow> u_modules u BEFORE_END_OF_ELABORATION s2;
         if m_forced_stop s3 then Some (True, s3)
         else if cd1 + of_bool cd2 + of_bool cd3 = 4 then Some (False, s3)
         else f u s3 }) = Some r"
    then obtain cd1 s1 cd2 s2 cd3 s3 where
      1: "u_ports u BEFORE_END_OF_ELABORATION s = Some (cd1, s1)"
        "registry_construction_done (u_channel u BEFORE_END_OF_ELABORATION) s1 = Some (cd2, s2)"
        "u_modules u BEFORE_END_OF_ELABORATION s2 = Some (cd3, s3)"
      and rest: "snd r = s3 \<or> f u s3 = Some r"
      by (auto simp: bind_eq_Some_conv split: if_splits)
    show "?P u s r"
    proof
      assume u: "obeys_all R u"
      have "R s1 s2"
        using 1(2) M_construction_loop [of "u_channel u BEFORE_END_OF_ELABORATION"] obeys_callbacksD(1) [OF obeys_allD(2) [OF u]] R_refl
        by (auto simp: registry_construction_done_def bind_eq_Some_conv split: if_splits)
      then have "R s s3" using obeys_allD(3,4) [OF u] 1 R_trans by metis
      with rest IH u show "R s (snd r)" using R_trans by blast
    qed
  qed
  with u show ?thesis by simp
qed

lemma M_elaborate:
  assumes u: "obeys_all R u" and r: "elaborate u s = Some s'"
  shows "R s s'"
proof (cases "m_elaboration_done s \<or> sim_status s \<noteq> SC_SIM_OK")
  case True
  with r show ?thesis by (simp add: elaborate_def R_refl)
next
  case False
  with r obtain stopped s1 where
    s1: "construction_rounds u (s\<lparr>m_simulation_status := SC_BEFORE_END_OF_ELABORATION\<rparr>) = Some (stopped, s1)"
    and rest: "do_sc_stop_action u s1 = Some s' \<or> (\<exists>s2. registries u END_OF_ELABORATION
        (s1\<lparr>m_elaboration_done := True, m_simulation_status := SC_END_OF_ELABORATION\<rparr>) = Some s2 \<and>
        (s' = s2 \<or> do_sc_stop_action u s2 = Some s'))"
    by (auto simp: elaborate_def bind_eq_Some_conv split: if_splits)
  have g: "R s s1" using R_trans [OF M_status M_construction_rounds [OF u s1]] by simp
  have "R s1 (s1\<lparr>m_elaboration_done := True, m_simulation_status := SC_END_OF_ELABORATION\<rparr>)"
    using R_trans [OF M_elaborated M_status] by simp
  with g rest show ?thesis using M_stop_action [OF obeys_allD(2) [OF u]] M_registries [OF obeys_allD(2) [OF u]] R_trans by metis
qed

lemma M_over_table:
  assumes u: "\<forall>p s s'. g p s = Some s' \<longrightarrow> R s s'" and r: "over_table g now s = Some s'"
  shows "R s s'"
proof -
  let ?P = "\<lambda>g (now :: ptr) s s'. (\<forall>p s s'. g p s = Some s' \<longrightarrow> R s s') \<longrightarrow> R s s'"
  have "?P g now s s'"
  proof (rule over_table.raw_induct [where P = ?P, OF _ r])
    fix f and g :: "nat \<Rightarrow> 'a sim_scheme \<Rightarrow> 'a sim_scheme option" and now s s'
    assume IH: "\<And>g now s s'. f g now s = Some s' \<Longrightarrow> ?P g now s s'"
      and b: "(case now of Null \<Rightarrow> Some s | QEnd \<Rightarrow> None
        | Proc p \<Rightarrow> do { s1 \<leftarrow> g p s; f g (m_exist_p s1 p) s1 }) = Some s'"
    then have "s' = s \<or> (\<exists>p s1. g p s = Some s1 \<and> f g (m_exist_p s1 p) s1 = Some s')"
      by (cases now) (auto simp: bind_eq_Some_conv)
    then show "?P g now s s'" using R_refl R_trans IH by metis
  qed
  with u show ?thesis by simp
qed

lemma M_make_runnable:
  "\<forall>t t'. push p t = Some t' \<longrightarrow> R t t' \<Longrightarrow> make_runnable push p s = Some s' \<Longrightarrow> R s s'"
  using R_refl R_ready by (auto simp: make_runnable_def split: if_splits)

lemma M_initialization:
  assumes u: "obeys_all R u" and r: "initialization_phase fm ft u s0 = Some s'"
  shows "R s0 s'"
proof -
  obtain s1 s2 where
    1: "over_table (\<lambda>p s. Some (prepare_for_simulation p s)) (m_thread_q (m_process_table s0)) s0 = Some s1"
      "with_runnable (runnable_init fm ft) (s1\<lparr>m_simulation_status := SC_RUNNING, m_ready_to_simulate := True\<rparr>) = Some s2"
    using r by (auto simp: initialization_phase_def bind_eq_Some_conv)
  define s3 where "s3 = (observe (Point MON_INIT_PHASE_BEGIN) s2)\<lparr>m_execution_phase := Phase_update\<rparr>"
  define s4 where "s4 = observe (Point MON_INIT_UPDATE_PHASE_BEGIN) s3"
  obtain s5 where 5: "perform_update (u_update u) s4 = Some s5"
    using r 1 by (auto simp: initialization_phase_def bind_eq_Some_conv Let_def s3_def s4_def)
  define s6 where "s6 = (observe (Point MON_INIT_UPDATE_PHASE_END) s5)\<lparr>m_execution_phase := Phase_notify\<rparr>"
  define s7 where "s7 = observe (Point MON_INIT_DELTA_NOTIFY_PHASE_BEGIN) s6"
  obtain s8 s9 s10 where
    8: "over_table (make_runnable push_runnable_method_front) (m_method_q (m_process_table s7)) s7 = Some s8"
      "over_table (make_runnable push_runnable_thread_front) (m_thread_q (m_process_table s8)) s8 = Some s9"
      "notify_deltas s9 = Some s10"
    and s': "s' = observe (Point MON_INIT_PHASE_END) (observe (Point MON_INIT_DELTA_NOTIFY_PHASE_END) s10)"
    using r 1 5 by (auto simp: initialization_phase_def bind_eq_Some_conv Let_def s3_def s4_def s6_def s7_def)
  have "R s0 s1" using M_over_table [OF _ 1(1)] M_cor by (simp add: prepare_for_simulation_def)
  moreover have "R s1 (s1\<lparr>m_simulation_status := SC_RUNNING, m_ready_to_simulate := True\<rparr>)"
    using R_trans [OF M_status M_ready] by simp
  moreover have "R (s1\<lparr>m_simulation_status := SC_RUNNING, m_ready_to_simulate := True\<rparr>) s2"
    using 1(2) by (rule L_with_runnable)
  moreover have "R s2 s3" unfolding s3_def using L_seen L_phase by (rule R_trans)
  moreover have "R s3 s4" unfolding s4_def by (rule L_seen)
  moreover have "R s4 s5" using L_perform_update [OF obeys_allD(1) [OF u] 5] .
  moreover have "R s5 s6" unfolding s6_def using L_seen L_phase by (rule R_trans)
  moreover have "R s6 s7" unfolding s7_def by (rule L_seen)
  moreover have "R s7 s8"
    using M_make_runnable [of push_runnable_method_front] L_with_runnable
    by (intro M_over_table [OF _ 8(1)]) (auto simp: push_runnable_method_front_def)
  moreover have "R s8 s9"
    using M_make_runnable [of push_runnable_thread_front] L_with_runnable
    by (intro M_over_table [OF _ 8(2)]) (auto simp: push_runnable_thread_front_def)
  moreover have "R s9 s10" using 8(3) by (rule L_notify_deltas)
  moreover have "R s10 s'" unfolding s' using L_seen L_seen by (rule R_trans)
  ultimately show ?thesis by (meson R_trans)
qed

lemma M_prepare:
  assumes u: "obeys_all R u" and r: "prepare_to_simulate fm ft u s = Some s'"
  shows "R s s'"
proof (cases "m_ready_to_simulate s \<or> sim_status s \<noteq> SC_SIM_OK")
  case True
  with r show ?thesis by (simp add: prepare_to_simulate_def R_refl)
next
  case False
  with r obtain s1 where s1: "registries u START_OF_SIMULATION (s\<lparr>m_simulation_status := SC_START_OF_SIMULATION\<rparr>) = Some s1"
    and rest: "do_sc_stop_action u (s1\<lparr>m_start_of_simulation_called := True\<rparr>) = Some s' \<or>
      initialization_phase fm ft u (s1\<lparr>m_start_of_simulation_called := True\<rparr>) = Some s'"
    by (auto simp: prepare_to_simulate_def bind_eq_Some_conv Let_def split: if_splits)
  have "R s (s1\<lparr>m_start_of_simulation_called := True\<rparr>)"
    using R_trans [OF R_trans [OF M_status M_registries [OF obeys_allD(2) [OF u] s1]] M_start] .
  with rest show ?thesis using M_stop_action [OF obeys_allD(2) [OF u]] M_initialization [OF u] R_trans by blast
qed

lemma M_initialize:
  assumes u: "obeys_all R u" and r: "initialize fm ft u b s = Some (threw, s')"
  shows "R s s'"
proof -
  obtain s1 s2 s3 where
    1: "elaborate u (s\<lparr>m_in_simulator_control := True\<rparr>) = Some s1" "prepare_to_simulate fm ft u s1 = Some s2"
      "initial_crunch u b s2 = Some (threw, s3)"
    and s': "s' = s3 \<or> s' = s3\<lparr>m_in_simulator_control := False\<rparr>"
    using r by (auto simp: initialize_def bind_eq_Some_conv split: if_splits)
  have "R s s2"
    using R_trans [OF R_trans [OF M_control M_elaborate [OF u 1(1)]] M_prepare [OF u 1(2)]] .
  moreover have "R s2 s3"
    using 1(3) R_refl L_crunch [OF obeys_allD(1) [OF u]] M_stop_action [OF obeys_allD(2) [OF u]] R_trans
    by (auto simp: initial_crunch_def bind_eq_Some_conv split: if_splits) blast
  ultimately show ?thesis using s' M_control R_trans by blast
qed

end

section \<open>Simulated time\<close>

lemma unat_minus_one_minus:
  assumes "(d :: 64 word) \<le> - 1 - c"
  shows "unat (c + d) = unat c + unat d \<and> unat c + unat d < 2 ^ 64"
proof -
  have "unat (- 1 - c) = 2 ^ 64 - 1 - unat c"
    using unat_sub [of c "- 1"] by (simp add: unsigned_minus_1_eq_mask mask_eq_exp_minus_1)
  then have "unat d \<le> 2 ^ 64 - 1 - unat c" using assms by (simp add: word_le_nat_alt)
  moreover have "unat c < 2 ^ 64" using unsigned_less [of c, where 'a = nat] by simp
  ultimately have "unat c + unat d < 2 ^ 64" by linarith
  then show ?thesis by (simp add: unat_word_ariths)
qed

definition same_time :: "'a sim_scheme \<Rightarrow> 'a sim_scheme \<Rightarrow> bool" where
  "same_time s s' \<longleftrightarrow> m_curr_time s' = m_curr_time s"

lemma same_time_triggers: "triggers s s' \<Longrightarrow> same_time s s'"
  by (simp add: triggers_def loop_flags_def same_time_def)

interpretation same_time: simulation_relation same_time
proof
  show "same_time s s'" if "cancel e s = Some s'" for s s' :: "'a sim_scheme" and e
    using that by (intro same_time_triggers triggers.R_cancel)
  show "same_time s s'" if "push_runnable_method p s = Some s'" for s s' :: "'a sim_scheme" and p
    using that by (intro same_time_triggers triggers.R_push_method)
  show "same_time s s'" if "push_runnable_thread p s = Some s'" for s s' :: "'a sim_scheme" and p
    using that by (intro same_time_triggers triggers.R_push_thread)
qed (simp_all add: same_time_def)

text \<open>Nothing is taken back from what the observer was told.\<close>

definition trace_grows :: "'a sim_scheme \<Rightarrow> 'a sim_scheme \<Rightarrow> bool" where
  "trace_grows s s' \<longleftrightarrow> (\<exists>w. trace s' = trace s @ w)"

lemma trace_grows_triggers: "triggers s s' \<Longrightarrow> trace_grows s s'"
  by (auto simp: triggers_def tells_def trace_grows_def)

interpretation trace_grows: simulation_relation trace_grows
proof
  show "trace_grows s s'" if "cancel e s = Some s'" for s s' :: "'a sim_scheme" and e
    using that by (intro trace_grows_triggers triggers.R_cancel)
  show "trace_grows s s'" if "push_runnable_method p s = Some s'" for s s' :: "'a sim_scheme" and p
    using that by (intro trace_grows_triggers triggers.R_push_method)
  show "trace_grows s s'" if "push_runnable_thread p s = Some s'" for s s' :: "'a sim_scheme" and p
    using that by (intro trace_grows_triggers triggers.R_push_thread)
  show "trace_grows s (upd_event e f s)" for s :: "'a sim_scheme" and e f
    by (intro trace_grows_triggers triggers.R_event)
qed (auto simp: trace_grows_def)

lemma next_time_same:
  fixes s :: "'a sim_scheme"
  assumes "next_time s = (r, s')"
  shows "kernel.more s' = kernel.more s \<and> m_curr_time s' = m_curr_time s \<and> m_execution_phase s' = m_execution_phase s"
  using assms
proof (induction s arbitrary: r s' rule: next_time.induct)
  case (1 k)
  note unfold = next_time.simps [of k]
  let ?et = "pq_top (m_timed_events k)"
  show ?case
  proof (cases "pq_size (m_timed_events k) > 0 \<and> et_event (et_mem k ?et) = None")
    case False
    with "1.prems" show ?thesis by (auto simp: unfold Let_def split: if_splits)
  next
    case True
    show ?thesis
    proof (cases "timed_extract_top k")
      case None
      with True "1.prems" show ?thesis by (simp add: unfold Let_def)
    next
      case (Some pk)
      obtain p k1 where pk: "pk = (p, k1)" by (cases pk)
      have "kernel.more k1 = kernel.more k \<and> m_curr_time k1 = m_curr_time k \<and> m_execution_phase k1 = m_execution_phase k"
        using Some pk by (auto simp: timed_extract_top_def split: option.splits)
      moreover have "kernel.more (delete_event_timed p k1) = kernel.more k1 \<and>
          m_curr_time (delete_event_timed p k1) = m_curr_time k1 \<and>
          m_execution_phase (delete_event_timed p k1) = m_execution_phase k1"
        by (simp add: delete_event_timed_def et_deallocate_def split: option.split)
      moreover have nt: "next_time (delete_event_timed p k1) = (r, s')"
        using True Some pk "1.prems" by (simp add: unfold Let_def)
      moreover have "kernel.more s' = kernel.more (delete_event_timed p k1) \<and>
          m_curr_time s' = m_curr_time (delete_event_timed p k1) \<and>
          m_execution_phase s' = m_execution_phase (delete_event_timed p k1)"
        using True pk by (intro "1.IH" [OF _ refl _ Some _ nt]) simp_all
      ultimately show ?thesis by simp
    qed
  qed
qed

lemma next_time_triggers:
  fixes s :: "'a sim_scheme"
  assumes "next_time s = (r, s')"
  shows "triggers s s'"
  using next_time_same [OF assms] by (intro triggers_kernel) simp_all

lemma triggers_extract:
  fixes s :: "'a sim_scheme"
  assumes "timed_extract_top s = Some (p, s')"
  shows "triggers s (delete_event_timed p s')"
proof (rule triggers_kernel)
  have "kernel.more s' = kernel.more s \<and> m_curr_time s' = m_curr_time s \<and> m_execution_phase s' = m_execution_phase s"
    using assms by (auto simp: timed_extract_top_def split: option.splits)
  then show "kernel.more (delete_event_timed p s') = kernel.more s"
    "m_curr_time (delete_event_timed p s') = m_curr_time s"
    "m_execution_phase (delete_event_timed p s') = m_execution_phase s"
    by (simp_all add: delete_event_timed_def et_deallocate_def split: option.split)
qed

lemma timed_batch_triggers:
  assumes "timed_batch t s = Some s'"
  shows "triggers s s'"
proof (rule timed_batch.raw_induct [where P = "\<lambda>t s s'. triggers s s'", OF _ assms])
  fix f t and s s' :: "'a sim_scheme"
  assume IH: "\<And>t s s'. f t s = Some s' \<Longrightarrow> triggers s s'"
    and b: "(do {
     (et, s1) \<leftarrow> timed_extract_top s;
     let e = et_event (et_mem s1 et);
     let s2 = delete_event_timed et s1;
     s3 \<leftarrow> (case e of None \<Rightarrow> Some s2 | Some v \<Rightarrow> event_trigger v s2);
     if pq_size (m_timed_events s3) > 0 \<and> et_notify_time (et_mem s3 (pq_top (m_timed_events s3))) = t
     then f t s3 else Some s3 }) = Some s'"
  then obtain et s1 s3 where s1: "timed_extract_top s = Some (et, s1)"
    and s3: "(case et_event (et_mem s1 et) of None \<Rightarrow> Some (delete_event_timed et s1)
      | Some v \<Rightarrow> event_trigger v (delete_event_timed et s1)) = Some s3"
    and rest: "s' = s3 \<or> f t s3 = Some s'"
    by (auto simp: bind_eq_Some_conv Let_def split: if_splits)
  have "triggers (delete_event_timed et s1) s3"
    using s3 triggers.T_event_trigger triggers.R_refl by (cases "et_event (et_mem s1 et)") auto
  then have "triggers s s3" using triggers_extract [OF s1] triggers.R_trans by blast
  with rest IH show "triggers s s'" using triggers.R_trans by blast
qed

lemma time_loop_time:
  assumes "time_loop until_t t s = Some (out, t', s')" "m_curr_time s \<le> until_t"
  shows "m_curr_time s \<le> m_curr_time s' \<and> m_curr_time s' \<le> until_t \<and> (\<not> out \<longrightarrow> t' \<le> until_t)"
proof -
  let ?P = "\<lambda>until_t (t :: 64 word) s r. m_curr_time s \<le> until_t \<longrightarrow> m_curr_time s \<le> m_curr_time (snd (snd r)) \<and>
    m_curr_time (snd (snd r)) \<le> until_t \<and> (\<not> fst r \<longrightarrow> fst (snd r) \<le> until_t)"
  have "?P until_t t s (out, t', s')"
  proof (rule time_loop.raw_induct [where P = ?P, OF _ assms(1)])
    fix f until_t t and s :: "'a sim_scheme" and r
    assume IH: "\<And>until_t t s r. f until_t t s = Some r \<Longrightarrow> ?P until_t t s r"
      and b: "(case next_time s of
        (None, s1) \<Rightarrow> Some (True, t, s1)
      | (Some t1, s1) \<Rightarrow>
          if t1 > until_t then Some (True, t1, s1)
          else do {
            let s2 = (if t1 > m_curr_time s1
                      then s1\<lparr>m_curr_time := t1, m_change_stamp := m_change_stamp s1 + 1\<rparr> else s1);
            s3 \<leftarrow> timed_batch t1 (observe (Point MON_TIMED_NOTIFY_PHASE_BEGIN) s2);
            idle \<leftarrow> is_empty (m_runnable s3);
            if idle then f until_t t1 s3 else Some (False, t1, s3) }) = Some r"
    obtain n s1 where n: "next_time s = (n, s1)" by fastforce
    have t1: "m_curr_time s1 = m_curr_time s" using next_time_same [OF n] by simp
    show "?P until_t t s r"
    proof (cases n)
      case None
      with b n t1 show ?thesis by auto
    next
      case (Some t1)
      show ?thesis
      proof (cases "t1 > until_t")
        case True
        with b n Some \<open>m_curr_time s1 = m_curr_time s\<close> show ?thesis by auto
      next
        case False
        let ?s2 = "if t1 > m_curr_time s1
                   then s1\<lparr>m_curr_time := t1, m_change_stamp := m_change_stamp s1 + 1\<rparr> else s1"
        obtain s3 where s3: "timed_batch t1 (observe (Point MON_TIMED_NOTIFY_PHASE_BEGIN) ?s2) = Some s3"
          and rest: "r = (False, t1, s3) \<or> f until_t t1 s3 = Some r"
          using b n Some False by (auto simp: bind_eq_Some_conv Let_def split: if_splits)
        have "m_curr_time s3 = m_curr_time ?s2"
          using same_time_triggers [OF timed_batch_triggers [OF s3]] by (simp add: same_time_def observe_def)
        then have "m_curr_time s \<le> m_curr_time s3" "m_curr_time s \<le> until_t \<longrightarrow> m_curr_time s3 \<le> until_t"
          using False \<open>m_curr_time s1 = m_curr_time s\<close> by (auto split: if_splits)
        with rest IH [of until_t t1 s3 r] False show ?thesis by auto
      qed
    qed
  qed
  with assms(2) show ?thesis by simp
qed

lemma simulate_exit_time:
  "m_curr_time s \<le> until_t \<Longrightarrow>
   m_curr_time s \<le> m_curr_time (simulate_exit until_t t s) \<and> m_curr_time (simulate_exit until_t t s) \<le> until_t"
  by (auto simp: simulate_exit_def Let_def)

lemma simulate_loop_time:
  assumes u: "obeys_all same_time u" and r: "simulate_loop u until_t s = Some (threw, s')"
    and le: "m_curr_time s \<le> until_t"
  shows "m_curr_time s \<le> m_curr_time s' \<and> m_curr_time s' \<le> until_t"
proof -
  let ?P = "\<lambda>u until_t s r. obeys_all same_time u \<longrightarrow> m_curr_time s \<le> until_t \<longrightarrow>
    m_curr_time s \<le> m_curr_time (snd r) \<and> m_curr_time (snd r) \<le> until_t"
  have "?P u until_t s (threw, s')"
  proof (rule simulate_loop.raw_induct [where P = ?P, OF _ r])
    fix f and u :: "'a sim_scheme user_code" and until_t s r
    assume IH: "\<And>u until_t s r. f u until_t s = Some r \<Longrightarrow> ?P u until_t s r"
      and b: "(do {
     (threw, s1) \<leftarrow> crunch u False s;
     if threw then Some (True, s1)
     else if m_forced_stop s1 then map_option (Pair False) (do_sc_stop_action u s1)
     else if m_paused s1 then Some (False, s1\<lparr>m_in_simulator_control := False\<rparr>)
     else do {
       (out, t, s2) \<leftarrow> time_loop until_t (m_curr_time s1) s1;
       if out then Some (False, simulate_exit until_t t s2)
       else let s3 = observe (Point MON_TIMED_NOTIFY_PHASE_END) s2
            in if t < until_t then f u until_t s3
               else Some (False, simulate_exit until_t t s3) } }) = Some r"
    show "?P u until_t s r"
    proof (intro impI)
      assume u: "obeys_all same_time u" and le: "m_curr_time s \<le> until_t"
      obtain th s1 where s1: "crunch u False s = Some (th, s1)" using b by (auto simp: bind_eq_Some_conv)
      have t1: "m_curr_time s1 = m_curr_time s"
        using same_time.L_crunch [OF obeys_allD(1) [OF u] s1] by (simp add: same_time_def)
      consider (finished) "same_time s1 (snd r)"
        | (loop) out t s2 where "time_loop until_t (m_curr_time s1) s1 = Some (out, t, s2)"
          "snd r = simulate_exit until_t t s2 \<or>
           (\<exists>s3. s3 = observe (Point MON_TIMED_NOTIFY_PHASE_END) s2 \<and>
              (f u until_t s3 = Some r \<or> snd r = simulate_exit until_t t s3))"
        using b s1 same_time.M_stop_action [OF obeys_allD(2) [OF u], of s1] same_time.R_refl [of s1] same_time.M_control [of s1 False]
        by (auto simp: bind_eq_Some_conv Let_def split: if_splits)
      then show "m_curr_time s \<le> m_curr_time (snd r) \<and> m_curr_time (snd r) \<le> until_t"
      proof cases
        case finished
        with t1 le show ?thesis by (simp add: same_time_def)
      next
        case loop
        have t2: "m_curr_time s \<le> m_curr_time s2" "m_curr_time s2 \<le> until_t"
          using time_loop_time [OF loop(1)] t1 le by auto
        let ?s3 = "observe (Point MON_TIMED_NOTIFY_PHASE_END) s2"
        have t3: "m_curr_time ?s3 = m_curr_time s2" by (simp add: observe_def)
        from loop(2) show ?thesis
        proof (elim disjE exE conjE)
          fix s3 assume "s3 = ?s3" "f u until_t s3 = Some r"
          with IH [of u until_t s3 r] u t2 t3 show ?thesis by auto
        qed (use t2 t3 simulate_exit_time [of s2 until_t t] simulate_exit_time [of ?s3 until_t t] in auto)
      qed
    qed
  qed
  with u le show ?thesis by simp
qed


lemma demo_callbacks:
  "u_thread (demo_code d) = (\<lambda>p s. Some (True, s))" "u_update (demo_code d) = (\<lambda>c s. Some s)"
  "u_channel (demo_code d) = (\<lambda>cb c s. Some s)" "u_ports (demo_code d) = (\<lambda>cb s. Some (2, s))"
  "u_modules (demo_code d) = (\<lambda>cb s. Some (True, s))"
  by (simp_all add: demo_code_def)

lemma demo_obeys: "(\<And>s s'. triggers s s' \<Longrightarrow> R s s') \<Longrightarrow> obeys_all R (demo_code d)"
  using triggers.R_refl by (auto simp: obeys_all_def obeys_callbacks_def obeys_def demo_callbacks dest: demo_code_triggers)

lemmas simulate_eval = simulate_def initialize_def elaborate_def prepare_to_simulate_def
  initial_crunch_def simulate_loop.simps time_loop.simps next_time.simps timed_batch.simps
  timed_extract_top_def delete_event_timed_def et_deallocate_def et_allocate_def sim_status_def
  simulate_exit_def do_sc_stop_action_def crunch_eval

lemmas heap_eval = pq_insert_def extract_top_def heapify.simps sift_up.simps ppq_ctor_def
  pq_top_def pq_size_def pq_left_def pq_right_def Let_def et_compare_def sc_notify_time_compare_def

lemma let_weak_cong: "x = y \<Longrightarrow> Let x f = Let y f"
  by simp

lemma demo_simulate:
  "\<exists>s'. simulate 300 400 (demo_code 3) 10 demo_start = Some (False, s') \<and> m_curr_time s' = 3"
  by (simp add: simulate_eval heap_eval demo_code_def demo_start_def cong: eval_cong let_weak_cong)


end
