(* ===== verification/Sc_Simulation.thy ===== *)
theory Sc_Simulation
  imports Sc_Time
begin

text \<open>
  The observer during a whole call of \<^verbatim>\<open>simulate\<close> (kernel/sc_simcontext.cpp): timed
  notification phases between the runs of delta cycles, and two places where what the observer
  sees is not what the phases of the standard suggest.
\<close>

section \<open>Sample points of a simulation\<close>

interpretation tells: stop_relation tells
proof
  show "tells s s''" if "tells s s'" "tells s' s''" for s s' s'' :: "'a sim_scheme"
    using that by (rule tells_trans)
qed (simp_all add: tells_def)

lemma next_time_same_trace:
  fixes s :: "'a sim_scheme"
  shows "next_time s = (r, s') \<Longrightarrow> same_trace s s'"
  using next_time_same [of s r s'] by (cases s; cases s') (simp add: same_trace_def)

lemma timed_batch_goes:
  assumes "timed_batch t (observe (Point MON_TIMED_NOTIFY_PHASE_BEGIN) s) = Some s'" "m \<in> {Between, Timing}"
  shows "goes m Timing s s'"
proof (rule goes_trans)
  show "goes m Timing s (observe (Point MON_TIMED_NOTIFY_PHASE_BEGIN) s)"
    using assms(2) by (intro goes_observe) (auto simp: phase_table_def)
  show "goes Timing Timing (observe (Point MON_TIMED_NOTIFY_PHASE_BEGIN) s) s'"
    using timed_batch_triggers [OF assms(1)] by (intro goes_tells) (auto simp: triggers_def)
qed

lemma time_loop_goes:
  assumes "time_loop until_t t s = Some (out, t', s')" "m \<in> {Between, Timing}"
  shows "\<exists>m'. goes m m' s s' \<and> m' \<in> {m, Timing} \<and> (\<not> out \<longrightarrow> m' = Timing)"
proof -
  let ?P = "\<lambda>(until_t :: 64 word) (t :: 64 word) s r. \<forall>m. m \<in> {Between, Timing} \<longrightarrow>
    (\<exists>m'. goes m m' s (snd (snd r)) \<and> m' \<in> {m, Timing} \<and> (\<not> fst r \<longrightarrow> m' = Timing))"
  have "?P until_t t s (out, t', s')"
  proof (rule time_loop.raw_induct [where P = ?P, OF _ assms(1)])
    fix f until_t t and s :: "'a sim_scheme" and r
    assume IH: "\<And>until_t t s r. f until_t t s = Some r \<Longrightarrow> ?P until_t t s r"
      and b: "(case next_time s of
        (None, s1) \<Rightarrow> Some (True, t, s1)
      | (Some t1, s1) \<Rightarrow>
          if t1 > until_t then Some (True, t1, s1)
          else do {
            let s2 = (if t1 > m_curr_time s1
                      then s1\<lparr>m_curr_time := t1, m_change_stamp := m_change_stamp s1 + 1\<rparr> else s1);
            s3 \<leftarrow> timed_batch t1 (observe (Point MON_TIMED_NOTIFY_PHASE_BEGIN) s2);
            idle \<leftarrow> is_empty (m_runnable s3);
            if idle then f until_t t1 s3 else Some (False, t1, s3) }) = Some r"
    obtain n s1 where n: "next_time s = (n, s1)" by fastforce
    let ?s2 = "\<lambda>t1. if t1 > m_curr_time s1
      then s1\<lparr>m_curr_time := t1, m_change_stamp := m_change_stamp s1 + 1\<rparr> else s1"
    have same: "goes m m s s1" "goes m m s (?s2 t1)" for m t1
      using next_time_same_trace [OF n] by (auto intro!: goes_same simp: same_trace_def)
    show "?P until_t t s r"
    proof (cases "\<exists>t1. n = Some t1 \<and> \<not> t1 > until_t")
      case False
      with b n have "fst r" "snd (snd r) = s1" by (auto split: option.splits)
      with same show ?thesis by auto
    next
      case True
      then obtain t1 where t1: "n = Some t1" "\<not> t1 > until_t" by blast
      obtain s3 where s3: "timed_batch t1 (observe (Point MON_TIMED_NOTIFY_PHASE_BEGIN) (?s2 t1)) = Some s3"
        "r = (False, t1, s3) \<or> f until_t t1 s3 = Some r"
        using b n t1 by (auto simp: bind_eq_Some_conv Let_def split: if_splits)
      show ?thesis
      proof (intro allI impI)
        fix m assume m: "m \<in> {Between, Timing}"
        have "goes m Timing s s3" using goes_trans [OF same(2) timed_batch_goes [OF s3(1) m]] .
        moreover have "f until_t t1 s3 = Some r \<Longrightarrow> goes Timing Timing s3 (snd (snd r))"
          using IH [of until_t t1 s3 r] by blast
        ultimately have "goes m Timing s (snd (snd r))" using s3(2) goes_trans by fastforce
        then show "\<exists>m'. goes m m' s (snd (snd r)) \<and> m' \<in> {m, Timing} \<and> (\<not> fst r \<longrightarrow> m' = Timing)"
          by blast
      qed
    qed
  qed
  with assms(2) show ?thesis by fastforce
qed

lemma crunch_goes:
  assumes "well_behaved u" "crunch u once s = Some (threw, s')"
  shows "\<exists>m. goes Between m s s' \<and> crunch_phase s' m \<and> threw = m_error s'"
proof -
  obtain s1 where s1: "delta_cycles u once s = Some s1" "threw = m_error s1" "s' = reset_curr_proc s1"
    using assms(2) by (auto simp: crunch_def bind_eq_Some_conv)
  from delta_cycles_goes [OF assms(1) s1(1)] s1(2,3) show ?thesis
    by (auto simp: goes_def crunch_phase_def stops_now_def reset_curr_proc_def)
qed

text \<open>The phase in which a run of the simulation is left.\<close>

definition left_in :: "bool \<times> 'a sim_scheme \<Rightarrow> phase \<Rightarrow> bool" where
  "left_in r m \<longleftrightarrow> m \<in> {Between, Timing, Evaluating, Notifying} \<and> (fst r \<longrightarrow> m = Evaluating)"

lemma stopped_goes:
  assumes "obeys_callbacks tells u" "do_sc_stop_action u s = Some s'" "m \<in> {Evaluating, Notifying}"
  shows "goes m m s s'"
  using goes_tells [OF tells.M_stop_action [OF assms(1,2)], of m] assms(3) by auto

lemma goes_exit: "goes m m s (simulate_exit until_t t s)"
  by (intro goes_same) (simp add: same_trace_def simulate_exit_def Let_def)

lemma goes_control: "goes m m s (s\<lparr>m_in_simulator_control := b\<rparr>)"
  by (intro goes_same) (simp add: same_trace_def)

lemma simulate_loop_goes:
  assumes w: "well_behaved u" "obeys_callbacks tells u" and r: "simulate_loop u until_t s = Some r"
  shows "\<exists>m. goes Between m s (snd r) \<and> left_in r m"
proof -
  let ?P = "\<lambda>u (until_t :: 64 word) s r. well_behaved u \<and> obeys_callbacks tells u \<longrightarrow>
    (\<exists>m. goes Between m s (snd r) \<and> left_in r m)"
  have "?P u until_t s r"
  proof (rule simulate_loop.raw_induct [where P = ?P, OF _ r])
    fix f and u :: "'a sim_scheme user_code" and until_t s r
    assume IH: "\<And>u until_t s r. f u until_t s = Some r \<Longrightarrow> ?P u until_t s r"
      and b: "(do {
     (threw, s1) \<leftarrow> crunch u False s;
     if threw then Some (True, s1)
     else if m_forced_stop s1 then map_option (Pair False) (do_sc_stop_action u s1)
     else if m_paused s1 then Some (False, s1\<lparr>m_in_simulator_control := False\<rparr>)
     else do {
       (out, t, s2) \<leftarrow> time_loop until_t (m_curr_time s1) s1;
       if out then Some (False, simulate_exit until_t t s2)
       else let s3 = observe (Point MON_TIMED_NOTIFY_PHASE_END) s2
            in if t < until_t then f u until_t s3
               else Some (False, simulate_exit until_t t s3) } }) = Some r"
    show "?P u until_t s r"
    proof (intro impI, elim conjE)
      assume u: "well_behaved u" "obeys_callbacks tells u"
      obtain th s1 where s1: "crunch u False s = Some (th, s1)" using b by (auto simp: bind_eq_Some_conv)
      obtain m where m: "goes Between m s s1" "crunch_phase s1 m" "th = m_error s1"
        using crunch_goes [OF u(1) s1] by blast
      show "\<exists>m. goes Between m s (snd r) \<and> left_in r m"
      proof (cases "m_error s1 \<or> m_forced_stop s1 \<or> m_paused s1")
        case True
        consider (threw) "m_error s1" | (stopped) "\<not> m_error s1" "m_forced_stop s1"
          | (paused) "\<not> m_error s1" "\<not> m_forced_stop s1" "m_paused s1" using True by blast
        then show ?thesis
        proof cases
          case threw
          with b s1 m show ?thesis by (auto simp: crunch_phase_def left_in_def)
        next
          case stopped
          then obtain s2 where s2: "do_sc_stop_action u s1 = Some s2" "r = (False, s2)" using b s1 m(3) by auto
          have "m \<in> {Evaluating, Notifying}" using m(2) stopped by (auto simp: crunch_phase_def)
          with s2 show ?thesis
            using goes_trans [OF m(1) stopped_goes [OF u(2) s2(1)]] by (auto simp: left_in_def)
        next
          case paused
          then have "m = Between" using m(2) by (auto simp: crunch_phase_def)
          with paused b s1 m(3) show ?thesis
            using goes_trans [OF m(1) goes_control [where b = False]]
            by (auto simp: left_in_def intro!: exI [of _ Between])
        qed
      next
        case False
        then obtain out t s2 where loop: "time_loop until_t (m_curr_time s1) s1 = Some (out, t, s2)"
          using b s1 m(3) by (auto simp: bind_eq_Some_conv)
        have rest: "if out then r = (False, simulate_exit until_t t s2) else
            (let s3 = observe (Point MON_TIMED_NOTIFY_PHASE_END) s2
             in f u until_t s3 = Some r \<or> r = (False, simulate_exit until_t t s3))"
          using b s1 m(3) False loop by (auto simp: Let_def split: if_splits)
        have "m = Between" using m(2) False by (auto simp: crunch_phase_def)
        then obtain m' where m': "goes Between m' s s2" "m' \<in> {Between, Timing}" "\<not> out \<longrightarrow> m' = Timing"
          using time_loop_goes [OF loop, of Between] goes_trans m(1) by blast
        let ?s3 = "observe (Point MON_TIMED_NOTIFY_PHASE_END) s2"
        have s3: "\<not> out \<Longrightarrow> goes Between Between s ?s3"
          using goes_trans [OF m'(1) goes_observe] m'(3) by (simp add: phase_table_def)
        show ?thesis
        proof (cases out)
          case True
          with rest show ?thesis using goes_trans [OF m'(1) goes_exit] m'(2) by (auto simp: left_in_def)
        next
          case False
          with rest consider "f u until_t ?s3 = Some r" | "r = (False, simulate_exit until_t t ?s3)"
            by (auto simp: Let_def)
          then show ?thesis
          proof cases
            case 1
            then show ?thesis using IH u goes_trans [OF s3 [OF False]] by blast
          next
            case 2
            then show ?thesis using goes_trans [OF s3 [OF False] goes_exit] by (auto simp: left_in_def)
          qed
        qed
      qed
    qed
  qed
  with w show ?thesis by simp
qed

text \<open>
  C4. Over a call of \<^verbatim>\<open>simulate\<close> on an elaborated and initialized model the observer sees
  delta cycles and, between them, timed notification phases; the begin of a timed phase can be
  told again and again before its end, and the call can return with the phase open.  An
  exception leaves only an evaluation phase open.\<close>

theorem simulate_sample_points:
  assumes w: "well_behaved u" "obeys_callbacks tells u" and "observer_attached s"
    and ready: "m_elaboration_done s" "m_ready_to_simulate s"
    and r: "simulate fm ft u d s = Some (threw, s')" and fits: "d \<le> - 1 - m_curr_time s"
  shows "\<exists>v m. trace s' = trace s @ v \<and> phase_run Between v = Some m \<and>
    m \<in> {Between, Timing, Evaluating, Notifying} \<and> (threw \<longrightarrow> m = Evaluating)"
proof -
  let ?s1 = "s\<lparr>m_in_simulator_control := False\<rparr>"
  let ?s2 = "s\<lparr>m_in_simulator_control := True, m_paused := False\<rparr>"
  have init: "initialize fm ft u True s = Some (False, ?s1)"
    using ready by (simp add: initialize_def elaborate_def prepare_to_simulate_def initial_crunch_def)
  have start: "goes Between Between s ?s1" "goes Between Between s ?s2"
    by (auto intro: goes_same simp: same_trace_def)
  have "\<exists>m. goes Between m s s' \<and> left_in (threw, s') m"
  proof (cases "sim_status ?s1 = SC_SIM_OK")
    case False
    with r init start(1) show ?thesis by (auto simp: simulate_def left_in_def)
  next
    case ok: True
    show ?thesis
    proof (cases "d = 0")
      case False
      with ok r init fits have "simulate_loop u (m_curr_time s + d) ?s2 = Some (threw, s')"
        by (auto simp: simulate_def split: if_splits)
      from simulate_loop_goes [OF w this] show ?thesis using goes_trans [OF start(2)] by auto
    next
      case True
      with ok r init fits obtain th s3 where s3: "crunch u True ?s2 = Some (th, s3)"
        and rest: "if th then threw \<and> s' = s3 else \<not> threw \<and> (\<exists>s4. s' = s4\<lparr>m_in_simulator_control := False\<rparr> \<and>
          (if m_forced_stop s3 then do_sc_stop_action u s3 = Some s4 else s4 = s3))"
        by (auto simp: simulate_def bind_eq_Some_conv split: if_splits)
      obtain m where m: "goes Between m ?s2 s3" "crunch_phase s3 m" "th = m_error s3"
        using crunch_goes [OF w(1) s3] by blast
      note to_s3 = goes_trans [OF start(2) m(1)]
      show ?thesis
      proof (cases "\<not> th \<and> m_forced_stop s3")
        case True
        then have "m \<in> {Evaluating, Notifying}" using m(2) by (auto simp: crunch_phase_def)
        moreover obtain s4 where "s' = s4\<lparr>m_in_simulator_control := False\<rparr>" "do_sc_stop_action u s3 = Some s4" "\<not> threw"
          using rest True by auto
        ultimately show ?thesis
          using goes_trans [OF goes_trans [OF to_s3 stopped_goes [OF w(2)]] goes_control] by (auto simp: left_in_def)
      next
        case False
        have e: "goes Between m s (s3\<lparr>m_in_simulator_control := False\<rparr>)"
          using goes_trans [OF to_s3 goes_control] .
        from False rest to_s3 e have "goes Between m s s'" "threw = th" by (auto split: if_splits)
        with m(2,3) show ?thesis by (auto simp: left_in_def crunch_phase_def)
      qed
    qed
  qed
  with \<open>observer_attached s\<close> show ?thesis by (auto simp: goes_def left_in_def)
qed

section \<open>A timed phase that is not closed\<close>

text \<open>The design of \<open>demo_start\<close> where nothing is sensitive to event 6.\<close>

definition demo_unheard :: sim where
  "demo_unheard = upd_event 6 (\<lambda>v. v\<lparr>m_methods_static := []\<rparr>) demo_start"

lemma demo_unheard_run:
  "\<exists>s'. simulate 300 400 (demo_code 3) 10 demo_unheard = Some (False, s') \<and>
     trace s' = map Point [MON_EVALUATION_PHASE_BEGIN, MON_METHOD_SUSPEND, MON_EVALUATION_PHASE_END,
       MON_UPDATE_PHASE_BEGIN, MON_UPDATE_PHASE_END, MON_DELTA_NOTIFY_PHASE_BEGIN,
       MON_DELTA_NOTIFY_PHASE_END, MON_TIMED_NOTIFY_PHASE_BEGIN] @ [EventNotified 6]"
  by (simp add: simulate_eval heap_eval demo_code_def demo_unheard_def demo_start_def cong: eval_cong let_weak_cong)

theorem simulate_sample_points_witness:
  "\<exists>s'. simulate 300 400 (demo_code 3) 10 demo_unheard = Some (False, s') \<and>
     phase_run Between (trace s') = Some Timing"
proof -
  obtain s' where s': "simulate 300 400 (demo_code 3) 10 demo_unheard = Some (False, s')"
    "last (trace s') = EventNotified 6" "phase_run Between (trace s') \<noteq> Some Evaluating"
    "phase_run Between (trace s') \<noteq> Some Notifying" "phase_run Between (trace s') \<noteq> Some Between"
    using demo_unheard_run by (auto simp: phase_table_def)
  have "obeys_callbacks tells (demo_code 3)" by (auto simp: obeys_callbacks_def demo_callbacks)
  moreover have "observer_attached demo_unheard" "m_elaboration_done demo_unheard"
    "m_ready_to_simulate demo_unheard" "trace demo_unheard = []" "m_curr_time demo_unheard = 0"
    by (simp_all add: demo_unheard_def demo_start_def demo_eval)
  ultimately obtain m where "phase_run Between (trace s') = Some m" "m \<in> {Between, Timing, Evaluating, Notifying}"
    using simulate_sample_points [OF demo_well_behaved _ _ _ _ s'(1)] by auto
  with s' show ?thesis by auto
qed

section \<open>An event that is told twice\<close>

text \<open>
  A method waits for event 6 with a zero timeout, and event 6 is notified with a zero delay.
  The loop over the delta notifications triggers event 6 first; the method cancels its timeout,
  whose place in the vector event 6 takes while the loop is under way; so the loop meets event 6
  again and the observer is told of one notification twice.\<close>

theorem zero_timeout_observed_twice:
  "\<exists>s1 s2 s3. next_trigger 1 (WTimeEvent 0 6) (upd_event 6 (\<lambda>v. v\<lparr>ev_observer := True\<rparr>) demo_sim) = Some s1 \<and>
     notify_time 6 0 s1 = Some s2 \<and> m_delta_events s2 = [m_timeout_event_p (procs s2 1), 6] \<and> trace s2 = [] \<and>
     notify_deltas s2 = Some s3 \<and> trace s3 = [EventNotified 6, EventNotified 6] \<and> m_delta_events s3 = []"
  by (simp add: next_trigger_def clear_trigger_def register_wait_def arm_timeout_def wait_event_def
      notify_internal_def add_dynamic_method_def notify_deltas_def numeral_2_eq_2 dynamic_switch_def method_trigger_dynamic_def
      delta_loop.simps event_eval demo_eval push_eval cancel_def remove_delta_event_def event_reset_def clear_timeout_def Let_def
      cong: eval_cong let_weak_cong)

end
