(* ===== verification/Sc_Signal.thy ===== *)
theory Sc_Signal
  imports Sc_Prim_Channel
begin

unbundle bit_operations_syntax

text \<open>
  Signals (communication/sc_signal.h, communication/sc_writer_policy.h, communication/sc_signal.cpp),
  buffers (communication/sc_buffer.h) and clocks (communication/sc_clock.h,
  communication/sc_clock.cpp).  An object is a record; an operation takes it with the state of the
  simulation.  A report of severity error is an exception: result \<open>Inl\<close>, or \<open>None\<close> where only
  the exceptions of the kernel can occur.  \<^verbatim>\<open>operator ==\<close> of the type of values is equality.
\<close>

section \<open>Writer policies\<close>

datatype sc_writer_policy = SC_ONE_WRITER | SC_MANY_WRITERS | SC_UNCHECKED_WRITERS

text \<open>The target of the report, the two writers, and whether a delta cycle is reported.\<close>

datatype chan_error = MORE_THAN_ONE_SIGNAL_DRIVER nat nat bool | ATTEMPT_TO_BIND_CLOCK_TO_OUTPUT
  | ATTEMPT_TO_WRITE_TO_CLOCK | CLOCK_PERIOD_ZERO | CLOCK_HIGH_TIME_ZERO | CLOCK_LOW_TIME_ZERO

record 'v sc_signal =
  sig_policy :: sc_writer_policy
  m_output :: "nat option"
  m_writer_p :: "nat option"
  m_cur_val :: 'v
  m_new_val :: 'v
  m_change_event_p :: "nat option"
  sig_change_stamp :: "64 word"

definition sc_signal_ctor :: "sc_writer_policy \<Rightarrow> 'v \<Rightarrow> 'v sc_signal" where
  "sc_signal_ctor pol t0 =
     \<lparr>sig_policy = pol, m_output = None, m_writer_p = None, m_cur_val = t0, m_new_val = t0,
      m_change_event_p = None, sig_change_stamp = NOT 1\<rparr>"

definition get_current_writer :: "bool \<Rightarrow> 'a sim_scheme \<Rightarrow> nat option" where
  "get_current_writer write_check s = (if write_check then m_curr_proc s else None)"

definition check_port :: "bool \<Rightarrow> nat \<Rightarrow> bool \<Rightarrow> ('v, 'b) sc_signal_scheme \<Rightarrow> chan_error + ('v, 'b) sc_signal_scheme" where
  "check_port write_check port is_output g =
     (if sig_policy g = SC_ONE_WRITER \<and> is_output \<and> write_check
      then (case m_output g of
              Some p \<Rightarrow> Inl (MORE_THAN_ONE_SIGNAL_DRIVER p port False)
            | None \<Rightarrow> Inr (g\<lparr>m_output := Some port\<rparr>))
      else Inr g)"

definition check_writer :: "nat option \<Rightarrow> bool \<Rightarrow> ('v, 'b) sc_signal_scheme \<Rightarrow> chan_error + ('v, 'b) sc_signal_scheme" where
  "check_writer writer check_delta g =
     (case m_writer_p g of
        None \<Rightarrow> Inr (g\<lparr>m_writer_p := writer\<rparr>)
      | Some p \<Rightarrow> (case writer of
            Some q \<Rightarrow> if p \<noteq> q then Inl (MORE_THAN_ONE_SIGNAL_DRIVER p q check_delta) else Inr g
          | None \<Rightarrow> Inr g))"

definition check_write :: "nat option \<Rightarrow> bool \<Rightarrow> ('v, 'b) sc_signal_scheme \<Rightarrow> chan_error + ('v, 'b) sc_signal_scheme" where
  "check_write writer value_changed g =
     (case sig_policy g of
        SC_ONE_WRITER \<Rightarrow> check_writer writer False g
      | SC_MANY_WRITERS \<Rightarrow> if value_changed then check_writer writer True g else Inr g
      | SC_UNCHECKED_WRITERS \<Rightarrow> Inr g)"

definition policy_update :: "('v, 'b) sc_signal_scheme \<Rightarrow> ('v, 'b) sc_signal_scheme" where
  "policy_update g = (if sig_policy g = SC_MANY_WRITERS then g\<lparr>m_writer_p := None\<rparr> else g)"

section \<open>Signals\<close>

text \<open>\<open>fresh\<close> is the event that is allocated on the first use.\<close>

definition value_changed_event :: "nat \<Rightarrow> ('v, 'b) sc_signal_scheme \<Rightarrow> nat \<times> ('v, 'b) sc_signal_scheme" where
  "value_changed_event fresh g =
     (case m_change_event_p g of Some e \<Rightarrow> (e, g) | None \<Rightarrow> (fresh, g\<lparr>m_change_event_p := Some fresh\<rparr>))"

definition signal_read :: "('v, 'b) sc_signal_scheme \<Rightarrow> 'v" where
  "signal_read g = m_cur_val g"

definition signal_event :: "('v, 'b) sc_signal_scheme \<Rightarrow> 'a sim_scheme \<Rightarrow> bool" where
  "signal_event g s \<longleftrightarrow> m_change_stamp s = sig_change_stamp g"

definition signal_write ::
  "bool \<Rightarrow> nat \<Rightarrow> 'v \<Rightarrow> ('v, 'b) sc_signal_scheme \<Rightarrow> 'a sim_scheme \<Rightarrow>
   chan_error + ('v, 'b) sc_signal_scheme \<times> 'a sim_scheme" where
  "signal_write write_check c v g s =
     (let value_changed = (m_cur_val g \<noteq> v)
      in case check_write (get_current_writer write_check s) value_changed g of
           Inl e \<Rightarrow> Inl e
         | Inr g1 \<Rightarrow> Inr (g1\<lparr>m_new_val := v\<rparr>, if value_changed then request_update c s else s))"

text \<open>\<^verbatim>\<open>if( e ) e->notify_next_delta()\<close>\<close>

definition notify_if :: "nat option \<Rightarrow> 'a sim_scheme \<Rightarrow> 'a sim_scheme option" where
  "notify_if e s = (case e of None \<Rightarrow> Some s | Some e \<Rightarrow> notify_next_delta e s)"

definition signal_update ::
  "('v, 'b) sc_signal_scheme \<Rightarrow> 'a sim_scheme \<Rightarrow> (('v, 'b) sc_signal_scheme \<times> 'a sim_scheme) option" where
  "signal_update g0 s =
     (let g = policy_update g0
      in if m_new_val g \<noteq> m_cur_val g
         then do {
           s1 \<leftarrow> notify_if (m_change_event_p g) s;
           Some (g\<lparr>m_cur_val := m_new_val g, sig_change_stamp := m_change_stamp s1\<rparr>, s1) }
         else Some (g, s))"

text \<open>A buffer is a signal with these two operations.\<close>

definition buffer_write ::
  "bool \<Rightarrow> nat \<Rightarrow> 'v \<Rightarrow> ('v, 'b) sc_signal_scheme \<Rightarrow> 'a sim_scheme \<Rightarrow>
   chan_error + ('v, 'b) sc_signal_scheme \<times> 'a sim_scheme" where
  "buffer_write write_check c v g s =
     (case check_write (get_current_writer write_check s) True g of
        Inl e \<Rightarrow> Inl e
      | Inr g1 \<Rightarrow> Inr (g1\<lparr>m_new_val := v\<rparr>, request_update c s))"

definition buffer_update ::
  "('v, 'b) sc_signal_scheme \<Rightarrow> 'a sim_scheme \<Rightarrow> (('v, 'b) sc_signal_scheme \<times> 'a sim_scheme) option" where
  "buffer_update g0 s =
     (let g = policy_update g0
      in do {
        s1 \<leftarrow> (case m_change_event_p g of None \<Rightarrow> Some s | Some e \<Rightarrow> notify_time e 0 s);
        Some (g\<lparr>m_cur_val := m_new_val g, sig_change_stamp := m_change_stamp s1\<rparr>, s1) })"

section \<open>Signals of type bool\<close>

record sc_signal_bool = "bool sc_signal" +
  m_negedge_event_p :: "nat option"
  m_posedge_event_p :: "nat option"
  m_reset_p :: "nat option"

definition sc_signal_bool_ctor :: "sc_writer_policy \<Rightarrow> sc_signal_bool" where
  "sc_signal_bool_ctor pol = sc_signal.extend (sc_signal_ctor pol False)
     \<lparr>m_negedge_event_p = None, m_posedge_event_p = None, m_reset_p = None\<rparr>"

definition posedge_event :: "nat \<Rightarrow> 'b sc_signal_bool_scheme \<Rightarrow> nat \<times> 'b sc_signal_bool_scheme" where
  "posedge_event fresh g =
     (case m_posedge_event_p g of Some e \<Rightarrow> (e, g) | None \<Rightarrow> (fresh, g\<lparr>m_posedge_event_p := Some fresh\<rparr>))"

definition negedge_event :: "nat \<Rightarrow> 'b sc_signal_bool_scheme \<Rightarrow> nat \<times> 'b sc_signal_bool_scheme" where
  "negedge_event fresh g =
     (case m_negedge_event_p g of Some e \<Rightarrow> (e, g) | None \<Rightarrow> (fresh, g\<lparr>m_negedge_event_p := Some fresh\<rparr>))"

definition posedge :: "'b sc_signal_bool_scheme \<Rightarrow> 'a sim_scheme \<Rightarrow> bool" where
  "posedge g s \<longleftrightarrow> signal_event g s \<and> m_cur_val g"

definition negedge :: "'b sc_signal_bool_scheme \<Rightarrow> 'a sim_scheme \<Rightarrow> bool" where
  "negedge g s \<longleftrightarrow> signal_event g s \<and> \<not> m_cur_val g"

text \<open>The reset mechanism of kernel/sc_reset.cpp is not modelled: a change of a signal that
  resets processes is outcome \<open>None\<close>.\<close>

definition bool_update ::
  "'b sc_signal_bool_scheme \<Rightarrow> 'a sim_scheme \<Rightarrow> ('b sc_signal_bool_scheme \<times> 'a sim_scheme) option" where
  "bool_update g0 s =
     (let g = policy_update g0
      in if m_new_val g \<noteq> m_cur_val g
         then if m_reset_p g \<noteq> None then None
         else do {
           let g1 = g\<lparr>m_cur_val := m_new_val g\<rparr>;
           s1 \<leftarrow> notify_if (m_change_event_p g1) s;
           s2 \<leftarrow> notify_if (if m_cur_val g1 then m_posedge_event_p g1 else m_negedge_event_p g1) s1;
           Some (g1\<lparr>sig_change_stamp := m_change_stamp s2\<rparr>, s2) }
         else Some (g, s))"

section \<open>Clocks\<close>

text \<open>\<open>m_negedge_time\<close> is the product of the period and the duty cycle in floating point, given
  by \<open>high\<close>.\<close>

record sc_clock = sc_signal_bool +
  m_period :: "64 word"
  m_start_time :: "64 word"
  m_posedge_first :: bool
  m_posedge_time :: "64 word"
  m_negedge_time :: "64 word"
  m_next_posedge_event :: nat
  m_next_negedge_event :: nat

definition clock_init ::
  "64 word \<Rightarrow> (64 word \<Rightarrow> 64 word) \<Rightarrow> 64 word \<Rightarrow> bool \<Rightarrow> sc_clock \<Rightarrow> chan_error + sc_clock" where
  "clock_init period high start_time posedge_first k =
     (if period = 0 then Inl CLOCK_PERIOD_ZERO
      else if high period = 0 then Inl CLOCK_HIGH_TIME_ZERO
      else if period - high period = 0 then Inl CLOCK_LOW_TIME_ZERO
      else Inr (k\<lparr>m_cur_val := \<not> posedge_first, m_new_val := \<not> posedge_first, m_period := period,
        m_start_time := start_time, m_posedge_first := posedge_first,
        m_posedge_time := period - high period, m_negedge_time := high period\<rparr>))"

definition sc_clock_ctor ::
  "64 word \<Rightarrow> (64 word \<Rightarrow> 64 word) \<Rightarrow> 64 word \<Rightarrow> bool \<Rightarrow> nat \<Rightarrow> nat \<Rightarrow> 'a sim_scheme \<Rightarrow>
   chan_error + sc_clock \<times> 'a sim_scheme" where
  "sc_clock_ctor period high start_time posedge_first ep en s =
     (case clock_init period high start_time posedge_first (sc_signal_bool.extend (sc_signal_bool_ctor SC_ONE_WRITER)
        \<lparr>m_period = 0, m_start_time = 0, m_posedge_first = False, m_posedge_time = 0, m_negedge_time = 0,
         m_next_posedge_event = ep, m_next_negedge_event = en\<rparr>) of
        Inl e \<Rightarrow> Inl e
      | Inr k \<Rightarrow> Inr (k, notify_internal (if posedge_first then ep else en) start_time s))"

definition clock_write :: "bool \<Rightarrow> sc_clock \<Rightarrow> chan_error + sc_clock" where
  "clock_write v k = Inl ATTEMPT_TO_WRITE_TO_CLOCK"

definition clock_register_port :: "bool \<Rightarrow> sc_clock \<Rightarrow> chan_error + sc_clock" where
  "clock_register_port is_inout k = (if is_inout then Inl ATTEMPT_TO_BIND_CLOCK_TO_OUTPUT else Inr k)"

definition posedge_action :: "nat \<Rightarrow> sc_clock \<Rightarrow> 'a sim_scheme \<Rightarrow> sc_clock \<times> 'a sim_scheme" where
  "posedge_action c k s =
     (k\<lparr>m_new_val := True\<rparr>, request_update c (notify_internal (m_next_negedge_event k) (m_negedge_time k) s))"

definition negedge_action :: "nat \<Rightarrow> sc_clock \<Rightarrow> 'a sim_scheme \<Rightarrow> sc_clock \<times> 'a sim_scheme" where
  "negedge_action c k s =
     (k\<lparr>m_new_val := False\<rparr>, request_update c (notify_internal (m_next_posedge_event k) (m_posedge_time k) s))"

section \<open>Writing and updating\<close>

text \<open>
  A signal whose update is not pending has no new value.  Writes by a list of processes, one
  after the other.
\<close>

definition settled :: "nat \<Rightarrow> ('v, 'b) sc_signal_scheme \<Rightarrow> 'a sim_scheme \<Rightarrow> bool" where
  "settled c g s \<longleftrightarrow> m_update_next_p s c = Null \<longrightarrow> m_new_val g = m_cur_val g"

fun signal_writes ::
  "bool \<Rightarrow> nat \<Rightarrow> (nat option \<times> 'v) list \<Rightarrow> ('v, 'b) sc_signal_scheme \<Rightarrow> 'a sim_scheme \<Rightarrow>
   chan_error + ('v, 'b) sc_signal_scheme \<times> 'a sim_scheme" where
  "signal_writes chk c [] g s = Inr (g, s)"
| "signal_writes chk c ((p, v) # ws) g s =
     (case signal_write chk c v g (s\<lparr>m_curr_proc := p\<rparr>) of
        Inl e \<Rightarrow> Inl e
      | Inr (g1, s1) \<Rightarrow> signal_writes chk c ws g1 s1)"

lemma check_writer_Inr:
  "check_writer w d g = Inr g1 \<longleftrightarrow>
     (m_writer_p g = None \<and> g1 = g\<lparr>m_writer_p := w\<rparr> \<or>
      (\<exists>p. m_writer_p g = Some p \<and> (w = None \<or> w = Some p) \<and> g1 = g))"
  by (auto simp: check_writer_def split: option.splits)

lemma check_write_keeps:
  "check_write w b g = Inr g1 \<Longrightarrow> m_cur_val g1 = m_cur_val g \<and> m_change_event_p g1 = m_change_event_p g \<and>
     sig_policy g1 = sig_policy g \<and> sig_change_stamp g1 = sig_change_stamp g"
  by (auto simp: check_write_def check_writer_Inr split: sc_writer_policy.splits if_splits)

lemma ev_inv_curr [simp]: "ev_inv (s\<lparr>m_curr_proc := p\<rparr>) = ev_inv s"
  by (simp add: ev_inv_def heap_inv_def)

lemma pending_curr [simp]: "pending (s\<lparr>m_curr_proc := p\<rparr>) = pending s"
  by (rule pending_cong) simp_all

lemma signal_write_ok:
  assumes "settled c g s" "signal_write chk c v g s = Inr (g1, s1)" "m_update_list_p s \<noteq> Null" "ev_inv s"
  shows "settled c g1 s1 \<and> m_new_val g1 = v \<and> m_cur_val g1 = m_cur_val g \<and> m_change_event_p g1 = m_change_event_p g \<and>
    sig_policy g1 = sig_policy g \<and> m_update_list_p s1 \<noteq> Null \<and> ev_inv s1 \<and> pending s1 = pending s"
proof -
  let ?b = "m_cur_val g \<noteq> v"
  obtain g0 where g0: "check_write (get_current_writer chk s) ?b g = Inr g0" and g1: "g1 = g0\<lparr>m_new_val := v\<rparr>"
    and s1: "s1 = (if ?b then request_update c s else s)"
    using assms(2) by (auto simp: signal_write_def Let_def split: sum.splits)
  have "m_update_list_p (request_update c s) \<noteq> Null" "m_update_next_p (request_update c s) c \<noteq> Null"
    using assms(3) by (auto simp: request_update_def)
  then show ?thesis
    using check_write_keeps [OF g0] assms by (auto simp: g1 s1 settled_def)
qed

lemma signal_writes_ok:
  "settled c g s \<Longrightarrow> signal_writes chk c ws g s = Inr (g1, s1) \<Longrightarrow> m_update_list_p s \<noteq> Null \<Longrightarrow> ev_inv s \<Longrightarrow>
   settled c g1 s1 \<and> m_new_val g1 = last (m_new_val g # map snd ws) \<and> m_cur_val g1 = m_cur_val g \<and>
   m_change_event_p g1 = m_change_event_p g \<and> sig_policy g1 = sig_policy g \<and> ev_inv s1 \<and> pending s1 = pending s"
proof (induction ws arbitrary: g s)
  case (Cons w ws)
  obtain p v where w: "w = (p, v)" by fastforce
  obtain g2 s2 where 2: "signal_write chk c v g (s\<lparr>m_curr_proc := p\<rparr>) = Inr (g2, s2)"
    "signal_writes chk c ws g2 s2 = Inr (g1, s1)"
    using Cons.prems(2) w by (auto split: sum.splits)
  have "settled c g (s\<lparr>m_curr_proc := p\<rparr>)" using Cons.prems(1) by (simp add: settled_def)
  note ok = signal_write_ok [OF this 2(1)]
  then have "settled c g2 s2" "m_update_list_p s2 \<noteq> Null" "ev_inv s2" using Cons.prems(3,4) by simp_all
  from Cons.IH [OF this(1) 2(2) this(2,3)] ok Cons.prems(3,4) w show ?case by auto
qed auto

lemma notify_if_ok:
  assumes "ev_inv s" "\<And>e. ev = Some e \<Longrightarrow> pending s e = NotPending"
  shows "\<exists>s1. notify_if ev s = Some s1 \<and> ev_inv s1 \<and> same_ctx s s1 \<and>
    pending s1 = (case ev of None \<Rightarrow> pending s | Some e \<Rightarrow> (pending s)(e := PendDelta))"
proof (cases ev)
  case (Some e)
  then have "m_notify_type (events s e) = NONE" using assms(2) by (simp add: pending_NotPending)
  then show ?thesis
    using notify_delta_ok [OF assms(1), of e] assms(2) Some by (auto simp: notify_if_def notify_next_delta_def)
qed (use assms in \<open>simp add: notify_if_def\<close>)

lemma same_ctx_stamp: "same_ctx s s1 \<Longrightarrow> m_change_stamp s1 = m_change_stamp s"
  for s s1 :: "'a sim_scheme"
  by (cases s; cases s1) (simp add: same_ctx_def)

lemma policy_update_keeps [simp]:
  "m_cur_val (policy_update g) = m_cur_val g" "m_new_val (policy_update g) = m_new_val g"
  "m_change_event_p (policy_update g) = m_change_event_p g"
  by (simp_all add: policy_update_def)

text \<open>
  C19. In a delta cycle every read of a signal gives the old value, whatever is written.  The
  update phase installs the value written last; the value changed event is notified for the next
  delta cycle, and \<^verbatim>\<open>event()\<close> holds then, exactly when that value differs from the old one.\<close>

theorem signal_takes_last_write:
  assumes "settled c g s" "signal_writes chk c ws g s = Inr (g1, s1)" "m_update_list_p s \<noteq> Null" "ev_inv s"
    and e: "m_change_event_p g = Some e" "pending s e = NotPending"
    and old: "m_change_stamp s1 \<noteq> sig_change_stamp g1"
  shows "signal_read g1 = signal_read g \<and>
    (\<exists>g2 s2. signal_update g1 s1 = Some (g2, s2) \<and> signal_read g2 = last (m_new_val g # map snd ws) \<and>
       (pending s2 e = PendDelta \<longleftrightarrow> signal_read g2 \<noteq> signal_read g) \<and>
       (signal_event g2 s2 \<longleftrightarrow> signal_read g2 \<noteq> signal_read g) \<and> (\<forall>f. f \<noteq> e \<longrightarrow> pending s2 f = pending s f))"
proof -
  note w = signal_writes_ok [OF assms(1-4)]
  then have ev: "m_change_event_p (policy_update g1) = Some e" using e(1) by simp
  obtain s2 where s2: "notify_if (m_change_event_p (policy_update g1)) s1 = Some s2" "same_ctx s1 s2"
    "pending s2 = (pending s1)(e := PendDelta)"
    using notify_if_ok [of s1 "m_change_event_p (policy_update g1)"] w e ev by auto
  show ?thesis
  proof (cases "m_new_val g1 = m_cur_val g1")
    case True
    with w old e show ?thesis
      by (auto simp: signal_update_def signal_read_def signal_event_def policy_update_def)
  next
    case False
    with w s2 e show ?thesis
      by (auto simp: signal_update_def signal_read_def signal_event_def same_ctx_stamp)
  qed
qed

section \<open>Writer policies\<close>


text \<open>
  Under \<^verbatim>\<open>SC_MANY_WRITERS\<close> a conflict in a delta cycle is found only if both writes change
  the value: when process 1 writes a new value and process 2 the old one, nothing is reported and
  the signal keeps the old value.\<close>

theorem old_value_hides_conflict:
  assumes g: "sig_policy g = SC_MANY_WRITERS" "m_writer_p g = None" and v: "v \<noteq> m_cur_val g"
  shows "(\<exists>g1 s1. signal_writes True c [(Some 1, v), (Some 2, m_cur_val g)] g s = Inr (g1, s1) \<and>
    m_new_val g1 = m_cur_val g \<and> m_writer_p g1 = Some 1) \<and>
    (\<exists>e. signal_writes True c [(Some 1, v), (Some 2, v)] g s = Inl e)"
  using assms
  by (auto simp: Let_def signal_write_def check_write_def check_writer_def get_current_writer_def request_update_def)

text \<open>A signal of numbers that two processes write to.\<close>

definition demo_signal :: "nat sc_signal" where
  "demo_signal = (sc_signal_ctor SC_MANY_WRITERS 0)\<lparr>m_change_event_p := Some 3\<rparr>"

definition demo_running :: sim where
  "demo_running = (sc_simcontext_init (\<lambda>_. 0) (sc_process_ctor SC_METHOD_PROC) (\<lambda>_. 0))\<lparr>m_change_stamp := 8\<rparr>"

lemma demo_running:
  "ev_inv demo_running" "pending demo_running e = NotPending" "m_update_list_p demo_running \<noteq> Null"
  using ev_inv_init [of "\<lambda>_. 0"]
  by (simp_all add: demo_running_def sc_simcontext_init_def kernel.defs ev_inv_def heap_inv_def kernel_init_def
      pending_NotPending sc_event_ctor_def)

theorem signal_takes_last_write_witness:
  "\<exists>g1 s1 g2 s2. signal_writes True 7 [(Some 1, 5), (Some 1, 6)] demo_signal demo_running = Inr (g1, s1) \<and>
     signal_read g1 = 0 \<and> signal_update g1 s1 = Some (g2, s2) \<and> signal_read g2 = 6 \<and>
     pending s2 3 = PendDelta \<and> signal_event g2 s2"
proof -
  obtain g1 s1 where w: "signal_writes True 7 [(Some 1, 5), (Some 1, 6)] demo_signal demo_running = Inr (g1, s1)"
    "m_change_stamp s1 = 8" "sig_change_stamp g1 = - 2"
    by (simp add: demo_signal_def demo_running_def sc_signal_ctor_def signal_write_def check_write_def check_writer_def
        get_current_writer_def request_update_def sc_simcontext_init_def kernel.defs)
  moreover have "settled 7 demo_signal demo_running" "signal_read demo_signal = 0" "m_new_val demo_signal = 0"
    "m_change_event_p demo_signal = Some 3"
    by (simp_all add: demo_signal_def settled_def sc_signal_ctor_def signal_read_def)
  ultimately show ?thesis
    using signal_takes_last_write [OF _ w(1) demo_running(3,1) _ demo_running(2)] by auto
qed

theorem old_value_hides_conflict_witness:
  "\<exists>g1 s1. signal_writes True 7 [(Some 1, 5), (Some 2, 0)] demo_signal demo_running = Inr (g1, s1) \<and>
     m_new_val g1 = 0"
  using old_value_hides_conflict [of demo_signal 5 7 demo_running]
  by (auto simp: demo_signal_def sc_signal_ctor_def)

section \<open>Edges and clocks\<close>

text \<open>
  C23. The update of a boolean signal without resets notifies, for the next delta cycle, the
  positive edge event on a change to true and the negative edge event on a change to false, never
  both, and \<^verbatim>\<open>posedge()\<close> and \<^verbatim>\<open>negedge()\<close> then say so.\<close>

theorem bool_edges:
  assumes s: "ev_inv s" and ev: "m_posedge_event_p g = Some p" "m_negedge_event_p g = Some n" "p \<noteq> n"
    and idle: "pending s p = NotPending" "pending s n = NotPending"
    and chg: "\<forall>e. m_change_event_p g = Some e \<longrightarrow> pending s e = NotPending \<and> e \<notin> {p, n}"
    and rst: "m_reset_p g = None" and old: "m_change_stamp s \<noteq> sig_change_stamp g"
  shows "\<exists>g' s'. bool_update g s = Some (g', s') \<and> m_cur_val g' = m_new_val g \<and>
    (pending s' p = PendDelta \<longleftrightarrow> \<not> m_cur_val g \<and> m_new_val g) \<and>
    (pending s' n = PendDelta \<longleftrightarrow> m_cur_val g \<and> \<not> m_new_val g) \<and>
    (posedge g' s' \<longleftrightarrow> pending s' p = PendDelta) \<and> (negedge g' s' \<longleftrightarrow> pending s' n = PendDelta)"
proof -
  let ?g = "policy_update g"
  have keep: "m_posedge_event_p ?g = Some p" "m_negedge_event_p ?g = Some n" "m_reset_p ?g = None"
    "sig_change_stamp ?g = sig_change_stamp g"
    using ev rst by (simp_all add: policy_update_def)
  obtain s1 where s1: "notify_if (m_change_event_p g) s = Some s1" "ev_inv s1" "same_ctx s s1"
    "pending s1 = (case m_change_event_p g of None \<Rightarrow> pending s | Some e \<Rightarrow> (pending s)(e := PendDelta))"
    using notify_if_ok [OF s, of "m_change_event_p g"] chg by auto
  have free: "pending s1 p = NotPending" "pending s1 n = NotPending"
    using s1(4) idle chg by (auto split: option.splits)
  let ?e = "if m_new_val g then p else n"
  obtain s2 where s2: "notify_if (Some ?e) s1 = Some s2" "same_ctx s1 s2" "pending s2 = (pending s1)(?e := PendDelta)"
    using notify_if_ok [OF s1(2), of "Some ?e"] free by (cases "m_new_val g") auto
  show ?thesis
  proof (cases "m_new_val g = m_cur_val g")
    case True
    with idle old keep show ?thesis by (auto simp: bool_update_def posedge_def negedge_def signal_event_def)
  next
    case False
    let ?g' = "?g\<lparr>m_cur_val := m_new_val g, sig_change_stamp := m_change_stamp s2\<rparr>"
    have "bool_update g s = Some (?g', s2)"
      using False s1 s2 keep by (cases "m_cur_val g") (simp_all add: bool_update_def Let_def)
    then show ?thesis
      using False s2(3) free ev(3) by (auto simp: posedge_def negedge_def signal_event_def)
  qed
qed

definition demo_bool :: sc_signal_bool where
  "demo_bool = (sc_signal_bool_ctor SC_ONE_WRITER)\<lparr>m_posedge_event_p := Some 4, m_negedge_event_p := Some 5,
     m_new_val := True\<rparr>"

theorem bool_edges_witness:
  "\<exists>g' s'. bool_update demo_bool demo_running = Some (g', s') \<and> m_cur_val g' \<and> pending s' 4 = PendDelta \<and>
     pending s' 5 \<noteq> PendDelta"
proof -
  have b: "m_posedge_event_p demo_bool = Some 4" "m_negedge_event_p demo_bool = Some 5" "m_reset_p demo_bool = None"
    "m_change_event_p demo_bool = None" "sig_change_stamp demo_bool = - 2" "m_new_val demo_bool" "\<not> m_cur_val demo_bool"
    by (simp_all add: demo_bool_def sc_signal_bool_ctor_def sc_signal_ctor_def sc_signal.defs)
  have "m_change_stamp demo_running = 8" by (simp add: demo_running_def)
  with b show ?thesis
    using bool_edges [OF demo_running(1) b(1,2) _ demo_running(2,2) _ b(3)] by auto
qed

text \<open>
  A clock that its two processes drive: the positive edge at time \<open>t\<close> schedules the
  negative one after the high time, and that one schedules the next positive edge at exactly
  \<open>t\<close> plus the period; the values alternate and the two times add up to the period.\<close>

theorem clock_has_its_period:
  assumes k: "clock_init d high st pf k0 = Inr k" "m_next_posedge_event k \<noteq> m_next_negedge_event k"
    and s: "ev_inv s" "pending s (m_next_negedge_event k) = NotPending"
    and up: "posedge_action c k s = (k1, s1)"
    and t: "ev_inv t" "m_curr_time t = m_curr_time s + m_negedge_time k" "pending t (m_next_posedge_event k) = NotPending"
    and down: "negedge_action c k1 t = (k2, t1)"
  shows "m_new_val k1 \<and> pending s1 (m_next_negedge_event k) = PendAt (m_curr_time t) \<and>
    \<not> m_new_val k2 \<and> pending t1 (m_next_posedge_event k) = PendAt (m_curr_time s + d) \<and>
    m_posedge_time k + m_negedge_time k = d \<and> m_posedge_time k \<noteq> 0 \<and> m_negedge_time k \<noteq> 0"
proof -
  have times: "m_posedge_time k = d - high d" "m_negedge_time k = high d" "high d \<noteq> 0" "d - high d \<noteq> 0"
    using k(1) by (auto simp: clock_init_def split: if_splits)
  have k1: "k1 = k\<lparr>m_new_val := True\<rparr>" "s1 = request_update c (notify_at (m_next_negedge_event k) (high d) s)"
    using up times by (simp_all add: posedge_action_def notify_internal_def)
  have k2: "k2 = k1\<lparr>m_new_val := False\<rparr>" "t1 = request_update c (notify_at (m_next_posedge_event k) (d - high d) t)"
    using down times by (simp_all add: negedge_action_def notify_internal_def k1)
  show ?thesis
    using notify_at_ok(2) [OF s] notify_at_ok(2) [OF t(1,3)] times t(2) by (simp add: k1 k2)
qed

definition demo_clock :: sc_clock where
  "demo_clock = sc_signal_bool.extend (sc_signal_bool_ctor SC_ONE_WRITER)
     \<lparr>m_period = 10, m_start_time = 0, m_posedge_first = True, m_posedge_time = 6, m_negedge_time = 4,
      m_next_posedge_event = 4, m_next_negedge_event = 5\<rparr>"

theorem clock_has_its_period_witness:
  "pending (snd (posedge_action 7 demo_clock demo_running)) 5 = PendAt 4 \<and>
   pending (snd (negedge_action 7 (fst (posedge_action 7 demo_clock demo_running)) (demo_running\<lparr>m_curr_time := 4\<rparr>))) 4 = PendAt 10"
proof -
  have k: "clock_init 10 (\<lambda>_. 4) 0 True demo_clock = Inr demo_clock"
    by (simp add: clock_init_def demo_clock_def sc_signal_bool_ctor_def sc_signal_ctor_def sc_signal.defs sc_signal_bool.defs)
  have ev: "m_next_posedge_event demo_clock = 4" "m_next_negedge_event demo_clock = 5" "m_negedge_time demo_clock = 4"
    by (simp_all add: demo_clock_def sc_signal_bool.defs)
  have t: "ev_inv (demo_running\<lparr>m_curr_time := 4\<rparr>)" "pending (demo_running\<lparr>m_curr_time := 4\<rparr>) e = NotPending" for e
    using demo_running(1) demo_running(2) [of e] by (simp_all add: ev_inv_def heap_inv_def pending_NotPending)
  have now: "m_curr_time demo_running = 0" by (simp add: demo_running_def sc_simcontext_init_def kernel.defs kernel_init_def)
  show ?thesis
    using clock_has_its_period [OF k _ demo_running(1) demo_running(2) surjective_pairing t(1) _ t(2) surjective_pairing] ev now
    by simp
qed

end
