(* ===== verification/Sc_Fifo.thy ===== *)
theory Sc_Fifo
  imports Sc_Prim_Channel
begin

text \<open>
  The fifo channel (communication/sc_fifo.h): a ring buffer, counters of what was read and
  written in the current delta cycle, and two events.  The samples become visible, and the space
  that was read becomes free, in the update phase.
\<close>

section \<open>The channel\<close>

record 'v sc_fifo =
  m_size :: int
  m_buf :: "'v list"
  m_free :: int
  m_ri :: nat
  m_wi :: nat
  m_reader :: "nat option"
  m_writer :: "nat option"
  m_num_readable :: int
  m_num_read :: int
  m_num_written :: int
  m_data_read_event :: nat
  m_data_written_event :: nat

text \<open>\<open>None\<close>: the size is refused.  \<open>t0\<close> is \<^verbatim>\<open>T()\<close>.\<close>

definition buf_init :: "'v \<Rightarrow> int \<Rightarrow> 'v sc_fifo \<Rightarrow> 'v sc_fifo option" where
  "buf_init t0 n f =
     (if n \<le> 0 then None
      else Some (f\<lparr>m_size := n, m_buf := replicate (nat n) t0, m_free := n, m_ri := 0, m_wi := 0\<rparr>))"

definition fifo_init :: "'v \<Rightarrow> int \<Rightarrow> 'v sc_fifo \<Rightarrow> 'v sc_fifo option" where
  "fifo_init t0 n f = map_option
     (\<lambda>f. f\<lparr>m_reader := None, m_writer := None, m_num_readable := 0, m_num_read := 0, m_num_written := 0\<rparr>)
     (buf_init t0 n f)"

definition sc_fifo_ctor :: "'v \<Rightarrow> int \<Rightarrow> nat \<Rightarrow> nat \<Rightarrow> 'v sc_fifo option" where
  "sc_fifo_ctor t0 n read_event written_event = fifo_init t0 n
     \<lparr>m_size = 0, m_buf = [], m_free = 0, m_ri = 0, m_wi = 0, m_reader = None, m_writer = None,
      m_num_readable = 0, m_num_read = 0, m_num_written = 0,
      m_data_read_event = read_event, m_data_written_event = written_event\<rparr>"

definition buf_write :: "'v \<Rightarrow> 'v sc_fifo \<Rightarrow> bool \<times> 'v sc_fifo" where
  "buf_write v f =
     (if m_free f = 0 then (False, f)
      else (True, f\<lparr>m_buf := (m_buf f)[m_wi f := v], m_wi := (m_wi f + 1) mod nat (m_size f), m_free := m_free f - 1\<rparr>))"

definition buf_read :: "'v \<Rightarrow> 'v sc_fifo \<Rightarrow> 'v option \<times> 'v sc_fifo" where
  "buf_read t0 f =
     (if m_free f = m_size f then (None, f)
      else (Some (m_buf f ! m_ri f),
        f\<lparr>m_buf := (m_buf f)[m_ri f := t0], m_ri := (m_ri f + 1) mod nat (m_size f), m_free := m_free f + 1\<rparr>))"

definition num_available :: "'v sc_fifo \<Rightarrow> int" where
  "num_available f = m_num_readable f - m_num_read f"

definition num_free :: "'v sc_fifo \<Rightarrow> int" where
  "num_free f = m_size f - m_num_readable f - m_num_written f"

definition nb_read :: "nat \<Rightarrow> 'v \<Rightarrow> 'v sc_fifo \<Rightarrow> 'a sim_scheme \<Rightarrow> 'v option \<times> 'v sc_fifo \<times> 'a sim_scheme" where
  "nb_read c t0 f s =
     (if num_available f = 0 then (None, f, s)
      else let (v, f1) = buf_read t0 (f\<lparr>m_num_read := m_num_read f + 1\<rparr>) in (v, f1, request_update c s))"

definition nb_write :: "nat \<Rightarrow> 'v \<Rightarrow> 'v sc_fifo \<Rightarrow> 'a sim_scheme \<Rightarrow> bool \<times> 'v sc_fifo \<times> 'a sim_scheme" where
  "nb_write c v f s =
     (if num_free f = 0 then (False, f, s)
      else let (_, f1) = buf_write v (f\<lparr>m_num_written := m_num_written f + 1\<rparr>) in (True, f1, request_update c s))"

text \<open>
  One turn of the loop of the blocking operations: the operation succeeds, or the thread waits
  and will try again when it is resumed (\<open>Inr\<close>).
\<close>

definition fifo_read :: "nat \<Rightarrow> 'v \<Rightarrow> 'v sc_fifo \<Rightarrow> 'a sim_scheme \<Rightarrow>
   ('v option \<times> 'v sc_fifo \<times> 'a sim_scheme + resume \<times> 'a sim_scheme) option" where
  "fifo_read c t0 f s =
     (if num_available f = 0
      then map_option Inr (sc_wait (WEvent (m_data_written_event f)) s)
      else Some (Inl (nb_read c t0 f s)))"

definition fifo_write :: "nat \<Rightarrow> 'v \<Rightarrow> 'v sc_fifo \<Rightarrow> 'a sim_scheme \<Rightarrow>
   ('v sc_fifo \<times> 'a sim_scheme + resume \<times> 'a sim_scheme) option" where
  "fifo_write c v f s =
     (if num_free f = 0
      then map_option Inr (sc_wait (WEvent (m_data_read_event f)) s)
      else Some (Inl (snd (nb_write c v f s))))"

text \<open>The two interfaces that ports can have; \<open>None\<close> is a port that is refused.\<close>

datatype fifo_port = InPort | OutPort | OtherPort

definition fifo_register_port :: "fifo_port \<Rightarrow> nat \<Rightarrow> 'v sc_fifo \<Rightarrow> 'v sc_fifo option" where
  "fifo_register_port kind port f =
     (case kind of
        InPort \<Rightarrow> if m_reader f \<noteq> None then None else Some (f\<lparr>m_reader := Some port\<rparr>)
      | OutPort \<Rightarrow> if m_writer f \<noteq> None then None else Some (f\<lparr>m_writer := Some port\<rparr>)
      | OtherPort \<Rightarrow> None)"

definition fifo_update :: "'v sc_fifo \<Rightarrow> 'a sim_scheme \<Rightarrow> ('v sc_fifo \<times> 'a sim_scheme) option" where
  "fifo_update f s = do {
     s1 \<leftarrow> (if m_num_read f > 0 then notify_time (m_data_read_event f) 0 s else Some s);
     s2 \<leftarrow> (if m_num_written f > 0 then notify_time (m_data_written_event f) 0 s1 else Some s1);
     Some (f\<lparr>m_num_readable := m_size f - m_free f, m_num_read := 0, m_num_written := 0\<rparr>, s2) }"

section \<open>The buffer holds a queue\<close>

definition used :: "'v sc_fifo \<Rightarrow> nat" where
  "used f = nat (m_size f - m_free f)"

definition contents :: "'v sc_fifo \<Rightarrow> 'v list" where
  "contents f = map (\<lambda>i. m_buf f ! ((m_ri f + i) mod nat (m_size f))) [0..<used f]"

definition fifo_ok :: "'v sc_fifo \<Rightarrow> bool" where
  "fifo_ok f \<longleftrightarrow> m_size f > 0 \<and> int (length (m_buf f)) = m_size f \<and> 0 \<le> m_free f \<and> m_free f \<le> m_size f \<and>
     m_ri f < nat (m_size f) \<and> m_wi f = (m_ri f + used f) mod nat (m_size f) \<and>
     0 \<le> m_num_read f \<and> m_num_read f \<le> m_num_readable f \<and> 0 \<le> m_num_written f \<and> m_num_readable f + m_num_written f \<le> m_size f \<and>
     m_free f = m_size f - m_num_readable f + m_num_read f - m_num_written f"

lemma mod_add_neq:
  fixes n :: nat
  assumes "i < j" "j < n"
  shows "(a + i) mod n \<noteq> (a + j) mod n"
proof
  assume "(a + i) mod n = (a + j) mod n"
  then have "n dvd j - i" using assms mod_eq_dvd_iff_nat [of "a + i" "a + j" n] by simp
  with assms show False by (auto dest: dvd_imp_le)
qed

lemma buf_write_contents:
  assumes f: "fifo_ok f" and free: "m_free f > 0"
  shows "contents (snd (buf_write v f)) = contents f @ [v]" "used (snd (buf_write v f)) = used f + 1"
    "m_wi (snd (buf_write v f)) = (m_ri f + (used f + 1)) mod nat (m_size f)"
proof -
  let ?n = "nat (m_size f)"
  have n: "used f < ?n" "length (m_buf f) = ?n" "m_wi f = (m_ri f + used f) mod ?n" "?n > 0"
    using f free by (auto simp: fifo_ok_def used_def)
  show u: "used (snd (buf_write v f)) = used f + 1" using f free by (auto simp: buf_write_def used_def fifo_ok_def)
  show "m_wi (snd (buf_write v f)) = (m_ri f + (used f + 1)) mod ?n"
    using free n by (simp add: buf_write_def mod_Suc_eq)
  have "(m_buf f)[(m_ri f + used f) mod ?n := v] ! ((m_ri f + i) mod ?n) = m_buf f ! ((m_ri f + i) mod ?n)"
    if "i < used f" for i
    using mod_add_neq [OF that n(1), of "m_ri f"] by simp
  moreover have "(m_buf f)[(m_ri f + used f) mod ?n := v] ! ((m_ri f + used f) mod ?n) = v"
    using n by (intro nth_list_update_eq) (metis mod_less_divisor)
  ultimately show "contents (snd (buf_write v f)) = contents f @ [v]"
    using u free n(3) by (simp add: contents_def buf_write_def)
qed

lemma buf_read_contents:
  assumes f: "fifo_ok f" and some: "m_free f < m_size f"
  shows "contents f = the (fst (buf_read t0 f)) # contents (snd (buf_read t0 f))"
    "fst (buf_read t0 f) \<noteq> None" "used f = Suc (used (snd (buf_read t0 f)))"
    "m_wi f = (m_ri (snd (buf_read t0 f)) + used (snd (buf_read t0 f))) mod nat (m_size f)"
proof -
  let ?n = "nat (m_size f)" and ?g = "snd (buf_read t0 f)"
  have n: "used f \<le> ?n" "length (m_buf f) = ?n" "m_wi f = (m_ri f + used f) mod ?n" "m_ri f < ?n"
    using f some by (auto simp: fifo_ok_def used_def)
  show u: "used f = Suc (used ?g)" using f some by (auto simp: buf_read_def used_def fifo_ok_def)
  show "fst (buf_read t0 f) \<noteq> None" using some by (simp add: buf_read_def)
  have ri: "m_ri ?g = (m_ri f + 1) mod ?n" using some by (simp add: buf_read_def)
  show "m_wi f = (m_ri ?g + used ?g) mod ?n" using n(3) u ri by (simp add: mod_simps)
  have "(m_buf f)[m_ri f := t0] ! ((m_ri f + Suc i) mod ?n) = m_buf f ! ((m_ri f + Suc i) mod ?n)"
    if "i < used ?g" for i
    using mod_add_neq [of 0 "Suc i" ?n "m_ri f"] that n(1,4) u by simp
  moreover have "((m_ri f + 1) mod ?n + i) mod ?n = (m_ri f + Suc i) mod ?n" for i by (simp add: mod_simps)
  ultimately have "contents ?g = map (\<lambda>i. m_buf f ! ((m_ri f + Suc i) mod ?n)) [0..<used ?g]"
    using some by (simp add: contents_def buf_read_def)
  moreover have "contents f = m_buf f ! m_ri f # map (\<lambda>i. m_buf f ! ((m_ri f + Suc i) mod ?n)) [0..<used ?g]"
    unfolding contents_def u upt_conv_Cons [OF zero_less_Suc] list.map
    using n(4) by (simp add: map_Suc_upt [symmetric] del: upt_Suc)
  ultimately show "contents f = the (fst (buf_read t0 f)) # contents ?g"
    using some by (simp add: buf_read_def)
qed

section \<open>The channel is a queue with a delay of a delta cycle\<close>

text \<open>
  The specification: the samples that can be read, the samples written in this delta cycle, and
  how many were taken in it.
\<close>

type_synonym 'v fifo_spec = "'v list \<times> 'v list \<times> nat"

datatype 'v fifo_cmd = NbRead | NbWrite 'v | Update

datatype 'v fifo_result = Read "'v option" | Wrote bool | Updated

fun fifo_spec_step :: "nat \<Rightarrow> 'v fifo_cmd \<Rightarrow> 'v fifo_spec \<Rightarrow> 'v fifo_result \<times> 'v fifo_spec" where
  "fifo_spec_step cap NbRead (vis, new, taken) =
     (case vis of [] \<Rightarrow> (Read None, vis, new, taken) | v # vs \<Rightarrow> (Read (Some v), vs, new, taken + 1))"
| "fifo_spec_step cap (NbWrite v) (vis, new, taken) =
     (if length vis + taken + length new = cap then (Wrote False, vis, new, taken) else (Wrote True, vis, new @ [v], taken))"
| "fifo_spec_step cap Update (vis, new, taken) = (Updated, vis @ new, [], 0)"

fun fifo_step :: "nat \<Rightarrow> 'v \<Rightarrow> 'v fifo_cmd \<Rightarrow> 'v sc_fifo \<times> 'a sim_scheme \<Rightarrow>
    ('v fifo_result \<times> 'v sc_fifo \<times> 'a sim_scheme) option" where
  "fifo_step c t0 NbRead (f, s) = (case nb_read c t0 f s of (r, f', s') \<Rightarrow> Some (Read r, f', s'))"
| "fifo_step c t0 (NbWrite v) (f, s) = (case nb_write c v f s of (r, f', s') \<Rightarrow> Some (Wrote r, f', s'))"
| "fifo_step c t0 Update (f, s) = map_option (Pair Updated) (fifo_update f s)"

fun fifo_run :: "nat \<Rightarrow> 'v \<Rightarrow> 'v fifo_cmd list \<Rightarrow> 'v sc_fifo \<times> 'a sim_scheme \<Rightarrow>
    ('v fifo_result list \<times> 'v sc_fifo \<times> 'a sim_scheme) option" where
  "fifo_run c t0 [] x = Some ([], x)"
| "fifo_run c t0 (k # ks) x = do {
     (r, x1) \<leftarrow> fifo_step c t0 k x; (rs, x2) \<leftarrow> fifo_run c t0 ks x1; Some (r # rs, x2) }"

fun fifo_spec_run :: "nat \<Rightarrow> 'v fifo_cmd list \<Rightarrow> 'v fifo_spec \<Rightarrow> 'v fifo_result list \<times> 'v fifo_spec" where
  "fifo_spec_run cap [] S = ([], S)"
| "fifo_spec_run cap (k # ks) S =
     (let (r, S1) = fifo_spec_step cap k S; (rs, S2) = fifo_spec_run cap ks S1 in (r # rs, S2))"

fun fifo_rel :: "'v sc_fifo \<Rightarrow> 'v fifo_spec \<Rightarrow> bool" where
  "fifo_rel f (vis, new, taken) \<longleftrightarrow> fifo_ok f \<and> contents f = vis @ new \<and>
     m_num_read f = int taken \<and> m_num_written f = int (length new) \<and> m_num_readable f = int (length vis + taken)"

lemma length_contents [simp]: "length (contents f) = used f"
  by (simp add: contents_def)

lemma contents_counters [simp]:
  "contents (f\<lparr>m_num_read := a\<rparr>) = contents f" "contents (f\<lparr>m_num_written := a\<rparr>) = contents f"
  "contents (f\<lparr>m_num_readable := r, m_num_read := a, m_num_written := b\<rparr>) = contents f"
  "contents (f\<lparr>m_num_readable := a\<rparr>) = contents f" "used (f\<lparr>m_num_readable := a\<rparr>) = used f"
  "used (f\<lparr>m_num_read := a\<rparr>) = used f" "used (f\<lparr>m_num_written := a\<rparr>) = used f"
  "used (f\<lparr>m_num_readable := r, m_num_read := a, m_num_written := b\<rparr>) = used f"
  by (simp_all add: contents_def used_def)

lemma nb_read_refines:
  assumes "fifo_rel f (vis, new, taken)"
  shows "\<exists>r f' s'. nb_read c t0 f s = (r, f', s') \<and> m_size f' = m_size f \<and> s' \<in> {s, request_update c s} \<and>
    (case vis of [] \<Rightarrow> r = None \<and> f' = f | v # vs \<Rightarrow> r = Some v \<and> fifo_rel f' (vs, new, taken + 1))"
proof (cases vis)
  case Nil
  with assms show ?thesis by (auto simp: nb_read_def num_available_def)
next
  case (Cons v vs)
  have f: "fifo_ok f" "contents f = v # vs @ new" and some: "m_free f < m_size f"
    using assms Cons by (auto simp: fifo_ok_def)
  let ?g = "f\<lparr>m_num_read := m_num_read f + 1\<rparr>"
  obtain w g where rd: "buf_read t0 f = (Some w, g)" using some by (auto simp: buf_read_def)
  note b = buf_read_contents [OF f(1) some, of t0, unfolded rd fst_conv snd_conv option.sel]
  have rd': "buf_read t0 ?g = (Some w, g\<lparr>m_num_read := m_num_read f + 1\<rparr>)"
    using rd some by (auto simp: buf_read_def)
  have g: "m_size g = m_size f" "m_free g = m_free f + 1" "m_num_readable g = m_num_readable f"
    "m_num_written g = m_num_written f" "m_wi g = m_wi f" "length (m_buf g) = length (m_buf f)"
    "m_ri g < nat (m_size f)"
    using rd some f(1) by (auto simp: buf_read_def fifo_ok_def)
  have "fifo_rel (g\<lparr>m_num_read := m_num_read f + 1\<rparr>) (vs, new, taken + 1)"
    using assms Cons b g by (auto simp: fifo_ok_def)
  moreover have "w = v" using b(1) f(2) by simp
  moreover have "num_available f \<noteq> 0" using assms Cons by (simp add: num_available_def)
  ultimately show ?thesis using rd' g(1) Cons by (simp add: nb_read_def del: fifo_rel.simps)
qed

lemma nb_write_refines:
  assumes "fifo_rel f (vis, new, taken)"
  shows "\<exists>r f' s'. nb_write c v f s = (r, f', s') \<and> m_size f' = m_size f \<and> s' \<in> {s, request_update c s} \<and>
    (if length vis + taken + length new = nat (m_size f) then \<not> r \<and> f' = f else r \<and> fifo_rel f' (vis, new @ [v], taken))"
proof (cases "length vis + taken + length new = nat (m_size f)")
  case True
  with assms have "num_free f = 0" by (auto simp: num_free_def fifo_ok_def)
  with True show ?thesis by (auto simp: nb_write_def)
next
  case False
  have f: "fifo_ok f" "num_free f \<noteq> 0" and free: "m_free f > 0"
    using assms False by (auto simp: fifo_ok_def num_free_def)
  obtain g where wr: "buf_write v f = (True, g)" using free by (auto simp: buf_write_def)
  note b = buf_write_contents [OF f(1) free, of v, unfolded wr snd_conv]
  have wr': "buf_write v (f\<lparr>m_num_written := m_num_written f + 1\<rparr>) = (True, g\<lparr>m_num_written := m_num_written f + 1\<rparr>)"
    using wr free by (auto simp: buf_write_def)
  have g: "m_size g = m_size f" "m_free g = m_free f - 1" "m_num_readable g = m_num_readable f"
    "m_num_read g = m_num_read f" "m_ri g = m_ri f" "length (m_buf g) = length (m_buf f)"
    using wr free by (auto simp: buf_write_def)
  have "fifo_rel (g\<lparr>m_num_written := m_num_written f + 1\<rparr>) (vis, new @ [v], taken)"
    using assms False b g f(2) by (auto simp: fifo_ok_def num_free_def)
  then show ?thesis
    using wr' g(1) False f(2) by (intro exI [of _ True]) (simp add: nb_write_def del: fifo_rel.simps)
qed

lemma fifo_update_refines:
  assumes f: "fifo_rel f (vis, new, taken)" and s: "ev_inv s" and ne: "m_data_read_event f \<noteq> m_data_written_event f"
  shows "\<exists>f' s'. fifo_update f s = Some (f', s') \<and> m_size f' = m_size f \<and> ev_inv s' \<and> fifo_rel f' (vis @ new, [], 0) \<and>
    pending s' = (pending s)
      (m_data_read_event f := if taken > 0 then earlier (pending s (m_data_read_event f)) PendDelta else pending s (m_data_read_event f),
       m_data_written_event f := if new \<noteq> [] then earlier (pending s (m_data_written_event f)) PendDelta
         else pending s (m_data_written_event f))"
proof -
  let ?r = "m_data_read_event f" and ?w = "m_data_written_event f"
  have step: "\<exists>t'. (if b then notify_time e 0 t else Some t) = Some t' \<and> ev_inv t' \<and>
      pending t' = (pending t)(e := if b then earlier (pending t e) PendDelta else pending t e)"
    if t: "ev_inv t" for b e and t :: "'b sim_scheme"
  proof (cases b)
    case True
    obtain t' where "notify_time e 0 t = Some t'" "ev_inv t'" "pending t' = (pending t)(e := earlier (pending t e) PendDelta)"
      by (rule notify_time_ok [OF t, of e 0]) simp
    with True show ?thesis by simp
  qed (use t in simp)
  obtain s1 where s1: "(if m_num_read f > 0 then notify_time ?r 0 s else Some s) = Some s1" "ev_inv s1"
    "pending s1 = (pending s)(?r := if m_num_read f > 0 then earlier (pending s ?r) PendDelta else pending s ?r)"
    using step [OF s] by blast
  obtain s2 where s2: "(if m_num_written f > 0 then notify_time ?w 0 s1 else Some s1) = Some s2" "ev_inv s2"
    "pending s2 = (pending s1)(?w := if m_num_written f > 0 then earlier (pending s1 ?w) PendDelta else pending s1 ?w)"
    using step [OF s1(2)] by blast
  let ?f = "f\<lparr>m_num_readable := m_size f - m_free f, m_num_read := 0, m_num_written := 0\<rparr>"
  have "fifo_rel ?f (vis @ new, [], 0)" using f by (auto simp: fifo_ok_def)
  moreover have "m_num_read f > 0 \<longleftrightarrow> taken > 0" "m_num_written f > 0 \<longleftrightarrow> new \<noteq> []" using f by auto
  ultimately show ?thesis
    using s1 s2 ne by (intro exI [of _ ?f] exI [of _ s2]) (auto simp: fifo_update_def)
qed

lemma fifo_step_refines:
  assumes f: "fifo_rel f S" and s: "ev_inv s" and ne: "m_data_read_event f \<noteq> m_data_written_event f"
  shows "\<exists>f' s'. fifo_step c t0 k (f, s) = Some (fst (fifo_spec_step (nat (m_size f)) k S), f', s') \<and>
    fifo_rel f' (snd (fifo_spec_step (nat (m_size f)) k S)) \<and> ev_inv s' \<and> m_size f' = m_size f \<and>
    m_data_read_event f' = m_data_read_event f \<and> m_data_written_event f' = m_data_written_event f"
proof -
  obtain vis new taken where S: "S = (vis, new, taken)" using prod_cases3 by blast
  have keep: "m_data_read_event f' = m_data_read_event f \<and> m_data_written_event f' = m_data_written_event f"
    if "fifo_step c t0 k (f, s) = Some (r, f', s')" for r f' s'
    using that by (cases k)
      (auto simp: nb_read_def nb_write_def fifo_update_def buf_read_def buf_write_def bind_eq_Some_conv Let_def
        split: if_splits prod.splits)
  have "\<exists>f' s'. fifo_step c t0 k (f, s) = Some (fst (fifo_spec_step (nat (m_size f)) k S), f', s') \<and>
    fifo_rel f' (snd (fifo_spec_step (nat (m_size f)) k S)) \<and> ev_inv s' \<and> m_size f' = m_size f"
  proof (cases k)
    case NbRead
    obtain r f' s' where r: "nb_read c t0 f s = (r, f', s')" "m_size f' = m_size f" "s' \<in> {s, request_update c s}"
      "case vis of [] \<Rightarrow> r = None \<and> f' = f | v # vs \<Rightarrow> r = Some v \<and> fifo_rel f' (vs, new, taken + 1)"
      using nb_read_refines [of f vis new taken c t0 s] f S by blast
    with f s S NbRead show ?thesis by (cases vis) auto
  next
    case (NbWrite v)
    obtain r f' s' where r: "nb_write c v f s = (r, f', s')" "m_size f' = m_size f" "s' \<in> {s, request_update c s}"
      "if length vis + taken + length new = nat (m_size f) then \<not> r \<and> f' = f else r \<and> fifo_rel f' (vis, new @ [v], taken)"
      using nb_write_refines [of f vis new taken c v s] f S by blast
    with f s S NbWrite show ?thesis by (auto split: if_splits simp del: fifo_rel.simps)
  next
    case Update
    then show ?thesis using fifo_update_refines [of f vis new taken s] f s S ne by fastforce
  qed
  with keep show ?thesis by blast
qed

lemma fifo_run_refines:
  "fifo_rel f S \<Longrightarrow> ev_inv s \<Longrightarrow> m_data_read_event f \<noteq> m_data_written_event f \<Longrightarrow>
   \<exists>f' s'. fifo_run c t0 ks (f, s) = Some (fst (fifo_spec_run (nat (m_size f)) ks S), f', s') \<and>
     fifo_rel f' (snd (fifo_spec_run (nat (m_size f)) ks S)) \<and> ev_inv s'"
proof (induction ks arbitrary: f S s)
  case (Cons k ks)
  obtain f1 s1 where 1: "fifo_step c t0 k (f, s) = Some (fst (fifo_spec_step (nat (m_size f)) k S), f1, s1)"
    "fifo_rel f1 (snd (fifo_spec_step (nat (m_size f)) k S))" "ev_inv s1" "m_size f1 = m_size f"
    "m_data_read_event f1 \<noteq> m_data_written_event f1"
    using fifo_step_refines [OF Cons.prems, of c t0 k] Cons.prems(3) by auto
  from Cons.IH [OF 1(2,3,5)] 1 show ?case by (auto simp: case_prod_beta Let_def)
qed auto

lemma fifo_ctor_rel: "sc_fifo_ctor t0 n re we = Some f \<Longrightarrow> fifo_rel f ([], [], 0) \<and> m_size f = n \<and>
    m_data_read_event f = re \<and> m_data_written_event f = we"
  by (auto simp: sc_fifo_ctor_def fifo_init_def buf_init_def fifo_ok_def used_def contents_def split: if_splits)

text \<open>
  C17. Any sequence of non-blocking reads, non-blocking writes and update phases on a new fifo
  of \<open>n\<close> places gives the answers of a queue in which written samples can be read, and read
  places can be written again, only after the next update phase; no sample is lost, doubled or
  reordered and the ring buffer never over- or underruns.\<close>

theorem fifo_refines_queue:
  assumes "sc_fifo_ctor t0 n re we = Some f" "re \<noteq> we" "ev_inv s"
  shows "\<exists>f' s'. fifo_run c t0 ks (f, s) = Some (fst (fifo_spec_run (nat n) ks ([], [], 0)), f', s') \<and>
    fifo_rel f' (snd (fifo_spec_run (nat n) ks ([], [], 0)))"
  using fifo_run_refines [of f "([], [], 0)" s c t0 ks] fifo_ctor_rel [OF assms(1)] assms(2,3) by auto

definition demo_context :: sim where
  "demo_context = sc_simcontext_init (\<lambda>_. 0) (sc_process_ctor SC_THREAD_PROC) (\<lambda>_. 0)\<lparr>m_curr_proc := Some 1\<rparr>"

lemma demo_context: "ev_inv demo_context" "m_curr_proc demo_context = Some 1"
  "m_process_kind (procs demo_context p) = SC_THREAD_PROC" "\<not> m_unwinding (procs demo_context p)"
  using ev_inv_init [of "\<lambda>_. 0"]
  by (simp_all add: demo_context_def sc_simcontext_init_def kernel.defs ev_inv_def heap_inv_def kernel_init_def
      sc_process_ctor_def)

theorem fifo_refines_queue_witness:
  "\<exists>f f' s'. sc_fifo_ctor (0 :: nat) 2 3 4 = Some f \<and>
     fifo_run 7 0 [NbWrite 5, NbRead, Update, NbRead, NbWrite 6, NbWrite 7, Update, NbRead] (f, demo_context) =
     Some ([Wrote True, Read None, Updated, Read (Some 5), Wrote True, Wrote False, Updated, Read (Some 6)], f', s')"
proof -
  obtain f where f: "sc_fifo_ctor (0 :: nat) 2 3 4 = Some f"
    by (simp add: sc_fifo_ctor_def fifo_init_def buf_init_def)
  with fifo_refines_queue [OF f _ demo_context(1), of 7
      "[NbWrite 5, NbRead, Update, NbRead, NbWrite 6, NbWrite 7, Update, NbRead]"]
  show ?thesis by auto
qed

section \<open>Waiting\<close>



end
