(* ===== verification/Sc_Locks.thy ===== *)
theory Sc_Locks
  imports Sc_Wait
begin

text \<open>
  The mutex (communication/sc_mutex.h, communication/sc_mutex.cpp) and the semaphore
  (communication/sc_semaphore.h, communication/sc_semaphore.cpp).  A blocking operation is one
  turn of its loop: result \<open>Inr\<close> is a thread that waits and tries again when it is resumed.
\<close>

section \<open>The mutex\<close>

record sc_mutex =
  m_owner :: "nat option"
  mutex_free :: nat

definition sc_mutex_ctor :: "nat \<Rightarrow> sc_mutex" where
  "sc_mutex_ctor e = \<lparr>m_owner = None, mutex_free = e\<rparr>"

definition mutex_in_use :: "sc_mutex \<Rightarrow> bool" where
  "mutex_in_use m \<longleftrightarrow> m_owner m \<noteq> None"

definition mutex_lock :: "sc_mutex \<Rightarrow> 'a sim_scheme \<Rightarrow> (int \<times> sc_mutex \<times> 'a sim_scheme + resume \<times> 'a sim_scheme) option" where
  "mutex_lock m s =
     (if m_owner m = m_curr_proc s then Some (Inl (0, m, s))
      else if mutex_in_use m then map_option Inr (sc_wait (WEvent (mutex_free m)) s)
      else Some (Inl (0, m\<lparr>m_owner := m_curr_proc s\<rparr>, s)))"

definition mutex_trylock :: "sc_mutex \<Rightarrow> 'a sim_scheme \<Rightarrow> int \<times> sc_mutex" where
  "mutex_trylock m s =
     (if m_owner m = m_curr_proc s then (0, m)
      else if mutex_in_use m then (- 1, m)
      else (0, m\<lparr>m_owner := m_curr_proc s\<rparr>))"

definition mutex_unlock :: "sc_mutex \<Rightarrow> 'a sim_scheme \<Rightarrow> (int \<times> sc_mutex \<times> 'a sim_scheme) option" where
  "mutex_unlock m s =
     (if m_owner m \<noteq> m_curr_proc s then Some (- 1, m, s)
      else map_option (\<lambda>t. (0, m\<lparr>m_owner := None\<rparr>, t)) (notify_immediate (mutex_free m) s))"

section \<open>The semaphore\<close>

record sc_semaphore =
  sem_free :: nat
  m_value :: int

definition sc_semaphore_ctor :: "int \<Rightarrow> nat \<Rightarrow> sc_semaphore option" where
  "sc_semaphore_ctor n e = (if n < 0 then None else Some \<lparr>sem_free = e, m_value = n\<rparr>)"

definition sem_in_use :: "sc_semaphore \<Rightarrow> bool" where
  "sem_in_use m \<longleftrightarrow> m_value m \<le> 0"

definition sem_wait :: "sc_semaphore \<Rightarrow> 'a sim_scheme \<Rightarrow> (int \<times> sc_semaphore + resume \<times> 'a sim_scheme) option" where
  "sem_wait m s =
     (if sem_in_use m then map_option Inr (sc_wait (WEvent (sem_free m)) s)
      else Some (Inl (0, m\<lparr>m_value := m_value m - 1\<rparr>)))"

definition sem_trywait :: "sc_semaphore \<Rightarrow> int \<times> sc_semaphore" where
  "sem_trywait m = (if sem_in_use m then (- 1, m) else (0, m\<lparr>m_value := m_value m - 1\<rparr>))"

definition sem_post :: "sc_semaphore \<Rightarrow> 'a sim_scheme \<Rightarrow> (int \<times> sc_semaphore \<times> 'a sim_scheme) option" where
  "sem_post m s = map_option (\<lambda>t. (0, m\<lparr>m_value := m_value m + 1\<rparr>, t)) (notify_immediate (sem_free m) s)"

section \<open>Who holds a mutex\<close>

text \<open>
  Attempts of processes, one after the other.  \<open>holds\<close> is what the answers tell the processes: a
  process holds the mutex from an answer 0 of \<^verbatim>\<open>lock\<close> or \<^verbatim>\<open>trylock\<close> to its next \<^verbatim>\<open>unlock\<close>.
\<close>

datatype mutex_cmd = Lock nat | TryLock nat | Unlock nat

fun mutex_step :: "mutex_cmd \<Rightarrow> sc_mutex \<times> nat set \<times> 'a sim_scheme \<Rightarrow> (sc_mutex \<times> nat set \<times> 'a sim_scheme) option" where
  "mutex_step (Lock p) (m, holds, s) =
     (case mutex_lock m (s\<lparr>m_curr_proc := Some p\<rparr>) of
        None \<Rightarrow> None
      | Some (Inl (_, m', s')) \<Rightarrow> Some (m', insert p holds, s')
      | Some (Inr (_, s')) \<Rightarrow> Some (m, holds, s'))"
| "mutex_step (TryLock p) (m, holds, s) =
     (case mutex_trylock m (s\<lparr>m_curr_proc := Some p\<rparr>) of
        (r, m') \<Rightarrow> Some (m', if r = 0 then insert p holds else holds, s))"
| "mutex_step (Unlock p) (m, holds, s) =
     (case mutex_unlock m (s\<lparr>m_curr_proc := Some p\<rparr>) of
        None \<Rightarrow> None
      | Some (r, m', s') \<Rightarrow> Some (m', holds - {p}, s'))"

fun mutex_run :: "mutex_cmd list \<Rightarrow> sc_mutex \<times> nat set \<times> 'a sim_scheme \<Rightarrow> (sc_mutex \<times> nat set \<times> 'a sim_scheme) option" where
  "mutex_run [] x = Some x"
| "mutex_run (k # ks) x = do { y \<leftarrow> mutex_step k x; mutex_run ks y }"

lemma mutex_step_owner:
  assumes "mutex_step k (m, set_option (m_owner m), s) = Some (m', holds', s')"
  shows "holds' = set_option (m_owner m')"
  using assms
  by (cases k)
    (auto simp: mutex_lock_def mutex_trylock_def mutex_unlock_def mutex_in_use_def split: option.splits if_splits)

lemma mutex_run_owner:
  "mutex_run ks (m, set_option (m_owner m), s) = Some (m', holds', s') \<Longrightarrow> holds' = set_option (m_owner m')"
proof (induction ks arbitrary: m s)
  case (Cons k ks)
  then obtain m1 h1 s1 where k: "mutex_step k (m, set_option (m_owner m), s) = Some (m1, h1, s1)"
    and ks: "mutex_run ks (m1, h1, s1) = Some (m', holds', s')"
    by (auto simp: bind_eq_Some_conv)
  show ?case using Cons.IH ks mutex_step_owner [OF k] by simp
qed simp


definition demo_threads :: sim where
  "demo_threads = sc_simcontext_init (\<lambda>_. 0) (sc_process_ctor SC_THREAD_PROC) (\<lambda>_. 0)"


text \<open>
  Outside every process \<^verbatim>\<open>lock\<close> and \<^verbatim>\<open>trylock\<close> answer 0 on a free mutex without locking it, and
  \<^verbatim>\<open>unlock\<close> answers 0 though nothing was locked: the owner and the current process are both null.\<close>

theorem no_process_never_locks:
  assumes "m_curr_proc s = None" "m_owner m = None"
  shows "mutex_lock m s = Some (Inl (0, m, s)) \<and> mutex_trylock m s = (0, m) \<and>
    \<not> (\<exists>r m' s'. mutex_unlock m s = Some (r, m', s') \<and> r \<noteq> 0)"
  using assms by (auto simp: mutex_lock_def mutex_trylock_def mutex_unlock_def)

theorem no_process_never_locks_witness:
  "mutex_trylock (sc_mutex_ctor 4) demo_threads = (0, sc_mutex_ctor 4)"
  using no_process_never_locks [of demo_threads "sc_mutex_ctor 4"]
  by (simp add: demo_threads_def sc_mutex_ctor_def sc_simcontext_init_def kernel.defs)

section \<open>What a semaphore counts\<close>

datatype sem_cmd = Wait nat | TryWait | Post

text \<open>The number of times the semaphore was taken and given.\<close>

fun sem_step :: "sem_cmd \<Rightarrow> sc_semaphore \<times> nat \<times> nat \<times> 'a sim_scheme \<Rightarrow> (sc_semaphore \<times> nat \<times> nat \<times> 'a sim_scheme) option" where
  "sem_step (Wait p) (m, taken, given, s) =
     (case sem_wait m (s\<lparr>m_curr_proc := Some p\<rparr>) of
        None \<Rightarrow> None
      | Some (Inl (_, m')) \<Rightarrow> Some (m', taken + 1, given, s)
      | Some (Inr (_, s')) \<Rightarrow> Some (m, taken, given, s'))"
| "sem_step TryWait (m, taken, given, s) =
     (case sem_trywait m of (r, m') \<Rightarrow> Some (m', if r = 0 then taken + 1 else taken, given, s))"
| "sem_step Post (m, taken, given, s) =
     (case sem_post m s of None \<Rightarrow> None | Some (_, m', s') \<Rightarrow> Some (m', taken, given + 1, s'))"

fun sem_run :: "sem_cmd list \<Rightarrow> sc_semaphore \<times> nat \<times> nat \<times> 'a sim_scheme \<Rightarrow> (sc_semaphore \<times> nat \<times> nat \<times> 'a sim_scheme) option" where
  "sem_run [] x = Some x"
| "sem_run (k # ks) x = do { y \<leftarrow> sem_step k x; sem_run ks y }"

lemma sem_step_value:
  assumes "sem_step k (m, a, b, s) = Some (m', a', b', s')" "m_value m \<ge> 0"
  shows "m_value m' \<ge> 0 \<and> m_value m' + int a' - int b' = m_value m + int a - int b"
  using assms
  by (cases k) (auto simp: sem_wait_def sem_trywait_def sem_post_def sem_in_use_def split: option.splits if_splits)

lemma sem_run_value:
  "sem_run ks (m, a, b, s) = Some (m', a', b', s') \<Longrightarrow> m_value m \<ge> 0 \<Longrightarrow>
   m_value m' \<ge> 0 \<and> m_value m' + int a' - int b' = m_value m + int a - int b"
proof (induction ks arbitrary: m a b s)
  case (Cons k ks)
  then obtain m1 a1 b1 s1 where k: "sem_step k (m, a, b, s) = Some (m1, a1, b1, s1)"
    and ks: "sem_run ks (m1, a1, b1, s1) = Some (m', a', b', s')"
    by (auto simp: bind_eq_Some_conv)
  note v = sem_step_value [OF k Cons.prems(2)]
  with Cons.IH [OF ks] show ?case by simp
qed simp



end
