(* ===== verification/Sc_Event_Queue.thy ===== *)
theory Sc_Event_Queue
  imports Sc_Prim_Channel
begin

text \<open>
  The event queue (communication/sc_event_queue.h, communication/sc_event_queue.cpp): any number
  of pending notifications, kept in a heap of times and handed to a single event one at a time
  by the method \<^verbatim>\<open>fire_event\<close>, which is sensitive to that event.
\<close>

section \<open>Operations\<close>

definition sc_time_compare :: "64 word \<Rightarrow> 64 word \<Rightarrow> int" where
  "sc_time_compare t1 t2 = (if t1 < t2 then 1 else if t1 > t2 then - 1 else 0)"

record sc_event_queue =
  m_ppq :: "64 word ppq"
  m_e :: nat
  eq_change_stamp :: "64 word"

definition event_queue_ctor :: "(nat \<Rightarrow> 64 word) \<Rightarrow> nat \<Rightarrow> sc_event_queue" where
  "event_queue_ctor junk e = \<lparr>m_ppq = ppq_ctor junk 128 0, m_e = e, eq_change_stamp = 0\<rparr>"

text \<open>\<open>junk\<close> is what a larger array holds beyond the elements.\<close>

definition eq_notify ::
  "(nat \<Rightarrow> 64 word) \<Rightarrow> 64 word \<Rightarrow> sc_event_queue \<Rightarrow> 'a sim_scheme \<Rightarrow> (sc_event_queue \<times> 'a sim_scheme) option" where
  "eq_notify junk d q s =
     (let t = d + time_stamp s
      in do {
        s1 \<leftarrow> (if pq_size (m_ppq q) = 0 \<or> t < pq_top (m_ppq q) then notify_time (m_e q) d s else Some s);
        Some (q\<lparr>m_ppq := pq_insert sc_time_compare junk t (m_ppq q), eq_change_stamp := m_change_stamp s\<rparr>, s1) })"

text \<open>A failed assertion is outcome \<open>None\<close>.\<close>

definition fire_event :: "sc_event_queue \<Rightarrow> 'a sim_scheme \<Rightarrow> (sc_event_queue \<times> 'a sim_scheme) option" where
  "fire_event q s =
     (if pq_empty (m_ppq q) then Some (q, s)
      else do {
        (t, pq) \<leftarrow> extract_top sc_time_compare (m_ppq q);
        if t \<noteq> time_stamp s then None
        else do {
          s1 \<leftarrow> (if pq_size pq > 0 then notify_time (m_e q) (pq_top pq - time_stamp s) s else Some s);
          Some (q\<lparr>m_ppq := pq\<rparr>, s1) } })"

function empty_queue :: "64 word ppq \<Rightarrow> 64 word ppq" where
  "empty_queue q =
     (if pq_size q > 0 then (case extract_top sc_time_compare q of None \<Rightarrow> q | Some (_, q1) \<Rightarrow> empty_queue q1) else q)"
  by pat_completeness auto
termination
  by (relation "measure m_heap_size") (auto simp: extract_top_def Let_def split: if_splits)

declare empty_queue.simps [simp del]

definition cancel_all :: "sc_event_queue \<Rightarrow> 'a sim_scheme \<Rightarrow> (sc_event_queue \<times> 'a sim_scheme) option" where
  "cancel_all q s = map_option (\<lambda>t. (q\<lparr>m_ppq := empty_queue (m_ppq q)\<rparr>, t)) (cancel (m_e q) s)"

section \<open>Every notification is delivered\<close>

interpretation times: comparator sc_time_compare
  by unfold_locales (auto simp: sc_time_compare_def split: if_splits)

text \<open>
  Between notifications the event is pending for the earliest time of the queue; when it has
  been triggered, an element for the current time is due and \<^verbatim>\<open>fire_event\<close> is about to run.
\<close>

definition eq_times :: "sc_event_queue \<Rightarrow> 64 word multiset" where
  "eq_times q = pq_elems (m_ppq q)"

definition eq_ok :: "sc_event_queue \<Rightarrow> 'a sim_scheme \<Rightarrow> bool" where
  "eq_ok q s \<longleftrightarrow> pq_ok sc_time_compare (m_ppq q) \<and> (\<forall>t \<in># eq_times q. m_curr_time s \<le> t) \<and> ev_inv s"

definition eq_idle :: "sc_event_queue \<Rightarrow> 'a sim_scheme \<Rightarrow> bool" where
  "eq_idle q s \<longleftrightarrow> eq_ok q s \<and> pending s (m_e q) =
     (if eq_times q = {#} then NotPending
      else if pq_top (m_ppq q) = m_curr_time s then PendDelta else PendAt (pq_top (m_ppq q)))"

definition eq_due :: "sc_event_queue \<Rightarrow> 'a sim_scheme \<Rightarrow> bool" where
  "eq_due q s \<longleftrightarrow> eq_ok q s \<and> eq_times q \<noteq> {#} \<and> pq_top (m_ppq q) = m_curr_time s \<and> pending s (m_e q) = NotPending"

lemma compare_times: "sc_time_compare a b \<le> 0 \<longleftrightarrow> b \<le> a"
  by (auto simp: sc_time_compare_def)

lemma top_least: "pq_ok sc_time_compare q \<Longrightarrow> t \<in># pq_elems q \<Longrightarrow> pq_top q \<le> t"
  using times.pq_top_max [of q t] by (simp add: compare_times)

lemma top_in: "pq_elems q \<noteq> {#} \<Longrightarrow> pq_top q \<in># pq_elems q"
  using size_pq_elems [of q] by (cases "m_heap_size q = 0") (auto simp: pq_top_def pq_elems_def cells_def [of 0] intro!: in_cells)

lemma eq_size: "pq_size (m_ppq q) = 0 \<longleftrightarrow> eq_times q = {#}"
  using size_pq_elems [of "m_ppq q"] by (auto simp: eq_times_def pq_size_def)

lemma pq_top_insert:
  assumes "pq_ok sc_time_compare q"
  shows "pq_top (pq_insert sc_time_compare junk t q) = (if pq_elems q = {#} \<or> t < pq_top q then t else pq_top q)"
proof -
  let ?q = "pq_insert sc_time_compare junk t q"
  have ok: "pq_ok sc_time_compare ?q" using times.pq_insert_ok [OF assms] .
  have el: "pq_elems ?q = add_mset t (pq_elems q)" by (rule pq_insert_elems)
  have "pq_top ?q \<in># add_mset t (pq_elems q)" using top_in [of ?q] el by simp
  moreover have "pq_top ?q \<le> t" using top_least [OF ok, of t] el by simp
  moreover have "pq_elems q \<noteq> {#} \<Longrightarrow> pq_top ?q \<le> pq_top q" using top_least [OF ok, of "pq_top q"] top_in [of q] el by simp
  moreover have "u \<in># pq_elems q \<Longrightarrow> pq_top q \<le> u" for u using top_least [OF assms] .
  ultimately show ?thesis by (auto simp: not_less intro: antisym dest: leD order_less_le_trans)
qed

lemma no_wrap: "unat d + unat (now :: 64 word) < 2 ^ 64 \<Longrightarrow> now \<le> d + now \<and> (d + now = now \<longleftrightarrow> d = 0)"
  by (simp add: word_le_nat_alt unat_word_ariths)

lemma eq_notify_idle:
  assumes i: "eq_idle q s" and d: "unat d + unat (m_curr_time s) < 2 ^ 64"
  shows "\<exists>q' s'. eq_notify junk d q s = Some (q', s') \<and> eq_idle q' s' \<and> m_e q' = m_e q \<and>
    eq_times q' = add_mset (m_curr_time s + d) (eq_times q) \<and> m_curr_time s' = m_curr_time s"
proof -
  let ?t = "d + m_curr_time s"
  let ?pq = "pq_insert sc_time_compare junk ?t (m_ppq q)"
  let ?q = "q\<lparr>m_ppq := ?pq, eq_change_stamp := m_change_stamp s\<rparr>"
  have ok: "pq_ok sc_time_compare (m_ppq q)" "ev_inv s" "\<forall>t \<in># eq_times q. m_curr_time s \<le> t"
    using i by (simp_all add: eq_idle_def eq_ok_def)
  have times: "eq_times ?q = add_mset ?t (eq_times q)" by (simp add: eq_times_def pq_insert_elems)
  have ok': "pq_ok sc_time_compare ?pq" using times.pq_insert_ok [OF ok(1)] .
  have top: "pq_top ?pq = (if eq_times q = {#} \<or> ?t < pq_top (m_ppq q) then ?t else pq_top (m_ppq q))"
    using pq_top_insert [OF ok(1)] by (simp add: eq_times_def)
  show ?thesis
  proof (cases "eq_times q = {#} \<or> ?t < pq_top (m_ppq q)")
    case True
    obtain s' where s': "notify_time (m_e q) d s = Some s'" "ev_inv s'" "same_ctx s s'"
      "pending s' = (pending s)(m_e q := earlier (pending s (m_e q)) (if d = 0 then PendDelta else PendAt (m_curr_time s + d)))"
      by (rule notify_time_ok [OF ok(2)])
    have now: "m_curr_time s' = m_curr_time s" using s'(3) by (simp add: same_ctx_def)
    have "pending s' (m_e q) = (if ?t = m_curr_time s then PendDelta else PendAt ?t)"
      using i True s'(4) no_wrap [OF d] by (auto simp: eq_idle_def add.commute)
    then have "eq_idle ?q s'"
      using ok ok' top True times now no_wrap [OF d] s'(2) by (auto simp: eq_idle_def eq_ok_def)
    with True s'(1) now times show ?thesis
      by (auto simp: eq_notify_def time_stamp_def eq_size add.commute)
  next
    case False
    then have "eq_idle ?q s" using i ok ok' top times no_wrap [OF d] by (auto simp: eq_idle_def eq_ok_def)
    with False times show ?thesis by (auto simp: eq_notify_def time_stamp_def eq_size add.commute)
  qed
qed

lemma fire_event_due:
  assumes "eq_due q s"
  shows "\<exists>q' s'. fire_event q s = Some (q', s') \<and> eq_idle q' s' \<and> m_e q' = m_e q \<and>
    eq_times q = add_mset (m_curr_time s) (eq_times q') \<and> m_curr_time s' = m_curr_time s"
proof -
  have ok: "pq_ok sc_time_compare (m_ppq q)" "ev_inv s" "\<forall>t \<in># eq_times q. m_curr_time s \<le> t"
    and ne: "eq_times q \<noteq> {#}" and now: "pq_top (m_ppq q) = m_curr_time s" and np: "pending s (m_e q) = NotPending"
    using assms by (simp_all add: eq_due_def eq_ok_def)
  have "m_heap_size (m_ppq q) \<noteq> 0" using ne eq_size [of q] by (simp add: pq_size_def)
  then obtain t pq where x: "extract_top sc_time_compare (m_ppq q) = Some (t, pq)"
    using extract_top_None [of sc_time_compare "m_ppq q"] by fastforce
  note el = extract_top_elems [OF x]
  have t: "t = m_curr_time s" and times: "eq_times q = add_mset t (pq_elems pq)"
    using el(1,2) now by (simp_all add: eq_times_def)
  have ok': "pq_ok sc_time_compare pq" using times.extract_top_ok [OF ok(1) x] .
  let ?q = "q\<lparr>m_ppq := pq\<rparr>"
  have tq: "eq_times ?q = pq_elems pq" by (simp add: eq_times_def)
  have ge: "\<forall>u \<in># eq_times ?q. m_curr_time s \<le> u" using ok(3) times tq by simp
  show ?thesis
  proof (cases "pq_elems pq = {#}")
    case True
    then have "eq_idle ?q s" using ok' ok(2) np ge tq by (simp add: eq_idle_def eq_ok_def)
    moreover have "fire_event q s = Some (?q, s)"
      using x t ne eq_size [of ?q] eq_size [of q] True tq by (simp add: fire_event_def time_stamp_def pq_empty_def pq_size_def)
    ultimately show ?thesis using times t tq by fastforce
  next
    case False
    have top: "m_curr_time s \<le> pq_top pq" using ge top_in [OF False] tq by simp
    obtain s' where s': "notify_time (m_e q) (pq_top pq - m_curr_time s) s = Some s'" "ev_inv s'" "same_ctx s s'"
      "pending s' = (pending s)(m_e q := earlier (pending s (m_e q))
        (if pq_top pq - m_curr_time s = 0 then PendDelta else PendAt (m_curr_time s + (pq_top pq - m_curr_time s))))"
      by (rule notify_time_ok [OF ok(2)])
    have same: "m_curr_time s' = m_curr_time s" using s'(3) by (simp add: same_ctx_def)
    have "eq_idle ?q s'"
      using ok' s' np ge tq False same by (auto simp: eq_idle_def eq_ok_def)
    moreover have "fire_event q s = Some (?q, s')"
      using x t ne s'(1) eq_size [of ?q] eq_size [of q] False tq
      by (simp add: fire_event_def time_stamp_def pq_empty_def pq_size_def)
    ultimately show ?thesis using times t tq same by fastforce
  qed
qed

lemma empty_queue_ok:
  "pq_elems (empty_queue q) = {#} \<and> (pq_ok sc_time_compare q \<longrightarrow> pq_ok sc_time_compare (empty_queue q))"
proof (induction q rule: empty_queue.induct)
  case (1 q)
  show ?case
  proof (cases "extract_top sc_time_compare q")
    case None
    then have "m_heap_size q = 0" using extract_top_None by blast
    then show ?thesis using size_pq_elems [of q] by (simp add: empty_queue.simps [of q] pq_size_def)
  next
    case (Some r)
    obtain t q1 where r: "r = (t, q1)" by fastforce
    have "pq_size q > 0" using extract_top_elems(3) [OF Some [unfolded r]] by (simp add: pq_size_def)
    with 1 [OF this Some r [symmetric]] Some r times.extract_top_ok show ?thesis by (auto simp: empty_queue.simps [of q])
  qed
qed

text \<open>
  C18. Every notification of an event queue is delivered, once and at its time: while the event
  waits it is pending for the earliest time in the queue, a new notification adds its time to the
  bag, and each run of \<^verbatim>\<open>fire_event\<close> takes out one element, which is the current time, and rearms
  the event for the next; the assertion never fails.  \<^verbatim>\<open>cancel_all\<close> empties the queue.\<close>

theorem event_queue_delivers:
  fixes s :: "'a sim_scheme"
  shows "eq_idle (event_queue_ctor junk e) (sc_simcontext_init junk' ps rs) \<and>
    (eq_idle q s \<and> unat d + unat (m_curr_time s) < 2 ^ 64 \<longrightarrow>
      (\<exists>q' s'. eq_notify junk d q s = Some (q', s') \<and> eq_idle q' s' \<and>
         eq_times q' = add_mset (m_curr_time s + d) (eq_times q))) \<and>
    (eq_due q s \<longrightarrow>
      (\<exists>q' s'. fire_event q s = Some (q', s') \<and> eq_idle q' s' \<and> eq_times q = add_mset (m_curr_time s) (eq_times q'))) \<and>
    (eq_idle q s \<longrightarrow> (\<exists>q' s'. cancel_all q s = Some (q', s') \<and> eq_idle q' s' \<and> eq_times q' = {#}))"
proof (intro conjI impI)
  have "ev_inv (sc_simcontext_init junk' ps rs)" "pending (sc_simcontext_init junk' ps rs) f = NotPending" for f
    using ev_inv_init [of junk']
    by (simp_all add: sc_simcontext_init_def kernel.defs ev_inv_def heap_inv_def kernel_init_def pending_NotPending sc_event_ctor_def)
  then show "eq_idle (event_queue_ctor junk e) (sc_simcontext_init junk' ps rs)"
    by (simp add: eq_idle_def eq_ok_def eq_times_def event_queue_ctor_def pq_ok_ctor)
  assume "eq_idle q s"
  then have ok: "pq_ok sc_time_compare (m_ppq q)" "ev_inv s" by (simp_all add: eq_idle_def eq_ok_def)
  obtain s' where s': "cancel (m_e q) s = Some s'" "ev_inv s'" "pending s' = (pending s)(m_e q := NotPending)"
    by (rule cancel_ok [OF ok(2)])
  with ok empty_queue_ok show "\<exists>q' s'. cancel_all q s = Some (q', s') \<and> eq_idle q' s' \<and> eq_times q' = {#}"
    by (auto simp: cancel_all_def eq_idle_def eq_ok_def eq_times_def)
qed (use eq_notify_idle fire_event_due in blast)+

text \<open>Two notifications, the later one first.\<close>

theorem event_queue_delivers_witness:
  "\<exists>q1 s1 q2 s2. eq_notify (\<lambda>_. 0) 9 (event_queue_ctor (\<lambda>_. 0) 4) (sc_simcontext_init (\<lambda>_. 0) (sc_process_ctor SC_METHOD_PROC) (\<lambda>_. 0)) = Some (q1, s1) \<and>
     eq_notify (\<lambda>_. 0) 5 q1 s1 = Some (q2, s2) \<and> eq_times q2 = {#5, 9#}"
proof -
  let ?s = "sc_simcontext_init (\<lambda>_. 0) (sc_process_ctor SC_METHOD_PROC) (\<lambda>_. 0)" and ?q = "event_queue_ctor (\<lambda>_. 0) 4"
  have now: "m_curr_time ?s = 0" and e: "eq_times ?q = {#}"
    by (simp_all add: sc_simcontext_init_def kernel.defs kernel_init_def eq_times_def event_queue_ctor_def)
  have i: "eq_idle ?q ?s" using event_queue_delivers by blast
  obtain q1 s1 where 1: "eq_notify (\<lambda>_. 0) 9 ?q ?s = Some (q1, s1)" "eq_idle q1 s1" "eq_times q1 = {#9#}" "m_curr_time s1 = 0"
    using eq_notify_idle [OF i, of 9 "\<lambda>_. 0"] now e by auto
  obtain q2 s2 where "eq_notify (\<lambda>_. 0) 5 q1 s1 = Some (q2, s2)" "eq_times q2 = {#5, 9#}"
    using event_queue_delivers [of "\<lambda>_. 0" 0 "\<lambda>_. 0" "sc_process_ctor SC_METHOD_PROC" "\<lambda>_. 0" q1 s1 5] 1 by auto
  with 1 show ?thesis by blast
qed

end
