(* ===== verification/Sc_Channels.thy ===== *)
theory Sc_Channels
  imports Sc_Signal Sc_Fifo Sc_Sample_Points
begin

text \<open>
  The channels of a design: signals, buffers, boolean signals, clocks and fifos in a store, the
  virtual \<^verbatim>\<open>update()\<close> of each class (communication/sc_signal.h, communication/sc_buffer.h,
  communication/sc_signal.cpp, communication/sc_fifo.h) selected by the class of the object, and
  the update phase of the kernel on them.
\<close>

section \<open>The store\<close>

datatype 'v channel = SignalChan "'v sc_signal" | BufferChan "'v sc_signal" | BoolChan sc_signal_bool
  | ClockChan sc_clock | FifoChan "'v sc_fifo"

record 'v channels = sim +
  chans :: "nat \<Rightarrow> 'v channel"

definition put_channel :: "nat \<Rightarrow> ('g \<Rightarrow> 'v channel) \<Rightarrow> ('g \<times> ('v, 'b) channels_scheme) option \<Rightarrow>
    ('v, 'b) channels_scheme option" where
  "put_channel c mk r = map_option (\<lambda>(g, s). s\<lparr>chans := (chans s)(c := mk g)\<rparr>) r"

definition channel_update :: "nat \<Rightarrow> ('v, 'b) channels_scheme \<Rightarrow> ('v, 'b) channels_scheme option" where
  "channel_update c s =
     (case chans s c of
        SignalChan g \<Rightarrow> put_channel c SignalChan (signal_update g s)
      | BufferChan g \<Rightarrow> put_channel c BufferChan (buffer_update g s)
      | BoolChan g \<Rightarrow> put_channel c BoolChan (bool_update g s)
      | ClockChan g \<Rightarrow> put_channel c ClockChan (bool_update g s)
      | FifoChan f \<Rightarrow> put_channel c FifoChan (fifo_update f s))"

text \<open>An update changes no more of the state of the simulation than the events.\<close>

lemma notify_next_delta_keeps: "notify_next_delta e s = Some s' \<Longrightarrow> kernel.more s' = kernel.more s"
  for s :: "'a sim_scheme"
  by (auto simp: notify_next_delta_def notify_delta_def add_delta_event_def upd_event_def split: if_splits)

lemma notify_if_keeps: "notify_if e s = Some s' \<Longrightarrow> kernel.more s' = kernel.more s"
  for s :: "'a sim_scheme"
  by (auto simp: notify_if_def dest: notify_next_delta_keeps split: option.splits)

lemma update_keeps:
  fixes s :: "'a sim_scheme"
  shows "signal_update g s = Some (g', s') \<Longrightarrow> kernel.more s' = kernel.more s"
    "buffer_update g s = Some (g', s') \<Longrightarrow> kernel.more s' = kernel.more s"
    "bool_update b s = Some (b', s') \<Longrightarrow> kernel.more s' = kernel.more s"
    "fifo_update f s = Some (f', s') \<Longrightarrow> kernel.more s' = kernel.more s"
  by (auto simp: signal_update_def buffer_update_def bool_update_def fifo_update_def Let_def bind_eq_Some_conv
      dest!: notify_if_keeps notify_time_keeps split: if_splits option.splits)

lemma more_fields:
  fixes s s' :: "('v, 'b) channels_scheme"
  assumes "kernel.more s' = kernel.more s"
  shows "chans s' = chans s" "m_update_next_p s' = m_update_next_p s" "m_change_stamp s' = m_change_stamp s"
  using assms by (cases s; cases s'; simp)+

lemma put_channel_keeps:
  assumes "\<And>g t. r = Some (g, t) \<Longrightarrow> kernel.more t = kernel.more s" "put_channel c mk r = Some s'"
  shows "m_update_next_p s' = m_update_next_p s"
  using assms by (auto simp: put_channel_def dest: more_fields(2))

lemma channel_update_keeps_links: "channel_update c s = Some s' \<Longrightarrow> m_update_next_p s' = m_update_next_p s"
  unfolding channel_update_def
  by (cases "chans s c") (auto elim!: put_channel_keeps [rotated] dest: update_keeps)

interpretation design: update_callback channel_update
  by unfold_locales (simp add: channel_update_keeps_links)

section \<open>The update phase is one simultaneous assignment\<close>

text \<open>The specification: what a channel becomes, and the events that are notified.\<close>

definition commit_value :: "bool \<Rightarrow> 64 word \<Rightarrow> ('v, 'b) sc_signal_scheme \<Rightarrow> ('v, 'b) sc_signal_scheme" where
  "commit_value always st g =
     (if always \<or> m_new_val g \<noteq> m_cur_val g
      then (policy_update g)\<lparr>m_cur_val := m_new_val g, sig_change_stamp := st\<rparr> else policy_update g)"

fun commit :: "64 word \<Rightarrow> 'v channel \<Rightarrow> 'v channel" where
  "commit st (SignalChan g) = SignalChan (commit_value False st g)"
| "commit st (BufferChan g) = BufferChan (commit_value True st g)"
| "commit st (BoolChan g) = BoolChan (commit_value False st g)"
| "commit st (ClockChan g) = ClockChan (commit_value False st g)"
| "commit st (FifoChan f) =
     FifoChan (f\<lparr>m_num_readable := m_size f - m_free f, m_num_read := 0, m_num_written := 0\<rparr>)"

definition edge_events :: "'b sc_signal_bool_scheme \<Rightarrow> nat set" where
  "edge_events g = (if m_new_val g = m_cur_val g then {} else set_option (m_change_event_p g) \<union>
     set_option (if m_new_val g then m_posedge_event_p g else m_negedge_event_p g))"

fun announces :: "'v channel \<Rightarrow> nat set" where
  "announces (SignalChan g) = (if m_new_val g = m_cur_val g then {} else set_option (m_change_event_p g))"
| "announces (BufferChan g) = set_option (m_change_event_p g)"
| "announces (BoolChan g) = edge_events g"
| "announces (ClockChan g) = edge_events g"
| "announces (FifoChan f) = (if m_num_read f > 0 then {m_data_read_event f} else {}) \<union>
     (if m_num_written f > 0 then {m_data_written_event f} else {})"

text \<open>A boolean signal without resets whose events are distinct.\<close>

definition own_events :: "'b sc_signal_bool_scheme \<Rightarrow> bool" where
  "own_events g \<longleftrightarrow> m_reset_p g = None \<and>
     set_option (m_change_event_p g) \<inter> (set_option (m_posedge_event_p g) \<union> set_option (m_negedge_event_p g)) = {}"

fun wired :: "'v channel \<Rightarrow> bool" where
  "wired (BoolChan g) = own_events g"
| "wired (ClockChan g) = own_events g"
| "wired _ = True"

definition notified :: "nat set \<Rightarrow> (nat \<Rightarrow> pending) \<Rightarrow> nat \<Rightarrow> pending" where
  "notified es p e = (if e \<in> es then PendDelta else p e)"

lemma notified_none [simp]: "notified {} p = p"
  by (simp add: notified_def fun_eq_iff)

lemma notified_Un: "notified A (notified B p) = notified (B \<union> A) p"
  by (auto simp: notified_def fun_eq_iff)

lemma notify_if_notified:
  assumes "ev_inv s" "\<And>e. e \<in> set_option ev \<Longrightarrow> pending s e = NotPending"
  shows "\<exists>s1. notify_if ev s = Some s1 \<and> ev_inv s1 \<and> pending s1 = notified (set_option ev) (pending s) \<and>
    m_change_stamp s1 = m_change_stamp s"
  using notify_if_ok [of s ev] assms same_ctx_stamp
  by (fastforce simp: notified_def fun_eq_iff split: option.splits)

text \<open>\<open>r\<close> is an update that ends with \<open>g\<close> and the notification of \<open>es\<close>.\<close>

definition updates_to :: "'g \<Rightarrow> nat set \<Rightarrow> 'a sim_scheme \<Rightarrow> ('g \<times> 'a sim_scheme) option \<Rightarrow> bool" where
  "updates_to g es s r \<longleftrightarrow> (\<exists>s'. r = Some (g, s') \<and> ev_inv s' \<and> pending s' = notified es (pending s) \<and>
     kernel.more s' = kernel.more s)"

lemma more_stamp: "kernel.more s' = kernel.more s \<Longrightarrow> m_change_stamp s' = m_change_stamp s"
  for s s' :: "'a sim_scheme"
  by (cases s; cases s') simp

lemma signal_updates_to:
  assumes "ev_inv s" "\<And>e. e \<in> announces (SignalChan g) \<Longrightarrow> pending s e = NotPending"
  shows "updates_to (commit_value False (m_change_stamp s) g) (announces (SignalChan g)) s (signal_update g s)"
proof (cases "m_new_val g = m_cur_val g")
  case True
  with assms(1) show ?thesis by (simp add: updates_to_def signal_update_def commit_value_def)
next
  case False
  with assms obtain s1 where s1: "notify_if (m_change_event_p g) s = Some s1" "ev_inv s1"
    "pending s1 = notified (set_option (m_change_event_p g)) (pending s)"
    using notify_if_notified [of s "m_change_event_p g"] by auto
  with False notify_if_keeps [OF s1(1)] more_stamp [of s1 s] show ?thesis
    by (simp add: updates_to_def signal_update_def commit_value_def)
qed

lemma buffer_updates_to:
  assumes "ev_inv s" "\<And>e. e \<in> announces (BufferChan g) \<Longrightarrow> pending s e = NotPending"
  shows "updates_to (commit_value True (m_change_stamp s) g) (announces (BufferChan g)) s (buffer_update g s)"
proof (cases "m_change_event_p g")
  case None
  with assms(1) show ?thesis by (simp add: updates_to_def buffer_update_def commit_value_def)
next
  case (Some e)
  obtain s1 where s1: "notify_time e 0 s = Some s1" "ev_inv s1" "pending s1 = (pending s)(e := earlier (pending s e) PendDelta)"
    by (rule notify_time_ok [OF assms(1), of e 0]) simp
  with Some assms(2) [of e] notify_time_keeps [OF s1(1)] more_stamp [of s1 s] show ?thesis
    by (auto simp: updates_to_def buffer_update_def commit_value_def notified_def fun_eq_iff)
qed

lemma bool_updates_to:
  assumes s: "ev_inv s" "\<And>e. e \<in> edge_events g \<Longrightarrow> pending s e = NotPending" and g: "own_events g"
  shows "updates_to (commit_value False (m_change_stamp s) g) (edge_events g) s (bool_update g s)"
proof (cases "m_new_val g = m_cur_val g")
  case True
  with s show ?thesis by (simp add: updates_to_def bool_update_def commit_value_def edge_events_def)
next
  case False
  let ?ce = "m_change_event_p g" and ?ee = "if m_new_val g then m_posedge_event_p g else m_negedge_event_p g"
  have ev: "edge_events g = set_option ?ce \<union> set_option ?ee" using False by (simp add: edge_events_def)
  obtain s1 where s1: "notify_if ?ce s = Some s1" "ev_inv s1" "pending s1 = notified (set_option ?ce) (pending s)"
    using notify_if_notified [of s ?ce] s ev by auto
  have free: "pending s1 e = NotPending" if e: "e \<in> set_option ?ee" for e
    using e s(2) [of e] g s1(3) ev unfolding own_events_def notified_def by (cases "m_new_val g") auto
  obtain s2 where s2: "notify_if ?ee s1 = Some s2" "ev_inv s2" "pending s2 = notified (set_option ?ee) (pending s1)"
    using notify_if_notified [OF s1(2) free] by auto
  have more: "kernel.more s2 = kernel.more s" using notify_if_keeps [OF s1(1)] notify_if_keeps [OF s2(1)] by simp
  have keep: "m_posedge_event_p (policy_update g) = m_posedge_event_p g"
    "m_negedge_event_p (policy_update g) = m_negedge_event_p g" "m_reset_p (policy_update g) = m_reset_p g"
    by (simp_all add: policy_update_def)
  have "bool_update g s = Some (commit_value False (m_change_stamp s) g, s2)"
    using False s1(1) s2(1) g more_stamp [OF more] keep
    by (cases "m_cur_val g") (simp_all add: bool_update_def commit_value_def own_events_def Let_def)
  with more s2 s1(3) ev show ?thesis by (simp add: updates_to_def notified_Un Un_commute)
qed

lemma fifo_updates_to:
  fixes s :: "'a sim_scheme"
  assumes "ev_inv s" "\<And>e. e \<in> announces (FifoChan f) \<Longrightarrow> pending s e = NotPending"
  shows "updates_to (f\<lparr>m_num_readable := m_size f - m_free f, m_num_read := 0, m_num_written := 0\<rparr>)
    (announces (FifoChan f)) s (fifo_update f s)"
proof -
  have step: "\<exists>t'. (if b then notify_time e 0 t else Some t) = Some t' \<and> ev_inv t' \<and>
      pending t' = notified (if b then {e} else {}) (pending t) \<and> kernel.more t' = kernel.more t"
    if t: "ev_inv t" "b \<Longrightarrow> pending t e \<in> {NotPending, PendDelta}" for b e and t :: "'a sim_scheme"
  proof (cases b)
    case True
    obtain t' where "notify_time e 0 t = Some t'" "ev_inv t'" "pending t' = (pending t)(e := earlier (pending t e) PendDelta)"
      by (rule notify_time_ok [OF t(1), of e 0]) simp
    with True t(2) notify_time_keeps [of e 0 t t'] show ?thesis by (auto simp: notified_def fun_eq_iff)
  qed (use t in simp)
  let ?r = "if m_num_read f > 0 then {m_data_read_event f} else {}"
  obtain s1 where s1: "(if m_num_read f > 0 then notify_time (m_data_read_event f) 0 s else Some s) = Some s1"
    "ev_inv s1" "pending s1 = notified ?r (pending s)" "kernel.more s1 = kernel.more s"
    using step [OF assms(1), of "m_num_read f > 0" "m_data_read_event f"] assms(2) by auto
  have "pending s1 (m_data_written_event f) \<in> {NotPending, PendDelta}" if "m_num_written f > 0"
    using s1(3) assms(2) [of "m_data_written_event f"] that by (auto simp: notified_def)
  with step [OF s1(2), of "m_num_written f > 0" "m_data_written_event f"] s1 show ?thesis
    by (auto simp: updates_to_def fifo_update_def notified_Un)
qed

lemma put_updates_to:
  assumes "updates_to g es s r"
  shows "\<exists>s'. put_channel c mk r = Some s' \<and> ev_inv s' \<and> pending s' = notified es (pending s) \<and>
    m_change_stamp s' = m_change_stamp s \<and> chans s' = (chans s)(c := mk g)"
proof -
  obtain s' where s': "r = Some (g, s')" "ev_inv s'" "pending s' = notified es (pending s)" "kernel.more s' = kernel.more s"
    using assms by (auto simp: updates_to_def)
  have "ev_inv (s'\<lparr>chans := x\<rparr>) = ev_inv s'" for x by (simp add: ev_inv_def heap_inv_def)
  moreover have "pending (s'\<lparr>chans := x\<rparr>) = pending s'" for x by (rule pending_cong) simp_all
  moreover note more_fields [OF s'(4)]
  ultimately show ?thesis using s' by (simp add: put_channel_def)
qed

lemma channel_updates_to:
  assumes "ev_inv s" "wired (chans s c)" "\<And>e. e \<in> announces (chans s c) \<Longrightarrow> pending s e = NotPending"
  shows "\<exists>s'. channel_update c s = Some s' \<and> ev_inv s' \<and> pending s' = notified (announces (chans s c)) (pending s) \<and>
    m_change_stamp s' = m_change_stamp s \<and> chans s' = (chans s)(c := commit (m_change_stamp s) (chans s c))"
proof (cases "chans s c")
  case (SignalChan g)
  with put_updates_to [OF signal_updates_to [OF assms(1), of g], of c SignalChan] assms(3)
  show ?thesis by (simp add: channel_update_def)
next
  case (BufferChan g)
  with put_updates_to [OF buffer_updates_to [OF assms(1), of g], of c BufferChan] assms(3)
  show ?thesis by (simp add: channel_update_def)
next
  case (BoolChan g)
  with put_updates_to [OF bool_updates_to [OF assms(1), of g], of c BoolChan] assms
  show ?thesis by (simp add: channel_update_def)
next
  case (ClockChan g)
  with put_updates_to [OF bool_updates_to [OF assms(1), of g], of c ClockChan] assms
  show ?thesis by (simp add: channel_update_def)
next
  case (FifoChan f)
  with put_updates_to [OF fifo_updates_to [OF assms(1), of f], of c FifoChan] assms(3)
  show ?thesis by (simp add: channel_update_def)
qed

text \<open>The channels that are pending do not share the events they notify.\<close>

definition can_commit :: "nat set \<Rightarrow> ('v, 'b) channels_scheme \<Rightarrow> bool" where
  "can_commit cs s \<longleftrightarrow> (\<forall>c\<in>cs. wired (chans s c) \<and> (\<forall>e\<in>announces (chans s c). pending s e = NotPending) \<and>
     (\<forall>d\<in>cs. d \<noteq> c \<longrightarrow> announces (chans s c) \<inter> announces (chans s d) = {}))"

definition commit_all :: "nat set \<Rightarrow> 64 word \<Rightarrow> (nat \<Rightarrow> 'v channel) \<Rightarrow> nat \<Rightarrow> 'v channel" where
  "commit_all cs st ch c = (if c \<in> cs then commit st (ch c) else ch c)"

lemma updates_commit:
  "ev_inv s \<Longrightarrow> distinct cs \<Longrightarrow> can_commit (set cs) s \<Longrightarrow>
   \<exists>s'. updates channel_update cs s = Some s' \<and> ev_inv s' \<and> chans s' = commit_all (set cs) (m_change_stamp s) (chans s) \<and>
     pending s' = notified (\<Union>c\<in>set cs. announces (chans s c)) (pending s)"
proof (induction cs arbitrary: s)
  case Nil
  then show ?case by (simp add: commit_all_def fun_eq_iff)
next
  case (Cons c cs)
  have c: "wired (chans s c)" "e \<in> announces (chans s c) \<Longrightarrow> pending s e = NotPending" for e
    using Cons.prems(3) by (auto simp: can_commit_def)
  obtain t where t: "channel_update c s = Some t" "ev_inv t" "pending t = notified (announces (chans s c)) (pending s)"
    "m_change_stamp t = m_change_stamp s" "chans t = (chans s)(c := commit (m_change_stamp s) (chans s c))"
    using channel_updates_to [OF Cons.prems(1) c] by blast
  let ?t = "t\<lparr>m_update_next_p := (m_update_next_p t)(c := Null)\<rparr>"
  have same: "pending ?t = pending t" "ev_inv ?t = ev_inv t"
    by (rule pending_cong, simp_all add: ev_inv_def heap_inv_def)
  have old: "chans t d = chans s d" if "d \<in> set cs" for d using t(5) that Cons.prems(2) by auto
  have "can_commit (set cs) ?t"
    using Cons.prems(2,3) unfolding can_commit_def same t(3)
    by (auto simp: old notified_def)
  from Cons.IH [OF _ _ this] Cons.prems(2) t(2) same obtain s' where
    s': "updates channel_update cs ?t = Some s'" "ev_inv s'" "chans s' = commit_all (set cs) (m_change_stamp t) (chans t)"
    "pending s' = notified (\<Union>c\<in>set cs. announces (chans t c)) (pending t)" by auto
  have "(\<Union>c\<in>set cs. announces (chans t c)) = (\<Union>c\<in>set cs. announces (chans s c))" using old by simp
  moreover have "commit_all (set cs) (m_change_stamp t) (chans t) = commit_all (set (c # cs)) (m_change_stamp s) (chans s)"
    using Cons.prems(2) t(4,5) by (auto simp: commit_all_def fun_eq_iff)
  ultimately show ?case using s' t(1,3) by (simp add: channel_perform_update_def notified_Un)
qed

lemma foldl_request_keeps:
  fixes s :: "('a, 'b) channels_scheme"
  shows
  "chans (foldl (\<lambda>t c. request_update c t) s cs) = chans s"
  "m_change_stamp (foldl (\<lambda>t c. request_update c t) s cs) = m_change_stamp s"
  "ev_inv (foldl (\<lambda>t c. request_update c t) s cs) = ev_inv s"
  "pending (foldl (\<lambda>t c. request_update c t) s cs) = pending s"
proof -
  have "chans (request_update c t) = chans t" "m_change_stamp (request_update c t) = m_change_stamp t"
    for c and t :: "('a, 'b) channels_scheme"
    by (simp_all add: request_update_def)
  then show "chans (foldl (\<lambda>t c. request_update c t) s cs) = chans s"
    "m_change_stamp (foldl (\<lambda>t c. request_update c t) s cs) = m_change_stamp s"
    "ev_inv (foldl (\<lambda>t c. request_update c t) s cs) = ev_inv s"
    "pending (foldl (\<lambda>t c. request_update c t) s cs) = pending s"
    by (induction cs arbitrary: s) simp_all
qed

lemma can_commit_cong: "chans s' = chans s \<Longrightarrow> pending s' = pending s \<Longrightarrow> can_commit cs s' = can_commit cs s"
  by (simp add: can_commit_def)

lemma request_phase:
  assumes s: "update_queue s []" "m_async_push_queue s = []" "ev_inv s" and can: "can_commit (set (cs @ as)) s"
  shows "\<exists>s'. perform_update channel_update
      (foldl (\<lambda>t c. async_request_update c t) (foldl (\<lambda>t c. request_update c t) s cs) as) = Some s' \<and>
    ev_inv s' \<and> chans s' = commit_all (set (cs @ as)) (m_change_stamp s) (chans s) \<and>
    pending s' = notified (\<Union>c\<in>set (cs @ as). announces (chans s c)) (pending s)"
proof -
  let ?s = "(foldl (\<lambda>t c. request_update c t) s (cs @ as))\<lparr>m_update_list_p := QEnd\<rparr>"
  have same: "pending ?s = pending s" "ev_inv ?s = ev_inv s" "chans ?s = chans s" "m_change_stamp ?s = m_change_stamp s"
    using foldl_request_keeps [of s "cs @ as"] pending_cong [of ?s "foldl (\<lambda>t c. request_update c t) s (cs @ as)"]
    by (simp_all add: ev_inv_def heap_inv_def)
  have set: "set (rev (firsts (cs @ as))) = set (cs @ as)" "distinct (rev (firsts (cs @ as)))" by simp_all
  have "can_commit (set (rev (firsts (cs @ as)))) ?s" 
    unfolding set(1) can_commit_cong [OF same(3,1)] by (rule can)
  from updates_commit [OF _ set(2) this] s(3) same set(1) show ?thesis
    unfolding design.perform_update_list [OF s(1,2)] by (simp del: foldl_append)
qed

text \<open>
  C16. The update phase on the channels that requested an update, by calls from the simulator or
  from other threads and any number of times, is one simultaneous assignment: each of them has
  its new value, all others are unchanged, and exactly the events they announce are notified for
  the next delta cycle.\<close>

theorem update_phase_commits:
  assumes "update_queue s []" "m_async_push_queue s = []" "ev_inv s" "can_commit (set (cs @ as)) s"
  shows "\<exists>s'. perform_update channel_update
      (foldl (\<lambda>t c. async_request_update c t) (foldl (\<lambda>t c. request_update c t) s cs) as) = Some s' \<and>
    (\<forall>c. chans s' c = (if c \<in> set cs \<union> set as then commit (m_change_stamp s) (chans s c) else chans s c)) \<and>
    (\<forall>e. pending s' e = (if \<exists>c\<in>set cs \<union> set as. e \<in> announces (chans s c) then PendDelta else pending s e))"
  using request_phase [OF assms] by (auto simp: commit_all_def notified_def)

text \<open>
  The values of the channels and the notified events after the update phase do not depend on
  the order of the requests, nor on which of them were made asynchronously.\<close>

theorem update_order_irrelevant:
  assumes "update_queue s []" "m_async_push_queue s = []" "ev_inv s" "can_commit (set (cs @ as)) s"
    and same: "set (cs @ as) = set (cs' @ as')"
  shows "\<exists>s1 s2. perform_update channel_update
      (foldl (\<lambda>t c. async_request_update c t) (foldl (\<lambda>t c. request_update c t) s cs) as) = Some s1 \<and>
    perform_update channel_update
      (foldl (\<lambda>t c. async_request_update c t) (foldl (\<lambda>t c. request_update c t) s cs') as') = Some s2 \<and>
    chans s1 = chans s2 \<and> pending s1 = pending s2"
  using request_phase [OF assms(1-4)] request_phase [OF assms(1-3), of cs' as'] assms(4) unfolding same by metis

text \<open>A design of two signals, a fifo and a boolean signal.\<close>

definition demo_design :: "nat channels" where
  "demo_design = sim.extend demo_running \<lparr>chans = (\<lambda>c.
     if c = 10 then SignalChan ((sc_signal_ctor SC_MANY_WRITERS 0)\<lparr>m_new_val := 5, m_change_event_p := Some 3\<rparr>)
     else if c = 11 then FifoChan (snd (buf_write 9 (the (sc_fifo_ctor 0 2 6 7)))\<lparr>m_num_written := 1\<rparr>)
     else if c = 12 then BoolChan demo_bool
     else SignalChan (sc_signal_ctor SC_ONE_WRITER 0))\<rparr>"

lemma demo_design: "update_queue demo_design []" "m_async_push_queue demo_design = []" "ev_inv demo_design"
  "pending demo_design e = NotPending" "m_change_stamp demo_design = 8"
proof -
  have u: "update_queue demo_running []" "m_async_push_queue demo_running = []" "m_change_stamp demo_running = 8"
    by (simp_all add: demo_running_def sc_simcontext_init_def kernel.defs update_queue_def)
  then show "update_queue demo_design []" "m_async_push_queue demo_design = []" "m_change_stamp demo_design = 8"
    by (simp_all add: demo_design_def sim.defs update_queue_def)
  have "ev_inv demo_design = ev_inv demo_running"
    by (simp add: demo_design_def sim.defs ev_inv_def heap_inv_def)
  then show "ev_inv demo_design" using demo_running by simp
  show "pending demo_design e = NotPending"
    using demo_running(2) [of e] by (simp add: demo_design_def sim.defs pending_NotPending)
qed

lemma demo_chans:
  "chans demo_design 10 = SignalChan ((sc_signal_ctor SC_MANY_WRITERS 0)\<lparr>m_new_val := 5, m_change_event_p := Some 3\<rparr>)"
  "chans demo_design 11 = FifoChan (snd (buf_write 9 (the (sc_fifo_ctor 0 2 6 7)))\<lparr>m_num_written := 1\<rparr>)"
  "chans demo_design 12 = BoolChan demo_bool"
  by (simp_all add: demo_design_def sim.defs)

lemma demo_announces:
  "announces (chans demo_design 10) = {3}" "announces (chans demo_design 11) = {7}" "announces (chans demo_design 12) = {4}"
  "wired (chans demo_design 10)" "wired (chans demo_design 11)" "wired (chans demo_design 12)"
  by (simp_all add: demo_chans sc_signal_ctor_def edge_events_def own_events_def demo_bool_def
      sc_signal_bool_ctor_def sc_signal.defs sc_fifo_ctor_def fifo_init_def buf_init_def buf_write_def)

lemma demo_can_commit: "can_commit (set ([10, 11, 10] @ [12])) demo_design"
  by (simp add: can_commit_def demo_announces demo_design(4))

theorem update_phase_commits_witness:
  "\<exists>s'. perform_update channel_update
      (foldl (\<lambda>t c. async_request_update c t) (foldl (\<lambda>t c. request_update c t) demo_design [10, 11, 10]) [12]) = Some s' \<and>
    (\<exists>g. chans s' 10 = SignalChan g \<and> signal_read g = 5) \<and> (\<exists>f. chans s' 11 = FifoChan f \<and> num_available f = 1) \<and>
    pending s' 3 = PendDelta \<and> pending s' 5 = NotPending"
proof -
  obtain s' where s': "perform_update channel_update
      (foldl (\<lambda>t c. async_request_update c t) (foldl (\<lambda>t c. request_update c t) demo_design [10, 11, 10]) [12]) = Some s'"
    "\<forall>c. chans s' c = (if c \<in> set [10, 11, 10] \<union> set [12] then commit (m_change_stamp demo_design) (chans demo_design c)
       else chans demo_design c)"
    "\<forall>e. pending s' e = (if \<exists>c\<in>set [10, 11, 10] \<union> set [12]. e \<in> announces (chans demo_design c) then PendDelta
       else pending demo_design e)"
    using update_phase_commits [OF demo_design(1-3) demo_can_commit] by blast
  have "\<exists>g. chans s' 10 = SignalChan g \<and> signal_read g = 5"
    using s'(2) by (simp add: demo_chans commit_value_def signal_read_def sc_signal_ctor_def)
  moreover have "\<exists>f. chans s' 11 = FifoChan f \<and> num_available f = 1"
    using s'(2) by (simp add: demo_chans num_available_def sc_fifo_ctor_def fifo_init_def buf_init_def buf_write_def)
  ultimately show ?thesis using s'(1,3) by (simp add: demo_announces demo_design(4))
qed

theorem update_order_irrelevant_witness:
  "\<exists>s1 s2. perform_update channel_update
      (foldl (\<lambda>t c. async_request_update c t) (foldl (\<lambda>t c. request_update c t) demo_design [10, 11, 10]) [12]) = Some s1 \<and>
    perform_update channel_update
      (foldl (\<lambda>t c. async_request_update c t) (foldl (\<lambda>t c. request_update c t) demo_design [12, 11]) [10]) = Some s2 \<and>
    chans s1 = chans s2"
  using update_order_irrelevant [OF demo_design(1-3) demo_can_commit, of "[12, 11]" "[10]"] by auto

end
