(* ===== verification/Mag_Strings.thy ===== *)
theory Mag_Strings
  imports Prelude
begin

text \<open>
  The string helpers of the monitor generator (mag/utils.cc).  A pointer to a string that a
  function assigns is its result.  A stream for output is the text written to it.
\<close>

section \<open>Integers\<close>

text \<open>\<^verbatim>\<open>ss >> num\<close>; \<open>None\<close> is \<^verbatim>\<open>exit(1)\<close>.\<close>

fun digits_value :: "int \<Rightarrow> string \<Rightarrow> int" where
  "digits_value n [] = n"
| "digits_value n (c # cs) = digits_value (10 * n + int (of_char c) - 48) cs"

definition str2int :: "string \<Rightarrow> int option" where
  "str2int str =
     (let t = dropWhile is_space str;
          neg = (t \<noteq> [] \<and> hd t = CHR ''-'');
          u = (if t \<noteq> [] \<and> (hd t = CHR ''-'' \<or> hd t = CHR ''+'') then tl t else t);
          ds = takeWhile is_digit u;
          n = (if neg then - digits_value 0 ds else digits_value 0 ds)
      in if ds = [] \<or> n < - (2 ^ 31) \<or> n \<ge> 2 ^ 31 then None else Some n)"

section \<open>Replacing and removing characters\<close>

lemma find_str_single: "find_str s [c] j = Some k \<Longrightarrow> j \<le> k \<and> k < length s \<and> s ! k = c"
  by (auto simp: find_str_def find_sub_single find_idx_Some add.commute split: if_splits)

text \<open>
  The loop of \<^verbatim>\<open>comment_out_string\<close> and of \<^verbatim>\<open>quote_escape\<close>: from position \<open>p\<close> on, the
  character \<open>c\<close> is replaced by the string \<open>r\<close> and the search goes on behind it.
\<close>

function replace_loop :: "char \<Rightarrow> string \<Rightarrow> string \<Rightarrow> nat option \<Rightarrow> string" where
  "replace_loop c r s None = s"
| "replace_loop c r s (Some j) =
     (let s1 = replace s j 1 r in if r = [] then s1 else replace_loop c r s1 (find_str s1 [c] (j + length r)))"
  by pat_completeness auto

termination
proof (relation "measure (\<lambda>(c, r, s, p). case p of None \<Rightarrow> 0 | Some j \<Rightarrow> Suc (length s - j))", goal_cases)
  case (2 c r s j s1)
  show ?case
  proof (cases "find_str s1 [c] (j + length r)")
    case (Some k)
    from find_str_single [OF this] 2 Some show ?thesis by (auto simp: replace_def)
  qed simp
qed simp

definition comment_out_string :: "string \<Rightarrow> string" where
  "comment_out_string input =
     (let s = replace input 0 0 ''//''; pos = find_str s [nl] 0 in replace_loop nl (nl # ''//'') s pos)"

definition quote_escape :: "string \<Rightarrow> string" where
  "quote_escape source = replace_loop dquote [backslash, dquote] source (find_str source [dquote] 0)"

lemma find_from_Some: "find_from P s j = Some k \<Longrightarrow> j \<le> k \<and> k < length s \<and> P (s ! k)"
  by (auto simp: find_from_def find_idx_Some add.commute)

text \<open>\<^verbatim>\<open>while (left < source.size())\<close>; the result is what is written to the stream.\<close>

function remove_loop_str :: "string \<Rightarrow> string \<Rightarrow> nat \<Rightarrow> string" where
  "remove_loop_str source flags left =
     (if left < length source
      then (case find_first_of source flags left of
              None \<Rightarrow> substr source left None
            | Some right \<Rightarrow> substr source left (Some (right - left)) @ remove_loop_str source flags (right + 1))
      else [])"
  by pat_completeness auto

termination
  by (relation "measure (\<lambda>(s, f, left). length s - left)") (auto simp: find_first_of_def dest: find_from_Some)

declare remove_loop_str.simps [simp del]

definition remove_str :: "string \<Rightarrow> string \<Rightarrow> string" where
  "remove_str input flags = remove_loop_str input flags 0"

definition copy_without_surrounding_whitespace :: "string \<Rightarrow> string" where
  "copy_without_surrounding_whitespace source =
     (let s1 = erase source 0 (find_first_not_of source ws_chars 0)
      in erase s1 (pos_succ (find_last_not_of s1 ws_chars)) None)"

section \<open>File names\<close>

definition get_naked_file_name :: "string \<Rightarrow> string" where
  "get_naked_file_name full_name =
     (case find_last_of full_name ''/'' of None \<Rightarrow> full_name | Some p \<Rightarrow> substr full_name (p + 1) None)"

definition get_capitalized_name :: "string \<Rightarrow> string" where
  "get_capitalized_name file_name =
     (let cn = map to_upper (get_naked_file_name file_name)
      in map (\<lambda>c. if c = CHR ''.'' then CHR ''_'' else c) cn)"

text \<open>
  The file system is asked for existing names, and \<open>rnd\<close> gives the decimal strings of the random
  numbers; a search that never ends is \<open>None\<close>.  The position before the first character of an
  empty directory is \<^verbatim>\<open>npos\<close>, so no slash is added to it.
\<close>

definition with_slash :: "string \<Rightarrow> string" where
  "with_slash directory =
     (if find_last_of directory ''/'' = (if directory = [] then None else Some (length directory - 1))
      then directory else directory @ ''/'')"

partial_function (option) unique_loop ::
  "(string \<Rightarrow> bool) \<Rightarrow> (nat \<Rightarrow> string) \<Rightarrow> nat \<Rightarrow> string \<Rightarrow> string \<Rightarrow> string \<Rightarrow> string option" where
  "unique_loop exists rnd k base ext try_name =
     (if exists try_name then unique_loop exists rnd (k + 1) base ext (base @ rnd k @ ''.'' @ ext) else Some try_name)"

definition get_unique_file_name ::
  "(string \<Rightarrow> bool) \<Rightarrow> (nat \<Rightarrow> string) \<Rightarrow> string \<Rightarrow> string \<Rightarrow> string \<Rightarrow> string option" where
  "get_unique_file_name exists rnd directory prefix ext =
     (let base = with_slash directory @ prefix in unique_loop exists rnd 0 base ext (base @ ''.'' @ ext))"

definition get_unique_file_name_in_same_directory ::
  "(string \<Rightarrow> bool) \<Rightarrow> (nat \<Rightarrow> string) \<Rightarrow> string \<Rightarrow> string \<Rightarrow> string \<Rightarrow> string option" where
  "get_unique_file_name_in_same_directory exists rnd neighbor prefix ext =
     (let directory = (case find_last_of neighbor ''/'' of None \<Rightarrow> ''./'' | Some p \<Rightarrow> substr neighbor 0 (Some p))
      in get_unique_file_name exists rnd directory prefix ext)"

section \<open>Event clocks\<close>

definition get_event_clock_extension :: string where
  "get_event_clock_extension = ''.notified''"

text \<open>A negative length is \<^verbatim>\<open>npos\<close> or more: the whole string.\<close>

definition get_event_from_clock :: "string \<Rightarrow> string" where
  "get_event_from_clock clock =
     (let last_index = int (length clock) - int (length get_event_clock_extension)
      in if last_index < 0 then clock else substr clock 0 (Some (nat last_index)))"

definition is_event_clock_name :: "string \<Rightarrow> bool" where
  "is_event_clock_name clock \<longleftrightarrow>
     (let n = length get_event_clock_extension
      in length clock > n \<and> substr clock (length clock - n) (Some n) = get_event_clock_extension)"

definition get_event_clocks_subset :: "sset \<Rightarrow> sset" where
  "get_event_clocks_subset clocks =
     foldl (\<lambda>ec c. if is_event_clock_name c then sset_insert c ec else ec) [] clocks"

text \<open>
  The buffer has as many characters as the clock, their first values are \<open>junk\<close>; \<open>None\<close> is the
  write of the terminating zero behind its end.
\<close>

definition clock_event_to_monitor_variable :: "string \<Rightarrow> string \<Rightarrow> string option" where
  "clock_event_to_monitor_variable junk clock =
     (let (buffer, curr) = foldl (\<lambda>(b, i) c. if is_alnum c then (b[i := c], i + 1) else (b, i))
            (take (length clock) junk, 0) clock
      in if curr < length clock then Some (takeWhile (\<lambda>c. c \<noteq> CHR 0x00) (buffer[curr := CHR 0x00])) else None)"

section \<open>Generated text\<close>

lemma find_sub_bound: "find_sub pat s = Some k \<Longrightarrow> k + length pat \<le> length s"
proof (induction s arbitrary: k)
  case (Cons c cs)
  then show ?case by (auto simp: starts_with_iff dest: arg_cong [of _ _ length] split: if_splits)
qed (auto split: if_splits)

function declare_forward :: "string \<Rightarrow> string" where
  "declare_forward user_object =
     (case find_str user_object ''::'' 0 of
        Some scope \<Rightarrow> ''namespace '' @ substr user_object 0 (Some scope) @ '' {'' @ [nl] @
          declare_forward (substr user_object (scope + 2) None) @ ''}'' @ [nl]
      | None \<Rightarrow> ''class '' @ user_object @ '';'' @ [nl])"
  by pat_completeness auto

termination
  by (relation "measure length") (auto simp: substr_def find_str_def dest: find_sub_bound split: if_splits)

declare declare_forward.simps [simp del]

definition copyright_generation :: string where
  "copyright_generation = concat (map (\<lambda>l. l @ [nl])
     [''/*'', '' * This code is automatically generated by MAG'', '' * Copyright (C) 2014 Chan Ngo, INRIA'',
      '' * chan.ngo@inria.fr'', '' */'', [], []])"

section \<open>What the helpers compute\<close>

definition expand :: "char \<Rightarrow> string \<Rightarrow> string \<Rightarrow> string" where
  "expand c r s = concat (map (\<lambda>x. if x = c then r else [x]) s)"

lemma expand_simps [simp]: "expand c r [] = []" "expand c r (x # s) = (if x = c then r else [x]) @ expand c r s"
  "expand c r (s @ t) = expand c r s @ expand c r t"
  by (simp_all add: expand_def)

lemma expand_id: "c \<notin> set s \<Longrightarrow> expand c r s = s"
  by (induction s) auto

lemma find_str_None: "j \<le> length s \<Longrightarrow> find_str s [c] j = None \<longleftrightarrow> c \<notin> set (drop j s)"
  by (auto simp: find_str_def find_sub_single find_idx_None)

lemma find_str_split:
  assumes "find_str s [c] j = Some k"
  shows "drop j s = take (k - j) (drop j s) @ c # drop (k + 1) s" "c \<notin> set (take (k - j) (drop j s))"
proof -
  have k: "j \<le> k" "k < length s" "s ! k = c" using find_str_single [OF assms] by auto
  have "drop j s = take (k - j) (drop j s) @ drop (k - j) (drop j s)"
    by (rule append_take_drop_id [symmetric])
  also have "drop (k - j) (drop j s) = c # drop (k + 1) s" using k Cons_nth_drop_Suc [of k s] by simp
  finally show "drop j s = take (k - j) (drop j s) @ c # drop (k + 1) s" .
  show "c \<notin> set (take (k - j) (drop j s))"
    using assms by (auto simp: find_str_def find_sub_single find_idx_Some split: if_splits)
qed

lemma replace_loop_from:
  assumes "r \<noteq> []"
  shows "j \<le> length s \<Longrightarrow> replace_loop c r s (find_str s [c] j) = take j s @ expand c r (drop j s)"
proof (induction "length s - j" arbitrary: s j rule: less_induct)
  case less
  show ?case
  proof (cases "find_str s [c] j")
    case None
    then have "c \<notin> set (drop j s)" using less.prems by (simp add: find_str_None)
    then show ?thesis unfolding None by (simp add: expand_id)
  next
    case (Some k)
    have k: "j \<le> k" "k < length s" using find_str_single [OF Some] by auto
    let ?s = "replace s k 1 r"
    have len: "k + length r \<le> length ?s" "length ?s - (k + length r) = length s - (k + 1)"
      and take: "take (k + length r) ?s = take k s @ r" and drop: "drop (k + length r) ?s = drop (k + 1) s"
      using k by (auto simp: replace_def)
    have "replace_loop c r s (find_str s [c] j) = replace_loop c r ?s (find_str ?s [c] (k + length r))"
      using Some assms by (simp add: Let_def)
    also have "\<dots> = take k s @ r @ expand c r (drop (k + 1) s)"
      using less.hyps [of ?s "k + length r"] len k take drop by simp
    also have "take k s = take j s @ take (k - j) (drop j s)"
      using k by (metis le_add_diff_inverse take_add)
    also have "\<dots> @ r @ expand c r (drop (k + 1) s) = take j s @ expand c r (drop j s)"
      by (subst (2) find_str_split(1) [OF Some]) (simp add: expand_id [OF find_str_split(2) [OF Some]])
    finally show ?thesis .
  qed
qed

lemma quote_escape_expand: "quote_escape s = expand dquote [backslash, dquote] s"
  using replace_loop_from [of "[backslash, dquote]" 0 s dquote] by (simp add: quote_escape_def)

lemma comment_out_expand: "comment_out_string s = ''//'' @ expand nl (nl # ''//'') s"
  using replace_loop_from [of "nl # ''//''" 0 "''//'' @ s" nl]
  by (simp add: comment_out_string_def replace_def)

lemma copy_trim:
  "copy_without_surrounding_whitespace s =
     rev (dropWhile (\<lambda>c. c \<in> set ws_chars) (rev (dropWhile (\<lambda>c. c \<in> set ws_chars) s)))"
  by (simp add: copy_without_surrounding_whitespace_def erase_leading erase_trailing Let_def)

lemma remove_loop_filter: "remove_loop_str s fl j = filter (\<lambda>c. c \<notin> set fl) (drop j s)"
proof (induction "length s - j" arbitrary: j rule: less_induct)
  case less
  show ?case
  proof (cases "find_first_of s fl j")
    case None
    then have "\<forall>c\<in>set (drop j s). c \<notin> set fl" by (auto simp: find_first_of_def find_from_def find_idx_None)
    with None show ?thesis
      by (subst remove_loop_str.simps) (simp add: substr_def filter_id_conv)
  next
    case (Some k)
    then have k: "j \<le> k" "k < length s" "s ! k \<in> set fl" "\<forall>c\<in>set (take (k - j) (drop j s)). c \<notin> set fl"
      by (auto simp: find_first_of_def find_from_def find_idx_Some add.commute)
    have "drop j s = take (k - j) (drop j s) @ drop (k - j) (drop j s)" by (rule append_take_drop_id [symmetric])
    also have "drop (k - j) (drop j s) = s ! k # drop (k + 1) s" using k Cons_nth_drop_Suc [of k s] by simp
    finally have "filter (\<lambda>c. c \<notin> set fl) (drop j s) = take (k - j) (drop j s) @ filter (\<lambda>c. c \<notin> set fl) (drop (k + 1) s)"
      using k by (metis (no_types, lifting) filter.simps(2) filter_True filter_append)
    moreover have "remove_loop_str s fl (k + 1) = filter (\<lambda>c. c \<notin> set fl) (drop (k + 1) s)"
      using k by (intro less.hyps) simp
    ultimately show ?thesis using Some k by (subst remove_loop_str.simps) (simp add: substr_def)
  qed
qed

lemma remove_str_filter: "remove_str s fl = filter (\<lambda>c. c \<notin> set fl) s"
  by (simp add: remove_str_def remove_loop_filter)

section \<open>Commenting out\<close>

text \<open>The lines of a text.\<close>

fun lines :: "string \<Rightarrow> string list" where
  "lines [] = [[]]"
| "lines (c # cs) = (if c = nl then [] # lines cs else (case lines cs of [] \<Rightarrow> [] | l # ls \<Rightarrow> (c # l) # ls))"

lemma lines_nonempty: "lines s \<noteq> []"
  by (induction s) (auto split: list.split)

lemma lines_comment: "nl \<notin> set t \<Longrightarrow> lines (t @ expand nl (nl # ''//'') s) =
    (t @ hd (lines s)) # map ((@) ''//'') (tl (lines s))"
proof (induction s arbitrary: t)
  case Nil
  then show ?case
    by (induction t) auto
next
  case (Cons c s)
  obtain l ls where ls: "lines s = l # ls" using lines_nonempty [of s] by (cases "lines s") auto
  have pre: "lines (t @ nl # u) = t # lines u" for u using Cons.prems by (induction t) auto
  show ?case
  proof (cases "c = nl")
    case True
    with pre Cons.IH [of "''//''"] ls show ?thesis by simp
  next
    case False
    with Cons.IH [of "t @ [c]"] Cons.prems ls show ?thesis by simp
  qed
qed

text \<open>
  Every line of a commented-out text begins with two slashes, and behind them are exactly
  the lines of the text.\<close>

theorem comment_out_lines: "lines (comment_out_string s) = map (\<lambda>l. ''//'' @ l) (lines s)"
  using lines_comment [of "''//''" s] lines_nonempty [of s] by (cases "lines s") (simp_all add: comment_out_expand)

section \<open>Quoting\<close>

text \<open>
  How a C++ compiler reads a string literal behind its opening quote: the characters, and the
  text behind the closing quote; \<open>esc\<close> gives the meaning of the other escape sequences.
\<close>

fun read_literal :: "(char \<Rightarrow> char) \<Rightarrow> string \<Rightarrow> (string \<times> string) option" where
  "read_literal esc [] = None"
| "read_literal esc [c] = (if c = dquote then Some ([], []) else None)"
| "read_literal esc (c # d # cs) =
     (if c = dquote then Some ([], d # cs)
      else if c = backslash
      then map_option (\<lambda>(s, r). ((if d = dquote then dquote else esc d) # s, r)) (read_literal esc cs)
      else map_option (\<lambda>(s, r). (c # s, r)) (read_literal esc (d # cs)))"

lemma read_literal_Cons:
  "c \<noteq> dquote \<Longrightarrow> c \<noteq> backslash \<Longrightarrow> read_literal esc (c # cs) = map_option (\<lambda>(s, r). (c # s, r)) (read_literal esc cs)"
  by (cases cs) auto

lemma read_literal_close: "read_literal esc (dquote # cs) = Some ([], cs)"
  by (cases cs) auto

lemma read_quoted:
  "backslash \<notin> set s \<Longrightarrow> read_literal esc (expand dquote [backslash, dquote] s @ dquote # rest) = Some (s, rest)"
proof (induction s)
  case Nil
  then show ?case by (cases rest) auto
next
  case (Cons c s)
  then show ?case by (auto simp: read_literal_Cons)
qed

lemma read_literal_count:
  "read_literal esc t = Some (s, r) \<Longrightarrow> length s + length r + count_list t dquote \<le> length t + count_list r dquote"
proof (induction esc t arbitrary: s r rule: read_literal.induct)
  case (3 esc c d cs)
  consider "c = dquote" | "c = backslash" | "c \<noteq> dquote" "c \<noteq> backslash" by blast
  then show ?case
  proof cases
    case 1
    with "3.prems" show ?thesis by auto
  next
    case 2
    with "3.prems" obtain s1 where "read_literal esc cs = Some (s1, r)" "length s = length s1 + 1" by auto
    with "3.IH"(1) [of s1 r] 2 show ?thesis by auto
  next
    case 3
    with "3.prems" obtain s1 where "read_literal esc (d # cs) = Some (s1, r)" "length s = length s1 + 1" by auto
    with "3.IH"(2) [of s1 r] 3 show ?thesis by auto
  qed
qed (auto split: if_splits)

lemma expand_length: "length (expand dquote [backslash, dquote] s) = length s + count_list s dquote"
  "count_list (expand dquote [backslash, dquote] s) dquote = count_list s dquote"
  by (induction s) auto

lemma read_quoted_backslash:
  "read_literal esc (expand dquote [backslash, dquote] s @ dquote # rest) = Some (s, rest) \<Longrightarrow> backslash \<notin> set s"
proof (induction s)
  case (Cons c s)
  have short: "length u \<le> length v"
    if "read_literal esc (expand dquote [backslash, dquote] v @ dquote # rest) = Some (u, rest)" for u v
    using read_literal_count [OF that] by (simp add: expand_length count_list_append)
  show ?case
  proof (cases "c = backslash")
    case False
    with Cons show ?thesis by (auto simp: read_literal_Cons split: if_splits)
  next
    case True
    show ?thesis
    proof (cases s)
      case Nil
      with Cons.prems True show ?thesis by (auto split: if_splits)
    next
      case s: (Cons x t)
      show ?thesis
      proof (cases "x = dquote")
        case True
        with Cons.prems s \<open>c = backslash\<close> show ?thesis by (auto simp: read_literal_close)
      next
        case False
        with Cons.prems s True
        have "read_literal esc (expand dquote [backslash, dquote] t @ dquote # rest) = Some (x # t, rest)" by auto
        from short [OF this] show ?thesis by simp
      qed
    qed
  qed
qed simp

text \<open>
  A string that is printed between quotes after \<^verbatim>\<open>quote_escape\<close> is read back by the C++
  compiler, whatever follows, exactly if it has no backslash.\<close>

theorem quote_escape_literal:
  "read_literal esc (quote_escape s @ dquote # rest) = Some (s, rest) \<longleftrightarrow> backslash \<notin> set s"
  using read_quoted read_quoted_backslash by (auto simp: quote_escape_expand)

end
