(* ===== verification/Mag_Formula.thy ===== *)
theory Mag_Formula
  imports Mag_Strings
begin

text \<open>
  \<^verbatim>\<open>prefix2inorder\<close> of mag/utils.cc: reading a formula in prefix form from a file and printing
  it in infix form.  The end of the file is read as the character -1, which is also the byte 255.
  The result is the returned flag, the string \<^verbatim>\<open>*dest\<close> and the rest of the input; outcome
  \<open>None\<close> would be a recursion without end.
\<close>

section \<open>The reader\<close>

fun get_char :: "string \<Rightarrow> char \<times> string" where
  "get_char [] = (CHR 0xFF, [])"
| "get_char (c # cs) = (c, cs)"

text \<open>The loop of case \<^verbatim>\<open>p\<close>, which also takes the white space behind the name.\<close>

fun atom_loop :: "string \<Rightarrow> string \<times> string" where
  "atom_loop [] = ([], [])"
| "atom_loop (c # cs) = (if is_space c then ([], cs) else case atom_loop cs of (a, r) \<Rightarrow> (c # a, r))"

definition binary_op :: "char \<Rightarrow> bool" where
  "binary_op ch \<longleftrightarrow> ch \<in> set ''UuVvie&|''"

definition unary_op :: "char \<Rightarrow> bool" where
  "unary_op ch \<longleftrightarrow> ch \<in> set ''!XGF''"

definition op_text :: "char \<Rightarrow> string" where
  "op_text ch = (if ch = CHR ''&'' \<or> ch = CHR ''|'' then [ch, ch]
     else if ch = CHR ''i'' then ''->'' else if ch = CHR ''e'' then ''<->'' else [ch])"

partial_function (option) prefix2inorder :: "string \<Rightarrow> string \<Rightarrow> (bool \<times> string \<times> string) option" where
  "prefix2inorder dest s =
     (let (ch, s1) = get_char (dropWhile is_space s)
      in if binary_op ch
         then Option.bind (prefix2inorder [] s1) (\<lambda>(ok1, left, s2).
           if \<not> ok1 then Some (False, dest, s2)
           else Option.bind (prefix2inorder [] s2) (\<lambda>(ok2, right, s3).
             if \<not> ok2 then Some (False, dest, s3)
             else Some (True, ''('' @ left @ '' '' @ op_text ch @ '' '' @ right @ '')'', s3)))
         else if unary_op ch
         then Option.bind (prefix2inorder [] s1) (\<lambda>(ok, right, s2).
           if \<not> ok then Some (False, dest, s2) else Some (True, ''('' @ [ch] @ '' '' @ right @ '')'', s2))
         else if ch = CHR ''t'' then Some (True, ''1'', s1)
         else if ch = CHR ''f'' then Some (True, ''0'', s1)
         else if ch = CHR ''p''
         then (case atom_loop s1 of (a, s2) \<Rightarrow> Some (True, dest @ ch # a, s2))
         else Some (False, dest, s1))"

section \<open>Formulas\<close>

datatype formula = Binary char formula formula | Unary char formula | Tru | Fls | Atom string

fun inorder :: "formula \<Rightarrow> string" where
  "inorder (Binary c f g) = ''('' @ inorder f @ '' '' @ op_text c @ '' '' @ inorder g @ '')''"
| "inorder (Unary c f) = ''('' @ [c] @ '' '' @ inorder f @ '')''"
| "inorder Tru = ''1''"
| "inorder Fls = ''0''"
| "inorder (Atom n) = ''p'' @ n"

definition blank :: "string \<Rightarrow> bool" where
  "blank w \<longleftrightarrow> (\<forall>c\<in>set w. is_space c)"

text \<open>The texts of a formula in prefix form.\<close>

inductive prefix_text :: "formula \<Rightarrow> string \<Rightarrow> bool" where
  binary: "blank w \<Longrightarrow> binary_op c \<Longrightarrow> prefix_text f s \<Longrightarrow> prefix_text g t \<Longrightarrow> prefix_text (Binary c f g) (w @ c # s @ t)"
| unary: "blank w \<Longrightarrow> unary_op c \<Longrightarrow> prefix_text f s \<Longrightarrow> prefix_text (Unary c f) (w @ c # s)"
| tru: "blank w \<Longrightarrow> prefix_text Tru (w @ ''t'')"
| fls: "blank w \<Longrightarrow> prefix_text Fls (w @ ''f'')"
| atom: "blank w \<Longrightarrow> \<forall>c\<in>set n. \<not> is_space c \<Longrightarrow> is_space b \<Longrightarrow> prefix_text (Atom n) (w @ ''p'' @ n @ [b])"

inductive_cases prefix_text_atomE: "prefix_text (Atom n) t"

section \<open>The reader reads exactly the formulas\<close>

lemma skip_blank: "blank w \<Longrightarrow> \<not> is_space c \<Longrightarrow> get_char (dropWhile is_space (w @ c # s)) = (c, s)"
  by (induction w) (auto simp: blank_def)

lemma not_space: "binary_op c \<or> unary_op c \<or> c = CHR ''t'' \<or> c = CHR ''f'' \<or> c = CHR ''p'' \<Longrightarrow> \<not> is_space c"
  by (auto simp: binary_op_def unary_op_def is_space_def ws_chars_def)

lemma atom_loop_name: "\<forall>c\<in>set n. \<not> is_space c \<Longrightarrow> is_space b \<Longrightarrow> atom_loop (n @ b # r) = (n, r)"
  by (induction n) auto

lemma unary_not_binary: "unary_op c \<Longrightarrow> \<not> binary_op c"
  by (auto simp: binary_op_def unary_op_def)

lemma reads_prefix_text: "prefix_text f t \<Longrightarrow> prefix2inorder [] (t @ r) = Some (True, inorder f, r)"
proof (induction arbitrary: r rule: prefix_text.induct)
  case (binary w c f s g t)
  then show ?case
    by (subst prefix2inorder.simps) (simp add: skip_blank not_space)
next
  case (unary w c f s)
  then show ?case
    by (subst prefix2inorder.simps) (simp add: skip_blank not_space unary_not_binary)
next
  case (tru w)
  then show ?case
    by (subst prefix2inorder.simps) (simp add: skip_blank not_space binary_op_def unary_op_def)
next
  case (fls w)
  then show ?case
    by (subst prefix2inorder.simps) (simp add: skip_blank not_space binary_op_def unary_op_def)
next
  case (atom w n b)
  then show ?case
    by (subst prefix2inorder.simps) (simp add: skip_blank not_space binary_op_def unary_op_def atom_loop_name)
qed

lemma get_char_split:
  assumes "get_char (dropWhile is_space s) = (c, s1)"
  shows "(\<exists>w. blank w \<and> s = w @ c # s1 \<and> \<not> is_space c) \<or> (blank s \<and> c = CHR 0xFF \<and> s1 = [])"
proof (cases "dropWhile is_space s")
  case Nil
  with assms show ?thesis by (simp add: blank_def dropWhile_eq_Nil_conv)
next
  case (Cons a t)
  then have "s = takeWhile is_space s @ a # t" "\<not> is_space a"
    using takeWhile_dropWhile_id [of is_space s] hd_dropWhile [of is_space s] by auto
  moreover have "blank (takeWhile is_space s)" by (auto simp: blank_def dest: set_takeWhileD)
  ultimately show ?thesis using assms Cons by (intro disjI1 exI [of _ "takeWhile is_space s"]) auto
qed

lemma atom_loop_length: "atom_loop s = (a, r) \<Longrightarrow> length r \<le> length s"
  by (induction s arbitrary: a r) (auto split: if_splits prod.splits intro: le_SucI)

text \<open>The input that a call leaves is shorter than what it was given, unless that was empty.\<close>

lemma prefix2inorder_ends:
  "\<exists>ok d r. prefix2inorder dest s = Some (ok, d, r) \<and> length r \<le> length s \<and> (ok \<longrightarrow> length r < length s)"
proof (induction "length s" arbitrary: dest s rule: less_induct)
  case less
  obtain c s1 where c: "get_char (dropWhile is_space s) = (c, s1)" by fastforce
  from get_char_split [OF c] consider (char) "length s1 < length s" | (eof) "c = CHR 0xFF" "s1 = []" by auto
  then show ?case
  proof cases
    case eof
    with c show ?thesis by (subst prefix2inorder.simps) (auto simp: binary_op_def unary_op_def)
  next
    case char
    obtain ok d r where l: "prefix2inorder [] s1 = Some (ok, d, r)" "length r \<le> length s1" "ok \<longrightarrow> length r < length s1"
      using less.hyps [OF char, of "[]"] by auto
    have "length r < length s" using char l(2) by simp
    from less.hyps [OF this, of "[]"] obtain ok2 d2 r2 where
      r: "prefix2inorder [] r = Some (ok2, d2, r2)" "length r2 \<le> length r" "ok2 \<longrightarrow> length r2 < length r" by auto
    obtain a s2 where a: "atom_loop s1 = (a, s2)" by fastforce
    show ?thesis
      using c l r char a atom_loop_length [OF a]
      by (subst prefix2inorder.simps) (cases ok; cases ok2; simp add: ex_bool_eq)
  qed
qed

text \<open>What was read, up to a name that ends with the file.\<close>

definition read_as :: "string \<Rightarrow> formula \<Rightarrow> string \<Rightarrow> bool" where
  "read_as s f r \<longleftrightarrow> (\<exists>t. prefix_text f t \<and> (s = t @ r \<or> r = [] \<and> (\<exists>b. is_space b \<and> t = s @ [b])))"

lemma read_as_front:
  assumes "\<And>t. prefix_text f t \<Longrightarrow> prefix_text g (u @ t)"
  shows "read_as s f r \<Longrightarrow> read_as (u @ s) g r"
  using assms by (auto simp: read_as_def) (metis append_assoc)+

lemma prefix2inorder_nil: "prefix2inorder [] [] = Some (ok, d, r) \<Longrightarrow> \<not> ok"
  by (subst (asm) prefix2inorder.simps) (simp add: binary_op_def unary_op_def)

lemma atom_loop_read:
  "atom_loop s = (a, r) \<Longrightarrow> (\<forall>c\<in>set a. \<not> is_space c) \<and>
     ((\<exists>b. is_space b \<and> s = a @ b # r) \<or> (r = [] \<and> s = a))"
proof (induction s arbitrary: a r)
  case (Cons c s)
  show ?case
  proof (cases "is_space c")
    case False
    with Cons.prems obtain a1 where "atom_loop s = (a1, r)" "a = c # a1" by (auto split: prod.splits)
    with Cons.IH False show ?thesis by fastforce
  qed (use Cons.prems in auto)
qed simp

lemma reads_only_formulas:
  "prefix2inorder [] s = Some (True, d, r) \<Longrightarrow> \<exists>f. d = inorder f \<and> read_as s f r"
proof (induction "length s" arbitrary: s d r rule: less_induct)
  case less
  obtain c s1 where c: "get_char (dropWhile is_space s) = (c, s1)" by fastforce
  have def: "prefix2inorder [] s = Some (True, d, r)" by (rule less.prems)
  from get_char_split [OF c] show ?case
  proof
    assume "blank s \<and> c = CHR 0xFF \<and> s1 = []"
    with c def show ?thesis by (subst (asm) prefix2inorder.simps) (simp add: binary_op_def unary_op_def)
  next
    assume "\<exists>w. blank w \<and> s = w @ c # s1 \<and> \<not> is_space c"
    then obtain w where w: "blank w" "s = w @ c # s1" by auto
    then have len: "length s1 < length s" by simp
    consider "binary_op c" | "\<not> binary_op c" "unary_op c" | "\<not> binary_op c" "\<not> unary_op c" by blast
    then show ?thesis
    proof cases
      case 1
      with c def obtain left s2 right where
        l: "prefix2inorder [] s1 = Some (True, left, s2)" and r: "prefix2inorder [] s2 = Some (True, right, r)"
        and d: "d = ''('' @ left @ '' '' @ op_text c @ '' '' @ right @ '')''"
        by (subst (asm) prefix2inorder.simps) (auto simp: bind_eq_Some_conv split: if_splits)
      have len2: "length s2 < length s" using prefix2inorder_ends [of "[]" s1] l len by auto
      obtain f g where f: "left = inorder f" "read_as s1 f s2" and g: "right = inorder g" "read_as s2 g r"
        using less.hyps [OF len l] less.hyps [OF len2 r] by auto
      have "s2 \<noteq> []" using prefix2inorder_nil r by auto
      then obtain t where t: "prefix_text f t" "s1 = t @ s2" using f(2) by (auto simp: read_as_def)
      have "read_as ((w @ c # t) @ s2) (Binary c f g) r"
        using prefix_text.binary [OF w(1) 1 t(1)] by (intro read_as_front [OF _ g(2)]) simp
      with d f(1) g(1) w(2) t(2) show ?thesis by (intro exI [of _ "Binary c f g"]) simp
    next
      case 2
      with c def obtain right where
        r: "prefix2inorder [] s1 = Some (True, right, r)" and d: "d = ''('' @ [c] @ '' '' @ right @ '')''"
        by (subst (asm) prefix2inorder.simps) (auto simp: bind_eq_Some_conv split: if_splits)
      obtain f where f: "right = inorder f" "read_as s1 f r" using less.hyps [OF len r] by auto
      have "read_as ((w @ [c]) @ s1) (Unary c f) r"
        using prefix_text.unary [OF w(1) 2(2)] by (intro read_as_front [OF _ f(2)]) simp
      with d f(1) w(2) show ?thesis by (intro exI [of _ "Unary c f"]) simp
    next
      case 3
      obtain a s2 where a: "atom_loop s1 = (a, s2)" by fastforce
      have cases: "c = CHR ''t'' \<and> d = ''1'' \<and> r = s1 \<or> c = CHR ''f'' \<and> d = ''0'' \<and> r = s1 \<or>
          c = CHR ''p'' \<and> d = ''p'' @ a \<and> r = s2"
        using def c 3 a by (subst (asm) prefix2inorder.simps) (auto split: if_splits)
      have "read_as s (Atom a) s2" if p: "c = CHR ''p''"
      proof -
        have n: "\<forall>c\<in>set a. \<not> is_space c" and rd: "(\<exists>b. is_space b \<and> s1 = a @ b # s2) \<or> (s2 = [] \<and> s1 = a)"
          using atom_loop_read [OF a] by auto
        have sp: "is_space (CHR '' '')" by (simp add: is_space_def ws_chars_def)
        from rd show ?thesis
        proof
          assume "\<exists>b. is_space b \<and> s1 = a @ b # s2"
          then obtain b where b: "is_space b" "s1 = a @ b # s2" by auto
          show ?thesis
            unfolding read_as_def using prefix_text.atom [OF w(1) n b(1)] w(2) b(2) p
            by (intro exI [of _ "w @ ''p'' @ a @ [b]"]) simp
        next
          assume e: "s2 = [] \<and> s1 = a"
          show ?thesis
            unfolding read_as_def using prefix_text.atom [OF w(1) n sp] w(2) e p sp
            by (intro exI [of _ "w @ ''p'' @ a @ '' ''"]) auto
        qed
      qed
      moreover have "read_as s Tru s1" if "c = CHR ''t''"
        using prefix_text.tru [OF w(1)] w(2) that by (auto simp: read_as_def)
      moreover have "read_as s Fls s1" if "c = CHR ''f''"
        using prefix_text.fls [OF w(1)] w(2) that by (auto simp: read_as_def)
      ultimately show ?thesis using cases by (metis inorder.simps(3-5))
    qed
  qed
qed

text \<open>
  C30. \<^verbatim>\<open>prefix2inorder\<close> always returns.  It accepts every text of a formula in prefix form, takes
  exactly that text from the file and prints the formula in infix form; and whatever it accepts is
  the text of a formula, the last name perhaps ended by the end of the file.\<close>

theorem prefix2inorder_reads_formulas:
  "(prefix_text f t \<longrightarrow> prefix2inorder [] (t @ r) = Some (True, inorder f, r)) \<and>
   (\<exists>ok d r. prefix2inorder [] s = Some (ok, d, r) \<and> (ok \<longrightarrow> (\<exists>g. d = inorder g \<and> read_as s g r)))"
  using reads_prefix_text [of f t r] prefix2inorder_ends [of "[]" s] reads_only_formulas [of s] by metis

lemma demo_prefix_text:
  "prefix_text (Binary CHR ''U'' (Atom ''1'') (Unary CHR ''!'' (Atom ''2''))) ('''' @ CHR ''U'' # ('' '' @ ''p'' @ ''1'' @ '' '') @
     ('''' @ CHR ''!'' # ('''' @ ''p'' @ ''2'' @ '' '')))"
  by (intro prefix_text.intros) (simp_all add: blank_def binary_op_def unary_op_def is_space_def ws_chars_def)

theorem prefix2inorder_reads_formulas_witness:
  "prefix2inorder [] ''U p1 !p2 rest'' = Some (True, ''(p1 U (! p2))'', ''rest'')"
  using prefix2inorder_reads_formulas [of _ _ "''rest''"] demo_prefix_text by (fastforce simp: op_text_def)

end
