(* ===== verification/Mag_Params.thy ===== *)
theory Mag_Params
  imports Mag_Strings
begin

text \<open>
  The parameters of one monitor (mag/monitor_params.h, mag/monitor_params.cc): a formula with its
  name and the set of its clocks, read from lines of the configuration.
\<close>

section \<open>Parameters\<close>

record monitor_params =
  ltl :: string
  formula_name :: string
  formula :: string
  f_quote_escaped :: string
  clocks :: sset
  clk_formula :: string
  clk_quote_escaped :: string
  vartypes :: ssmap
  attributelabels :: ssmap
  eventclocklabels :: ssmap
  mp_id :: nat

text \<open>The number of monitors is a static variable.\<close>

definition monitor_params_ctor :: "nat \<Rightarrow> monitor_params \<times> nat" where
  "monitor_params_ctor num_monitors =
     (\<lparr>ltl = [], formula_name = [], formula = [], f_quote_escaped = [], clocks = [], clk_formula = [],
       clk_quote_escaped = [], vartypes = [], attributelabels = [], eventclocklabels = [], mp_id = num_monitors\<rparr>,
      num_monitors + 1)"

fun decimal :: "nat \<Rightarrow> string" where
  "decimal n = (if n < 10 then [char_of (48 + n)] else decimal (n div 10) @ [char_of (48 + n mod 10)])"

declare decimal.simps [simp del]

definition get_id_str :: "monitor_params \<Rightarrow> string" where
  "get_id_str mp = decimal (mp_id mp)"

definition default_name :: "monitor_params \<Rightarrow> string" where
  "default_name mp = ''req'' @ get_id_str mp"

text \<open>
  A formula line is the formula and, behind the character @, its name; without a name it is
  called by the number of the monitor.
\<close>

definition add_formula :: "string \<Rightarrow> monitor_params \<Rightarrow> monitor_params" where
  "add_formula parsed mp =
     (let parsed1 = erase parsed 0 (find_first_not_of parsed ws_chars 0);
          (l, n) = (case find_str parsed1 ''@'' 0 of
              None \<Rightarrow> (parsed1, default_name mp)
            | Some separator \<Rightarrow>
                let name_str = substr parsed1 (separator + 1) None
                in (substr parsed1 0 (Some separator),
                    case find_first_not_of name_str ws_chars 0 of
                      None \<Rightarrow> default_name mp
                    | Some notwhite \<Rightarrow>
                        let name1 = erase name_str 0 (Some notwhite)
                        in erase name1 (pos_succ (find_last_not_of name1 ws_chars)) None));
          f = l @ '' @ '' @ n
      in mp\<lparr>ltl := l, formula_name := n, formula := f, f_quote_escaped := quote_escape f\<rparr>)"

section \<open>Clocks\<close>

definition clock_delims :: string where
  "clock_delims = ws_chars @ ''|''"

lemma clock_step:
  assumes "find_first_of s clock_delims pos = Some white" "find_first_not_of s clock_delims white = Some next"
  shows "pos \<le> white" "white < next" "next < length s"
proof -
  show "pos \<le> white" "next < length s"
    using assms by (auto simp: find_first_of_def find_first_not_of_def dest: find_from_Some)
  have "s ! white \<in> set clock_delims" "white \<le> next" "s ! next \<notin> set clock_delims"
    using assms by (auto simp: find_first_of_def find_first_not_of_def dest: find_from_Some)
  then show "white < next" by (cases "white = next") auto
qed

text \<open>The loop over the clocks of a line.\<close>

function clock_loop :: "string \<Rightarrow> nat option \<Rightarrow> sset \<Rightarrow> sset" where
  "clock_loop s None cs = cs"
| "clock_loop s (Some pos) cs =
     (case find_first_of s clock_delims pos of
        None \<Rightarrow> clock_loop s None (sset_insert (substr s pos None) cs)
      | Some white \<Rightarrow> clock_loop s (find_first_not_of s clock_delims white)
                        (sset_insert (substr s pos (Some (white - pos))) cs))"
  by pat_completeness auto

termination
proof (relation "measure (\<lambda>(s, p, cs). case p of None \<Rightarrow> 0 | Some pos \<Rightarrow> Suc (length s - pos))", goal_cases)
  case (3 s pos cs white)
  then show ?case
  proof (cases "find_first_not_of s clock_delims white")
    case (Some a)
    with clock_step [OF 3 this] show ?thesis by simp
  qed simp
qed simp_all

definition parse_clocks :: "string \<Rightarrow> sset \<Rightarrow> sset" where
  "parse_clocks s cs =
     (case find_first_not_of s clock_delims 0 of
        None \<Rightarrow> sset_insert ''DEFAULT_CLOCK'' cs
      | Some notwhite \<Rightarrow>
          let s1 = erase s 0 (Some notwhite);
              s2 = erase s1 (pos_succ (find_last_not_of s1 clock_delims)) None
          in clock_loop s2 (Some 0) cs)"

fun join :: "string \<Rightarrow> string list \<Rightarrow> string" where
  "join sep [] = []"
| "join sep [x] = x"
| "join sep (x # y # xs) = x @ sep @ join sep (y # xs)"

definition add_timeresolution :: "string \<Rightarrow> monitor_params \<Rightarrow> monitor_params" where
  "add_timeresolution parsed mp =
     (let cs = parse_clocks parsed (clocks mp); cf = join '' || '' cs
      in mp\<lparr>clocks := cs, clk_formula := cf, clk_quote_escaped := quote_escape cf\<rparr>)"

definition mp_set_timeresolution :: "sset \<Rightarrow> monitor_params \<Rightarrow> monitor_params" where
  "mp_set_timeresolution t mp = mp\<lparr>clocks := t\<rparr>"

definition set_formula :: "string \<Rightarrow> monitor_params \<Rightarrow> monitor_params" where
  "set_formula parsed mp =
     (let parsed1 = erase parsed 0 (find_first_not_of parsed ws_chars 0);
          (l, cs) = (case find_str parsed1 ''@'' 0 of
              None \<Rightarrow> (parsed1, sset_insert ''DEFAULT_CLOCK'' (clocks mp))
            | Some separator \<Rightarrow> (substr parsed1 0 (Some separator),
                parse_clocks (substr parsed1 (separator + 1) None) (clocks mp)));
          f = l @ '' @ '' @ join '' || '' cs
      in mp\<lparr>ltl := l, clocks := cs, formula := f, f_quote_escaped := quote_escape f\<rparr>)"

section \<open>Printing\<close>

definition mp_to_string :: "monitor_params \<Rightarrow> string" where
  "mp_to_string mp =
     [tab] @ '' PBLTL forumula: '' @ ltl mp @ [nl] @ [tab] @ '' clock(s): '' @ [nl] @
     concat (map (\<lambda>c. [tab, tab, tab] @ c @ [nl]) (clocks mp))"

section \<open>The clocks of a line are its words\<close>

text \<open>The maximal parts of a text without characters of \<open>P\<close>.\<close>

function words :: "(char \<Rightarrow> bool) \<Rightarrow> string \<Rightarrow> string list" where
  "words P s = (case dropWhile P s of [] \<Rightarrow> []
     | c # cs \<Rightarrow> (c # takeWhile (\<lambda>x. \<not> P x) cs) # words P (dropWhile (\<lambda>x. \<not> P x) cs))"
  by pat_completeness auto
termination
proof (relation "measure (\<lambda>(P, s). length s)", goal_cases)
  case (2 P s c cs)
  have "length (dropWhile P s) \<le> length s" "length (dropWhile (\<lambda>x. \<not> P x) cs) \<le> length cs"
    by (rule length_dropWhile_le)+
  with 2 show ?case by simp
qed simp

declare words.simps [simp del]

lemma words_delims: "\<forall>c\<in>set s. P c \<Longrightarrow> words P s = []"
  by (subst words.simps) (simp add: dropWhile_eq_Nil_conv [THEN iffD2])

lemma words_drop: "words P (dropWhile P s) = words P s"
  by (subst (1 2) words.simps) simp

lemma words_Cons: "\<not> P c \<Longrightarrow> words P (c # s) = (c # takeWhile (\<lambda>x. \<not> P x) s) # words P (dropWhile (\<lambda>x. \<not> P x) s)"
  by (subst words.simps) simp

lemma words_append:
  assumes t: "\<forall>c\<in>set t. P c"
  shows "words P (s @ t) = words P s"
  using t
proof (induction P s rule: words.induct)
  case (1 P s)
  have tw: "takeWhile (\<lambda>x. \<not> P x) (u @ t) = takeWhile (\<lambda>x. \<not> P x) u"
    "dropWhile (\<lambda>x. \<not> P x) (u @ t) = dropWhile (\<lambda>x. \<not> P x) u @ t" for u
    using "1.prems" by (induction u; cases t; simp)+
  show ?case
  proof (cases "dropWhile P s")
    case Nil
    with "1.prems" have "\<forall>c\<in>set (s @ t). P c" "\<forall>c\<in>set s. P c" by (auto simp: dropWhile_eq_Nil_conv)
    then show ?thesis by (simp add: words_delims)
  next
    case (Cons c cs)
    then have "dropWhile P (s @ t) = c # cs @ t"
      by (metis append_Cons dropWhile_append dropWhile_eq_Nil_conv list.distinct(1))
    with Cons "1.IH" [OF Cons "1.prems"] tw show ?thesis
      by (subst (1 2) words.simps) simp
  qed
qed

abbreviation is_delim :: "char \<Rightarrow> bool" where
  "is_delim c \<equiv> c \<in> set clock_delims"

lemma find_from_takeWhile:
  "find_from P s j = (if \<exists>c\<in>set (drop j s). P c then Some (j + length (takeWhile (\<lambda>c. \<not> P c) (drop j s))) else None)"
  by (auto simp: find_from_def find_idx_eq)

lemma find_from_rest:
  assumes "find_from P s j = Some k"
  shows "k = j + length (takeWhile (\<lambda>c. \<not> P c) (drop j s))" "drop k s = dropWhile (\<lambda>c. \<not> P c) (drop j s)"
proof -
  show k: "k = j + length (takeWhile (\<lambda>c. \<not> P c) (drop j s))"
    using assms by (simp add: find_from_takeWhile split: if_splits)
  show "drop k s = dropWhile (\<lambda>c. \<not> P c) (drop j s)"
    unfolding k by (subst add.commute, subst drop_drop [symmetric]) (rule drop_length_takeWhile)
qed

lemma clock_loop_words:
  "pos < length s \<Longrightarrow> \<not> is_delim (s ! pos) \<Longrightarrow>
   set (clock_loop s (Some pos) cs) = set cs \<union> set (words is_delim (drop pos s))"
proof (induction "length s - pos" arbitrary: pos cs rule: less_induct)
  case less
  let ?P = "\<lambda>c. \<not> is_delim c"
  have d: "drop pos s = s ! pos # drop (pos + 1) s" using less.prems(1) by (simp add: Cons_nth_drop_Suc)
  have w: "words is_delim (drop pos s) = takeWhile ?P (drop pos s) # words is_delim (dropWhile ?P (drop pos s))"
    using less.prems(2) unfolding d by (simp add: words_Cons)
  show ?case
  proof (cases "find_first_of s clock_delims pos")
    case None
    then have "\<forall>c\<in>set (drop pos s). ?P c" by (simp add: find_first_of_def find_from_takeWhile split: if_splits)
    with None w show ?thesis
      by (simp add: substr_def takeWhile_eq_all_conv [THEN iffD2] dropWhile_eq_Nil_conv [THEN iffD2] words.simps [of _ "[]"])
  next
    case (Some white)
    note white = find_from_rest(1) [OF Some [unfolded find_first_of_def]]
      and rest = find_from_rest(2) [OF Some [unfolded find_first_of_def]]
    have tok: "substr s pos (Some (white - pos)) = takeWhile ?P (drop pos s)"
      by (simp add: substr_def white)
    show ?thesis
    proof (cases "find_first_not_of s clock_delims white")
      case None
      then have "\<forall>c\<in>set (drop white s). is_delim c" by (simp add: find_first_not_of_def find_from_takeWhile split: if_splits)
      then have "words is_delim (dropWhile ?P (drop pos s)) = []" unfolding rest by (rule words_delims)
      moreover have "clock_loop s (Some pos) cs = sset_insert (takeWhile ?P (drop pos s)) cs"
        using None by (simp add: Some tok)
      ultimately show ?thesis unfolding w by simp
    next
      case nx: (Some n)
      have n: "n < length s" "\<not> is_delim (s ! n)" "pos < n"
        using clock_step [OF Some nx] nx by (auto simp: find_first_not_of_def dest: find_from_Some)
      have "drop n s = dropWhile is_delim (drop white s)"
        using find_from_rest(2) [OF nx [unfolded find_first_not_of_def]] by simp
      then have "words is_delim (drop n s) = words is_delim (dropWhile ?P (drop pos s))"
        using rest by (simp add: words_drop)
      moreover have "clock_loop s (Some pos) cs = clock_loop s (Some n) (sset_insert (takeWhile ?P (drop pos s)) cs)"
        using nx by (simp add: Some tok)
      ultimately show ?thesis unfolding w using less.hyps [of n "sset_insert (takeWhile ?P (drop pos s)) cs"] n by simp
    qed
  qed
qed

lemma clock_loop_ok: "sset_ok cs \<Longrightarrow> sset_ok (clock_loop s p cs)"
  by (induction s p cs rule: clock_loop.induct) (auto split: option.splits)

lemma parse_clocks_words:
  "set (parse_clocks s cs) = set cs \<union> (if words is_delim s = [] then {''DEFAULT_CLOCK''} else set (words is_delim s))"
proof (cases "\<exists>c\<in>set s. \<not> is_delim c")
  case False
  then show ?thesis
    by (simp add: parse_clocks_def find_first_not_of_def find_from_takeWhile words_delims)
next
  case True
  let ?s1 = "dropWhile is_delim s" and ?trim = "\<lambda>t. rev (dropWhile is_delim (rev t))"
  have s1: "?s1 \<noteq> []" "\<not> is_delim (hd ?s1)"
    using True hd_dropWhile [of is_delim s] by (auto simp: dropWhile_eq_Nil_conv)
  have first: "find_first_not_of s clock_delims 0 \<noteq> None"
    using True by (simp add: find_first_not_of_def find_from_takeWhile)
  have erase: "erase s 0 (find_first_not_of s clock_delims 0) = ?s1" by (rule erase_leading)
  from first have p: "parse_clocks s cs = clock_loop (?trim ?s1) (Some 0) cs"
    using erase by (auto simp: parse_clocks_def erase_trailing Let_def)
  have split: "?s1 = ?trim ?s1 @ rev (takeWhile is_delim (rev ?s1))"
    using arg_cong [OF takeWhile_dropWhile_id [of is_delim "rev ?s1"], of rev] unfolding rev_append rev_rev_ident by (rule sym)
  have tail: "\<forall>c\<in>set (rev (takeWhile is_delim (rev ?s1))). is_delim c" by (auto dest: set_takeWhileD)
  have "\<exists>c\<in>set ?s1. \<not> is_delim c" using s1(2) hd_in_set [OF s1(1)] by (rule bexI)
  then have ne: "?trim ?s1 \<noteq> []" unfolding rev_is_Nil_conv dropWhile_eq_Nil_conv set_rev by blast
  have "hd (?trim ?s1) = hd (?trim ?s1 @ rev (takeWhile is_delim (rev ?s1)))" using ne by (rule hd_append2 [symmetric])
  then have "hd (?trim ?s1) = hd ?s1" by (simp only: split [symmetric])
  then have "set (clock_loop (?trim ?s1) (Some 0) cs) = set cs \<union> set (words is_delim (?trim ?s1))"
    using clock_loop_words [of 0 "?trim ?s1" cs] ne s1(2) by (simp add: hd_conv_nth)
  also have "words is_delim (?trim ?s1) = words is_delim s"
    using words_append [OF tail, of "?trim ?s1"] split words_drop [of is_delim s] by simp
  finally have eq: "set (parse_clocks s cs) = set cs \<union> set (words is_delim s)" using p by simp
  have "words is_delim s \<noteq> []"
    unfolding words_drop [of is_delim s, symmetric] using words_Cons [of is_delim "hd ?s1" "tl ?s1"] s1 by simp
  with eq show ?thesis by simp
qed

text \<open>
  The clocks of a time resolution line are its maximal parts without white space and
  vertical bars, added to the clocks given before; a line without any adds \<^verbatim>\<open>DEFAULT_CLOCK\<close>.
  The set stays sorted without duplicates.\<close>

theorem time_resolution_words:
  "set (clocks (add_timeresolution line mp)) = set (clocks mp) \<union>
     (if words is_delim line = [] then {''DEFAULT_CLOCK''} else set (words is_delim line)) \<and>
   (sset_ok (clocks mp) \<longrightarrow> sset_ok (clocks (add_timeresolution line mp)))"
proof
  show "set (clocks (add_timeresolution line mp)) = set (clocks mp) \<union>
     (if words is_delim line = [] then {''DEFAULT_CLOCK''} else set (words is_delim line))"
    by (simp add: add_timeresolution_def parse_clocks_words Let_def)
  show "sset_ok (clocks mp) \<longrightarrow> sset_ok (clocks (add_timeresolution line mp))"
    by (auto simp: add_timeresolution_def parse_clocks_def Let_def clock_loop_ok split: option.split)
qed

lemma words_demo: "words is_delim ''a|| b_1  |c'' = [''a'', ''b_1'', ''c'']"
  by (simp add: words.simps clock_delims_def ws_chars_def)

theorem time_resolution_words_witness:
  "set (clocks (add_timeresolution ''a|| b_1  |c'' (fst (monitor_params_ctor 0)))) = {''a'', ''b_1'', ''c''} \<and>
   sset_ok (clocks (add_timeresolution ''a|| b_1  |c'' (fst (monitor_params_ctor 0))))"
  using time_resolution_words [of "''a|| b_1  |c''" "fst (monitor_params_ctor 0)"]
  unfolding words_demo by (simp add: monitor_params_ctor_def)

section \<open>The parts of a formula line\<close>

definition trim :: "string \<Rightarrow> string" where
  "trim s = rev (dropWhile (\<lambda>c. c \<in> set ws_chars) (rev (dropWhile (\<lambda>c. c \<in> set ws_chars) s)))"

lemma find_at: "CHR ''@'' \<notin> set l \<Longrightarrow> find_str (l @ CHR ''@'' # n) ''@'' 0 = Some (length l)"
proof -
  assume a: "CHR ''@'' \<notin> set l"
  have "find_idx (\<lambda>x. x = CHR ''@'') (l @ CHR ''@'' # n) = Some (length l)"
    using a by (induction l) auto
  then show ?thesis by (simp add: find_str_def find_sub_single)
qed

lemma trim_name:
  "(case find_first_not_of n ws_chars 0 of None \<Rightarrow> d
    | Some notwhite \<Rightarrow> let name1 = erase n 0 (Some notwhite) in erase name1 (pos_succ (find_last_not_of name1 ws_chars)) None) =
   (if \<forall>c\<in>set n. c \<in> set ws_chars then d else trim n)"
proof (cases "find_first_not_of n ws_chars 0")
  case None
  then have "\<forall>c\<in>set n. c \<in> set ws_chars" by (simp add: find_first_not_of_def find_from_def find_idx_None)
  with None show ?thesis by simp
next
  case (Some k)
  then have "\<not> (\<forall>c\<in>set n. c \<in> set ws_chars)"
    by (auto simp: find_first_not_of_def find_from_def find_idx_eq split: if_splits)
  moreover have "erase n 0 (Some k) = dropWhile (\<lambda>c. c \<in> set ws_chars) n"
    using erase_leading [of n ws_chars] Some by simp
  ultimately show ?thesis using Some by (auto simp: trim_def erase_trailing Let_def)
qed

text \<open>
  A formula line is split at its first @: the formula is what stands before it without the
  leading white space, the name what stands behind it without white space at both ends, and a
  line without a name is named by the number of the monitor.\<close>

theorem add_formula_parts:
  assumes "CHR ''@'' \<notin> set l" "\<forall>c\<in>set w. c \<in> set ws_chars" "l \<noteq> []" "hd l \<notin> set ws_chars"
  shows "ltl (add_formula (w @ l) mp) = l \<and> formula_name (add_formula (w @ l) mp) = default_name mp \<and>
    ltl (add_formula (w @ l @ CHR ''@'' # n) mp) = l \<and>
    formula_name (add_formula (w @ l @ CHR ''@'' # n) mp) =
      (if \<forall>c\<in>set n. c \<in> set ws_chars then default_name mp else trim n) \<and>
    formula (add_formula (w @ l @ CHR ''@'' # n) mp) =
      l @ '' @ '' @ formula_name (add_formula (w @ l @ CHR ''@'' # n) mp)"
proof -
  have strip: "erase (w @ l @ t) 0 (find_first_not_of (w @ l @ t) ws_chars 0) = l @ t" for t
    using assms(2-4) by (cases l) (simp_all add: erase_leading dropWhile_append)
  have none: "find_str l ''@'' 0 = None" using assms(1) by (simp add: find_str_None)
  have split: "substr (l @ CHR ''@'' # n) (length l + 1) None = n" "substr (l @ CHR ''@'' # n) 0 (Some (length l)) = l"
    by (simp_all add: substr_def)
  show ?thesis
    using strip [of "[]"] strip [of "CHR ''@'' # n"] none find_at [OF assms(1)] split
      trim_name [where n = n and d = "default_name mp"]
    by (simp add: add_formula_def Let_def split: if_splits)
qed

theorem add_formula_parts_witness:
  "formula_name (add_formula '' G p1 @ first '' (fst (monitor_params_ctor 3))) = ''first'' \<and>
   ltl (add_formula '' G p1 @ first '' (fst (monitor_params_ctor 3))) = ''G p1 ''"
  using add_formula_parts [of "''G p1 ''" "'' ''" "fst (monitor_params_ctor 3)" "'' first ''"]
  by (simp add: ws_chars_def trim_def)

end
