(* ===== verification/Mag_Config.thy ===== *)
theory Mag_Config
  imports Mag_Params "HOL-Library.Word"
begin

text \<open>
  The configuration of the generator (mag/types.h, mag/global_params.h, mag/global_params.cc): the
  command line, the configuration file with one keyword per line, and the checks.  The file is the
  text that has not been read yet.  Messages are left out.
\<close>

section \<open>Parameters\<close>

datatype func_befter = ENTRY | EXIT | CALL | RETURN | DUMMY

record func_loc =
  loc_name :: string
  func_identifier :: string
  func_befter :: func_befter

record plocation =
  ploc_name :: string
  pattern :: string

record user_val =
  val_type :: string
  val_name :: string
  uv_func_identifier :: string
  param_index :: int

text \<open>
  The monitors are in the order of their creation; \<^verbatim>\<open>mpset_t\<close> orders them by address.
  \<^verbatim>\<open>num_monitors\<close> is the static counter of the monitors.
\<close>

record global_params =
  all_monitors :: "monitor_params list"
  all_objects :: ssmap
  all_attributelabels :: ssmap
  all_attributetypes :: ssmap
  all_eventclocklabels :: ssmap
  user_objects :: sset
  conf_file :: string
  verbosity :: "32 word"
  mon_name :: string
  includefiles :: sset
  output_file :: string
  header_output_file :: string
  scratch :: string
  systemc_home :: string
  func_locs :: "func_loc list"
  plocations :: "plocation list"
  user_vals :: "user_val list"
  write_to_file :: bool
  timeresolution :: sset
  projectfile :: string
  projectname :: string
  modelname :: string
  modeltype :: string
  modelcontent :: string
  requirementtype :: string
  plasma_project_only :: bool
  num_monitors :: nat

text \<open>The program ends, an assertion fails, or it dereferences a pointer that it must not.\<close>

datatype ending = Exit int | Aborted | Undefined

definition atoi :: "string \<Rightarrow> int" where
  "atoi str =
     (let t = dropWhile is_space str;
          u = (if t \<noteq> [] \<and> (hd t = CHR ''-'' \<or> hd t = CHR ''+'') then tl t else t);
          n = digits_value 0 (takeWhile is_digit u)
      in if t \<noteq> [] \<and> hd t = CHR ''-'' then - n else n)"

definition set_verbosity :: "int \<Rightarrow> global_params \<Rightarrow> global_params" where
  "set_verbosity v g = g\<lparr>verbosity := word_of_int v\<rparr>"

definition set_output_file :: "string \<Rightarrow> global_params \<Rightarrow> global_params" where
  "set_output_file name g = g\<lparr>output_file := copy_without_surrounding_whitespace name\<rparr>"

definition set_header_output_file :: "string \<Rightarrow> global_params \<Rightarrow> global_params" where
  "set_header_output_file name g = g\<lparr>header_output_file := copy_without_surrounding_whitespace name\<rparr>"

definition set_projectfile :: "string \<Rightarrow> global_params \<Rightarrow> global_params" where
  "set_projectfile name g = g\<lparr>projectfile := copy_without_surrounding_whitespace name\<rparr>"

definition set_modelcontent :: "string \<Rightarrow> global_params \<Rightarrow> global_params" where
  "set_modelcontent name g = g\<lparr>modelcontent := copy_without_surrounding_whitespace name\<rparr>"

definition set_write_to_file :: "string \<Rightarrow> global_params \<Rightarrow> global_params" where
  "set_write_to_file name g = g\<lparr>write_to_file := (name = ''true'')\<rparr>"

definition set_plasma_project_only :: "string \<Rightarrow> global_params \<Rightarrow> global_params" where
  "set_plasma_project_only name g = g\<lparr>plasma_project_only := (name = ''true'')\<rparr>"

definition set_timeresolution :: "string \<Rightarrow> global_params \<Rightarrow> global_params" where
  "set_timeresolution parsed g = g\<lparr>timeresolution := parse_clocks parsed (timeresolution g)\<rparr>"

definition add_mp :: "monitor_params \<Rightarrow> global_params \<Rightarrow> global_params" where
  "add_mp mp g = g\<lparr>all_monitors := all_monitors g @ [mp]\<rparr>"

text \<open>The first word of a line behind white space, and the rest behind it.\<close>

definition split_name :: "string \<Rightarrow> string \<times> string" where
  "split_name loc =
     (let loc1 = erase loc 0 (find_first_not_of loc ws_chars 0);
          white = find_first_of loc1 ws_chars 0;
          loc2 = erase loc1 0 white
      in (substr loc1 0 white, erase loc2 0 (find_first_not_of loc2 ws_chars 0)))"

definition contains_from :: "string \<Rightarrow> string \<Rightarrow> nat option \<Rightarrow> bool" where
  "contains_from s pat p \<longleftrightarrow> (case p of None \<Rightarrow> False | Some i \<Rightarrow> find_str s pat i \<noteq> None)"

definition add_location :: "string \<Rightarrow> global_params \<Rightarrow> ending + global_params" where
  "add_location loc g =
     (let (name, rest) = split_name loc;
          colon_loc = find_last_of rest '':'';
          add = (\<lambda>b. Inr (g\<lparr>func_locs := func_locs g @
            [\<lparr>loc_name = name, func_identifier = substr rest 0 colon_loc, func_befter = b\<rparr>]\<rparr>))
      in if contains_from rest ''entry'' colon_loc then add ENTRY
         else if contains_from rest ''exit'' colon_loc then add EXIT
         else if contains_from rest ''call'' colon_loc then add CALL
         else if contains_from rest ''return'' colon_loc then add RETURN
         else if contains_from rest ''dummy'' colon_loc then add DUMMY
         else Inl (Exit 1))"

definition add_pattern_location :: "string \<Rightarrow> global_params \<Rightarrow> global_params" where
  "add_pattern_location loc g =
     (let (name, rest) = split_name loc
      in case find_first_of rest [dquote] 0 of
           None \<Rightarrow> g
         | Some quote \<Rightarrow>
             let rest1 = erase rest 0 (Some (quote + 1))
             in g\<lparr>plocations := plocations g @ [\<lparr>ploc_name = name, pattern = substr rest1 0 (find_last_of rest1 [dquote])\<rparr>]\<rparr>)"

section \<open>Reading the configuration file\<close>

text \<open>\<^verbatim>\<open>in >> word\<close>\<close>

definition read_word :: "string \<Rightarrow> (string \<times> string) option" where
  "read_word s =
     (let t = dropWhile is_space s
      in if t = [] then None else Some (takeWhile (\<lambda>c. \<not> is_space c) t, dropWhile (\<lambda>c. \<not> is_space c) t))"

text \<open>Into an empty string, whose value is used in any case.\<close>

definition word_or_empty :: "string \<Rightarrow> string \<times> string" where
  "word_or_empty s = (case read_word s of None \<Rightarrow> ([], []) | Some x \<Rightarrow> x)"

definition get_line :: "string \<Rightarrow> (string \<times> string) option" where
  "get_line s = (if s = [] then None else Some (takeWhile (\<lambda>c. c \<noteq> nl) s, drop 1 (dropWhile (\<lambda>c. c \<noteq> nl) s)))"

fun ignore :: "nat \<Rightarrow> string \<Rightarrow> string" where
  "ignore 0 s = s"
| "ignore (Suc n) [] = []"
| "ignore (Suc n) (c # cs) = (if c = nl then cs else ignore n cs)"

definition add_value :: "string \<Rightarrow> global_params \<Rightarrow> ending + global_params" where
  "add_value val g =
     (let (vartype, r1) = word_or_empty val;
          (varname, r2) = word_or_empty r1;
          rest = copy_without_surrounding_whitespace r2;
          colon_pos = find_last_of rest '':''
      in case str2int (substr rest (pos_succ colon_pos) None) of
           None \<Rightarrow> Inl (Exit 1)
         | Some i \<Rightarrow> Inr (g\<lparr>user_vals := user_vals g @
             [\<lparr>val_type = vartype, val_name = varname,
               uv_func_identifier = copy_without_surrounding_whitespace (substr rest 0 colon_pos), param_index = i\<rparr>]\<rparr>))"

text \<open>The three shapes of the branches of \<^verbatim>\<open>parse_config_file\<close>.\<close>

definition with_word :: "nat \<Rightarrow> (string \<Rightarrow> global_params \<Rightarrow> global_params) \<Rightarrow> string \<Rightarrow> global_params \<Rightarrow>
    ending + string \<times> global_params" where
  "with_word n f r g = (case read_word r of
      None \<Rightarrow> Inr (ignore n [], g)
    | Some (v, r1) \<Rightarrow> Inr (ignore n r1, f v g))"

definition with_words :: "nat \<Rightarrow> (string \<Rightarrow> string \<Rightarrow> global_params \<Rightarrow> global_params) \<Rightarrow> string \<Rightarrow> global_params \<Rightarrow>
    ending + string \<times> global_params" where
  "with_words n f r g =
     (let (first, r1) = word_or_empty r; (second, r2) = word_or_empty r1
      in Inr (ignore n r2, f first second g))"

definition with_line :: "(string \<Rightarrow> global_params \<Rightarrow> ending + global_params) \<Rightarrow> string \<Rightarrow> global_params \<Rightarrow>
    ending + string \<times> global_params" where
  "with_line f r g = (case get_line r of
      None \<Rightarrow> Inr ([], g)
    | Some (v, r1) \<Rightarrow> map_sum id (Pair r1) (f v g))"

definition with_first :: "nat \<Rightarrow> (string \<Rightarrow> global_params \<Rightarrow> global_params) \<Rightarrow> string \<Rightarrow> global_params \<Rightarrow>
    ending + string \<times> global_params" where
  "with_first n f r g = (let (first, r1) = word_or_empty r in Inr (ignore n r1, f first g))"

definition new_formula :: "string \<Rightarrow> global_params \<Rightarrow> ending + string \<times> global_params" where
  "new_formula r g =
     (let (mp, k) = monitor_params_ctor (num_monitors g); g1 = g\<lparr>num_monitors := k\<rparr>
      in case get_line r of
           None \<Rightarrow> Inr ([], add_mp mp g1)
         | Some (v, r1) \<Rightarrow> Inr (r1, add_mp (add_formula v mp) g1))"

text \<open>What follows the keyword \<open>p\<close>.\<close>

definition config_line :: "nat \<Rightarrow> string \<Rightarrow> string \<Rightarrow> global_params \<Rightarrow> ending + string \<times> global_params" where
  "config_line n p r g =
     (if p = ''verbosity'' then with_word n (\<lambda>v. set_verbosity (atoi v)) r g
      else if p = ''mon_name'' then with_word n (\<lambda>v g. g\<lparr>mon_name := v\<rparr>) r g
      else if p = ''systemc_home'' then with_word n (\<lambda>v g. g\<lparr>systemc_home := v\<rparr>) r g
      else if p = ''scratch'' then with_word n (\<lambda>v g. g\<lparr>scratch := v\<rparr>) r g
      else if p = ''usertype'' then with_first n (\<lambda>v g. g\<lparr>user_objects := sset_insert v (user_objects g)\<rparr>) r g
      else if p = ''output_file'' then with_line (\<lambda>v g. Inr (set_output_file v g)) r g
      else if p = ''plasma_project_only'' then with_first n set_plasma_project_only r g
      else if p = ''plasma_file'' then with_line (\<lambda>v g. Inr (set_projectfile v g)) r g
      else if p = ''plasma_project_name'' then with_word n (\<lambda>v g. g\<lparr>projectname := v\<rparr>) r g
      else if p = ''plasma_model_name'' then with_word n (\<lambda>v g. g\<lparr>modelname := v\<rparr>) r g
      else if p = ''plasma_model_content'' then with_line (\<lambda>v g. Inr (set_modelcontent v g)) r g
      else if p = ''write_to_file'' then with_first n set_write_to_file r g
      else if p = ''header_output_file'' then with_line (\<lambda>v g. Inr (set_header_output_file v g)) r g
      else if p = ''location'' then with_line add_location r g
      else if p = ''plocation'' then with_line (\<lambda>v g. Inr (add_pattern_location v g)) r g
      else if p = ''value'' then with_line add_value r g
      else if p = ''attribute''
      then with_words n (\<lambda>a b g. g\<lparr>all_attributelabels := ssmap_update b a (all_attributelabels g)\<rparr>) r g
      else if p = ''eventclock''
      then with_words n (\<lambda>a b g. g\<lparr>all_eventclocklabels := ssmap_update b a (all_eventclocklabels g)\<rparr>) r g
      else if p = ''time_resolution'' then with_line (\<lambda>v g. Inr (set_timeresolution v g)) r g
      else if p = ''formula'' then new_formula r g
      else if p = ''type'' then with_words n (\<lambda>a b g. g\<lparr>all_objects := ssmap_update b a (all_objects g)\<rparr>) r g
      else if p = ''att_type''
      then with_words n (\<lambda>a b g. g\<lparr>all_attributetypes := ssmap_update b a (all_attributetypes g)\<rparr>) r g
      else if p = ''include'' then with_first n (\<lambda>v g. g\<lparr>includefiles := sset_insert v (includefiles g)\<rparr>) r g
      else Inr (ignore n r, g))"

lemma read_word_Some:
  "read_word s = Some (w, r) \<Longrightarrow> w \<noteq> [] \<and> length w + length r \<le> length s"
proof -
  assume a: "read_word s = Some (w, r)"
  let ?t = "dropWhile is_space s"
  have t: "?t \<noteq> []" "w = takeWhile (\<lambda>c. \<not> is_space c) ?t" "r = dropWhile (\<lambda>c. \<not> is_space c) ?t"
    using a by (auto simp: read_word_def Let_def split: if_splits)
  have "\<not> is_space (hd ?t)" using t(1) hd_dropWhile by blast
  then have "w \<noteq> []" using t by (cases ?t) auto
  moreover have "w @ r = ?t" using t by simp
  moreover have "length ?t \<le> length s" by (rule length_dropWhile_le)
  ultimately show ?thesis by (metis length_append)
qed

lemma word_or_empty_length: "length (snd (word_or_empty s)) \<le> length s"
  using read_word_Some [of s] by (auto simp: word_or_empty_def split: option.splits)

lemma ignore_length: "length (ignore n s) \<le> length s"
  by (induction n s rule: ignore.induct) auto

lemma get_line_length: "get_line s = Some (v, r) \<Longrightarrow> length r \<le> length s"
  using length_dropWhile_le [of "\<lambda>c. c \<noteq> nl" s] by (auto simp: get_line_def split: if_splits)

definition shrinks :: "string \<Rightarrow> (ending + string \<times> global_params) \<Rightarrow> bool" where
  "shrinks r x \<longleftrightarrow> (\<forall>r' g'. x = Inr (r', g') \<longrightarrow> length r' \<le> length r)"

lemma reads_shrink:
  "shrinks r (with_word n f r g)" "shrinks r (with_first n f r g)" "shrinks r (with_words n h r g)"
  "shrinks r (with_line k r g)" "shrinks r (new_formula r g)" "shrinks r (Inr (ignore n r, g))"
proof -
  show "shrinks r (Inr (ignore n r, g))" by (simp add: shrinks_def ignore_length)
  show "shrinks r (with_word n f r g)"
  proof (cases "read_word r")
    case None
    then show ?thesis by (cases n) (simp_all add: shrinks_def with_word_def)
  next
    case (Some x)
    obtain w r1 where x: "x = (w, r1)" by fastforce
    have "length (ignore n r1) \<le> length r1" "length w + length r1 \<le> length r"
      using read_word_Some [of r w r1] Some x ignore_length [of n r1] by auto
    then show ?thesis using Some x by (simp add: shrinks_def with_word_def)
  qed
  show "shrinks r (with_first n f r g)"
    using word_or_empty_length [of r] ignore_length [of n "snd (word_or_empty r)"]
    by (auto simp: shrinks_def with_first_def Let_def split: prod.splits)
  show "shrinks r (with_words n h r g)"
    using word_or_empty_length [of r] word_or_empty_length [of "snd (word_or_empty r)"]
      ignore_length [of n "snd (word_or_empty (snd (word_or_empty r)))"]
    by (auto simp: shrinks_def with_words_def Let_def split: prod.splits)
  show "shrinks r (with_line k r g)"
    using get_line_length [of r] by (auto simp: shrinks_def with_line_def map_sum_def split: option.splits sum.splits)
  show "shrinks r (new_formula r g)"
    using get_line_length [of r] by (auto simp: shrinks_def new_formula_def Let_def split: option.splits prod.splits)
qed

lemma config_line_shrinks: "shrinks r (config_line n p r g)"
  by (simp add: config_line_def reads_shrink)

function parse_config_file :: "nat \<Rightarrow> string \<Rightarrow> global_params \<Rightarrow> ending + global_params" where
  "parse_config_file n s g =
     (case read_word s of
        None \<Rightarrow> Inr g
      | Some (p, r) \<Rightarrow> (case config_line n p r g of
            Inl e \<Rightarrow> Inl e
          | Inr (r1, g1) \<Rightarrow> parse_config_file n r1 g1))"
  by pat_completeness auto
termination
proof (relation "measure (\<lambda>(n, s, g). length s)", goal_cases)
  case (2 n s g pr p r x r1 g1)
  then have "length p + length r \<le> length s" "p \<noteq> []" using read_word_Some [of s p r] by auto
  moreover have "length r1 \<le> length r" using 2 config_line_shrinks [of r n p g] by (auto simp: shrinks_def)
  ultimately show ?case by (cases p) auto
qed simp

declare parse_config_file.simps [simp del]

section \<open>The command line and the checks\<close>

text \<open>An option without a value makes the program read the null pointer behind the arguments.\<close>

fun conf_option :: "string list \<Rightarrow> string \<Rightarrow> ending + string" where
  "conf_option [] c = Inr c"
| "conf_option [a] c = (if case_eq a ''-conf'' then Inl Undefined else Inr c)"
| "conf_option (a # v # as) c = conf_option as (if case_eq a ''-conf'' then v else c)"

definition known_option :: "string \<Rightarrow> bool" where
  "known_option a \<longleftrightarrow> (\<exists>o' \<in> set [''-verbosity'', ''-scratch'', ''-systemc_home'', ''-output_file'', ''-header_output_file'',
     ''-write_to_file'', ''-plasma_project_only'']. case_eq a o')"

definition set_option_value :: "string \<Rightarrow> string \<Rightarrow> global_params \<Rightarrow> global_params" where
  "set_option_value a v g =
     (if case_eq a ''-verbosity'' then set_verbosity (atoi v) g
      else if case_eq a ''-scratch'' then g\<lparr>scratch := v\<rparr>
      else if case_eq a ''-systemc_home'' then g\<lparr>systemc_home := v\<rparr>
      else if case_eq a ''-output_file'' then g\<lparr>output_file := v\<rparr>
      else if case_eq a ''-header_output_file'' then g\<lparr>header_output_file := v\<rparr>
      else if case_eq a ''-write_to_file'' then set_write_to_file v g
      else if case_eq a ''-plasma_project_only'' then set_plasma_project_only v g
      else g)"

fun parse_command_line :: "string list \<Rightarrow> global_params \<Rightarrow> ending + global_params" where
  "parse_command_line [] g = Inr g"
| "parse_command_line [a] g = (if known_option a then Inl Undefined else Inr g)"
| "parse_command_line (a # v # as) g = parse_command_line as (set_option_value a v g)"

definition sanity_checks :: "global_params \<Rightarrow> ending + global_params" where
  "sanity_checks g =
     (if output_file g = [] then Inl (Exit 1)
      else if length (all_attributelabels g) \<noteq> length (all_attributetypes g) then Inl (Exit 1)
      else if header_output_file g = []
      then Inr (g\<lparr>header_output_file :=
        (case find_last_of (output_file g) ''.'' of
           None \<Rightarrow> output_file g @ ''.h''
         | Some dot \<Rightarrow> substr (output_file g) 0 (Some dot) @ ''.h'')\<rparr>)
      else Inr g)"

definition default_params :: global_params where
  "default_params =
     \<lparr>all_monitors = [], all_objects = [], all_attributelabels = [], all_attributetypes = [], all_eventclocklabels = [],
      user_objects = [], conf_file = ''mm_config.txt'', verbosity = 1, mon_name = ''monitor'', includefiles = [],
      output_file = ''monitor.cc'', header_output_file = [], scratch = ''/tmp'', systemc_home = ''../systemc-2.3.0_modified'',
      func_locs = [], plocations = [], user_vals = [], write_to_file = False, timeresolution = [],
      projectfile = ''test.plasma'', projectname = ''monitor'', modelname = ''monitor_model'', modeltype = ''systemc'',
      modelcontent = [], requirementtype = ''bltl'', plasma_project_only = False, num_monitors = 0\<rparr>"

text \<open>\<open>files\<close> gives the contents of the files; \<open>args\<close> are the arguments behind the program name.\<close>

definition global_params_ctor :: "(string \<Rightarrow> string option) \<Rightarrow> string list \<Rightarrow> ending + global_params" where
  "global_params_ctor files args =
     (if length args = 1 \<and> case_eq ''-help'' (hd args) then Inl (Exit 0)
      else case conf_option args (conf_file default_params) of
        Inl e \<Rightarrow> Inl e
      | Inr c \<Rightarrow>
          let g = default_params\<lparr>conf_file := c\<rparr>;
              parsed = (if c = [] then Inr g
                else case files c of None \<Rightarrow> Inl (Exit 1) | Some text \<Rightarrow> parse_config_file (length text) text g)
          in case parsed of
               Inl e \<Rightarrow> Inl e
             | Inr g1 \<Rightarrow> (case parse_command_line args g1 of Inl e \<Rightarrow> Inl e | Inr g2 \<Rightarrow> sanity_checks g2))"

section \<open>Event clocks and includes\<close>

definition gp_is_event_clock :: "global_params \<Rightarrow> string \<Rightarrow> bool" where
  "gp_is_event_clock g lbl \<longleftrightarrow> map_of (all_eventclocklabels g) lbl \<noteq> None"

definition get_event_clock_labels_subset :: "global_params \<Rightarrow> sset \<Rightarrow> sset" where
  "get_event_clock_labels_subset g labels =
     foldl (\<lambda>ec l. if gp_is_event_clock g l then sset_insert l ec else ec) [] labels"

text \<open>\<open>None\<close>: the end of the map is dereferenced.\<close>

definition get_event_clock :: "global_params \<Rightarrow> string \<Rightarrow> string option" where
  "get_event_clock g lbl = map_of (all_eventclocklabels g) lbl"

text \<open>\<open>None\<close> is the failed assertion.\<close>

fun includefiles_to_stream :: "sset \<Rightarrow> string option" where
  "includefiles_to_stream [] = Some []"
| "includefiles_to_stream (f # fs) =
     (if CHR ''<'' \<in> set f \<and> CHR ''>'' \<notin> set f then None
      else map_option ((@) (if CHR ''<'' \<in> set f \<or> dquote \<in> set f then ''#include '' @ f @ [nl]
        else ''#include '' @ [dquote] @ f @ [dquote, nl])) (includefiles_to_stream fs))"

section \<open>Each line is read on its own\<close>

definition values_needed :: "string \<Rightarrow> nat" where
  "values_needed p =
     (if p \<in> set [''attribute'', ''eventclock'', ''type'', ''att_type''] then 2
      else if p \<in> set [''verbosity'', ''mon_name'', ''systemc_home'', ''scratch'', ''usertype'', ''plasma_project_only'',
        ''plasma_project_name'', ''plasma_model_name'', ''write_to_file'', ''include''] then 1 else 0)"

fun word_count :: "nat \<Rightarrow> string \<Rightarrow> bool" where
  "word_count 0 r = True"
| "word_count (Suc k) r = (case read_word r of None \<Rightarrow> False | Some (_, r1) \<Rightarrow> word_count k r1)"

text \<open>A line without its end that is blank, or whose keyword has as many values as it needs.\<close>

definition complete_line :: "string \<Rightarrow> bool" where
  "complete_line l \<longleftrightarrow> nl \<notin> set l \<and>
     (case read_word l of None \<Rightarrow> True | Some (p, r) \<Rightarrow> word_count (values_needed p) r)"

lemma nl_space [simp]: "is_space nl"
  by (simp add: is_space_def ws_chars_def)

lemma read_word_line:
  assumes "read_word r = Some (w, r1)"
  shows "read_word (r @ nl # t) = Some (w, r1 @ nl # t)" "nl \<notin> set r \<Longrightarrow> nl \<notin> set r1" "length r1 \<le> length r"
proof -
  let ?u = "dropWhile is_space r"
  have u: "?u \<noteq> []" "w = takeWhile (\<lambda>c. \<not> is_space c) ?u" "r1 = dropWhile (\<lambda>c. \<not> is_space c) ?u"
    using assms by (auto simp: read_word_def Let_def split: if_splits)
  have "dropWhile is_space (r @ nl # t) = ?u @ nl # t"
    using u(1) by (auto simp: dropWhile_append dropWhile_eq_Nil_conv)
  moreover have "takeWhile (\<lambda>c. \<not> is_space c) (v @ nl # t) = takeWhile (\<lambda>c. \<not> is_space c) v"
    "dropWhile (\<lambda>c. \<not> is_space c) (v @ nl # t) = dropWhile (\<lambda>c. \<not> is_space c) v @ nl # t" for v
    by (induction v) auto
  ultimately show "read_word (r @ nl # t) = Some (w, r1 @ nl # t)" using u by (simp add: read_word_def)
  show "nl \<notin> set r1" if "nl \<notin> set r" using that u(3) by (auto dest: set_dropWhileD)
  show "length r1 \<le> length r" using read_word_Some [OF assms] by simp
qed

lemma ignore_line: "nl \<notin> set r \<Longrightarrow> length r < n \<Longrightarrow> ignore n (r @ nl # t) = t"
proof (induction r arbitrary: n)
  case Nil
  then show ?case by (cases n) auto
next
  case (Cons c r)
  then show ?case by (cases n) auto
qed

text \<open>The reading \<open>h\<close> consumes the rest \<open>r\<close> of a line with its end, whatever follows.\<close>

definition reads_line :: "string \<Rightarrow> (string \<Rightarrow> ending + string \<times> global_params) \<Rightarrow> bool" where
  "reads_line r h \<longleftrightarrow> (\<exists>x. \<forall>t. h (r @ nl # t) = map_sum id (Pair t) x)"

lemma reads_line_helpers:
  assumes r: "nl \<notin> set r" "length r < n"
  shows "word_count 1 r \<Longrightarrow> reads_line r (\<lambda>s. with_word n f s g)"
    "word_count 1 r \<Longrightarrow> reads_line r (\<lambda>s. with_first n f s g)"
    "word_count 2 r \<Longrightarrow> reads_line r (\<lambda>s. with_words n f2 s g)"
    "reads_line r (\<lambda>s. with_line k s g)" "reads_line r (\<lambda>s. new_formula s g)" "reads_line r (\<lambda>s. Inr (ignore n s, g))"
proof -
  have one: "\<exists>w r1. \<forall>t. read_word (r @ nl # t) = Some (w, r1 @ nl # t) \<and> ignore n (r1 @ nl # t) = t" if "word_count 1 r"
  proof -
    obtain w r1 where "read_word r = Some (w, r1)" using \<open>word_count 1 r\<close> by (auto split: option.splits)
    with read_word_line [OF this] r ignore_line [of r1 n] show ?thesis by auto
  qed
  show "reads_line r (\<lambda>s. with_word n f s g)" if c: "word_count 1 r"
  proof -
    obtain w r1 where "\<forall>t. read_word (r @ nl # t) = Some (w, r1 @ nl # t) \<and> ignore n (r1 @ nl # t) = t" using one [OF c] by blast
    then show ?thesis by (auto simp: reads_line_def with_word_def intro!: exI [of _ "Inr (f w g)"])
  qed
  show "reads_line r (\<lambda>s. with_first n f s g)" if c: "word_count 1 r"
  proof -
    obtain w r1 where "\<forall>t. read_word (r @ nl # t) = Some (w, r1 @ nl # t) \<and> ignore n (r1 @ nl # t) = t" using one [OF c] by blast
    then show ?thesis by (auto simp: reads_line_def with_first_def word_or_empty_def intro!: exI [of _ "Inr (f w g)"])
  qed
  show "reads_line r (\<lambda>s. with_words n f2 s g)" if "word_count 2 r"
  proof -
    obtain a r1 b r2 where ab: "read_word r = Some (a, r1)" "read_word r1 = Some (b, r2)"
      using \<open>word_count 2 r\<close> by (auto simp: numeral_2_eq_2 split: option.splits)
    note 1 = read_word_line [OF ab(1)] and 2 = read_word_line [OF ab(2)]
    have "ignore n (r2 @ nl # t) = t" for t using 1 2 r by (intro ignore_line) auto
    with 1 2 show ?thesis by (auto simp: reads_line_def with_words_def word_or_empty_def intro!: exI [of _ "Inr (f2 a b g)"])
  qed
  have line: "get_line (r @ nl # t) = Some (r, t)" for t
    using r(1) by (simp add: get_line_def takeWhile_append dropWhile_append)
  show "reads_line r (\<lambda>s. with_line k s g)" by (auto simp: reads_line_def with_line_def line)
  show "reads_line r (\<lambda>s. new_formula s g)"
    by (cases "monitor_params_ctor (num_monitors g)")
      (auto simp: reads_line_def new_formula_def line
        intro!: exI [of _ "Inr (add_mp (add_formula r a) (g\<lparr>num_monitors := b\<rparr>))" for a b])
  show "reads_line r (\<lambda>s. Inr (ignore n s, g))"
    using ignore_line [OF r] by (auto simp: reads_line_def intro!: exI [of _ "Inr g"])
qed

lemma reads_line_if:
  "(b \<Longrightarrow> reads_line r h) \<Longrightarrow> (\<not> b \<Longrightarrow> reads_line r k) \<Longrightarrow> reads_line r (\<lambda>s. if b then h s else k s)"
  by (cases b) simp_all

lemma config_line_reads:
  assumes "nl \<notin> set r" "length r < n" and w: "word_count (values_needed p) r"
  shows "reads_line r (\<lambda>s. config_line n p s g)"
proof -
  have w2: "word_count 2 r" if "p = ''attribute'' \<or> p = ''eventclock'' \<or> p = ''type'' \<or> p = ''att_type''"
    using w that by (auto simp: values_needed_def simp del: word_count.simps)
  have w1: "word_count 1 r" if "p = ''verbosity'' \<or> p = ''mon_name'' \<or> p = ''systemc_home'' \<or> p = ''scratch'' \<or>
      p = ''usertype'' \<or> p = ''plasma_project_only'' \<or> p = ''plasma_project_name'' \<or> p = ''plasma_model_name'' \<or>
      p = ''write_to_file'' \<or> p = ''include''"
    using w that by (auto simp: values_needed_def simp del: word_count.simps)
  note h = reads_line_helpers [OF assms(1,2)]
  show ?thesis
    unfolding config_line_def
    by (intro reads_line_if h w1 w2) simp_all
qed

text \<open>The lines of a file, each read as a file of its own.\<close>

fun parse_lines :: "nat \<Rightarrow> string list \<Rightarrow> global_params \<Rightarrow> ending + global_params" where
  "parse_lines n [] g = Inr g"
| "parse_lines n (l # ls) g = (case parse_config_file n (l @ [nl]) g of Inl e \<Rightarrow> Inl e | Inr g1 \<Rightarrow> parse_lines n ls g1)"

lemma parse_blank: "parse_config_file n [] g = Inr g"
  by (simp add: parse_config_file.simps read_word_def)

lemma parse_line:
  assumes l: "complete_line l" "length l < n"
  shows "parse_config_file n (l @ nl # t) g =
    (case parse_config_file n (l @ [nl]) g of Inl e \<Rightarrow> Inl e | Inr g1 \<Rightarrow> parse_config_file n t g1)"
proof (cases "read_word l")
  case None
  then have "\<forall>c\<in>set l. is_space c" by (auto simp: read_word_def Let_def dropWhile_eq_Nil_conv split: if_splits)
  then have "read_word (l @ nl # u) = read_word u" for u by (simp add: read_word_def dropWhile_append dropWhile_eq_Nil_conv)
  then have "parse_config_file n (l @ nl # u) g = parse_config_file n u g" for u
    by (subst (1 2) parse_config_file.simps) simp
  then show ?thesis by (simp add: parse_blank)
next
  case (Some x)
  obtain p r where x: "x = (p, r)" by fastforce
  with Some have rd: "read_word l = Some (p, r)" by simp
  note line = read_word_line [OF rd]
  have "reads_line r (\<lambda>s. config_line n p s g)"
    using l line rd by (intro config_line_reads) (auto simp: complete_line_def)
  then obtain y where y: "config_line n p (r @ nl # u) g = map_sum id (Pair u) y" for u unfolding reads_line_def by blast
  have step: "parse_config_file n (l @ nl # u) g = (case y of Inl e \<Rightarrow> Inl e | Inr g1 \<Rightarrow> parse_config_file n u g1)" for u
    by (subst parse_config_file.simps) (simp add: line(1) y split: sum.split)
  show ?thesis unfolding step by (simp add: parse_blank split: sum.split)
qed

text \<open>
  C31. A configuration file whose lines have all the values their keywords need is read line by
  line: the result is that of reading the lines one after the other, each as a file of its own.\<close>

theorem config_line_by_line:
  assumes "\<forall>l\<in>set ls. complete_line l \<and> length l < n"
  shows "parse_config_file n (concat (map (\<lambda>l. l @ [nl]) ls)) g = parse_lines n ls g"
  using assms
proof (induction ls arbitrary: g)
  case Nil
  then show ?case by (simp add: parse_blank)
next
  case (Cons l ls)
  then show ?case by (simp add: parse_line split: sum.split)
qed

lemma parse_config_step:
  "read_word s = Some (p, r) \<Longrightarrow> config_line n p r g = Inr (r', g') \<Longrightarrow> parse_config_file n s g = parse_config_file n r' g'"
  by (subst parse_config_file.simps) simp

lemma parse_config_end: "read_word s = None \<Longrightarrow> parse_config_file n s g = Inr g"
  by (subst parse_config_file.simps) simp

lemmas reading_eval = read_word_def word_or_empty_def with_word_def with_words_def is_space_def ws_chars_def Let_def

text \<open>A file of three lines.\<close>

theorem config_line_by_line_witness:
  "\<exists>g. parse_config_file 99 (concat (map (\<lambda>l. l @ [nl]) [''mon_name m'', '''', ''type adder* a''])) default_params = Inr g \<and>
     mon_name g = ''m'' \<and> all_objects g = [(''a'', ''adder*'')]"
proof -
  let ?ls = "[''mon_name m'', '''', ''type adder* a'']"
  have c: "\<forall>l\<in>set ?ls. complete_line l \<and> length l < 99"
    by (simp add: complete_line_def read_word_def is_space_def ws_chars_def values_needed_def numeral_2_eq_2 Let_def)
  have 1: "parse_config_file 99 (''mon_name m'' @ [nl]) g = Inr (g\<lparr>mon_name := ''m''\<rparr>)" for g
    by (subst parse_config_step [where p = "''mon_name''" and r = "'' m'' @ [nl]" and r' = "[]" and g' = "g\<lparr>mon_name := ''m''\<rparr>"])
      (simp_all add: reading_eval parse_blank config_line_def eval_nat_numeral)
  have 2: "parse_config_file 99 [nl] g = Inr g" for g
    by (rule parse_config_end) (simp add: reading_eval)
  have 3: "parse_config_file 99 (''type adder* a'' @ [nl]) g = Inr (g\<lparr>all_objects := ssmap_update ''a'' ''adder*'' (all_objects g)\<rparr>)"
    for g
    by (subst parse_config_step [where p = "''type''" and r = "'' adder* a'' @ [nl]" and r' = "[]" and
        g' = "g\<lparr>all_objects := ssmap_update ''a'' ''adder*'' (all_objects g)\<rparr>"])
      (simp_all add: reading_eval parse_blank config_line_def eval_nat_numeral)
  show ?thesis
    unfolding config_line_by_line [OF c] using 1 2 3 by (simp add: default_params_def)
qed

text \<open>
  A keyword without its value takes the next line's keyword as the value and drops the rest
  of that line: here the name of the monitors stays the default.\<close>

theorem missing_value_takes_next_line:
  "parse_config_file 99 (''scratch'' @ [nl] @ ''mon_name m'' @ [nl]) default_params = Inr (default_params\<lparr>scratch := ''mon_name''\<rparr>)"
proof -
  have "config_line 99 ''scratch'' ([nl] @ ''mon_name m'' @ [nl]) g = Inr ([], g\<lparr>scratch := ''mon_name''\<rparr>)" for g
    by (simp add: reading_eval config_line_def eval_nat_numeral)
  moreover have "read_word (''scratch'' @ [nl] @ ''mon_name m'' @ [nl]) = Some (''scratch'', [nl] @ ''mon_name m'' @ [nl])"
    by (simp add: reading_eval)
  ultimately show ?thesis using parse_config_step parse_blank by metis
qed

end
