(* ===== verification/Mag_Trace.thy ===== *)
theory Mag_Trace
  imports Mag_Config
begin

text \<open>
  The function \<^verbatim>\<open>step()\<close> of the generated monitor (\<^verbatim>\<open>step_header\<close>, the tracing helpers and
  \<^verbatim>\<open>step_footer\<close> of mag/mon_gen.cc): the generator writes statements, \<open>render\<close> is their text, and
  \<open>run\<close> is what they print when the monitor runs.
\<close>

section \<open>Generated statements\<close>

text \<open>
  Statements of the generated code: a line without effect on \<^verbatim>\<open>outputstate\<close>, a text or an
  expression that is put into it (with its indentation), the lines of a conditional, and the
  begin and the end of a state.
\<close>

datatype stmt = Raw string | Put nat string | PutExpr nat string | IfLine string | ElseLine | EndLine
  | PutState | PutParen | PutTime | PutEnd

abbreviation esc_n :: string where "esc_n \<equiv> [backslash, CHR ''n'']"

fun render :: "stmt \<Rightarrow> string" where
  "render (Raw s) = s"
| \<open>render (Put k s) = replicate k (CHR '' '') @ ''outputstate << "'' @ s @ ''";''\<close>
| "render (PutExpr k e) = replicate k (CHR '' '') @ ''outputstate << '' @ e @ '';''"
| "render (IfLine e) = ''  if ('' @ e @ '') {''"
| "render ElseLine = ''  else {''"
| "render EndLine = ''  }''"
| \<open>render PutState = ''  outputstate << "'' @ esc_n @ ''# plasma-state [ (";''\<close>
| \<open>render PutParen = ''  outputstate << ")" << " : ";''\<close>
| "render PutTime = ''  outputstate << sc_time_stamp() ;''"
| \<open>render PutEnd = ''  outputstate << " ] #'' @ esc_n @ ''" << std::endl;''\<close>

text \<open>
  The text that the statements put into \<^verbatim>\<open>outputstate\<close>: \<open>b\<close> and \<open>v\<close> are the values of the
  expressions, \<open>was\<close> the condition of the last conditional and \<open>live\<close> says whether the
  current branch is executed.  The names that are printed have no quotes and no backslashes.
\<close>

fun run :: "(string \<Rightarrow> bool) \<Rightarrow> (string \<Rightarrow> string) \<Rightarrow> string \<Rightarrow> bool \<Rightarrow> bool \<Rightarrow> stmt list \<Rightarrow> string" where
  "run b v now was live [] = []"
| "run b v now was live (Raw s # p) = run b v now was live p"
| "run b v now was live (Put k s # p) = (if live then s else []) @ run b v now was live p"
| "run b v now was live (PutExpr k e # p) = (if live then v e else []) @ run b v now was live p"
| "run b v now was live (IfLine e # p) = run b v now (b e) (b e) p"
| "run b v now was live (ElseLine # p) = run b v now was (\<not> was) p"
| "run b v now was live (EndLine # p) = run b v now was True p"
| "run b v now was live (PutState # p) = (if live then [nl] @ ''# plasma-state [ ('' else []) @ run b v now was live p"
| "run b v now was live (PutParen # p) = (if live then '') : '' else []) @ run b v now was live p"
| "run b v now was live (PutTime # p) = (if live then now else []) @ run b v now was live p"
| "run b v now was live (PutEnd # p) = (if live then '' ] #'' @ [nl, nl] else []) @ run b v now was live p"

section \<open>The generator\<close>

definition comma_first :: "bool \<Rightarrow> bool \<Rightarrow> stmt list" where
  "comma_first nonempty comma = (if nonempty \<and> comma then [Put 2 '', ''] else [])"

text \<open>A name with a Boolean value; the two flags say whether a comma follows in the branches.\<close>

definition put_bool :: "string \<Rightarrow> string \<Rightarrow> bool \<Rightarrow> bool \<Rightarrow> stmt list" where
  "put_bool e name c1 c2 =
     [IfLine e, Put 4 name, Put 4 '' : '', Put 4 ''true''] @ (if c1 then [Put 4 '', ''] else []) @
     [EndLine, ElseLine, Put 4 name, Put 4 '' : '', Put 4 ''false''] @ (if c2 then [Put 4 '', ''] else []) @ [EndLine]"

text \<open>\<open>None\<close>: an attribute without a type ends the generator with \<^verbatim>\<open>exit(1)\<close>.\<close>

fun attribute_loop :: "ssmap \<Rightarrow> nat \<Rightarrow> nat \<Rightarrow> ssmap \<Rightarrow> stmt list option" where
  "attribute_loop types n i [] = Some []"
| "attribute_loop types n i ((name, e) # as) =
     (case map_of types name of
        None \<Rightarrow> None
      | Some ty \<Rightarrow>
          if ty = ''bool''
          then map_option ((@) (put_bool e name (i + 1 < n) (i + 2 < n))) (attribute_loop types n (i + 2) as)
          else map_option ((@) ([Put 2 name, Put 2 '' : '', PutExpr 2 e] @
                 (if i + 1 < n then [Put 2 '', ''] else []) @ [Raw []])) (attribute_loop types n (i + 1) as))"

definition trace_attributes :: "ssmap \<Rightarrow> ssmap \<Rightarrow> bool \<Rightarrow> stmt list option" where
  "trace_attributes types attributes comma =
     map_option ((@) (comma_first (attributes \<noteq> []) comma)) (attribute_loop types (length attributes) 0 attributes)"

fun eventclock_loop :: "nat \<Rightarrow> nat \<Rightarrow> sset \<Rightarrow> stmt list" where
  "eventclock_loop n i [] = []"
| "eventclock_loop n i (c # cs) = put_bool c c (i + 1 < n) (i + 2 < n) @ eventclock_loop n (i + 2) cs"

definition trace_eventclocks :: "sset \<Rightarrow> bool \<Rightarrow> stmt list" where
  "trace_eventclocks cs comma = comma_first (cs \<noteq> []) comma @ eventclock_loop (length cs) 0 cs"

fun name_loop :: "nat \<Rightarrow> nat \<Rightarrow> string list \<Rightarrow> stmt list" where
  "name_loop n i [] = []"
| "name_loop n i (l # ls) = put_bool l l (i < n - 1) (i < n - 1) @ name_loop n (i + 1) ls"

definition trace_locations :: "func_loc list \<Rightarrow> bool \<Rightarrow> stmt list" where
  "trace_locations locs comma = comma_first (locs \<noteq> []) comma @ name_loop (length locs) 0 (map loc_name locs)"

definition trace_plocations :: "plocation list \<Rightarrow> bool \<Rightarrow> stmt list" where
  "trace_plocations plocs comma = comma_first (plocs \<noteq> []) comma @ name_loop (length plocs) 0 (map ploc_name plocs)"

fun value_loop :: "nat \<Rightarrow> nat \<Rightarrow> user_val list \<Rightarrow> stmt list" where
  "value_loop n i [] = []"
| "value_loop n i (u # us) =
     [Put 2 (val_name u), Put 2 '' : '', PutExpr 2 (val_name u)] @ (if i < n - 1 then [Put 2 '', ''] else []) @
     value_loop n (i + 1) us"

definition trace_callbackvalues :: "user_val list \<Rightarrow> bool \<Rightarrow> stmt list" where
  "trace_callbackvalues us comma = comma_first (us \<noteq> []) comma @ value_loop (length us) 0 us"

definition open_tracefile :: "string \<Rightarrow> stmt list" where
  \<open>open_tracefile file = map Raw
     [''  std::ofstream* tracefile = new std::ofstream("'' @ file @ ''",  std::ofstream::app);'',
      ''  if (! tracefile->good()) {'',
      ''    std::cerr << "Unable to open '' @ file @ '' for output." << std::endl;'',
      ''    std::cout << "'' @ esc_n @ ''# plasma-error Unable to open '' @ file @ '' for output. #'' @ esc_n @ ''" << std::endl;'',
      ''    exit (1);'', ''  }'', []]\<close>

text \<open>The monitor with the number \<open>id\<close>; the two files are lists of lines.\<close>

definition this_monitor_name :: "global_params \<Rightarrow> monitor_params \<Rightarrow> string" where
  "this_monitor_name g mp = mon_name g @ get_id_str mp"

definition this_trace_filename :: "global_params \<Rightarrow> monitor_params \<Rightarrow> string" where
  "this_trace_filename g mp = this_monitor_name g mp @ ''.trace''"

definition step_header_h :: "string list" where
  "step_header_h = [[], ''  /*'', ''   * Simulate a step of the monitor.'', ''   */'', [], ''  void step();'']"

definition step_header :: "global_params \<Rightarrow> monitor_params \<Rightarrow> string list" where
  \<open>step_header g mp =
     [''/*'', '' * Simulate a step of the monitor.'', '' */'', [], ''void'', this_monitor_name g mp @ ''::step() {'',
      ''  //Get command from standard input - stdin'', ''  std::string cmd;'', [],
      ''  while (true) {'', ''    std::getline(std::cin, cmd);'', ''    // Get quit command'',
      ''    if (strcmp(cmd.c_str(), "#plasma-quit#") == 0) {'', ''      sc_stop();'',
      ''      std::cout << "'' @ esc_n @ ''# plasma-quit at " << sc_time_stamp() << " #'' @ esc_n @ ''" << std::endl;'',
      ''      exit (0);'', ''    }'', [],
      ''    // Get an invalid command'', ''    else if (strcmp(cmd.c_str(), "#plasma-newstate#") != 0) {'',
      ''      // Wait for a valid command'', ''      continue;'', ''    }'', [],
      ''    // Get a new state request'', ''    else {'', ''      // Process the command'', ''      break;'', ''    }'',
      ''  }'', []]\<close>

definition event_labels :: "global_params \<Rightarrow> monitor_params \<Rightarrow> sset" where
  "event_labels g mp = get_event_clock_labels_subset g (clocks mp)"

definition logs_something :: "global_params \<Rightarrow> monitor_params \<Rightarrow> bool" where
  "logs_something g mp \<longleftrightarrow> all_attributelabels g \<noteq> [] \<or> event_labels g mp \<noteq> [] \<or> func_locs g \<noteq> [] \<or>
     plocations g \<noteq> [] \<or> user_vals g \<noteq> []"

definition step_footer :: "global_params \<Rightarrow> monitor_params \<Rightarrow> stmt list option" where
  \<open>step_footer g mp =
     (let attributes = all_attributelabels g; ev = event_labels g mp; locs = func_locs g; plocs = plocations g
      in if \<not> logs_something g mp then Some []
         else map_option (\<lambda>attrs.
           [Raw ''  std::stringstream outputstate;'', Raw ''  outputstate.str ("");'', PutState, Raw []] @
           (if write_to_file g then open_tracefile (this_trace_filename g mp) else []) @
           [Raw [], Raw ''  // Log attributes values''] @ attrs @
           [Raw [], Raw [], Raw ''  // Log event clocks - Boolean''] @ trace_eventclocks ev (attributes \<noteq> []) @
           [Raw [], Raw [], Raw ''  // Log locations - Boolean''] @ trace_locations locs (attributes \<noteq> [] \<or> ev \<noteq> []) @
           [Raw [], Raw [], Raw ''  // Log pattern locations - plocation - Boolean''] @
           trace_plocations plocs (attributes \<noteq> [] \<or> ev \<noteq> [] \<or> locs \<noteq> []) @
           [Raw [], Raw [], Raw ''  // Log callback values''] @
           trace_callbackvalues (user_vals g) (attributes \<noteq> [] \<or> ev \<noteq> [] \<or> locs \<noteq> [] \<or> plocs \<noteq> []) @
           [Raw [], Raw ''  // Send the logged state to stdout'', PutParen, PutTime, PutEnd,
            Raw ''  std::cout << outputstate.str();''] @
           (if write_to_file g
            then map Raw [''  // Log to tracefile too'', ''  *tracefile << outputstate.str();'', [],
              ''  // Delete tracefile pointer'', ''  if (tracefile) {'', ''    tracefile->close();'', ''    delete tracefile;'', ''  }'']
            else []) @
           [Raw ''}'']) (trace_attributes (all_attributetypes g) attributes False))\<close>

definition step_text :: "global_params \<Rightarrow> monitor_params \<Rightarrow> string list option" where
  "step_text g mp = map_option (\<lambda>p. step_header g mp @ map render p) (step_footer g mp)"

section \<open>What a step prints\<close>

text \<open>The state as it is meant: the names with their values, separated by commas.\<close>

definition entry :: "string \<Rightarrow> string \<Rightarrow> string" where
  "entry name value = name @ '' : '' @ value"

definition bool_text :: "bool \<Rightarrow> string" where
  "bool_text x = (if x then ''true'' else ''false'')"

text \<open>\<open>prints p x\<close>: a complete piece of code puts \<open>x\<close>, and the code behind it goes on.\<close>

definition prints :: "(string \<Rightarrow> bool) \<Rightarrow> (string \<Rightarrow> string) \<Rightarrow> string \<Rightarrow> stmt list \<Rightarrow> string \<Rightarrow> bool" where
  "prints b v now p x \<longleftrightarrow> (\<forall>was q. \<exists>was'. run b v now was True (p @ q) = x @ run b v now was' True q)"

lemma prints_Nil: "prints b v now [] []"
  by (auto simp: prints_def)

lemma prints_append: "prints b v now p x \<Longrightarrow> prints b v now q y \<Longrightarrow> prints b v now (p @ q) (x @ y)"
  unfolding prints_def by (metis append_assoc)

lemma prints_basic:
  "prints b v now [Raw s] []" "prints b v now [Put k s] s" "prints b v now [PutExpr k e] (v e)"
  "prints b v now (map Raw ls) []"
proof -
  show "prints b v now (map Raw ls) []"
  proof -
    have "run b v now was True (map Raw ls @ q) = run b v now was True q" for was q by (induction ls) auto
    then show ?thesis by (auto simp: prints_def)
  qed
qed (auto simp: prints_def)

lemma prints_bool:
  "prints b v now (put_bool e name c1 c2) (entry name (bool_text (b e)) @ (if (if b e then c1 else c2) then '', '' else []))"
  by (cases "b e") (auto simp: prints_def put_bool_def entry_def bool_text_def)

lemma prints_comma: "prints b v now (comma_first n c) (if n \<and> c then '', '' else [])"
  by (auto simp: prints_def comma_first_def)

lemma prints_run: "prints b v now p x \<Longrightarrow> run b v now was True p = x"
  unfolding prints_def by (metis append_Nil2 run.simps(1))

text \<open>The rest of a list of entries, the first of them at position \<open>i\<close> of \<open>n\<close>.\<close>

lemma join_Cons: "join sep (x # xs) = x @ (if xs = [] then [] else sep @ join sep xs)"
  by (cases xs) auto

lemma prints_names:
  "i + length ns = n \<Longrightarrow> prints b v now (name_loop n i ns) (join '', '' (map (\<lambda>l. entry l (bool_text (b l))) ns))"
proof (induction ns arbitrary: i)
  case Nil
  then show ?case by (simp add: prints_Nil)
next
  case (Cons l ns)
  have "i < n - 1 \<longleftrightarrow> ns \<noteq> []" using Cons.prems by auto
  with prints_append [OF prints_bool [of b v now l l "i < n - 1" "i < n - 1"] Cons.IH [of "i + 1"]] Cons.prems
  show ?case by (cases "ns = []") (simp_all add: join_Cons del: join.simps(2,3))
qed

lemma prints_values:
  "i + length us = n \<Longrightarrow> prints b v now (value_loop n i us) (join '', '' (map (\<lambda>u. entry (val_name u) (v (val_name u))) us))"
proof (induction us arbitrary: i)
  case Nil
  then show ?case by (simp add: prints_Nil)
next
  case (Cons u us)
  have "i < n - 1 \<longleftrightarrow> us \<noteq> []" using Cons.prems by auto
  moreover have "prints b v now ([Put 2 (val_name u), Put 2 '' : '', PutExpr 2 (val_name u)] @
      (if i < n - 1 then [Put 2 '', ''] else [])) (entry (val_name u) (v (val_name u)) @ (if i < n - 1 then '', '' else []))"
    by (auto simp: prints_def entry_def)
  from prints_append [OF this Cons.IH [of "i + 1"]] Cons.prems
  have "prints b v now (value_loop n i (u # us)) ((entry (val_name u) (v (val_name u)) @ (if i < n - 1 then '', '' else [])) @
      join '', '' (map (\<lambda>u. entry (val_name u) (v (val_name u))) us))" by simp
  ultimately show ?case by (cases "us = []") (simp_all add: join_Cons del: join.simps(2,3) value_loop.simps)
qed

text \<open>The attributes that are printed right: of types other than bool, or a single one.\<close>

definition attribute_text :: "(string \<Rightarrow> bool) \<Rightarrow> (string \<Rightarrow> string) \<Rightarrow> ssmap \<Rightarrow> string \<times> string \<Rightarrow> string" where
  "attribute_text b v types = (\<lambda>(name, e). entry name (if map_of types name = Some ''bool'' then bool_text (b e) else v e))"

lemma prints_attributes:
  "i + length as = n \<Longrightarrow> \<forall>a\<in>set as. map_of types (fst a) \<noteq> None \<and> (map_of types (fst a) = Some ''bool'' \<longrightarrow> n = 1) \<Longrightarrow>
   \<exists>p. attribute_loop types n i as = Some p \<and> prints b v now p (join '', '' (map (attribute_text b v types) as))"
proof (induction as arbitrary: i)
  case Nil
  then show ?case by (simp add: prints_Nil)
next
  case (Cons a as)
  obtain name e where a: "a = (name, e)" by fastforce
  obtain ty where ty: "map_of types name = Some ty" using Cons.prems(2) a by auto
  show ?case
  proof (cases "ty = ''bool''")
    case True
    then have n: "n = 1" using Cons.prems(2) ty a by auto
    with Cons.prems(1) have one: "as = []" "i = 0" by simp_all
    have "prints b v now (put_bool e name False False) (entry name (bool_text (b e)))"
      using prints_bool [of b v now e name False False] by simp
    with True ty n one a show ?thesis by (simp add: attribute_text_def)
  next
    case False
    obtain p where p: "attribute_loop types n (i + 1) as = Some p"
      "prints b v now p (join '', '' (map (attribute_text b v types) as))"
      using Cons.IH [of "i + 1"] Cons.prems by auto
    let ?c = "if i + 1 < n then [Put 2 '', ''] else []"
    have "prints b v now ([Put 2 name, Put 2 '' : '', PutExpr 2 e] @ ?c @ [Raw []])
        (entry name (v e) @ (if i + 1 < n then '', '' else []))"
      by (auto simp: prints_def entry_def)
    from prints_append [OF this p(2)] have
      "prints b v now (([Put 2 name, Put 2 '' : '', PutExpr 2 e] @ ?c @ [Raw []]) @ p)
        ((entry name (v e) @ (if as = [] then [] else '', '')) @ join '', '' (map (attribute_text b v types) as))"
      using Cons.prems(1) by (cases as) simp_all
    moreover have "attribute_loop types n i (a # as) = Some (([Put 2 name, Put 2 '' : '', PutExpr 2 e] @ ?c @ [Raw []]) @ p)"
      using a ty False p(1) by simp
    moreover have "join '', '' (map (attribute_text b v types) (a # as)) =
        (entry name (v e) @ (if as = [] then [] else '', '')) @ join '', '' (map (attribute_text b v types) as)"
      using a ty False by (simp add: join_Cons attribute_text_def del: join.simps(2,3))
    ultimately show ?thesis by metis
  qed
qed

lemma join_append:
  "join sep (xs @ ys) = join sep xs @ (if xs \<noteq> [] \<and> ys \<noteq> [] then sep else []) @ join sep ys"
  by (induction xs) (auto simp: join_Cons simp del: join.simps(2,3))

text \<open>The entries of a state in their order.\<close>

definition state_entries :: "(string \<Rightarrow> bool) \<Rightarrow> (string \<Rightarrow> string) \<Rightarrow> global_params \<Rightarrow> monitor_params \<Rightarrow> string list" where
  "state_entries b v g mp =
     map (attribute_text b v (all_attributetypes g)) (all_attributelabels g) @
     map (\<lambda>l. entry l (bool_text (b l))) (event_labels g mp) @
     map (\<lambda>l. entry l (bool_text (b l))) (map loc_name (func_locs g)) @
     map (\<lambda>l. entry l (bool_text (b l))) (map ploc_name (plocations g)) @
     map (\<lambda>u. entry (val_name u) (v (val_name u))) (user_vals g)"

definition state_text :: "string \<Rightarrow> string list \<Rightarrow> string" where
  "state_text now es = [nl] @ ''# plasma-state [ ('' @ join '', '' es @ '') : '' @ now @ '' ] #'' @ [nl, nl]"

definition typed :: "global_params \<Rightarrow> bool" where
  "typed g \<longleftrightarrow> (\<forall>a\<in>set (all_attributelabels g). map_of (all_attributetypes g) (fst a) \<noteq> None)"

definition no_lost_comma :: "global_params \<Rightarrow> monitor_params \<Rightarrow> bool" where
  "no_lost_comma g mp \<longleftrightarrow> length (event_labels g mp) \<le> 1 \<and>
     (length (all_attributelabels g) \<le> 1 \<or>
      (\<forall>a\<in>set (all_attributelabels g). map_of (all_attributetypes g) (fst a) \<noteq> Some ''bool''))"

lemma prints_events:
  "length cs \<le> 1 \<Longrightarrow> prints b v now (eventclock_loop (length cs) 0 cs) (join '', '' (map (\<lambda>l. entry l (bool_text (b l))) cs))"
proof (cases cs)
  case (Cons c ds)
  assume "length cs \<le> 1"
  with Cons prints_bool [of b v now c c False False] show ?thesis by simp
qed (simp add: prints_Nil)

lemma prints_chunks:
  "prints b v now [Raw x1, Raw x2, PutState, Raw x3] ([nl] @ ''# plasma-state [ ('')"
  "prints b v now [Raw x1, Raw x2, PutParen, PutTime, PutEnd, Raw x3] ('') : '' @ now @ '' ] #'' @ [nl, nl])"
  "prints b v now [Raw x1, Raw x2] []" "prints b v now [Raw x1, Raw x2, Raw x3] []"
  "prints b v now (if w then open_tracefile f else []) []" "prints b v now (if w then map Raw ls else []) []"
proof -
  show "prints b v now (if w then open_tracefile f else []) []" "prints b v now (if w then map Raw ls else []) []"
    by (simp_all add: open_tracefile_def prints_basic prints_Nil del: list.map)
qed (auto simp: prints_def)


text \<open>A configuration with an attribute, an event clock, a location and a value.\<close>

definition demo_params :: global_params where
  "demo_params = default_params\<lparr>all_attributelabels := [(''a'', ''m->a'')], all_attributetypes := [(''a'', ''int'')],
     all_eventclocklabels := [(''e'', ''m->e.notified''), (''f'', ''m->f.notified'')],
     func_locs := [\<lparr>loc_name = ''l'', func_identifier = ''m::go()'', func_befter = ENTRY\<rparr>],
     user_vals := [\<lparr>val_type = ''int'', val_name = ''r'', uv_func_identifier = ''m::go()'', param_index = 0\<rparr>]\<rparr>"

definition demo_monitor :: monitor_params where
  "demo_monitor = (fst (monitor_params_ctor 0))\<lparr>clocks := [''MON_DELTA_CYCLE_END'', ''e'']\<rparr>"

lemma demo_labels: "event_labels demo_params demo_monitor = [''e'']"
  by (simp add: event_labels_def demo_params_def demo_monitor_def get_event_clock_labels_subset_def gp_is_event_clock_def)


text \<open>
  The counter of the event clocks is increased in both branches, so with two event clocks
  the comma between them is printed only when the first event is notified, and with more it is
  missing before the last one in any case.\<close>

theorem event_clocks_lose_commas:
  "run b v now was True (trace_eventclocks [c, d] False) =
     entry c (bool_text (b c)) @ (if b c then '', '' else []) @ entry d (bool_text (b d)) \<and>
   run b v now was True (trace_eventclocks [c, d, e] False) =
     entry c (bool_text (b c)) @ '', '' @ entry d (bool_text (b d)) @ entry e (bool_text (b e))"
  by (cases "b c"; cases "b d"; cases "b e")
    (simp_all add: trace_eventclocks_def comma_first_def put_bool_def entry_def bool_text_def)

section \<open>The braces of the generated function\<close>

definition depth :: "string \<Rightarrow> int" where
  "depth s = int (count_list s (CHR ''{'')) - int (count_list s (CHR ''}''))"

lemma depth_simps [simp]:
  "depth [] = 0" "depth (c # s) = (if c = CHR ''{'' then 1 else if c = CHR ''}'' then - 1 else 0) + depth s"
  "depth (s @ t) = depth s + depth t"
  by (simp_all add: depth_def)

definition brace_free :: "string \<Rightarrow> bool" where
  "brace_free s \<longleftrightarrow> CHR ''{'' \<notin> set s \<and> CHR ''}'' \<notin> set s"

lemma depth_brace_free [simp]: "brace_free s \<Longrightarrow> depth s = 0"
  by (simp add: brace_free_def depth_def count_list_0_iff)

lemma brace_free_decimal: "brace_free (decimal n)"
proof (induction n rule: decimal.induct)
  case (1 n)
  have d: "(char_of (48 + k) :: char) \<notin> {CHR ''{'', CHR ''}''}" if "k < 10" for k :: nat
  proof -
    have "(of_char (char_of (48 + k) :: char) :: nat) = 48 + k" using that by simp
    then show ?thesis using that by (auto dest: arg_cong [of _ _ "of_char :: char \<Rightarrow> nat"])
  qed
  show ?case using 1 d [of n] d [of "n mod 10"]
    by (subst decimal.simps) (auto simp: brace_free_def)
qed

definition text_depth :: "stmt list \<Rightarrow> int" where
  "text_depth p = sum_list (map (\<lambda>x. depth (render x)) p)"

lemma text_depth_simps [simp]: "text_depth [] = 0" "text_depth (x # p) = depth (render x) + text_depth p"
  "text_depth (p @ q) = text_depth p + text_depth q"
  by (simp_all add: text_depth_def)

lemma depth_replicate [simp]: "depth (replicate k (CHR '' '')) = 0"
  by (induction k) auto

lemma depth_put_bool: "brace_free e \<Longrightarrow> brace_free l \<Longrightarrow> text_depth (put_bool e l c1 c2) = 0"
  by (simp add: put_bool_def)

lemma depth_comma_first [simp]: "text_depth (comma_first n c) = 0"
  by (simp add: comma_first_def)

lemma depth_loops:
  "\<forall>l\<in>set ls. brace_free l \<Longrightarrow> text_depth (eventclock_loop n i ls) = 0"
  "\<forall>l\<in>set ls. brace_free l \<Longrightarrow> text_depth (name_loop n i ls) = 0"
  "\<forall>u\<in>set us. brace_free (val_name u) \<Longrightarrow> text_depth (value_loop n i us) = 0"
  by (induction ls arbitrary: i) (simp_all add: depth_put_bool, induction us arbitrary: i, simp_all)

lemma depth_attributes:
  "\<forall>a\<in>set as. brace_free (fst a) \<and> brace_free (snd a) \<Longrightarrow> attribute_loop types n i as = Some p \<Longrightarrow> text_depth p = 0"
proof (induction as arbitrary: i p)
  case (Cons a as)
  obtain name e where a: "a = (name, e)" by fastforce
  with Cons.prems obtain ty where ty: "map_of types name = Some ty" by (auto split: option.splits)
  have free: "brace_free name" "brace_free e" using Cons.prems(1) a by auto
  show ?case
  proof (cases "ty = ''bool''")
    case True
    with Cons.prems(2) a ty obtain q where q: "attribute_loop types n (i + 2) as = Some q"
      "p = put_bool e name (i + 1 < n) (i + 2 < n) @ q" by auto
    with Cons.IH [OF _ q(1)] Cons.prems(1) free show ?thesis by (simp add: depth_put_bool)
  next
    case False
    with Cons.prems(2) a ty obtain q where q: "attribute_loop types n (i + 1) as = Some q"
      "p = ([Put 2 name, Put 2 '' : '', PutExpr 2 e] @ (if i + 1 < n then [Put 2 '', ''] else []) @ [Raw []]) @ q" by auto
    with Cons.IH [OF _ q(1)] Cons.prems(1) free show ?thesis by simp
  qed
qed simp

text \<open>The names of the configuration have no braces.\<close>

definition names_brace_free :: "global_params \<Rightarrow> monitor_params \<Rightarrow> bool" where
  "names_brace_free g mp \<longleftrightarrow> brace_free (mon_name g) \<and>
     (\<forall>a\<in>set (all_attributelabels g). brace_free (fst a) \<and> brace_free (snd a)) \<and>
     (\<forall>l\<in>set (event_labels g mp). brace_free l) \<and> (\<forall>l\<in>set (func_locs g). brace_free (loc_name l)) \<and>
     (\<forall>l\<in>set (plocations g). brace_free (ploc_name l)) \<and> (\<forall>u\<in>set (user_vals g). brace_free (val_name u))"

lemma depth_step_header:
  "names_brace_free g mp \<Longrightarrow> sum_list (map depth (step_header g mp)) = 1"
  by (simp add: step_header_def this_monitor_name_def get_id_str_def names_brace_free_def brace_free_decimal)

lemma depth_tracefile: "brace_free f \<Longrightarrow> text_depth (open_tracefile f) = 0"
  by (simp add: open_tracefile_def)

lemma depth_step_footer:
  assumes n: "names_brace_free g mp" and p: "step_footer g mp = Some p"
  shows "text_depth p = (if logs_something g mp then - 1 else 0)"
proof (cases "logs_something g mp")
  case False
  with p show ?thesis by (simp add: step_footer_def)
next
  case True
  have free: "brace_free (this_trace_filename g mp)"
    using n brace_free_decimal [of "mp_id mp"]
    by (auto simp: this_trace_filename_def this_monitor_name_def get_id_str_def names_brace_free_def brace_free_def)
  obtain q where q: "trace_attributes (all_attributetypes g) (all_attributelabels g) False = Some q"
    using p True by (auto simp: step_footer_def Let_def)
  have "text_depth q = 0"
    using q depth_attributes [of "all_attributelabels g"] n
    by (auto simp: trace_attributes_def names_brace_free_def)
  moreover have "text_depth (trace_eventclocks (event_labels g mp) c) = 0" "text_depth (trace_locations (func_locs g) c) = 0"
    "text_depth (trace_plocations (plocations g) c) = 0" "text_depth (trace_callbackvalues (user_vals g) c) = 0" for c
    using n by (auto simp: trace_eventclocks_def trace_locations_def trace_plocations_def trace_callbackvalues_def
        names_brace_free_def depth_loops)
  moreover have "text_depth (if w then open_tracefile (this_trace_filename g mp) else []) = 0" for w
    using depth_tracefile [OF free] by simp
  ultimately show ?thesis using p q True by (auto simp: step_footer_def Let_def)
qed

text \<open>
  C35. The text of the generated \<^verbatim>\<open>step()\<close> has balanced braces when something is logged.  With
  nothing to log its closing brace is missing: the monitor of a configuration that has only kernel
  clocks and a formula is not a C++ program.\<close>

theorem step_braces:
  assumes "names_brace_free g mp" "step_text g mp = Some ls"
  shows "sum_list (map depth ls) = (if logs_something g mp then 0 else 1)"
proof -
  obtain p where p: "step_footer g mp = Some p" "ls = step_header g mp @ map render p"
    using assms(2) by (auto simp: step_text_def)
  show ?thesis
    using depth_step_header [OF assms(1)] depth_step_footer [OF assms(1) p(1)] p(2)
    by (simp add: text_depth_def comp_def)
qed

theorem step_braces_witness:
  "\<exists>ls. step_text default_params demo_monitor = Some ls \<and> sum_list (map depth ls) = 1"
proof -
  have ev: "event_labels default_params demo_monitor = []"
    by (simp add: event_labels_def default_params_def demo_monitor_def get_event_clock_labels_subset_def gp_is_event_clock_def)
  then have n: "\<not> logs_something default_params demo_monitor" by (simp add: logs_something_def default_params_def)
  have f: "names_brace_free default_params demo_monitor"
    using ev by (simp add: names_brace_free_def default_params_def brace_free_def)
  have "step_text default_params demo_monitor = Some (step_header default_params demo_monitor)"
    using n by (simp add: step_text_def step_footer_def)
  with step_braces [OF f this] n show ?thesis by simp
qed

text \<open>
  The checks compare only the numbers of attributes and of their types: a configuration
  whose type is given for another name passes them and then ends the generator in the middle of
  the files.\<close>

theorem untyped_attribute_passes_checks:
  assumes "output_file g \<noteq> []" "header_output_file g \<noteq> []"
    "all_attributelabels g = [(x, e)]" "all_attributetypes g = [(y, t)]" "x \<noteq> y"
  shows "sanity_checks g = Inr g \<and> step_footer g mp = None"
  using assms by (simp add: sanity_checks_def step_footer_def logs_something_def trace_attributes_def Let_def)

theorem untyped_attribute_passes_checks_witness:
  "sanity_checks (default_params\<lparr>header_output_file := ''m.h'', all_attributelabels := [(''a'', ''m->a'')],
     all_attributetypes := [(''b'', ''int'')]\<rparr>) \<noteq> Inl (Exit 1)"
  using untyped_attribute_passes_checks [of "default_params\<lparr>header_output_file := ''m.h'',
      all_attributelabels := [(''a'', ''m->a'')], all_attributetypes := [(''b'', ''int'')]\<rparr>" "''a''" "''m->a''" "''b''" "''int''"
      demo_monitor]
  by (simp add: default_params_def)

end
