(* ===== verification/Mag_Callbacks.thy ===== *)
theory Mag_Callbacks
  imports Mag_Trace Sc_Observer
begin

text \<open>
  How the generated monitor is called (\<^verbatim>\<open>register_with_observer\<close> and \<^verbatim>\<open>observer_callbacks\<close> of
  mag/mon_gen.cc): the registrations in its constructor, the callback functions of its class, and
  both together with the observer of the modified kernel (kernel/mon_observer.cpp).
\<close>

section \<open>Registrations\<close>

definition kernel_clocks :: "string list" where
  "kernel_clocks =
     [''MON_INIT_PHASE_BEGIN'', ''MON_INIT_PHASE_END'', ''MON_INIT_UPDATE_PHASE_BEGIN'', ''MON_INIT_UPDATE_PHASE_END'',
      ''MON_INIT_DELTA_NOTIFY_PHASE_BEGIN'', ''MON_INIT_DELTA_NOTIFY_PHASE_END'', ''MON_DELTA_CYCLE_BEGIN'',
      ''MON_DELTA_CYCLE_END'', ''MON_EVALUATION_PHASE_BEGIN'', ''MON_EVALUATION_PHASE_END'', ''MON_UPDATE_PHASE_BEGIN'',
      ''MON_UPDATE_PHASE_END'', ''MON_DELTA_NOTIFY_PHASE_BEGIN'', ''MON_DELTA_NOTIFY_PHASE_END'',
      ''MON_TIMED_NOTIFY_PHASE_BEGIN'', ''MON_TIMED_NOTIFY_PHASE_END'', ''MON_METHOD_SUSPEND'', ''MON_THREAD_SUSPEND'']"

definition default_clock :: "string \<Rightarrow> bool" where
  "default_clock clk \<longleftrightarrow> case_eq clk ''DEFAULT_CLOCK''"

text \<open>The argument of a call of \<^verbatim>\<open>register_monitor\<close>: an enumerator or the address of an event.\<close>

datatype registration = AtPoint string | AtEvent string

fun registration_line :: "registration \<Rightarrow> string" where
  "registration_line (AtPoint x) = ''  observer->register_monitor(this, '' @ x @ '');''"
| "registration_line (AtEvent e) = ''  observer->register_monitor(this, &('' @ e @ ''));''"

definition clock_registrations :: "global_params \<Rightarrow> string \<Rightarrow> registration list" where
  "clock_registrations g clk =
     (if default_clock clk then map AtPoint kernel_clocks
      else map (\<lambda>k. AtPoint clk) (filter (case_eq clk) kernel_clocks)) @
     (case get_event_clock g clk of None \<Rightarrow> [] | Some ec \<Rightarrow> [AtEvent (get_event_from_clock ec)])"

definition registrations :: "global_params \<Rightarrow> monitor_params \<Rightarrow> registration list" where
  "registrations g mp = concat (map (clock_registrations g) (clocks mp))"

definition register_with_observer :: "global_params \<Rightarrow> monitor_params \<Rightarrow> string list" where
  "register_with_observer g mp = ''  // Register with observer'' # map registration_line (registrations g mp)"

section \<open>Callback functions\<close>

text \<open>
  A function of the class: the callback of a kernel clock, with the indentation of its body, that
  of a location, and that of the notified events with the labels of the events.
\<close>

datatype callback_def = KernelDef string string | UserDef string | EventDef "(string \<times> string) list"

definition callback_table :: "(string \<times> string \<times> string) list" where
  "callback_table = map (\<lambda>(k, f). (k, f, if f = ''callback_timed_notify_phase_end'' then '' '' else ''  ''))
     (zip kernel_clocks
       [''callback_init_phase_begin'', ''callback_init_phase_end'', ''callback_init_update_phase_begin'',
        ''callback_init_update_phase_end'', ''callback_init_delta_notify_phase_begin'',
        ''callback_init_delta_notify_phase_end'', ''callback_delta_cycle_begin'', ''callback_delta_cycle_end'',
        ''callback_evaluation_phase_begin'', ''callback_evaluation_phase_end'', ''callback_update_phase_begin'',
        ''callback_update_phase_end'', ''callback_delta_notify_phase_begin'', ''callback_delta_notify_phase_end'',
        ''callback_timed_notify_phase_begin'', ''callback_timed_notify_phase_end'', ''callback_method_suspend'',
        ''callback_thread_suspend''])"

definition is_kernel_clock :: "string \<Rightarrow> bool" where
  "is_kernel_clock clk \<longleftrightarrow> default_clock clk \<or> (\<exists>k\<in>set kernel_clocks. case_eq clk k)"

definition clock_callbacks :: "global_params \<Rightarrow> string \<Rightarrow> callback_def list" where
  "clock_callbacks g clk =
     (if is_kernel_clock clk
      then map (\<lambda>(k, f, w). KernelDef f w) (filter (\<lambda>(k, f, w). case_eq clk k \<or> default_clock clk) callback_table)
      else if \<not> gp_is_event_clock g clk then [UserDef clk] else [])"

definition callback_defs :: "global_params \<Rightarrow> monitor_params \<Rightarrow> callback_def list" where
  "callback_defs g mp =
     (if event_labels g mp \<noteq> []
      then [EventDef (map (\<lambda>l. (l, get_event_from_clock (the (get_event_clock g l)))) (event_labels g mp))] else []) @
     concat (map (clock_callbacks g) (clocks mp))"

definition event_branch :: "string \<Rightarrow> string \<times> string \<Rightarrow> string list" where
  "event_branch val le = [''  if (event == &('' @ snd le @ '')) {'', ''    '' @ fst le @ '' = '' @ val @ '';'', ''  }'', []]"

text \<open>The lines of a callback in the C++ file and in the header file of class \<open>m\<close>.\<close>

fun callback_text :: "string \<Rightarrow> callback_def \<Rightarrow> string list" where
  "callback_text m (KernelDef f w) = [''void'', m @ ''::'' @ f @ ''() {'', w @ ''step();'', ''}'', []]"
| "callback_text m (EventDef ls) =
     [''void'', m @ ''::callback_event_notified(sc_core::sc_event* event) {''] @
     concat (map (event_branch ''true'') ls) @ [''  step();'', []] @ concat (map (event_branch ''false'') ls) @ [''}'', []]"
| \<open>callback_text m (UserDef c) =
     [''void'', m @ ''::callback_userloc_'' @ c @ ''() {'', [], ''  #ifdef DEBUG_USERLOCS'',
      ''    std::cout << "'' @ m @ ''::'' @ c @ '' callback" << std::endl << std::endl;'', ''  #endif'', [],
      ''  // Set the value of the primitive'', ''  '' @ c @ '' = true;'', [], ''  step();'', [],
      ''  // Reset the value of the primitive'', ''  '' @ c @ '' = false;'', ''}'', [], []]\<close>

fun callback_decl :: "callback_def \<Rightarrow> string" where
  "callback_decl (KernelDef f w) = ''  virtual void '' @ f @ ''();''"
| "callback_decl (EventDef ls) = ''  virtual void callback_event_notified(sc_core::sc_event* event);''"
| "callback_decl (UserDef c) = ''  void callback_userloc_'' @ c @ ''();''"

definition observer_callbacks :: "global_params \<Rightarrow> monitor_params \<Rightarrow> string list" where
  "observer_callbacks g mp = [[], []] @ concat (map (callback_text (this_monitor_name g mp)) (callback_defs g mp))"

definition observer_callbacks_h :: "global_params \<Rightarrow> monitor_params \<Rightarrow> string list" where
  "observer_callbacks_h g mp =
     [[], ''  /*'', ''   * Kernel-level callbacks and user-code callbacks'', ''   */'', []] @
     map callback_decl (callback_defs g mp)"

section \<open>Clocks, sample points and callbacks\<close>

text \<open>The virtual functions of the class \<^verbatim>\<open>mon_prototype\<close>, by their names.\<close>

fun callback_name :: "mon_callback \<Rightarrow> string" where
  "callback_name Callback_init_phase_begin = ''callback_init_phase_begin''"
| "callback_name Callback_init_phase_end = ''callback_init_phase_end''"
| "callback_name Callback_init_update_phase_begin = ''callback_init_update_phase_begin''"
| "callback_name Callback_init_update_phase_end = ''callback_init_update_phase_end''"
| "callback_name Callback_init_delta_notify_phase_begin = ''callback_init_delta_notify_phase_begin''"
| "callback_name Callback_init_delta_notify_phase_end = ''callback_init_delta_notify_phase_end''"
| "callback_name Callback_delta_cycle_begin = ''callback_delta_cycle_begin''"
| "callback_name Callback_delta_cycle_end = ''callback_delta_cycle_end''"
| "callback_name Callback_evaluation_phase_begin = ''callback_evaluation_phase_begin''"
| "callback_name Callback_evaluation_phase_end = ''callback_evaluation_phase_end''"
| "callback_name Callback_update_phase_begin = ''callback_update_phase_begin''"
| "callback_name Callback_update_phase_end = ''callback_update_phase_end''"
| "callback_name Callback_delta_notify_phase_begin = ''callback_delta_notify_phase_begin''"
| "callback_name Callback_delta_notify_phase_end = ''callback_delta_notify_phase_end''"
| "callback_name Callback_timed_notify_phase_begin = ''callback_timed_notify_phase_begin''"
| "callback_name Callback_timed_notify_phase_end = ''callback_timed_notify_phase_end''"
| "callback_name Callback_method_suspend = ''callback_method_suspend''"
| "callback_name Callback_thread_suspend = ''callback_thread_suspend''"
| "callback_name (Callback_statement_level_trigger s) = ''callback_statement_level_trigger''"
| "callback_name (Callback_event_notified e) = ''callback_event_notified''"

text \<open>
  The enumerator that the compiler finds for a name, the points at which a registered monitor is
  called back, and whether the compiler knows all their names.
\<close>

definition resolve :: "string \<Rightarrow> sample_point option" where
  "resolve x = map_of (zip kernel_clocks sample_points) x"

fun point_of :: "registration \<Rightarrow> sample_point option" where
  "point_of (AtPoint x) = resolve x"
| "point_of (AtEvent e) = None"

definition registered_points :: "registration list \<Rightarrow> sample_point list" where
  "registered_points rs = List.map_filter point_of rs"

definition names_known :: "registration list \<Rightarrow> bool" where
  "names_known rs \<longleftrightarrow> (\<forall>r\<in>set rs. case r of AtPoint x \<Rightarrow> resolve x \<noteq> None | AtEvent e \<Rightarrow> True)"

definition clock_name :: "sample_point \<Rightarrow> string" where
  "clock_name p = the (map_of (zip sample_points kernel_clocks) p)"

text \<open>The functions of the class that override a callback of the kernel.\<close>

definition overriders :: "callback_def list \<Rightarrow> mon_callback \<Rightarrow> callback_def list" where
  "overriders ds c = filter (\<lambda>d. case d of KernelDef f w \<Rightarrow> f = callback_name c | _ \<Rightarrow> False) ds"

text \<open>The calls by the kernel that make the monitor \<open>m\<close> with these functions take a step.\<close>

definition steps_taken :: "callback_def list \<Rightarrow> mon_prototype \<Rightarrow> (mon_prototype \<times> mon_callback) list \<Rightarrow> mon_callback list" where
  "steps_taken ds m calls = map snd (filter (\<lambda>(m', c). m' = m \<and> overriders ds c \<noteq> []) calls)"

text \<open>The clocks that ask for a step at a sample point.\<close>

definition asks :: "sample_point \<Rightarrow> string \<Rightarrow> bool" where
  "asks p clk \<longleftrightarrow> default_clock clk \<or> case_eq clk (clock_name p)"

text \<open>Kernel clocks other than the default clock are spelled as the enumerators are.\<close>

definition well_spelled :: "monitor_params \<Rightarrow> bool" where
  "well_spelled mp \<longleftrightarrow> (\<forall>c\<in>set (clocks mp). is_kernel_clock c \<longrightarrow> default_clock c \<or> c \<in> set kernel_clocks)"

lemma kernel_clocks_names: "kernel_clocks = map clock_name sample_points"
  by (simp add: clock_name_def sample_points_def kernel_clocks_def)

lemma set_kernel_clocks: "set kernel_clocks = range clock_name"
  by (simp add: kernel_clocks_names sample_points_all)

lemma callback_table_names:
  "map (\<lambda>(k, f, w). (k, f)) callback_table = map (\<lambda>p. (clock_name p, callback_name (callback_of p))) sample_points"
  by (simp add: clock_name_def sample_points_def kernel_clocks_def callback_table_def)

lemma distinct_kernel_clocks: "distinct kernel_clocks"
  by (simp add: kernel_clocks_def)

lemma distinct_callbacks: "distinct (map (callback_name \<circ> callback_of) sample_points)"
  by (simp add: sample_points_def)

lemma resolve_clock_name: "resolve (clock_name p) = Some p"
  by (cases p) (simp_all add: resolve_def clock_name_def kernel_clocks_def sample_points_def)

lemma resolve_eq: "resolve x = Some p \<longleftrightarrow> x = clock_name p"
proof
  assume "resolve x = Some p"
  then have "x \<in> set kernel_clocks" by (auto simp: resolve_def dest!: map_of_SomeD set_zip_leftD)
  then obtain q where "x = clock_name q" by (auto simp: set_kernel_clocks)
  with \<open>resolve x = Some p\<close> show "x = clock_name p" by (simp add: resolve_clock_name)
qed (simp add: resolve_clock_name)

lemma clock_names_differ: "case_eq (clock_name q) (clock_name p) \<longleftrightarrow> p = q"
proof -
  have "map to_upper (clock_name r) = clock_name r" for r
    by (cases r) (simp_all add: clock_name_def kernel_clocks_def sample_points_def to_upper_def is_lower_def)
  moreover have "clock_name q = clock_name p \<longleftrightarrow> p = q"
    by (metis resolve_clock_name option.inject)
  ultimately show ?thesis by (simp add: case_eq_def)
qed

section \<open>Registrations and callbacks of a monitor\<close>

lemma overriders_clock:
  "length (overriders (clock_callbacks g clk) (callback_of p)) = (if asks p clk then 1 else 0)"
proof (cases "is_kernel_clock clk")
  case True
  let ?sel = "\<lambda>(k, f). case_eq clk k \<or> default_clock clk"
  have "overriders (clock_callbacks g clk) (callback_of p) =
      map (\<lambda>(k, f, w). KernelDef f w)
        (filter (\<lambda>(k, f, w). f = callback_name (callback_of p) \<and> (case_eq clk k \<or> default_clock clk)) callback_table)"
    using True by (simp add: overriders_def clock_callbacks_def filter_map comp_def split_def conj_commute)
  then have "length (overriders (clock_callbacks g clk) (callback_of p)) =
      length (filter (\<lambda>(k, f). f = callback_name (callback_of p) \<and> (case_eq clk k \<or> default_clock clk))
        (map (\<lambda>(k, f, w). (k, f)) callback_table))"
    by (simp add: filter_map comp_def split_def)
  also have "\<dots> = length (filter (\<lambda>q. callback_name (callback_of q) = callback_name (callback_of p) \<and> asks q clk) sample_points)"
    unfolding callback_table_names by (simp add: filter_map comp_def asks_def disj_commute)
  also have "(\<lambda>q. callback_name (callback_of q) = callback_name (callback_of p) \<and> asks q clk) = (\<lambda>q. q = p \<and> asks p clk)"
    using distinct_callbacks by (auto simp: distinct_map inj_on_def sample_points_all)
  also have "length (filter (\<lambda>q. q = p \<and> asks p clk) sample_points) = (if asks p clk then 1 else 0)"
    using sample_points_all count_list_distinct_eq [of sample_points p]
    by (cases "asks p clk") (simp_all add: count_list_eq_length_filter flip: eq_commute [of p])
  finally show ?thesis .
next
  case False
  then have "\<not> asks p clk" by (auto simp: is_kernel_clock_def asks_def set_kernel_clocks)
  with False show ?thesis by (simp add: overriders_def clock_callbacks_def)
qed

lemma overriders_append: "overriders (xs @ ys) c = overriders xs c @ overriders ys c"
  by (simp add: overriders_def)

lemma overriders_concat:
  "length (overriders (concat (map (clock_callbacks g) cs)) (callback_of p)) = length (filter (asks p) cs)"
  by (induction cs) (simp_all add: overriders_append overriders_clock, simp add: overriders_def)

lemma overriders_callback_defs:
  "length (overriders (callback_defs g mp) (callback_of p)) = length (filter (asks p) (clocks mp))"
proof -
  have "overriders [EventDef ls] c = []" "overriders [] c = []" for ls c by (simp_all add: overriders_def)
  then show ?thesis by (simp add: callback_defs_def overriders_append overriders_concat)
qed

lemma registered_points_iff: "p \<in> set (registered_points rs) \<longleftrightarrow> AtPoint (clock_name p) \<in> set rs"
proof -
  have "point_of r = Some p \<longleftrightarrow> r = AtPoint (clock_name p)" for r
    by (cases r) (simp_all add: resolve_eq)
  moreover have "p \<in> set (registered_points rs) \<longleftrightarrow> (\<exists>r\<in>set rs. point_of r = Some p)"
    by (force simp: registered_points_def map_filter_def)
  ultimately show ?thesis by auto
qed

lemma registration_points:
  assumes "is_kernel_clock clk \<longrightarrow> default_clock clk \<or> clk \<in> set kernel_clocks"
  shows "AtPoint (clock_name p) \<in> set (clock_registrations g clk) \<longleftrightarrow> asks p clk"
proof -
  have "AtPoint (clock_name p) \<in> set (clock_registrations g clk) \<longleftrightarrow>
      default_clock clk \<or> clk = clock_name p \<and> (\<exists>q. case_eq clk (clock_name q))"
    by (auto simp: clock_registrations_def set_kernel_clocks split: option.splits)
  moreover have "clk = clock_name p" if "case_eq clk (clock_name p)" "\<not> default_clock clk"
    using assms that by (auto simp: is_kernel_clock_def set_kernel_clocks clock_names_differ)
  ultimately show ?thesis by (auto simp: asks_def)
qed

lemma set_registered_points:
  assumes "well_spelled mp"
  shows "p \<in> set (registered_points (registrations g mp)) \<longleftrightarrow> (\<exists>c\<in>set (clocks mp). asks p c)"
  using assms registration_points
  by (auto simp: registered_points_iff registrations_def well_spelled_def)

text \<open>
  C33. The generator and the kernel together: when the clocks of a formula are spelled as the
  enumerators are and the monitor registers as its generated constructor says, then the hook that
  the kernel calls at a sample point makes the monitor take exactly one step for each of the points reached
  there that some clock of the formula asks for, in the order of the points, and no step otherwise: each callback that
  reaches the monitor is overridden in its class, and no other sample point wakes it.
\<close>

theorem monitor_steps_at_clocks:
  assumes "well_spelled mp"
  shows "steps_taken (callback_defs g mp) m
      (kernel_hook p (register_all (map (Pair m) (registered_points (registrations g mp))) (mon_observer_ctor v))) =
    map callback_of (filter (\<lambda>q. \<exists>c\<in>set (clocks mp). asks q c) (points_reached p))"
proof -
  let ?ps = "registered_points (registrations g mp)"
  have sets: "arr_mon_sets (register_all (map (Pair m) ?ps) (mon_observer_ctor v)) q =
      (if \<exists>c\<in>set (clocks mp). asks q c then [m] else [])" for q
  proof -
    have "map fst (filter (\<lambda>r. snd r = q) (map (Pair m) ps)) = replicate (length (filter (\<lambda>x. x = q) ps)) m" for ps
      by (induction ps) auto
    moreover have "remdups (replicate n m) = (if n = 0 then [] else [m])" for n
      by (induction n) auto
    ultimately have "registered (map (Pair m) ?ps) q = (if q \<in> set ?ps then [m] else [])"
      by (auto simp: registered_def filter_empty_conv)
    then show ?thesis
      by (subst register_all_eq) (auto simp: inj_on_def set_registered_points [OF assms])
  qed
  have over: "overriders (callback_defs g mp) (callback_of q) \<noteq> [] \<longleftrightarrow> (\<exists>c\<in>set (clocks mp). asks q c)" for q
    using overriders_callback_defs [of g mp q] by (auto simp: filter_empty_conv simp flip: length_greater_0_conv)
  have "steps_taken (callback_defs g mp) m (concat (map (\<lambda>q. map (\<lambda>m. (m, callback_of q))
        (if \<exists>c\<in>set (clocks mp). asks q c then [m] else [])) qs)) =
      map callback_of (filter (\<lambda>q. \<exists>c\<in>set (clocks mp). asks q c) qs)" for qs
    by (induction qs) (auto simp: steps_taken_def over)
  then show ?thesis by (simp add: kernel_hook_eq sets)
qed

definition clocked :: "string list \<Rightarrow> monitor_params" where
  "clocked cs = (fst (monitor_params_ctor 0))\<lparr>clocks := cs\<rparr>"

theorem monitor_steps_at_clocks_witness:
  "steps_taken (callback_defs default_params (clocked [''MON_DELTA_CYCLE_BEGIN'', ''f_entry''])) monA
     (kernel_hook MON_EVALUATION_PHASE_BEGIN (register_all (map (Pair monA)
        (registered_points (registrations default_params (clocked [''MON_DELTA_CYCLE_BEGIN'', ''f_entry'']))))
        (mon_observer_ctor 0))) = [Callback_delta_cycle_begin]"
proof -
  have w: "well_spelled (clocked [''MON_DELTA_CYCLE_BEGIN'', ''f_entry''])"
    by (simp add: well_spelled_def clocked_def is_kernel_clock_def default_clock_def kernel_clocks_def case_eq_def to_upper_def is_lower_def)
  have a: "(\<exists>c\<in>set (clocks (clocked [''MON_DELTA_CYCLE_BEGIN'', ''f_entry''])). asks q c) \<longleftrightarrow> q = MON_DELTA_CYCLE_BEGIN" for q
    by (cases q) (simp_all add: clocked_def asks_def default_clock_def clock_name_def sample_points_def kernel_clocks_def
        case_eq_def to_upper_def is_lower_def)
  show ?thesis
    unfolding monitor_steps_at_clocks [OF w] a by (simp add: points_reached_def)
qed

text \<open>
  The compiler accepts the registrations and the callbacks: it knows the names of the sample points, and no
  function is defined twice.
\<close>

definition compiles :: "registration list \<Rightarrow> callback_def list \<Rightarrow> bool" where
  "compiles rs ds \<longleftrightarrow> names_known rs \<and> (\<forall>p\<in>set sample_points. length (overriders ds (callback_of p)) \<le> 1)"

lemma names_known_clock:
  "names_known (clock_registrations g clk) \<longleftrightarrow> (is_kernel_clock clk \<longrightarrow> default_clock clk \<or> clk \<in> set kernel_clocks)"
proof -
  have "names_known (map AtPoint kernel_clocks)"
    by (simp add: names_known_def kernel_clocks_names resolve_clock_name)
  moreover have "resolve clk \<noteq> None \<longleftrightarrow> clk \<in> set kernel_clocks"
    by (auto simp: resolve_eq set_kernel_clocks)
  moreover have "names_known rs \<longleftrightarrow> (\<forall>x. AtPoint x \<in> set rs \<longrightarrow> resolve x \<noteq> None)" for rs
    by (auto simp: names_known_def split: registration.splits)
  moreover have "AtPoint x \<in> set (clock_registrations g clk) \<longleftrightarrow>
      (if default_clock clk then x \<in> set kernel_clocks else x = clk \<and> is_kernel_clock clk)" for x
    by (auto simp: clock_registrations_def is_kernel_clock_def split: option.splits)
  ultimately show ?thesis
    by (auto simp: is_kernel_clock_def set_kernel_clocks resolve_clock_name)
qed

lemma names_known_registrations: "names_known (registrations g mp) \<longleftrightarrow> well_spelled mp"
proof -
  have "names_known (registrations g mp) \<longleftrightarrow> (\<forall>c\<in>set (clocks mp). names_known (clock_registrations g c))"
    by (auto simp: names_known_def registrations_def)
  then show ?thesis by (simp add: names_known_clock well_spelled_def)
qed



end
