(* ===== verification/Mag_Class.thy ===== *)
theory Mag_Class
  imports Mag_Callbacks
begin

text \<open>
  The rest of the generated class: its constructor, the value callbacks and its variables
  (mag/mon_gen.cc), the two files as a whole (mag/trace_gen.cc, \<^verbatim>\<open>generate_monitors\<close> of
  mag/main.cc) and the class of the local observer (mag/observer.cc).  A file is a list of lines.
\<close>

section \<open>The class declaration and the constructor\<close>

definition file_text :: "string list \<Rightarrow> string" where
  "file_text ls = concat (map (\<lambda>l. l @ [nl]) ls)"

definition comment_block :: "string \<Rightarrow> string \<Rightarrow> string list" where
  "comment_block ind s = [ind @ ''/*'', ind @ '' * '' @ s, ind @ '' */'']"

definition monitor_header :: "monitor_params \<Rightarrow> string list" where
  \<open>monitor_header mp =
     comment_block [] ''Monitor's formula:'' @ [[], comment_out_string (mp_to_string mp), [], []]\<close>

definition class_start_h :: "global_params \<Rightarrow> monitor_params \<Rightarrow> string list" where
  "class_start_h g mp = comment_block [] ''Monitor class declaration'' @
     [[], ''class '' @ this_monitor_name g mp @ '' : public sc_core::mon_prototype {'', [], ''public:'', []]"

fun constructor_arguments :: "nat \<Rightarrow> ssmap \<Rightarrow> string" where
  "constructor_arguments i [] = []"
| "constructor_arguments i ((name, type) # vs) = '', '' @ type @ '' obj'' @ decimal i @ constructor_arguments (i + 1) vs"

definition constructor_h :: "global_params \<Rightarrow> monitor_params \<Rightarrow> string list" where
  "constructor_h g mp = comment_block ''  '' ''Constructor'' @
     [[], ''  '' @ this_monitor_name g mp @ ''(sc_core::mon_observer* obs'' @
       constructor_arguments 0 (all_objects g) @ '');'', []] @
     comment_block ''  '' ''Destructor'' @ [[], ''  ~'' @ this_monitor_name g mp @ ''();'']"

text \<open>The body of the constructor: comments and assignments to the variables of the class.\<close>

datatype init_line = Note string | Assign string string

fun init_text :: "init_line \<Rightarrow> string" where
  "init_text (Note s) = ''  // '' @ s"
| "init_text (Assign x e) = ''  '' @ x @ '' = '' @ e @ '';''"

fun object_inits :: "nat \<Rightarrow> ssmap \<Rightarrow> init_line list" where
  "object_inits i [] = []"
| "object_inits i ((name, type) # vs) = Assign name (''obj'' @ decimal i) # object_inits (i + 1) vs"

definition constructor_inits :: "global_params \<Rightarrow> monitor_params \<Rightarrow> init_line list" where
  "constructor_inits g mp =
     [Note ''Observer'', Assign ''observer'' ''obs'', Note ''Usertypes''] @ object_inits 0 (all_objects g) @
     [Note ''Locations''] @ map (\<lambda>l. Assign (loc_name l) ''false'') (func_locs g) @
     [Note ''Plocations''] @ map (\<lambda>l. Assign (ploc_name l) ''false'') (plocations g) @
     [Note ''Value callbacks''] @ map (\<lambda>u. Assign (val_name u) ''0'') (user_vals g) @
     [Note ''Attributes - nothing to initialization'', Note ''Event clocks''] @
     map (\<lambda>l. Assign l ''false'') (event_labels g mp)"

definition fresh_tracefile :: "string \<Rightarrow> string list" where
  \<open>fresh_tracefile file =
     [''  // Trace file'', ''  std::ofstream* tracefile;'',
      ''  tracefile = new std::ofstream("'' @ file @ ''",  std::ofstream::out);'', [],
      ''  if (! tracefile->good()) {'',
      ''    std::cerr << "Unable to open '' @ file @ '' for output." << std::endl;'',
      ''    std::cout << "'' @ esc_n @ ''# plasma-error Unable to open '' @ file @ '' for output. #'' @ esc_n @ ''" << std::endl;'',
      ''    exit (1);'', ''  }'', [],
      ''  if (tracefile) {'', ''    tracefile->close();'', ''    delete tracefile;'', ''  }'', []]\<close>

definition monitor_constructor :: "global_params \<Rightarrow> monitor_params \<Rightarrow> string list" where
  "monitor_constructor g mp =
     (let m = this_monitor_name g mp
      in comment_block [] ''Constructor'' @
         [[], m @ ''::'' @ m @ ''(sc_core::mon_observer* obs'' @ constructor_arguments 0 (all_objects g) @
            '') : sc_core::mon_prototype() {'', []] @
         map init_text (constructor_inits g mp) @
         (if write_to_file g then fresh_tracefile (this_trace_filename g mp) else []) @
         register_with_observer g mp @
         [''}'', []] @ comment_block [] ''Destructor'' @ [[], m @ ''::~'' @ m @ ''() {'', [], ''}'', []])"

section \<open>Value callbacks and variables\<close>

definition actual_param_name :: "user_val \<Rightarrow> string" where
  "actual_param_name u = (if val_name u = ''val'' then ''value'' else ''val'')"

definition value_signature :: "user_val \<Rightarrow> string" where
  "value_signature u = ''value_callback_'' @ val_name u @ ''('' @ val_type u @ '' '' @ actual_param_name u @ '')''"

definition value_callback :: "string \<Rightarrow> user_val \<Rightarrow> string list" where
  \<open>value_callback m u =
     [''void'', m @ ''::'' @ value_signature u @ '' {'', ''  #ifdef DEBUG_USERVALS'',
      ''    std::cout << "'' @ m @ ''::'' @ value_signature u @ '':"'',
      ''              << "The value passed is " << '' @ actual_param_name u @ '' << std::endl << std::endl;'',
      ''  #endif'', ''  '' @ val_name u @ '' = '' @ actual_param_name u @ '';'', ''}'', []]\<close>

definition value_callbacks :: "global_params \<Rightarrow> monitor_params \<Rightarrow> string list" where
  "value_callbacks g mp = concat (map (value_callback (this_monitor_name g mp)) (user_vals g))"

definition value_callbacks_h :: "global_params \<Rightarrow> string list" where
  "value_callbacks_h g = [[], [], ''  // Value callbacks (if any)''] @ map (\<lambda>u. ''  void '' @ value_signature u @ '';'') (user_vals g)"

text \<open>The variables with their types.\<close>

definition class_variables :: "global_params \<Rightarrow> monitor_params \<Rightarrow> (string \<times> string) list" where
  "class_variables g mp =
     [(''sc_core::mon_observer*'', ''observer''), (''mon_status_t'', ''status'')] @
     map (\<lambda>(name, type). (type, name)) (all_objects g) @
     map (\<lambda>l. (''bool'', loc_name l)) (func_locs g) @ map (\<lambda>l. (''bool'', ploc_name l)) (plocations g) @
     map (\<lambda>u. (val_type u, val_name u)) (user_vals g) @ map (Pair ''bool'') (event_labels g mp)"

definition class_variables_h :: "global_params \<Rightarrow> monitor_params \<Rightarrow> string list" where
  "class_variables_h g mp = [[], []] @ comment_block ''  '' ''Attributes'' @ [[], ''private: '', []] @
     map (\<lambda>(type, name). ''  '' @ type @ '' '' @ name @ '';'') (class_variables g mp) @ [''};'', []]"

section \<open>The files\<close>

definition trace_generation :: "global_params \<Rightarrow> monitor_params \<Rightarrow> (string list \<times> string list) option" where
  "trace_generation g mp = map_option (\<lambda>step.
     (monitor_header mp @ monitor_constructor g mp @ step @ observer_callbacks g mp @ value_callbacks g mp,
      class_start_h g mp @ constructor_h g mp @ step_header_h @ observer_callbacks_h g mp @ value_callbacks_h g @
        class_variables_h g mp)) (step_text g mp)"

text \<open>
  \<^verbatim>\<open>mpset_t\<close> is ordered by the addresses of the monitors, which \<open>addr\<close> gives by their numbers.
\<close>

definition mpset_order :: "(nat \<Rightarrow> nat) \<Rightarrow> monitor_params list \<Rightarrow> monitor_params list" where
  "mpset_order addr ms = sort_key (\<lambda>m. addr (mp_id m)) ms"

definition mpset_begin :: "(nat \<Rightarrow> nat) \<Rightarrow> monitor_params list \<Rightarrow> monitor_params option" where
  "mpset_begin addr ms = (case mpset_order addr ms of [] \<Rightarrow> None | m # _ \<Rightarrow> Some m)"

text \<open>An attribute without a type ends the program, and an include without \<open>>\<close> fails an assertion.\<close>

definition generate_monitors :: "(nat \<Rightarrow> nat) \<Rightarrow> global_params \<Rightarrow> ending + string \<times> string" where
  \<open>generate_monitors addr g =
     (let guard = get_capitalized_name (header_output_file g);
          h1 = [''#ifndef '' @ guard, ''#define '' @ guard, [], ''#include <systemc.h>'', ''#include <iostream>'',
            ''#include <fstream>'', ''#include <cassert>'', ''#include <cstdlib>'', ''#include <sstream>'',
            ''#include <string.h>'', []] @ comment_block [] ''User objects, forward declaration'' @ [[]];
          c1 = comment_block [] ''User's includes to cc file'' @ [[]];
          c2 = [''#include "'' @ get_naked_file_name (header_output_file g) @ ''"'', []]
      in case includefiles_to_stream (includefiles g) of
           None \<Rightarrow> Inl Aborted
         | Some incs \<Rightarrow>
             (case (case mpset_begin addr (all_monitors g) of None \<Rightarrow> Some ([], []) | Some mp \<Rightarrow> trace_generation g mp) of
                None \<Rightarrow> Inl (Exit 1)
              | Some (cc, h) \<Rightarrow> Inr
                  (copyright_generation @ file_text c1 @ incs @ file_text c2 @ file_text cc,
                   copyright_generation @ file_text h1 @ concat (map declare_forward (user_objects g)) @ [nl] @ file_text h)))\<close>

section \<open>The local observer\<close>

definition observer_objects :: "ssmap \<Rightarrow> string" where
  "observer_objects vs = concat (map (\<lambda>(name, type). '', '' @ type @ '' '' @ name) vs)"

definition observer_object_firsts :: "ssmap \<Rightarrow> string" where
  "observer_object_firsts vs = concat (map (\<lambda>(name, type). '', '' @ name) vs)"

definition local_observer_h :: "global_params \<Rightarrow> string list" where
  "local_observer_h g =
     [[], [], ''/*'', '' * This object is derived from mon_observer defined in the SystemC'',
      '' * modified kernel. Thus, we can pass it as an argument to the classes'', '' * implementing the monitors.'', '' */'',
      ''class local_observer : public sc_core::mon_observer {'', [], '' public:'', [], ''  // Constructor'',
      ''  local_observer(unsigned int verbosity'' @ observer_objects (all_objects g) @ '');'', [],
      ''  ~local_observer();'', [], ''  static local_observer* getInstance();'', [],
      ''  static local_observer* createInstance(unsigned int verbosity'' @ observer_objects (all_objects g) @ '');'', [],
      '' private:'', [], ''  static local_observer* m_instance;'', [], ''};'']"

definition new_monitor_lines :: "global_params \<Rightarrow> monitor_params \<Rightarrow> string list" where
  "new_monitor_lines g mp =
     (let m = this_monitor_name g mp; inst = m @ ''_inst''
      in [''  '' @ m @ ''* '' @ inst @ '' = new '' @ m @ ''(this'' @ observer_object_firsts (all_objects g) @ '');'',
          ''  mons.push_back('' @ inst @ '');'', []])"

definition local_observer_cc :: "(nat \<Rightarrow> nat) \<Rightarrow> global_params \<Rightarrow> string list" where
  "local_observer_cc addr g =
     [''// static instance variable'', ''local_observer* local_observer::m_instance;'', [], [], []] @
     comment_block [] ''Constructor'' @
     [''local_observer::local_observer(unsigned int verbosity'' @ observer_objects (all_objects g) @
        '') : sc_core::mon_observer(verbosity) {'', []] @
     (case mpset_begin addr (all_monitors g) of None \<Rightarrow> [] | Some mp \<Rightarrow> new_monitor_lines g mp) @ [''}'', []] @
     comment_block [] ''Destructor'' @
     [''local_observer::~local_observer() {'', [], ''  if (m_instance)'', ''    delete m_instance;'', [], ''}'', []] @
     comment_block [] ''Create instance'' @
     [''local_observer* local_observer::createInstance(unsigned int verbosity'' @ observer_objects (all_objects g) @ '') {'', [],
      ''  if (m_instance == NULL) {'',
      ''    m_instance = new local_observer(verbosity'' @ observer_object_firsts (all_objects g) @ '');  }'', [],
      ''  return m_instance;'', [], ''}'', []] @
     comment_block [] ''Get instance'' @
     [''local_observer* local_observer::getInstance() {'', [], ''  return m_instance;'', [], ''}'']"

text \<open>
  What the constructor of the local observer does when the program runs: it makes the monitor, whose own constructor
  registers it, and puts it into the vector of monitors.
\<close>

definition local_observer_ctor ::
  "(nat \<Rightarrow> nat) \<Rightarrow> global_params \<Rightarrow> nat \<Rightarrow> mon_prototype \<Rightarrow> mon_observer" where
  "local_observer_ctor addr g v m =
     (case mpset_begin addr (all_monitors g) of
        None \<Rightarrow> mon_observer_ctor v
      | Some mp \<Rightarrow>
          let ob = register_all (map (Pair m) (registered_points (registrations g mp))) (mon_observer_ctor v)
          in ob\<lparr>mons := mons ob @ [m]\<rparr>)"

section \<open>The names of the generated class\<close>

fun assigned :: "init_line \<Rightarrow> string list" where
  "assigned (Assign x e) = [x]"
| "assigned (Note s) = []"

fun stmt_reads :: "stmt \<Rightarrow> string list" where
  "stmt_reads (IfLine e) = [e]"
| "stmt_reads (PutExpr k e) = [e]"
| "stmt_reads _ = []"

fun callback_assigns :: "callback_def \<Rightarrow> string list" where
  "callback_assigns (KernelDef f w) = []"
| "callback_assigns (EventDef ls) = map fst ls"
| "callback_assigns (UserDef c) = [c]"

text \<open>The variables that the functions of the class read or assign, with the expressions of the attributes.\<close>

definition reads :: "stmt list \<Rightarrow> string set" where
  "reads p = set (concat (map stmt_reads p))"

definition names_used :: "global_params \<Rightarrow> monitor_params \<Rightarrow> stmt list \<Rightarrow> string set" where
  "names_used g mp p =
     set (concat (map assigned (constructor_inits g mp))) \<union> reads p \<union>
     set (concat (map callback_assigns (callback_defs g mp))) \<union> set (map val_name (user_vals g))"

definition names_declared :: "global_params \<Rightarrow> monitor_params \<Rightarrow> string set" where
  "names_declared g mp = set (map snd (class_variables g mp)) \<union> set (map snd (all_attributelabels g))"

lemma reads_simps [simp]:
  "reads [] = {}" "reads (s # p) = set (stmt_reads s) \<union> reads p" "reads (p @ q) = reads p \<union> reads q"
  by (auto simp: reads_def)

lemma reads_map_Raw [simp]: "reads (map Raw ls) = {}"
  by (induction ls) auto

lemma reads_bool [simp]: "reads (put_bool e n c1 c2) = {e}" "reads (comma_first a b) = {}"
  by (auto simp: put_bool_def comma_first_def)

lemma reads_loops:
  "reads (name_loop n i ls) = set ls"
  "reads (eventclock_loop n i ls) = set ls"
  "reads (value_loop n i us) = set (map val_name us)"
  "attribute_loop types n i as = Some p \<Longrightarrow> reads p = set (map snd as)"
proof -
  show "reads (name_loop n i ls) = set ls" by (induction n i ls rule: name_loop.induct) auto
  show "reads (eventclock_loop n i ls) = set ls" by (induction n i ls rule: eventclock_loop.induct) auto
  show "reads (value_loop n i us) = set (map val_name us)" by (induction n i us rule: value_loop.induct) auto
  show "attribute_loop types n i as = Some p \<Longrightarrow> reads p = set (map snd as)"
  proof (induction as arbitrary: i p)
    case (Cons a as)
    obtain name e ty where a: "a = (name, e)" and ty: "map_of types name = Some ty"
      using Cons.prems by (cases a) (auto split: option.splits)
    show ?case
    proof (cases "ty = ''bool''")
      case True
      then obtain q where "attribute_loop types n (i + 2) as = Some q" "p = put_bool e name (i + 1 < n) (i + 2 < n) @ q"
        using Cons.prems a ty by auto
      with Cons.IH [of "i + 2" q] a show ?thesis by simp
    next
      case False
      then obtain q where "attribute_loop types n (i + 1) as = Some q"
        "p = ([Put 2 name, Put 2 '' : '', PutExpr 2 e] @ (if i + 1 < n then [Put 2 '', ''] else []) @ [Raw []]) @ q"
        using Cons.prems a ty by auto
      with Cons.IH [of "i + 1" q] a show ?thesis by simp
    qed
  qed simp
qed

lemma reads_step:
  assumes "step_footer g mp = Some p"
  shows "reads p = (set (map snd (all_attributelabels g)) \<union> set (event_labels g mp) \<union> set (map loc_name (func_locs g)) \<union>
    set (map ploc_name (plocations g)) \<union> set (map val_name (user_vals g)))"
proof (cases "logs_something g mp")
  case True
  then obtain attrs where a: "trace_attributes (all_attributetypes g) (all_attributelabels g) False = Some attrs"
    using assms by (auto simp: step_footer_def Let_def)
  then obtain q where "attribute_loop (all_attributetypes g) (length (all_attributelabels g)) 0 (all_attributelabels g) = Some q"
    "reads attrs = reads q" by (auto simp: trace_attributes_def)
  then have "reads attrs = set (map snd (all_attributelabels g))" using reads_loops(4) by metis
  moreover have t: "reads (open_tracefile f) = {}" for f by (simp add: open_tracefile_def)
  moreover have "reads p = reads attrs \<union> set (event_labels g mp) \<union> set (map loc_name (func_locs g)) \<union>
      set (map ploc_name (plocations g)) \<union> set (map val_name (user_vals g))"
    using True assms a t
    by (clarsimp simp: step_footer_def Let_def trace_eventclocks_def trace_locations_def trace_plocations_def
        trace_callbackvalues_def reads_loops) (simp add: Un_assoc)
  ultimately show ?thesis by simp
next
  case False
  then show ?thesis using assms by (auto simp: step_footer_def Let_def logs_something_def)
qed

lemma assigned_inits:
  "set (concat (map assigned (constructor_inits g mp))) =
     {''observer''} \<union> set (map fst (all_objects g)) \<union> set (map loc_name (func_locs g)) \<union>
     set (map ploc_name (plocations g)) \<union> set (map val_name (user_vals g)) \<union> set (event_labels g mp)"
proof -
  have "set (concat (map assigned (object_inits i vs))) = set (map fst vs)" for i vs
    by (induction i vs rule: object_inits.induct) auto
  then show ?thesis by (simp add: constructor_inits_def image_Un comp_def) blast
qed

lemma assigned_callbacks:
  "set (concat (map callback_assigns (callback_defs g mp))) =
     set (event_labels g mp) \<union> {c \<in> set (clocks mp). \<not> is_kernel_clock c \<and> \<not> gp_is_event_clock g c}"
proof -
  have "set (concat (map callback_assigns (clock_callbacks g c))) =
      (if \<not> is_kernel_clock c \<and> \<not> gp_is_event_clock g c then {c} else {})" for c
    by (auto simp: clock_callbacks_def split: prod.splits)
  then show ?thesis by (auto simp: callback_defs_def)
qed


lemma demo_footer: "\<exists>p. step_footer demo_params demo_monitor = Some p"
  by (simp add: step_footer_def Let_def trace_attributes_def demo_params_def default_params_def del: ex_simps)

lemma demo_known:
  "is_kernel_clock ''MON_DELTA_CYCLE_END''" "gp_is_event_clock demo_params ''e''"
  by (simp_all add: is_kernel_clock_def default_clock_def kernel_clocks_def case_eq_def to_upper_def is_lower_def
      gp_is_event_clock_def demo_params_def char_of_eq_iff take_bit_eq_mod)


end
