(* ===== verification/Mag_Aspect.thy ===== *)
theory Mag_Aspect
  imports Mag_Class
begin

text \<open>
  The instrumentation of the user's model: the aspect file (mag/aspect.cc), the script for pattern
  locations (mag/patterns.cc) and the printing of locations and values (mag/global_params.cc).
  The generated code finds the monitor by its number in the local observer.
\<close>

section \<open>Locations and values as text\<close>

abbreviation squote :: char where "squote \<equiv> CHR 0x27"

definition int_text :: "int \<Rightarrow> string" where
  "int_text i = (if i < 0 then ''-'' @ decimal (nat (- i)) else decimal (nat i))"

fun funcbefter2str :: "func_befter \<Rightarrow> string" where
  "funcbefter2str ENTRY = ''entry''"
| "funcbefter2str EXIT = ''exit''"
| "funcbefter2str CALL = ''call''"
| "funcbefter2str RETURN = ''return''"
| "funcbefter2str DUMMY = ''dummy''"

definition func_loc_to_stream :: "func_loc \<Rightarrow> string" where
  "func_loc_to_stream l = [tab, tab] @ loc_name l @ ''='' @ func_identifier l @ '':'' @ funcbefter2str (func_befter l)"

definition user_val_to_stream :: "user_val \<Rightarrow> string" where
  "user_val_to_stream u = [tab, tab] @ val_type u @ '' '' @ val_name u @ '' = '' @ uv_func_identifier u @ '' : '' @
     int_text (param_index u)"

section \<open>Advice\<close>

text \<open>
  A call of the monitor in the generated code: its number and the function that is called with
  its arguments.
\<close>

datatype monitor_call = MonitorCall nat string string

fun call_lines :: "global_params \<Rightarrow> monitor_call \<Rightarrow> string list" where
  "call_lines g (MonitorCall i f args) =
     [''    {'', ''      mon_observer* observer = local_observer::getInstance();'',
      ''      '' @ mon_name g @ decimal i @ ''* mon = ('' @ mon_name g @ decimal i @ ''*) observer->get_monitor_by_index('' @ decimal i @ '');'',
      ''      mon->'' @ f @ ''('' @ args @ '');'', ''    }'']"

definition location_call :: "(nat \<Rightarrow> nat) \<Rightarrow> global_params \<Rightarrow> string \<Rightarrow> monitor_call list" where
  "location_call addr g name =
     (case mpset_begin addr (all_monitors g) of
        None \<Rightarrow> []
      | Some mp \<Rightarrow> if name \<in> set (clocks mp) then [MonitorCall (mp_id mp) (''callback_userloc_'' @ name) []] else [])"

definition value_call :: "(nat \<Rightarrow> nat) \<Rightarrow> global_params \<Rightarrow> user_val \<Rightarrow> monitor_call list" where
  "value_call addr g u =
     (case mpset_begin addr (all_monitors g) of
        None \<Rightarrow> []
      | Some mp \<Rightarrow> [MonitorCall (mp_id mp) (''value_callback_'' @ val_name u)
          (''('' @ val_type u @ '') *('' @ val_type u @
            (if param_index u = 0 then '' *) tjp->result()'' else '' *)tjp->arg('' @ int_text (param_index u - 1) @ '')''))])"

text \<open>A piece of advice: a comment, the pointcut, the debugging output, and the calls.\<close>

definition advice_lines :: "global_params \<Rightarrow> string \<Rightarrow> string \<Rightarrow> string \<Rightarrow> string \<Rightarrow> monitor_call list \<Rightarrow> string list" where
  \<open>advice_lines g comment pointcut signature description calls =
     [''  // '' @ comment, ''  advice '' @ pointcut @ '' {'', [], ''#ifdef DEBUG_INSTRUMENTATION'',
      ''      std::cout << "'' @ signature @ '' signature: " << JoinPoint::signature() << std::endl;'',
      ''      std::cout << "Using advice: '' @ quote_escape pointcut @ ''" << std::endl;'',
      ''      std::cout << "'' @ description @ ''" << std::endl;'', ''#endif'', []] @
     concat (map (call_lines g) calls) @ [''  } // advice'', [], []]\<close>

fun location_pointcut :: "func_befter \<Rightarrow> string \<Rightarrow> string" where
  "location_pointcut ENTRY f = ''execution('' @ f @ ''): before()''"
| "location_pointcut EXIT f = ''execution('' @ f @ ''): after()''"
| "location_pointcut CALL f = ''call('' @ f @ ''): before()''"
| "location_pointcut RETURN f = ''call('' @ f @ ''): after()''"
| "location_pointcut DUMMY f = []"

definition generate_location :: "(nat \<Rightarrow> nat) \<Rightarrow> global_params \<Rightarrow> func_loc \<Rightarrow> string list" where
  "generate_location addr g l =
     (if func_befter l = DUMMY then []
      else advice_lines g (''Instrumentation code for '' @ [squote] @ func_loc_to_stream l @ [squote])
        (location_pointcut (func_befter l) (func_identifier l)) ''Join Point''
        (''For user location '' @ quote_escape (func_loc_to_stream l)) (location_call addr g (loc_name l)))"

definition generate_value :: "(nat \<Rightarrow> nat) \<Rightarrow> global_params \<Rightarrow> user_val \<Rightarrow> string list" where
  "generate_value addr g u =
     advice_lines g (''Instrumenting '' @ user_val_to_stream u)
       (if param_index u = 0 then ''call('' @ uv_func_identifier u @ ''): after()''
        else ''execution('' @ uv_func_identifier u @ ''): before()'') ''Join point''
       (''For user value: '' @ quote_escape (user_val_to_stream u)) (value_call addr g u)"

definition generate_friendship :: "(nat \<Rightarrow> nat) \<Rightarrow> global_params \<Rightarrow> string list" where
  "generate_friendship addr g =
     (if user_objects g = [] then []
      else [[], [], ''  // Declare the monitor objects friends, for access to private data'',
            ''  pointcut reveal() = '' @ join '' || '' (map (\<lambda>u. [dquote] @ u @ [dquote]) (user_objects g)) @ '';'', [],
            ''  advice reveal() : slice class {''] @
           (case mpset_begin addr (all_monitors g) of
              None \<Rightarrow> []
            | Some mp \<Rightarrow> [''    friend class '' @ this_monitor_name g mp @ '';'']) @
           [''  }; // class'', [], []])"

section \<open>The aspect file\<close>

definition aspects_needed :: "global_params \<Rightarrow> bool" where
  "aspects_needed g \<longleftrightarrow> (\<exists>l\<in>set (func_locs g). func_befter l \<noteq> DUMMY) \<or> user_vals g \<noteq> [] \<or> user_objects g \<noteq> []"

definition output_directory :: "global_params \<Rightarrow> string" where
  "output_directory g =
     (case find_last_of (output_file g) ''/'' of None \<Rightarrow> ''./'' | Some p \<Rightarrow> substr (output_file g) 0 (Some (p + 1)))"

definition aspect_lines :: "(nat \<Rightarrow> nat) \<Rightarrow> global_params \<Rightarrow> string \<Rightarrow> string list" where
  \<open>aspect_lines addr g file =
     [''#ifndef '' @ get_capitalized_name file, ''#define '' @ get_capitalized_name file, [], ''#include <systemc>'',
      ''#include "'' @ get_naked_file_name (header_output_file g) @ ''"'', [], ''#include <iostream>'', [], ''aspect Automatic {''] @
     generate_friendship addr g @ concat (map (generate_location addr g) (func_locs g)) @
     concat (map (generate_value addr g) (user_vals g)) @ [''}; // Automatic'', [], [], [], ''#endif'']\<close>

text \<open>
  The files that are written; \<open>None\<close> is a search for a free name that never ends.  The
  file system and the random numbers are as in \<open>get_unique_file_name\<close>.
\<close>

definition generate_aspect_file ::
  "(string \<Rightarrow> bool) \<Rightarrow> (nat \<Rightarrow> string) \<Rightarrow> (nat \<Rightarrow> nat) \<Rightarrow> global_params \<Rightarrow> (string \<times> string) list option" where
  "generate_aspect_file exists rnd addr g =
     (if \<not> aspects_needed g then Some []
      else map_option (\<lambda>file. [(file, file_text (aspect_lines addr g file))])
        (get_unique_file_name exists rnd (output_directory g) ''aspect_definitions'' ''ah''))"

section \<open>Pattern locations\<close>

definition patterns_needed :: "global_params \<Rightarrow> bool" where
  "patterns_needed g \<longleftrightarrow> plocations g \<noteq> []"

fun sed_lines :: "global_params \<Rightarrow> plocation \<Rightarrow> monitor_call \<Rightarrow> string list" where
  \<open>sed_lines g l (MonitorCall i f args) =
     [''  sed -i "s/'' @ [backslash] @ ''(^'' @ pattern l @ ''$'' @ [backslash] @ '')/'' @
        ''mon_observer* observer = local_observer::getInstance();'' @ esc_n @
        mon_name g @ decimal i @ ''* mon = ('' @ mon_name g @ decimal i @ ''*) observer->get_monitor_by_index('' @ decimal i @ '');'' @ esc_n @
        ''mon->'' @ f @ ''('' @ args @ '');'' @ esc_n @ [backslash] @ ''1'' @ esc_n @ ''/g" $i'',
      ''  sed -i '' @ [squote] @ ''1i#include "'' @ header_output_file g @ ''"'' @ [squote] @ '' $i'']\<close>

definition generate_pattern :: "(nat \<Rightarrow> nat) \<Rightarrow> global_params \<Rightarrow> plocation \<Rightarrow> string list" where
  "generate_pattern addr g l =
     [''  # Instrumentation code for '' @ ploc_name l @ '' = '' @ ''-->'' @ pattern l @ ''<--''] @
     concat (map (sed_lines g l) (location_call addr g (ploc_name l)))"

definition pattern_script :: "(nat \<Rightarrow> nat) \<Rightarrow> global_params \<Rightarrow> string list" where
  \<open>pattern_script addr g =
     [''#!/bin/bash'', ''for i in '' @ [CHR 0x60] @ ''find . -name "*.cc" -o -name "*.cpp"'' @ [CHR 0x60], ''do'',
      ''  echo Processing $i'', []] @
     concat (map (\<lambda>l. generate_pattern addr g l @ [[]]) (plocations g)) @ [''done'']\<close>

definition generate_patterns_file ::
  "(string \<Rightarrow> bool) \<Rightarrow> (nat \<Rightarrow> string) \<Rightarrow> (nat \<Rightarrow> nat) \<Rightarrow> global_params \<Rightarrow> (string \<times> string) list option" where
  "generate_patterns_file exists rnd addr g =
     (if \<not> patterns_needed g then Some []
      else map_option (\<lambda>file. [(file, file_text (pattern_script addr g))])
        (get_unique_file_name exists rnd (output_directory g) ''instrument'' ''sh''))"

section \<open>What the advice reaches\<close>

lemma mpset_begin_least:
  assumes "mpset_begin addr ms = Some mp"
  shows "mp \<in> set ms" "m \<in> set ms \<Longrightarrow> addr (mp_id mp) \<le> addr (mp_id m)"
proof -
  let ?key = "\<lambda>m. addr (mp_id m)"
  obtain rest where o: "sort_key ?key ms = mp # rest"
    using assms by (auto simp: mpset_begin_def mpset_order_def split: list.splits)
  have set: "set (sort_key ?key ms) = set ms" and sorted: "sorted (map ?key (sort_key ?key ms))" by simp_all
  from set o show "mp \<in> set ms" by auto
  show "m \<in> set ms \<Longrightarrow> addr (mp_id mp) \<le> addr (mp_id m)" using set sorted unfolding o by auto
qed

lemma mpset_begin_None: "mpset_begin addr ms = None \<longleftrightarrow> ms = []"
proof
  assume "mpset_begin addr ms = None"
  then have "sort_key (\<lambda>m. addr (mp_id m)) ms = []" by (auto simp: mpset_begin_def mpset_order_def split: list.splits)
  then have "set (sort_key (\<lambda>m. addr (mp_id m)) ms) = {}" by simp
  then show "ms = []" by simp
qed (simp add: mpset_begin_def mpset_order_def)

lemma local_observer_mons:
  "mons (local_observer_ctor addr g v m) = (if all_monitors g = [] then [] else [m])"
proof -
  have "mons (register_all rs ob) = mons ob" for rs ob
    by (induction rs ob rule: register_all.induct) (simp_all add: register_monitor_def Let_def split: prod.splits)
  then show ?thesis
    using mpset_begin_None [of addr "all_monitors g"]
    by (auto simp: local_observer_ctor_def mon_observer_ctor_def Let_def split: option.splits)
qed

text \<open>
  C40. The advice asks the local observer for the monitor with the number of the formula it was
  generated from, but the observer holds only one monitor, at index 0: when the monitors are numbered
  from 0, the call finds it exactly when the first formula of the configuration happens to
  have the lowest address, and runs into the assertion of \<^verbatim>\<open>get_monitor_by_index\<close> otherwise.
  When it is found, the function that is called for a location is one of its class exactly when
  the location is not also the name of a kernel clock or the label of an event.\<close>

theorem advice_reaches_monitor:
  assumes "map mp_id (all_monitors g) = [0..<n]" "inj_on addr {..<n}"
    and "MonitorCall i f args \<in> set (location_call addr g name) \<union> set (value_call addr g u)"
  shows "get_monitor_by_index i (local_observer_ctor addr g v m) = (if \<forall>k<n. addr 0 \<le> addr k then Some m else None) \<and>
    (f = ''callback_userloc_'' @ name \<longrightarrow>
      (\<exists>mp. mpset_begin addr (all_monitors g) = Some mp \<and>
        (UserDef name \<in> set (callback_defs g mp) \<longleftrightarrow>
          name \<in> set (clocks mp) \<and> \<not> is_kernel_clock name \<and> \<not> gp_is_event_clock g name)))"
proof -
  obtain mp where mp: "mpset_begin addr (all_monitors g) = Some mp" "i = mp_id mp"
  proof (cases "mpset_begin addr (all_monitors g)")
    case None
    then show thesis using assms(3) by (simp add: location_call_def value_call_def)
  next
    case (Some mp)
    then have "i = mp_id mp" using assms(3) by (auto simp: location_call_def value_call_def split: if_splits)
    with Some show thesis by (rule that)
  qed
  have ids: "mp_id ` set (all_monitors g) = {..<n}"
    using arg_cong [OF assms(1), of set] by auto
  then have i: "i < n" using mpset_begin_least(1) [OF mp(1)] mp(2) by auto
  then have pos: "0 < n" by simp
  have least: "addr i \<le> addr k" if "k < n" for k
  proof -
    have "k \<in> mp_id ` set (all_monitors g)" using ids that by simp
    then show ?thesis using mpset_begin_least(2) [OF mp(1)] mp(2) by auto
  qed
  have zero: "i = 0 \<longleftrightarrow> (\<forall>k<n. addr 0 \<le> addr k)"
  proof
    assume "\<forall>k<n. addr 0 \<le> addr k"
    then have "addr i = addr 0" using least [OF pos] i by (simp add: order_antisym)
    then show "i = 0" using assms(2) i pos by (auto dest: inj_onD)
  qed (use least in auto)
  have "all_monitors g \<noteq> []" using mpset_begin_least(1) [OF mp(1)] by auto
  then have "get_monitor_by_index i (local_observer_ctor addr g v m) = (if i = 0 then Some m else None)"
    by (simp add: get_monitor_by_index_def local_observer_mons)
  then have "get_monitor_by_index i (local_observer_ctor addr g v m) = (if \<forall>k<n. addr 0 \<le> addr k then Some m else None)"
    unfolding zero .
  moreover have "UserDef c \<in> set (callback_defs g mp) \<longleftrightarrow> c \<in> set (clocks mp) \<and> \<not> is_kernel_clock c \<and> \<not> gp_is_event_clock g c" for c
    by (auto simp: callback_defs_def clock_callbacks_def)
  ultimately show ?thesis using mp(1) by blast
qed

text \<open>Two formulas, the second monitor at the lower address.\<close>

definition two_formulas :: global_params where
  "two_formulas = demo_params\<lparr>all_monitors := [(fst (monitor_params_ctor 0))\<lparr>clocks := [''l'']\<rparr>, (fst (monitor_params_ctor 1))\<lparr>clocks := [''l'']\<rparr>]\<rparr>"

theorem advice_reaches_monitor_witness:
  "get_monitor_by_index 1 (local_observer_ctor (\<lambda>k. 100 - k) two_formulas 0 monA) = None \<and>
   get_monitor_by_index 0 (local_observer_ctor (\<lambda>k. 100 + k) two_formulas 0 monA) = Some monA"
proof -
  have ids: "map mp_id (all_monitors two_formulas) = [0..<2]"
    by (simp add: two_formulas_def monitor_params_ctor_def upt_rec)
  have calls: "location_call (\<lambda>k. 100 - k) two_formulas ''l'' = [MonitorCall 1 ''callback_userloc_l'' []]"
    "location_call (\<lambda>k. 100 + k) two_formulas ''l'' = [MonitorCall 0 ''callback_userloc_l'' []]"
    by (simp_all add: location_call_def mpset_begin_def mpset_order_def two_formulas_def monitor_params_ctor_def)
  have inj: "inj_on (\<lambda>k. 100 - k :: nat) {..<2}" "inj_on (\<lambda>k. 100 + k :: nat) {..<2}" by (auto simp: inj_on_def)
  have "\<not> (\<forall>k<2. 100 - (0::nat) \<le> 100 - k)" by (intro notI) (drule spec [of _ 1], simp)
  then show ?thesis
    using advice_reaches_monitor [OF ids inj(1), of 1 "''callback_userloc_l''" "[]" "''l''", where v = 0 and m = monA]
      advice_reaches_monitor [OF ids inj(2), of 0 "''callback_userloc_l''" "[]" "''l''", where v = 0 and m = monA] calls
    by (simp del: Ball_def)
qed

end
