(* ===== verification/Mag_Plasma.thy ===== *)
theory Mag_Plasma
  imports Mag_Class
begin

text \<open>
  The project file of the model checker (mag/plasma_gen.cc) and the part of the XML library that
  writes it (class \<^verbatim>\<open>XMLPrinter\<close> of mag/tinyxml2.cc), with a reader for what is written.
\<close>

section \<open>The printer\<close>

record xml_printer =
  xp_out :: string
  element_just_opened :: bool
  first_element :: bool
  xp_depth :: int
  text_depth :: int
  xp_stack :: "string list"

definition xml_printer_ctor :: "int \<Rightarrow> xml_printer" where
  "xml_printer_ctor d = \<lparr>xp_out = [], element_just_opened = False, first_element = True, xp_depth = d,
     text_depth = - 1, xp_stack = []\<rparr>"

definition entities :: "(string \<times> char) list" where
  "entities = [(''quot'', CHR 0x22), (''amp'', CHR ''&''), (''apos'', CHR 0x27), (''lt'', CHR ''<''), (''gt'', CHR ''>'')]"

definition entity_flag :: "bool \<Rightarrow> char \<Rightarrow> bool" where
  "entity_flag restricted c \<longleftrightarrow>
     (if restricted then c \<in> {CHR ''&'', CHR ''<'', CHR ''>''} else c \<in> set (map snd entities))"

definition print_entity :: "char \<Rightarrow> string" where
  "print_entity c = (case find (\<lambda>(p, v). v = c) entities of None \<Rightarrow> [] | Some (p, v) \<Rightarrow> ''&'' @ p @ '';'')"

text \<open>The text that \<^verbatim>\<open>PrintString\<close> prints; \<open>sofar\<close> is what stands between the pointers, backwards.\<close>

fun print_string_loop :: "bool \<Rightarrow> string \<Rightarrow> string \<Rightarrow> string" where
  "print_string_loop restricted sofar [] = rev sofar"
| "print_string_loop restricted sofar (c # cs) =
     (if entity_flag restricted c then rev sofar @ print_entity c @ print_string_loop restricted [] cs
      else print_string_loop restricted (c # sofar) cs)"

definition print_string :: "string \<Rightarrow> bool \<Rightarrow> string" where
  "print_string p restricted = print_string_loop restricted [] p"

definition xml_print :: "string \<Rightarrow> xml_printer \<Rightarrow> xml_printer" where
  "xml_print s p = p\<lparr>xp_out := xp_out p @ s\<rparr>"

definition print_space :: "int \<Rightarrow> xml_printer \<Rightarrow> xml_printer" where
  "print_space d p = xml_print (concat (replicate (nat d) ''    '')) p"

definition seal_element_if_just_opened :: "xml_printer \<Rightarrow> xml_printer" where
  "seal_element_if_just_opened p =
     (if \<not> element_just_opened p then p else xml_print ''>'' (p\<lparr>element_just_opened := False\<rparr>))"

definition push_declaration :: "string \<Rightarrow> xml_printer \<Rightarrow> xml_printer" where
  "push_declaration v p =
     (let p1 = seal_element_if_just_opened p;
          p2 = (if text_depth p1 < 0 \<and> \<not> first_element p1 then print_space (xp_depth p1) (xml_print [nl] p1) else p1)
      in xml_print (''<?'' @ v @ ''?>'') (p2\<lparr>first_element := False\<rparr>))"

definition push_header :: "bool \<Rightarrow> bool \<Rightarrow> xml_printer \<Rightarrow> xml_printer" where
  \<open>push_header bom dec p =
     (let p1 = (if bom then xml_print [CHR 0xEF, CHR 0xBB, CHR 0xBF] p else p)
      in if dec then push_declaration ''xml version="1.0"'' p1 else p1)\<close>

definition open_element :: "string \<Rightarrow> xml_printer \<Rightarrow> xml_printer" where
  "open_element name p =
     (let p1 = seal_element_if_just_opened p;
          p2 = p1\<lparr>xp_stack := name # xp_stack p1\<rparr>;
          p3 = (if text_depth p2 < 0 \<and> \<not> first_element p2 then xml_print [nl] p2 else p2);
          p4 = xml_print (''<'' @ name) (print_space (xp_depth p3) p3)
      in p4\<lparr>element_just_opened := True, first_element := False, xp_depth := xp_depth p4 + 1\<rparr>)"

definition push_attribute :: "string \<Rightarrow> string \<Rightarrow> xml_printer \<Rightarrow> xml_printer" where
  \<open>push_attribute name v p = xml_print ''"'' (xml_print (print_string v False) (xml_print ('' '' @ name @ ''="'') p))\<close>

definition close_element :: "xml_printer \<Rightarrow> xml_printer" where
  "close_element p =
     (let p1 = p\<lparr>xp_depth := xp_depth p - 1\<rparr>; name = hd (xp_stack p1); p2 = p1\<lparr>xp_stack := tl (xp_stack p1)\<rparr>;
          p3 = (if element_just_opened p2 then xml_print ''/>'' p2
                else xml_print (''</'' @ name @ ''>'')
                  (if text_depth p2 < 0 then print_space (xp_depth p2) (xml_print [nl] p2) else p2));
          p4 = (if text_depth p3 = xp_depth p3 then p3\<lparr>text_depth := - 1\<rparr> else p3);
          p5 = (if xp_depth p4 = 0 then xml_print [nl] p4 else p4)
      in p5\<lparr>element_just_opened := False\<rparr>)"

definition push_text :: "string \<Rightarrow> xml_printer \<Rightarrow> xml_printer" where
  "push_text text p = (let p1 = seal_element_if_just_opened (p\<lparr>text_depth := xp_depth p - 1\<rparr>)
     in xml_print (print_string text True) p1)"

section \<open>The project file\<close>

datatype xml_call = OpenElement string | PushAttribute string string | PushText string | CloseElement

fun perform :: "xml_call \<Rightarrow> xml_printer \<Rightarrow> xml_printer" where
  "perform (OpenElement n) = open_element n"
| "perform (PushAttribute a v) = push_attribute a v"
| "perform (PushText t) = push_text t"
| "perform CloseElement = close_element"

text \<open>\<^verbatim>\<open>c_str()\<close>: the characters up to a zero.\<close>

definition c_str :: "string \<Rightarrow> string" where
  "c_str s = takeWhile (\<lambda>c. c \<noteq> CHR 0x00) s"

definition requirement_calls :: "global_params \<Rightarrow> monitor_params \<Rightarrow> xml_call list" where
  "requirement_calls g mp =
     [OpenElement ''requirement'', PushAttribute ''name'' (c_str (formula_name mp)),
      PushAttribute ''type'' (c_str (requirementtype g)),
      OpenElement ''content'', PushText (c_str (ltl mp)), CloseElement, CloseElement]"

definition plasma_calls :: "(nat \<Rightarrow> nat) \<Rightarrow> global_params \<Rightarrow> xml_call list" where
  "plasma_calls addr g =
     [OpenElement ''PlasmaProject'', PushAttribute ''name'' (c_str (projectname g)),
      OpenElement ''models'', OpenElement ''model'', PushAttribute ''name'' (c_str (modelname g)),
      PushAttribute ''type'' (c_str (modeltype g)),
      OpenElement ''content'', PushText (c_str (modelcontent g)), CloseElement, CloseElement, CloseElement,
      OpenElement ''requirements''] @ concat (map (requirement_calls g) (mpset_order addr (all_monitors g))) @
     [CloseElement, OpenElement ''resources'', CloseElement, CloseElement]"

text \<open>The name and the contents of the file.\<close>

definition generate_plasma_file :: "(nat \<Rightarrow> nat) \<Rightarrow> global_params \<Rightarrow> string \<times> string" where
  "generate_plasma_file addr g =
     (c_str (projectfile g), xp_out (fold perform (plasma_calls addr g) (push_header True True (xml_printer_ctor 1))))"

section \<open>Trees and their texts\<close>

text \<open>An element with text, or with other elements; \<open>pretty\<close> is its text at a depth.\<close>

datatype xml = Leaf string "(string \<times> string) list" string | Node string "(string \<times> string) list" "xml list"

fun calls_of :: "xml \<Rightarrow> xml_call list" where
  "calls_of (Leaf n as t) = OpenElement n # map (\<lambda>(a, v). PushAttribute a v) as @ [PushText t, CloseElement]"
| "calls_of (Node n as xs) = OpenElement n # map (\<lambda>(a, v). PushAttribute a v) as @ concat (map calls_of xs) @ [CloseElement]"

definition indent :: "int \<Rightarrow> string" where
  "indent d = concat (replicate (nat d) ''    '')"

definition attributes_text :: "(string \<times> string) list \<Rightarrow> string" where
  \<open>attributes_text as = concat (map (\<lambda>(a, v). '' '' @ a @ ''="'' @ print_string v False @ ''"'') as)\<close>

fun pretty :: "int \<Rightarrow> xml \<Rightarrow> string" where
  "pretty d (Leaf n as t) = ''<'' @ n @ attributes_text as @ ''>'' @ print_string t True @ ''</'' @ n @ ''>''"
| "pretty d (Node n as xs) = ''<'' @ n @ attributes_text as @
     (if xs = [] then ''/>''
      else ''>'' @ concat (map (\<lambda>x. [nl] @ indent (d + 1) @ pretty (d + 1) x) xs) @ [nl] @ indent d @ ''</'' @ n @ ''>'')"

lemma fold_attributes:
  "fold perform (map (\<lambda>(a, v). PushAttribute a v) as) p = xml_print (attributes_text as) p"
  by (induction as arbitrary: p) (auto simp: attributes_text_def push_attribute_def xml_print_def)

text \<open>The printer prints trees: what it leaves behind of its own state is as before.\<close>

definition printed :: "string \<Rightarrow> xml_printer \<Rightarrow> xml_printer" where
  "printed s p = p\<lparr>xp_out := xp_out p @ s, element_just_opened := False, first_element := False\<rparr>"

definition before_element :: "xml_printer \<Rightarrow> string" where
  "before_element p = (if element_just_opened p then ''>'' else []) @ (if first_element p then [] else [nl]) @ indent (xp_depth p)"

lemma open_element_eq:
  "text_depth p = - 1 \<Longrightarrow> open_element n p =
     p\<lparr>xp_out := xp_out p @ before_element p @ ''<'' @ n, element_just_opened := True, first_element := False,
       xp_depth := xp_depth p + 1, xp_stack := n # xp_stack p\<rparr>"
  by (simp add: open_element_def before_element_def seal_element_if_just_opened_def xml_print_def print_space_def indent_def Let_def)

lemma fold_calls_of:
  assumes "text_depth p = - 1" "xp_depth p \<ge> 1"
  shows "fold perform (calls_of x) p = printed (before_element p @ pretty (xp_depth p) x) p"
  using assms
proof (induction x arbitrary: p)
  case (Leaf n as t)
  then show ?case
    by (simp add: open_element_eq fold_attributes push_text_def close_element_def xml_print_def printed_def
        seal_element_if_just_opened_def Let_def)
next
  case (Node n as xs)
  let ?p = "xml_print (attributes_text as) (open_element n p)"
  have children: "fold perform (concat (map calls_of ys)) q =
      (if ys = [] then q
       else printed ((if element_just_opened q then ''>'' else []) @
         concat (map (\<lambda>x. [nl] @ indent (xp_depth q) @ pretty (xp_depth q) x) ys)) q)"
    if "set ys \<subseteq> set xs" "text_depth q = - 1" "xp_depth q \<ge> 1" "\<not> first_element q" for ys q
    using that
  proof (induction ys arbitrary: q)
    case (Cons y ys)
    have "fold perform (calls_of y) q = printed (before_element q @ pretty (xp_depth q) y) q"
      using Cons.prems by (intro Node.IH) auto
    then have "fold perform (concat (map calls_of (y # ys))) q =
        fold perform (concat (map calls_of ys)) (printed (before_element q @ pretty (xp_depth q) y) q)"
      by simp
    also have "\<dots> = (if ys = [] then printed (before_element q @ pretty (xp_depth q) y) q
        else printed (concat (map (\<lambda>x. [nl] @ indent (xp_depth q) @ pretty (xp_depth q) x) ys))
          (printed (before_element q @ pretty (xp_depth q) y) q))"
      using Cons.IH [of "printed (before_element q @ pretty (xp_depth q) y) q"] Cons.prems by (simp add: printed_def)
    finally show ?case using Cons.prems(4) by (simp add: printed_def before_element_def)
  qed simp
  show ?case
    using children [of xs ?p] Node.prems
    by (simp add: open_element_eq fold_attributes close_element_def xml_print_def printed_def Let_def print_space_def indent_def)
qed

section \<open>Reading the file back\<close>

text \<open>
  A reader for such files: it goes from tag to tag, drops the white space between elements, and
  keeps the text of an element without children.  \<open>opened\<close> says that the last tag opened an element.
\<close>

datatype xml_event = EOpen string "(string \<times> string) list" | EText string | EClose string

definition entity_at :: "string \<Rightarrow> (char \<times> nat) option" where
  "entity_at s = map_option (\<lambda>(p, v). (v, length p + 1)) (find (\<lambda>(p, v). starts_with (p @ '';'') s) entities)"

function unescape :: "string \<Rightarrow> string" where
  "unescape [] = []"
| "unescape (c # s) =
     (if c \<noteq> CHR ''&'' then c # unescape s
      else case entity_at s of None \<Rightarrow> c # unescape s | Some (v, k) \<Rightarrow> v # unescape (drop k s))"
  by pat_completeness auto

termination
  by (relation "measure length") auto

function read_attributes :: "string \<Rightarrow> (string \<times> string) list" where
  "read_attributes s =
     (case s of [] \<Rightarrow> []
      | _ # t \<Rightarrow>
          let a = takeWhile (\<lambda>c. c \<noteq> CHR ''='') t; r = drop 2 (dropWhile (\<lambda>c. c \<noteq> CHR ''='') t);
              v = takeWhile (\<lambda>c. c \<noteq> dquote) r
          in (a, unescape v) # read_attributes (drop 1 (dropWhile (\<lambda>c. c \<noteq> dquote) r)))"
  by pat_completeness auto

termination
  by (relation "measure length") (auto simp: less_Suc_eq_le intro!: diff_le_self le_trans [OF diff_le_self]
      le_trans [OF length_dropWhile_le])

declare read_attributes.simps [simp del]

definition tag_events :: "bool \<Rightarrow> string \<Rightarrow> string \<Rightarrow> xml_event list" where
  "tag_events opened before tag =
     (if tag = [] \<or> hd tag = CHR ''?'' then []
      else if hd tag = CHR ''/'' then (if opened then [EText (unescape before)] else []) @ [EClose (tl tag)]
      else let body = (if last tag = CHR ''/'' then butlast tag else tag);
               n = takeWhile (\<lambda>c. c \<noteq> CHR '' '') body;
               as = read_attributes (dropWhile (\<lambda>c. c \<noteq> CHR '' '') body)
           in EOpen n as # (if last tag = CHR ''/'' then [EClose n] else []))"

definition opens :: "string \<Rightarrow> bool" where
  "opens tag \<longleftrightarrow> tag \<noteq> [] \<and> hd tag \<notin> {CHR ''?'', CHR ''/''} \<and> last tag \<noteq> CHR ''/''"

function read_events :: "bool \<Rightarrow> string \<Rightarrow> xml_event list" where
  "read_events opened s =
     (case dropWhile (\<lambda>c. c \<noteq> CHR ''<'') s of [] \<Rightarrow> []
      | _ # r \<Rightarrow>
          let tag = takeWhile (\<lambda>c. c \<noteq> CHR ''>'') r
          in tag_events opened (takeWhile (\<lambda>c. c \<noteq> CHR ''<'') s) tag @
             read_events (opens tag) (drop 1 (dropWhile (\<lambda>c. c \<noteq> CHR ''>'') r)))"
  by pat_completeness auto

termination
proof (relation "measure (\<lambda>(opened, s). length s)", goal_cases)
  case (2 opened s c r tag)
  have "length (c # r) \<le> length s" using length_dropWhile_le [of _ s] 2(1) by metis
  moreover have "length (drop 1 (dropWhile (\<lambda>c. c \<noteq> CHR ''>'') r)) \<le> length r"
    using length_dropWhile_le [of "\<lambda>c. c \<noteq> CHR ''>''" r] by simp
  ultimately show ?case by simp
qed simp

declare read_events.simps [simp del]

text \<open>What the reader is meant to find.\<close>

fun events_of :: "xml \<Rightarrow> xml_event list" where
  "events_of (Leaf n as t) = [EOpen n as, EText t, EClose n]"
| "events_of (Node n as xs) = EOpen n as # concat (map events_of xs) @ [EClose n]"

definition plasma_tree :: "(nat \<Rightarrow> nat) \<Rightarrow> global_params \<Rightarrow> xml" where
  "plasma_tree addr g =
     Node ''PlasmaProject'' [(''name'', c_str (projectname g))]
       [Node ''models'' []
          [Node ''model'' [(''name'', c_str (modelname g)), (''type'', c_str (modeltype g))]
             [Leaf ''content'' [] (c_str (modelcontent g))]],
        Node ''requirements'' []
          (map (\<lambda>mp. Node ''requirement'' [(''name'', c_str (formula_name mp)), (''type'', c_str (requirementtype g))]
             [Leaf ''content'' [] (c_str (ltl mp))]) (mpset_order addr (all_monitors g))),
        Node ''resources'' [] []]"

subsection \<open>Entities\<close>

lemma print_string_loop_concat:
  "print_string_loop r sofar s = rev sofar @ concat (map (\<lambda>c. if entity_flag r c then print_entity c else [c]) s)"
  by (induction r sofar s rule: print_string_loop.induct) auto

lemma print_string_Cons:
  "print_string [] r = []"
  "print_string (c # s) r = (if entity_flag r c then print_entity c else [c]) @ print_string s r"
  by (simp_all add: print_string_def print_string_loop_concat del: print_string_loop.simps)

lemma entity_cases:
  assumes "entity_flag r c"
  obtains p where "(p, c) \<in> set entities" "print_entity c = ''&'' @ p @ '';''"
proof -
  have "c \<in> snd ` set entities"
    using assms by (auto simp: entity_flag_def entities_def split: if_splits)
  then have "find (\<lambda>(p, v). v = c) entities \<noteq> None" unfolding find_None_iff by auto
  then obtain p v where f: "find (\<lambda>(p, v). v = c) entities = Some (p, v)" by auto
  then have "(p, c) \<in> set entities" "v = c" by (auto simp: find_Some_iff in_set_conv_nth)
  with f show thesis by (intro that [of p]) (simp_all add: print_entity_def)
qed

lemma unescape_entity: "(p, c) \<in> set entities \<Longrightarrow> unescape (''&'' @ p @ '';'' @ s) = c # unescape s"
proof -
  assume "(p, c) \<in> set entities"
  then have "entity_at (p @ '';'' @ s) = Some (c, length p + 1)"
    unfolding entities_def entity_at_def by (elim set_ConsD [elim_format] disjE) simp_all
  then show ?thesis by simp
qed

lemma unescape_print: "unescape (print_string s r) = s"
proof (induction s)
  case (Cons c s)
  show ?case
  proof (cases "entity_flag r c")
    case True
    then obtain p where p: "(p, c) \<in> set entities" "print_entity c = ''&'' @ p @ '';''" by (rule entity_cases)
    then have "print_string (c # s) r = ''&'' @ p @ '';'' @ print_string s r" using True by (simp add: print_string_Cons)
    with unescape_entity [OF p(1)] Cons show ?thesis by simp
  next
    case False
    then have "c \<noteq> CHR ''&''" by (auto simp: entity_flag_def entities_def split: if_splits)
    with False Cons show ?thesis by (simp add: print_string_Cons)
  qed
qed (simp add: print_string_Cons)

lemma print_string_free:
  "CHR ''<'' \<notin> set (print_string s r)" "CHR ''>'' \<notin> set (print_string s r)" "dquote \<notin> set (print_string s False)"
proof -
  have e: "set (print_entity c) \<inter> {CHR ''<'', CHR ''>'', dquote} = {}" if f: "entity_flag r c" for r c
  proof -
    obtain p where "(p, c) \<in> set entities" "print_entity c = ''&'' @ p @ '';''" using f by (rule entity_cases)
    then show ?thesis by (auto simp: entities_def)
  qed
  show "CHR ''<'' \<notin> set (print_string s r)" "CHR ''>'' \<notin> set (print_string s r)"
    using e [of r] by (induction s) (auto simp: print_string_Cons entity_flag_def entities_def)
  show "dquote \<notin> set (print_string s False)"
    using e [of False] by (induction s) (auto simp: print_string_Cons entity_flag_def entities_def)
qed

subsection \<open>Tags\<close>

definition name_ok :: "string \<Rightarrow> bool" where
  "name_ok n \<longleftrightarrow> n \<noteq> [] \<and> set n \<inter> {CHR '' '', CHR ''='', CHR ''<'', CHR ''>'', CHR ''/'', CHR ''?'', dquote} = {}"

definition attributes_ok :: "(string \<times> string) list \<Rightarrow> bool" where
  "attributes_ok as \<longleftrightarrow> (\<forall>a\<in>set as. name_ok (fst a))"

fun xml_ok :: "xml \<Rightarrow> bool" where
  "xml_ok (Leaf n as t) \<longleftrightarrow> name_ok n \<and> attributes_ok as"
| "xml_ok (Node n as xs) \<longleftrightarrow> name_ok n \<and> attributes_ok as \<and> (\<forall>x\<in>set xs. xml_ok x)"

lemma split_at:
  assumes "x \<notin> set s"
  shows "takeWhile (\<lambda>c. c \<noteq> x) (s @ x # r) = s" "dropWhile (\<lambda>c. c \<noteq> x) (s @ x # r) = x # r"
    "takeWhile (\<lambda>c. c \<noteq> x) s = s" "dropWhile (\<lambda>c. c \<noteq> x) s = []"
  using assms by (induction s) auto

lemma read_attributes_text: "attributes_ok as \<Longrightarrow> read_attributes (attributes_text as) = as"
proof (induction as)
  case Nil
  then show ?case by (simp add: attributes_text_def read_attributes.simps)
next
  case (Cons x as)
  obtain a v where x: "x = (a, v)" by fastforce
  have a: "CHR ''='' \<notin> set a" using Cons.prems x by (simp add: attributes_ok_def name_ok_def)
  let ?r = "print_string v False @ dquote # attributes_text as"
  have t: "attributes_text (x # as) = CHR '' '' # a @ CHR ''='' # dquote # ?r" using x by (simp add: attributes_text_def)
  have "read_attributes (attributes_text as) = as" using Cons by (simp add: attributes_ok_def)
  then show ?case
    unfolding t
    by (subst read_attributes.simps) (simp add: split_at [OF a] split_at [OF print_string_free(3)] Let_def x unescape_print)
qed

lemma attributes_text_free:
  assumes "attributes_ok as"
  shows "CHR ''>'' \<notin> set (attributes_text as)" "as \<noteq> [] \<Longrightarrow> last (attributes_text as) = dquote"
    "attributes_text as = [] \<or> hd (attributes_text as) = CHR '' ''" "attributes_text as = [] \<longleftrightarrow> as = []"
proof -
  show "CHR ''>'' \<notin> set (attributes_text as)"
    using assms print_string_free(2) by (auto simp: attributes_text_def attributes_ok_def name_ok_def)
  show "attributes_text as = [] \<or> hd (attributes_text as) = CHR '' ''" "attributes_text as = [] \<longleftrightarrow> as = []"
    by (cases as; auto simp: attributes_text_def)+
  show "as \<noteq> [] \<Longrightarrow> last (attributes_text as) = dquote"
    by (cases as rule: rev_cases) (auto simp: attributes_text_def)
qed

lemma read_tag:
  assumes "CHR ''<'' \<notin> set before" "CHR ''>'' \<notin> set tag"
  shows "read_events b (before @ CHR ''<'' # tag @ CHR ''>'' # rest) = tag_events b before tag @ read_events (opens tag) rest"
  by (subst read_events.simps) (simp add: split_at [OF assms(1)] split_at [OF assms(2)] Let_def)

lemma open_tag:
  assumes "name_ok n" "attributes_ok as"
  defines "tag \<equiv> n @ attributes_text as"
  shows "CHR ''>'' \<notin> set tag" "opens tag" "tag_events b before tag = [EOpen n as]"
    "CHR ''>'' \<notin> set (tag @ ''/'')" "\<not> opens (tag @ ''/'')" "tag_events b before (tag @ ''/'') = [EOpen n as, EClose n]"
proof -
  note A = attributes_text_free [OF assms(2)]
  have n: "n \<noteq> []" "hd n \<notin> {CHR ''?'', CHR ''/''}" "CHR '' '' \<notin> set n" "CHR ''>'' \<notin> set n"
    using assms(1) by (cases n; auto simp: name_ok_def)+
  have "last n \<noteq> CHR ''/''" using assms(1) by (cases n rule: rev_cases) (auto simp: name_ok_def)
  then have last: "last tag \<noteq> CHR ''/''" using A n(1) by (cases "as = []") (simp_all add: tag_def)
  show "CHR ''>'' \<notin> set tag" "CHR ''>'' \<notin> set (tag @ ''/'')" using A n by (simp_all add: tag_def)
  have hd: "hd tag = hd n" "hd (tag @ ''/'') = hd n" "tag \<noteq> []" using n(1) by (simp_all add: tag_def)
  show "opens tag" "\<not> opens (tag @ ''/'')" using hd n last by (auto simp: opens_def)
  have split: "takeWhile (\<lambda>c. c \<noteq> CHR '' '') tag = n" "dropWhile (\<lambda>c. c \<noteq> CHR '' '') tag = attributes_text as"
  proof -
    have "takeWhile (\<lambda>c. c \<noteq> CHR '' '') tag = n \<and> dropWhile (\<lambda>c. c \<noteq> CHR '' '') tag = attributes_text as"
    proof (cases "attributes_text as")
      case Nil
      then show ?thesis using split_at(3,4) [OF n(3)] by (simp add: tag_def)
    next
      case (Cons c cs)
      then have "c = CHR '' ''" using A(3) by simp
      with Cons split_at(1,2) [OF n(3)] show ?thesis by (simp add: tag_def)
    qed
    then show "takeWhile (\<lambda>c. c \<noteq> CHR '' '') tag = n" "dropWhile (\<lambda>c. c \<noteq> CHR '' '') tag = attributes_text as" by simp_all
  qed
  show "tag_events b before tag = [EOpen n as]"
    using hd n last split read_attributes_text [OF assms(2)] by (simp add: tag_events_def Let_def)
  show "tag_events b before (tag @ ''/'') = [EOpen n as, EClose n]"
    using hd n last split read_attributes_text [OF assms(2)] by (simp add: tag_events_def Let_def)
qed

lemma close_tag:
  assumes "name_ok n"
  shows "CHR ''>'' \<notin> set (CHR ''/'' # n)" "\<not> opens (CHR ''/'' # n)"
    "tag_events b before (CHR ''/'' # n) = (if b then [EText (unescape before)] else []) @ [EClose n]"
  using assms by (auto simp: name_ok_def opens_def tag_events_def)

lemma indent_free: "CHR ''<'' \<notin> set (nl # indent d)"
  by (auto simp: indent_def)

lemma read_pretty:
  assumes "xml_ok x" "CHR ''<'' \<notin> set before"
  shows "read_events b (before @ pretty d x @ rest) = events_of x @ read_events False rest"
  using assms
proof (induction x arbitrary: b before d rest)
  case (Leaf n atts t)
  note tag = open_tag [of n atts]
  have "read_events b (before @ pretty d (Leaf n atts t) @ rest) =
      read_events b (before @ CHR ''<'' # (n @ attributes_text atts) @ CHR ''>'' # print_string t True @
        CHR ''<'' # (CHR ''/'' # n) @ CHR ''>'' # rest)" by simp
  also have "\<dots> = [EOpen n atts] @ [EText t, EClose n] @ read_events False rest"
    using Leaf tag close_tag [of n] by (simp add: read_tag print_string_free unescape_print del: append.simps append_assoc)
  finally show ?case by simp
next
  case (Node n atts xs)
  note tag = open_tag [of n atts]
  have children: "read_events b (concat (map (\<lambda>x. [nl] @ indent e @ pretty e x) ys) @ r) =
      concat (map events_of ys) @ read_events (if ys = [] then b else False) r" if "set ys \<subseteq> set xs" for ys b e r
    using that
  proof (induction ys arbitrary: b)
    case (Cons y ys)
    have "read_events b ((nl # indent e) @ pretty e y @ (concat (map (\<lambda>x. [nl] @ indent e @ pretty e x) ys) @ r)) =
        events_of y @ read_events False (concat (map (\<lambda>x. [nl] @ indent e @ pretty e x) ys) @ r)"
      using Cons.prems Node.prems indent_free by (intro Node.IH) auto
    with Cons.IH [of False] Cons.prems show ?case by simp
  qed simp
  show ?case
  proof (cases "xs = []")
    case True
    then have "read_events b (before @ pretty d (Node n atts xs) @ rest) =
        read_events b (before @ CHR ''<'' # ((n @ attributes_text atts) @ ''/'') @ CHR ''>'' # rest)" by simp
    then show ?thesis using True Node.prems tag by (simp add: read_tag del: append.simps append_assoc)
  next
    case False
    let ?inner = "concat (map (\<lambda>x. [nl] @ indent (d + 1) @ pretty (d + 1) x) xs)"
    have "read_events b (before @ pretty d (Node n atts xs) @ rest) =
        read_events b (before @ CHR ''<'' # (n @ attributes_text atts) @ CHR ''>'' # ?inner @
          (nl # indent d) @ CHR ''<'' # (CHR ''/'' # n) @ CHR ''>'' # rest)" using False by simp
    also have "\<dots> = [EOpen n atts] @ read_events True (?inner @ (nl # indent d) @ CHR ''<'' # (CHR ''/'' # n) @ CHR ''>'' # rest)"
      using Node.prems tag by (simp add: read_tag del: append.simps append_assoc)
    also have "\<dots> = [EOpen n atts] @ concat (map events_of xs) @ [EClose n] @ read_events False rest"
      using False Node.prems close_tag [of n] indent_free
      by (subst children) (simp_all add: read_tag del: append.simps append_assoc)
    finally show ?thesis by simp
  qed
qed

section \<open>The project file holds the formulas\<close>

lemma plasma_calls_tree: "plasma_calls addr g = calls_of (plasma_tree addr g)"
  by (simp add: plasma_calls_def plasma_tree_def requirement_calls_def [abs_def] comp_def)

lemma plasma_tree_ok: "xml_ok (plasma_tree addr g)"
  by (simp add: plasma_tree_def name_ok_def attributes_ok_def)

text \<open>
  C37. Whatever the names and the formulas are, the project file is well-formed: a reader that follows the
  tags finds the project, its model and one requirement for each monitor, in the order of the
  set of monitors, with exactly the name and the formula of the configuration: the characters \<open>&\<close>, \<open><\<close>, \<open>>\<close> and quotes
  that formulas contain survive.\<close>

theorem plasma_project_reads_back:
  "read_events False (snd (generate_plasma_file addr g)) = events_of (plasma_tree addr g)"
proof -
  let ?p = "push_header True True (xml_printer_ctor 1)"
  have p: \<open>xp_out ?p = [CHR 0xEF, CHR 0xBB, CHR 0xBF] @ CHR ''<'' # ''?xml version="1.0"?'' @ ''>''\<close>
    "text_depth ?p = - 1" "xp_depth ?p = 1" "\<not> element_just_opened ?p" "\<not> first_element ?p"
    by (simp_all add: push_header_def push_declaration_def xml_printer_ctor_def xml_print_def
        seal_element_if_just_opened_def Let_def)
  have "snd (generate_plasma_file addr g) = xp_out ?p @ (nl # indent 1) @ pretty 1 (plasma_tree addr g)"
    using fold_calls_of [of ?p "plasma_tree addr g"] p(2-5)
    by (simp add: generate_plasma_file_def plasma_calls_tree printed_def before_element_def)
  also have "read_events False \<dots> = read_events False ((nl # indent 1) @ pretty 1 (plasma_tree addr g) @ [])"
    unfolding p(1) using read_tag [of "[CHR 0xEF, CHR 0xBB, CHR 0xBF]" \<open>''?xml version="1.0"?''\<close> False] by (simp add: tag_events_def opens_def)
  also have "\<dots> = events_of (plasma_tree addr g) @ read_events False []"
    by (intro read_pretty plasma_tree_ok indent_free)
  finally show ?thesis by (simp add: read_events.simps)
qed

end
