(* ===== verification/Mag_Main.thy ===== *)
theory Mag_Main
  imports Mag_Aspect Mag_Plasma
begin

text \<open>
  The generator as a whole (mag/main.cc) and what holds of every configuration that it accepts.
\<close>

section \<open>The program\<close>

text \<open>
  The result is the way the program ends, or the files that it has written with their contents; \<open>None\<close> is a
  search for a free file name that never ends.  Messages, failures to open a file, and the files
  that are left behind by a failing run are not part of it.
\<close>

definition with_clocks :: "global_params \<Rightarrow> global_params" where
  "with_clocks g = g\<lparr>all_monitors := map (mp_set_timeresolution (timeresolution g)) (all_monitors g)\<rparr>"

definition write_files ::
  "(nat \<Rightarrow> nat) \<Rightarrow> (string \<Rightarrow> bool) \<Rightarrow> (nat \<Rightarrow> string) \<Rightarrow> global_params \<Rightarrow> (ending + (string \<times> string) list) option" where
  "write_files addr exists rnd g =
     (case generate_monitors addr g of
        Inl e \<Rightarrow> Some (Inl e)
      | Inr (cc, h) \<Rightarrow>
          (case (generate_aspect_file exists rnd addr g, generate_patterns_file exists rnd addr g) of
             (Some aspects, Some patterns) \<Rightarrow>
               Some (Inr ([(output_file g, cc @ file_text (local_observer_cc addr g)),
                 (header_output_file g, h @ file_text (local_observer_h g) @ [nl] @ ''#endif'' @ [nl])] @
                 aspects @ patterns @ [generate_plasma_file addr g]))
           | _ \<Rightarrow> None))"

definition mag_main ::
  "(nat \<Rightarrow> nat) \<Rightarrow> (string \<Rightarrow> bool) \<Rightarrow> (nat \<Rightarrow> string) \<Rightarrow> (string \<Rightarrow> string option) \<Rightarrow> string list \<Rightarrow>
    (ending + (string \<times> string) list) option" where
  "mag_main addr exists rnd files args =
     (case global_params_ctor files args of
        Inl e \<Rightarrow> Some (Inl e)
      | Inr g \<Rightarrow>
          if plasma_project_only g then Some (Inr [generate_plasma_file addr g])
          else write_files addr exists rnd (with_clocks g))"

section \<open>Accepted configurations\<close>

definition no_space :: "string \<Rightarrow> bool" where
  "no_space s \<longleftrightarrow> (\<forall>c\<in>set s. \<not> is_space c)"

definition keys_ok :: "ssmap \<Rightarrow> bool" where
  "keys_ok m \<longleftrightarrow> (\<forall>k\<in>fst ` set m. no_space k)"

text \<open>
  Sets and maps are ordered, as the containers of the library are; names that become names of the
  generated program have no white space; monitors are numbered in their order from 0, wait for
  their clocks, and hold the formula before its name.
\<close>

definition sets_ok :: "global_params \<Rightarrow> bool" where
  "sets_ok g \<longleftrightarrow> sset_ok (user_objects g) \<and> sset_ok (includefiles g) \<and> sset_ok (timeresolution g) \<and>
     ssmap_ok (all_objects g) \<and> ssmap_ok (all_attributelabels g) \<and> ssmap_ok (all_attributetypes g) \<and>
     ssmap_ok (all_eventclocklabels g)"

definition names_ok :: "global_params \<Rightarrow> bool" where
  "names_ok g \<longleftrightarrow> no_space (mon_name g) \<and> (\<forall>l\<in>set (func_locs g). no_space (loc_name l)) \<and>
     (\<forall>l\<in>set (plocations g). no_space (ploc_name l)) \<and> (\<forall>u\<in>set (user_vals g). no_space (val_name u)) \<and>
     keys_ok (all_objects g) \<and> keys_ok (all_attributelabels g) \<and> keys_ok (all_attributetypes g) \<and> keys_ok (all_eventclocklabels g)"

definition monitors_ok :: "global_params \<Rightarrow> bool" where
  "monitors_ok g \<longleftrightarrow> map mp_id (all_monitors g) = [0..<num_monitors g] \<and>
     (\<forall>mp\<in>set (all_monitors g). clocks mp = [] \<and> CHR ''@'' \<notin> set (ltl mp))"

definition config_ok :: "global_params \<Rightarrow> bool" where
  "config_ok g \<longleftrightarrow> sets_ok g \<and> names_ok g \<and> monitors_ok g"

lemmas config_ok_defs = config_ok_def sets_ok_def names_ok_def monitors_ok_def

definition keeps :: "(ending + string \<times> global_params) \<Rightarrow> bool" where
  "keeps x \<longleftrightarrow> (\<forall>r g. x = Inr (r, g) \<longrightarrow> config_ok g)"

lemma no_space_Nil [simp]: "no_space []"
  by (simp add: no_space_def)

lemma keys_ok_simps [simp]: "keys_ok []" "no_space k \<Longrightarrow> keys_ok m \<Longrightarrow> keys_ok (ssmap_update k v m)"
  by (simp_all add: keys_ok_def)

lemma read_word_no_space: "read_word r = Some (v, r1) \<Longrightarrow> no_space v"
  by (auto simp: read_word_def no_space_def Let_def dest: set_takeWhileD split: if_splits)

lemma word_or_empty_no_space: "word_or_empty r = (v, r1) \<Longrightarrow> no_space v"
  by (auto simp: word_or_empty_def dest: read_word_no_space split: option.splits)

lemma split_name_no_space: "no_space (fst (split_name s))"
proof -
  have "no_space (substr t 0 (find_first_of t ws_chars 0))" for t
  proof (cases "find_first_of t ws_chars 0")
    case None
    then show ?thesis
      by (auto simp: find_first_of_def find_from_takeWhile substr_def no_space_def is_space_def split: if_splits)
  next
    case (Some k)
    then have "k = length (takeWhile (\<lambda>c. c \<notin> set ws_chars) t)"
      by (auto simp: find_first_of_def find_from_takeWhile split: if_splits)
    then have sub: "substr t 0 (Some k) = takeWhile (\<lambda>c. c \<notin> set ws_chars) t"
      by (simp add: substr_def takeWhile_eq_take [symmetric])
    show ?thesis unfolding Some sub by (auto simp: no_space_def is_space_def dest: set_takeWhileD)
  qed
  then show ?thesis by (simp add: split_name_def Let_def)
qed

lemma keeps_with_word:
  assumes "\<And>v. no_space v \<Longrightarrow> config_ok (f v g)" "config_ok g"
  shows "keeps (with_word n f r g)"
proof (cases "read_word r")
  case (Some x)
  with assms(1) read_word_no_space [of r "fst x" "snd x"] show ?thesis by (cases x) (simp add: keeps_def with_word_def)
qed (use assms(2) in \<open>simp add: keeps_def with_word_def\<close>)

lemma keeps_with_first: "(\<And>v. no_space v \<Longrightarrow> config_ok (f v g)) \<Longrightarrow> keeps (with_first n f r g)"
  using word_or_empty_no_space [of r] by (cases "word_or_empty r") (simp add: keeps_def with_first_def)

lemma keeps_with_words:
  "(\<And>v w. no_space v \<Longrightarrow> no_space w \<Longrightarrow> config_ok (f v w g)) \<Longrightarrow> keeps (with_words n f r g)"
  using word_or_empty_no_space [of r] word_or_empty_no_space [of "snd (word_or_empty r)"]
  by (cases "word_or_empty r"; cases "word_or_empty (snd (word_or_empty r))") (simp add: keeps_def with_words_def)

lemma keeps_with_line:
  assumes "\<And>v g'. f v g = Inr g' \<Longrightarrow> config_ok g'" "config_ok g"
  shows "keeps (with_line f r g)"
proof (cases "get_line r")
  case (Some x)
  show ?thesis
  proof (cases "f (fst x) g")
    case (Inr g')
    with Some assms(1) show ?thesis by (cases x) (simp add: keeps_def with_line_def)
  qed (use Some in \<open>cases x, simp add: keeps_def with_line_def\<close>)
qed (use assms(2) in \<open>simp add: keeps_def with_line_def\<close>)

lemma keeps_ignore: "config_ok g \<Longrightarrow> keeps (Inr (ignore n r, g))"
  by (simp add: keeps_def)

lemma keeps_if: "(b \<Longrightarrow> keeps x) \<Longrightarrow> (\<not> b \<Longrightarrow> keeps y) \<Longrightarrow> keeps (if b then x else y)"
  by simp

lemmas keeps_shapes = keeps_with_word keeps_with_first keeps_with_words keeps_with_line keeps_ignore

lemma config_ok_pushed:
  assumes "config_ok g"
  shows "no_space (loc_name l) \<Longrightarrow> config_ok (g\<lparr>func_locs := func_locs g @ [l]\<rparr>)"
    "no_space (ploc_name q) \<Longrightarrow> config_ok (g\<lparr>plocations := plocations g @ [q]\<rparr>)"
    "no_space (val_name u) \<Longrightarrow> config_ok (g\<lparr>user_vals := user_vals g @ [u]\<rparr>)"
    "CHR ''@'' \<notin> set (ltl mp) \<Longrightarrow> clocks mp = [] \<Longrightarrow> mp_id mp = num_monitors g \<Longrightarrow>
      config_ok (g\<lparr>num_monitors := num_monitors g + 1, all_monitors := all_monitors g @ [mp]\<rparr>)"
  using assms by (simp_all add: config_ok_defs ball_Un)

lemma add_location_ok: "add_location v g = Inr g' \<Longrightarrow> config_ok g \<Longrightarrow> config_ok g'"
  using split_name_no_space [of v]
  by (cases "split_name v") (auto simp: add_location_def Let_def intro!: config_ok_pushed(1) split: if_splits)

lemma add_pattern_location_ok: "config_ok g \<Longrightarrow> config_ok (add_pattern_location v g)"
  using split_name_no_space [of v]
  by (cases "split_name v") (auto simp: add_pattern_location_def Let_def intro!: config_ok_pushed(2) split: option.splits)

lemma add_value_ok: "add_value v g = Inr g' \<Longrightarrow> config_ok g \<Longrightarrow> config_ok g'"
  using word_or_empty_no_space [of "snd (word_or_empty v)"]
  by (cases "word_or_empty v"; cases "word_or_empty (snd (word_or_empty v))")
    (auto simp: add_value_def Let_def intro!: config_ok_pushed(3) split: option.splits)

lemma ltl_add_formula: "CHR ''@'' \<notin> set (ltl (add_formula v mp))"
proof -
  let ?s = "erase v 0 (find_first_not_of v ws_chars 0)"
  show ?thesis
  proof (cases "find_str ?s ''@'' 0")
    case None
    then show ?thesis using find_str_None [of 0 ?s "CHR ''@''"] by (simp add: add_formula_def Let_def)
  next
    case (Some k)
    then show ?thesis using find_str_split(2) [OF Some] by (simp add: add_formula_def Let_def substr_def)
  qed
qed

lemma add_formula_keeps: "mp_id (add_formula v mp) = mp_id mp" "clocks (add_formula v mp) = clocks mp"
  by (simp_all add: add_formula_def Let_def split: option.splits)

lemma new_formula_ok:
  assumes "config_ok g"
  shows "keeps (new_formula r g)"
proof (cases "get_line r")
  case None
  then show ?thesis using config_ok_pushed(4) [OF assms, of "fst (monitor_params_ctor (num_monitors g))"]
    by (simp add: keeps_def new_formula_def monitor_params_ctor_def add_mp_def)
next
  case (Some x)
  then show ?thesis
    using config_ok_pushed(4) [OF assms, of "add_formula (fst x) (fst (monitor_params_ctor (num_monitors g)))"]
    by (cases x) (simp add: keeps_def new_formula_def monitor_params_ctor_def add_mp_def ltl_add_formula add_formula_keeps)
qed

lemma config_ok_set:
  assumes "config_ok g"
  shows "config_ok (set_verbosity n g)" "config_ok (set_output_file v g)" "config_ok (set_header_output_file v g)"
    "config_ok (set_projectfile v g)" "config_ok (set_modelcontent v g)" "config_ok (set_write_to_file v g)"
    "config_ok (set_plasma_project_only v g)" "config_ok (set_timeresolution v g)"
    "config_ok (g\<lparr>systemc_home := v\<rparr>)" "config_ok (g\<lparr>scratch := v\<rparr>)" "config_ok (g\<lparr>projectname := v\<rparr>)"
    "config_ok (g\<lparr>modelname := v\<rparr>)" "config_ok (g\<lparr>output_file := v\<rparr>)" "config_ok (g\<lparr>header_output_file := v\<rparr>)"
    "config_ok (g\<lparr>user_objects := sset_insert v (user_objects g)\<rparr>)"
    "config_ok (g\<lparr>includefiles := sset_insert v (includefiles g)\<rparr>)"
  using assms
  by (simp_all add: config_ok_defs set_verbosity_def set_output_file_def set_header_output_file_def set_projectfile_def
      set_modelcontent_def set_write_to_file_def set_plasma_project_only_def set_timeresolution_def parse_clocks_def
      clock_loop_ok Let_def split: option.split)

lemma config_ok_named:
  assumes "config_ok g" "no_space k"
  shows "config_ok (g\<lparr>mon_name := k\<rparr>)" "config_ok (g\<lparr>all_objects := ssmap_update k v (all_objects g)\<rparr>)"
    "config_ok (g\<lparr>all_attributelabels := ssmap_update k v (all_attributelabels g)\<rparr>)"
    "config_ok (g\<lparr>all_attributetypes := ssmap_update k v (all_attributetypes g)\<rparr>)"
    "config_ok (g\<lparr>all_eventclocklabels := ssmap_update k v (all_eventclocklabels g)\<rparr>)"
  using assms by (simp_all add: config_ok_defs)

lemma config_line_keeps: "config_ok g \<Longrightarrow> keeps (config_line n p r g)"
  unfolding config_line_def
  by (intro keeps_if keeps_shapes new_formula_ok)
    (auto intro: config_ok_set config_ok_named add_pattern_location_ok dest: add_location_ok add_value_ok)

lemma parse_config_file_ok: "parse_config_file n s g = Inr g' \<Longrightarrow> config_ok g \<Longrightarrow> config_ok g'"
proof (induction n s g rule: parse_config_file.induct)
  case (1 n s g)
  show ?case
  proof (cases "read_word s")
    case (Some x)
    obtain p r where x: "x = (p, r)" by fastforce
    show ?thesis
    proof (cases "config_line n p r g")
      case (Inr y)
      obtain r1 g1 where y: "y = (r1, g1)" by fastforce
      have "config_ok g1" using config_line_keeps [OF 1(3), of n p r] Inr y by (simp add: keeps_def)
      moreover have "parse_config_file n r1 g1 = Inr g'"
        using 1(2) Some x Inr y by (simp add: parse_config_file.simps [of n s])
      ultimately show ?thesis using 1(1) [OF Some x [symmetric] Inr y [symmetric]] by simp
    qed (use 1(2) Some x in \<open>simp add: parse_config_file.simps [of n s]\<close>)
  qed (use 1(2,3) in \<open>simp add: parse_config_file.simps [of n s]\<close>)
qed

lemma parse_command_line_ok: "parse_command_line as g = Inr g' \<Longrightarrow> config_ok g \<Longrightarrow> config_ok g'"
proof (induction as g rule: parse_command_line.induct)
  case (3 a v as g)
  have "config_ok (set_option_value a v g)"
    using 3(3) by (simp add: set_option_value_def config_ok_set)
  with 3 show ?case by simp
qed (auto split: if_splits)

lemma default_ok: "config_ok (default_params\<lparr>conf_file := c\<rparr>)"
  by (simp add: config_ok_defs default_params_def no_space_def is_space_def ws_chars_def)

lemma sanity_checks_ok:
  "sanity_checks g = Inr g' \<Longrightarrow> config_ok g \<Longrightarrow> config_ok g' \<and> output_file g' \<noteq> [] \<and> header_output_file g' \<noteq> [] \<and>
     length (all_attributelabels g') = length (all_attributetypes g')"
  by (auto simp: sanity_checks_def config_ok_set split: if_splits option.splits)

text \<open>
  C38. Every configuration that the program accepts, from whatever command line and file, is
  well-formed: the sets and maps are ordered and without duplicates, the names of the monitor, its variables and locations
  contain no white space, monitors are numbered from 0 in the order of the file and their
  formulas contain no @, both output files have names, and there are as many attributes as
  attribute types.\<close>

theorem configuration_well_formed:
  assumes "global_params_ctor files args = Inr g"
  shows "config_ok g \<and> output_file g \<noteq> [] \<and> header_output_file g \<noteq> [] \<and>
    length (all_attributelabels g) = length (all_attributetypes g)"
proof -
  obtain c where c: "conf_option args (conf_file default_params) = Inr c"
    using assms by (auto simp: global_params_ctor_def split: if_splits sum.splits)
  let ?g = "default_params\<lparr>conf_file := c\<rparr>"
  obtain g1 where g1: "(if c = [] then Inr ?g
      else case files c of None \<Rightarrow> Inl (Exit 1) | Some text \<Rightarrow> parse_config_file (length text) text ?g) = Inr g1"
    using assms c by (auto simp: global_params_ctor_def Let_def split: if_splits sum.splits option.splits)
  have ok: "config_ok g1" using g1 default_ok parse_config_file_ok by (auto split: if_splits option.splits)
  obtain g2 where g2: "parse_command_line args g1 = Inr g2" "sanity_checks g2 = Inr g"
    using assms c g1 by (simp add: global_params_ctor_def Let_def split: if_splits sum.splits)
  show ?thesis using sanity_checks_ok [OF g2(2) parse_command_line_ok [OF g2(1) ok]] .
qed

theorem configuration_well_formed_witness:
  "\<exists>g. global_params_ctor (\<lambda>_. Some []) [''-output_file'', ''x.cc''] = Inr g \<and> config_ok g \<and> output_file g \<noteq> [] \<and>
     header_output_file g \<noteq> [] \<and> length (all_attributelabels g) = length (all_attributetypes g)"
proof -
  have "\<exists>g. global_params_ctor (\<lambda>_. Some []) [''-output_file'', ''x.cc''] = Inr g"
    by (simp add: global_params_ctor_def default_params_def parse_config_file.simps read_word_def case_eq_def to_upper_def
        is_lower_def set_option_value_def sanity_checks_def char_of_eq_iff take_bit_eq_mod Let_def split: option.split)
  then show ?thesis using configuration_well_formed by blast
qed

section \<open>The files that are written\<close>

definition includes_ok :: "global_params \<Rightarrow> bool" where
  "includes_ok g \<longleftrightarrow> (\<forall>f\<in>set (includefiles g). CHR ''<'' \<in> set f \<longrightarrow> CHR ''>'' \<in> set f)"

lemma includes_to_stream_None: "includefiles_to_stream fs = None \<longleftrightarrow> (\<exists>f\<in>set fs. CHR ''<'' \<in> set f \<and> CHR ''>'' \<notin> set f)"
  by (induction fs) auto

lemma attribute_loop_None: "attribute_loop types n i as = None \<longleftrightarrow> (\<exists>a\<in>set as. map_of types (fst a) = None)"
proof (induction "as" arbitrary: i)
  case (Cons a as)
  then show ?case by (cases a) (auto split: option.split)
qed simp

lemma step_footer_None: "step_footer g mp = None \<longleftrightarrow> \<not> typed g"
  by (auto simp: step_footer_def Let_def trace_attributes_def attribute_loop_None typed_def logs_something_def)

lemma unique_name_free: "get_unique_file_name exists rnd dir p e = Some f \<Longrightarrow> \<not> exists f"
proof -
  have "unique_loop exists rnd k base e t = Some f \<Longrightarrow> \<not> exists f" for k base t
    by (rule unique_loop.raw_induct [where P = "\<lambda>ex rnd k base e t f. \<not> ex f"]) (assumption | simp split: if_splits; blast)+
  then show "get_unique_file_name exists rnd dir p e = Some f \<Longrightarrow> \<not> exists f"
    by (simp add: get_unique_file_name_def Let_def)
qed

lemma with_clocks_simps [simp]:
  "includefiles (with_clocks g) = includefiles g" "typed (with_clocks g) = typed g" "aspects_needed (with_clocks g) = aspects_needed g"
  "patterns_needed (with_clocks g) = patterns_needed g" "output_file (with_clocks g) = output_file g"
  "header_output_file (with_clocks g) = header_output_file g" "projectfile (with_clocks g) = projectfile g"
  "all_monitors (with_clocks g) = [] \<longleftrightarrow> all_monitors g = []"
  by (simp_all add: with_clocks_def typed_def aspects_needed_def patterns_needed_def)

lemma generate_monitors_ok:
  "(\<exists>x. generate_monitors addr g = Inr x) \<longleftrightarrow> includes_ok g \<and> (all_monitors g = [] \<or> typed g)"
proof (cases "includefiles_to_stream (includefiles g)")
  case None
  then show ?thesis using includes_to_stream_None [of "includefiles g"] by (simp add: generate_monitors_def includes_ok_def Let_def)
next
  case (Some incs)
  then have "includes_ok g" using includes_to_stream_None [of "includefiles g"] by (auto simp: includes_ok_def)
  moreover have "(\<exists>x. generate_monitors addr g = Inr x) \<longleftrightarrow>
      (case mpset_begin addr (all_monitors g) of None \<Rightarrow> True | Some mp \<Rightarrow> step_footer g mp \<noteq> None)"
    using Some by (auto simp: generate_monitors_def trace_generation_def step_text_def Let_def split: option.split)
  ultimately show ?thesis
    using mpset_begin_None [of addr "all_monitors g"] step_footer_None [of g] by (auto split: option.splits)
qed

text \<open>
  C36. When the configuration asks for more than the project file and the run ends, it is
  successful exactly when each include that begins with \<open><\<close> is closed and each attribute has a
  type (or there is no formula), and then it has written the two monitor files, an aspect file
  exactly when there is something to instrument, a script exactly when there are pattern
  locations, under names that were free, and the project file.\<close>

theorem main_writes_files:
  assumes "global_params_ctor files args = Inr g" "\<not> plasma_project_only g" "mag_main addr exists rnd files args = Some r"
  shows "((\<exists>fs. r = Inr fs) \<longleftrightarrow> includes_ok g \<and> (all_monitors g = [] \<or> typed g)) \<and>
    (\<forall>fs. r = Inr fs \<longrightarrow> (\<exists>as ps. map fst fs = [output_file g, header_output_file g] @ as @ ps @ [c_str (projectfile g)] \<and>
       length as = (if aspects_needed g then 1 else 0) \<and> length ps = (if patterns_needed g then 1 else 0) \<and>
       (\<forall>f\<in>set (as @ ps). \<not> exists f)))"
proof -
  let ?g = "with_clocks g"
  have r: "write_files addr exists rnd ?g = Some r" using assms by (simp add: mag_main_def)
  have ok: "includes_ok ?g = includes_ok g" by (simp add: includes_ok_def)
  show ?thesis
  proof (cases "generate_monitors addr ?g")
    case (Inl e)
    then have "\<not> (\<exists>x. generate_monitors addr ?g = Inr x)" by simp
    then show ?thesis using r Inl unfolding generate_monitors_ok ok by (auto simp: write_files_def)
  next
    case (Inr x)
    then have "includes_ok g \<and> (all_monitors g = [] \<or> typed g)" using generate_monitors_ok [of addr ?g] ok by simp
    moreover obtain aspects patterns cc h where f: "generate_aspect_file exists rnd addr ?g = Some aspects"
        "generate_patterns_file exists rnd addr ?g = Some patterns"
        "r = Inr ([(output_file g, cc), (header_output_file g, h)] @ aspects @ patterns @ [generate_plasma_file addr ?g])"
      using r Inr by (cases x) (auto simp: write_files_def split: option.splits)
    moreover have "length aspects = (if aspects_needed g then 1 else 0) \<and> (\<forall>a\<in>set (map fst aspects). \<not> exists a)"
      using f(1) unique_name_free [of exists rnd "output_directory ?g"] by (auto simp: generate_aspect_file_def split: if_splits)
    moreover have "length patterns = (if patterns_needed g then 1 else 0) \<and> (\<forall>a\<in>set (map fst patterns). \<not> exists a)"
      using f(2) unique_name_free [of exists rnd "output_directory ?g"] by (auto simp: generate_patterns_file_def split: if_splits)
    moreover have "fst (generate_plasma_file addr ?g) = c_str (projectfile g)" by (simp add: generate_plasma_file_def)
    ultimately have w: "length (map fst aspects) = (if aspects_needed g then 1 else 0)"
      "length (map fst patterns) = (if patterns_needed g then 1 else 0)" "\<forall>f\<in>set (map fst aspects @ map fst patterns). \<not> exists f"
      "r = Inr fs \<Longrightarrow> map fst fs = [output_file g, header_output_file g] @ map fst aspects @ map fst patterns @ [c_str (projectfile g)]"
      "includes_ok g \<and> (all_monitors g = [] \<or> typed g)" "\<exists>fs. r = Inr fs" for fs by auto
    then show ?thesis by blast
  qed
qed

lemma default_run:
  "global_params_ctor (\<lambda>_. Some []) [] = Inr (default_params\<lparr>header_output_file := ''monitor.h''\<rparr>)"
proof -
  have "find_last_of ''monitor.cc'' ''.'' = Some 7" by (simp add: find_last_of_def find_last_def)
  then show ?thesis
    by (simp add: global_params_ctor_def default_params_def parse_config_file.simps read_word_def sanity_checks_def substr_def Let_def)
qed

theorem main_writes_files_witness:
  "\<exists>fs. mag_main (\<lambda>k. k) (\<lambda>_. False) (\<lambda>_. []) (\<lambda>_. Some []) [] = Some (Inr fs) \<and>
     map fst fs = [''monitor.cc'', ''monitor.h'', ''test.plasma'']"
proof -
  let ?g = "default_params\<lparr>header_output_file := ''monitor.h''\<rparr>"
  have not_only: "\<not> plasma_project_only ?g" by (simp add: default_params_def)
  have needed: "\<not> aspects_needed ?g" "\<not> patterns_needed ?g" "includes_ok ?g" "all_monitors ?g = []"
    by (simp_all add: aspects_needed_def patterns_needed_def includes_ok_def default_params_def)
  then obtain x where "generate_monitors (\<lambda>k. k) (with_clocks ?g) = Inr x"
    using generate_monitors_ok [of "\<lambda>k. k" "with_clocks ?g"] by (auto simp: includes_ok_def)
  then obtain r where r: "mag_main (\<lambda>k. k) (\<lambda>_. False) (\<lambda>_. []) (\<lambda>_. Some []) [] = Some r"
    using needed default_run not_only
    by (cases x) (simp add: mag_main_def write_files_def generate_aspect_file_def generate_patterns_file_def)
  have "output_file ?g = ''monitor.cc''" "header_output_file ?g = ''monitor.h''" "c_str (projectfile ?g) = ''test.plasma''"
    by (simp_all add: default_params_def c_str_def)
  with main_writes_files [OF default_run not_only r] needed r show ?thesis by fastforce
qed

end
