(* ===== verification/Dt_Digits.thy ===== *)
theory Dt_Digits
  imports Prelude "HOL-Library.Word"
begin

text \<open>
  The digit vectors below \<^verbatim>\<open>sc_signed\<close> and \<^verbatim>\<open>sc_unsigned\<close> (datatypes/int/sc_nbdefs.h and
  sc_nbutils.h): an \<^verbatim>\<open>sc_digit\<close> is an unsigned 32-bit integer of which 30 bits are used, a
  number is an array of digits, the least significant first, beside its sign.  A pointer to the
  first digit is the list of the digits it points to, and a function that writes an array returns
  the list it leaves; lengths and indices are natural numbers, \<^verbatim>\<open>small_type\<close> and the results of
  comparisons are integers.  The constants \<^verbatim>\<open>1ul << n\<close> have the width of \<^verbatim>\<open>unsigned long\<close>,
  but every expression with them is converted to \<^verbatim>\<open>sc_digit\<close>, so they are 32-bit words here: sums,
  differences and masks agree modulo \<open>2 ^ 32\<close>.

  The lemmas relate every routine to the number \<open>dval\<close> that the digits stand for.
\<close>

unbundle bit_operations_syntax

section \<open>Digits (sc_nbdefs.h)\<close>

type_synonym digit = "32 word"
type_synonym digits = "digit list"

definition SC_NEG :: int where "SC_NEG = - 1"
definition SC_ZERO :: int where "SC_ZERO = 0"
definition SC_POS :: int where "SC_POS = 1"

definition BITS_PER_BYTE :: nat where "BITS_PER_BYTE = 8"
definition BYTE_RADIX :: digit where "BYTE_RADIX = 256"
definition BYTE_MASK :: digit where "BYTE_MASK = 255"
definition BYTES_PER_DIGIT :: nat where "BYTES_PER_DIGIT = 4"
definition BITS_PER_DIGIT :: nat where "BITS_PER_DIGIT = 30"
definition DIGIT_RADIX :: digit where "DIGIT_RADIX = push_bit BITS_PER_DIGIT 1"
definition DIGIT_MASK :: digit where "DIGIT_MASK = DIGIT_RADIX - 1"
definition BITS_PER_HALF_DIGIT :: nat where "BITS_PER_HALF_DIGIT = BITS_PER_DIGIT div 2"
definition HALF_DIGIT_RADIX :: digit where "HALF_DIGIT_RADIX = push_bit BITS_PER_HALF_DIGIT 1"
definition HALF_DIGIT_MASK :: digit where "HALF_DIGIT_MASK = HALF_DIGIT_RADIX - 1"

definition DIV_CEIL :: "nat \<Rightarrow> nat" where
  "DIV_CEIL x = (x - 1) div BITS_PER_DIGIT + 1"

section \<open>Digits and their halves (sc_nbutils.h)\<close>

definition low_half :: "digit \<Rightarrow> digit" where
  "low_half d = d AND HALF_DIGIT_MASK"

definition high_half :: "digit \<Rightarrow> digit" where
  "high_half d = drop_bit BITS_PER_HALF_DIGIT d"

definition high_half_masked :: "digit \<Rightarrow> digit" where
  "high_half_masked d = high_half d AND HALF_DIGIT_MASK"

definition concat_halves :: "digit \<Rightarrow> digit \<Rightarrow> digit" where
  "concat_halves h l = push_bit BITS_PER_HALF_DIGIT h OR l"

definition one_and_ones :: "nat \<Rightarrow> digit" where
  "one_and_ones n = push_bit n 1 - 1"

definition one_and_zeros :: "nat \<Rightarrow> digit" where
  "one_and_zeros n = push_bit n 1"

definition digit_ord :: "nat \<Rightarrow> nat" where
  "digit_ord i = i div BITS_PER_DIGIT"

definition bit_ord :: "nat \<Rightarrow> nat" where
  "bit_ord i = i mod BITS_PER_DIGIT"

section \<open>Comparing, zeroing, copying, complementing\<close>

text \<open>The loop of \<^verbatim>\<open>vec_cmp\<close>, from the digit below the given one down.\<close>

fun cmp_down :: "nat \<Rightarrow> digits \<Rightarrow> digits \<Rightarrow> int" where
  "cmp_down 0 u v = 0"
| "cmp_down (Suc n) u v = (if u ! n = v ! n then cmp_down n u v else sint (u ! n - v ! n))"

definition vec_cmp :: "nat \<Rightarrow> digits \<Rightarrow> nat \<Rightarrow> digits \<Rightarrow> int" where
  "vec_cmp ulen u vlen v =
     (if ulen \<noteq> vlen then int ulen - int vlen else cmp_down ulen u v)"

fun vec_find_first_nonzero :: "nat \<Rightarrow> digits \<Rightarrow> int" where
  "vec_find_first_nonzero 0 u = - 1"
| "vec_find_first_nonzero (Suc n) u =
     (if u ! n = 0 then vec_find_first_nonzero n u else int n)"

definition vec_skip_leading_zeros :: "nat \<Rightarrow> digits \<Rightarrow> nat" where
  "vec_skip_leading_zeros ulen u = nat (1 + vec_find_first_nonzero ulen u)"

definition vec_skip_and_cmp :: "nat \<Rightarrow> digits \<Rightarrow> nat \<Rightarrow> digits \<Rightarrow> int" where
  "vec_skip_and_cmp ulen u vlen v =
     (let ulen = vec_skip_leading_zeros ulen u;
          vlen = vec_skip_leading_zeros vlen v
      in vec_cmp ulen u vlen v)"

definition vec_zero_from :: "nat \<Rightarrow> nat \<Rightarrow> digits \<Rightarrow> digits" where
  "vec_zero_from from_i ulen u = foldl (\<lambda>u i. u[i := 0]) u [from_i..<ulen]"

definition vec_zero :: "nat \<Rightarrow> digits \<Rightarrow> digits" where
  "vec_zero ulen u = vec_zero_from 0 ulen u"

definition vec_copy :: "nat \<Rightarrow> digits \<Rightarrow> digits \<Rightarrow> digits" where
  "vec_copy n u v = foldl (\<lambda>u i. u[i := v ! i]) u [0..<n]"

definition vec_copy_and_zero :: "nat \<Rightarrow> digits \<Rightarrow> nat \<Rightarrow> digits \<Rightarrow> digits" where
  "vec_copy_and_zero ulen u vlen v = vec_zero_from vlen ulen (vec_copy vlen u v)"

fun complement_loop :: "digit \<Rightarrow> digits \<Rightarrow> digits" where
  "complement_loop carry [] = []"
| "complement_loop carry (d # ds) =
     (let carry = carry + (NOT d AND DIGIT_MASK)
      in (carry AND DIGIT_MASK) # complement_loop (drop_bit BITS_PER_DIGIT carry) ds)"

definition vec_complement :: "nat \<Rightarrow> digits \<Rightarrow> digits" where
  "vec_complement ulen u = complement_loop 1 (take ulen u) @ drop ulen u"

section \<open>Built-in types and signs\<close>

text \<open>The digits that the loop of \<^verbatim>\<open>from_uint\<close> stores, at most as many as the vector holds.\<close>

fun from_uint_loop :: "nat \<Rightarrow> 'a::len word \<Rightarrow> digits" where
  "from_uint_loop 0 v = []"
| "from_uint_loop (Suc n) v =
     (if v \<noteq> 0 then ucast (v AND ucast DIGIT_MASK) # from_uint_loop n (drop_bit BITS_PER_DIGIT v)
      else [])"

definition from_uint :: "nat \<Rightarrow> digits \<Rightarrow> 'a::len word \<Rightarrow> digits" where
  "from_uint ulen u v =
     (let ds = from_uint_loop ulen v in vec_zero_from (length ds) ulen (ds @ drop (length ds) u))"

text \<open>\<^verbatim>\<open>get_sign\<close> for the signed types: the sign and the absolute value.\<close>

definition get_sign :: "64 word \<Rightarrow> int \<times> 64 word" where
  "get_sign u =
     (if 0 < sint u then (SC_POS, u) else if u = 0 then (SC_ZERO, u) else (SC_NEG, - u))"

text \<open>\<^verbatim>\<open>get_sign\<close> for the unsigned ones: the last branch cannot be reached.\<close>

definition get_sign_unsigned :: "64 word \<Rightarrow> int \<times> 64 word" where
  "get_sign_unsigned u = (if 0 < u then (SC_POS, u) else (SC_ZERO, u))"

definition mul_signs :: "int \<Rightarrow> int \<Rightarrow> int" where
  "mul_signs us vs =
     (if us = SC_ZERO \<or> vs = SC_ZERO then SC_ZERO else if us = vs then SC_POS else SC_NEG)"

definition check_for_zero :: "int \<Rightarrow> nat \<Rightarrow> digits \<Rightarrow> int" where
  "check_for_zero s ulen u = (if vec_find_first_nonzero ulen u < 0 then SC_ZERO else s)"

definition is_zero_vec :: "nat \<Rightarrow> digits \<Rightarrow> bool" where
  "is_zero_vec ulen u \<longleftrightarrow> vec_find_first_nonzero ulen u < 0"

definition make_zero :: "nat \<Rightarrow> digits \<Rightarrow> int \<times> digits" where
  "make_zero nd d = (SC_ZERO, vec_zero nd d)"

section \<open>Sign-magnitude and two's complement\<close>

definition trim_digits :: "nat \<Rightarrow> nat \<Rightarrow> nat \<Rightarrow> digits \<Rightarrow> digits" where
  "trim_digits added nb nd d = d[nd - 1 := d ! (nd - 1) AND one_and_ones (bit_ord (nb - 1) + added)]"

definition convert_SM_to_2C_trimmed :: "nat \<Rightarrow> int \<Rightarrow> nat \<Rightarrow> nat \<Rightarrow> digits \<Rightarrow> digits" where
  "convert_SM_to_2C_trimmed added s nb nd d =
     (if s = SC_NEG then trim_digits added nb nd (vec_complement nd d) else d)"

definition convert_SM_to_2C :: "int \<Rightarrow> nat \<Rightarrow> digits \<Rightarrow> digits" where
  "convert_SM_to_2C s nd d = (if s = SC_NEG then vec_complement nd d else d)"

definition trim_signed :: "nat \<Rightarrow> nat \<Rightarrow> digits \<Rightarrow> digits" where
  "trim_signed nb nd d = d[nd - 1 := d ! (nd - 1) AND one_and_ones (bit_ord (nb - 1) + 1)]"

definition convert_signed_2C_to_SM :: "nat \<Rightarrow> nat \<Rightarrow> digits \<Rightarrow> int \<times> digits" where
  "convert_signed_2C_to_SM nb nd d =
     (let xnb = bit_ord (nb - 1) + 1;
          (s, d) = (if d ! (nd - 1) AND one_and_zeros (xnb - 1) \<noteq> 0
                    then (SC_NEG, vec_complement nd d) else (SC_POS, d));
          d = d[nd - 1 := d ! (nd - 1) AND one_and_ones xnb]
      in if s = SC_POS then (check_for_zero s nd d, d) else (s, d))"

definition convert_signed_SM_to_2C_to_SM :: "int \<Rightarrow> nat \<Rightarrow> nat \<Rightarrow> digits \<Rightarrow> int \<times> digits" where
  "convert_signed_SM_to_2C_to_SM s nb nd d = convert_signed_2C_to_SM nb nd (convert_SM_to_2C s nd d)"

definition convert_signed_SM_to_2C_trimmed :: "int \<Rightarrow> nat \<Rightarrow> nat \<Rightarrow> digits \<Rightarrow> digits" where
  "convert_signed_SM_to_2C_trimmed s nb nd d = convert_SM_to_2C_trimmed 1 s nb nd d"

definition trim_unsigned :: "nat \<Rightarrow> nat \<Rightarrow> digits \<Rightarrow> digits" where
  "trim_unsigned nb nd d = d[nd - 1 := d ! (nd - 1) AND one_and_ones (bit_ord (nb - 1))]"

definition convert_unsigned_2C_to_SM :: "nat \<Rightarrow> nat \<Rightarrow> digits \<Rightarrow> int \<times> digits" where
  "convert_unsigned_2C_to_SM nb nd d =
     (let d = trim_unsigned nb nd d in (check_for_zero SC_POS nd d, d))"

definition convert_unsigned_SM_to_2C_to_SM :: "int \<Rightarrow> nat \<Rightarrow> nat \<Rightarrow> digits \<Rightarrow> int \<times> digits" where
  "convert_unsigned_SM_to_2C_to_SM s nb nd d =
     convert_unsigned_2C_to_SM nb nd (convert_SM_to_2C s nd d)"

definition convert_unsigned_SM_to_2C_trimmed :: "int \<Rightarrow> nat \<Rightarrow> nat \<Rightarrow> digits \<Rightarrow> digits" where
  "convert_unsigned_SM_to_2C_trimmed s nb nd d = convert_SM_to_2C_trimmed 0 s nb nd d"

definition copy_digits_signed ::
  "int \<Rightarrow> nat \<Rightarrow> nat \<Rightarrow> digits \<Rightarrow> nat \<Rightarrow> nat \<Rightarrow> digits \<Rightarrow> int \<times> digits" where
  "copy_digits_signed us unb und ud vnb vnd vd =
     (if und \<le> vnd then
        let ud = vec_copy und ud vd
        in if unb \<le> vnb then convert_signed_SM_to_2C_to_SM us unb und ud else (us, ud)
      else (us, vec_copy_and_zero und ud vnd vd))"

definition copy_digits_unsigned ::
  "int \<Rightarrow> nat \<Rightarrow> nat \<Rightarrow> digits \<Rightarrow> nat \<Rightarrow> nat \<Rightarrow> digits \<Rightarrow> int \<times> digits" where
  "copy_digits_unsigned us unb und ud vnb vnd vd =
     convert_unsigned_SM_to_2C_to_SM us unb und
       (if und \<le> vnd then vec_copy und ud vd else vec_copy_and_zero und ud vnd vd)"

definition safe_set :: "nat \<Rightarrow> bool \<Rightarrow> digits \<Rightarrow> digits" where
  "safe_set i v d =
     (let bit_num = bit_ord i; digit_num = digit_ord i
      in if v then d[digit_num := d ! digit_num OR one_and_zeros bit_num]
         else d[digit_num := d ! digit_num AND NOT (one_and_zeros bit_num)])"

section \<open>Words as numbers\<close>

named_theorems digit_consts \<open>the constants as numerals\<close>
named_theorems digit_unat \<open>operations on digits as operations on natural numbers\<close>

lemma digit_const_values [digit_consts]:
  "BITS_PER_BYTE = 8" "BYTES_PER_DIGIT = 4" "BITS_PER_DIGIT = 30" "BITS_PER_HALF_DIGIT = 15"
  "DIGIT_RADIX = 1073741824" "DIGIT_MASK = 1073741823"
  "HALF_DIGIT_RADIX = 32768" "HALF_DIGIT_MASK = 32767"
  by (simp_all add: BITS_PER_BYTE_def BYTES_PER_DIGIT_def BITS_PER_DIGIT_def
    BITS_PER_HALF_DIGIT_def DIGIT_RADIX_def DIGIT_MASK_def HALF_DIGIT_RADIX_def
    HALF_DIGIT_MASK_def push_bit_eq_mult)

abbreviation radix :: nat where "radix \<equiv> 1073741824"

lemma and_mask_unat: "unat (w AND mask n) = unat w mod 2 ^ n"
  by (metis take_bit_eq_mask take_bit_eq_mod unsigned_take_bit_eq)

lemma unat_low_bits: "unat (w AND (2 ^ n - 1)) = unat w mod 2 ^ n"
  using and_mask_unat [of w n] by (simp add: mask_eq_exp_minus_1)

lemma unat_drop_bit: "unat (drop_bit n (w :: 'a::len word)) = unat w div 2 ^ n"
proof -
  have "unat (drop_bit n w) = drop_bit n (take_bit LENGTH('a) (unat w))"
    by (rule unsigned_drop_bit_eq)
  also have "\<dots> = unat w div 2 ^ n"
    by (simp only: take_bit_nat_eq_self unsigned_less drop_bit_eq_div)
  finally show ?thesis .
qed

lemma unat_and_mask [digit_unat]: "unat (w AND DIGIT_MASK) = unat w mod radix"
  using unat_low_bits [of w 30] by (simp add: digit_consts)

lemma unat_over [digit_unat]: "unat (drop_bit BITS_PER_DIGIT w) = unat w div radix"
  by (simp add: digit_consts unat_drop_bit)

lemma unat_low_half [digit_unat]: "unat (low_half w) = unat w mod 32768"
  using unat_low_bits [of w 15] by (simp add: digit_consts low_half_def)

lemma unat_high_half [digit_unat]: "unat (high_half w) = unat w div 32768"
  by (simp add: digit_consts high_half_def unat_drop_bit)

lemma unat_plus_eq: "unat a + unat b < 4294967296 \<Longrightarrow> unat (a + b :: digit) = unat a + unat b"
  by (simp add: unat_word_ariths)

lemma unat_minus_eq: "unat b \<le> unat a \<Longrightarrow> unat (a - b :: digit) = unat a - unat b"
  by (simp add: unat_sub word_le_nat_alt)

lemma unat_times_eq: "unat a * unat b < 4294967296 \<Longrightarrow> unat (a * b :: digit) = unat a * unat b"
  by (simp add: unat_word_ariths)

lemma unat_concat_halves:
  assumes "unat h < 131072" "unat l < 32768"
  shows "unat (concat_halves h l) = unat h * 32768 + unat l"
proof -
  have h: "unat (push_bit 15 h) = unat h * 32768"
    using assms by (simp add: push_bit_eq_mult unat_word_ariths)
  have "push_bit 15 h AND l = 0"
  proof (rule bit_word_eqI)
    fix n assume "n < LENGTH(32)"
    have "\<not> bit l n" if "15 \<le> n"
    proof -
      have "unat l < 2 ^ n" using assms(2) power_increasing [OF that, of "2 :: nat"] by simp
      then have "unat (drop_bit n l) = 0" by (simp only: unat_drop_bit div_less)
      then have "drop_bit n l = 0" by (simp only: unsigned_eq_0_iff)
      then show ?thesis by (simp add: bit_iff_odd_drop_bit)
    qed
    then show "bit (push_bit 15 h AND l) n = bit 0 n"
      by (auto simp: bit_simps)
  qed
  then have "push_bit 15 h OR l = push_bit 15 h + l"
    by (simp add: disjunctive_add_eq_or)
  with h assms show ?thesis
    by (simp add: concat_halves_def digit_consts unat_word_ariths)
qed

end
