(* ===== verification/Dt_Value.thy ===== *)
theory Dt_Value
  imports Dt_Digits
begin

text \<open>
  The number that a digit vector stands for, and what the routines of
  datatypes/int/sc_nbutils.h (comparing, zeroing, copying, complementing, trimming, converting
  between sign-magnitude and two's complement) do to it.
\<close>

section \<open>The value of a vector\<close>

fun dval :: "digits \<Rightarrow> nat" where
  "dval [] = 0"
| "dval (d # ds) = unat d + radix * dval ds"

text \<open>No overflow bits: every digit uses 30 bits at most.\<close>

definition digits_ok :: "digits \<Rightarrow> bool" where
  "digits_ok ds \<longleftrightarrow> (\<forall>d \<in> set ds. unat d < radix)"

text \<open>A sign and a magnitude as an integer.\<close>

definition smval :: "int \<Rightarrow> digits \<Rightarrow> int" where
  "smval s d = (if s = SC_NEG then - int (dval d) else int (dval d))"

lemma digits_ok_simps [simp]:
  "digits_ok []"
  "digits_ok (d # ds) \<longleftrightarrow> unat d < radix \<and> digits_ok ds"
  "digits_ok (xs @ ys) \<longleftrightarrow> digits_ok xs \<and> digits_ok ys"
  "digits_ok (replicate n 0)"
  by (auto simp: digits_ok_def)

lemma digits_ok_parts [simp]:
  assumes "digits_ok ds"
  shows "digits_ok (take n ds)" "digits_ok (drop n ds)"
  using assms by (auto simp: digits_ok_def dest: in_set_takeD in_set_dropD)

lemma digits_ok_nth: "digits_ok ds \<Longrightarrow> i < length ds \<Longrightarrow> unat (ds ! i) < radix"
  by (auto simp: digits_ok_def)

lemma digits_ok_update: "digits_ok ds \<Longrightarrow> unat d < radix \<Longrightarrow> digits_ok (ds[i := d])"
  by (auto simp: digits_ok_def dest!: subsetD [OF set_update_subset_insert])

lemma dval_append [simp]: "dval (xs @ ys) = dval xs + radix ^ length xs * dval ys"
  by (induction xs) (auto simp: algebra_simps)

lemma dval_zeros [simp]: "dval (replicate n 0) = 0"
  by (induction n) auto

lemma dval_zero_iff: "dval ds = 0 \<longleftrightarrow> (\<forall>d \<in> set ds. d = 0)"
  by (induction ds) (auto simp: unsigned_eq_0_iff)

lemma dval_less: "digits_ok ds \<Longrightarrow> dval ds < radix ^ length ds"
proof (induction ds)
  case (Cons d ds)
  then have "dval ds + 1 \<le> radix ^ length ds" and "unat d < radix" by auto
  then have "radix * (dval ds + 1) \<le> radix * radix ^ length ds" and "unat d < radix"
    using mult_le_mono2 by blast+
  then show ?case by simp
qed simp

lemma dval_take_drop: "dval ds = dval (take n ds) + radix ^ n * dval (drop n ds)" if "n \<le> length ds"
  using dval_append [of "take n ds" "drop n ds"] that by (simp add: min_absorb2)

lemma dval_take: "digits_ok ds \<Longrightarrow> dval (take n ds) = dval ds mod radix ^ n"
proof (cases "n \<le> length ds")
  case True
  assume "digits_ok ds"
  then have "dval (take n ds) < radix ^ n" using dval_less [of "take n ds"] True by simp
  with dval_take_drop [OF True] show ?thesis by simp
next
  case False
  assume "digits_ok ds"
  then have "dval ds < radix ^ length ds" by (rule dval_less)
  also have "\<dots> \<le> radix ^ n" using False by (intro power_increasing) auto
  finally show ?thesis using False by simp
qed

lemma radix_power: "radix ^ n = 2 ^ (30 * n)"
  by (simp add: power_mult)

lemma dval_snoc: "dval (take (Suc n) ds) = dval (take n ds) + radix ^ n * unat (ds ! n)"
  if "n < length ds"
  using that by (simp add: take_Suc_conv_app_nth)

section \<open>Zeroing and copying\<close>

lemma foldl_update:
  "m \<le> n \<Longrightarrow> n \<le> length u \<Longrightarrow>
     foldl (\<lambda>u i. u[i := f i]) u [m..<n] = take m u @ map f [m..<n] @ drop n u"
proof (induction n)
  case (Suc n)
  show ?case
  proof (cases "m = Suc n")
    case False
    with Suc.prems have "m \<le> n" by simp
    with Suc have "foldl (\<lambda>u i. u[i := f i]) u [m..<n] = take m u @ map f [m..<n] @ drop n u"
      by simp
    with \<open>m \<le> n\<close> Suc.prems show ?thesis
      by (simp add: list_update_append min_absorb2 drop_update_swap Cons_nth_drop_Suc [symmetric]
          del: Cons_nth_drop_Suc)
  qed simp
qed simp

lemma vec_zero_from_eq:
  "m \<le> n \<Longrightarrow> n \<le> length u \<Longrightarrow> vec_zero_from m n u = take m u @ replicate (n - m) 0 @ drop n u"
  by (simp add: vec_zero_from_def foldl_update map_replicate_const)

lemma vec_zero_eq: "n \<le> length u \<Longrightarrow> vec_zero n u = replicate n 0 @ drop n u"
  by (simp add: vec_zero_def vec_zero_from_eq)

lemma vec_copy_eq: "n \<le> length u \<Longrightarrow> n \<le> length v \<Longrightarrow> vec_copy n u v = take n v @ drop n u"
  unfolding vec_copy_def
  by (subst foldl_update) (auto intro: nth_equalityI)

lemma vec_copy_and_zero_eq:
  "m \<le> n \<Longrightarrow> n \<le> length u \<Longrightarrow> m \<le> length v \<Longrightarrow>
     vec_copy_and_zero n u m v = take m v @ replicate (n - m) 0 @ drop n u"
  by (simp add: vec_copy_and_zero_def vec_copy_eq vec_zero_from_eq min_absorb2)

section \<open>Complementing\<close>

lemma unat_not: "unat (NOT d :: digit) = 4294967295 - unat d"
proof -
  have "NOT d = 4294967295 - d" by (simp add: not_eq_complement)
  moreover have "unat d < 2 ^ LENGTH(32)" by (rule unsigned_less)
  then have "unat d \<le> unat (4294967295 :: digit)" by simp
  ultimately show ?thesis by (simp add: unat_minus_eq)
qed

lemma unat_not_mask: "unat d < radix \<Longrightarrow> unat (NOT d AND DIGIT_MASK) = radix - 1 - unat d"
proof -
  assume "unat d < radix"
  then have "4294967295 - unat d = 3 * radix + (radix - 1 - unat d)" by simp
  then have "(4294967295 - unat d) mod radix = (radix - 1 - unat d) mod radix"
    by (simp only: mod_mult_self3)
  with \<open>unat d < radix\<close> show ?thesis by (simp add: unat_and_mask unat_not)
qed

lemma digit_step_mod: "(x + r * y) mod (r * k) = x mod r + r * ((x div r + y) mod k)" for r :: nat
proof (cases "r = 0")
  case False
  then have "(x + r * y) div r = x div r + y" by simp
  then show ?thesis by (simp add: mod_mult2_eq)
qed simp

lemma complement_loop_length [simp]: "length (complement_loop c ds) = length ds"
  by (induction c ds rule: complement_loop.induct) (simp_all add: Let_def)

lemma digits_ok_complement_loop [simp]: "digits_ok (complement_loop c ds)"
  by (induction c ds rule: complement_loop.induct) (simp_all add: Let_def digit_unat)

lemma dval_complement_loop:
  "digits_ok ds \<Longrightarrow> unat c \<le> 1 \<Longrightarrow>
     dval (complement_loop c ds) = (unat c + (radix ^ length ds - 1 - dval ds)) mod radix ^ length ds"
proof (induction c ds rule: complement_loop.induct)
  case (2 c d ds)
  define c' where "c' = c + (NOT d AND DIGIT_MASK)"
  from 2 have d: "unat d < radix" and ds: "digits_ok ds" by auto
  have c': "unat c' = unat c + (radix - 1 - unat d)"
    unfolding c'_def using 2 d by (subst unat_plus_eq) (auto simp: unat_not_mask)
  have over: "unat (drop_bit BITS_PER_DIGIT c') = unat c' div radix" by (rule unat_over)
  have "unat c' < 2 * radix" using c' 2(3) by linarith
  then have "unat c' div radix < 2" by (simp add: less_mult_imp_div_less)
  then have small: "unat c' div radix \<le> 1" by simp
  have IH: "dval (complement_loop (drop_bit BITS_PER_DIGIT c') ds) =
      (unat c' div radix + (radix ^ length ds - 1 - dval ds)) mod radix ^ length ds"
    using "2.IH" [OF c'_def ds] small over by simp
  have lt: "dval ds < radix ^ length ds" using ds by (rule dval_less)
  have "unat c + (radix ^ length (d # ds) - 1 - dval (d # ds)) =
        unat c' + radix * (radix ^ length ds - 1 - dval ds)"
  proof -
    have "unat d + radix * dval ds + 1 + (radix - 1 - unat d)
        + radix * (radix ^ length ds - 1 - dval ds) = radix * radix ^ length ds"
      using lt d by (simp add: diff_mult_distrib2)
    then show ?thesis using c' by (simp only: dval.simps length_Cons power_Suc) linarith
  qed
  then show ?case
    using IH by (simp add: Let_def digit_step_mod unat_and_mask flip: c'_def)
qed simp

lemma vec_complement_length [simp]: "length (vec_complement n d) = length d"
  by (simp add: vec_complement_def)

lemma digits_ok_vec_complement [simp]: "digits_ok d \<Longrightarrow> digits_ok (vec_complement n d)"
  by (simp add: vec_complement_def)

lemma dval_vec_complement:
  assumes "digits_ok d"
  shows "dval (vec_complement (length d) d) = (radix ^ length d - dval d) mod radix ^ length d"
  using dval_complement_loop [OF assms, of 1] dval_less [OF assms]
  by (simp add: vec_complement_def Suc_diff_Suc)

section \<open>Comparing\<close>

lemma vec_find_first_nonzero_bounds: "- 1 \<le> vec_find_first_nonzero n u" "vec_find_first_nonzero n u < int n"
  by (induction n) auto

lemma skip_Suc:
  "vec_skip_leading_zeros 0 u = 0"
  "vec_skip_leading_zeros (Suc n) u = (if u ! n = 0 then vec_skip_leading_zeros n u else Suc n)"
  by (auto simp: vec_skip_leading_zeros_def)

lemma skip_le: "vec_skip_leading_zeros n u \<le> n"
  by (induction n) (auto simp: skip_Suc)

lemma skip_top: "0 < vec_skip_leading_zeros n u \<Longrightarrow> u ! (vec_skip_leading_zeros n u - 1) \<noteq> 0"
  by (induction n) (auto simp: skip_Suc split: if_splits)

lemma skip_rest: "vec_skip_leading_zeros n u \<le> i \<Longrightarrow> i < n \<Longrightarrow> u ! i = 0"
  by (induction n) (auto simp: skip_Suc less_Suc_eq split: if_splits)

lemma dval_skip: "n \<le> length u \<Longrightarrow> dval (take (vec_skip_leading_zeros n u) u) = dval (take n u)"
  by (induction n) (auto simp: skip_Suc dval_snoc)

lemma skip_zero_iff: "n \<le> length u \<Longrightarrow> vec_skip_leading_zeros n u = 0 \<longleftrightarrow> dval (take n u) = 0"
  by (induction n) (auto simp: skip_Suc dval_snoc unsigned_eq_0_iff)

lemma check_for_zero_eq:
  "n \<le> length u \<Longrightarrow> check_for_zero s n u = (if dval (take n u) = 0 then SC_ZERO else s)"
  using skip_zero_iff [of n u] vec_find_first_nonzero_bounds [where n = n and u = u]
  by (auto simp: check_for_zero_def vec_skip_leading_zeros_def)

lemma sint_diff:
  assumes "unat a < radix" "unat b < radix"
  shows "sint (a - b :: digit) = int (unat a) - int (unat b)"
proof -
  have "a - b = word_of_int (int (unat a) - int (unat b))" by simp
  then have "sint (a - b) = signed_take_bit 31 (int (unat a) - int (unat b))"
    by (simp only: sint_sbintrunc') simp
  also have "\<dots> = int (unat a) - int (unat b)"
  proof (rule signed_take_bit_int_eq_self)
    have p: "(2 :: int) ^ 31 = 2147483648" by simp
    show "- (2 ^ 31) \<le> int (unat a) - int (unat b)" "int (unat a) - int (unat b) < 2 ^ 31"
      unfolding p using assms by linarith+
  qed
  finally show ?thesis .
qed

lemma sint_diff_sign:
  assumes "unat a < unat b" "unat b < radix"
  shows "sint (a - b :: digit) < 0" "0 < sint (b - a)"
  using sint_diff [of a b] sint_diff [of b a] assms by linarith+

lemma sgn_cmp_down:
  "digits_ok u \<Longrightarrow> digits_ok v \<Longrightarrow> n \<le> length u \<Longrightarrow> n \<le> length v \<Longrightarrow>
     sgn (cmp_down n u v) = sgn (int (dval (take n u)) - int (dval (take n v)))"
proof (induction n)
  case (Suc n)
  let ?a = "unat (u ! n)" and ?b = "unat (v ! n)"
  have dig: "?a < radix" "?b < radix" using Suc.prems by (simp_all add: digits_ok_nth)
  have low: "dval (take n u) < radix ^ n" "dval (take n v) < radix ^ n"
    using dval_less [of "take n u"] dval_less [of "take n v"] Suc.prems by simp_all
  have vals: "dval (take (Suc n) u) = dval (take n u) + radix ^ n * ?a"
    "dval (take (Suc n) v) = dval (take n v) + radix ^ n * ?b"
    using Suc.prems by (simp_all add: dval_snoc)
  consider "?a = ?b" | "?a < ?b" | "?b < ?a" by linarith
  then show ?case
  proof cases
    case 1
    then have "u ! n = v ! n" by (rule word_unat_eq_iff [THEN iffD2])
    then show ?thesis using Suc by (simp add: vals)
  next
    case 2
    then have "?a + 1 \<le> ?b" by simp
    then have "radix ^ n * (?a + 1) \<le> radix ^ n * ?b" by (rule mult_le_mono2)
    then have "dval (take (Suc n) u) < dval (take (Suc n) v)" using low by (simp add: vals)
    then show ?thesis using 2 sint_diff_sign [of "u ! n" "v ! n"] dig by auto
  next
    case 3
    then have "?b + 1 \<le> ?a" by simp
    then have "radix ^ n * (?b + 1) \<le> radix ^ n * ?a" by (rule mult_le_mono2)
    then have "dval (take (Suc n) v) < dval (take (Suc n) u)" using low by (simp add: vals)
    then show ?thesis using 3 sint_diff_sign [of "v ! n" "u ! n"] dig by auto
  qed
qed simp

definition normal :: "nat \<Rightarrow> digits \<Rightarrow> bool" where
  "normal n u \<longleftrightarrow> n \<le> length u \<and> (0 < n \<longrightarrow> u ! (n - 1) \<noteq> 0)"

lemma normal_skip [simp]: "n \<le> length u \<Longrightarrow> normal (vec_skip_leading_zeros n u) u"
  using skip_top [of n u] skip_le [of n u] by (auto simp: normal_def)

lemma normal_lower: "normal n u \<Longrightarrow> 0 < n \<Longrightarrow> radix ^ (n - 1) \<le> dval (take n u)"
proof -
  assume a: "normal n u" "0 < n"
  then obtain m where n: "n = Suc m" by (cases n) auto
  with a have "0 < unat (u ! m)" by (simp add: normal_def unat_gt_0)
  then have "radix ^ m * 1 \<le> radix ^ m * unat (u ! m)" by (intro mult_le_mono2) simp
  with a n show ?thesis by (simp add: dval_snoc normal_def trans_le_add2)
qed

lemma normal_length_less:
  assumes "normal m u" "normal n v" "digits_ok u" "m < n"
  shows "dval (take m u) < dval (take n v)"
proof -
  have "dval (take m u) < radix ^ m"
    using assms dval_less [of "take m u"] by (simp add: normal_def)
  also have "\<dots> \<le> radix ^ (n - 1)" using assms by (intro power_increasing) auto
  also have "\<dots> \<le> dval (take n v)" using assms by (intro normal_lower) auto
  finally show ?thesis .
qed

lemma sgn_vec_cmp:
  assumes "normal m u" "normal n v" "digits_ok u" "digits_ok v"
  shows "sgn (vec_cmp m u n v) = sgn (int (dval (take m u)) - int (dval (take n v)))"
proof -
  consider "m = n" | "m < n" | "n < m" by linarith
  then show ?thesis
  proof cases
    case 1
    then show ?thesis using assms by (simp add: vec_cmp_def sgn_cmp_down normal_def)
  next
    case 2
    then show ?thesis using normal_length_less [OF assms(1,2,3)] by (simp add: vec_cmp_def)
  next
    case 3
    then show ?thesis using normal_length_less [OF assms(2,1,4)] by (simp add: vec_cmp_def)
  qed
qed

lemma vec_cmp_eq:
  assumes "normal m u" "normal n v" "digits_ok u" "digits_ok v"
  shows "vec_cmp m u n v = 0 \<longleftrightarrow> dval (take m u) = dval (take n v)"
    "vec_cmp m u n v < 0 \<longleftrightarrow> dval (take m u) < dval (take n v)"
    "0 < vec_cmp m u n v \<longleftrightarrow> dval (take n v) < dval (take m u)"
  using sgn_vec_cmp [OF assms] by (auto simp: sgn_if split: if_splits)

section \<open>Bits of a vector\<close>

lemma bit_dval: "digits_ok ds \<Longrightarrow> bit (dval ds) i \<longleftrightarrow> i div 30 < length ds \<and> bit (ds ! (i div 30)) (i mod 30)"
proof (induction ds arbitrary: i)
  case (Cons d ds)
  have high: "\<not> bit (unat d) j" if "30 \<le> j" for j
  proof -
    have "unat d < 2 ^ 30" using Cons.prems by simp
    also have "(2 :: nat) ^ 30 \<le> 2 ^ j" using that by (intro power_increasing) auto
    finally show ?thesis by (simp add: bit_iff_odd)
  qed
  have "unat d AND push_bit 30 (dval ds) = 0"
    by (rule bit_eqI) (use high in \<open>auto simp: bit_simps\<close>)
  then have "unat d + push_bit 30 (dval ds) = unat d OR push_bit 30 (dval ds)"
    by (rule disjunctive_add_eq_or)
  then have val: "dval (d # ds) = unat d OR push_bit 30 (dval ds)"
    by (simp add: push_bit_eq_mult mult.commute)
  have bitd: "bit (unat d) j = bit d j" if "j < 30" for j
    using that by (simp add: bit_unsigned_iff)
  show ?case
  proof (cases "i < 30")
    case True
    then show ?thesis by (simp add: val bit_simps bitd del: dval.simps)
  next
    case False
    then have "i = i - 30 + 30" by simp
    then obtain k where "i = k + 30" by blast
    then show ?thesis
      using Cons high [of i] by (simp add: val bit_simps div_add_self2 del: dval.simps)
  qed
qed simp

section \<open>Trimming and converting\<close>

lemma one_and_ones_mask: "one_and_ones n = mask n"
  by (simp add: one_and_ones_def mask_eq_exp_minus_1 push_bit_eq_mult)

lemma unat_and_ones: "unat (w AND one_and_ones n) = unat w mod 2 ^ n"
  by (simp add: one_and_ones_mask and_mask_unat)

lemma and_zeros_iff: "w AND one_and_zeros n \<noteq> 0 \<longleftrightarrow> bit w n"
  by (simp add: one_and_zeros_def push_bit_of_1 and_exp_eq_0_iff_not_bit)

lemma trim_top:
  fixes d :: digits and k :: nat
  assumes "d \<noteq> []"
  defines "d' \<equiv> d[length d - 1 := d ! (length d - 1) AND one_and_ones k]"
  shows "digits_ok d \<Longrightarrow> digits_ok d'"
    and "digits_ok d \<Longrightarrow> dval d' = dval d mod 2 ^ (30 * (length d - 1) + k)"
    and "length d' = length d"
proof -
  from assms(1) obtain ds x where d: "d = ds @ [x]" by (metis rev_exhaust)
  then have d': "d' = ds @ [x AND one_and_ones k]" by (simp add: d'_def nth_append)
  show "length d' = length d" by (simp add: d d')
  assume ok: "digits_ok d"
  have "unat x mod 2 ^ k \<le> unat x" by simp
  with ok show "digits_ok d'" by (auto simp: d d' unat_and_ones simp del: mod_less_eq_dividend)
  have low: "dval ds < radix ^ length ds" using ok d by (simp add: dval_less)
  then have "dval d mod (radix ^ length ds * 2 ^ k) = dval ds + radix ^ length ds * (unat x mod 2 ^ k)"
    by (simp add: d mod_mult2_eq)
  then show "dval d' = dval d mod 2 ^ (30 * (length d - 1) + k)"
    by (simp add: d d' unat_and_ones power_add power_mult)
qed

text \<open>A vector of the length the declared width needs.\<close>

definition sized :: "nat \<Rightarrow> digits \<Rightarrow> bool" where
  "sized nb d \<longleftrightarrow> 0 < nb \<and> length d = DIV_CEIL nb \<and> digits_ok d"

lemma sized_top:
  assumes "sized nb d"
  shows "d \<noteq> []" "digits_ok d" "length d - 1 = (nb - 1) div 30"
    "30 * (length d - 1) + (bit_ord (nb - 1) + 1) = nb" "nb \<le> 30 * length d"
proof -
  from assms have len: "length d = (nb - 1) div 30 + 1" and "0 < nb"
    by (simp_all add: sized_def DIV_CEIL_def digit_consts)
  then show "d \<noteq> []" "length d - 1 = (nb - 1) div 30" by auto
  show "digits_ok d" using assms by (simp add: sized_def)
  have "30 * ((nb - 1) div 30) + (nb - 1) mod 30 = nb - 1" by (rule mult_div_mod_eq)
  with len \<open>0 < nb\<close>
  show "30 * (length d - 1) + (bit_ord (nb - 1) + 1) = nb" by (simp add: bit_ord_def digit_consts)
  show "nb \<le> 30 * length d" using len by linarith
qed

lemma sign_bit:
  assumes "sized nb d"
  shows "d ! (length d - 1) AND one_and_zeros (bit_ord (nb - 1) + 1 - 1) \<noteq> 0 \<longleftrightarrow> bit (dval d) (nb - 1)"
  using sized_top [OF assms] by (simp add: and_zeros_iff bit_dval bit_ord_def digit_consts)
    (metis One_nat_def Suc_pred length_greater_0_conv lessI)

lemma convert_signed_2C_to_SM_value:
  assumes "sized nb d" and c: "convert_signed_2C_to_SM nb (length d) d = (s, d')"
  shows "smval s d' = signed_take_bit (nb - 1) (int (dval d))" (is ?val)
    and "sized nb d'" (is ?sized)
    and "s \<in> {SC_NEG, SC_ZERO, SC_POS} \<and> (s = SC_ZERO \<longleftrightarrow> dval d' = 0)" (is ?sign)
proof -
  note top = sized_top [OF assms(1)]
  let ?x = "dval d" and ?N = "2 ^ nb :: nat"
  let ?trim = "\<lambda>d. d[length d - 1 := d ! (length d - 1) AND one_and_ones (bit_ord (nb - 1) + 1)]"
  have "0 < nb" using assms by (simp add: sized_def)
  have trim: "digits_ok (?trim e) \<and> dval (?trim e) = dval e mod ?N"
    if "length e = length d" "digits_ok e" for e
  proof -
    have "e \<noteq> []" using top(1) that by auto
    note t = trim_top(1,2) [OF this that(2), of "bit_ord (nb - 1) + 1"]
    then show ?thesis by (simp only: that(1) top(4))
  qed
  have stb: "signed_take_bit (nb - 1) (int ?x) =
      int (?x mod ?N) - 2 ^ nb * of_bool (bit ?x (nb - 1))"
    using \<open>0 < nb\<close>
    by (simp add: signed_take_bit_eq_take_bit_minus take_bit_eq_mod bit_of_nat_iff_bit zmod_int)
  have "?val \<and> ?sized \<and> ?sign"
  proof (cases "bit ?x (nb - 1)")
    case False
    with c have d': "d' = ?trim d" and s: "s = check_for_zero SC_POS (length d) d'"
      using sign_bit [OF assms(1)] by (auto simp: convert_signed_2C_to_SM_def Let_def split: if_splits)
    have v: "dval d' = ?x mod ?N" "sized nb d'"
      using trim [of d] assms(1) by (auto simp: d' sized_def)
    have "length d' = length d" by (simp add: d')
    then have "s = (if dval d' = 0 then SC_ZERO else SC_POS)"
      using check_for_zero_eq [of "length d" d' SC_POS] s by simp
    then show ?thesis
      using v stb False by (auto simp: smval_def SC_NEG_def SC_ZERO_def SC_POS_def)
  next
    case True
    with c have d': "d' = ?trim (vec_complement (length d) d)" and s: "s = SC_NEG"
      using sign_bit [OF assms(1)]
      by (auto simp: convert_signed_2C_to_SM_def Let_def SC_NEG_def SC_POS_def)
    have v: "dval d' = dval (vec_complement (length d) d) mod ?N" "sized nb d'"
      using trim [of "vec_complement (length d) d"] assms(1) by (auto simp: d' sized_def)
    have x0: "0 < ?x" using True by (auto intro: gr0I)
    have xl: "?x < radix ^ length d" using top(2) by (rule dval_less)
    have dvd: "?N dvd radix ^ length d"
      using top(5) by (simp add: radix_power le_imp_power_dvd)
    have "bit (take_bit nb ?x) (nb - 1)" using True \<open>0 < nb\<close> by (simp add: bit_take_bit_iff)
    then have "take_bit nb ?x \<noteq> 0" by (metis bit_0_eq bot_apply bot_bool_def)
    then have "int (?x mod ?N) \<noteq> 0" by (simp only: take_bit_eq_mod of_nat_eq_0_iff not_False_eq_True)
    then have xm: "int ?x mod 2 ^ nb \<noteq> 0" by (simp only: of_nat_mod of_nat_power of_nat_numeral not_False_eq_True)
    have "dval d' = (radix ^ length d - ?x) mod ?N"
      using v(1) x0 xl by (simp add: dval_vec_complement [OF top(2)])
    then have "int (dval d') = (int (radix ^ length d) - int ?x) mod 2 ^ nb"
      using xl by (simp add: of_nat_mod of_nat_diff)
    also have "\<dots> = (- int ?x) mod 2 ^ nb"
    proof -
      have "(2 :: int) ^ nb dvd int (radix ^ length d)"
        using dvd by (metis of_nat_dvd_iff of_nat_numeral of_nat_power)
      then show ?thesis by (metis diff_0 mod_diff_left_eq mod_0_imp_dvd dvd_eq_mod_eq_0)
    qed
    also have "\<dots> = 2 ^ nb - int ?x mod 2 ^ nb" using xm by (simp add: zmod_zminus1_eq_if)
    finally have "int (dval d') = 2 ^ nb - int ?x mod 2 ^ nb" .
    moreover have "int ?x mod 2 ^ nb < 2 ^ nb" by (rule pos_mod_bound) simp
    ultimately have "int (dval d') = 2 ^ nb - int ?x mod 2 ^ nb" "0 < dval d'" by linarith+
    then show ?thesis
      using v(2) stb True s by (auto simp: smval_def SC_NEG_def SC_ZERO_def SC_POS_def zmod_int)
  qed
  then show ?val ?sized ?sign by blast+
qed

section \<open>Signed and unsigned numbers\<close>

text \<open>
  The invariant of \<^verbatim>\<open>sc_signed\<close>: as many digits as the width needs, no overflow bits, the sign
  \<^verbatim>\<open>SC_ZERO\<close> exactly for zero, and a value in the range of \<open>nb\<close> bits; and that of
  \<^verbatim>\<open>sc_unsigned\<close>, whose \<open>nb\<close> counts one bit more than the value has.
\<close>

definition sign_ok :: "int \<Rightarrow> digits \<Rightarrow> bool" where
  "sign_ok s d \<longleftrightarrow> s \<in> {SC_NEG, SC_ZERO, SC_POS} \<and> (s = SC_ZERO \<longleftrightarrow> dval d = 0)"

definition signed_ok :: "nat \<Rightarrow> int \<Rightarrow> digits \<Rightarrow> bool" where
  "signed_ok nb s d \<longleftrightarrow> sized nb d \<and> sign_ok s d \<and>
     - (2 ^ (nb - 1)) \<le> smval s d \<and> smval s d < 2 ^ (nb - 1)"

definition unsigned_ok :: "nat \<Rightarrow> int \<Rightarrow> digits \<Rightarrow> bool" where
  "unsigned_ok nb s d \<longleftrightarrow> sized nb d \<and> sign_ok s d \<and> s \<noteq> SC_NEG \<and> dval d < 2 ^ (nb - 1)"

lemma sc_signs [simp]: "SC_NEG \<noteq> SC_ZERO" "SC_NEG \<noteq> SC_POS" "SC_ZERO \<noteq> SC_POS"
  "SC_ZERO \<noteq> SC_NEG" "SC_POS \<noteq> SC_NEG" "SC_POS \<noteq> SC_ZERO"
  by (simp_all add: SC_NEG_def SC_ZERO_def SC_POS_def)

lemma smval_simps [simp]:
  "smval SC_NEG d = - int (dval d)" "smval SC_POS d = int (dval d)" "smval SC_ZERO d = int (dval d)"
  by (simp_all add: smval_def)

lemma abs_smval [simp]: "\<bar>smval s d\<bar> = int (dval d)"
  by (simp add: smval_def)

lemma signed_take_bit_range:
  "- (2 ^ (nb - 1)) \<le> signed_take_bit (nb - 1) (x :: int)" "signed_take_bit (nb - 1) (x :: int) < 2 ^ (nb - 1)"
  by (simp_all add: signed_take_bit_int_greater_eq_minus_exp signed_take_bit_int_less_exp)

lemma signed_ok_wrap: "signed_ok nb s d \<Longrightarrow> signed_take_bit (nb - 1) (smval s d) = smval s d"
  by (simp add: signed_ok_def signed_take_bit_int_eq_self)

text \<open>Wrapping to \<open>nb\<close> bits forgets what is above \<open>m \<ge> nb\<close> bits.\<close>

lemma signed_wrap_mod:
  assumes "0 < nb" "nb \<le> m"
  shows "signed_take_bit (nb - 1) (x mod 2 ^ m) = signed_take_bit (nb - 1) (x :: int)"
  using assms by (simp add: signed_take_bit_eq_iff_take_bit_eq take_bit_take_bit flip: take_bit_eq_mod)

lemma convert_SM_to_2C_value:
  assumes "digits_ok d"
  shows "int (dval (convert_SM_to_2C s (length d) d)) = smval s d mod 2 ^ (30 * length d)"
    "digits_ok (convert_SM_to_2C s (length d) d)"
    "length (convert_SM_to_2C s (length d) d) = length d"
proof -
  let ?R = "radix ^ length d"
  have R: "int ?R = 2 ^ (30 * length d)" by (simp add: power_mult)
  have lt: "dval d < ?R" using assms by (rule dval_less)
  show "int (dval (convert_SM_to_2C s (length d) d)) = smval s d mod 2 ^ (30 * length d)"
  proof (cases "s = SC_NEG")
    case False
    then have "smval s d mod int ?R = int (dval d)" using lt by (simp add: smval_def)
    with False show ?thesis unfolding R by (simp add: convert_SM_to_2C_def)
  next
    case True
    have "int ((?R - dval d) mod ?R) = (- int (dval d)) mod int ?R"
    proof (cases "dval d = 0")
      case False
      with lt show ?thesis
        by (simp only: zmod_zminus1_eq_if) (simp add: of_nat_diff flip: of_nat_power)
    qed simp
    with True show ?thesis
      unfolding R by (simp add: convert_SM_to_2C_def dval_vec_complement [OF assms])
  qed
  show "digits_ok (convert_SM_to_2C s (length d) d)"
    "length (convert_SM_to_2C s (length d) d) = length d"
    using assms by (simp_all add: convert_SM_to_2C_def)
qed

theorem convert_signed_SM_to_2C_to_SM_value:
  assumes "sized nb d" "convert_signed_SM_to_2C_to_SM s nb (length d) d = (s', d')"
  shows "smval s' d' = signed_take_bit (nb - 1) (smval s d)" "signed_ok nb s' d'"
proof -
  let ?c = "convert_SM_to_2C s (length d) d"
  note top = sized_top [OF assms(1)]
  note c = convert_SM_to_2C_value [OF top(2), of s]
  have "sized nb ?c" using c assms(1) by (simp add: sized_def)
  moreover have "convert_signed_2C_to_SM nb (length ?c) ?c = (s', d')"
    using assms(2) c by (simp add: convert_signed_SM_to_2C_to_SM_def)
  ultimately have *: "smval s' d' = signed_take_bit (nb - 1) (int (dval ?c))" "sized nb d'"
    "sign_ok s' d'"
    using convert_signed_2C_to_SM_value unfolding sign_ok_def by blast+
  have "0 < nb" using assms(1) by (simp add: sized_def)
  then have "signed_take_bit (nb - 1) (int (dval ?c)) = signed_take_bit (nb - 1) (smval s d)"
    unfolding c(1) using top(5) by (rule signed_wrap_mod)
  with * show "smval s' d' = signed_take_bit (nb - 1) (smval s d)" by simp
  then show "signed_ok nb s' d'" using * signed_take_bit_range by (simp add: signed_ok_def)
qed

theorem convert_unsigned_SM_to_2C_to_SM_value:
  assumes "sized nb d" "convert_unsigned_SM_to_2C_to_SM s nb (length d) d = (s', d')"
  shows "smval s' d' = smval s d mod 2 ^ (nb - 1)" "unsigned_ok nb s' d'"
proof -
  let ?c = "convert_SM_to_2C s (length d) d"
  note top = sized_top [OF assms(1)]
  note c = convert_SM_to_2C_value [OF top(2), of s]
  have "?c \<noteq> []" using c top by auto
  note t = trim_top [OF this, of "bit_ord (nb - 1)"]
  have nb: "30 * (length ?c - 1) + bit_ord (nb - 1) = nb - 1" using top(4) c(3) by simp
  have d': "d' = trim_unsigned nb (length d) ?c" "s' = check_for_zero SC_POS (length d) d'"
    using assms(2)
    by (auto simp: convert_unsigned_SM_to_2C_to_SM_def convert_unsigned_2C_to_SM_def Let_def)
  have len: "length d' = length d" by (simp add: d'(1) trim_unsigned_def c(3))
  have val: "dval d' = dval ?c mod 2 ^ (nb - 1)" "digits_ok d'"
    using t(1,2) [OF c(2)] nb by (simp_all add: d'(1) trim_unsigned_def c(3))
  have s': "s' = (if dval d' = 0 then SC_ZERO else SC_POS)"
    using check_for_zero_eq [of "length d" d' SC_POS] len by (simp add: d'(2))
  then have "smval s' d' = int (dval d')" by auto
  also have "\<dots> = smval s d mod 2 ^ (30 * length d) mod 2 ^ (nb - 1)"
    by (simp add: val c(1) of_nat_mod)
  also have "\<dots> = smval s d mod 2 ^ (nb - 1)"
    using top(5) by (simp add: mod_mod_cancel le_imp_power_dvd)
  finally show "smval s' d' = smval s d mod 2 ^ (nb - 1)" .
  show "unsigned_ok nb s' d'"
    using val assms(1) len s' by (simp add: unsigned_ok_def sized_def sign_ok_def)
qed


lemma copied:
  assumes "digits_ok vd" "n \<le> length vd" "sized nb ud"
  defines "d \<equiv> (if length ud \<le> n then vec_copy (length ud) ud vd
                 else vec_copy_and_zero (length ud) ud n vd)"
  shows "sized nb d" "length d = length ud"
    "length ud \<le> n \<Longrightarrow> dval d = dval (take n vd) mod 2 ^ (30 * length ud)"
    "n < length ud \<Longrightarrow> dval d = dval (take n vd)"
proof -
  show "length ud \<le> n \<Longrightarrow> dval d = dval (take n vd) mod 2 ^ (30 * length ud)"
    using assms dval_take [of "take n vd" "length ud"]
    by (simp add: d_def vec_copy_eq min_absorb1 flip: radix_power)
  show "n < length ud \<Longrightarrow> dval d = dval (take n vd)"
    using assms by (simp add: d_def vec_copy_and_zero_eq)
  show "length d = length ud"
    using assms by (simp add: d_def vec_copy_eq vec_copy_and_zero_eq)
  with assms show "sized nb d"
    by (auto simp: sized_def d_def vec_copy_eq vec_copy_and_zero_eq)
qed

lemma smval_cong_mod:
  assumes "dval d mod m = dval e mod m"
  shows "smval s d mod int m = smval s e mod int m"
proof -
  have "int (dval d) mod int m = int (dval e) mod int m"
    using assms by (simp flip: of_nat_mod)
  then have "- int (dval d) mod int m = - int (dval e) mod int m" by (metis mod_minus_eq)
  with \<open>int (dval d) mod int m = int (dval e) mod int m\<close> show ?thesis by (simp add: smval_def)
qed

theorem copy_digits_unsigned_value:
  assumes "sized unb ud" "digits_ok vd" "vnd \<le> length vd"
    and c: "copy_digits_unsigned us unb (length ud) ud vnb vnd vd = (s', d')"
  shows "smval s' d' = smval us (take vnd vd) mod 2 ^ (unb - 1)" "unsigned_ok unb s' d'"
proof -
  define d where "d = (if length ud \<le> vnd then vec_copy (length ud) ud vd
    else vec_copy_and_zero (length ud) ud vnd vd)"
  note d = copied [OF assms(2,3,1), folded d_def]
  have cc: "convert_unsigned_SM_to_2C_to_SM us unb (length d) d = (s', d')"
    using c d(2) by (simp add: copy_digits_unsigned_def d_def)
  note v = convert_unsigned_SM_to_2C_to_SM_value [OF d(1) cc]
  have "dval d mod 2 ^ (30 * length ud) = dval (take vnd vd) mod 2 ^ (30 * length ud)"
    using d(3,4) by (cases "length ud \<le> vnd") simp_all
  then have "smval us d mod 2 ^ (30 * length ud) = smval us (take vnd vd) mod 2 ^ (30 * length ud)"
    using smval_cong_mod [of d "2 ^ (30 * length ud)" "take vnd vd" us]
    by (simp only: of_nat_power of_nat_numeral)
  then have "smval us d mod 2 ^ (30 * length ud) mod 2 ^ (unb - 1) =
      smval us (take vnd vd) mod 2 ^ (30 * length ud) mod 2 ^ (unb - 1)" by simp
  moreover have "(2 :: int) ^ (unb - 1) dvd 2 ^ (30 * length ud)"
    using sized_top(5) [OF assms(1)] by (simp add: le_imp_power_dvd)
  ultimately show "smval s' d' = smval us (take vnd vd) mod 2 ^ (unb - 1)"
    using v(1) by (simp only: mod_mod_cancel)
  show "unsigned_ok unb s' d'" by (rule v(2))
qed

lemma signed_take_bit_mod_cong:
  fixes x y :: int
  assumes "x mod 2 ^ m = y mod 2 ^ m" "0 < nb" "nb \<le> m"
  shows "signed_take_bit (nb - 1) x = signed_take_bit (nb - 1) y"
  using signed_wrap_mod [OF assms(2,3), of x] signed_wrap_mod [OF assms(2,3), of y] assms(1) by simp

theorem copy_digits_signed_value:
  assumes "sized unb ud" "digits_ok vd" "vnd \<le> length vd" "sign_ok us (take vnd vd)"
    and fits: "length ud \<le> vnd \<Longrightarrow> vnb < unb \<Longrightarrow>
      - (2 ^ (unb - 1)) \<le> smval us (take vnd vd) \<and> smval us (take vnd vd) < 2 ^ (unb - 1)"
    and c: "copy_digits_signed us unb (length ud) ud vnb vnd vd = (s', d')"
  shows "smval s' d' = signed_take_bit (unb - 1) (smval us (take vnd vd))" "signed_ok unb s' d'"
proof -
  define d where "d = (if length ud \<le> vnd then vec_copy (length ud) ud vd
    else vec_copy_and_zero (length ud) ud vnd vd)"
  note d = copied [OF assms(2,3,1), folded d_def]
  let ?v = "take vnd vd"
  note top = sized_top [OF assms(1)]
  have "0 < unb" using assms(1) by (simp add: sized_def)
  have "smval s' d' = signed_take_bit (unb - 1) (smval us ?v) \<and> signed_ok unb s' d'"
  proof (cases "length ud \<le> vnd \<and> unb \<le> vnb")
    case True
    then have "convert_signed_SM_to_2C_to_SM us unb (length d) d = (s', d')"
      using c d(2) by (simp add: copy_digits_signed_def d_def Let_def)
    note v = convert_signed_SM_to_2C_to_SM_value [OF d(1) this]
    have "dval d mod 2 ^ (30 * length ud) = dval ?v mod 2 ^ (30 * length ud)"
      using d(3,4) by (cases "length ud \<le> vnd") simp_all
    then have "smval us d mod 2 ^ (30 * length ud) = smval us ?v mod 2 ^ (30 * length ud)"
      using smval_cong_mod [of d "2 ^ (30 * length ud)" ?v us]
      by (simp only: of_nat_power of_nat_numeral)
    then have "signed_take_bit (unb - 1) (smval us d) = signed_take_bit (unb - 1) (smval us ?v)"
      using \<open>0 < unb\<close> top(5) by (rule signed_take_bit_mod_cong)
    with v show ?thesis by simp
  next
    case False
    then have res: "s' = us" "d' = d" using c
      by (auto simp: copy_digits_signed_def d_def Let_def split: if_splits)
    have same: "dval d = dval ?v \<and> - (2 ^ (unb - 1)) \<le> smval us ?v \<and> smval us ?v < 2 ^ (unb - 1)"
    proof (cases "length ud \<le> vnd")
      case True
      with False fits
      have range: "- (2 ^ (unb - 1)) \<le> smval us ?v" "smval us ?v < 2 ^ (unb - 1)" by simp_all
      have "int (dval ?v) \<le> 2 ^ (unb - 1)"
        using range abs_smval [of us ?v] by linarith
      also have "\<dots> < 2 ^ (30 * length ud)"
        using \<open>0 < unb\<close> top(5) by (intro power_strict_increasing) auto
      finally have "int (dval ?v) < int (2 ^ (30 * length ud))" by simp
      then have "dval ?v < 2 ^ (30 * length ud)" by (simp only: of_nat_less_iff)
      then show ?thesis using range d(3) True by simp
    next
      case False
      then have "dval ?v < radix ^ vnd"
        using dval_less [of ?v] assms(2,3) by simp
      also have "\<dots> \<le> 2 ^ (30 * (length ud - 1))" 
        unfolding radix_power using False by (intro power_increasing) auto
      also have "\<dots> \<le> 2 ^ (unb - 1)" using top(4) by (intro power_increasing) auto
      finally have "int (dval ?v) < int (2 ^ (unb - 1))" by (simp only: of_nat_less_iff)
      then have "int (dval ?v) < 2 ^ (unb - 1)" by simp
      then show ?thesis using d(4) False abs_smval [of us ?v] by linarith
    qed
    then have val: "smval us d = smval us ?v" by (simp add: smval_def)
    with same res d(1) assms(4) show ?thesis
      by (auto simp: signed_ok_def sign_ok_def signed_take_bit_int_eq_self)
  qed
  then show "smval s' d' = signed_take_bit (unb - 1) (smval us ?v)" "signed_ok unb s' d'" by auto
qed

end
