(* ===== verification/Dt_Vec.thy ===== *)
theory Dt_Vec
  imports Dt_Value
begin

text \<open>
  Addition, subtraction and multiplication of digit vectors (datatypes/int/sc_nbutils.cpp).  A
  loop that walks pointers along arrays is a recursion on the digits that are left; it returns the
  digits that it writes.  The result vector \<^verbatim>\<open>w\<close> does not overlap the operands, and what the
  code leaves of it, above the digits written, stays (the helper \<open>stored\<close>).  The contracts are
  those of the sources' comments and of their assertions under \<^verbatim>\<open>DEBUG_SYSTEMC\<close>: outside them
  the code runs over the end of an array, and the recursions stop there; every theorem carries its
  contract as a hypothesis.  The warnings of that configuration are not modelled.
\<close>

unbundle bit_operations_syntax

definition stored :: "digits \<Rightarrow> digits \<Rightarrow> digits" where
  "stored ds w = ds @ drop (length ds) w"

section \<open>Addition\<close>

text \<open>Adding along the shorter vector: the digits written, the rest of \<open>u\<close>, the carry.\<close>

fun add_along :: "digit \<Rightarrow> digits \<Rightarrow> digits \<Rightarrow> digits \<times> digits \<times> digit" where
  "add_along carry u [] = ([], u, carry)"
| "add_along carry (a # u) (b # v) =
     (let carry = carry + (a + b);
          (ws, rest, out) = add_along (drop_bit BITS_PER_DIGIT carry) u v
      in ((carry AND DIGIT_MASK) # ws, rest, out))"
| "add_along carry [] (b # v) = ([], [], carry)"

fun add_carry :: "digit \<Rightarrow> digits \<Rightarrow> digits \<times> digits \<times> digit" where
  "add_carry carry [] = ([], [], carry)"
| "add_carry carry (a # u) =
     (if carry \<noteq> 0 then
        let carry = a + 1;
            (ws, rest, out) = add_carry (drop_bit BITS_PER_DIGIT carry) u
        in ((carry AND DIGIT_MASK) # ws, rest, out)
      else ([], a # u, carry))"

definition vec_add :: "nat \<Rightarrow> digits \<Rightarrow> nat \<Rightarrow> digits \<Rightarrow> digits \<Rightarrow> digits" where
  "vec_add ulen u vlen v w =
     (let (w1, u1, carry) = add_along 0 (take ulen u) (take vlen v);
          (w2, u2, carry) = add_carry carry u1
      in stored (w1 @ w2 @ u2 @ (if carry \<noteq> 0 then [1] else [])) w)"

definition vec_add_on :: "nat \<Rightarrow> digits \<Rightarrow> nat \<Rightarrow> digits \<Rightarrow> digits" where
  "vec_add_on ulen u vlen v =
     (let (w1, u1, carry) = add_along 0 (take ulen u) (take vlen v);
          (w2, u2, carry) = add_carry carry u1
      in stored (w1 @ w2) u)"

definition vec_add_on2 :: "nat \<Rightarrow> digits \<Rightarrow> nat \<Rightarrow> digits \<Rightarrow> digits" where
  "vec_add_on2 ulen u vlen v =
     (let (w1, v1, carry) = add_along 0 v (take ulen u) in stored w1 u)"

definition vec_add_small :: "nat \<Rightarrow> digits \<Rightarrow> digit \<Rightarrow> digits \<Rightarrow> digits" where
  "vec_add_small ulen u v w =
     (let carry = u ! 0 + v;
          w0 = carry AND DIGIT_MASK;
          (w2, u2, carry) = add_carry (drop_bit BITS_PER_DIGIT carry) (drop 1 (take ulen u))
      in stored (w0 # w2 @ u2 @ (if carry \<noteq> 0 then [1] else [])) w)"

fun add_small_loop :: "digit \<Rightarrow> digits \<Rightarrow> digits" where
  "add_small_loop v [] = []"
| "add_small_loop v (a # u) =
     (if v \<noteq> 0 then
        let v = v + a in (v AND DIGIT_MASK) # add_small_loop (drop_bit BITS_PER_DIGIT v) u
      else a # u)"

definition vec_add_small_on :: "nat \<Rightarrow> digits \<Rightarrow> digit \<Rightarrow> digits" where
  "vec_add_small_on ulen u v = stored (add_small_loop v (take ulen u)) u"

section \<open>Subtraction\<close>

fun sub_along :: "digit \<Rightarrow> digits \<Rightarrow> digits \<Rightarrow> digits \<times> digits \<times> digit" where
  "sub_along borrow u [] = ([], u, borrow)"
| "sub_along borrow (a # u) (b # v) =
     (let borrow = (a + DIGIT_RADIX) - b - borrow;
          (ws, rest, out) = sub_along (1 - drop_bit BITS_PER_DIGIT borrow) u v
      in ((borrow AND DIGIT_MASK) # ws, rest, out))"
| "sub_along borrow [] (b # v) = ([], [], borrow)"

fun sub_borrow :: "digit \<Rightarrow> digits \<Rightarrow> digits \<times> digits \<times> digit" where
  "sub_borrow borrow [] = ([], [], borrow)"
| "sub_borrow borrow (a # u) =
     (if borrow \<noteq> 0 then
        let borrow = (a + DIGIT_RADIX) - 1;
            (ws, rest, out) = sub_borrow (1 - drop_bit BITS_PER_DIGIT borrow) u
        in ((borrow AND DIGIT_MASK) # ws, rest, out)
      else ([], a # u, borrow))"

definition vec_sub :: "nat \<Rightarrow> digits \<Rightarrow> nat \<Rightarrow> digits \<Rightarrow> digits \<Rightarrow> digits" where
  "vec_sub ulen u vlen v w =
     (let (w1, u1, borrow) = sub_along 0 (take ulen u) (take vlen v);
          (w2, u2, borrow) = sub_borrow borrow u1
      in stored (w1 @ w2 @ u2) w)"

definition vec_sub_on :: "nat \<Rightarrow> digits \<Rightarrow> nat \<Rightarrow> digits \<Rightarrow> digits" where
  "vec_sub_on ulen u vlen v =
     (let (w1, u1, borrow) = sub_along 0 (take ulen u) (take vlen v);
          (w2, u2, borrow) = sub_borrow borrow u1
      in stored (w1 @ w2) u)"

definition vec_sub_on2 :: "nat \<Rightarrow> digits \<Rightarrow> nat \<Rightarrow> digits \<Rightarrow> digits" where
  "vec_sub_on2 ulen u vlen v =
     (let (w1, v1, borrow) = sub_along 0 v (take (min ulen vlen) u) in stored w1 u)"

definition vec_sub_small :: "nat \<Rightarrow> digits \<Rightarrow> digit \<Rightarrow> digits \<Rightarrow> digits" where
  "vec_sub_small ulen u v w =
     (let borrow = (u ! 0 + DIGIT_RADIX) - v;
          w0 = borrow AND DIGIT_MASK;
          (w2, u2, borrow) =
            sub_borrow (1 - drop_bit BITS_PER_DIGIT borrow) (drop 1 (take ulen u))
      in stored (w0 # w2 @ u2) w)"

fun sub_small_loop :: "digit \<Rightarrow> digits \<Rightarrow> digits" where
  "sub_small_loop v [] = []"
| "sub_small_loop v (a # u) =
     (let v = (a + DIGIT_RADIX) - v
      in (v AND DIGIT_MASK) # sub_small_loop (1 - drop_bit BITS_PER_DIGIT v) u)"

definition vec_sub_small_on :: "nat \<Rightarrow> digits \<Rightarrow> digit \<Rightarrow> digits" where
  "vec_sub_small_on ulen u v = stored (sub_small_loop v (take ulen u)) u"

section \<open>What the loops compute\<close>

lemma add_step:
  assumes "unat c \<le> 1" "unat a < radix" "unat b < radix"
  shows "unat (c + (a + b)) = unat c + unat a + unat b"
    "unat (drop_bit BITS_PER_DIGIT (c + (a + b))) \<le> 1"
    "unat ((c + (a + b)) AND DIGIT_MASK) + radix * unat (drop_bit BITS_PER_DIGIT (c + (a + b))) =
       unat c + unat a + unat b"
proof -
  have ab: "unat (a + b) = unat a + unat b" using assms by (intro unat_plus_eq) linarith
  show t: "unat (c + (a + b)) = unat c + unat a + unat b"
    using assms by (subst unat_plus_eq) (simp_all add: ab)
  show "unat (drop_bit BITS_PER_DIGIT (c + (a + b))) \<le> 1"
    unfolding unat_over t using assms by (simp add: less_mult_imp_div_less less_Suc_eq_le [symmetric])
  show "unat ((c + (a + b)) AND DIGIT_MASK) + radix * unat (drop_bit BITS_PER_DIGIT (c + (a + b))) =
      unat c + unat a + unat b"
    unfolding unat_over unat_and_mask t by (rule mod_mult_div_eq)
qed

lemma sub_step:
  assumes "unat c \<le> 1" "unat a < radix" "unat b < radix"
  defines "t \<equiv> (a + DIGIT_RADIX) - b - c"
  shows "unat (1 - drop_bit BITS_PER_DIGIT t) \<le> 1"
    "unat (t AND DIGIT_MASK) + unat b + unat c = unat a + radix * unat (1 - drop_bit BITS_PER_DIGIT t)"
proof -
  have "unat (a + DIGIT_RADIX) = unat a + radix"
    using assms by (subst unat_plus_eq) (simp_all add: digit_consts)
  moreover from this assms have "unat (a + DIGIT_RADIX - b) = unat a + radix - unat b"
    by (subst unat_minus_eq) simp_all
  ultimately have t: "unat t = unat a + radix - unat b - unat c"
    unfolding t_def using assms by (subst unat_minus_eq) simp_all
  then have "unat t < 2 * radix" using assms by linarith
  then have q: "unat t div radix \<le> 1"
    by (simp add: less_mult_imp_div_less less_Suc_eq_le [symmetric])
  then have c': "unat (1 - drop_bit BITS_PER_DIGIT t) = 1 - unat t div radix"
    by (subst unat_minus_eq) (simp_all add: unat_over)
  then show "unat (1 - drop_bit BITS_PER_DIGIT t) \<le> 1" by simp
  have "unat t mod radix + radix * (unat t div radix) = unat t" by (rule mod_mult_div_eq)
  moreover have "unat t + unat b + unat c = unat a + radix" using t assms by linarith
  moreover have "unat t div radix = 0 \<or> unat t div radix = 1" using q by linarith
  ultimately show "unat (t AND DIGIT_MASK) + unat b + unat c =
      unat a + radix * unat (1 - drop_bit BITS_PER_DIGIT t)"
    unfolding c' unat_and_mask by (elim disjE) linarith+
qed

lemma add_along_value:
  "length v \<le> length u \<Longrightarrow> digits_ok u \<Longrightarrow> digits_ok v \<Longrightarrow> unat c \<le> 1 \<Longrightarrow>
     add_along c u v = (ws, rest, out) \<Longrightarrow>
     length ws = length v \<and> digits_ok ws \<and> rest = drop (length v) u \<and> unat out \<le> 1 \<and>
     dval ws + radix ^ length v * unat out = dval (take (length v) u) + dval v + unat c"
proof (induction c u v arbitrary: ws rest out rule: add_along.induct)
  case (2 c a u b v)
  let ?t = "c + (a + b)"
  obtain ws' where rec: "add_along (drop_bit BITS_PER_DIGIT ?t) u v = (ws', rest, out)"
    and ws: "ws = (?t AND DIGIT_MASK) # ws'"
    using 2(6) by (auto simp: Let_def split: prod.splits)
  from 2(2-4) have pre: "length v \<le> length u" "digits_ok u" "digits_ok v" by simp_all
  have step: "unat (drop_bit BITS_PER_DIGIT ?t) \<le> 1"
    "unat (?t AND DIGIT_MASK) + radix * unat (drop_bit BITS_PER_DIGIT ?t) = unat c + unat a + unat b"
    using add_step(2,3) [of c a b] 2(3-5) by simp_all
  have IH: "length ws' = length v \<and> digits_ok ws' \<and> rest = drop (length v) u \<and> unat out \<le> 1 \<and>
      dval ws' + radix ^ length v * unat out =
        dval (take (length v) u) + dval v + unat (drop_bit BITS_PER_DIGIT ?t)"
    by (rule "2.IH" [OF refl pre step(1) rec])
  from IH have "dval ws' + radix ^ length v * unat out = dval (take (length v) u) + dval v + unat (drop_bit BITS_PER_DIGIT ?t)"
      by blast
  then have "radix * (dval ws' + radix ^ length v * unat out) =
      radix * (dval (take (length v) u) + dval v + unat (drop_bit BITS_PER_DIGIT ?t))" by (simp only:)
  then have "dval ws + radix ^ length (b # v) * unat out =
      dval (take (length (b # v)) (a # u)) + dval (b # v) + unat c"
    using step(2) by (simp add: ws algebra_simps)
  with IH ws show ?case by (simp add: unat_and_mask)
qed auto

lemma add_carry_value:
  "digits_ok u \<Longrightarrow> unat c \<le> 1 \<Longrightarrow> add_carry c u = (ws, rest, out) \<Longrightarrow>
     length ws \<le> length u \<and> rest = drop (length ws) u \<and> digits_ok ws \<and> unat out \<le> 1 \<and>
     (rest \<noteq> [] \<longrightarrow> out = 0) \<and>
     dval (ws @ rest) + radix ^ length u * unat out = dval u + unat c"
proof (induction c u arbitrary: ws rest out rule: add_carry.induct)
  case (2 c a u)
  show ?case
  proof (cases "c = 0")
    case True
    then show ?thesis using 2 by auto
  next
    case False
    let ?t = "a + 1"
    obtain ws' where rec: "add_carry (drop_bit BITS_PER_DIGIT ?t) u = (ws', rest, out)"
      and ws: "ws = (?t AND DIGIT_MASK) # ws'"
      using 2(4) False by (auto simp: Let_def split: prod.splits)
    have c: "unat c = 1" using False 2(3) by (metis One_nat_def le_Suc_eq le_zero_eq unsigned_eq_0_iff)
    have step: "unat (drop_bit BITS_PER_DIGIT ?t) \<le> 1"
      "unat (?t AND DIGIT_MASK) + radix * unat (drop_bit BITS_PER_DIGIT ?t) = unat a + 1"
      using add_step(2,3) [of 0 a 1] 2(2) by simp_all
    have IH: "length ws' \<le> length u \<and> rest = drop (length ws') u \<and> digits_ok ws' \<and> unat out \<le> 1 \<and>
        (rest \<noteq> [] \<longrightarrow> out = 0) \<and>
        dval (ws' @ rest) + radix ^ length u * unat out = dval u + unat (drop_bit BITS_PER_DIGIT ?t)"
      using 2(2) step False by (intro "2.IH" [OF False refl _ _ rec]) auto
    from IH have "dval (ws' @ rest) + radix ^ length u * unat out = dval u + unat (drop_bit BITS_PER_DIGIT ?t)"
        by blast
  then have "radix * (dval (ws' @ rest) + radix ^ length u * unat out) =
        radix * (dval u + unat (drop_bit BITS_PER_DIGIT ?t))" by (simp only:)
    then have "dval (ws @ rest) + radix ^ length (a # u) * unat out = dval (a # u) + unat c"
      using step(2) c by (simp add: ws algebra_simps del: dval_append)
    with IH ws show ?thesis by (simp add: unat_and_mask del: dval_append)
  qed
qed auto

lemma sub_along_value:
  "length v \<le> length u \<Longrightarrow> digits_ok u \<Longrightarrow> digits_ok v \<Longrightarrow> unat c \<le> 1 \<Longrightarrow>
     sub_along c u v = (ws, rest, out) \<Longrightarrow>
     length ws = length v \<and> digits_ok ws \<and> rest = drop (length v) u \<and> unat out \<le> 1 \<and>
     dval ws + dval v + unat c = dval (take (length v) u) + radix ^ length v * unat out"
proof (induction c u v arbitrary: ws rest out rule: sub_along.induct)
  case (2 c a u b v)
  let ?t = "(a + DIGIT_RADIX) - b - c"
  obtain ws' where rec: "sub_along (1 - drop_bit BITS_PER_DIGIT ?t) u v = (ws', rest, out)"
    and ws: "ws = (?t AND DIGIT_MASK) # ws'"
    using 2(6) by (auto simp: Let_def split: prod.splits)
  have step: "unat (1 - drop_bit BITS_PER_DIGIT ?t) \<le> 1"
    "unat (?t AND DIGIT_MASK) + unat b + unat c = unat a + radix * unat (1 - drop_bit BITS_PER_DIGIT ?t)"
    using sub_step [of c a b] 2(3-5) by simp_all
  from 2(2-4) have pre: "length v \<le> length u" "digits_ok u" "digits_ok v" by simp_all
  have IH: "length ws' = length v \<and> digits_ok ws' \<and> rest = drop (length v) u \<and> unat out \<le> 1 \<and>
      dval ws' + dval v + unat (1 - drop_bit BITS_PER_DIGIT ?t) =
        dval (take (length v) u) + radix ^ length v * unat out"
    by (rule "2.IH" [OF refl pre step(1) rec])
  from IH have "dval ws' + dval v + unat (1 - drop_bit BITS_PER_DIGIT ?t) = dval (take (length v) u) + radix ^ length v * unat out"
      by blast
  then have "radix * (dval ws' + dval v + unat (1 - drop_bit BITS_PER_DIGIT ?t)) =
      radix * (dval (take (length v) u) + radix ^ length v * unat out)" by (simp only:)
  then have "dval ws + dval (b # v) + unat c =
      dval (take (length (b # v)) (a # u)) + radix ^ length (b # v) * unat out"
    using step(2) by (simp add: ws algebra_simps)
  with IH ws show ?case by (simp add: unat_and_mask)
qed auto

lemma sub_borrow_value:
  "digits_ok u \<Longrightarrow> unat c \<le> 1 \<Longrightarrow> sub_borrow c u = (ws, rest, out) \<Longrightarrow>
     length ws \<le> length u \<and> rest = drop (length ws) u \<and> digits_ok ws \<and> unat out \<le> 1 \<and>
     dval (ws @ rest) + unat c = dval u + radix ^ length u * unat out"
proof (induction c u arbitrary: ws rest out rule: sub_borrow.induct)
  case (2 c a u)
  show ?case
  proof (cases "c = 0")
    case True
    then show ?thesis using 2 by auto
  next
    case False
    let ?t = "(a + DIGIT_RADIX) - 1"
    obtain ws' where rec: "sub_borrow (1 - drop_bit BITS_PER_DIGIT ?t) u = (ws', rest, out)"
      and ws: "ws = (?t AND DIGIT_MASK) # ws'"
      using 2(4) False by (auto simp: Let_def split: prod.splits)
    have c: "unat c = 1" using False 2(3) by (metis One_nat_def le_Suc_eq le_zero_eq unsigned_eq_0_iff)
    have step: "unat (1 - drop_bit BITS_PER_DIGIT ?t) \<le> 1"
      "unat (?t AND DIGIT_MASK) + 1 = unat a + radix * unat (1 - drop_bit BITS_PER_DIGIT ?t)"
      using sub_step [of 0 a 1] 2(2) by simp_all
    have IH: "length ws' \<le> length u \<and> rest = drop (length ws') u \<and> digits_ok ws' \<and> unat out \<le> 1 \<and>
        dval (ws' @ rest) + unat (1 - drop_bit BITS_PER_DIGIT ?t) = dval u + radix ^ length u * unat out"
      using 2(2) step False by (intro "2.IH" [OF False refl _ _ rec]) auto
    from IH have "dval (ws' @ rest) + unat (1 - drop_bit BITS_PER_DIGIT ?t) = dval u + radix ^ length u * unat out"
        by blast
  then have "radix * (dval (ws' @ rest) + unat (1 - drop_bit BITS_PER_DIGIT ?t)) =
        radix * (dval u + radix ^ length u * unat out)" by (simp only:)
    then have "dval (ws @ rest) + unat c = dval (a # u) + radix ^ length (a # u) * unat out"
      using step(2) c by (simp add: ws algebra_simps del: dval_append)
    with IH ws show ?thesis by (simp add: unat_and_mask del: dval_append)
  qed
qed auto

text \<open>The two loops of an addition, or of a subtraction, together.\<close>

lemma add_loops:
  assumes "add_along 0 u v = (w1, u1, c)" "add_carry c u1 = (w2, u2, c')"
    and "length v \<le> length u" "digits_ok u" "digits_ok v"
  shows "length (w1 @ w2 @ u2) = length u" "digits_ok (w1 @ w2 @ u2)" "unat c' \<le> 1"
    "u2 = drop (length (w1 @ w2)) u"
    "dval (w1 @ w2 @ u2) + radix ^ length u * unat c' = dval u + dval v"
proof -
  have 1: "length w1 = length v" "digits_ok w1" "u1 = drop (length v) u" "unat c \<le> 1"
    "dval w1 + radix ^ length v * unat c = dval (take (length v) u) + dval v"
    using add_along_value [OF assms(3-5) _ assms(1)] by simp_all
  have ok1: "digits_ok u1" using 1 assms by simp
  have 2: "length w2 \<le> length u1" "u2 = drop (length w2) u1" "digits_ok w2" "unat c' \<le> 1"
    "dval (w2 @ u2) + radix ^ length u1 * unat c' = dval u1 + unat c"
    using add_carry_value [OF ok1 1(4) assms(2)] by blast+
  show "unat c' \<le> 1" by (rule 2(4))
  show "length (w1 @ w2 @ u2) = length u" "digits_ok (w1 @ w2 @ u2)" "u2 = drop (length (w1 @ w2)) u"
    using 1 2 assms by (simp_all add: add.commute)
  have "radix ^ length u = radix ^ length v * radix ^ length u1"
    using 1(3) assms(3) by (simp flip: power_add)
  then have "dval (w1 @ w2 @ u2) + radix ^ length u * unat c' =
      dval w1 + radix ^ length v * (dval (w2 @ u2) + radix ^ length u1 * unat c')"
    using 1(1) by (simp only: dval_append [of w1] distrib_left mult.assoc add.assoc)
  also have "\<dots> = dval (take (length v) u) + dval v + radix ^ length v * dval u1"
    using 1(5) by (simp add: 2(5) distrib_left del: dval_append)
  also have "\<dots> = dval u + dval v"
    using dval_take_drop [OF assms(3)] 1(3) by simp
  finally show "dval (w1 @ w2 @ u2) + radix ^ length u * unat c' = dval u + dval v" .
qed

lemma sub_loops:
  assumes "sub_along 0 u v = (w1, u1, c)" "sub_borrow c u1 = (w2, u2, c')"
    and "length v \<le> length u" "digits_ok u" "digits_ok v"
  shows "length (w1 @ w2 @ u2) = length u" "digits_ok (w1 @ w2 @ u2)" "unat c' \<le> 1"
    "u2 = drop (length (w1 @ w2)) u"
    "dval (w1 @ w2 @ u2) + dval v = dval u + radix ^ length u * unat c'"
proof -
  have 1: "length w1 = length v" "digits_ok w1" "u1 = drop (length v) u" "unat c \<le> 1"
    "dval w1 + dval v = dval (take (length v) u) + radix ^ length v * unat c"
    using sub_along_value [OF assms(3-5) _ assms(1)] by simp_all
  have ok1: "digits_ok u1" using 1 assms by simp
  have 2: "length w2 \<le> length u1" "u2 = drop (length w2) u1" "digits_ok w2" "unat c' \<le> 1"
    "dval (w2 @ u2) + unat c = dval u1 + radix ^ length u1 * unat c'"
    using sub_borrow_value [OF ok1 1(4) assms(2)] by blast+
  show "unat c' \<le> 1" by (rule 2(4))
  show "length (w1 @ w2 @ u2) = length u" "digits_ok (w1 @ w2 @ u2)" "u2 = drop (length (w1 @ w2)) u"
    using 1 2 assms by (simp_all add: add.commute)
  have r: "radix ^ length u = radix ^ length v * radix ^ length u1"
    using 1(3) assms(3) by (simp flip: power_add)
  have "dval (w1 @ w2 @ u2) + dval v + radix ^ length v * unat c =
      (dval w1 + dval v) + radix ^ length v * (dval (w2 @ u2) + unat c)"
    using 1(1) by (simp add: dval_append [of w1] distrib_left del: dval_append)
  also have "\<dots> = dval (take (length v) u) + radix ^ length v * unat c +
      (radix ^ length v * dval u1 + radix ^ length u * unat c')"
    by (simp only: 1(5) 2(5) distrib_left r mult.assoc)
  also have "\<dots> = dval u + radix ^ length u * unat c' + radix ^ length v * unat c"
    using dval_take_drop [OF assms(3)] 1(3) by simp
  finally show "dval (w1 @ w2 @ u2) + dval v = dval u + radix ^ length u * unat c'" by simp
qed

section \<open>What the routines compute\<close>

lemma stored_all [simp]: "length ds = length w \<Longrightarrow> stored ds w = ds"
  by (simp add: stored_def)

lemma stored_rest: "rest = drop (length ds) w \<Longrightarrow> stored ds w = ds @ rest"
  by (simp add: stored_def)

theorem vec_add_value:
  assumes "vlen \<le> ulen" "ulen \<le> length u" "vlen \<le> length v" "ulen < length w"
    and "digits_ok u" "digits_ok v" "digits_ok w" "dval (drop ulen w) = 0"
  shows "dval (vec_add ulen u vlen v w) = dval (take ulen u) + dval (take vlen v)"
    "digits_ok (vec_add ulen u vlen v w)" "length (vec_add ulen u vlen v w) = length w"
proof -
  obtain w1 u1 c where 1: "add_along 0 (take ulen u) (take vlen v) = (w1, u1, c)"
    by (metis prod_cases3)
  obtain w2 u2 c' where 2: "add_carry c u1 = (w2, u2, c')" by (metis prod_cases3)
  let ?ds = "w1 @ w2 @ u2"
  note l = add_loops [OF 1 2]
  have len: "length ?ds = ulen" and ok: "digits_ok ?ds" and c': "unat c' \<le> 1"
    and val: "dval ?ds + radix ^ ulen * unat c' = dval (take ulen u) + dval (take vlen v)"
    using l assms by (simp_all add: min_absorb2)
  let ?out = "?ds @ (if c' \<noteq> 0 then [1] else [])"
  have r: "vec_add ulen u vlen v w = stored ?out w"
    by (simp add: vec_add_def 1 2)
  have len_out: "length ?out \<le> length w" "ulen \<le> length ?out" using len assms by auto
  have one: "c' = 0 \<or> unat c' = 1"
    using c' by (metis One_nat_def le_Suc_eq le_zero_eq unsigned_eq_0_iff)
  have vout: "dval ?out = dval (take ulen u) + dval (take vlen v)"
  proof -
    have app: "dval (?ds @ x) = dval ?ds + radix ^ ulen * dval x" for x
      by (simp only: dval_append [of ?ds] len)
    show ?thesis using val one by (cases "c' = 0") (simp_all add: app del: dval_append append_assoc)
  qed
  have "dval (drop (length ?out) w) = 0"
    using assms(8) len_out(2) by (auto simp: dval_zero_iff dest: set_drop_subset_set_drop [THEN subsetD, rotated])
  then show "dval (vec_add ulen u vlen v w) = dval (take ulen u) + dval (take vlen v)"
    using vout by (simp only: r stored_def dval_append [of ?out])
  show "digits_ok (vec_add ulen u vlen v w)" using ok assms by (auto simp: r stored_def)
  show "length (vec_add ulen u vlen v w) = length w"
    using len_out by (simp only: r stored_def length_append length_drop)
qed

theorem vec_add_on_value:
  assumes "vlen \<le> length u" "vlen \<le> length v" "digits_ok u" "digits_ok v"
  shows "dval (vec_add_on (length u) u vlen v) = (dval u + dval (take vlen v)) mod radix ^ length u"
    "digits_ok (vec_add_on (length u) u vlen v)" "length (vec_add_on (length u) u vlen v) = length u"
proof -
  obtain w1 u1 c where 1: "add_along 0 u (take vlen v) = (w1, u1, c)" by (metis prod_cases3)
  obtain w2 u2 c' where 2: "add_carry c u1 = (w2, u2, c')" by (metis prod_cases3)
  have "length (take vlen v) \<le> length u" "digits_ok (take vlen v)" using assms by simp_all
  note l = add_loops [OF 1 2 this(1) assms(3) this(2)]
  have r: "vec_add_on (length u) u vlen v = w1 @ w2 @ u2"
    using stored_rest [OF l(4)] by (simp add: vec_add_on_def 1 2)
  have "dval (w1 @ w2 @ u2) < radix ^ length u" using dval_less [OF l(2)] l(1) by simp
  then show "dval (vec_add_on (length u) u vlen v) = (dval u + dval (take vlen v)) mod radix ^ length u"
    unfolding r l(5) [symmetric] by (simp del: dval_append)
  show "digits_ok (vec_add_on (length u) u vlen v)" "length (vec_add_on (length u) u vlen v) = length u"
    unfolding r using l(1,2) by auto
qed

theorem vec_add_on2_value:
  assumes "length u \<le> length v" "digits_ok u" "digits_ok v"
  shows "dval (vec_add_on2 (length u) u vlen v) =
      (dval u + dval (take (length u) v)) mod radix ^ length u"
    "digits_ok (vec_add_on2 (length u) u vlen v)" "length (vec_add_on2 (length u) u vlen v) = length u"
proof -
  obtain w1 v1 c where 1: "add_along 0 v u = (w1, v1, c)" by (metis prod_cases3)
  have l: "length w1 = length u" "digits_ok w1"
    "dval w1 + radix ^ length u * unat c = dval (take (length u) v) + dval u"
    using add_along_value [OF assms(1,3,2) _ 1] by simp_all
  have r: "vec_add_on2 (length u) u vlen v = w1" using l by (simp add: vec_add_on2_def 1)
  have "dval w1 < radix ^ length u" using dval_less [OF l(2)] l(1) by simp
  then have "dval w1 = (dval w1 + radix ^ length u * unat c) mod radix ^ length u" by simp
  then show "dval (vec_add_on2 (length u) u vlen v) =
      (dval u + dval (take (length u) v)) mod radix ^ length u"
    using l(3) by (simp only: r add.commute)
  show "digits_ok (vec_add_on2 (length u) u vlen v)" "length (vec_add_on2 (length u) u vlen v) = length u"
    using r l by simp_all
qed

lemma less_if_no_borrow:
  assumes "dval ds + V = U + radix ^ n * c" "dval ds < radix ^ n" "V \<le> U"
  shows "c = 0 \<and> dval ds = U - V"
proof -
  have "c = 0"
  proof (rule ccontr)
    assume "c \<noteq> 0"
    then have "radix ^ n \<le> radix ^ n * c" by simp
    with assms show False by linarith
  qed
  with assms show ?thesis by simp
qed

theorem vec_sub_value:
  assumes "vlen \<le> ulen" "ulen \<le> length u" "vlen \<le> length v" "ulen \<le> length w"
    and "digits_ok u" "digits_ok v" "digits_ok w" "dval (drop ulen w) = 0"
    and "dval (take vlen v) \<le> dval (take ulen u)"
  shows "dval (vec_sub ulen u vlen v w) = dval (take ulen u) - dval (take vlen v)"
    "digits_ok (vec_sub ulen u vlen v w)" "length (vec_sub ulen u vlen v w) = length w"
proof -
  obtain w1 u1 c where 1: "sub_along 0 (take ulen u) (take vlen v) = (w1, u1, c)"
    by (metis prod_cases3)
  obtain w2 u2 c' where 2: "sub_borrow c u1 = (w2, u2, c')" by (metis prod_cases3)
  let ?ds = "w1 @ w2 @ u2"
  note l = sub_loops [OF 1 2]
  have len: "length ?ds = ulen" and ok: "digits_ok ?ds"
    and val: "dval ?ds + dval (take vlen v) = dval (take ulen u) + radix ^ ulen * unat c'"
    using l assms by (simp_all add: min_absorb2)
  have "dval ?ds < radix ^ ulen" using dval_less [OF ok] len by simp
  from less_if_no_borrow [OF val this assms(9)]
  have v: "dval ?ds = dval (take ulen u) - dval (take vlen v)" by simp
  have r: "vec_sub ulen u vlen v w = ?ds @ drop ulen w"
    using len by (simp add: vec_sub_def 1 2 stored_def)
  show "dval (vec_sub ulen u vlen v w) = dval (take ulen u) - dval (take vlen v)"
    unfolding r using v assms(8) by (simp only: dval_append [of ?ds])
  show "digits_ok (vec_sub ulen u vlen v w)" using ok assms by (simp add: r)
  show "length (vec_sub ulen u vlen v w) = length w"
    using len assms by (simp only: r length_append [of ?ds] length_drop)
qed

theorem vec_sub_on_value:
  assumes "vlen \<le> length u" "vlen \<le> length v" "digits_ok u" "digits_ok v"
    and "dval (take vlen v) \<le> dval u"
  shows "dval (vec_sub_on (length u) u vlen v) = dval u - dval (take vlen v)"
    "digits_ok (vec_sub_on (length u) u vlen v)" "length (vec_sub_on (length u) u vlen v) = length u"
proof -
  obtain w1 u1 c where 1: "sub_along 0 u (take vlen v) = (w1, u1, c)" by (metis prod_cases3)
  obtain w2 u2 c' where 2: "sub_borrow c u1 = (w2, u2, c')" by (metis prod_cases3)
  have "length (take vlen v) \<le> length u" "digits_ok (take vlen v)" using assms by simp_all
  note l = sub_loops [OF 1 2 this(1) assms(3) this(2)]
  have r: "vec_sub_on (length u) u vlen v = w1 @ w2 @ u2"
    using stored_rest [OF l(4)] by (simp add: vec_sub_on_def 1 2)
  have "dval (w1 @ w2 @ u2) < radix ^ length u" using dval_less [OF l(2)] l(1) by simp
  from less_if_no_borrow [OF l(5) this assms(5)]
  show "dval (vec_sub_on (length u) u vlen v) = dval u - dval (take vlen v)"
    unfolding r by simp
  show "digits_ok (vec_sub_on (length u) u vlen v)" "length (vec_sub_on (length u) u vlen v) = length u"
    unfolding r using l(1,2) by auto
qed

theorem vec_sub_on2_value:
  assumes "vlen \<le> length v" "digits_ok u" "digits_ok v" "dval u < dval (take vlen v)"
  shows "dval (vec_sub_on2 (length u) u vlen v) =
      (dval (take vlen v) - dval u) mod radix ^ length u"
    "digits_ok (vec_sub_on2 (length u) u vlen v)"
    "length (vec_sub_on2 (length u) u vlen v) = length u"
proof -
  let ?n = "min (length u) vlen" and ?v = "take vlen v"
  obtain w1 v1 c where 1: "sub_along 0 v (take ?n u) = (w1, v1, c)" by (metis prod_cases3)
  have "length (take ?n u) = ?n" by simp
  then have l: "length w1 = ?n" "digits_ok w1"
    "dval w1 + dval (take ?n u) = dval (take ?n v) + radix ^ ?n * unat c"
    using sub_along_value [OF _ assms(3) _ _ 1] assms by simp_all
  have r: "vec_sub_on2 (length u) u vlen v = w1 @ drop ?n u"
    using l by (simp add: vec_sub_on2_def 1 stored_def)
  have w1: "dval w1 < radix ^ ?n" using dval_less [OF l(2)] l(1) by simp
  show "dval (vec_sub_on2 (length u) u vlen v) = (dval ?v - dval u) mod radix ^ length u"
  proof (cases "length u \<le> vlen")
    case True
    then have n: "?n = length u" by simp
    define h where "h = dval (drop (length u) ?v)"
    have v: "dval ?v = dval (take (length u) v) + radix ^ length u * h"
      using dval_take_drop [of "length u" ?v] True assms(1) by (simp add: h_def min_absorb1)
    have e: "dval w1 + dval u = dval (take (length u) v) + radix ^ length u * unat c"
      using l(3) n by simp
    have "(dval ?v - dval u) mod radix ^ length u =
        (dval ?v - dval u + radix ^ length u * unat c) mod radix ^ length u" by simp
    also have "dval ?v - dval u + radix ^ length u * unat c = dval w1 + radix ^ length u * h"
      using v e assms(4) by linarith
    also have "(dval w1 + radix ^ length u * h) mod radix ^ length u = dval w1"
      using w1 n by simp
    finally show ?thesis using n by (simp add: r)
  next
    case False
    then have n: "?n = vlen" by simp
    have u: "dval u = dval (take vlen u) + radix ^ vlen * dval (drop vlen u)"
      using dval_take_drop [of vlen u] False by simp
    have vl: "dval ?v < radix ^ vlen" using dval_less [of ?v] assms by simp
    have z: "dval (drop vlen u) = 0"
    proof (rule ccontr)
      assume "dval (drop vlen u) \<noteq> 0"
      then have "radix ^ vlen \<le> radix ^ vlen * dval (drop vlen u)" by simp
      with u vl assms(4) show False by linarith
    qed
    have "dval w1 + dval u = dval ?v + radix ^ vlen * unat c" using l(3) n u z by simp
    from less_if_no_borrow [OF this] have "dval w1 = dval ?v - dval u"
      using w1 n assms(4) by simp
    moreover have "dval (w1 @ drop vlen u) = dval w1" using z by simp
    moreover have le: "radix ^ vlen \<le> radix ^ length u"
      using False by (intro power_increasing) auto
    moreover have "dval w1 < radix ^ length u"
      by (rule less_le_trans [OF w1 [unfolded n] le])
    ultimately show ?thesis using n by (simp add: r del: dval_append)
  qed
  show "digits_ok (vec_sub_on2 (length u) u vlen v)"
    "length (vec_sub_on2 (length u) u vlen v) = length u"
    using l assms by (simp_all add: r)
qed

section \<open>Adding and subtracting a single digit\<close>

lemma add_small_loop_value:
  "digits_ok u \<Longrightarrow> unat v < radix \<Longrightarrow>
     digits_ok (add_small_loop v u) \<and> length (add_small_loop v u) = length u \<and>
     dval (add_small_loop v u) = (dval u + unat v) mod radix ^ length u"
proof (induction v u rule: add_small_loop.induct)
  case (2 v a u)
  show ?case
  proof (cases "v = 0")
    case True
    then show ?thesis using 2 dval_less [of "a # u"] by simp
  next
    case False
    let ?t = "v + a"
    have t: "unat ?t = unat a + unat v" using 2 by (subst unat_plus_eq) simp_all
    then have "unat (drop_bit BITS_PER_DIGIT ?t) < radix"
      using 2 by (simp add: unat_over less_mult_imp_div_less)
    then have IH: "digits_ok (add_small_loop (drop_bit BITS_PER_DIGIT ?t) u)"
      "length (add_small_loop (drop_bit BITS_PER_DIGIT ?t) u) = length u"
      "dval (add_small_loop (drop_bit BITS_PER_DIGIT ?t) u) =
        (dval u + unat ?t div radix) mod radix ^ length u"
      using "2.IH" [OF False refl] 2(2) by (simp_all add: unat_over)
    have "(dval (a # u) + unat v) mod radix ^ length (a # u) =
        (unat ?t + radix * dval u) mod (radix * radix ^ length u)" 
      by (simp only: t dval.simps length_Cons power_Suc) (simp only: ac_simps)
    also have "\<dots> = unat ?t mod radix + radix * ((dval u + unat ?t div radix) mod radix ^ length u)"
      by (simp only: digit_step_mod add.commute)
    finally show ?thesis using False IH by (simp add: Let_def unat_and_mask)
  qed
qed simp

theorem vec_add_small_on_value:
  assumes "digits_ok u" "unat v < radix"
  shows "dval (vec_add_small_on (length u) u v) = (dval u + unat v) mod radix ^ length u"
    "digits_ok (vec_add_small_on (length u) u v)" "length (vec_add_small_on (length u) u v) = length u"
  using add_small_loop_value [OF assms] by (simp_all add: vec_add_small_on_def)

lemma sub_small_loop_value:
  "digits_ok u \<Longrightarrow> unat v < radix \<Longrightarrow> unat v \<le> dval u \<Longrightarrow>
     digits_ok (sub_small_loop v u) \<and> length (sub_small_loop v u) = length u \<and>
     dval (sub_small_loop v u) = dval u - unat v"
proof (induction v u rule: sub_small_loop.induct)
  case (2 v a u)
  let ?t = "(a + DIGIT_RADIX) - v"
  let ?b = "1 - drop_bit BITS_PER_DIGIT ?t"
  have step: "unat ?b \<le> 1" "unat (?t AND DIGIT_MASK) + unat v = unat a + radix * unat ?b"
    using sub_step [of 0 a v] 2 by simp_all
  have "unat (?t AND DIGIT_MASK) < radix" by (simp add: unat_and_mask)
  have le: "unat ?b \<le> dval u"
  proof (rule ccontr)
    assume "\<not> unat ?b \<le> dval u"
    then have "dval u = 0" "unat ?b = 1" using step(1) by linarith+
    then show False using step(2) 2(3,4) \<open>unat (?t AND DIGIT_MASK) < radix\<close> by simp
  qed
  then have IH: "digits_ok (sub_small_loop ?b u)" "length (sub_small_loop ?b u) = length u"
    "dval (sub_small_loop ?b u) = dval u - unat ?b"
    using "2.IH" [OF refl] 2(2) step(1) by simp_all
  have "unat (?t AND DIGIT_MASK) + radix * (dval u - unat ?b) = unat a + radix * dval u - unat v"
    using step(2) le by (simp add: diff_mult_distrib2)
  then show ?case using IH by (simp add: Let_def unat_and_mask)
qed simp

theorem vec_sub_small_on_value:
  assumes "digits_ok u" "unat v < radix" "unat v \<le> dval u"
  shows "dval (vec_sub_small_on (length u) u v) = dval u - unat v"
    "digits_ok (vec_sub_small_on (length u) u v)" "length (vec_sub_small_on (length u) u v) = length u"
  using sub_small_loop_value [OF assms] by (simp_all add: vec_sub_small_on_def)

end
