(* ===== verification/Dt_Mul.thy ===== *)
theory Dt_Mul
  imports Dt_Vec
begin

text \<open>
  Multiplication of digit vectors, by halves of digits, and division by a half digit
  (datatypes/int/sc_nbutils.cpp).  Every intermediate sum of the code is shown to fit into its
  32 bits, as the comments of \<^verbatim>\<open>vec_mul\<close> claim: the lemmas on single steps carry this.
\<close>

unbundle bit_operations_syntax

section \<open>Multiplication\<close>

text \<open>
  The inner loop of \<^verbatim>\<open>vec_mul\<close> on one digit \<open>u_h|u_l\<close> of the first factor: \<open>w\<close> runs along the
  result while \<open>v\<close> runs along the second factor; the carry is stored at the end.
\<close>

fun mul_row :: "digit \<Rightarrow> digit \<Rightarrow> digit \<Rightarrow> digits \<Rightarrow> digits \<Rightarrow> digits" where
  "mul_row u_h u_l carry [] [] = []"
| "mul_row u_h u_l carry [] (x # w) = carry # w"
| "mul_row u_h u_l carry (d # v) [] = []"
| "mul_row u_h u_l carry (d # v) (x # w) =
     (let v_l = low_half d;
          v_h = high_half d;
          prod_l = x + u_l * v_l + low_half carry;
          prod_h = u_h * v_l + u_l * v_h + high_half prod_l + high_half carry
      in concat_halves (low_half prod_h) (low_half prod_l)
           # mul_row u_h u_l (u_h * v_h + high_half prod_h) v w)"

text \<open>The outer loop: the next digit of \<open>u\<close> starts one digit further in the result.\<close>

fun mul_rows :: "digits \<Rightarrow> digits \<Rightarrow> digits \<Rightarrow> digits" where
  "mul_rows [] v w = w"
| "mul_rows (a # u) v w =
     (case mul_row (high_half a) (low_half a) 0 v w of
        [] \<Rightarrow> []
      | x # w \<Rightarrow> x # mul_rows u v w)"

definition vec_mul :: "nat \<Rightarrow> digits \<Rightarrow> nat \<Rightarrow> digits \<Rightarrow> digits \<Rightarrow> digits" where
  "vec_mul ulen u vlen v w = mul_rows (take ulen u) (take vlen v) w"

text \<open>Multiplication by a half digit: the digits stored and the carry.\<close>

fun mul_small_loop :: "digit \<Rightarrow> digit \<Rightarrow> digits \<Rightarrow> digits \<times> digit" where
  "mul_small_loop v carry [] = ([], carry)"
| "mul_small_loop v carry (u_AB # u) =
     (let prod_l = v * low_half u_AB + low_half carry;
          prod_h = v * high_half u_AB + high_half prod_l + high_half carry;
          (ws, out) = mul_small_loop v (high_half prod_h) u
      in (concat_halves (low_half prod_h) (low_half prod_l) # ws, out))"

definition vec_mul_small :: "nat \<Rightarrow> digits \<Rightarrow> digit \<Rightarrow> digits \<Rightarrow> digits" where
  "vec_mul_small ulen u v w =
     (let (ws, carry) = mul_small_loop v 0 (take ulen u) in stored (ws @ [carry]) w)"

definition vec_mul_small_on :: "nat \<Rightarrow> digits \<Rightarrow> digit \<Rightarrow> digits" where
  "vec_mul_small_on ulen u v = stored (fst (mul_small_loop v 0 (take ulen u))) u"

section \<open>Division by a half digit\<close>

text \<open>From the most significant digit down: the digits of the quotient and the remainder.\<close>

fun div_small_loop :: "digit \<Rightarrow> digits \<Rightarrow> digits \<times> digit" where
  "div_small_loop v [] = ([], 0)"
| "div_small_loop v (u_AB # u) =
     (let (qs, r) = div_small_loop v u;
          num = concat_halves r (high_half u_AB);
          q_h = num div v;
          num = concat_halves (num mod v) (low_half u_AB)
      in (concat_halves q_h (num div v) # qs, num mod v))"

definition vec_div_small :: "nat \<Rightarrow> digits \<Rightarrow> digit \<Rightarrow> digits \<Rightarrow> digits" where
  "vec_div_small ulen u v q = stored (fst (div_small_loop v (take ulen u))) q"

fun vec_rem_small_loop :: "digit \<Rightarrow> digits \<Rightarrow> digit" where
  "vec_rem_small_loop v [] = 0"
| "vec_rem_small_loop v (u_AB # u) =
     concat_halves (concat_halves (vec_rem_small_loop v u) (high_half u_AB) mod v) (low_half u_AB)
       mod v"

definition vec_rem_small :: "nat \<Rightarrow> digits \<Rightarrow> digit \<Rightarrow> digit" where
  "vec_rem_small ulen u v = vec_rem_small_loop v (take ulen u)"

definition vec_rem_on_small :: "nat \<Rightarrow> digits \<Rightarrow> digit \<Rightarrow> digit \<times> digits" where
  "vec_rem_on_small ulen u v =
     (let (qs, r) = div_small_loop v (take ulen u) in (r, stored qs u))"

section \<open>One step of a multiplication\<close>

abbreviation half :: nat where "half \<equiv> 32768"

lemma halves: "unat d = unat (low_half d) + half * unat (high_half d)"
  by (simp add: digit_unat)

lemma low_half_less: "unat (low_half d) < half"
  by (simp add: digit_unat)

lemma high_half_less: "unat d < radix \<Longrightarrow> unat (high_half d) < half"
  by (simp add: digit_unat less_mult_imp_div_less)

lemma high_half_le: "unat d \<le> half * n \<Longrightarrow> unat (high_half d) \<le> n"
  by (simp add: digit_unat div_le_mono [THEN order_trans [where y = "half * n div half"]])

lemma half_product:
  assumes "a < half" "b < half"
  shows "a * b \<le> 1073676289"
proof -
  have "a * b \<le> 32767 * 32767" using assms by (intro mult_le_mono) auto
  then show ?thesis by simp
qed

lemma unat_half_product:
  assumes "unat a < half" "unat b < half"
  shows "unat (a * b :: digit) = unat a * unat b"
  using half_product [OF assms] by (intro unat_times_eq) simp

lemma concat_low_halves:
  "unat (concat_halves (low_half h) (low_half l)) = unat (low_half h) * half + unat (low_half l)"
  by (rule unat_concat_halves) (use low_half_less [of h] low_half_less [of l] in linarith)+

lemma mul_step_arith:
  fixes digit out pl ph x carry p1 p2 p3 p4 :: nat
  assumes "digit = lph * half + lpl" "out = p4 + hph" "pl = x + p1 + lc" "ph = p2 + p3 + hpl + hc"
    and "pl = lpl + half * hpl" "ph = lph + half * hph" "carry = lc + half * hc"
  shows "digit + radix * out = x + (p1 + half * (p2 + p3) + radix * p4) + carry"
proof -
  have "half * lph + radix * hph = half * p2 + half * p3 + half * hpl + half * hc"
    using arg_cong [OF assms(6), of "(*) half"] assms(4) by simp
  moreover have "lpl + half * hpl = x + p1 + lc" using assms(3,5) by simp
  ultimately show ?thesis using assms(1,2,7) by simp
qed

lemma mul_step:
  assumes "unat u_h < half" "unat u_l < half" "unat d < radix" "unat x < radix" "unat carry < radix"
  defines "prod_l \<equiv> x + u_l * low_half d + low_half carry"
  defines "prod_h \<equiv> u_h * low_half d + u_l * high_half d + high_half prod_l + high_half carry"
  defines "out \<equiv> u_h * high_half d + high_half prod_h"
  defines "digit \<equiv> concat_halves (low_half prod_h) (low_half prod_l)"
  shows "unat digit + radix * unat out =
      unat x + (unat u_l + half * unat u_h) * unat d + unat carry"
    "unat digit < radix" "unat out < radix"
proof -
  let ?dl = "unat (low_half d)" and ?dh = "unat (high_half d)"
  have dh: "?dh < half" using assms(3) by (rule high_half_less)
  have ch: "unat (high_half carry) < half" using assms(5) by (rule high_half_less)
  note dl = low_half_less [of d]
  note p = half_product [OF assms(1) dl] half_product [OF assms(2) dl] half_product [OF assms(1) dh]
    half_product [OF assms(2) dh]
  note up = unat_half_product [OF assms(1) dl] unat_half_product [OF assms(2) dl]
    unat_half_product [OF assms(1) dh] unat_half_product [OF assms(2) dh]
  have 1: "unat (x + u_l * low_half d) = unat x + unat u_l * ?dl"
    using p assms(4) by (simp add: unat_plus_eq up)
  have pl: "unat prod_l = unat x + unat u_l * ?dl + unat (low_half carry)"
    unfolding prod_l_def using p assms(4) low_half_less [of carry]
    by (simp add: unat_plus_eq 1)
  have "unat prod_l \<le> half * 65535" using pl p assms(4) low_half_less [of carry] by linarith
  then have plh: "unat (high_half prod_l) \<le> 65535" by (rule high_half_le)
  have 2: "unat (u_h * low_half d + u_l * high_half d) = unat u_h * ?dl + unat u_l * ?dh"
    using p by (simp add: unat_plus_eq up)
  have 3: "unat (u_h * low_half d + u_l * high_half d + high_half prod_l) =
      unat u_h * ?dl + unat u_l * ?dh + unat (high_half prod_l)"
    using p plh by (simp add: unat_plus_eq 2)
  have ph: "unat prod_h = unat u_h * ?dl + unat u_l * ?dh + unat (high_half prod_l) +
      unat (high_half carry)"
    unfolding prod_h_def using p plh ch by (simp add: unat_plus_eq 3)
  have "unat prod_h \<le> half * 65536" using ph p plh ch by linarith
  then have phh: "unat (high_half prod_h) \<le> 65536" by (rule high_half_le)
  have out: "unat out = unat u_h * ?dh + unat (high_half prod_h)"
    unfolding out_def using p phh by (simp add: unat_plus_eq up)
  have dig: "unat digit = unat (low_half prod_h) * half + unat (low_half prod_l)"
    unfolding digit_def by (rule concat_low_halves)
  then show "unat digit < radix"
    using low_half_less [of prod_h] low_half_less [of prod_l] by linarith
  have prod: "(unat u_l + half * unat u_h) * unat d =
      unat u_l * ?dl + half * (unat u_h * ?dl + unat u_l * ?dh) + radix * (unat u_h * ?dh)"
    by (subst halves [of d]) (simp add: algebra_simps)
  show eq: "unat digit + radix * unat out =
      unat x + (unat u_l + half * unat u_h) * unat d + unat carry"
    unfolding prod
    by (rule mul_step_arith [OF dig out pl ph halves [of prod_l] halves [of prod_h] halves [of carry]])
  define m where "m = (unat u_l + half * unat u_h) * unat d"
  have "m \<le> 1073741823 * 1073741823"
    unfolding m_def using assms(1-3) by (intro mult_le_mono) linarith+
  then have "radix * unat out < radix * radix"
    using eq [folded m_def] assms(4,5) by linarith
  then show "unat out < radix" by simp
qed

section \<open>What the loops compute\<close>

lemma zero_vec:
  assumes "\<forall>d \<in> set w. d = 0"
  shows "digits_ok w" "dval w = 0" "digits_ok (drop n w)" "dval (drop n w) = 0"
proof -
  have *: "\<forall>d \<in> set (drop n w). d = 0" using assms by (auto dest: in_set_dropD)
  show "digits_ok w" "digits_ok (drop n w)" using assms * by (fastforce simp: digits_ok_def)+
  show "dval w = 0" "dval (drop n w) = 0" using assms * by (simp_all add: dval_zero_iff)
qed

lemma mul_row_value:
  assumes "unat u_h < half" "unat u_l < half"
  shows "digits_ok v \<Longrightarrow> digits_ok w \<Longrightarrow> length v < length w \<Longrightarrow> unat carry < radix \<Longrightarrow>
     length (mul_row u_h u_l carry v w) = length w \<and> digits_ok (mul_row u_h u_l carry v w) \<and>
     drop (Suc (length v)) (mul_row u_h u_l carry v w) = drop (Suc (length v)) w \<and>
     dval (mul_row u_h u_l carry v w) + radix ^ length v * unat (w ! length v) =
       dval w + (unat u_l + half * unat u_h) * dval v + unat carry"
proof (induction v arbitrary: w carry)
  case Nil
  then obtain x w' where "w = x # w'" by (cases w) auto
  with Nil show ?case by simp
next
  case (Cons d v)
  then obtain x w' where w: "w = x # w'" by (cases w) auto
  let ?A = "unat u_l + half * unat u_h"
  define pl where "pl = x + u_l * low_half d + low_half carry"
  define ph where "ph = u_h * low_half d + u_l * high_half d + high_half pl + high_half carry"
  define out where "out = u_h * high_half d + high_half ph"
  define dg where "dg = concat_halves (low_half ph) (low_half pl)"
  from Cons.prems w have "unat d < radix" "unat x < radix" by simp_all
  note step = mul_step [OF assms this Cons.prems(4), folded pl_def, folded ph_def, folded out_def dg_def]
  let ?r = "mul_row u_h u_l out v w'"
  have row: "mul_row u_h u_l carry (d # v) w = dg # ?r"
    by (simp add: w Let_def pl_def ph_def out_def dg_def)
  have IH: "length ?r = length w'" "digits_ok ?r" "drop (Suc (length v)) ?r = drop (Suc (length v)) w'"
    "dval ?r + radix ^ length v * unat (w' ! length v) = dval w' + ?A * dval v + unat out"
    using Cons.IH [of w' out] Cons.prems w step(3) by simp_all
  have "dval (dg # ?r) + radix ^ length (d # v) * unat (w ! length (d # v)) =
      unat dg + radix * (dval ?r + radix ^ length v * unat (w' ! length v))"
    by (simp add: w distrib_left)
  also have "\<dots> = (unat dg + radix * unat out) + radix * dval w' + radix * (?A * dval v)"
    by (simp only: IH(4) distrib_left)
  also have "\<dots> = dval w + ?A * dval (d # v) + unat carry"
    by (simp only: step(1)) (simp add: w distrib_left distrib_right)
  finally have val: "dval (dg # ?r) + radix ^ length (d # v) * unat (w ! length (d # v)) =
      dval w + ?A * dval (d # v) + unat carry" .
  show ?case
    unfolding row using val IH step(2) by (simp add: w del: dval.simps mul_row.simps)
qed

lemma mul_rows_value:
  "digits_ok u \<Longrightarrow> digits_ok v \<Longrightarrow> digits_ok w \<Longrightarrow> length u + length v \<le> length w \<Longrightarrow>
     dval (drop (length v) w) = 0 \<Longrightarrow>
     length (mul_rows u v w) = length w \<and> digits_ok (mul_rows u v w) \<and>
     dval (mul_rows u v w) = dval w + dval u * dval v"
proof (induction u arbitrary: w)
  case (Cons a u)
  let ?r = "mul_row (high_half a) (low_half a) 0 v w"
  have a: "unat (high_half a) < half" "unat (low_half a) < half"
    using Cons.prems by (simp_all add: high_half_less low_half_less)
  have len: "length v < length w" using Cons.prems by simp
  have "w ! length v \<in> set (drop (length v) w)"
    using len by (metis Cons_nth_drop_Suc list.set_intros(1))
  then have top: "unat (w ! length v) = 0" using Cons.prems(5) by (auto simp: dval_zero_iff)
  have "unat (low_half a) + half * unat (high_half a) = unat a" using halves [of a] by simp
  with mul_row_value [OF a Cons.prems(2,3) len, of 0] top
  have row: "length ?r = length w" "digits_ok ?r"
    "drop (Suc (length v)) ?r = drop (Suc (length v)) w" "dval ?r = dval w + unat a * dval v"
    by simp_all
  then obtain x w' where r: "?r = x # w'" using len by (cases ?r) auto
  have z: "dval (drop (length v) w') = 0"
  proof -
    have "drop (length v) w' = drop (Suc (length v)) w" using row(3) r by simp
    moreover have "set (drop (Suc (length v)) w) \<subseteq> set (drop (length v) w)"
      by (simp add: set_drop_subset_set_drop)
    ultimately show ?thesis using Cons.prems(5) by (auto simp: dval_zero_iff)
  qed
  have IH: "length (mul_rows u v w') = length w'" "digits_ok (mul_rows u v w')"
    "dval (mul_rows u v w') = dval w' + dval u * dval v"
    using Cons.IH [of w'] Cons.prems row r z by simp_all
  have "dval (x # mul_rows u v w') = dval ?r + radix * (dval u * dval v)"
    using IH(3) by (simp add: r distrib_left)
  also have "\<dots> = dval w + dval (a # u) * dval v"
    by (simp only: row(4)) (simp add: distrib_right)
  finally show ?case using IH row r by simp
qed simp

theorem vec_mul_value:
  assumes "digits_ok u" "digits_ok v" "ulen \<le> length u" "vlen \<le> length v"
    and "ulen + vlen \<le> length w" "\<forall>d \<in> set w. d = 0"
  shows "dval (vec_mul ulen u vlen v w) = dval (take ulen u) * dval (take vlen v)"
    "digits_ok (vec_mul ulen u vlen v w)" "length (vec_mul ulen u vlen v w) = length w"
proof -
  note zero_vec [OF assms(6)]
  with mul_rows_value [of "take ulen u" "take vlen v" w] assms
  show "dval (vec_mul ulen u vlen v w) = dval (take ulen u) * dval (take vlen v)"
    "digits_ok (vec_mul ulen u vlen v w)" "length (vec_mul ulen u vlen v w) = length w"
    by (simp_all add: vec_mul_def min_absorb2)
qed

lemma mul_small_step:
  assumes "unat v < half" "unat d < radix" "unat carry < half"
  defines "prod_l \<equiv> v * low_half d + low_half carry"
  defines "prod_h \<equiv> v * high_half d + high_half prod_l + high_half carry"
  defines "out \<equiv> high_half prod_h"
  defines "digit \<equiv> concat_halves (low_half prod_h) (low_half prod_l)"
  shows "unat digit + radix * unat out = unat v * unat d + unat carry"
    "unat digit < radix" "unat out < half"
proof -
  have z: "(0 :: digit) = 0 * low_half d" "(0 :: digit) = 0 * high_half d" by simp_all
  have m: "concat_halves (low_half (0 * low_half d + v * high_half d + high_half (0 + v * low_half d +
      low_half carry) + high_half carry)) (low_half (0 + v * low_half d + low_half carry)) = digit"
    "0 * high_half d + high_half (0 * low_half d + v * high_half d + high_half (0 + v * low_half d +
      low_half carry) + high_half carry) = out"
    by (simp_all add: digit_def out_def prod_h_def prod_l_def)
  have "unat carry < radix" using assms(3) by simp
  from mul_step [of 0 v d 0 carry, unfolded m] this assms(1,2)
  show eq: "unat digit + radix * unat out = unat v * unat d + unat carry" and "unat digit < radix"
    by simp_all
  have "unat v * unat d \<le> 32767 * 1073741823" using assms by (intro mult_le_mono) linarith+
  then have "radix * unat out < radix * half" using eq assms(3) by linarith
  then show "unat out < half" by simp
qed

lemma mul_small_loop_value:
  assumes "unat v < half"
  shows "digits_ok u \<Longrightarrow> unat carry < half \<Longrightarrow> mul_small_loop v carry u = (ws, out) \<Longrightarrow>
     length ws = length u \<and> digits_ok ws \<and> unat out < half \<and>
     dval ws + radix ^ length u * unat out = dval u * unat v + unat carry"
proof (induction u arbitrary: carry ws)
  case (Cons d u)
  define pl where "pl = v * low_half d + low_half carry"
  define ph where "ph = v * high_half d + high_half pl + high_half carry"
  define c' where "c' = high_half ph"
  define dg where "dg = concat_halves (low_half ph) (low_half pl)"
  from Cons.prems have "unat d < radix" by simp
  note step = mul_small_step [OF assms this Cons.prems(2), folded pl_def, folded ph_def,
      folded c'_def dg_def]
  obtain ws' where rec: "mul_small_loop v c' u = (ws', out)" and ws: "ws = dg # ws'"
    using Cons.prems(3)
    by (auto simp: Let_def pl_def ph_def c'_def dg_def split: prod.splits)
  have IH: "length ws' = length u" "digits_ok ws'" "unat out < half"
    "dval ws' + radix ^ length u * unat out = dval u * unat v + unat c'"
    using Cons.IH [OF _ step(3) rec] Cons.prems by simp_all
  have "dval ws + radix ^ length (d # u) * unat out =
      unat dg + radix * (dval ws' + radix ^ length u * unat out)"
    by (simp add: ws distrib_left)
  also have "\<dots> = (unat dg + radix * unat c') + radix * (dval u * unat v)"
    by (simp only: IH(4) distrib_left)
  also have "\<dots> = dval (d # u) * unat v + unat carry"
    by (simp only: step(1)) (simp add: algebra_simps)
  finally show ?case using IH step(2) ws by simp
qed simp

theorem vec_mul_small_value:
  assumes "digits_ok u" "ulen \<le> length u" "unat v < half" "ulen < length w" "\<forall>d \<in> set w. d = 0"
  shows "dval (vec_mul_small ulen u v w) = dval (take ulen u) * unat v"
    "digits_ok (vec_mul_small ulen u v w)" "length (vec_mul_small ulen u v w) = length w"
proof -
  obtain ws out where l: "mul_small_loop v 0 (take ulen u) = (ws, out)" by fastforce
  have v: "length ws = ulen" "digits_ok ws" "unat out < half"
    "dval ws + radix ^ ulen * unat out = dval (take ulen u) * unat v"
    using mul_small_loop_value [OF assms(3) _ _ l] assms by (simp_all add: min_absorb2)
  have r: "vec_mul_small ulen u v w = ws @ [out] @ drop (Suc ulen) w"
    using v by (simp add: vec_mul_small_def l stored_def)
  note zero_vec [OF assms(5)]
  then show "dval (vec_mul_small ulen u v w) = dval (take ulen u) * unat v"
    "digits_ok (vec_mul_small ulen u v w)" "length (vec_mul_small ulen u v w) = length w"
    using v assms by (simp_all add: r)
qed

theorem vec_mul_small_on_value:
  assumes "digits_ok u" "unat v < half"
  shows "dval (vec_mul_small_on (length u) u v) = dval u * unat v mod radix ^ length u"
    "digits_ok (vec_mul_small_on (length u) u v)" "length (vec_mul_small_on (length u) u v) = length u"
proof -
  obtain ws out where l: "mul_small_loop v 0 u = (ws, out)" by fastforce
  have v: "length ws = length u" "digits_ok ws"
    "dval ws + radix ^ length u * unat out = dval u * unat v"
    using mul_small_loop_value [OF assms(2,1) _ l] by simp_all
  have r: "vec_mul_small_on (length u) u v = ws" using v by (simp add: vec_mul_small_on_def l)
  have "dval ws < radix ^ length u" using dval_less [OF v(2)] v(1) by simp
  then show "dval (vec_mul_small_on (length u) u v) = dval u * unat v mod radix ^ length u"
    unfolding r v(3) [symmetric] by simp
  show "digits_ok (vec_mul_small_on (length u) u v)" "length (vec_mul_small_on (length u) u v) = length u"
    using r v by simp_all
qed

section \<open>Dividing by a half digit\<close>

lemma div_small_step:
  assumes "unat r < unat v" "unat v < half" "unat d < radix"
  defines "num \<equiv> concat_halves r (high_half d)"
  defines "num' \<equiv> concat_halves (num mod v) (low_half d)"
  defines "q \<equiv> concat_halves (num div v) (num' div v)"
  shows "unat q * unat v + unat (num' mod v) = radix * unat r + unat d"
    "unat (num' mod v) < unat v" "unat q < radix"
proof -
  let ?v = "unat v"
  have hd: "unat (high_half d) < half" using assms(3) by (rule high_half_less)
  have lt: "unat a div ?v < half" if "unat a < half * ?v" for a :: digit
    using that assms(1) by (simp add: less_mult_imp_div_less mult.commute)
  have bound: "unat (concat_halves s l) = unat s * half + unat l \<and>
      unat (concat_halves s l) < half * ?v" if "unat s < ?v" "unat l < half" for s l
  proof -
    have eq: "unat (concat_halves s l) = unat s * half + unat l"
      using that assms(2) by (intro unat_concat_halves) linarith+
    moreover have "half * (unat s + 1) \<le> half * ?v" using that(1) by (intro mult_le_mono2) simp
    ultimately show ?thesis using that(2) by simp
  qed
  have num: "unat num = unat r * half + unat (high_half d)" "unat num < half * ?v"
    using bound [OF assms(1) hd] by (simp_all add: num_def)
  have m: "unat (num mod v) = unat num mod ?v" "unat (num div v) = unat num div ?v"
    by (simp_all add: unat_mod unat_div)
  have "unat (num mod v) < ?v" using assms(1) m by simp
  from bound [OF this low_half_less]
  have num': "unat num' = unat (num mod v) * half + unat (low_half d)" "unat num' < half * ?v"
    unfolding num'_def by blast+
  have m': "unat (num' mod v) = unat num' mod ?v" "unat (num' div v) = unat num' div ?v"
    by (simp_all add: unat_mod unat_div)
  show "unat (num' mod v) < ?v" using assms(1) m' by simp
  have qh: "unat (num div v) < half" "unat (num' div v) < half"
    using lt [OF num(2)] lt [OF num'(2)] m m' by simp_all
  then have q: "unat q = unat (num div v) * half + unat (num' div v)"
    unfolding q_def by (intro unat_concat_halves) linarith+
  then show "unat q < radix" using qh by linarith
  have e1: "unat (num div v) * ?v + unat (num mod v) = unat num"
    unfolding m by (rule div_mult_mod_eq)
  have e2: "unat (num' div v) * ?v + unat (num' mod v) = unat num'"
    unfolding m' by (rule div_mult_mod_eq)
  have "unat q * ?v + unat (num' mod v) =
      half * (unat (num div v) * ?v) + (unat (num' div v) * ?v + unat (num' mod v))"
    by (simp add: q distrib_right)
  also have "\<dots> = half * (unat (num div v) * ?v + unat (num mod v)) + unat (low_half d)"
    by (simp only: e2 num'(1)) (simp add: distrib_left)
  also have "\<dots> = radix * unat r + unat d"
    by (subst halves [of d]) (simp add: e1 num(1))
  finally show "unat q * ?v + unat (num' mod v) = radix * unat r + unat d" .
qed

lemma div_small_loop_value:
  assumes "0 < unat v" "unat v < half"
  shows "digits_ok u \<Longrightarrow> div_small_loop v u = (qs, r) \<Longrightarrow>
     length qs = length u \<and> digits_ok qs \<and> unat r < unat v \<and> dval u = dval qs * unat v + unat r"
proof (induction u arbitrary: qs r)
  case (Cons d u)
  obtain qs' r' where rec: "div_small_loop v u = (qs', r')" by fastforce
  have IH: "length qs' = length u" "digits_ok qs'" "unat r' < unat v"
    "dval u = dval qs' * unat v + unat r'"
    using Cons.IH [OF _ rec] Cons.prems by simp_all
  define num where "num = concat_halves r' (high_half d)"
  define num' where "num' = concat_halves (num mod v) (low_half d)"
  define q where "q = concat_halves (num div v) (num' div v)"
  from Cons.prems have "unat d < radix" by simp
  note step = div_small_step [OF IH(3) assms(2) this, folded num_def, folded num'_def, folded q_def]
  have r: "qs = q # qs'" "r = num' mod v"
    using Cons.prems(2) by (simp_all add: rec Let_def num_def num'_def q_def)
  have "dval (d # u) = radix * unat r' + unat d + radix * (dval qs' * unat v)"
    by (simp add: IH(4) distrib_left)
  also have "\<dots> = dval qs * unat v + unat r"
    by (simp only: step(1) [symmetric] r) (simp add: distrib_right)
  finally show ?case using IH step r by simp
qed (use assms in simp)

theorem vec_div_small_value:
  assumes "digits_ok u" "ulen \<le> length u" "0 < unat v" "unat v < half"
    and "ulen \<le> length q" "\<forall>d \<in> set q. d = 0"
  shows "dval (vec_div_small ulen u v q) = dval (take ulen u) div unat v"
    "digits_ok (vec_div_small ulen u v q)" "length (vec_div_small ulen u v q) = length q"
proof -
  obtain qs r where l: "div_small_loop v (take ulen u) = (qs, r)" by fastforce
  have v: "length qs = ulen" "digits_ok qs" "unat r < unat v"
    "dval (take ulen u) = dval qs * unat v + unat r"
    using div_small_loop_value [OF assms(3,4) _ l] assms by (simp_all add: min_absorb2)
  have r: "vec_div_small ulen u v q = qs @ drop ulen q"
    using v by (simp add: vec_div_small_def l stored_def)
  note zero_vec [OF assms(6)]
  then show "dval (vec_div_small ulen u v q) = dval (take ulen u) div unat v"
    "digits_ok (vec_div_small ulen u v q)" "length (vec_div_small ulen u v q) = length q"
    using v assms by (simp_all add: r)
qed

lemma vec_rem_small_loop_snd: "vec_rem_small_loop v u = snd (div_small_loop v u)"
  by (induction u) (auto simp: Let_def split: prod.splits)

theorem vec_rem_small_value:
  assumes "digits_ok u" "ulen \<le> length u" "0 < unat v" "unat v < half"
  shows "unat (vec_rem_small ulen u v) = dval (take ulen u) mod unat v"
proof -
  obtain qs r where l: "div_small_loop v (take ulen u) = (qs, r)" by fastforce
  have "unat r < unat v" "dval (take ulen u) = dval qs * unat v + unat r"
    using div_small_loop_value [OF assms(3,4) _ l] assms by simp_all
  then show ?thesis by (simp add: vec_rem_small_def vec_rem_small_loop_snd l)
qed

theorem vec_rem_on_small_value:
  assumes "digits_ok u" "0 < unat v" "unat v < half" "vec_rem_on_small (length u) u v = (r, q)"
  shows "dval q = dval u div unat v" "unat r = dval u mod unat v" "digits_ok q" "length q = length u"
proof -
  obtain qs r' where l: "div_small_loop v u = (qs, r')" by fastforce
  have v: "length qs = length u" "digits_ok qs" "unat r' < unat v"
    "dval u = dval qs * unat v + unat r'"
    using div_small_loop_value [OF assms(2,3,1) l] by simp_all
  moreover have "r = r'" "q = qs" using assms(4) v by (simp_all add: vec_rem_on_small_def l)
  ultimately show "dval q = dval u div unat v" "unat r = dval u mod unat v" "digits_ok q"
    "length q = length u" by simp_all
qed

end
