(* ===== verification/Dt_Div.thy ===== *)
theory Dt_Div
  imports Dt_Mul
begin

text \<open>
  Shifting of digit vectors, their conversion to vectors of bytes and back, and the long division
  on bytes (datatypes/int/sc_nbutils.cpp).  The division guesses each byte of the quotient from
  the two leading bytes of the divisor and three of the dividend, subtracts and corrects the
  guess; \<open>guess_bounds\<close> is the reason why one correction is enough without the normalisation of
  the textbook algorithm.
\<close>

unbundle bit_operations_syntax

section \<open>Shifting (the inner loops)\<close>

text \<open>The digits of \<open>u\<close> shifted left by \<open>nsl < 30\<close> bits: the loop of \<^verbatim>\<open>vec_shift_left\<close>, and by
  8 bits that of \<^verbatim>\<open>vec_from_char\<close>.\<close>

fun shift_left_loop :: "nat \<Rightarrow> digit \<Rightarrow> digits \<Rightarrow> digits" where
  "shift_left_loop nsl carry [] = []"
| "shift_left_loop nsl carry (uval # u) =
     (push_bit nsl (uval AND one_and_ones (BITS_PER_DIGIT - nsl)) OR carry)
       # shift_left_loop nsl (drop_bit (BITS_PER_DIGIT - nsl) uval) u"

lemma or_disjoint_value:
  assumes "unat c < 2 ^ n" "n \<le> 30" "unat a < 2 ^ (30 - n)"
  shows "unat (push_bit n a OR c :: digit) = 2 ^ n * unat a + unat c"
proof -
  have "2 ^ n * unat a < 2 ^ n * 2 ^ (30 - n)" using assms(3) by simp
  also have "2 ^ n * 2 ^ (30 - n) = (2 :: nat) ^ 30" using assms(2) by (simp flip: power_add)
  finally have lt: "2 ^ n * unat a < radix" by simp
  have "unat (push_bit n a) = take_bit LENGTH(32) (push_bit n (unat a))"
    by (rule unsigned_push_bit_eq)
  also have "\<dots> = 2 ^ n * unat a" using lt by (simp add: push_bit_eq_mult take_bit_eq_mod mult.commute)
  finally have p: "unat (push_bit n a) = 2 ^ n * unat a" .
  have "push_bit n a AND c = 0"
  proof (rule bit_word_eqI)
    fix i assume "i < LENGTH(32)"
    have "\<not> bit c i" if "n \<le> i"
    proof -
      have "(2 :: nat) ^ n \<le> 2 ^ i" using that by (intro power_increasing) auto
      with assms(1) have "unat c < 2 ^ i" by (rule less_le_trans)
      then have "unat (drop_bit i c) = 0" by (simp only: unat_drop_bit div_less)
      then have "drop_bit i c = 0" by (simp only: unsigned_eq_0_iff)
      then show ?thesis by (simp add: bit_iff_odd_drop_bit)
    qed
    then show "bit (push_bit n a AND c) i = bit 0 i" by (auto simp: bit_simps)
  qed
  then have "push_bit n a OR c = push_bit n a + c" by (simp add: disjunctive_add_eq_or)
  moreover have "unat c < radix"
    using assms(1) power_increasing [OF assms(2), of "2 :: nat"] by simp
  ultimately show ?thesis using lt by (simp add: unat_plus_eq p)
qed

lemma shift_left_loop_value:
  assumes "n < 30"
  shows "digits_ok u \<Longrightarrow> unat c < 2 ^ n \<Longrightarrow>
     length (shift_left_loop n c u) = length u \<and> digits_ok (shift_left_loop n c u) \<and>
     dval (shift_left_loop n c u) = (2 ^ n * dval u + unat c) mod radix ^ length u"
proof (induction u arbitrary: c)
  case (Cons a u)
  let ?lo = "a AND one_and_ones (BITS_PER_DIGIT - n)" and ?hi = "drop_bit (BITS_PER_DIGIT - n) a"
  let ?m = "2 ^ (30 - n) :: nat"
  have rad: "radix = 2 ^ n * ?m" using assms by (simp flip: power_add)
  have lo: "unat ?lo = unat a mod ?m" by (simp add: unat_and_ones digit_consts)
  have hi: "unat ?hi = unat a div ?m" by (simp add: unat_drop_bit digit_consts)
  have "unat a < ?m * 2 ^ n" using Cons.prems rad by (simp add: mult.commute)
  then have hi_less: "unat ?hi < 2 ^ n" unfolding hi by (rule less_mult_imp_div_less [OF _, where i = "2 ^ n", simplified mult.commute])
  have dg: "unat (push_bit n ?lo OR c) = 2 ^ n * unat ?lo + unat c"
    using assms Cons.prems by (intro or_disjoint_value) (simp_all add: lo)
  define d where "d = push_bit n ?lo OR c"
  have row: "shift_left_loop n c (a # u) = d # shift_left_loop n ?hi u"
    by (simp only: shift_left_loop.simps d_def)
  have d_less: "2 ^ n * unat ?lo + unat c < radix"
  proof -
    have "2 ^ n * (unat ?lo + 1) \<le> 2 ^ n * ?m" by (intro mult_le_mono2) (simp add: lo Suc_le_eq)
    then show ?thesis using Cons.prems(2) rad by simp
  qed
  have "unat a = unat ?lo + ?m * unat ?hi" by (simp add: lo hi)
  then have e: "2 ^ n * unat a + unat c = (2 ^ n * unat ?lo + unat c) + radix * unat ?hi"
    unfolding rad by (metis (no_types, lifting) add.commute add.left_commute distrib_left mult.assoc)
  have dgm: "unat d = (2 ^ n * unat a + unat c) mod radix"
    by (simp only: e d_def dg mod_mult_self2 mod_less [OF d_less])
  have "(2 ^ n * unat a + unat c) div radix = (2 ^ n * unat ?lo + unat c) div radix + unat ?hi"
    unfolding e by simp
  then have dgd: "unat ?hi = (2 ^ n * unat a + unat c) div radix"
    using div_less [OF d_less] by linarith
  have IH: "length (shift_left_loop n ?hi u) = length u" "digits_ok (shift_left_loop n ?hi u)"
    "dval (shift_left_loop n ?hi u) = (2 ^ n * dval u + unat ?hi) mod radix ^ length u"
    using Cons.IH [OF _ hi_less] Cons.prems by simp_all
  have "(2 ^ n * dval (a # u) + unat c) mod radix ^ length (a # u) =
      ((2 ^ n * unat a + unat c) + radix * (2 ^ n * dval u)) mod (radix * radix ^ length u)"
    by (simp add: algebra_simps)
  also have "\<dots> = dval (shift_left_loop n c (a # u))"
    by (simp only: digit_step_mod row dval.simps dgm IH(3) dgd add.commute [of _ "2 ^ n * dval u"])
  finally show ?case using IH(1,2) d_less dg by (simp only: row digits_ok_simps d_def length_Cons)
qed simp

section \<open>Vectors of bytes\<close>

type_synonym uchar = "8 word"

function to_char_loop :: "nat \<Rightarrow> digits \<Rightarrow> nat \<Rightarrow> nat \<Rightarrow> nat \<Rightarrow> nat \<Rightarrow> uchar list" where
  "to_char_loop ulen u nbits left right vlen =
     (if nbits = 0 then []
      else
        let left_digit = left div BITS_PER_DIGIT;
            right_digit = right div BITS_PER_DIGIT;
            nsr = (push_bit 3 vlen) mod BITS_PER_DIGIT;
            d = drop_bit nsr (u ! right_digit);
            d = (if left_digit \<noteq> right_digit \<and> left_digit < ulen
                 then d OR push_bit (BITS_PER_DIGIT - nsr) (u ! left_digit) else d)
        in ucast (d AND BYTE_MASK)
             # to_char_loop ulen u (nbits - BITS_PER_BYTE) (left + BITS_PER_BYTE)
                 (right + BITS_PER_BYTE) (vlen + 1))"
  by pat_completeness auto
termination
  by (relation "measure (\<lambda>(ulen, u, nbits, left, right, vlen). nbits)")
    (auto simp: BITS_PER_BYTE_def)

declare to_char_loop.simps [simp del]

text \<open>The bytes stored; the new length that the code returns is their number.\<close>

definition vec_to_char :: "nat \<Rightarrow> digits \<Rightarrow> uchar list" where
  "vec_to_char ulen u = to_char_loop ulen u (ulen * BITS_PER_DIGIT) (BITS_PER_BYTE - 1) 0 0"

definition vec_from_char :: "nat \<Rightarrow> uchar list \<Rightarrow> nat \<Rightarrow> digits \<Rightarrow> digits" where
  "vec_from_char ulen u vlen v =
     foldl (\<lambda>v i. let v = stored (shift_left_loop BITS_PER_BYTE 0 (take vlen v)) v
                   in v[0 := v ! 0 OR ucast (u ! i)])
       (v[0 := ucast (u ! (ulen - 1))]) (rev [0..<ulen - 1])"

fun cval :: "uchar list \<Rightarrow> nat" where
  "cval [] = 0"
| "cval (c # cs) = unat c + 256 * cval cs"

lemma cval_append [simp]: "cval (xs @ ys) = cval xs + 256 ^ length xs * cval ys"
  by (induction xs) (auto simp: algebra_simps)

lemma byte_less: "unat (c :: uchar) < 256"
proof -
  have "unat c < 2 ^ LENGTH(8)" by (rule unsigned_less)
  then show ?thesis by simp
qed

lemma cval_less: "cval cs < 256 ^ length cs"
proof (induction cs)
  case (Cons c cs)
  then have "cval cs + 1 \<le> 256 ^ length cs" by simp
  then have "256 * (cval cs + 1) \<le> 256 * 256 ^ length cs" by (rule mult_le_mono2)
  with byte_less [of c] show ?case by simp
qed simp

lemma cval_zero_iff: "cval cs = 0 \<longleftrightarrow> (\<forall>c \<in> set cs. c = 0)"
  by (induction cs) (auto simp: unsigned_eq_0_iff)

lemma bit_cval: "bit (cval cs) i \<longleftrightarrow> i div 8 < length cs \<and> bit (cs ! (i div 8)) (i mod 8)"
proof (induction cs arbitrary: i)
  case (Cons c cs)
  have high: "\<not> bit (unat c) j" if "8 \<le> j" for j
  proof -
    have "(2 :: nat) ^ 8 \<le> 2 ^ j" using that by (intro power_increasing) auto
    with byte_less [of c] have "unat c < 2 ^ j" by simp
    then show ?thesis by (simp add: bit_iff_odd)
  qed
  have "unat c AND push_bit 8 (cval cs) = 0"
    by (rule bit_eqI) (use high in \<open>auto simp: bit_simps\<close>)
  then have "unat c + push_bit 8 (cval cs) = unat c OR push_bit 8 (cval cs)"
    by (rule disjunctive_add_eq_or)
  then have val: "cval (c # cs) = unat c OR push_bit 8 (cval cs)"
    by (simp add: push_bit_eq_mult mult.commute)
  have bitc: "bit (unat c) j = bit c j" if "j < 8" for j
    using that by (simp add: bit_unsigned_iff)
  show ?case
  proof (cases "i < 8")
    case True
    then show ?thesis by (simp add: val bit_simps bitc del: cval.simps)
  next
    case False
    then have "i = i - 8 + 8" by simp
    then obtain k where "i = k + 8" by blast
    then show ?thesis
      using Cons high [of i] by (simp add: val bit_simps div_add_self2 del: cval.simps)
  qed
qed simp

subsection \<open>From digits to bytes\<close>

lemma byte_mask: "BYTE_MASK = mask 8"
  by (simp add: BYTE_MASK_def mask_eq_exp_minus_1)

lemma split_index:
  assumes "(a :: nat) = n * r + s" "s < n"
  shows "a div n = r" "a mod n = s"
  using assms by simp_all

text \<open>The byte that the loop puts together from one digit, or from two.\<close>

lemma char_of_digits:
  assumes "digits_ok u" "length u = ulen" "8 * k < 30 * ulen" "j < 8"
  defines "l \<equiv> (8 * k + 7) div 30" and "r \<equiv> (8 * k) div 30" and "n \<equiv> (8 * k) mod 30"
  defines "d \<equiv> drop_bit n (u ! r)"
  defines "d' \<equiv> (if l \<noteq> r \<and> l < ulen then d OR push_bit (30 - n) (u ! l) else d)"
  shows "bit (ucast (d' AND BYTE_MASK) :: uchar) j = bit (dval u) (8 * k + j)"
proof -
  have r_less: "r < ulen" using assms(3) by (simp add: r_def less_mult_imp_div_less mult.commute)
  have s: "n < 30" by (simp add: n_def)
  have k: "8 * k = 30 * r + n" unfolding r_def n_def by (rule mult_div_mod_eq [symmetric])
  have b: "bit (ucast (d' AND BYTE_MASK) :: uchar) j = bit d' j"
    using assms(4) by (simp add: bit_simps byte_mask)
  show ?thesis
  proof (cases "n + j < 30")
    case True
    have p: "(8 * k + j) div 30 = r" "(8 * k + j) mod 30 = n + j"
      using split_index [of "8 * k + j" 30 r "n + j"] True k by simp_all
    have "bit d' j = bit (u ! r) (n + j)"
      using True by (auto simp: d'_def d_def bit_simps)
    then show ?thesis using b p r_less assms(1,2) by (simp add: bit_dval)
  next
    case False
    with assms(4) have "30 \<le> n + 7" by linarith
    then have "8 * k + 7 = 30 * (r + 1) + (n + 7 - 30)" "n + 7 - 30 < 30"
      using k s by simp_all
    then have l: "l = r + 1" unfolding l_def by (intro split_index(1)) simp_all
    have p: "(8 * k + j) div 30 = r + 1" "(8 * k + j) mod 30 = n + j - 30"
      using split_index [of "8 * k + j" 30 "r + 1" "n + j - 30"] False k s assms(4) by simp_all
    have "unat (u ! r) < radix" using assms(1,2) r_less by (simp add: digits_ok_nth)
    then have "unat (drop_bit (n + j) (u ! r)) = 0"
    proof -
      have "(2 :: nat) ^ 30 \<le> 2 ^ (n + j)" using False by (intro power_increasing) auto
      with \<open>unat (u ! r) < radix\<close> have "unat (u ! r) < 2 ^ (n + j)" by simp
      then show ?thesis by (simp only: unat_drop_bit div_less)
    qed
    then have z: "\<not> bit (u ! r) (n + j)" by (simp add: bit_iff_odd_drop_bit unsigned_eq_0_iff)
    have "bit d' j = (l < ulen \<and> bit (u ! l) (n + j - 30))"
    proof -
      have "j - (30 - n) = n + j - 30" "30 - n \<le> j" using False s by linarith+
      then show ?thesis using z l assms(4) by (auto simp: d'_def d_def bit_simps)
    qed
    then show ?thesis using b p l assms(1,2) by (simp add: bit_dval)
  qed
qed

lemma to_char_loop_bytes:
  assumes "digits_ok u" "length u = ulen"
  shows "nbits = 30 * ulen - 8 * k \<Longrightarrow>
    length (to_char_loop ulen u nbits (8 * k + 7) (8 * k) k) = (nbits + 7) div 8 \<and>
    (\<forall>i j. i < (nbits + 7) div 8 \<longrightarrow> j < 8 \<longrightarrow>
       bit (to_char_loop ulen u nbits (8 * k + 7) (8 * k) k ! i) j = bit (dval u) (8 * (k + i) + j))"
proof (induction nbits arbitrary: k rule: less_induct)
  case (less nbits)
  show ?case
  proof (cases "nbits = 0")
    case True
    then show ?thesis by (simp add: to_char_loop.simps)
  next
    case False
    let ?rest = "to_char_loop ulen u (nbits - 8) (8 * (k + 1) + 7) (8 * (k + 1)) (k + 1)"
    let ?l = "(8 * k + 7) div 30" and ?r = "(8 * k) div 30" and ?n = "(8 * k) mod 30"
    let ?d = "drop_bit ?n (u ! ?r)"
    let ?d' = "if ?l \<noteq> ?r \<and> ?l < ulen then ?d OR push_bit (30 - ?n) (u ! ?l) else ?d"
    have n: "push_bit 3 k = 8 * k" by (simp add: push_bit_eq_mult)
    have sh: "8 * k + 7 + 8 = 8 * (k + 1) + 7" "8 * k + 8 = 8 * (k + 1)" by simp_all
    have unf: "to_char_loop ulen u nbits (8 * k + 7) (8 * k) k = ucast (?d' AND BYTE_MASK) # ?rest"
      using False
      by (subst to_char_loop.simps) (simp only: Let_def digit_consts n sh if_False)
    have IH: "length ?rest = (nbits - 8 + 7) div 8"
      "\<forall>i j. i < (nbits - 8 + 7) div 8 \<longrightarrow> j < 8 \<longrightarrow>
         bit (?rest ! i) j = bit (dval u) (8 * ((k + 1) + i) + j)"
    proof -
      have "nbits - 8 < nbits" "nbits - 8 = 30 * ulen - 8 * (k + 1)"
        using less.prems False by simp_all
      from less.IH [OF this] show "length ?rest = (nbits - 8 + 7) div 8"
        "\<forall>i j. i < (nbits - 8 + 7) div 8 \<longrightarrow> j < 8 \<longrightarrow>
           bit (?rest ! i) j = bit (dval u) (8 * ((k + 1) + i) + j)" by blast+
    qed
    have len: "(nbits + 7) div 8 = Suc ((nbits - 8 + 7) div 8)"
    proof (cases "8 \<le> nbits")
      case True
      then have "nbits + 7 = (nbits - 8 + 7) + 8" by simp
      then show ?thesis by (simp only: div_add_self2 zero_neq_numeral not_False_eq_True)
    next
      case small: False
      then have "nbits + 7 = 8 * 1 + (nbits - 1)" "nbits - 1 < 8" using False by simp_all
      from split_index(1) [OF this] show ?thesis using small by simp
    qed
    have first: "bit (ucast (?d' AND BYTE_MASK) :: uchar) j = bit (dval u) (8 * k + j)" if "j < 8" for j
      by (rule char_of_digits [OF assms]) (use that less.prems False in linarith)+
    show ?thesis
      unfolding unf len
    proof (intro conjI allI impI)
      show "length (ucast (?d' AND BYTE_MASK) # ?rest) = Suc ((nbits - 8 + 7) div 8)"
        using IH(1) by simp
      fix i j assume ij: "i < Suc ((nbits - 8 + 7) div 8)" "j < (8 :: nat)"
      show "bit ((ucast (?d' AND BYTE_MASK) # ?rest) ! i) j = bit (dval u) (8 * (k + i) + j)"
      proof (cases i)
        case 0
        then show ?thesis using first [OF ij(2)] by simp
      next
        case (Suc m)
        then have "bit (?rest ! m) j = bit (dval u) (8 * ((k + 1) + m) + j)" using IH(2) ij by simp
        then show ?thesis using Suc by simp
      qed
    qed
  qed
qed

theorem vec_to_char_value:
  assumes "digits_ok u"
  shows "cval (vec_to_char (length u) u) = dval u"
    "length (vec_to_char (length u) u) = (30 * length u + 7) div 8"
proof -
  let ?c = "vec_to_char (length u) u"
  have c: "length ?c = (30 * length u + 7) div 8 \<and>
    (\<forall>i j. i < (30 * length u + 7) div 8 \<longrightarrow> j < 8 \<longrightarrow> bit (?c ! i) j = bit (dval u) (8 * (0 + i) + j))"
    using to_char_loop_bytes [OF assms refl, of "30 * length u" 0]
    by (simp add: vec_to_char_def digit_consts mult.commute)
  then show len: "length ?c = (30 * length u + 7) div 8" by blast
  show "cval ?c = dval u"
  proof (rule bit_eqI)
    fix i :: nat
    have i: "i = 8 * (i div 8) + i mod 8" by simp
    show "bit (cval ?c) i = bit (dval u) i"
    proof (cases "i div 8 < length ?c")
      case True
      then have "bit (?c ! (i div 8)) (i mod 8) = bit (dval u) (8 * (0 + i div 8) + i mod 8)"
        using c len by (metis mod_less_divisor zero_less_numeral)
      then show ?thesis using True i by (simp add: bit_cval)
    next
      case False
      then have "30 * length u \<le> i" using len by linarith
      then have "\<not> i div 30 < length u" by linarith
      then show ?thesis using False assms by (simp add: bit_cval bit_dval)
    qed
  qed
qed

subsection \<open>From bytes to digits\<close>

lemma unat_ucast_byte: "unat (ucast (c :: uchar) :: digit) = unat c"
  by (simp add: unsigned_ucast_eq take_bit_nat_eq_self order.strict_trans [OF byte_less])

lemma from_char_step:
  fixes b :: uchar
  assumes "0 < vlen" "vlen \<le> length v" "digits_ok v" "dval (take vlen v) = c mod radix ^ vlen"
  defines "v' \<equiv> stored (shift_left_loop BITS_PER_BYTE 0 (take vlen v)) v"
  defines "v'' \<equiv> v'[0 := v' ! 0 OR ucast b]"
  shows "dval (take vlen v'') = (unat b + 256 * c) mod radix ^ vlen" "digits_ok v''"
    "length v'' = length v" "drop vlen v'' = drop vlen v"
proof -
  obtain a u where au: "take vlen v = a # u" using assms(1,2) by (cases "take vlen v") auto
  have len: "length (a # u) = vlen" using au assms(2) by (metis length_take min_absorb2)
  let ?s = "shift_left_loop BITS_PER_BYTE (ucast b) (a # u)"
  have ok: "digits_ok (a # u)" using assms(3) au by (metis digits_ok_parts(1))
  have s: "length ?s = vlen" "digits_ok ?s" "dval ?s = (256 * dval (a # u) + unat b) mod radix ^ vlen"
    using shift_left_loop_value [of 8 "a # u" "ucast b", unfolded len] ok byte_less [of b]
    by (simp_all add: digit_consts unat_ucast_byte del: dval.simps shift_left_loop.simps)
  have "length (shift_left_loop BITS_PER_BYTE 0 (a # u)) = vlen"
    using shift_left_loop_value [of 8 "a # u" 0, unfolded len] ok
    by (simp add: digit_consts del: dval.simps shift_left_loop.simps)
  then have v'': "v'' = ?s @ drop vlen v"
    by (simp add: v''_def v'_def au stored_def)
  show "dval (take vlen v'') = (unat b + 256 * c) mod radix ^ vlen"
    using s assms(4) by (simp add: v'' au mod_mult_right_eq mod_add_right_eq mod_add_left_eq
      add.commute del: dval.simps shift_left_loop.simps)
      (metis add.commute mod_add_right_eq mod_mult_right_eq)
  show "digits_ok v''" "length v'' = length v" "drop vlen v'' = drop vlen v"
    using s assms(2,3) by (simp_all add: v'' del: shift_left_loop.simps)
qed

theorem vec_from_char_value:
  assumes "0 < length cs" "0 < vlen" "vlen \<le> length v" "\<forall>d \<in> set v. d = 0"
  defines "w \<equiv> vec_from_char (length cs) cs vlen v"
  shows "dval w = cval cs mod radix ^ vlen" "digits_ok w" "length w = length v"
    "drop vlen w = drop vlen v"
proof -
  let ?f = "\<lambda>v i. let v = stored (shift_left_loop BITS_PER_BYTE 0 (take vlen v)) v
                   in v[0 := v ! 0 OR ucast (cs ! i)]"
  have loop: "dval (take vlen (foldl ?f x (rev [0..<m]))) =
        (cval (take m cs) + 256 ^ m * c) mod radix ^ vlen \<and>
      digits_ok (foldl ?f x (rev [0..<m])) \<and> length (foldl ?f x (rev [0..<m])) = length v \<and>
      drop vlen (foldl ?f x (rev [0..<m])) = drop vlen v"
    if "m \<le> length cs" "digits_ok x" "length x = length v" "drop vlen x = drop vlen v"
      "dval (take vlen x) = c mod radix ^ vlen" for m x c
    using that
  proof (induction m arbitrary: x c)
    case (Suc m)
    let ?y = "?f x m" and ?c = "unat (cs ! m) + 256 * c"
    have y: "dval (take vlen ?y) = ?c mod radix ^ vlen" "digits_ok ?y" "length ?y = length v"
      "drop vlen ?y = drop vlen v"
      using from_char_step [of vlen x c "cs ! m"] Suc.prems assms(2,3) by (simp_all add: Let_def)
    have "cval (take m cs) + 256 ^ m * ?c = cval (take (Suc m) cs) + 256 ^ Suc m * c"
      using Suc.prems(1) by (simp add: take_Suc_conv_app_nth algebra_simps)
    moreover have "foldl ?f x (rev [0..<Suc m]) = foldl ?f ?y (rev [0..<m])" by simp
    ultimately show ?case using Suc.IH [OF _ y(2,3,4,1)] Suc.prems(1) by simp
  qed simp
  let ?v0 = "v[0 := ucast (cs ! (length cs - 1))]"
  obtain vs where v: "v = 0 # vs" and vs: "\<forall>d \<in> set vs. d = 0"
    using assms(2-4) by (cases v) auto
  have top: "unat (cs ! (length cs - 1)) < 256" by (rule byte_less)
  have ok0: "digits_ok ?v0" using zero_vec(1) [OF vs] top by (simp add: v unat_ucast_byte)
  have d0: "drop vlen ?v0 = drop vlen v" using assms(2) by (simp add: v drop_Cons')
  obtain n where n: "vlen = Suc n" using assms(2) by (cases vlen) auto
  have "dval (take n vs) = 0" using vs by (auto simp: dval_zero_iff dest: in_set_takeD)
  then have "dval (take vlen ?v0) = unat (cs ! (length cs - 1))"
    by (simp add: v n unat_ucast_byte)
  moreover have "unat (cs ! (length cs - 1)) < radix ^ vlen" 
  proof -
    have "radix ^ 1 \<le> radix ^ vlen" using assms(2) by (intro power_increasing) auto
    with top show ?thesis by simp
  qed
  ultimately have v0: "dval (take vlen ?v0) = unat (cs ! (length cs - 1)) mod radix ^ vlen" by simp
  have len: "length cs - 1 \<le> length cs" by simp
  have "cval (take (length cs - 1) cs) + 256 ^ (length cs - 1) * unat (cs ! (length cs - 1)) = cval cs"
  proof -
    obtain ds d where "cs = ds @ [d]" using assms(1) by (metis length_greater_0_conv rev_exhaust)
    then show ?thesis by (simp add: nth_append)
  qed
  with loop [OF len ok0 _ d0 v0]
  have l: "dval (take vlen w) = cval cs mod radix ^ vlen" "digits_ok w" "length w = length v"
    "drop vlen w = drop vlen v"
    by (simp_all add: w_def vec_from_char_def)
  then show "digits_ok w" "length w = length v" "drop vlen w = drop vlen v" by blast+
  have "dval (drop vlen w) = 0" using l(4) zero_vec(4) [OF assms(4)] by simp
  then show "dval w = cval cs mod radix ^ vlen"
    using dval_take_drop [of vlen w] l(1,3) assms(3) by simp
qed

section \<open>The guess of a byte of the quotient\<close>

text \<open>
  \<open>x3\<close> are the three leading bytes of the window of the dividend and \<open>y2\<close> the two of the divisor.
\<close>

lemma guess_bounds:
  fixes W Y m x3 xr y2 yr :: nat
  assumes "Y = y2 * m + yr" "yr < m" "W = x3 * m + xr" "xr < m" "256 \<le> y2" "W < 256 * Y"
  defines "h \<equiv> min 255 (x3 div y2)"
  shows "W div Y \<le> h" "h \<le> W div Y + 1"
proof -
  have "0 < Y" using assms by simp
  let ?q = "W div Y"
  have "?q < 256" using assms(6) by (simp add: less_mult_imp_div_less)
  have "?q * y2 \<le> x3"
  proof -
    have "?q * (y2 * m) \<le> ?q * Y" using assms(1) by (intro mult_le_mono2) simp
    also have "\<dots> \<le> W" by simp
    also have "\<dots> < (x3 + 1) * m" using assms(3,4) by simp
    finally have "(?q * y2) * m < (x3 + 1) * m" by (simp only: mult.assoc)
    then have "?q * y2 < x3 + 1" by (metis mult_less_cancel2)
    then show ?thesis by simp
  qed
  then have "?q \<le> x3 div y2" using assms(5) by (simp add: less_eq_div_iff_mult_less_eq)
  with \<open>?q < 256\<close> show "?q \<le> h" by (simp add: h_def)
  show "h \<le> ?q + 1"
  proof (cases "h = 0")
    case False
    define g where "g = h - 1"
    then have h: "h = g + 1" and g: "g \<le> 254" using False by (auto simp: h_def)
    have "h * y2 \<le> x3 div y2 * y2" by (intro mult_le_mono1) (simp add: h_def)
    also have "\<dots> \<le> x3" by simp
    finally have "g * y2 + y2 \<le> x3" by (simp add: h)
    then have le: "g * y2 + g \<le> x3" using g assms(5) by linarith
    have "g * Y \<le> g * ((y2 + 1) * m)" using assms(1,2) by (intro mult_le_mono2) simp
    also have "\<dots> = (g * y2 + g) * m" by (simp add: algebra_simps)
    also have "\<dots> \<le> x3 * m" using le by (rule mult_le_mono1)
    also have "\<dots> \<le> W" using assms(3) by simp
    finally have "g \<le> ?q" using \<open>0 < Y\<close> by (simp add: less_eq_div_iff_mult_less_eq)
    then show ?thesis by (simp add: h)
  qed simp
qed

end
