(* ===== verification/Dt_Long_Div.thy ===== *)
theory Dt_Long_Div
  imports Dt_Div
begin

text \<open>
  The long division on bytes of \<^verbatim>\<open>vec_div_large\<close> and \<^verbatim>\<open>vec_rem_large\<close>
  (datatypes/int/sc_nbutils.cpp).  The copies \<open>x\<close> and \<open>y\<close> of the operands are lists of bytes,
  without the leading zeros, \<open>x\<close> with the zero that the code adds above.  The two functions have
  the same loop, but for the store of the quotient and the decrement of the guess that the second
  one leaves out: one definition stands for both.  The bytes of \<open>q\<close> are stored from the highest
  index down.
\<close>

unbundle bit_operations_syntax

text \<open>\<^verbatim>\<open>x = x - y * qk\<close> on the bytes below the top one of the window: the differences and the carry.\<close>

fun mul_sub_loop :: "digit \<Rightarrow> digit \<Rightarrow> uchar list \<Rightarrow> uchar list \<Rightarrow> uchar list \<times> digit" where
  "mul_sub_loop qk carry [] xk = ([], carry)"
| "mul_sub_loop qk carry (b # y) (a # xk) =
     (let carry = carry + ucast b * qk;
          diff = (ucast a + BYTE_RADIX) - (carry AND BYTE_MASK);
          (ds, out) = mul_sub_loop qk
            (drop_bit BITS_PER_BYTE carry + (1 - drop_bit BITS_PER_BYTE diff)) y xk
      in (ucast (diff AND BYTE_MASK) # ds, out))"
| "mul_sub_loop qk carry (b # y) [] = ([], carry)"

fun add_back_loop :: "digit \<Rightarrow> uchar list \<Rightarrow> uchar list \<Rightarrow> uchar list \<times> digit" where
  "add_back_loop carry [] xk = ([], carry)"
| "add_back_loop carry (b # y) (a # xk) =
     (let carry = carry + (ucast a + ucast b);
          (ds, out) = add_back_loop (drop_bit BITS_PER_BYTE carry) y xk
      in (ucast (carry AND BYTE_MASK) # ds, out))"
| "add_back_loop carry (b # y) [] = ([], carry)"

definition guess_byte :: "uchar list \<Rightarrow> nat \<Rightarrow> digit \<Rightarrow> digit" where
  "guess_byte x k2 y2 =
     (let qk = (push_bit (2 * BITS_PER_BYTE) (ucast (x ! k2)) +
                push_bit BITS_PER_BYTE (ucast (x ! (k2 - 1))) + ucast (x ! (k2 - 2))) div y2
      in if BYTE_RADIX \<le> qk then BYTE_RADIX - 1 else qk)"

text \<open>One iteration: the byte of the quotient and the new \<open>x\<close>.\<close>

definition div_step :: "uchar list \<Rightarrow> digit \<Rightarrow> nat \<Rightarrow> uchar list \<Rightarrow> digit \<times> uchar list" where
  "div_step y y2 k x =
     (let ylen = length y;
          qk = guess_byte x (k + ylen) y2
      in if qk = 0 then (qk, x)
         else
           let xk = drop k x;
               (ds, carry) = mul_sub_loop qk 0 y xk;
               pre = take k x;
               post = drop (k + ylen + 1) x
           in if carry = 0 then (qk, pre @ ds @ drop ylen xk)
              else
                let carry = (ucast (xk ! ylen) + BYTE_RADIX) - carry;
                    top = (ucast (carry AND BYTE_MASK) :: uchar);
                    carry = 1 - drop_bit BITS_PER_BYTE carry
                in if carry = 0 then (qk, pre @ ds @ top # post)
                   else
                     let qk = qk - 1;
                         (ds, carry) = add_back_loop 0 y ds;
                         top = (if carry \<noteq> 0
                                then ucast ((ucast top + 1 :: digit) AND BYTE_MASK) else top)
                     in (qk, pre @ ds @ top # post))"

text \<open>The iterations for \<open>k - 1, \<dots>, 0\<close>, with the bytes of the quotient stored so far.\<close>

fun div_loop :: "uchar list \<Rightarrow> digit \<Rightarrow> nat \<Rightarrow> uchar list \<Rightarrow> uchar list \<Rightarrow> uchar list \<times> uchar list" where
  "div_loop y y2 0 x q = (q, x)"
| "div_loop y y2 (Suc k) x q =
     (let (qk, x) = div_step y y2 k x in div_loop y y2 k x (ucast qk # q))"

text \<open>The number of bytes without the leading zeros.\<close>

fun skip_zero_bytes :: "nat \<Rightarrow> uchar list \<Rightarrow> nat" where
  "skip_zero_bytes 0 x = 0"
| "skip_zero_bytes (Suc n) x = (if x ! n = 0 then skip_zero_bytes n x else Suc n)"

definition long_division :: "nat \<Rightarrow> digits \<Rightarrow> nat \<Rightarrow> digits \<Rightarrow> uchar list \<times> uchar list" where
  "long_division ulen u vlen v =
     (let x = vec_to_char ulen (take ulen u);
          xlen = skip_zero_bytes (length x) x;
          y = vec_to_char vlen (take vlen v);
          ylen = skip_zero_bytes (length y) y;
          x = take xlen x @ [0];
          y2 = push_bit BITS_PER_BYTE (ucast (y ! (ylen - 1))) + ucast (y ! (ylen - 2))
      in div_loop (take ylen y) y2 (xlen + 1 - ylen) x [])"

definition vec_div_large :: "nat \<Rightarrow> digits \<Rightarrow> nat \<Rightarrow> digits \<Rightarrow> digits \<Rightarrow> digits" where
  "vec_div_large ulen u vlen v w =
     (let (q, x) = long_division ulen u vlen v in vec_from_char (length q) q ulen w)"

definition vec_rem_large :: "nat \<Rightarrow> digits \<Rightarrow> nat \<Rightarrow> digits \<Rightarrow> digits \<Rightarrow> digits" where
  "vec_rem_large ulen u vlen v w =
     (let (q, x) = long_division ulen u vlen v;
          y = vec_to_char vlen (take vlen v);
          ylen = skip_zero_bytes (length y) y
      in vec_from_char ylen x ulen w)"

section \<open>The loops on bytes\<close>

lemma unat_byte_mask [digit_unat]: "unat (d AND BYTE_MASK) = unat d mod 256"
  using and_mask_unat [of d 8] by (simp add: byte_mask)

lemma unat_byte_over [digit_unat]: "unat (drop_bit BITS_PER_BYTE d) = unat d div 256"
  by (simp add: digit_consts unat_drop_bit)

lemma unat_ucast_masked: "unat (ucast (d AND BYTE_MASK :: digit) :: uchar) = unat d mod 256"
  by (simp add: unsigned_ucast_eq unat_byte_mask take_bit_eq_mod)

lemma mul_sub_step:
  fixes a b :: uchar
  assumes "unat carry \<le> 255" "unat qk \<le> 255"
  defines "t \<equiv> carry + ucast b * qk"
  defines "diff \<equiv> (ucast a + BYTE_RADIX) - (t AND BYTE_MASK)"
  defines "out \<equiv> drop_bit BITS_PER_BYTE t + (1 - drop_bit BITS_PER_BYTE diff)"
  shows "unat (ucast (diff AND BYTE_MASK) :: uchar) + unat b * unat qk + unat carry =
      unat a + 256 * unat out" "unat out \<le> 255"
proof -
  note ab = byte_less [of a] byte_less [of b]
  have "unat b * unat qk \<le> 255 * 255" using ab assms(2) by (intro mult_le_mono) linarith+
  then have p: "unat b * unat qk \<le> 65025" by simp
  then have bq: "unat (ucast b * qk) = unat b * unat qk"
    by (subst unat_times_eq) (simp_all add: unat_ucast_byte)
  have t: "unat t = unat carry + unat b * unat qk"
    unfolding t_def using p assms(1) by (subst unat_plus_eq) (simp_all add: bq)
  have lo: "unat (t AND BYTE_MASK) = unat t mod 256" "unat t mod 256 < 256"
    by (simp_all add: unat_byte_mask)
  have "unat (ucast a + BYTE_RADIX) = unat a + 256"
    using ab by (subst unat_plus_eq) (simp_all add: unat_ucast_byte BYTE_RADIX_def)
  then have diff: "unat diff = unat a + 256 - unat t mod 256"
    unfolding diff_def using lo by (subst unat_minus_eq) simp_all
  then have "unat diff < 2 * 256" using ab by linarith
  then have "unat diff div 256 < 2" by (rule less_mult_imp_div_less)
  then have d01: "unat diff div 256 = 0 \<or> unat diff div 256 = 1" by linarith
  then have "unat (1 - drop_bit BITS_PER_BYTE diff) = 1 - unat diff div 256"
    by (subst unat_minus_eq) (auto simp: unat_byte_over)
  moreover have "unat t div 256 \<le> 255" using t p assms(1) by linarith
  ultimately have out: "unat out = unat t div 256 + (1 - unat diff div 256)"
    unfolding out_def using d01 by (subst unat_plus_eq) (simp_all add: unat_byte_over)
  have et: "256 * (unat t div 256) + unat t mod 256 = unat t"
    and ed: "256 * (unat diff div 256) + unat diff mod 256 = unat diff" by (rule mult_div_mod_eq)+
  have r: "unat (ucast (diff AND BYTE_MASK) :: uchar) = unat diff mod 256"
    by (rule unat_ucast_masked)
  show eq: "unat (ucast (diff AND BYTE_MASK) :: uchar) + unat b * unat qk + unat carry =
      unat a + 256 * unat out"
    unfolding r using d01
  proof (elim disjE)
    assume d: "unat diff div 256 = 0"
    show "unat diff mod 256 + unat b * unat qk + unat carry = unat a + 256 * unat out"
      using out et ed diff t lo(2) unfolding d by linarith
  next
    assume d: "unat diff div 256 = 1"
    show "unat diff mod 256 + unat b * unat qk + unat carry = unat a + 256 * unat out"
      using out et ed diff t lo(2) unfolding d by linarith
  qed
  have "unat diff mod 256 < 256" by simp
  then have "256 * unat out < 256 * 256" using eq [unfolded r] p assms(1) by linarith
  then show "unat out \<le> 255" by simp
qed

lemma mul_sub_loop_value:
  assumes "unat qk \<le> 255"
  shows "unat carry \<le> 255 \<Longrightarrow> length y \<le> length x \<Longrightarrow> mul_sub_loop qk carry y x = (ds, out) \<Longrightarrow>
     length ds = length y \<and> unat out \<le> 255 \<and>
     cval ds + cval y * unat qk + unat carry = cval (take (length y) x) + 256 ^ length y * unat out"
proof (induction y arbitrary: x carry ds)
  case (Cons b y)
  from Cons.prems(2) obtain a x' where x: "x = a # x'" by (cases x) auto
  define t where "t = carry + ucast b * qk"
  define diff where "diff = (ucast a + BYTE_RADIX) - (t AND BYTE_MASK)"
  define c' where "c' = drop_bit BITS_PER_BYTE t + (1 - drop_bit BITS_PER_BYTE diff)"
  define r where "r = (ucast (diff AND BYTE_MASK) :: uchar)"
  note step = mul_sub_step [OF Cons.prems(1) assms, where a = a and b = b, folded t_def, folded diff_def,
      folded c'_def r_def]
  obtain ds' where rec: "mul_sub_loop qk c' y x' = (ds', out)" and ds: "ds = r # ds'"
    using Cons.prems(3) by (auto simp: x Let_def t_def diff_def c'_def r_def split: prod.splits)
  have IH: "length ds' = length y" "unat out \<le> 255"
    "cval ds' + cval y * unat qk + unat c' = cval (take (length y) x') + 256 ^ length y * unat out"
    using Cons.IH [OF step(2) _ rec] Cons.prems x by simp_all
  have "cval ds + cval (b # y) * unat qk + unat carry =
      (unat r + unat b * unat qk + unat carry) + 256 * (cval ds' + cval y * unat qk)"
    by (simp add: ds distrib_left distrib_right)
  also have "\<dots> = unat a + 256 * (cval ds' + cval y * unat qk + unat c')"
    using step(1) by (simp add: distrib_left)
  also have "\<dots> = cval (take (length (b # y)) x) + 256 ^ length (b # y) * unat out"
    by (simp only: IH(3)) (simp add: x distrib_left)
  finally show ?case using IH ds by simp
qed simp

lemma add_back_loop_value:
  "unat carry \<le> 1 \<Longrightarrow> length y \<le> length x \<Longrightarrow> add_back_loop carry y x = (ds, out) \<Longrightarrow>
     length ds = length y \<and> unat out \<le> 1 \<and>
     cval ds + 256 ^ length y * unat out = cval (take (length y) x) + cval y + unat carry"
proof (induction y arbitrary: x carry ds)
  case (Cons b y)
  from Cons.prems(2) obtain a x' where x: "x = a # x'" by (cases x) auto
  define t where "t = carry + (ucast a + ucast b)"
  note ab = byte_less [of a] byte_less [of b]
  have "unat (ucast a + ucast b :: digit) = unat a + unat b"
    using ab by (subst unat_plus_eq) (simp_all add: unat_ucast_byte)
  then have t: "unat t = unat carry + unat a + unat b"
    unfolding t_def using ab Cons.prems(1) by (subst unat_plus_eq) simp_all
  then have "unat t < 2 * 256" using ab Cons.prems(1) by linarith
  then have "unat t div 256 < 2" by (rule less_mult_imp_div_less)
  then have c': "unat (drop_bit BITS_PER_BYTE t) = unat t div 256" "unat (drop_bit BITS_PER_BYTE t) \<le> 1"
    by (simp_all add: unat_byte_over)
  have r: "unat (ucast (t AND BYTE_MASK) :: uchar) = unat t mod 256" by (rule unat_ucast_masked)
  obtain ds' where rec: "add_back_loop (drop_bit BITS_PER_BYTE t) y x' = (ds', out)"
    and ds: "ds = ucast (t AND BYTE_MASK) # ds'"
    using Cons.prems(3) by (auto simp: x Let_def t_def split: prod.splits)
  have IH: "length ds' = length y" "unat out \<le> 1"
    "cval ds' + 256 ^ length y * unat out = cval (take (length y) x') + cval y + unat t div 256"
    using Cons.IH [OF c'(2) _ rec] Cons.prems x c' by simp_all
  have et: "unat t mod 256 + 256 * (unat t div 256) = unat carry + unat a + unat b"
    using mod_mult_div_eq [of "unat t" 256] t by linarith
  have "cval ds + 256 ^ length (b # y) * unat out =
      unat t mod 256 + 256 * (cval ds' + 256 ^ length y * unat out)"
    by (simp add: ds r distrib_left)
  also have "\<dots> = (unat t mod 256 + 256 * (unat t div 256)) + 256 * (cval (take (length y) x') + cval y)"
    by (simp only: IH(3) distrib_left)
  also have "\<dots> = cval (take (length (b # y)) x) + cval (b # y) + unat carry"
    by (simp only: et) (simp add: x distrib_left)
  finally show ?case using IH ds by simp
qed simp

section \<open>One iteration\<close>

lemma take_window: "take (length w) (drop (length pre) (pre @ w @ post)) = w"
  by simp

text \<open>The guess from the window \<open>lo @ [a, b, c]\<close> and the divisor \<open>ylo @ [d, e]\<close>.\<close>

lemma guess_byte_value:
  fixes a b c d e :: uchar
  assumes "length lo = n" "length ylo = n" "e \<noteq> 0"
    and w: "cval (lo @ [a, b, c]) < 256 * cval (ylo @ [d, e])"
    and x: "x = pre @ lo @ [a, b, c] @ post"
  defines "y2 \<equiv> push_bit BITS_PER_BYTE (ucast e) + ucast d :: digit"
  defines "W \<equiv> cval (lo @ [a, b, c])" and "Y \<equiv> cval (ylo @ [d, e])"
  shows "unat (guess_byte x (length pre + n + 2) y2) \<le> 255"
    "W div Y \<le> unat (guess_byte x (length pre + n + 2) y2)"
    "unat (guess_byte x (length pre + n + 2) y2) \<le> W div Y + 1"
proof -
  note less = byte_less [of a] byte_less [of b] byte_less [of c] byte_less [of d] byte_less [of e]
  have nth: "x ! (length pre + n + 2) = c" "x ! (length pre + n + 2 - 1) = b"
    "x ! (length pre + n + 2 - 2) = a"
    using assms(1) by (simp_all add: x nth_append)
  have sh: "unat (push_bit m (ucast z) :: digit) = 2 ^ m * unat z"
    if "m \<le> 16" for z :: uchar and m
  proof -
    have "unat (push_bit m (ucast z) OR 0 :: digit) = 2 ^ m * unat (ucast z :: digit) + unat (0 :: digit)"
    proof (rule or_disjoint_value)
      have "(2 :: nat) ^ 8 \<le> 2 ^ (30 - m)" using that by (intro power_increasing) auto
      with byte_less [of z] show "unat (ucast z :: digit) < 2 ^ (30 - m)"
        by (simp add: unat_ucast_byte)
    qed (use that in simp_all)
    then show ?thesis by (simp add: unat_ucast_byte)
  qed
  have y2: "unat y2 = 256 * unat e + unat d"
    unfolding y2_def using less sh [of 8 e] by (subst unat_plus_eq) (simp_all add: digit_consts unat_ucast_byte)
  let ?x3 = "65536 * unat c + 256 * unat b + unat a"
  define s where "s = push_bit (2 * BITS_PER_BYTE) (ucast c) + push_bit BITS_PER_BYTE (ucast b) + (ucast a :: digit)"
  have 1: "unat (push_bit (2 * BITS_PER_BYTE) (ucast c) + push_bit BITS_PER_BYTE (ucast b) :: digit) =
      65536 * unat c + 256 * unat b"
    using less sh [of 16 c] sh [of 8 b] by (subst unat_plus_eq) (simp_all add: digit_consts)
  have s: "unat s = ?x3"
    unfolding s_def using less by (subst unat_plus_eq) (simp_all add: 1 unat_ucast_byte)
  have g: "guess_byte x (length pre + n + 2) y2 = (if BYTE_RADIX \<le> s div y2 then BYTE_RADIX - 1 else s div y2)"
    unfolding guess_byte_def nth s_def Let_def ..
  have q: "unat (s div y2) = ?x3 div unat y2" by (simp only: unat_div s)
  have "BYTE_RADIX \<le> s div y2 \<longleftrightarrow> 256 \<le> ?x3 div unat y2"
    by (simp only: word_le_nat_alt q) (simp add: BYTE_RADIX_def)
  then have h: "unat (guess_byte x (length pre + n + 2) y2) = min 255 (?x3 div unat y2)"
    unfolding g using q by (auto simp: BYTE_RADIX_def min_def)
  then show "unat (guess_byte x (length pre + n + 2) y2) \<le> 255" by simp
  have e: "256 \<le> unat y2" using assms(3) y2 by (simp add: unat_gt_0 Suc_le_eq trans_le_add1)
  have Y: "Y = unat y2 * 256 ^ n + cval ylo" "cval ylo < 256 ^ n"
    using cval_less [of ylo] assms(2) by (simp_all add: Y_def y2 algebra_simps)
  have W: "W = ?x3 * 256 ^ n + cval lo" "cval lo < 256 ^ n"
    using cval_less [of lo] assms(1) by (simp_all add: W_def algebra_simps)
  show "W div Y \<le> unat (guess_byte x (length pre + n + 2) y2)"
    "unat (guess_byte x (length pre + n + 2) y2) \<le> W div Y + 1"
    using guess_bounds [OF Y W e w [folded W_def Y_def]] by (simp_all only: h)
qed

lemma mod_by_quotient:
  fixes W Y q R :: nat
  assumes "W = Y * q + R" "R < Y"
  shows "W div Y = q" "W mod Y = R"
  using assms by simp_all

lemma small_remainder_unique:
  fixes r R P s t :: nat
  assumes "r + P * s = R + P * t" "r < P" "R < P"
  shows "s = t" "r = R"
proof -
  have "(r + P * s) div P = (R + P * t) div P" "(r + P * s) mod P = (R + P * t) mod P"
    using assms(1) by simp_all
  with assms(2,3) show "s = t" "r = R" by simp_all
qed

text \<open>The correction of a guess that was one too large.\<close>

lemma corrected:
  fixes W Y P q t c :: nat
  assumes sub: "s + P * t + Y * q = W + P * 256" and bk: "r + P * c = s + Y"
    and less: "s < P" "r < P" "Y < P" "0 < Y" "t \<le> 255"
    and guess: "q \<le> W div Y + 1"
  shows "W div Y = q - 1" "W mod Y = r" "t = 255" "c = 1"
proof -
  have "P * t \<le> P * 255" using less(5) by (intro mult_le_mono2)
  then have "W < Y * q" using sub less(1) by linarith
  then have "W div Y < q" using less(4) by (simp add: div_less_iff_less_mult mult.commute)
  with guess have q: "q = W div Y + 1" by linarith
  then show "W div Y = q - 1" by simp
  have W: "Y * (W div Y) + W mod Y = W" by (rule mult_div_mod_eq)
  have "Y * q = Y * (W div Y) + Y" by (subst q) (simp add: distrib_left)
  with sub bk W have "r + (P * c + P * t) = W mod Y + P * 256" by linarith
  then have "r + P * (c + t) = W mod Y + P * 256" by (simp only: distrib_left)
  moreover have "W mod Y < P" using less(3,4) by (metis mod_less_divisor order.strict_trans)
  ultimately have u: "c + t = 256" "r = W mod Y"
    using small_remainder_unique less(2) by blast+
  then show "W mod Y = r" by simp
  have "r + P * c < P * 2" using bk less(1,3) by linarith
  then have "P * c < P * 2" by linarith
  then have "c < 2" by simp
  with u(1) less(5) show "t = 255" "c = 1" by linarith+
qed

theorem div_step_value:
  fixes y ylo lo pre post x :: "uchar list" and d e a b c :: uchar
  defines "y \<equiv> ylo @ [d, e]" and "w \<equiv> lo @ [a, b, c]"
  defines "y2 \<equiv> push_bit BITS_PER_BYTE (ucast e) + ucast d :: digit"
  assumes len: "length lo = length ylo" and e: "e \<noteq> 0" and lt: "cval w < 256 * cval y"
    and x: "x = pre @ w @ post" and step: "div_step y y2 (length pre) x = (qk, x')"
  shows "unat qk = cval w div cval y"
    "\<exists>w'. x' = pre @ w' @ post \<and> length w' = length w \<and> cval w' = cval w mod cval y"
proof -
  let ?Y = "cval y" and ?W = "cval w" and ?P = "256 ^ length y"
  define q0 where "q0 = guess_byte x (length pre + length y) y2"
  have ix: "length pre + length y = length pre + length ylo + 2" by (simp add: y_def)
  have g: "unat q0 \<le> 255" "?W div ?Y \<le> unat q0" "unat q0 \<le> ?W div ?Y + 1"
    using guess_byte_value [OF len refl e lt [unfolded w_def y_def] x [unfolded w_def, simplified append_assoc]]
    unfolding q0_def ix y2_def w_def y_def by simp_all
  define d0 where "d0 = lo @ [a, b]"
  have d0: "length d0 = length y" "w = d0 @ [c]" by (simp_all add: d0_def y_def w_def len)
  have W: "?W = cval d0 + ?P * unat c" by (simp add: d0)
  have YP: "?Y < ?P" by (rule cval_less)
  have Y0: "0 < ?Y" using lt by (metis gr0I mult_0_right not_less_zero)
  have dr: "drop (length pre) x = d0 @ c # post" "take (length pre) x = pre"
    "drop (length pre + length y + 1) x = post" "(d0 @ c # post) ! length y = c"
    "drop (length y) (d0 @ c # post) = c # post"
    using d0 by (simp_all add: x nth_append)
  note step' = step [unfolded div_step_def Let_def, folded q0_def, unfolded dr]
  have "unat qk = ?W div ?Y \<and>
      (\<exists>w'. x' = pre @ w' @ post \<and> length w' = length w \<and> cval w' = ?W mod ?Y)"
  proof (cases "q0 = 0")
    case True
    then have "?W div ?Y = 0" using g by simp
    then have "?W < ?Y" using Y0 by (simp add: div_eq_0_iff)
    then show ?thesis using True step' x by auto
  next
    case False
    obtain ds cy where ms: "mul_sub_loop q0 0 y (d0 @ c # post) = (ds, cy)" by fastforce
    have l: "length ds = length y" "unat cy \<le> 255" "cval ds + ?Y * unat q0 = cval d0 + ?P * unat cy"
      using mul_sub_loop_value [OF g(1) _ _ ms] d0 by simp_all
    have exact: ?thesis
      if "cval (ds @ [t]) + ?Y * unat q0 = ?W" "qk = q0" "x' = pre @ (ds @ [t]) @ post" for t
    proof -
      have "?Y * unat q0 \<le> ?W" using that(1) by linarith
      then have "unat q0 \<le> ?W div ?Y" using Y0 by (simp add: less_eq_div_iff_mult_less_eq mult.commute)
      with g(2) have q: "unat q0 = ?W div ?Y" by simp
      moreover have "cval (ds @ [t]) = ?W mod ?Y"
        using that(1) mult_div_mod_eq [of ?Y ?W] unfolding q by linarith
      moreover have "length (ds @ [t]) = length w" using l(1) d0 by simp
      ultimately show ?thesis using that(2,3) by blast
    qed
    have ct: "cval (ds @ [t]) = cval ds + ?P * unat t" for t using l(1) by simp
    show ?thesis
    proof (cases "cy = 0")
      case True
      have "qk = q0 \<and> x' = pre @ (ds @ [c]) @ post"
        using step' False True by (simp add: ms)
      moreover have "cval (ds @ [c]) + ?Y * unat q0 = ?W" unfolding ct using l(3) W True by simp
      ultimately show ?thesis by (intro exact [of c]) auto
    next
      case cy0: False
      define u where "u = (ucast c + BYTE_RADIX) - cy"
      define top where "top = (ucast (u AND BYTE_MASK) :: uchar)"
      have c: "unat c < 256" by (rule byte_less)
      have "unat (ucast c + BYTE_RADIX) = unat c + 256"
        using c by (subst unat_plus_eq) (simp_all add: unat_ucast_byte BYTE_RADIX_def)
      then have u: "unat u = unat c + 256 - unat cy"
        unfolding u_def using l(2) by (subst unat_minus_eq) simp_all
      have top: "unat top = unat u mod 256" unfolding top_def by (rule unat_ucast_masked)
      have over: "unat (drop_bit BITS_PER_BYTE u) = unat u div 256" by (rule unat_byte_over)
      have cyp: "0 < unat cy" using cy0 by (simp add: unat_gt_0)
      show ?thesis
      proof (cases "unat cy \<le> unat c")
        case True
        then have "unat u = 256 * 1 + (unat c - unat cy)" "unat c - unat cy < 256" using u c by simp_all
        note s = split_index [OF this]
        then have "unat (drop_bit BITS_PER_BYTE u) = unat (1 :: digit)" using over by simp
        then have "drop_bit BITS_PER_BYTE u = 1" by (rule word_unat_eq_iff [THEN iffD2])
        then have "qk = q0 \<and> x' = pre @ (ds @ [top]) @ post"
          using step' False cy0 by (simp add: ms flip: u_def top_def)
        moreover have "?P * unat c = ?P * (unat c - unat cy) + ?P * unat cy"
          using True by (simp flip: distrib_left)
        then have "cval (ds @ [top]) + ?Y * unat q0 = ?W" unfolding ct using l(3) W s top by simp
        ultimately show ?thesis by (intro exact [of top]) auto
      next
        case False': False
        then have u256: "unat u < 256" using u cyp by linarith
        then have "unat (drop_bit BITS_PER_BYTE u) = 0" using over by simp
        then have b: "drop_bit BITS_PER_BYTE u = 0" by (simp only: unsigned_eq_0_iff)
        have t: "unat top + unat cy = unat c + 256" using u u256 top l(2) by simp
        obtain ds2 c2 where ab: "add_back_loop 0 y ds = (ds2, c2)" by fastforce
        have l2: "length ds2 = length y" "cval ds2 + ?P * unat c2 = cval ds + ?Y"
          using add_back_loop_value [OF _ _ ab] l(1) by simp_all
        have "?P * unat top + ?P * unat cy = ?P * unat c + ?P * 256"
          using arg_cong [OF t, of "(*) ?P"] by (simp add: distrib_left)
        then have sub: "cval ds + ?P * unat top + ?Y * unat q0 = ?W + ?P * 256"
          using l(3) W by linarith
        have tb: "unat top \<le> 255" using byte_less [of top] by linarith
        have "cval ds < ?P" "cval ds2 < ?P" using cval_less [of ds] cval_less [of ds2] l(1) l2(1) by simp_all
        note k = corrected [OF sub l2(2) this YP Y0 tb g(3)]
        have c2: "c2 \<noteq> 0" using k(4) by auto
        define top2 where "top2 = (ucast ((ucast top + 1 :: digit) AND BYTE_MASK) :: uchar)"
        have "unat (ucast top + 1 :: digit) = 256"
          using k(3) by (subst unat_plus_eq) (simp_all add: unat_ucast_byte)
        then have top2: "unat top2 = 0" by (simp only: top2_def unat_ucast_masked) simp
        have "qk = q0 - 1 \<and> x' = pre @ (ds2 @ [top2]) @ post"
          using step' False cy0 b c2 by (simp add: ms ab flip: u_def top_def top2_def)
        moreover have "unat (q0 - 1) = unat q0 - 1"
          using False by (subst unat_minus_eq) (simp_all add: Suc_le_eq unat_gt_0)
        moreover have "cval (ds2 @ [top2]) = ?W mod ?Y" using k(2) top2 l2(1) by simp
        moreover have "length (ds2 @ [top2]) = length w" using l2(1) d0 by simp
        ultimately show ?thesis using k(1) by auto
      qed
    qed
  qed
  then show "unat qk = ?W div ?Y"
    "\<exists>w'. x' = pre @ w' @ post \<and> length w' = length w \<and> cval w' = ?W mod ?Y" by blast+
qed

section \<open>The whole division\<close>

lemma length_three: "length xs = 3 \<Longrightarrow> \<exists>a b c. xs = [a, b, c]"
  by (auto simp: numeral_3_eq_3 length_Suc_conv)

lemma three_last:
  assumes "length w = n + 3"
  obtains lo a b c where "w = lo @ [a, b, c]" "length lo = n"
proof -
  have "length (drop n w) = 3" using assms by simp
  from length_three [OF this] obtain a b c where "drop n w = [a, b, c]" by blast
  then have "w = take n w @ [a, b, c]" by (metis append_take_drop_id)
  moreover have "length (take n w) = n" using assms by simp
  ultimately show ?thesis using that by blast
qed

lemma div_loop_value:
  fixes ylo :: "uchar list" and d e :: uchar
  defines "y \<equiv> ylo @ [d, e]"
  defines "y2 \<equiv> push_bit BITS_PER_BYTE (ucast e) + ucast d :: digit"
  assumes e: "e \<noteq> 0"
  shows "cval (drop k x) < cval y \<Longrightarrow> k + length y \<le> length x \<Longrightarrow> div_loop y y2 k x q = (q', x') \<Longrightarrow>
    \<exists>qs. q' = qs @ q \<and> length qs = k \<and> cval x = cval x' + cval y * cval qs \<and> cval x' < cval y \<and>
      length x' = length x"
proof (induction k arbitrary: x q)
  case (Suc k)
  let ?Y = "cval y" and ?n = "length y"
  define pre where "pre = take k x"
  define w where "w = take (?n + 1) (drop k x)"
  define post where "post = drop (k + ?n + 1) x"
  have lens: "length pre = k" "length w = length ylo + 3"
    using Suc.prems(2) by (simp_all add: pre_def w_def y_def)
  have dk: "drop k x = w @ post"
    by (simp add: w_def post_def flip: drop_drop) (metis append_take_drop_id drop_Suc_Cons drop_drop add.commute plus_1_eq_Suc)
  have x: "x = pre @ w @ post" using dk by (metis append_take_drop_id pre_def)
  obtain lo a b c where w: "w = lo @ [a, b, c]" and lo: "length lo = length ylo"
    using three_last [OF lens(2)] by blast
  have "k < length x" using Suc.prems(2) by simp
  then have "drop k x = x ! k # drop (Suc k) x" by (rule Cons_nth_drop_Suc [symmetric])
  then have "cval (drop k x) = unat (x ! k) + 256 * cval (drop (Suc k) x)" by simp
  moreover have "256 * (cval (drop (Suc k) x) + 1) \<le> 256 * ?Y"
    using Suc.prems(1) by (intro mult_le_mono2) simp
  ultimately have lt: "cval (w @ post) < 256 * ?Y" using byte_less [of "x ! k"] dk by simp
  have "256 * ?Y < 256 ^ length w"
    using cval_less [of y] lens(2) by (simp add: y_def power_add del: cval_append)
  have "cval post = 0"
  proof (rule ccontr)
    assume "cval post \<noteq> 0"
    then have "256 ^ length w \<le> 256 ^ length w * cval post" by simp
    also have "\<dots> \<le> cval (w @ post)" by simp
    finally show False using lt \<open>256 * ?Y < 256 ^ length w\<close> by linarith
  qed
  then have W: "cval (w @ post) = cval w" by simp
  obtain qk x1 where st: "div_step y y2 k x = (qk, x1)" by fastforce
  obtain w' where qk: "unat qk = cval w div ?Y" and x1: "x1 = pre @ w' @ post" "length w' = length w"
    "cval w' = cval w mod ?Y"
    using div_step_value [OF lo e _ _ st [unfolded y_def y2_def, folded lens(1)], of a b c post] lt W x w
    unfolding y_def by auto
  have Y0: "0 < ?Y" using Suc.prems(1) by simp
  have "drop k x1 = w' @ post" using lens by (simp add: x1)
  then have lt1: "cval (drop k x1) < ?Y" using x1(3) Y0 \<open>cval post = 0\<close> by simp
  have len1: "length x1 = length x" using x1 x by simp
  have "div_loop y y2 k x1 (ucast qk # q) = (q', x')" using Suc.prems(3) by (simp add: st)
  from Suc.IH [OF lt1 _ this] len1 Suc.prems(2)
  obtain qs where qs: "q' = qs @ ucast qk # q" "length qs = k" "cval x1 = cval x' + ?Y * cval qs"
    "cval x' < ?Y" "length x' = length x" by auto
  have "cval w div ?Y < 256" using lt W by (simp add: less_mult_imp_div_less)
  then have q1: "unat (ucast qk :: uchar) = cval w div ?Y"
    by (simp add: unsigned_ucast_eq take_bit_nat_eq_self qk)
  define Q M where "Q = cval w div ?Y" and "M = cval w mod ?Y"
  have wq: "cval w = ?Y * Q + M" by (simp only: Q_def M_def mult_div_mod_eq)
  have w': "cval w' = M" by (simp only: M_def x1(3))
  have "cval x = cval pre + 256 ^ k * (?Y * Q + M)" using lens(1) W wq by (subst x) simp
  also have "\<dots> = cval x1 + ?Y * (256 ^ k * Q)"
    using lens(1) \<open>cval post = 0\<close> w' by (simp add: x1(1) algebra_simps)
  also have "\<dots> = cval x' + ?Y * cval (qs @ [ucast qk])"
    using qs(2,3) q1 by (simp add: distrib_left Q_def)
  finally have "cval x = cval x' + ?Y * cval (qs @ [ucast qk])" .
  then show ?case using qs by (intro exI [of _ "qs @ [ucast qk]"]) simp
qed simp

lemma skip_zero_bytes_value:
  "n \<le> length x \<Longrightarrow> cval (take (skip_zero_bytes n x) x) = cval (take n x)"
  "skip_zero_bytes n x \<le> n"
  "0 < skip_zero_bytes n x \<Longrightarrow> x ! (skip_zero_bytes n x - 1) \<noteq> 0"
  by (induction n) (auto simp: take_Suc_conv_app_nth split: if_splits)

theorem long_division_value:
  assumes "digits_ok u" "digits_ok v" "ulen \<le> length u" "vlen \<le> length v"
    and "256 \<le> dval (take vlen v)" "dval (take vlen v) \<le> dval (take ulen u)"
    and r: "long_division ulen u vlen v = (q, x)"
  defines "y \<equiv> vec_to_char vlen (take vlen v)"
  defines "ylen \<equiv> skip_zero_bytes (length y) y"
  shows "cval q = dval (take ulen u) div dval (take vlen v)"
    "cval (take ylen x) = dval (take ulen u) mod dval (take vlen v)"
    "0 < length q" "0 < ylen" "ylen \<le> length x"
proof -
  let ?U = "dval (take ulen u)" and ?V = "dval (take vlen v)"
  define x0 where "x0 = vec_to_char ulen (take ulen u)"
  define xlen where "xlen = skip_zero_bytes (length x0) x0"
  have x0: "cval x0 = ?U" using vec_to_char_value(1) [of "take ulen u"] assms by (simp add: x0_def min_absorb2)
  have y0: "cval y = ?V" using vec_to_char_value(1) [of "take vlen v"] assms by (simp add: y_def min_absorb2)
  have xl: "cval (take xlen x0) = ?U" "xlen \<le> length x0"
    using skip_zero_bytes_value(1,2) [of "length x0" x0] x0 by (simp_all add: xlen_def)
  have yl: "cval (take ylen y) = ?V" "ylen \<le> length y"
    using skip_zero_bytes_value(1,2) [of "length y" y] y0 by (simp_all add: ylen_def)
  have "2 \<le> ylen"
  proof (rule ccontr)
    assume "\<not> 2 \<le> ylen"
    then have "(256 :: nat) ^ ylen \<le> 256 ^ 1" by (intro power_increasing) auto
    with cval_less [of "take ylen y"] yl assms(5) show False by simp
  qed
  then have top: "y ! (ylen - 1) \<noteq> 0"
    using skip_zero_bytes_value(3) [of "length y" y] by (simp add: ylen_def)
  define ylo where "ylo = take (ylen - 2) y"
  have ys: "take ylen y = ylo @ [y ! (ylen - 2), y ! (ylen - 1)]"
  proof -
    have "ylen = Suc (Suc (ylen - 2))" using \<open>2 \<le> ylen\<close> by simp
    moreover have "Suc (ylen - 2) = ylen - 1" using \<open>2 \<le> ylen\<close> by simp
    ultimately show ?thesis
      using take_Suc_conv_app_nth [of "ylen - 2" y] take_Suc_conv_app_nth [of "Suc (ylen - 2)" y] yl(2)
      by (simp add: ylo_def)
  qed
  have low: "256 ^ (ylen - 1) \<le> cval (take ylen y)"
  proof -
    have "256 ^ (ylen - 1) \<le> 256 ^ (ylen - 1) * unat (y ! (ylen - 1))"
      using top by (simp add: Suc_le_eq unat_gt_0)
    moreover have len: "length (ylo @ [y ! (ylen - 2)]) = ylen - 1"
      using \<open>2 \<le> ylen\<close> yl(2) by (simp add: ylo_def)
    have "cval (take ylen y) = cval (ylo @ [y ! (ylen - 2)]) +
        256 ^ length (ylo @ [y ! (ylen - 2)]) * unat (y ! (ylen - 1))"
      unfolding ys using cval_append [of "ylo @ [y ! (ylen - 2)]" "[y ! (ylen - 1)]"] by simp
    then have "cval (take ylen y) = cval (ylo @ [y ! (ylen - 2)]) +
        256 ^ (ylen - 1) * unat (y ! (ylen - 1))"
      by (simp only: len)
    ultimately show ?thesis by linarith
  qed
  have ge: "ylen \<le> xlen"
  proof (rule ccontr)
    assume "\<not> ylen \<le> xlen"
    then have "(256 :: nat) ^ xlen \<le> 256 ^ (ylen - 1)" by (intro power_increasing) auto
    also note low
    finally show False using cval_less [of "take xlen x0"] xl yl assms(6) by simp
  qed
  define k where "k = xlen + 1 - ylen"
  define x1 where "x1 = take xlen x0 @ [0]"
  have k: "k + ylen = xlen + 1" "k \<le> xlen" using ge \<open>2 \<le> ylen\<close> by (simp_all add: k_def)
  have lx1: "length x1 = xlen + 1" using xl(2) by (simp add: x1_def)
  have "cval (drop k x1) = cval (drop k (take xlen x0))" using k xl(2) by (simp add: x1_def)
  also have "\<dots> < 256 ^ (ylen - 1)"
    using cval_less [of "drop k (take xlen x0)"] k xl(2) \<open>2 \<le> ylen\<close>
    by (simp add: k_def)
  also note low
  finally have lt: "cval (drop k x1) < cval (take ylen y)" .
  have run: "div_loop (take ylen y) (push_bit BITS_PER_BYTE (ucast (y ! (ylen - 1))) + ucast (y ! (ylen - 2)))
      k x1 [] = (q, x)"
    using r by (simp add: long_division_def Let_def x0_def xlen_def y_def ylen_def k_def x1_def)
  have len_y: "length (take ylen y) = ylen" using yl(2) by simp
  obtain qs where "q = qs @ []" "length qs = k" "cval x1 = cval x + ?V * cval qs" "cval x < ?V"
    "length x = length x1"
    using div_loop_value [OF top lt [unfolded ys] _ run [unfolded ys]] k lx1 len_y yl(1)
    unfolding ys [symmetric] by auto
  moreover have "cval x1 = ?U" using xl(1) by (simp add: x1_def)
  ultimately have res: "q = qs" "?U = cval x + ?V * cval q" "cval x < ?V" "length x = xlen + 1" "length q = k"
    using lx1 by simp_all
  then have dm: "?U div ?V = cval q" "?U mod ?V = cval x"
    using mod_by_quotient [of ?U ?V "cval q" "cval x"] by simp_all
  then show "cval q = ?U div ?V" by simp
  show "0 < length q" using res(5) k ge by simp
  show "0 < ylen" using \<open>2 \<le> ylen\<close> by simp
  show "ylen \<le> length x" using res(4) ge by simp
  have "cval (drop ylen x) = 0"
  proof (rule ccontr)
    assume "cval (drop ylen x) \<noteq> 0"
    then have "256 ^ ylen \<le> 256 ^ ylen * cval (drop ylen x)" by simp
    also have "\<dots> \<le> cval x"
      using cval_append [of "take ylen x" "drop ylen x"] \<open>ylen \<le> length x\<close> by (simp add: min_absorb2)
    finally show False using res(3) cval_less [of "take ylen y"] yl(1) len_y by simp
  qed
  then have "cval (take ylen x) = cval x"
    using cval_append [of "take ylen x" "drop ylen x"] by simp
  then show "cval (take ylen x) = ?U mod ?V" using dm by simp
qed

lemma vec_from_char_take:
  assumes "0 < n" "n \<le> length cs"
  shows "vec_from_char n cs vlen v = vec_from_char n (take n cs) vlen v"
proof -
  have "foldl (\<lambda>v i. let v = stored (shift_left_loop BITS_PER_BYTE 0 (take vlen v)) v
                   in v[0 := v ! 0 OR ucast (cs ! i)]) x (rev [0..<m]) =
        foldl (\<lambda>v i. let v = stored (shift_left_loop BITS_PER_BYTE 0 (take vlen v)) v
                   in v[0 := v ! 0 OR ucast (take n cs ! i)]) x (rev [0..<m])" if "m \<le> n" for m x
    by (rule foldl_cong) (use that in auto)
  then show ?thesis using assms by (simp add: vec_from_char_def)
qed

theorem vec_div_large_value:
  assumes "digits_ok u" "digits_ok v" "0 < ulen" "ulen \<le> length u" "vlen \<le> length v"
    and "256 \<le> dval (take vlen v)" "dval (take vlen v) \<le> dval (take ulen u)"
    and "ulen \<le> length w" "\<forall>d \<in> set w. d = 0"
  shows "dval (vec_div_large ulen u vlen v w) = dval (take ulen u) div dval (take vlen v)"
    "digits_ok (vec_div_large ulen u vlen v w)" "length (vec_div_large ulen u vlen v w) = length w"
proof -
  obtain q x where l: "long_division ulen u vlen v = (q, x)" by fastforce
  note r = long_division_value [OF assms(1,2,4,5,6,7) l]
  have e: "vec_div_large ulen u vlen v w = vec_from_char (length q) q ulen w"
    by (simp add: vec_div_large_def l)
  note f = vec_from_char_value [OF r(3) assms(3,8,9)]
  have "dval (take ulen u) div dval (take vlen v) \<le> dval (take ulen u)" by simp
  also have "\<dots> < radix ^ ulen" using dval_less [of "take ulen u"] assms by (simp add: min_absorb2)
  finally show "dval (vec_div_large ulen u vlen v w) = dval (take ulen u) div dval (take vlen v)"
    using f(1) r(1) by (simp add: e)
  show "digits_ok (vec_div_large ulen u vlen v w)" "length (vec_div_large ulen u vlen v w) = length w"
    using f by (simp_all add: e)
qed

theorem vec_rem_large_value:
  assumes "digits_ok u" "digits_ok v" "0 < ulen" "ulen \<le> length u" "vlen \<le> length v"
    and "256 \<le> dval (take vlen v)" "dval (take vlen v) \<le> dval (take ulen u)"
    and "ulen \<le> length w" "\<forall>d \<in> set w. d = 0"
  shows "dval (vec_rem_large ulen u vlen v w) = dval (take ulen u) mod dval (take vlen v)"
    "digits_ok (vec_rem_large ulen u vlen v w)" "length (vec_rem_large ulen u vlen v w) = length w"
proof -
  obtain q x where l: "long_division ulen u vlen v = (q, x)" by fastforce
  define y where "y = vec_to_char vlen (take vlen v)"
  define ylen where "ylen = skip_zero_bytes (length y) y"
  note r = long_division_value [OF assms(1,2,4,5,6,7) l, folded y_def, folded ylen_def]
  have len: "length (take ylen x) = ylen" using r(5) by simp
  have e: "vec_rem_large ulen u vlen v w = vec_from_char ylen (take ylen x) ulen w"
    using vec_from_char_take [OF r(4,5)]
    by (simp add: vec_rem_large_def l Let_def flip: y_def ylen_def)
  have "0 < length (take ylen x)" using len r(4) by simp
  note f = vec_from_char_value [OF this assms(3,8,9), unfolded len]
  have "dval (take ulen u) mod dval (take vlen v) \<le> dval (take ulen u)" by simp
  also have "\<dots> < radix ^ ulen" using dval_less [of "take ulen u"] assms by (simp add: min_absorb2)
  finally show "dval (vec_rem_large ulen u vlen v w) = dval (take ulen u) mod dval (take vlen v)"
    using f(1) r(2) by (simp add: e)
  show "digits_ok (vec_rem_large ulen u vlen v w)" "length (vec_rem_large ulen u vlen v w) = length w"
    using f by (simp_all add: e)
qed

end
