(* ===== verification/Dt_Arith.thy ===== *)
theory Dt_Arith
  imports Dt_Long_Div
begin

text \<open>
  The arithmetic on whole numbers in sign-magnitude representation
  (datatypes/int/sc_nbexterns.cpp): addition, multiplication, division and remainder in place.
  The sources have a signed and an unsigned copy of the last three, whose bodies differ in the
  macros \<^verbatim>\<open>CONVERT_SM_to_2C_to_SM\<close> and \<^verbatim>\<open>COPY_DIGITS\<close>; here one body has them as
  parameters.  What the two formats promise is the locale \<open>digit_format\<close>: the lemmas on the
  bodies are proved once in it, and it is interpreted on the conversions of the signed and of
  the unsigned numbers.
\<close>

unbundle bit_operations_syntax

section \<open>Addition\<close>

definition add_on_help ::
  "int \<Rightarrow> nat \<Rightarrow> digits \<Rightarrow> int \<Rightarrow> nat \<Rightarrow> digits \<Rightarrow> int \<times> digits" where
  "add_on_help us und ud vs vnd vd =
     (let vnd = vec_skip_leading_zeros vnd vd
      in if us = vs then
           (us, if vnd \<le> und then vec_add_on und ud vnd vd else vec_add_on2 und ud vnd vd)
         else
           let new_und = vec_skip_leading_zeros und ud;
               cmp_res = vec_cmp new_und ud vnd vd
           in if cmp_res = 0 then (SC_ZERO, vec_zero und ud)
              else if 0 < cmp_res then (us, vec_sub_on und ud vnd vd)
              else (- us, vec_sub_on2 und ud vnd vd))"

section \<open>Multiplication, division, remainder\<close>

type_synonym convert = "int \<Rightarrow> nat \<Rightarrow> nat \<Rightarrow> digits \<Rightarrow> int \<times> digits"
type_synonym copy_digits = "int \<Rightarrow> nat \<Rightarrow> nat \<Rightarrow> digits \<Rightarrow> nat \<Rightarrow> nat \<Rightarrow> digits \<Rightarrow> int \<times> digits"

definition mul_on_help ::
  "convert \<Rightarrow> copy_digits \<Rightarrow> int \<Rightarrow> nat \<Rightarrow> nat \<Rightarrow> digits \<Rightarrow> nat \<Rightarrow> nat \<Rightarrow> digits \<Rightarrow> int \<times> digits" where
  "mul_on_help conv copy us unb old_und ud vnb vnd vd =
     (let und = vec_skip_leading_zeros old_und ud;
          vnd = vec_skip_leading_zeros vnd vd;
          ud0 = ud ! 0;
          vd0 = vd ! 0
      in if vnd = 1 \<and> vd0 = 1 then conv us unb old_und ud
         else if und = 1 \<and> ud0 = 1 then copy us unb old_und ud vnb vnd vd
         else if und = 1 \<and> vnd = 1 \<and> ud0 < HALF_DIGIT_RADIX \<and> vd0 < HALF_DIGIT_RADIX then
           copy us unb old_und ud (unb + vnb) 1 [ud0 * vd0]
         else
           let nd = und + vnd;
               d = replicate nd 0;
               d = (if und = 1 \<and> ud0 < HALF_DIGIT_RADIX then vec_mul_small vnd vd ud0 d
                    else if vnd = 1 \<and> vd0 < HALF_DIGIT_RADIX then vec_mul_small und ud vd0 d
                    else if vnd < und then vec_mul und ud vnd vd d
                    else vec_mul vnd vd und ud d)
           in copy us unb old_und ud (unb + vnb) nd d)"

definition div_on_help ::
  "convert \<Rightarrow> copy_digits \<Rightarrow> int \<Rightarrow> nat \<Rightarrow> nat \<Rightarrow> digits \<Rightarrow> nat \<Rightarrow> nat \<Rightarrow> digits \<Rightarrow> int \<times> digits" where
  "div_on_help conv copy us unb old_und ud vnb vnd vd =
     (let und = vec_skip_leading_zeros old_und ud;
          vnd = vec_skip_leading_zeros vnd vd;
          cmp_res = vec_cmp und ud vnd vd
      in if cmp_res < 0 then (SC_ZERO, vec_zero old_und ud)
         else
           let vd0 = vd ! 0
           in if 0 < cmp_res \<and> vnd = 1 \<and> vd0 = 1 then conv us unb old_und ud
              else
                let nd = max und vnd + 1;
                    d = replicate nd 0;
                    d = (if cmp_res = 0 then d[0 := 1]
                         else if vnd = 1 \<and> und = 1 then d[0 := ud ! 0 div vd0]
                         else if vnd = 1 \<and> vd0 < HALF_DIGIT_RADIX then vec_div_small und ud vd0 d
                         else vec_div_large und ud vnd vd d)
                in copy us unb old_und ud (max unb vnb) (nd - 1) d)"

text \<open>The parameter \<^verbatim>\<open>vnb\<close> of the remainder is not named in the source.\<close>

definition mod_on_help ::
  "copy_digits \<Rightarrow> int \<Rightarrow> nat \<Rightarrow> nat \<Rightarrow> digits \<Rightarrow> nat \<Rightarrow> digits \<Rightarrow> int \<times> digits" where
  "mod_on_help copy us unb old_und ud vnd vd =
     (let und = vec_skip_leading_zeros old_und ud;
          vnd = vec_skip_leading_zeros vnd vd;
          cmp_res = vec_cmp und ud vnd vd
      in if cmp_res < 0 then (us, ud)
         else if cmp_res = 0 then (SC_ZERO, vec_zero old_und ud)
         else
           let vd0 = vd ! 0
           in if vnd = 1 \<and> vd0 = 1 then (SC_ZERO, vec_zero old_und ud)
              else
                let nd = max und vnd + 1;
                    d = replicate nd 0;
                    d = (if vnd = 1 \<and> und = 1 then d[0 := ud ! 0 mod vd0] else d);
                    d = (if vnd = 1 \<and> vd0 < HALF_DIGIT_RADIX
                         then d[0 := vec_rem_small und ud vd0]
                         else vec_rem_large und ud vnd vd d);
                    us = check_for_zero us (nd - 1) d
                in if us = SC_ZERO then (us, vec_zero old_und ud)
                   else copy us unb old_und ud (min unb vnd) (nd - 1) d)"

definition mul_on_help_signed ::
  "int \<Rightarrow> nat \<Rightarrow> nat \<Rightarrow> digits \<Rightarrow> nat \<Rightarrow> nat \<Rightarrow> digits \<Rightarrow> int \<times> digits" where
  "mul_on_help_signed = mul_on_help convert_signed_SM_to_2C_to_SM copy_digits_signed"

definition mul_on_help_unsigned ::
  "int \<Rightarrow> nat \<Rightarrow> nat \<Rightarrow> digits \<Rightarrow> nat \<Rightarrow> nat \<Rightarrow> digits \<Rightarrow> int \<times> digits" where
  "mul_on_help_unsigned = mul_on_help convert_unsigned_SM_to_2C_to_SM copy_digits_unsigned"

definition div_on_help_signed ::
  "int \<Rightarrow> nat \<Rightarrow> nat \<Rightarrow> digits \<Rightarrow> nat \<Rightarrow> nat \<Rightarrow> digits \<Rightarrow> int \<times> digits" where
  "div_on_help_signed = div_on_help convert_signed_SM_to_2C_to_SM copy_digits_signed"

definition div_on_help_unsigned ::
  "int \<Rightarrow> nat \<Rightarrow> nat \<Rightarrow> digits \<Rightarrow> nat \<Rightarrow> nat \<Rightarrow> digits \<Rightarrow> int \<times> digits" where
  "div_on_help_unsigned = div_on_help convert_unsigned_SM_to_2C_to_SM copy_digits_unsigned"

definition mod_on_help_signed ::
  "int \<Rightarrow> nat \<Rightarrow> nat \<Rightarrow> digits \<Rightarrow> nat \<Rightarrow> digits \<Rightarrow> int \<times> digits" where
  "mod_on_help_signed = mod_on_help copy_digits_signed"

definition mod_on_help_unsigned ::
  "int \<Rightarrow> nat \<Rightarrow> nat \<Rightarrow> digits \<Rightarrow> nat \<Rightarrow> digits \<Rightarrow> int \<times> digits" where
  "mod_on_help_unsigned = mod_on_help copy_digits_unsigned"

section \<open>Addition computes the sum modulo the digits\<close>

lemma smval_neg: "s \<noteq> SC_ZERO \<Longrightarrow> s \<in> {SC_NEG, SC_ZERO, SC_POS} \<Longrightarrow> smval (- s) d = - smval s d"
  by (auto simp: smval_def SC_NEG_def SC_ZERO_def SC_POS_def)

lemma nat_mod_int:
  assumes "m = x mod 2 ^ k"
  shows "int m mod 2 ^ k = int x mod 2 ^ k" "- int m mod 2 ^ k = - int x mod 2 ^ k"
proof -
  show *: "int m mod 2 ^ k = int x mod 2 ^ k" using assms by (simp add: of_nat_mod)
  show "- int m mod 2 ^ k = - int x mod 2 ^ k" using * by (metis mod_minus_eq)
qed

theorem add_on_help_value:
  assumes "digits_ok ud" "digits_ok vd" "vnd \<le> length vd"
    and s: "us \<in> {SC_NEG, SC_POS}" "vs \<in> {SC_NEG, SC_POS}"
    and r: "add_on_help us (length ud) ud vs vnd vd = (us', ud')"
  shows "smval us' ud' mod 2 ^ (30 * length ud) =
      (smval us ud + smval vs (take vnd vd)) mod 2 ^ (30 * length ud)"
    "digits_ok ud'" "length ud' = length ud" "us' \<in> {SC_NEG, SC_ZERO, SC_POS}"
proof -
  define n where "n = vec_skip_leading_zeros vnd vd"
  let ?U = "dval ud" and ?V = "dval (take n vd)" and ?R = "2 ^ (30 * length ud) :: nat"
  have n: "n \<le> length vd" using skip_le [of vnd vd] assms(3) by (simp add: n_def)
  have V: "dval (take vnd vd) = ?V" using dval_skip [OF assms(3)] by (simp add: n_def)
  have Ul: "?U < ?R" using dval_less [OF assms(1)] by (simp add: radix_power)
  have vs: "smval vs (take vnd vd) = (if vs = SC_NEG then - int ?V else int ?V)"
    by (simp add: smval_def V)
  have all: "smval us' ud' mod 2 ^ (30 * length ud) =
      (smval us ud + smval vs (take vnd vd)) mod 2 ^ (30 * length ud) \<and>
    digits_ok ud' \<and> length ud' = length ud \<and> us' \<in> {SC_NEG, SC_ZERO, SC_POS}"
  proof (cases "us = vs")
    case True
    have us': "us' = us" and ud': "ud' = (if n \<le> length ud then vec_add_on (length ud) ud n vd
        else vec_add_on2 (length ud) ud n vd)"
      using r True by (auto simp: add_on_help_def Let_def n_def)
    have val: "dval ud' = (?U + ?V) mod ?R" "digits_ok ud'" "length ud' = length ud"
    proof -
      show "dval ud' = (?U + ?V) mod ?R"
      proof (cases "n \<le> length ud")
        case True
        then show ?thesis using vec_add_on_value(1) [OF True n assms(1,2)] by (simp add: ud' radix_power)
      next
        case False
        have "dval (take (length ud) vd) mod ?R = ?V mod ?R"
          using dval_take [of "take n vd" "length ud"] False assms(2)
          by (simp add: radix_power min_absorb1)
        then have "(?U + dval (take (length ud) vd)) mod ?R = (?U + ?V) mod ?R"
          by (metis mod_add_right_eq)
        then show ?thesis
          using False vec_add_on2_value(1) [of ud vd n] assms(1,2) n by (simp add: ud' radix_power)
      qed
      show "digits_ok ud'" "length ud' = length ud"
        using vec_add_on_value(2,3) [of n ud vd] vec_add_on2_value(2,3) [of ud vd n] assms(1,2) n
        by (auto simp: ud')
    qed
    note m = nat_mod_int [OF val(1)]
    show ?thesis
      using m val(2,3) s True vs by (auto simp: us' smval_def add.commute)
  next
    case False
    define new_und where "new_und = vec_skip_leading_zeros (length ud) ud"
    have nu: "normal new_und ud" "dval (take new_und ud) = ?U"
      using dval_skip [of "length ud" ud] by (simp_all add: new_und_def)
    have nv: "normal n vd" using assms(3) by (simp add: n_def)
    note cmp = vec_cmp_eq [OF nu(1) nv assms(1,2), unfolded nu(2)]
    have r': "(if vec_cmp new_und ud n vd = 0 then (SC_ZERO, vec_zero (length ud) ud)
        else if 0 < vec_cmp new_und ud n vd then (us, vec_sub_on (length ud) ud n vd)
        else (- us, vec_sub_on2 (length ud) ud n vd)) = (us', ud')"
      using r False by (simp add: add_on_help_def Let_def n_def new_und_def split: if_splits)
    have opp: "smval us ud + smval vs (take vnd vd) =
        (if us = SC_NEG then int ?V - int ?U else int ?U - int ?V)"
      using s False vs by (auto simp: smval_def)
    consider "?U = ?V" | "?V < ?U" | "?U < ?V" by linarith
    then show ?thesis
    proof cases
      case 1
      then have "us' = SC_ZERO" "ud' = replicate (length ud) 0" using r' cmp by (simp_all add: vec_zero_eq)
      then show ?thesis using 1 opp by (simp add: smval_def)
    next
      case 2
      have le: "n \<le> length ud"
      proof (rule ccontr)
        assume a: "\<not> n \<le> length ud"
        then have "radix ^ length ud \<le> radix ^ (n - 1)" by (intro power_increasing) auto
        also have "\<dots> \<le> ?V" using nv a by (intro normal_lower) auto
        finally show False using 2 dval_less [OF assms(1)] by simp
      qed
      have res: "us' = us" "ud' = vec_sub_on (length ud) ud n vd" using r' cmp 2 by simp_all
      have v: "dval ud' = ?U - ?V" "digits_ok ud'" "length ud' = length ud"
        using vec_sub_on_value [OF le n assms(1,2)] 2 by (simp_all add: res)
      then show ?thesis using 2 opp s by (auto simp: res smval_def of_nat_diff)
    next
      case 3
      have res: "us' = - us" "ud' = vec_sub_on2 (length ud) ud n vd" using r' cmp 3 by simp_all
      have v: "dval ud' = (?V - ?U) mod ?R" "digits_ok ud'" "length ud' = length ud"
        using vec_sub_on2_value [OF n assms(1,2) 3] by (simp_all add: res radix_power)
      note m = nat_mod_int [OF v(1)]
      show ?thesis
        using m v(2,3) 3 opp s
        by (auto simp: res smval_def of_nat_diff SC_NEG_def SC_POS_def SC_ZERO_def)
    qed
  qed
  then show "smval us' ud' mod 2 ^ (30 * length ud) =
      (smval us ud + smval vs (take vnd vd)) mod 2 ^ (30 * length ud)"
    "digits_ok ud'" "length ud' = length ud" "us' \<in> {SC_NEG, SC_ZERO, SC_POS}" by blast+
qed

section \<open>The two formats\<close>

text \<open>
  What a format promises: converting a number with \<open>conv\<close> and copying one to another of \<open>unb\<close>
  bits with \<open>copy\<close> give the value wrapped to the bits of the format, as a number of the format.
  A copy from \<open>vnb < unb\<close> bits may rely on the value being in range.
\<close>

definition in_range :: "nat \<Rightarrow> int \<Rightarrow> bool" where
  "in_range nb x \<longleftrightarrow> - (2 ^ (nb - 1)) \<le> x \<and> x < 2 ^ (nb - 1)"

lemma one_digit:
  assumes "0 < nd" "unat x < radix"
  shows "dval ((replicate nd 0)[0 := x]) = unat x \<and> digits_ok ((replicate nd 0)[0 := x]) \<and>
    length ((replicate nd 0)[0 := x]) = nd"
proof -
  obtain k where "nd = Suc k" using assms(1) by (cases nd) auto
  then show ?thesis using assms(2) by simp
qed

lemma take_enough:
  assumes "digits_ok d" "dval d = q" "q \<le> dval (take m u)" "digits_ok u" "m \<le> length u" "m \<le> k"
  shows "dval (take k d) = q"
proof -
  note assms(3)
  also have "dval (take m u) < radix ^ m" using dval_less [of "take m u"] assms(4,5) by simp
  also have "\<dots> \<le> radix ^ k" using assms(6) by (intro power_increasing) auto
  finally show ?thesis using dval_take [OF assms(1), of k] assms(2) by simp
qed

lemma vec_rem_large_overwrites:
  "vec_rem_large ulen u vlen v (z[0 := x]) = vec_rem_large ulen u vlen v z"
  by (simp add: vec_rem_large_def vec_from_char_def Let_def split: prod.split)

section \<open>The digits of a product, a quotient and a remainder\<close>

text \<open>
  The branches in which the helpers call the routines on vectors, in the order in which they test
  for short operands.  \<open>m\<close> and \<open>n\<close> are the numbers of digits without leading zeros.
\<close>

lemma half_digit: "x < HALF_DIGIT_RADIX \<Longrightarrow> unat x < half"
  by (simp add: word_less_nat_alt digit_consts)

lemma product_digits:
  fixes u v :: digits
  assumes ok: "digits_ok u" "digits_ok v" and m: "m \<le> length u" "0 < m" and n: "n \<le> length v" "0 < n"
    and one: "m = 1 \<Longrightarrow> unat (u ! 0) = dval (take m u)" "n = 1 \<Longrightarrow> unat (v ! 0) = dval (take n v)"
  defines "z \<equiv> replicate (m + n) (0 :: digit)"
  defines "d \<equiv> if m = 1 \<and> u ! 0 < HALF_DIGIT_RADIX then vec_mul_small n v (u ! 0) z
    else if n = 1 \<and> v ! 0 < HALF_DIGIT_RADIX then vec_mul_small m u (v ! 0) z
    else if n < m then vec_mul m u n v z
    else vec_mul n v m u z"
  shows "dval d = dval (take m u) * dval (take n v) \<and> digits_ok d \<and> length d = m + n"
proof -
  have z: "\<forall>d \<in> set z. d = 0" "length z = m + n" by (simp_all add: z_def)
  consider "m = 1 \<and> u ! 0 < HALF_DIGIT_RADIX"
    | "\<not> (m = 1 \<and> u ! 0 < HALF_DIGIT_RADIX)" "n = 1 \<and> v ! 0 < HALF_DIGIT_RADIX"
    | "\<not> (m = 1 \<and> u ! 0 < HALF_DIGIT_RADIX)" "\<not> (n = 1 \<and> v ! 0 < HALF_DIGIT_RADIX)" by blast
  then show ?thesis
  proof cases
    case 1
    have "d = vec_mul_small n v (u ! 0) z" unfolding d_def by (rule if_P [OF 1])
    then show ?thesis
      using vec_mul_small_value [OF ok(2) n(1) half_digit _ z(1), of "u ! 0"] 1 one(1) m(2) z(2)
      by (simp add: mult.commute)
  next
    case 2
    have "d = vec_mul_small m u (v ! 0) z" unfolding d_def if_not_P [OF 2(1)] by (rule if_P [OF 2(2)])
    then show ?thesis
      using vec_mul_small_value [OF ok(1) m(1) half_digit _ z(1), of "v ! 0"] 2(2) one(2) n(2) z(2) by simp
  next
    case 3
    have "d = (if n < m then vec_mul m u n v z else vec_mul n v m u z)"
      unfolding d_def if_not_P [OF 3(1)] by (rule if_not_P [OF 3(2)])
    then show ?thesis
      using vec_mul_value [OF ok m(1) n(1) _ z(1)] vec_mul_value [OF ok(2,1) n(1) m(1) _ z(1)] z(2)
      by (simp add: mult.commute)
  qed
qed

text \<open>A divisor for the long division has two bytes at least.\<close>

lemma two_bytes:
  assumes "normal n v" "0 < n" "n = 1 \<Longrightarrow> unat (v ! 0) = dval (take n v)"
    "\<not> (n = 1 \<and> v ! 0 < HALF_DIGIT_RADIX)"
  shows "256 \<le> dval (take n v)"
proof (cases "n = 1")
  case True
  then show ?thesis using assms(3,4) by (simp add: word_less_nat_alt digit_consts)
next
  case False
  have "radix ^ 1 \<le> radix ^ (n - 1)" using False assms(2) by (intro power_increasing) auto
  also have "\<dots> \<le> dval (take n v)" by (rule normal_lower [OF assms(1,2)])
  finally show ?thesis by simp
qed

lemma quotient_digits:
  fixes u v :: digits
  assumes ok: "digits_ok u" "digits_ok v" and m: "m \<le> length u" "0 < m"
    and n: "n \<le> length v" "normal n v" "dval (take n v) \<noteq> 0"
    and one: "m = 1 \<Longrightarrow> unat (u ! 0) = dval (take m u)" "n = 1 \<Longrightarrow> unat (v ! 0) = dval (take n v)"
    and le: "dval (take n v) \<le> dval (take m u)"
  defines "z \<equiv> replicate (max m n + 1) (0 :: digit)"
  defines "d \<equiv> if n = 1 \<and> m = 1 then z[0 := u ! 0 div v ! 0]
    else if n = 1 \<and> v ! 0 < HALF_DIGIT_RADIX then vec_div_small m u (v ! 0) z
    else vec_div_large m u n v z"
  shows "dval d = dval (take m u) div dval (take n v) \<and> digits_ok d \<and> length d = max m n + 1"
proof -
  let ?U = "dval (take m u)" and ?V = "dval (take n v)"
  have z: "\<forall>d \<in> set z. d = 0" "length z = max m n + 1" "m \<le> length z" by (simp_all add: z_def)
  have pos: "0 < n" using n(3) by (auto intro: gr0I)
  consider "n = 1 \<and> m = 1"
    | "\<not> (n = 1 \<and> m = 1)" "n = 1 \<and> v ! 0 < HALF_DIGIT_RADIX"
    | "\<not> (n = 1 \<and> m = 1)" "\<not> (n = 1 \<and> v ! 0 < HALF_DIGIT_RADIX)" by blast
  then show ?thesis
  proof cases
    case 1
    have d: "d = z[0 := u ! 0 div v ! 0]" unfolding d_def by (rule if_P [OF 1])
    have q: "unat (u ! 0 div v ! 0) = ?U div ?V" using one 1 by (simp add: unat_div)
    have "?U < radix ^ m" using dval_less [of "take m u"] ok(1) m(1) by simp
    then have "unat (u ! 0 div v ! 0) < radix"
      using 1 by (simp add: q div_le_dividend [THEN le_less_trans])
    from one_digit [OF _ this, of "max m n + 1"] show ?thesis by (simp add: d z_def q)
  next
    case 2
    have d: "d = vec_div_small m u (v ! 0) z" unfolding d_def if_not_P [OF 2(1)] by (rule if_P [OF 2(2)])
    have h: "0 < unat (v ! 0)" "unat (v ! 0) < half"
      using 2(2) one(2) n(3) half_digit [of "v ! 0"] by simp_all
    from vec_div_small_value [OF ok(1) m(1) h z(3,1)] show ?thesis using one(2) 2(2) z(2) by (simp add: d)
  next
    case 3
    have d: "d = vec_div_large m u n v z" unfolding d_def if_not_P [OF 3(1)] by (rule if_not_P [OF 3(2)])
    from vec_div_large_value [OF ok m(2,1) n(1) two_bytes [OF n(2) pos one(2) 3(2)] _ z(3,1)] le
    show ?thesis using z(2) by (simp add: d)
  qed
qed

lemma remainder_digits:
  fixes u v :: digits
  assumes ok: "digits_ok u" "digits_ok v" and m: "m \<le> length u" "0 < m"
    and n: "n \<le> length v" "normal n v" "dval (take n v) \<noteq> 0"
    and one: "n = 1 \<Longrightarrow> unat (v ! 0) = dval (take n v)"
    and le: "dval (take n v) \<le> dval (take m u)"
  defines "z \<equiv> replicate (max m n + 1) (0 :: digit)"
  defines "d \<equiv> if n = 1 \<and> v ! 0 < HALF_DIGIT_RADIX then z[0 := vec_rem_small m u (v ! 0)]
    else vec_rem_large m u n v z"
  shows "dval d = dval (take m u) mod dval (take n v) \<and> digits_ok d \<and> length d = max m n + 1"
proof -
  let ?U = "dval (take m u)" and ?V = "dval (take n v)"
  have z: "\<forall>d \<in> set z. d = 0" "length z = max m n + 1" "m \<le> length z" by (simp_all add: z_def)
  have pos: "0 < n" using n(3) by (auto intro: gr0I)
  show ?thesis
  proof (cases "n = 1 \<and> v ! 0 < HALF_DIGIT_RADIX")
    case True
    have d: "d = z[0 := vec_rem_small m u (v ! 0)]" unfolding d_def by (rule if_P [OF True])
    have h: "0 < unat (v ! 0)" "unat (v ! 0) < half"
      using True one n(3) half_digit [of "v ! 0"] by simp_all
    have q: "unat (vec_rem_small m u (v ! 0)) = ?U mod ?V"
      using vec_rem_small_value [OF ok(1) m(1) h] one True by simp
    have "?U mod ?V < ?V" using n(3) by simp
    moreover have "?V < half" using h(2) one True by simp
    ultimately have "?U mod ?V < radix" by linarith
    then show ?thesis
      using one_digit [of "max m n + 1" "vec_rem_small m u (v ! 0)"] q by (simp add: d z_def)
  next
    case False
    have d: "d = vec_rem_large m u n v z" unfolding d_def by (rule if_not_P [OF False])
    from vec_rem_large_value [OF ok m(2,1) n(1) two_bytes [OF n(2) pos one False] _ z(3,1)] le
    show ?thesis using z(2) by (simp add: d)
  qed
qed

locale digit_format =
  fixes conv :: convert and copy :: copy_digits
    and wrap :: "nat \<Rightarrow> int \<Rightarrow> int" and ok :: "nat \<Rightarrow> int \<Rightarrow> digits \<Rightarrow> bool"
  assumes conv_value: "sized nb d \<Longrightarrow> conv s nb (length d) d = (s', d') \<Longrightarrow>
      smval s' d' = wrap nb (smval s d) \<and> ok nb s' d'"
    and copy_value: "sized unb ud \<Longrightarrow> digits_ok vd \<Longrightarrow> vnd \<le> length vd \<Longrightarrow>
      sign_ok us (take vnd vd) \<Longrightarrow> (vnb < unb \<Longrightarrow> in_range unb (smval us (take vnd vd))) \<Longrightarrow>
      copy us unb (length ud) ud vnb vnd vd = (s', d') \<Longrightarrow>
      smval s' d' = wrap unb (smval us (take vnd vd)) \<and> ok unb s' d'"
    and ok_wrap: "ok nb s d \<Longrightarrow> wrap nb (smval s d) = smval s d"
    and ok_zero: "sized nb d \<Longrightarrow> dval d = 0 \<Longrightarrow> ok nb SC_ZERO d"
    and wrap_zero: "wrap nb 0 = 0"
begin

lemma zero_result:
  assumes "sized unb ud"
  shows "smval SC_ZERO (vec_zero (length ud) ud) = wrap unb 0"
    "ok unb SC_ZERO (vec_zero (length ud) ud)"
  using assms ok_zero [of unb "vec_zero (length ud) ud"]
  by (simp_all add: vec_zero_eq wrap_zero sized_def)

text \<open>Copying back a result of as many digits as there are.\<close>

lemma copy_all:
  assumes "sized unb ud" "digits_ok d" "us \<in> {SC_NEG, SC_POS}" "dval (take nd d) = m" "nd \<le> length d" "m \<noteq> 0"
    and "vnb < unb \<Longrightarrow> in_range unb (us * int m)"
    and "copy us unb (length ud) ud vnb nd d = (s', d')"
  shows "smval s' d' = wrap unb (us * int m) \<and> ok unb s' d'"
proof -
  have v: "smval us (take nd d) = us * int m" "sign_ok us (take nd d)"
    using assms(3,4,6) by (auto simp: smval_def sign_ok_def SC_NEG_def SC_POS_def SC_ZERO_def)
  have "vnb < unb \<Longrightarrow> in_range unb (smval us (take nd d))" using assms(7) v(1) by simp
  from copy_value [OF assms(1,2,5) v(2) this assms(8)] show ?thesis by (simp add: v)
qed

lemma fits_below:
  assumes "us \<in> {SC_NEG, SC_POS}" "m < 2 ^ vnb" "vnb < unb"
  shows "in_range unb (us * int m)"
proof -
  have "int m < 2 ^ vnb" using assms(2) by simp
  also have "(2 :: int) ^ vnb \<le> 2 ^ (unb - 1)" using assms(3) by (intro power_increasing) auto
  finally have "int m < 2 ^ (unb - 1)" .
  moreover have "us * int m = int m \<or> us * int m = - int m"
    using assms(1) by (auto simp: SC_NEG_def SC_POS_def)
  ultimately show ?thesis unfolding in_range_def by linarith
qed

lemma mul_on_help_value:
  assumes u: "sized unb ud" "dval ud \<noteq> 0" and v: "digits_ok vd" "vnd \<le> length vd"
    and V: "dval (take vnd vd) < 2 ^ vnb" "dval (take vnd vd) \<noteq> 0" and us: "us \<in> {SC_NEG, SC_POS}"
    and r: "mul_on_help conv copy us unb (length ud) ud vnb vnd vd = (us', ud')"
  shows "smval us' ud' = wrap unb (us * (int (dval ud) * int (dval (take vnd vd)))) \<and> ok unb us' ud'"
proof -
  define m n where "m = vec_skip_leading_zeros (length ud) ud" and "n = vec_skip_leading_zeros vnd vd"
  let ?U = "dval ud" and ?V = "dval (take vnd vd)"
  have ok: "digits_ok ud" using u(1) by (simp add: sized_def)
  have m: "m \<le> length ud" "dval (take m ud) = ?U"
    using skip_le dval_skip [of "length ud" ud] by (simp_all add: m_def)
  have n: "n \<le> length vd" "dval (take n vd) = ?V"
    using skip_le [of vnd vd] dval_skip [OF v(2)] v(2) by (simp_all add: n_def)
  have pos: "0 < m" "0 < n" using m(2) n(2) u(2) V(2) by (auto intro: gr0I)
  have one: "unat (ud ! 0) = ?U" if "m = 1"
    using m that pos by (cases ud) auto
  have one': "unat (vd ! 0) = ?V" if "n = 1"
    using n that pos by (cases vd) auto
  have half: "unat x < half" if "x < HALF_DIGIT_RADIX" for x
    using that by (simp add: word_less_nat_alt digit_consts)
  have r': "(if n = 1 \<and> vd ! 0 = 1 then conv us unb (length ud) ud
      else if m = 1 \<and> ud ! 0 = 1 then copy us unb (length ud) ud vnb n vd
      else if m = 1 \<and> n = 1 \<and> ud ! 0 < HALF_DIGIT_RADIX \<and> vd ! 0 < HALF_DIGIT_RADIX
        then copy us unb (length ud) ud (unb + vnb) 1 [ud ! 0 * vd ! 0]
      else copy us unb (length ud) ud (unb + vnb) (m + n)
        (if m = 1 \<and> ud ! 0 < HALF_DIGIT_RADIX then vec_mul_small n vd (ud ! 0) (replicate (m + n) 0)
         else if n = 1 \<and> vd ! 0 < HALF_DIGIT_RADIX then vec_mul_small m ud (vd ! 0) (replicate (m + n) 0)
         else if n < m then vec_mul m ud n vd (replicate (m + n) 0)
         else vec_mul n vd m ud (replicate (m + n) 0))) = (us', ud')"
    using r by (simp only: mul_on_help_def Let_def m_def n_def)
  have sm: "smval us ud = us * int ?U" using us by (auto simp: smval_def SC_NEG_def SC_POS_def)
  consider "n = 1 \<and> vd ! 0 = 1" | "\<not> (n = 1 \<and> vd ! 0 = 1)" "m = 1 \<and> ud ! 0 = 1"
    | "\<not> (n = 1 \<and> vd ! 0 = 1)" "\<not> (m = 1 \<and> ud ! 0 = 1)" by blast
  then show ?thesis
  proof cases
    case 1
    then have "?V = 1" using one' by force
    moreover have "conv us unb (length ud) ud = (us', ud')" by (rule r' [unfolded if_P [OF 1]])
    from conv_value [OF u(1) this] sm
    have "smval us' ud' = wrap unb (us * int ?U) \<and> ok unb us' ud'" by simp
    ultimately show ?thesis by simp
  next
    case 2
    then have U: "?U = 1" using one by force
    have "copy us unb (length ud) ud vnb n vd = (us', ud')"
      by (rule r' [unfolded if_not_P [OF 2(1)] if_P [OF 2(2)]])
    from copy_all [OF u(1) v(1) us n(2,1) V(2) fits_below [OF us V(1)] this] U
    show ?thesis by simp
  next
    case 3
    have nfit: "unb + vnb < unb \<Longrightarrow> in_range unb x" for x by simp
    have UV: "?U * ?V \<noteq> 0" using u(2) V(2) by simp
    show ?thesis
    proof (cases "m = 1 \<and> n = 1 \<and> ud ! 0 < HALF_DIGIT_RADIX \<and> vd ! 0 < HALF_DIGIT_RADIX")
      case True
      then have h: "unat (ud ! 0) < half" "unat (vd ! 0) < half" using half by blast+
      have e: "unat (ud ! 0 * vd ! 0) = ?U * ?V"
        using unat_half_product [OF h] one one' True by simp
      have lt: "?U * ?V < radix" using half_product [OF h] one one' True by simp
      have "copy us unb (length ud) ud (unb + vnb) 1 [ud ! 0 * vd ! 0] = (us', ud')"
        by (rule r' [unfolded if_not_P [OF 3(1)] if_not_P [OF 3(2)] if_P [OF True]])
      from copy_all [OF u(1) _ us _ _ UV nfit this] e lt show ?thesis by simp
    next
      case False
      note d = product_digits [OF ok v(1) m(1) pos(1) n(1) pos(2), unfolded m(2) n(2), OF one one']
      let ?d = "if m = 1 \<and> ud ! 0 < HALF_DIGIT_RADIX then vec_mul_small n vd (ud ! 0) (replicate (m + n) 0)
         else if n = 1 \<and> vd ! 0 < HALF_DIGIT_RADIX then vec_mul_small m ud (vd ! 0) (replicate (m + n) 0)
         else if n < m then vec_mul m ud n vd (replicate (m + n) 0)
         else vec_mul n vd m ud (replicate (m + n) 0)"
      have "copy us unb (length ud) ud (unb + vnb) (m + n) ?d = (us', ud')"
        by (rule r' [unfolded if_not_P [OF 3(1)] if_not_P [OF 3(2)] if_not_P [OF False]])
      from copy_all [OF u(1) _ us _ _ UV nfit this] d show ?thesis by simp
    qed
  qed
qed

lemma div_on_help_value:
  assumes u: "sized unb ud" and v: "digits_ok vd" "vnd \<le> length vd"
    and V: "dval (take vnd vd) \<noteq> 0" and us: "us \<in> {SC_NEG, SC_POS}"
    and r: "div_on_help conv copy us unb (length ud) ud vnb vnd vd = (us', ud')"
  shows "smval us' ud' = wrap unb (us * int (dval ud div dval (take vnd vd))) \<and> ok unb us' ud'"
proof -
  define m n where "m = vec_skip_leading_zeros (length ud) ud" and "n = vec_skip_leading_zeros vnd vd"
  let ?U = "dval ud" and ?V = "dval (take vnd vd)"
  have ok: "digits_ok ud" using u(1) by (simp add: sized_def)
  have m: "m \<le> length ud" "dval (take m ud) = ?U" "normal m ud"
    using skip_le dval_skip [of "length ud" ud] by (simp_all add: m_def)
  have n: "n \<le> length vd" "dval (take n vd) = ?V" "normal n vd"
    using skip_le [of vnd vd] dval_skip [OF v(2)] v(2) by (simp_all add: n_def)
  have pos: "0 < n" using n(2) V by (auto intro: gr0I)
  have one': "unat (vd ! 0) = ?V" if "n = 1"
    using n that by (cases vd) auto
  define cmp where "cmp = vec_cmp m ud n vd"
  note c = vec_cmp_eq [OF m(3) n(3) ok v(1), unfolded m(2) n(2), folded cmp_def]
  define nd where "nd = max m n + 1"
  define z where "z = replicate nd (0 :: digit)"
  define d where "d = (if cmp = 0 then z[0 := 1]
      else if n = 1 \<and> m = 1 then z[0 := ud ! 0 div vd ! 0]
      else if n = 1 \<and> vd ! 0 < HALF_DIGIT_RADIX then vec_div_small m ud (vd ! 0) z
      else vec_div_large m ud n vd z)"
  have r': "(if cmp < 0 then (SC_ZERO, vec_zero (length ud) ud)
      else if 0 < cmp \<and> n = 1 \<and> vd ! 0 = 1 then conv us unb (length ud) ud
      else copy us unb (length ud) ud (max unb vnb) (nd - 1) d) = (us', ud')"
    using r by (simp only: div_on_help_def Let_def d_def z_def nd_def m_def n_def cmp_def)
  consider "cmp < 0" | "\<not> cmp < 0" "0 < cmp \<and> n = 1 \<and> vd ! 0 = 1"
    | "\<not> cmp < 0" "\<not> (0 < cmp \<and> n = 1 \<and> vd ! 0 = 1)" by blast
  then show ?thesis
  proof cases
    case 1
    then have "(SC_ZERO, vec_zero (length ud) ud) = (us', ud')" using r' by simp
    moreover have "?U div ?V = 0" using 1 c(2) by simp
    ultimately show ?thesis using zero_result [OF u] by auto
  next
    case 2
    then have "?V = 1" using one' by force
    moreover have "conv us unb (length ud) ud = (us', ud')"
      by (rule r' [unfolded if_not_P [OF 2(1)] if_P [OF 2(2)]])
    moreover have "smval us ud = us * int ?U" using us by (auto simp: smval_def SC_NEG_def SC_POS_def)
    ultimately show ?thesis using conv_value [OF u(1)] by fastforce
  next
    case 3
    then have le: "?V \<le> ?U" using c(2) by linarith
    then have m0: "0 < m" using V m(2) by (auto intro: gr0I)
    have one: "unat (ud ! 0) = ?U" if "m = 1" using m(1,2) that by (cases ud) auto
    have d: "dval d = ?U div ?V \<and> digits_ok d \<and> length d = nd"
    proof (cases "cmp = 0")
      case True
      then have "?U = ?V" using c(1) by blast
      then have "?U div ?V = 1" using V by simp
      then show ?thesis
        using one_digit [of nd 1] by (simp only: d_def if_P [OF True]) (simp add: z_def nd_def)
    next
      case nz: False
      note q = quotient_digits [OF ok v(1) m(1) m0 n(1,3), unfolded m(2) n(2), OF V one one' le]
      show ?thesis unfolding d_def if_not_P [OF nz] z_def nd_def by (rule q)
    qed
    have m_le: "m \<le> nd - 1" by (simp add: nd_def)
    have q0: "?U div ?V \<noteq> 0" using le V by (simp add: div_eq_0_iff)
    have len: "nd - 1 \<le> length d" using d by simp
    have "?U div ?V \<le> dval (take m ud)" using m(2) by simp
    with d have top: "dval (take (nd - 1) d) = ?U div ?V"
      by (intro take_enough [OF _ _ _ ok m(1) m_le]) simp_all
    have cp: "copy us unb (length ud) ud (max unb vnb) (nd - 1) d = (us', ud')"
      by (rule r' [unfolded if_not_P [OF 3(1)] if_not_P [OF 3(2)]])
    have "max unb vnb < unb \<Longrightarrow> in_range unb (us * int (?U div ?V))" by simp
    from copy_all [OF u(1) _ us top len q0 this cp] d show ?thesis by simp
  qed
qed

lemma mod_on_help_value:
  assumes u: "sized unb ud" "ok unb us ud" "in_range unb (smval us ud)"
    and v: "digits_ok vd" "vnd \<le> length vd"
    and V: "dval (take vnd vd) \<noteq> 0" and us: "us \<in> {SC_NEG, SC_POS}"
    and r: "mod_on_help copy us unb (length ud) ud vnd vd = (us', ud')"
  shows "smval us' ud' = wrap unb (us * int (dval ud mod dval (take vnd vd))) \<and> ok unb us' ud'"
proof -
  define m n where "m = vec_skip_leading_zeros (length ud) ud" and "n = vec_skip_leading_zeros vnd vd"
  let ?U = "dval ud" and ?V = "dval (take vnd vd)"
  have ok': "digits_ok ud" using u(1) by (simp add: sized_def)
  have m: "m \<le> length ud" "dval (take m ud) = ?U" "normal m ud"
    using skip_le dval_skip [of "length ud" ud] by (simp_all add: m_def)
  have n: "n \<le> length vd" "dval (take n vd) = ?V" "normal n vd"
    using skip_le [of vnd vd] dval_skip [OF v(2)] v(2) by (simp_all add: n_def)
  have pos: "0 < n" using n(2) V by (auto intro: gr0I)
  have one': "unat (vd ! 0) = ?V" if "n = 1" using n that by (cases vd) auto
  have sm: "smval us ud = us * int ?U" using us by (auto simp: smval_def SC_NEG_def SC_POS_def)
  define cmp where "cmp = vec_cmp m ud n vd"
  note c = vec_cmp_eq [OF m(3) n(3) ok' v(1), unfolded m(2) n(2), folded cmp_def]
  define nd where "nd = max m n + 1"
  define z where "z = replicate nd (0 :: digit)"
  define d0 where "d0 = (if n = 1 \<and> m = 1 then z[0 := ud ! 0 mod vd ! 0] else z)"
  define d where "d = (if n = 1 \<and> vd ! 0 < HALF_DIGIT_RADIX then d0[0 := vec_rem_small m ud (vd ! 0)]
      else vec_rem_large m ud n vd d0)"
  have r': "(if cmp < 0 then (us, ud)
      else if cmp = 0 then (SC_ZERO, vec_zero (length ud) ud)
      else if n = 1 \<and> vd ! 0 = 1 then (SC_ZERO, vec_zero (length ud) ud)
      else if check_for_zero us (nd - 1) d = SC_ZERO
        then (check_for_zero us (nd - 1) d, vec_zero (length ud) ud)
      else copy (check_for_zero us (nd - 1) d) unb (length ud) ud (min unb n) (nd - 1) d) = (us', ud')"
    using r by (simp only: mod_on_help_def Let_def d_def d0_def z_def nd_def m_def n_def cmp_def)
  consider "cmp < 0" | "\<not> cmp < 0" "cmp = 0" | "\<not> cmp < 0" "cmp \<noteq> 0" "n = 1 \<and> vd ! 0 = 1"
    | "\<not> cmp < 0" "cmp \<noteq> 0" "\<not> (n = 1 \<and> vd ! 0 = 1)" by blast
  then show ?thesis
  proof cases
    case 1
    then have "us' = us" "ud' = ud" "?U mod ?V = ?U" using r' c(2) by simp_all
    then show ?thesis using u(2) ok_wrap [OF u(2)] sm by simp
  next
    case 2
    then have "(SC_ZERO, vec_zero (length ud) ud) = (us', ud')" using r' by simp
    moreover have "?U mod ?V = 0" using 2 c(1) by simp
    ultimately show ?thesis using zero_result [OF u(1)] by auto
  next
    case 3
    then have "?V = 1" using one' by force
    moreover have "(SC_ZERO, vec_zero (length ud) ud) = (us', ud')"
      by (rule r' [unfolded if_not_P [OF 3(1)] if_not_P [OF 3(2)] if_P [OF 3(3)]])
    ultimately show ?thesis using zero_result [OF u(1)] by auto
  next
    case 4
    then have le: "?V < ?U" using c by linarith
    then have m0: "0 < m" using m(2) by (auto intro: gr0I)
    have one: "unat (ud ! 0) = ?U" if "m = 1" using m(1,2) that by (cases ud) auto
    have d0: "d0[0 := x] = z[0 := x]" "vec_rem_large m ud n vd d0 = vec_rem_large m ud n vd z" for x
      by (simp_all add: d0_def vec_rem_large_overwrites)
    have d_eq: "d = (if n = 1 \<and> vd ! 0 < HALF_DIGIT_RADIX then z[0 := vec_rem_small m ud (vd ! 0)]
        else vec_rem_large m ud n vd z)"
      unfolding d_def d0 ..
    have d: "dval d = ?U mod ?V \<and> digits_ok d \<and> length d = nd"
      unfolding d_eq z_def nd_def
      by (rule remainder_digits [OF ok' v(1) m(1) m0 n(1,3), unfolded m(2) n(2), OF V one' less_imp_le [OF le]])
    have m_le: "m \<le> nd - 1" by (simp add: nd_def)
    have len: "nd - 1 \<le> length d" using d by simp
    have "?U mod ?V \<le> dval (take m ud)" using m(2) by simp
    with d have top: "dval (take (nd - 1) d) = ?U mod ?V"
      by (intro take_enough [OF _ _ _ ok' m(1) m_le]) simp_all
    have cz: "check_for_zero us (nd - 1) d = (if ?U mod ?V = 0 then SC_ZERO else us)"
      using check_for_zero_eq [OF len] top by simp
    note r4 = r' [unfolded if_not_P [OF 4(1)] if_not_P [OF 4(2)] if_not_P [OF 4(3)] cz]
    show ?thesis
    proof (cases "?U mod ?V = 0")
      case True
      then have "(SC_ZERO, vec_zero (length ud) ud) = (us', ud')" using r4 by simp
      then show ?thesis using zero_result [OF u(1)] True by auto
    next
      case False
      then have cp: "copy us unb (length ud) ud (min unb n) (nd - 1) d = (us', ud')"
        using r4 us by (auto simp del: min_def)
      define q where "q = ?U mod ?V"
      have "q < ?V" using V by (simp add: q_def)
      with le have "int q < int ?U" by linarith
      moreover have "us = 1 \<or> us = - 1" using us by (auto simp: SC_NEG_def SC_POS_def)
      ultimately have "in_range unb (us * int q)"
        using u(3) unfolding sm in_range_def by (elim disjE) (simp_all only: mult_minus_left mult_1, linarith+)
      then have "in_range unb (us * int (?U mod ?V))" by (simp only: q_def)
      then have "min unb n < unb \<Longrightarrow> in_range unb (us * int (?U mod ?V))" by simp
      from copy_all [OF u(1) _ us top len False this cp] d show ?thesis by simp
    qed
  qed
qed

end

interpretation sfmt: digit_format convert_signed_SM_to_2C_to_SM copy_digits_signed
  "\<lambda>nb. signed_take_bit (nb - 1)" signed_ok
proof (unfold_locales, goal_cases)
  case (1 nb d s s' d')
  then show ?case using convert_signed_SM_to_2C_to_SM_value by blast
next
  case (2 unb ud vd vnd us vnb s' d')
  then show ?case using copy_digits_signed_value [of unb ud vd vnd us vnb s' d']
    by (simp add: in_range_def)
next
  case (3 nb s d)
  then show ?case by (rule signed_ok_wrap)
qed (auto simp: signed_ok_def sized_def sign_ok_def)

interpretation ufmt: digit_format convert_unsigned_SM_to_2C_to_SM copy_digits_unsigned
  "\<lambda>nb x. x mod 2 ^ (nb - 1)" unsigned_ok
proof (unfold_locales, goal_cases)
  case (1 nb d s s' d')
  then show ?case using convert_unsigned_SM_to_2C_to_SM_value by blast
next
  case (2 unb ud vd vnd us vnb s' d')
  then show ?case using copy_digits_unsigned_value [of unb ud vd vnd us vnb s' d'] by blast
qed (auto simp: unsigned_ok_def sized_def sign_ok_def smval_def)

end
