(* ===== verification/Dt_Bits.thy ===== *)
theory Dt_Bits
  imports Dt_Value
begin

text \<open>
  The bitwise operators on digit vectors in sign-magnitude representation: the in-place helpers of
  datatypes/int/sc_nbexterns.cpp and the helpers of sc_nbfriends.inc that build a new vector.  A
  negative operand is complemented digit by digit while the loop runs.  The sources have the same
  loops three times, with \<^verbatim>\<open>&\<close>, \<^verbatim>\<open>|\<close> and \<^verbatim>\<open>^\<close>; here the operator is a parameter, together with the
  two places where the copies differ: the masked or unmasked operator of the loop on positive
  numbers, and what the loops write when the shorter operand is used up.  The locale
  \<open>bit_operator\<close> says what an operator has to promise; it is interpreted on the three.
\<close>

unbundle bit_operations_syntax

type_synonym digit_op = "digit \<Rightarrow> digit \<Rightarrow> digit"

section \<open>The loops\<close>

text \<open>Both operands are negative.\<close>

fun op_neg_neg :: "digit_op \<Rightarrow> digit \<Rightarrow> digit \<Rightarrow> digits \<Rightarrow> digits \<Rightarrow> digits" where
  "op_neg_neg f xcarry ycarry [] ys = []"
| "op_neg_neg f xcarry ycarry (x # xs) (y # ys) =
     (let xcarry = xcarry + (NOT x AND DIGIT_MASK);
          ycarry = ycarry + (NOT y AND DIGIT_MASK)
      in (f xcarry ycarry AND DIGIT_MASK)
           # op_neg_neg f (drop_bit BITS_PER_DIGIT xcarry) (drop_bit BITS_PER_DIGIT ycarry) xs ys)"
| "op_neg_neg f xcarry ycarry (x # xs) [] =
     (let xcarry = xcarry + (NOT x AND DIGIT_MASK);
          ycarry = ycarry + DIGIT_MASK
      in (f xcarry ycarry AND DIGIT_MASK)
           # op_neg_neg f (drop_bit BITS_PER_DIGIT xcarry) (drop_bit BITS_PER_DIGIT ycarry) xs [])"

text \<open>The longer operand is positive, the shorter one negative.\<close>

fun op_pos_neg :: "digit_op \<Rightarrow> digit \<Rightarrow> digits \<Rightarrow> digits \<Rightarrow> digits" where
  "op_pos_neg f ycarry [] ys = []"
| "op_pos_neg f ycarry (x # xs) (y # ys) =
     (let ycarry = ycarry + (NOT y AND DIGIT_MASK)
      in (f x ycarry AND DIGIT_MASK) # op_pos_neg f (drop_bit BITS_PER_DIGIT ycarry) xs ys)"
| "op_pos_neg f ycarry (x # xs) [] =
     (let ycarry = ycarry + DIGIT_MASK
      in (f x ycarry AND DIGIT_MASK) # op_pos_neg f (drop_bit BITS_PER_DIGIT ycarry) xs [])"

text \<open>
  The longer operand is negative, the shorter one positive; \<open>rest\<close> is what the loop on the
  remaining digits writes.
\<close>

fun op_neg_pos ::
  "digit_op \<Rightarrow> (digit \<Rightarrow> digit) \<Rightarrow> digit \<Rightarrow> digits \<Rightarrow> digits \<Rightarrow> digits" where
  "op_neg_pos f rest xcarry [] ys = []"
| "op_neg_pos f rest xcarry (x # xs) (y # ys) =
     (let xcarry = xcarry + (NOT x AND DIGIT_MASK)
      in (f xcarry y AND DIGIT_MASK) # op_neg_pos f rest (drop_bit BITS_PER_DIGIT xcarry) xs ys)"
| "op_neg_pos f rest xcarry (x # xs) [] =
     (let xcarry = xcarry + (NOT x AND DIGIT_MASK)
      in rest xcarry # op_neg_pos f rest (drop_bit BITS_PER_DIGIT xcarry) xs [])"

fun op_pos_pos :: "digit_op \<Rightarrow> (digit \<Rightarrow> digit) \<Rightarrow> digits \<Rightarrow> digits \<Rightarrow> digits" where
  "op_pos_pos g rest [] ys = []"
| "op_pos_pos g rest (x # xs) (y # ys) = g x y # op_pos_pos g rest xs ys"
| "op_pos_pos g rest (x # xs) [] = rest x # op_pos_pos g rest xs []"

text \<open>The four cases; \<open>xs\<close> is not shorter than \<open>ys\<close>.\<close>

definition op_cases ::
  "digit_op \<Rightarrow> digit_op \<Rightarrow> (digit \<Rightarrow> digit) \<Rightarrow> (digit \<Rightarrow> digit) \<Rightarrow>
     int \<Rightarrow> digits \<Rightarrow> int \<Rightarrow> digits \<Rightarrow> digits" where
  "op_cases f g rest_pos rest_neg s_x xs s_y ys =
     (if 0 < mul_signs s_x s_y then
        if 0 < s_x then op_pos_pos g rest_pos xs ys else op_neg_neg f 1 1 xs ys
      else
        if 0 < s_x then op_pos_neg f 1 xs ys else op_neg_pos f rest_neg 1 xs ys)"

section \<open>In place\<close>

definition on_help ::
  "(int \<Rightarrow> digits \<Rightarrow> int \<Rightarrow> digits \<Rightarrow> digits) \<Rightarrow> int \<Rightarrow> nat \<Rightarrow> digits \<Rightarrow> int \<Rightarrow> nat \<Rightarrow> digits \<Rightarrow> digits"
  where
  "on_help cases_of us und ud vs vnd vd =
     cases_of us (take und ud) vs (take (min und vnd) vd) @ drop und ud"

definition and_cases :: "int \<Rightarrow> digits \<Rightarrow> int \<Rightarrow> digits \<Rightarrow> digits" where
  "and_cases = op_cases (AND) (AND) (\<lambda>x. 0) (\<lambda>xcarry. 0)"

definition or_cases :: "int \<Rightarrow> digits \<Rightarrow> int \<Rightarrow> digits \<Rightarrow> digits" where
  "or_cases = op_cases (OR) (OR) (\<lambda>x. x) (\<lambda>xcarry. xcarry AND DIGIT_MASK)"

definition xor_cases :: "int \<Rightarrow> digits \<Rightarrow> int \<Rightarrow> digits \<Rightarrow> digits" where
  "xor_cases =
     op_cases (XOR) (\<lambda>x y. (x XOR y) AND DIGIT_MASK) (\<lambda>x. x) (\<lambda>xcarry. xcarry AND DIGIT_MASK)"

definition and_on_help :: "int \<Rightarrow> nat \<Rightarrow> digits \<Rightarrow> int \<Rightarrow> nat \<Rightarrow> digits \<Rightarrow> digits" where
  "and_on_help = on_help and_cases"

definition or_on_help :: "int \<Rightarrow> nat \<Rightarrow> digits \<Rightarrow> int \<Rightarrow> nat \<Rightarrow> digits \<Rightarrow> digits" where
  "or_on_help = on_help or_cases"

definition xor_on_help :: "int \<Rightarrow> nat \<Rightarrow> digits \<Rightarrow> int \<Rightarrow> nat \<Rightarrow> digits \<Rightarrow> digits" where
  "xor_on_help = on_help xor_cases"

section \<open>Into a new vector\<close>

text \<open>The digits of the result and its sign, number of bits and number of digits.\<close>

definition bits_helper ::
  "(int \<Rightarrow> digits \<Rightarrow> int \<Rightarrow> digits \<Rightarrow> digits) \<Rightarrow> int \<Rightarrow> nat \<Rightarrow> nat \<Rightarrow> digits \<Rightarrow>
     int \<Rightarrow> nat \<Rightarrow> nat \<Rightarrow> digits \<Rightarrow> int \<times> nat \<times> nat \<times> digits" where
  "bits_helper cases_of us unb und ud vs vnb vnd vd =
     (let nb = max unb vnb;
          nd = max und vnd;
          d = (if vnd \<le> und then cases_of us (take und ud) vs (take vnd vd)
               else cases_of vs (take vnd vd) us (take und ud));
          (s, d) = convert_signed_2C_to_SM nb nd d
      in (s, nb, nd, d))"

definition AND_HELPER ::
  "int \<Rightarrow> nat \<Rightarrow> nat \<Rightarrow> digits \<Rightarrow> int \<Rightarrow> nat \<Rightarrow> nat \<Rightarrow> digits \<Rightarrow> int \<times> nat \<times> nat \<times> digits" where
  "AND_HELPER = bits_helper and_cases"

definition OR_HELPER ::
  "int \<Rightarrow> nat \<Rightarrow> nat \<Rightarrow> digits \<Rightarrow> int \<Rightarrow> nat \<Rightarrow> nat \<Rightarrow> digits \<Rightarrow> int \<times> nat \<times> nat \<times> digits" where
  "OR_HELPER = bits_helper or_cases"

definition XOR_HELPER ::
  "int \<Rightarrow> nat \<Rightarrow> nat \<Rightarrow> digits \<Rightarrow> int \<Rightarrow> nat \<Rightarrow> nat \<Rightarrow> digits \<Rightarrow> int \<times> nat \<times> nat \<times> digits" where
  "XOR_HELPER = bits_helper xor_cases"

section \<open>Operators bit by bit\<close>

lemma digit_mask: "DIGIT_MASK = mask 30"
  by (simp add: digit_consts mask_eq_exp_minus_1)

lemma ok_digit_iff: "unat (d :: digit) < radix \<longleftrightarrow> d AND DIGIT_MASK = d"
proof -
  have "d AND DIGIT_MASK = d \<longleftrightarrow> unat d mod radix = unat d"
    by (simp only: digit_mask word_unat_eq_iff and_mask_unat) simp
  then show ?thesis by (metis mod_less mod_less_divisor zero_less_numeral)
qed

definition padded :: "nat \<Rightarrow> digits \<Rightarrow> digits" where
  "padded n ys = ys @ replicate (n - length ys) 0"

lemma padded_simps [simp]:
  "padded 0 [] = []"
  "padded (Suc n) (y # ys) = y # padded n ys"
  "padded (Suc n) [] = 0 # padded n []"
  "length ys \<le> n \<Longrightarrow> length (padded n ys) = n"
  "digits_ok (padded n ys) \<longleftrightarrow> digits_ok ys"
  "dval (padded n ys) = dval ys"
  by (simp_all add: padded_def)

text \<open>The digits of a number in two's complement.\<close>

definition twos :: "int \<Rightarrow> digits \<Rightarrow> digits" where
  "twos s ds = (if s = SC_NEG then complement_loop 1 ds else ds)"

lemma twos_simps [simp]:
  "length (twos s ds) = length ds" "digits_ok ds \<Longrightarrow> digits_ok (twos s ds)"
  by (simp_all add: twos_def)

lemma twos_value:
  assumes "digits_ok ds"
  shows "int (dval (twos s ds)) = smval s ds mod 2 ^ (30 * length ds)"
proof -
  have "convert_SM_to_2C s (length ds) ds = twos s ds"
    by (simp add: convert_SM_to_2C_def vec_complement_def twos_def)
  then show ?thesis using convert_SM_to_2C_value(1) [OF assms, of s] by simp
qed

locale bit_operator =
  fixes f :: digit_op and F :: "bool \<Rightarrow> bool \<Rightarrow> bool" and op_int :: "int \<Rightarrow> int \<Rightarrow> int"
    and g :: digit_op and rest_pos rest_neg :: "digit \<Rightarrow> digit"
  assumes f_bits: "i < 32 \<Longrightarrow> bit (f a b) i = F (bit a i) (bit b i)"
    and int_bits: "bit (op_int x y) i = F (bit x i) (bit y i)"
    and F_false: "\<not> F False False"
    and F_sym: "F p q = F q p"
    and g_eq: "unat a < radix \<Longrightarrow> unat b < radix \<Longrightarrow> g a b = f a b"
    and rest_pos: "unat a < radix \<Longrightarrow> rest_pos a = f a 0"
    and rest_neg: "rest_neg a = f a 0 AND DIGIT_MASK"
begin

lemma masked: "f a b AND DIGIT_MASK = f (a AND DIGIT_MASK) (b AND DIGIT_MASK)"
proof (rule bit_word_eqI)
  fix i assume "i < LENGTH(32)"
  then show "bit (f a b AND DIGIT_MASK) i = bit (f (a AND DIGIT_MASK) (b AND DIGIT_MASK)) i"
    by (cases "i < 30") (simp_all add: digit_mask bit_simps f_bits F_false)
qed

lemma masked_1: "unat a < radix \<Longrightarrow> f a b AND DIGIT_MASK = f a (b AND DIGIT_MASK)"
  using masked [of a b] by (simp add: ok_digit_iff)

lemma masked_2: "unat b < radix \<Longrightarrow> f a b AND DIGIT_MASK = f (a AND DIGIT_MASK) b"
  using masked [of a b] by (simp add: ok_digit_iff)

lemma f_less: "unat a < radix \<Longrightarrow> unat b < radix \<Longrightarrow> unat (f a b) < radix"
  using masked [of a b] by (simp add: ok_digit_iff)

lemma op_neg_neg_eq:
  "length ys \<le> length xs \<Longrightarrow>
     op_neg_neg f xc yc xs ys = map2 f (complement_loop xc xs) (complement_loop yc (padded (length xs) ys))"
proof (induction xs arbitrary: xc yc ys)
  case (Cons x xs)
  then show ?case by (cases ys) (simp_all add: Let_def masked)
qed simp

lemma op_pos_neg_eq:
  "length ys \<le> length xs \<Longrightarrow> digits_ok xs \<Longrightarrow>
     op_pos_neg f yc xs ys = map2 f xs (complement_loop yc (padded (length xs) ys))"
proof (induction xs arbitrary: yc ys)
  case (Cons x xs)
  then show ?case by (cases ys) (simp_all add: Let_def masked_1)
qed simp

lemma op_neg_pos_eq:
  "length ys \<le> length xs \<Longrightarrow> digits_ok ys \<Longrightarrow>
     op_neg_pos f rest_neg xc xs ys = map2 f (complement_loop xc xs) (padded (length xs) ys)"
proof (induction xs arbitrary: xc ys)
  case (Cons x xs)
  then show ?case by (cases ys) (simp_all add: Let_def masked_2 rest_neg)
qed simp

lemma op_pos_pos_eq:
  "length ys \<le> length xs \<Longrightarrow> digits_ok xs \<Longrightarrow> digits_ok ys \<Longrightarrow>
     op_pos_pos g rest_pos xs ys = map2 f xs (padded (length xs) ys)"
proof (induction xs arbitrary: ys)
  case (Cons x xs)
  then show ?case by (cases ys) (simp_all add: Let_def g_eq rest_pos)
qed simp

lemma op_cases_eq:
  assumes "length ys \<le> length xs" "digits_ok xs" "digits_ok ys"
    "s_x \<in> {SC_NEG, SC_POS}" "s_y \<in> {SC_NEG, SC_POS}"
  shows "op_cases f g rest_pos rest_neg s_x xs s_y ys =
     map2 f (twos s_x xs) (twos s_y (padded (length xs) ys))"
  using assms op_neg_neg_eq [OF assms(1), of 1 1] op_pos_neg_eq [OF assms(1,2), of 1]
    op_neg_pos_eq [OF assms(1,3), of 1] op_pos_pos_eq [OF assms(1-3)]
  by (auto simp: op_cases_def mul_signs_def twos_def SC_NEG_def SC_POS_def SC_ZERO_def)

lemma take_op: "op_int (take_bit n x) (take_bit n y) = take_bit n (op_int x y)"
proof (rule bit_eqI)
  fix i
  show "bit (op_int (take_bit n x) (take_bit n y)) i = bit (take_bit n (op_int x y)) i"
    by (cases "i < n") (simp_all add: bit_simps int_bits F_false)
qed

lemma op_int_mod: "op_int (x mod 2 ^ n) (y mod 2 ^ n) = op_int x y mod 2 ^ n"
  using take_op [of n x y] by (simp only: take_bit_eq_mod)

lemma dval_map2:
  assumes "digits_ok xs" "digits_ok ys" "length ys = length xs"
  shows "int (dval (map2 f xs ys)) = op_int (int (dval xs)) (int (dval ys))"
    and "digits_ok (map2 f xs ys)"
proof -
  show ok: "digits_ok (map2 f xs ys)"
    using assms by (auto simp: digits_ok_def set_zip f_less)
  show "int (dval (map2 f xs ys)) = op_int (int (dval xs)) (int (dval ys))"
  proof (rule bit_eqI)
    fix i :: nat
    have "i mod 30 < 32" using mod_less_divisor [of 30 i] by linarith
    then show "bit (int (dval (map2 f xs ys))) i = bit (op_int (int (dval xs)) (int (dval ys))) i"
      using assms ok
      by (cases "i div 30 < length xs") (simp_all add: bit_of_nat_iff_bit int_bits bit_dval f_bits F_false)
  qed
qed

text \<open>The digits written are those of the operator on the integers, cut off at the longer operand.\<close>

lemma op_cases_value:
  assumes "length ys \<le> length xs" "digits_ok xs" "digits_ok ys"
    "s_x \<in> {SC_NEG, SC_POS}" "s_y \<in> {SC_NEG, SC_POS}"
  defines "d \<equiv> op_cases f g rest_pos rest_neg s_x xs s_y ys"
  shows "int (dval d) = op_int (smval s_x xs) (smval s_y ys) mod 2 ^ (30 * length xs)"
    and "digits_ok d" "length d = length xs"
proof -
  let ?n = "30 * length xs" and ?Y = "padded (length xs) ys"
  have Y: "length ?Y = length xs" "digits_ok ?Y" "smval s_y ?Y = smval s_y ys"
    using assms(1,3) by (simp_all add: smval_def)
  have d: "d = map2 f (twos s_x xs) (twos s_y ?Y)"
    unfolding d_def by (rule op_cases_eq [OF assms(1-5)])
  show "length d = length xs" using Y by (simp add: d)
  note v = dval_map2 [of "twos s_x xs" "twos s_y ?Y"]
  show "digits_ok d" unfolding d using assms(2) Y by (intro v(2)) simp_all
  have "int (dval d) = op_int (take_bit ?n (smval s_x xs)) (take_bit ?n (smval s_y ys))"
    using assms(2) Y twos_value [OF assms(2), of s_x] twos_value [OF Y(2), of s_y]
    by (simp add: d v(1) take_bit_eq_mod)
  also have "\<dots> = take_bit ?n (op_int (smval s_x xs) (smval s_y ys))"
    by (rule take_op)
  finally show "int (dval d) = op_int (smval s_x xs) (smval s_y ys) mod 2 ^ ?n"
    by (simp add: take_bit_eq_mod)
qed

text \<open>In place: the longer operand is cut off.\<close>

lemma on_help_value:
  assumes "digits_ok ud" "digits_ok vd" "vnd \<le> length vd"
    "us \<in> {SC_NEG, SC_POS}" "vs \<in> {SC_NEG, SC_POS}"
  defines "d \<equiv> on_help (op_cases f g rest_pos rest_neg) us (length ud) ud vs vnd vd"
  shows "int (dval d) = op_int (smval us ud) (smval vs (take vnd vd)) mod 2 ^ (30 * length ud)"
    and "digits_ok d" "length d = length ud"
proof -
  let ?n = "length ud" and ?ys = "take (min (length ud) vnd) vd"
  have ys: "length ?ys \<le> length ud" "digits_ok ?ys" using assms(2) by simp_all
  note v = op_cases_value [OF ys(1) assms(1) ys(2) assms(4,5)]
  have d: "d = op_cases f g rest_pos rest_neg us ud vs ?ys"
    by (simp add: d_def on_help_def)
  show "digits_ok d" "length d = length ud" using v(2,3) by (simp_all only: d)
  have "dval ?ys mod radix ^ ?n = dval (take vnd vd) mod radix ^ ?n"
    using assms(2) dval_take [of "take vnd vd" ?n] by (simp add: min_def)
  then have "smval vs ?ys mod 2 ^ (30 * ?n) = smval vs (take vnd vd) mod 2 ^ (30 * ?n)"
    using smval_cong_mod [of ?ys "radix ^ ?n" "take vnd vd" vs] by (simp add: radix_power)
  then show "int (dval d) = op_int (smval us ud) (smval vs (take vnd vd)) mod 2 ^ (30 * ?n)"
    using v(1) op_int_mod by (metis d)
qed

lemma op_int_signed_range:
  assumes "- (2 ^ n) \<le> x" "x < 2 ^ n" "- (2 ^ n) \<le> y" "y < (2 :: int) ^ n"
  shows "signed_take_bit n (op_int x y) = op_int x y"
proof -
  have xy: "signed_take_bit n x = x" "signed_take_bit n y = y"
    using assms by (simp_all add: signed_take_bit_int_eq_self)
  have "signed_take_bit n (op_int (signed_take_bit n x) (signed_take_bit n y)) =
      op_int (signed_take_bit n x) (signed_take_bit n y)"
    by (rule bit_eqI) (simp add: bit_signed_take_bit_iff int_bits min_def)
  then show ?thesis by (simp only: xy)
qed

lemma op_int_sym: "op_int x y = op_int y x"
  by (rule bit_eqI) (simp add: int_bits F_sym)

text \<open>Into a new vector: nothing is cut off, if the operands lie in their signed range.\<close>

lemma bits_helper_value:
  assumes u: "sized unb ud" "- (2 ^ (unb - 1)) \<le> smval us ud" "smval us ud < 2 ^ (unb - 1)"
    and v: "sized vnb vd" "- (2 ^ (vnb - 1)) \<le> smval vs vd" "smval vs vd < 2 ^ (vnb - 1)"
    and signs: "us \<in> {SC_NEG, SC_POS}" "vs \<in> {SC_NEG, SC_POS}"
    and r: "bits_helper (op_cases f g rest_pos rest_neg) us unb (length ud) ud vs vnb (length vd) vd =
      (s, nb, nd, d)"
  shows "smval s d = op_int (smval us ud) (smval vs vd)"
    and "nb = max unb vnb" "nd = length d" "signed_ok nb s d"
proof -
  let ?C = "op_cases f g rest_pos rest_neg" and ?nb = "max unb vnb" and ?nd = "max (length ud) (length vd)"
  let ?op = "op_int (smval us ud) (smval vs vd)"
  define e where "e = (if length vd \<le> length ud then ?C us ud vs vd else ?C vs vd us ud)"
  have ok: "digits_ok ud" "digits_ok vd" using u(1) v(1) by (simp_all add: sized_def)
  have nd: "?nd = DIV_CEIL ?nb"
    using u(1) v(1) by (auto simp: sized_def DIV_CEIL_def max_def digit_consts div_le_mono le_antisym)
  have e: "int (dval e) = ?op mod 2 ^ (30 * ?nd) \<and> digits_ok e \<and> length e = ?nd"
    using op_cases_value [OF _ ok signs] op_cases_value [OF _ ok(2,1) signs(2,1)]
    by (simp add: e_def max_def op_int_sym [of "smval vs vd"])
  have e_sized: "sized ?nb e" using e nd u(1) by (simp add: sized_def less_max_iff_disj)
  obtain s' d' where c: "convert_signed_2C_to_SM ?nb ?nd e = (s', d')" by fastforce
  have eqs: "s = s'" "d = d'" "nb = ?nb" "nd = ?nd"
    using r c by (simp_all only: bits_helper_def Let_def e_def [symmetric] take_all order_refl split prod.inject)
  note c' = convert_signed_2C_to_SM_value [OF e_sized, of s d]
  have c'': "convert_signed_2C_to_SM ?nb (length e) e = (s, d)" using c e by (simp add: eqs)
  have range: "- (2 ^ (?nb - 1)) \<le> x \<and> x < 2 ^ (?nb - 1)"
    if "- (2 ^ (n - 1)) \<le> x" "x < 2 ^ (n - 1)" "n \<le> ?nb" for x :: int and n
  proof -
    have "(2 :: int) ^ (n - 1) \<le> 2 ^ (?nb - 1)" using that(3) by (intro power_increasing) auto
    then show ?thesis using that(1,2) by linarith
  qed
  have "smval s d = signed_take_bit (?nb - 1) (?op mod 2 ^ (30 * ?nd))"
    using c'(1) [OF c''] e by simp
  also have "\<dots> = signed_take_bit (?nb - 1) ?op"
  proof (rule signed_wrap_mod)
    show "0 < ?nb" using e_sized by (simp add: sized_def)
    show "?nb \<le> 30 * ?nd" using sized_top [OF e_sized] e by simp
  qed
  also have "\<dots> = ?op"
    using range [OF u(2,3)] range [OF v(2,3)] by (intro op_int_signed_range) simp_all
  finally show val: "smval s d = ?op" .
  show "nb = ?nb" by (rule eqs(3))
  have sz: "sized ?nb d" by (rule c'(2) [OF c''])
  then show "nd = length d" using nd by (simp add: eqs sized_def)
  have "sign_ok s d" using c'(3) [OF c''] unfolding sign_ok_def .
  then show "signed_ok nb s d"
    using c'(1) [OF c''] sz signed_take_bit_range [of ?nb "int (dval e)"]
    by (simp add: signed_ok_def eqs(3))
qed

end

interpretation and_op: bit_operator "(AND)" "(\<and>)" "(AND)" "(AND)" "\<lambda>x. 0" "\<lambda>xcarry. 0"
  by unfold_locales (auto simp: bit_simps)

interpretation or_op: bit_operator "(OR)" "(\<or>)" "(OR)" "(OR)" "\<lambda>x. x" "\<lambda>xcarry. xcarry AND DIGIT_MASK"
  by unfold_locales (auto simp: bit_simps)

interpretation xor_op: bit_operator "(XOR)" "(\<noteq>)" "(XOR)" "\<lambda>x y. (x XOR y) AND DIGIT_MASK"
  "\<lambda>x. x" "\<lambda>xcarry. xcarry AND DIGIT_MASK"
  by unfold_locales (auto simp: bit_simps ok_digit_iff bit.conj_xor_distrib2)

end
