(* ===== verification/Dt_Shift.thy ===== *)
theory Dt_Shift
  imports Dt_Div Dt_Bits
begin

text \<open>
  Shifts of digit vectors, single bits, and mirroring (datatypes/int/sc_nbutils.cpp).  A shift
  moves whole digits first and then the rest of the bits; a shift to the right fills with a
  digit, which is 0 or \<^verbatim>\<open>DIGIT_MASK\<close>.  The shifts are shown to be the multiplication and
  the division by a power of two, single bits and mirroring are described bit by bit.
\<close>

unbundle bit_operations_syntax

section \<open>To the left\<close>

text \<open>The number of whole digits and the rest of the shift.\<close>

definition shift_parts :: "nat \<Rightarrow> nat \<times> nat" where
  "shift_parts ns =
     (if BITS_PER_DIGIT \<le> ns then
        if ns mod BITS_PER_DIGIT = 0 then (ns div BITS_PER_DIGIT, 0)
        else let nd = DIV_CEIL ns - 1 in (nd, ns - nd * BITS_PER_DIGIT)
      else (0, ns))"

definition vec_shift_left :: "nat \<Rightarrow> digits \<Rightarrow> int \<Rightarrow> digits" where
  "vec_shift_left ulen u nsl =
     (if nsl \<le> 0 then u
      else
        let (nd, nsl) = shift_parts (nat nsl);
            u = (if nd \<noteq> 0 then
                   vec_zero (min nd ulen) (foldl (\<lambda>u j. u[j := u ! (j - nd)]) u (rev [nd..<ulen]))
                 else u)
        in if nsl = 0 then u
           else shift_left_loop nsl 0 (take ulen u) @ drop ulen u)"

section \<open>To the right\<close>

text \<open>The digits are visited from the top; the result is what is stored and the last carry.\<close>

fun shift_right_loop :: "nat \<Rightarrow> digit \<Rightarrow> digits \<Rightarrow> digits \<times> digit" where
  "shift_right_loop nsr carry [] = ([], carry)"
| "shift_right_loop nsr carry (uval # u) =
     (let (ws, carry) = shift_right_loop nsr carry u
      in ((drop_bit nsr uval OR carry) # ws,
          push_bit (BITS_PER_DIGIT - nsr) (uval AND one_and_ones nsr)))"

definition vec_shift_right :: "nat \<Rightarrow> digits \<Rightarrow> int \<Rightarrow> digit \<Rightarrow> digits" where
  "vec_shift_right ulen u nsr fill =
     (if nsr \<le> 0 then u
      else
        let (nd, nsr) = shift_parts (nat nsr);
            u = (if nd \<noteq> 0 then
                   let u = foldl (\<lambda>u j. u[j := u ! (j + nd)]) u [0..<ulen - nd]
                   in if fill \<noteq> 0
                      then foldl (\<lambda>u j. u[j := fill]) u [ulen - min nd ulen..<ulen]
                      else vec_zero_from (ulen - min nd ulen) ulen u
                 else u)
        in if nsr = 0 then u
           else fst (shift_right_loop nsr
                  (push_bit (BITS_PER_DIGIT - nsr) (fill AND one_and_ones nsr)) (take ulen u))
                @ drop ulen u)"

section \<open>Mirroring\<close>

text \<open>An error is reported when the bounds are in the wrong order.\<close>

definition vec_reverse :: "nat \<Rightarrow> nat \<Rightarrow> digits \<Rightarrow> nat \<Rightarrow> nat \<Rightarrow> digits option" where
  "vec_reverse unb und ud l r =
     (if l < r then None
      else
        let l = min l (unb - 1);
            d = take und ud
        in Some (foldl (\<lambda>ud t.
             safe_set (r + t) (d ! digit_ord (l - t) AND one_and_zeros (bit_ord (l - t)) \<noteq> 0) ud)
             ud [0..<l + 1 - r]))"

section \<open>What the shifts compute\<close>

lemma shift_parts_eq: "shift_parts ns = (ns div 30, ns mod 30)"
proof -
  have "DIV_CEIL ns - 1 = ns div 30" if "30 \<le> ns" "ns mod 30 \<noteq> 0"
  proof -
    have "ns - 1 = 30 * (ns div 30) + (ns mod 30 - 1)" "ns mod 30 - 1 < 30"
      using mult_div_mod_eq [of 30 ns] that by linarith+
    then have "(ns - 1) div 30 = ns div 30" by (metis split_index(1))
    then show ?thesis by (simp add: DIV_CEIL_def digit_consts)
  qed
  then show ?thesis
    by (auto simp: shift_parts_def Let_def digit_consts minus_div_mult_eq_mod)
qed

lemma shift_down_loop:
  "n \<le> length u \<Longrightarrow> nd \<le> n \<Longrightarrow>
     foldl (\<lambda>u j. u[j := u ! (j - nd)]) u (rev [nd..<n]) =
       take nd u @ take (n - nd) u @ drop n u"
proof (induction "n - nd" arbitrary: n u)
  case (Suc k)
  then obtain m where n: "n = Suc m" "nd \<le> m" by (cases n) auto
  let ?u = "u[m := u ! (m - nd)]"
  have "take nd ?u = take nd u" "take (m - nd) ?u = take (m - nd) u" "length ?u = length u"
    using n by (simp_all add: take_update_cancel)
  moreover have "drop m ?u = u ! (m - nd) # drop n u"
    using Suc.prems n by (simp add: drop_update_swap Cons_nth_drop_Suc [symmetric])
  moreover have "take (n - nd) u = take (m - nd) u @ [u ! (m - nd)]"
    using Suc.prems n by (simp add: Suc_diff_le take_Suc_conv_app_nth)
  ultimately show ?case using Suc.hyps(1) [of m ?u] Suc.hyps(2) Suc.prems n by simp
qed simp

lemma shift_up_loop:
  "k + nd \<le> length u \<Longrightarrow>
     foldl (\<lambda>u j. u[j := u ! (j + nd)]) u [0..<k] = take k (drop nd u) @ drop k u"
proof (induction k)
  case (Suc k)
  have "(take k (drop nd u) @ drop k u) ! (k + nd) = u ! (k + nd)"
    using Suc.prems by (simp add: nth_append)
  moreover have "take k (drop nd u) @ (drop k u)[0 := x] = take k (drop nd u) @ x # drop (Suc k) u" for x
    using Suc.prems by (cases "drop k u") (auto simp: Cons_nth_drop_Suc [symmetric])
  ultimately show ?case
    using Suc by (simp add: list_update_append take_Suc_conv_app_nth add.commute)
qed simp

definition whole_left :: "nat \<Rightarrow> digits \<Rightarrow> digits" where
  "whole_left nd u = replicate (min nd (length u)) 0 @ take (length u - nd) u"

lemma whole_left_eq:
  "vec_zero (min nd (length u)) (foldl (\<lambda>u j. u[j := u ! (j - nd)]) u (rev [nd..<length u])) =
     whole_left nd u"
  using shift_down_loop [of "length u" u nd]
  by (cases "nd \<le> length u") (simp_all add: vec_zero_eq whole_left_def)

lemma whole_left_value:
  assumes "digits_ok u"
  shows "dval (whole_left nd u) = (radix ^ nd * dval u) mod radix ^ length u"
    "digits_ok (whole_left nd u)" "length (whole_left nd u) = length u"
proof -
  show "digits_ok (whole_left nd u)" "length (whole_left nd u) = length u"
    using assms by (simp_all add: whole_left_def)
  show "dval (whole_left nd u) = (radix ^ nd * dval u) mod radix ^ length u"
  proof (cases "nd \<le> length u")
    case True
    then have "radix ^ length u = radix ^ nd * radix ^ (length u - nd)" by (simp flip: power_add)
    moreover have "dval (whole_left nd u) = radix ^ nd * (dval u mod radix ^ (length u - nd))"
      using True assms by (simp add: whole_left_def dval_take)
    ultimately show ?thesis by (simp only: mult_mod_right)
  next
    case False
    then have "radix ^ length u dvd radix ^ nd" by (simp add: le_imp_power_dvd)
    then show ?thesis using False by (simp add: whole_left_def)
  qed
qed

theorem vec_shift_left_value:
  fixes k :: int
  assumes "digits_ok u"
  defines "d \<equiv> vec_shift_left (length u) u k"
  shows "dval d = (2 ^ nat k * dval u) mod radix ^ length u" and "digits_ok d" and "length d = length u"
proof -
  define q r where "q = nat k div 30" and "r = nat k mod 30"
  have k: "nat k = 30 * q + r" "r < 30" by (simp_all add: q_def r_def)
  let ?u = "whole_left q u"
  note w = whole_left_value [OF assms(1), of q]
  have u: "(if q \<noteq> 0 then vec_zero (min q (length u))
      (foldl (\<lambda>u j. u[j := u ! (j - q)]) u (rev [q..<length u])) else u) = ?u"
    using whole_left_eq [of q u] by (simp add: whole_left_def)
  have d: "d = (if k \<le> 0 then u else if r = 0 then ?u else shift_left_loop r 0 ?u)"
    unfolding d_def vec_shift_left_def shift_parts_eq q_def [symmetric] r_def [symmetric] Let_def
      split u using w(3) by simp
  have l: "length (shift_left_loop r 0 ?u) = length u" "digits_ok (shift_left_loop r 0 ?u)"
    "dval (shift_left_loop r 0 ?u) = (2 ^ r * dval ?u) mod radix ^ length u"
    using shift_left_loop_value [OF k(2) w(2), of 0] w(3) by simp_all
  show "digits_ok d" "length d = length u" using assms(1) w(2,3) l by (simp_all add: d)
  have p: "2 ^ nat k = 2 ^ r * radix ^ q" by (simp add: k(1) radix_power power_add mult.commute)
  show "dval d = (2 ^ nat k * dval u) mod radix ^ length u"
  proof (cases "k \<le> 0")
    case True
    then show ?thesis using dval_less [OF assms(1)] by (simp add: d)
  next
    case False
    have "dval (shift_left_loop r 0 ?u) = (2 ^ nat k * dval u) mod radix ^ length u"
      unfolding l(3) w(1) p by (simp only: mod_mult_right_eq mult.assoc)
    moreover have "dval ?u = (2 ^ nat k * dval u) mod radix ^ length u" if "r = 0"
      using that unfolding w(1) p by simp
    ultimately show ?thesis using False by (simp add: d)
  qed
qed

section \<open>Shifts to the right\<close>

text \<open>The number \<open>x\<close> below \<open>R\<close> shifted by \<open>k\<close> bits, ones coming in if \<open>ones\<close>.\<close>

definition shifted_right :: "nat \<Rightarrow> nat \<Rightarrow> bool \<Rightarrow> nat \<Rightarrow> nat" where
  "shifted_right R k ones x = (if ones then x + (2 ^ k - 1) * R else x) div 2 ^ k"

lemma shifted_right_twice:
  "shifted_right R b ones (shifted_right R a ones x) = shifted_right R (a + b) ones x"
proof (cases ones)
  case True
  define m n where "m = (2 :: nat) ^ a - 1" and "n = (2 :: nat) ^ b - 1"
  have mn: "2 ^ a = Suc m" "2 ^ b = Suc n" by (simp_all add: m_def n_def)
  have "x + m * R + Suc m * (n * R) = x + (Suc m * Suc n - 1) * R" by (simp add: algebra_simps)
  moreover have "(x + m * R) div Suc m + n * R = (x + m * R + Suc m * (n * R)) div Suc m"
    by (subst div_mult_self2) simp_all
  ultimately have "((x + m * R) div Suc m + n * R) div Suc n =
      (x + (Suc m * Suc n - 1) * R) div (Suc m * Suc n)"
    by (simp only: div_mult2_eq)
  then show ?thesis
    using True by (simp add: shifted_right_def power_add mn del: mult_Suc mult_Suc_right)
qed (simp add: shifted_right_def power_add div_mult2_eq)

lemma shift_right_loop_value:
  assumes "k < 30"
  shows "digits_ok u \<Longrightarrow> unat f < 2 ^ k \<Longrightarrow>
    \<exists>ws g. shift_right_loop k (push_bit (30 - k) f) u = (ws, push_bit (30 - k) g) \<and>
      length ws = length u \<and> digits_ok ws \<and>
      dval ws = (dval u + radix ^ length u * unat f) div 2 ^ k \<and>
      unat g = (dval u + radix ^ length u * unat f) mod 2 ^ k"
proof (induction u)
  case Nil
  then show ?case by auto
next
  case (Cons a u)
  let ?m = "2 ^ k :: nat" and ?l = "2 ^ (30 - k) :: nat"
  define X where "X = dval u + radix ^ length u * unat f"
  obtain ws g where r: "shift_right_loop k (push_bit (30 - k) f) u = (ws, push_bit (30 - k) g)"
    and IH: "length ws = length u" "digits_ok ws" "dval ws = X div ?m" "unat g = X mod ?m"
    using Cons unfolding X_def by auto
  have rad: "radix = ?l * ?m" using assms by (simp flip: power_add)
  have hi: "unat (drop_bit k a) = unat a div ?m" by (simp add: unat_drop_bit)
  have "unat a < ?l * ?m" using Cons.prems(1) rad by simp
  then have hi_less: "unat a div ?m < ?l" by (simp add: less_mult_imp_div_less)
  have row: "unat (drop_bit k a OR push_bit (30 - k) g) = ?l * (X mod ?m) + unat a div ?m"
    using or_disjoint_value [of "drop_bit k a" "30 - k" g] assms hi hi_less
    by (simp add: IH(4) or.commute)
  have tot: "dval (a # u) + radix ^ length (a # u) * unat f = unat a + radix * X"
    by (simp add: X_def algebra_simps)
  have fact: "unat a + radix * X = unat a + ?m * (?l * X)" by (simp only: rad mult_ac)
  have div: "(unat a + radix * X) div ?m = ?l * (X mod ?m) + unat a div ?m + radix * (X div ?m)"
  proof -
    have "(unat a + radix * X) div ?m = ?l * X + unat a div ?m" unfolding fact by simp
    moreover have "?l * X = ?l * (?m * (X div ?m) + X mod ?m)" by simp
    moreover have "?l * (?m * (X div ?m) + X mod ?m) = radix * (X div ?m) + ?l * (X mod ?m)"
      by (simp only: rad distrib_left mult.assoc)
    ultimately show ?thesis by linarith
  qed
  have md: "(unat a + radix * X) mod ?m = unat a mod ?m" unfolding fact by simp
  have less: "?l * (X mod ?m) + unat a div ?m < radix"
  proof -
    have "?l * (X mod ?m + 1) \<le> radix" unfolding rad by (intro mult_le_mono2) (simp add: Suc_le_eq)
    then show ?thesis using hi_less by simp
  qed
  define d e where "d = (drop_bit k a OR push_bit (30 - k) g)" and "e = a AND one_and_ones k"
  have "shift_right_loop k (push_bit (30 - k) f) (a # u) = (d # ws, push_bit (30 - k) e)"
    by (simp add: r BITS_PER_DIGIT_def d_def e_def)
  moreover have "dval (d # ws) = (unat a + radix * X) div ?m"
    by (simp only: dval.simps row IH(3) div d_def)
  moreover have "unat e = (unat a + radix * X) mod ?m"
    by (simp only: unat_and_ones md e_def)
  moreover have "digits_ok (d # ws)" "length (d # ws) = length (a # u)"
    using IH(1,2) less row by (simp_all add: d_def)
  ultimately show ?case unfolding tot by blast
qed

definition whole_right :: "nat \<Rightarrow> digit \<Rightarrow> digits \<Rightarrow> digits" where
  "whole_right nd fill u = drop nd u @ replicate (min nd (length u)) fill"

lemma fill_loop:
  assumes "m \<le> length u"
  shows "(if fill \<noteq> 0 then foldl (\<lambda>u j. u[j := fill]) u [m..<length u]
          else vec_zero_from m (length u) u) = take m u @ replicate (length u - m) fill"
  using foldl_update [OF assms order_refl, of "\<lambda>i. fill"] vec_zero_from_eq [OF assms order_refl]
  by (auto simp: map_replicate_const)

lemma whole_right_eq:
  defines "v u nd \<equiv> foldl (\<lambda>u j. u[j := u ! (j + nd)]) u [0..<length u - nd]"
  shows "(if fill \<noteq> 0
      then foldl (\<lambda>u j. u[j := fill]) (v u nd) [length u - min nd (length u)..<length u]
      else vec_zero_from (length u - min nd (length u)) (length u) (v u nd)) = whole_right nd fill u"
proof -
  have v: "v u nd = take (length u - nd) (drop nd u) @ drop (length u - nd) u"
    using shift_up_loop [of "length u - nd" nd u] by (cases "nd \<le> length u") (simp_all add: v_def)
  then have len: "length (v u nd) = length u" by simp
  have "take (length u - min nd (length u)) (v u nd) = drop nd u"
    by (cases "nd \<le> length u") (simp_all add: v)
  with fill_loop [of "length u - min nd (length u)" "v u nd" fill] show ?thesis
    unfolding len whole_right_def by simp
qed

lemma dval_ones: "dval (replicate n DIGIT_MASK) = radix ^ n - 1"
proof (induction n)
  case (Suc n)
  have "unat DIGIT_MASK = radix - 1" by (simp add: digit_consts)
  then show ?case using Suc by (simp add: algebra_simps)
qed simp

lemma whole_right_value:
  assumes "digits_ok u"
  shows "dval (whole_right nd (if ones then DIGIT_MASK else 0) u) =
      shifted_right (radix ^ length u) (30 * nd) ones (dval u)"
proof -
  let ?R = "radix ^ length u" and ?A = "radix ^ nd"
  have A: "2 ^ (30 * nd) = ?A" by (simp only: radix_power)
  have R: "dval u < ?R" by (rule dval_less [OF assms])
  show ?thesis
  proof (cases "nd \<le> length u")
    case True
    then have split: "?R = ?A * radix ^ (length u - nd)" by (simp flip: power_add)
    have d: "dval (drop nd u) = dval u div ?A"
      using dval_take_drop [OF True] dval_less [of "take nd u"] assms True by simp
    show ?thesis
    proof (cases ones)
      case True
      have "(dval u + (?A - 1) * ?R) div ?A = dval u div ?A + (?A - 1) * radix ^ (length u - nd)"
        by (simp add: split mult.left_commute)
      then show ?thesis
        using True \<open>nd \<le> length u\<close>
        by (simp add: whole_right_def shifted_right_def A d dval_ones mult.commute [of "radix ^ _"])
    qed (use True in \<open>simp add: whole_right_def shifted_right_def A d\<close>)
  next
    case False
    then have le: "?R \<le> ?A" by (intro power_increasing) auto
    show ?thesis
    proof (cases ones)
      case True
      have "dval u + (?A - 1) * ?R = (dval u + (?A - ?R)) + ?A * (?R - 1)"
      proof -
        obtain r where r: "?R = Suc r" by (metis gr0_implies_Suc nat_zero_less_power_iff zero_less_numeral)
        obtain q where q: "?A = Suc r + q" using le r by (metis le_Suc_ex)
        show ?thesis unfolding r q by (simp add: algebra_simps)
      qed
      then have "(dval u + (?A - 1) * ?R) div ?A = (?R - 1) + (dval u + (?A - ?R)) div ?A"
        by (simp only: div_mult_self2 [OF power_not_zero [OF zero_neq_numeral [symmetric]]])
      moreover have "dval u + (?A - ?R) < ?A" using R le by linarith
      ultimately have "(dval u + (?A - 1) * ?R) div ?A = ?R - 1" by simp
      then show ?thesis
        using True False by (simp add: whole_right_def shifted_right_def A dval_ones)
    qed (use False div_less [OF less_le_trans [OF R le]] in
        \<open>simp add: whole_right_def shifted_right_def A\<close>)
  qed
qed

lemma unat_fill: "unat ((if ones then DIGIT_MASK else 0) AND one_and_ones k) = (if ones then 2 ^ k - 1 else 0)"
  if "k < 30"
proof -
  have "(2 :: nat) ^ k dvd radix" using that le_imp_power_dvd [of k 30 "2 :: nat"] by simp
  then obtain m where "radix = 2 ^ k * m" by blast
  then have "radix - 1 = 2 ^ k * (m - 1) + (2 ^ k - 1)"
    by (cases m) (simp_all add: algebra_simps)
  then have "(radix - 1) mod 2 ^ k = (2 ^ k - 1) mod 2 ^ k" by (simp only: mod_mult_self3 mod_mult_self4)
  then show ?thesis by (simp add: unat_and_ones digit_consts)
qed

lemma digits_ok_fill: "digits_ok (replicate n (if ones then DIGIT_MASK else 0))"
  by (simp add: digits_ok_def digit_consts)

theorem vec_shift_right_value:
  fixes k :: int
  assumes "digits_ok u"
  defines "d ones \<equiv> vec_shift_right (length u) u k (if ones then DIGIT_MASK else 0)"
  shows "dval (d ones) = shifted_right (radix ^ length u) (nat k) ones (dval u)"
    and "digits_ok (d ones)" and "length (d ones) = length u"
proof -
  define q r where "q = nat k div 30" and "r = nat k mod 30"
  have k: "nat k = 30 * q + r" "r < 30" by (simp_all add: q_def r_def)
  let ?fill = "if ones then DIGIT_MASK else 0" and ?R = "radix ^ length u"
  let ?u = "whole_right q ?fill u"
  have w: "dval ?u = shifted_right ?R (30 * q) ones (dval u)" "length ?u = length u" "digits_ok ?u"
    using assms(1) whole_right_value [OF assms(1), of q ones] digits_ok_fill
    by (simp_all add: whole_right_def)
  have u: "(if q \<noteq> 0 then
        let w = foldl (\<lambda>u j. u[j := u ! (j + q)]) u [0..<length u - q]
        in if ?fill \<noteq> 0 then foldl (\<lambda>u j. u[j := ?fill]) w [length u - min q (length u)..<length u]
           else vec_zero_from (length u - min q (length u)) (length u) w
      else u) = ?u"
    using whole_right_eq [where fill = ?fill and u = u and nd = q] by (simp only: Let_def) (auto simp: whole_right_def)
  define fl where "fl = ?fill AND one_and_ones r"
  have fl: "unat fl = (if ones then 2 ^ r - 1 else 0)" "unat fl < 2 ^ r"
    unfolding fl_def unat_fill [OF k(2)] by simp_all
  obtain ws g where l: "shift_right_loop r (push_bit (30 - r) fl) ?u = (ws, push_bit (30 - r) g)"
    "length ws = length u" "digits_ok ws" "dval ws = (dval ?u + ?R * unat fl) div 2 ^ r"
    using shift_right_loop_value [OF k(2) w(3) fl(2)] unfolding w(2) by blast
  have d: "d ones = (if k \<le> 0 then u else if r = 0 then ?u else ws)"
    using l(1) w(2)
    unfolding d_def vec_shift_right_def shift_parts_eq q_def [symmetric] r_def [symmetric]
      Let_def split u [unfolded Let_def] BITS_PER_DIGIT_def fl_def by simp
  show "digits_ok (d ones)" "length (d ones) = length u" using assms(1) w l by (simp_all add: d)
  show "dval (d ones) = shifted_right ?R (nat k) ones (dval u)"
  proof (cases "k \<le> 0")
    case True
    then show ?thesis by (simp add: d shifted_right_def)
  next
    case False
    have "dval ws = shifted_right ?R r ones (dval ?u)"
      unfolding l(4) fl(1) by (simp add: shifted_right_def mult.commute)
    then have "dval ws = shifted_right ?R (nat k) ones (dval u)"
      by (simp only: w(1) shifted_right_twice k(1))
    then show ?thesis using False w(1) k by (simp add: d)
  qed
qed

text \<open>On two's complement numbers the fill with ones is the floor of the division.\<close>

lemma shifted_right_nat: "shifted_right R k False x = x div 2 ^ k"
  by (simp add: shifted_right_def)

lemma mod_negative: "x mod R = x + R" if "(x :: int) < 0" "- R \<le> x"
  using mod_pos_pos_trivial [of "x + R" R] that by simp

lemma shifted_right_negative:
  assumes "(x :: int) < 0" "int u = x mod int R" "- int R \<le> x"
  shows "int (shifted_right R k True u) = (x div 2 ^ k) mod int R"
proof -
  define K where "K = (2 :: int) ^ k"
  have K: "0 < K" by (simp add: K_def)
  have R: "0 < int R" using assms(1,3) by linarith
  have u: "int u = x + int R" using assms mod_negative [of x "int R"] by simp
  have "int (shifted_right R k True u) = (x + int R + (K - 1) * int R) div K"
    by (simp add: shifted_right_def zdiv_int of_nat_diff u K_def)
  also have "x + int R + (K - 1) * int R = x + K * int R" by (simp add: algebra_simps)
  also have "\<dots> div K = x div K + int R" using K by simp
  also have "\<dots> = (x div K) mod int R"
  proof -
    have "x div K < 0" using assms(1) K by (rule div_neg_pos_less0)
    moreover have "- int R \<le> x div K"
    proof -
      have "K * - int R \<le> - int R" using K R by (simp add: mult_le_cancel_right1)
      then have "K * - int R \<le> x" using assms(3) by linarith
      from zdiv_mono1 [OF this K] show ?thesis
        using K by (simp only: nonzero_mult_div_cancel_left less_imp_neq [THEN not_sym] not_False_eq_True)
    qed
    ultimately show ?thesis by (simp add: mod_negative)
  qed
  finally show ?thesis by (simp only: K_def)
qed

section \<open>Single bits\<close>

lemma bit_one_and_zeros: "bit (one_and_zeros n) m \<longleftrightarrow> m = n \<and> n < 32"
  by (auto simp: one_and_zeros_def bit_simps)

lemma one_and_zeros_less: "n < 30 \<Longrightarrow> unat (one_and_zeros n) < radix"
  unfolding ok_digit_iff by (rule bit_word_eqI) (auto simp: digit_mask bit_simps bit_one_and_zeros)

lemma and_digit_less: "unat a < radix \<Longrightarrow> unat (a AND b :: digit) < radix"
  unfolding ok_digit_iff by (simp add: and.assoc and.commute [of b]) (simp flip: and.assoc)

lemma safe_set_value:
  assumes "digits_ok d" "i < 30 * length d"
  shows "digits_ok (safe_set i v d)" "length (safe_set i v d) = length d"
    and "bit (dval (safe_set i v d)) j = (if j = i then v else bit (dval d) j)"
proof -
  define q r where "q = i div 30" and "r = i mod 30"
  have q: "q < length d" "r < 30" using assms(2) by (simp_all add: q_def r_def less_mult_imp_div_less mult.commute)
  define x where "x = (if v then d ! q OR one_and_zeros r else d ! q AND NOT (one_and_zeros r))"
  have s: "safe_set i v d = d[q := x]"
    by (simp add: safe_set_def Let_def x_def q_def r_def digit_ord_def bit_ord_def digit_consts)
  have x: "unat x < radix"
    using digits_ok_nth [OF assms(1) q(1)] or_op.f_less one_and_zeros_less [OF q(2)] and_digit_less
    by (simp add: x_def)
  show ok: "digits_ok (safe_set i v d)" unfolding s by (rule digits_ok_update [OF assms(1) x])
  show "length (safe_set i v d) = length d" by (simp add: s)
  show "bit (dval (safe_set i v d)) j = (if j = i then v else bit (dval d) j)"
  proof (cases "j div 30 = q")
    case True
    have "j = i \<longleftrightarrow> j mod 30 = r" using True by (metis mult_div_mod_eq q_def r_def)
    moreover have "bit x (j mod 30) = (if j mod 30 = r then v else bit (d ! q) (j mod 30))"
    proof -
      have "j mod 30 < 32" using mod_less_divisor [of 30 j] by linarith
      then show ?thesis by (auto simp: x_def bit_simps bit_one_and_zeros)
    qed
    ultimately show ?thesis
      using q(1) True ok assms(1) unfolding s by (simp add: bit_dval)
  next
    case False
    then have "j \<noteq> i" by (auto simp: q_def)
    then show ?thesis using False ok assms(1) unfolding s by (simp add: bit_dval)
  qed
qed

lemma test_bit_value:
  assumes "digits_ok d" "i < 30 * length d"
  shows "d ! digit_ord i AND one_and_zeros (bit_ord i) \<noteq> 0 \<longleftrightarrow> bit (dval d) i"
proof -
  have "i div 30 < length d" using assms(2) by (simp add: less_mult_imp_div_less mult.commute)
  then show ?thesis
    by (simp add: and_zeros_iff bit_dval [OF assms(1)] digit_ord_def bit_ord_def digit_consts)
qed

text \<open>Setting the bits from \<open>r\<close> on to given values.\<close>

lemma set_bits_loop:
  fixes f :: "nat \<Rightarrow> bool"
  assumes "digits_ok d" "r + n \<le> 30 * length d"
  defines "e m \<equiv> foldl (\<lambda>d t. safe_set (r + t) (f t) d) d [0..<m]"
  shows "digits_ok (e n) \<and> length (e n) = length d \<and>
    (\<forall>j. bit (dval (e n)) j = (if r \<le> j \<and> j < r + n then f (j - r) else bit (dval d) j))"
  using assms(2)
proof (induction n)
  case 0
  then show ?case using assms(1) by (auto simp: e_def)
next
  case (Suc n)
  then have IH: "digits_ok (e n)" "length (e n) = length d"
    "\<forall>j. bit (dval (e n)) j = (if r \<le> j \<and> j < r + n then f (j - r) else bit (dval d) j)" by simp_all
  have "e (Suc n) = safe_set (r + n) (f n) (e n)" by (simp add: e_def)
  then show ?case
    using safe_set_value [OF IH(1), of "r + n" "f n"] IH(2,3) Suc.prems by (auto simp: less_Suc_eq)
qed

theorem vec_reverse_value:
  assumes "digits_ok ud" "und \<le> length ud" "r \<le> l" "l < unb" "unb \<le> 30 * und"
  shows "\<exists>d. vec_reverse unb und ud l r = Some d \<and> digits_ok d \<and> length d = length ud \<and>
    (\<forall>j. bit (dval d) j = (if r \<le> j \<and> j \<le> l then bit (dval ud) (l + r - j) else bit (dval ud) j))"
proof -
  let ?d = "take und ud"
  let ?f = "\<lambda>t. ?d ! digit_ord (l - t) AND one_and_zeros (bit_ord (l - t)) \<noteq> 0"
  let ?e = "foldl (\<lambda>ud t. safe_set (r + t) (?f t) ud) ud [0..<l + 1 - r]"
  have "min l (unb - 1) = l" using assms(4) by simp
  then have e: "vec_reverse unb und ud l r = Some ?e"
    using assms(3) by (simp add: vec_reverse_def Let_def)
  have f: "?f t \<longleftrightarrow> bit (dval ud) (l - t)" for t
  proof -
    have "l - t < 30 * und" using assms(4,5) by linarith
    moreover from this have "bit (dval ?d) (l - t) = bit (dval ud) (l - t)"
      using assms(1,2) by (simp add: bit_dval less_mult_imp_div_less mult.commute)
    ultimately show ?thesis using test_bit_value [of ?d "l - t"] assms(1,2) by simp
  qed
  have "r + (l + 1 - r) \<le> 30 * length ud" using assms by linarith
  from set_bits_loop [OF assms(1) this, of ?f]
  have "digits_ok ?e" "length ?e = length ud"
    "bit (dval ?e) j = (if r \<le> j \<and> j < r + (l + 1 - r) then ?f (j - r) else bit (dval ud) j)" for j
    by blast+
  moreover have "l - (j - r) = l + r - j" if "r \<le> j" for j using that by simp
  ultimately show ?thesis
    using assms(3) unfolding e f by (intro exI [of _ ?e]) (auto simp: f)
qed

end
