(* ===== verification/Dt_Number.thy ===== *)
theory Dt_Number
  imports Dt_Arith Dt_Bits Dt_Shift "HOL-Library.Signed_Division"
begin

text \<open>
  The classes \<^verbatim>\<open>sc_signed\<close> and \<^verbatim>\<open>sc_unsigned\<close>, whose members are the text of
  datatypes/int/sc_nbcommon.inc included once for each: which class is meant is the parameter
  \<open>kind\<close>.  A number has a sign, a number of bits (one more than its length for the unsigned
  class), and its magnitude in digits.  The operators that change a number in place wrap the
  exact result to the bits of the number; this is proved once over the locale \<open>digit_format\<close> of
  \<^verbatim>\<open>Dt_Arith\<close>.  An operand is passed by value: the loops of the helpers read each digit of
  the operand before they write it, so that \<^verbatim>\<open>u += u\<close> needs no case of its own.
\<close>

unbundle bit_operations_syntax

section \<open>The object\<close>

datatype kind = Signed | Unsigned

record sc_number =
  sgn :: int
  nbits :: nat
  ndigits :: nat
  digit :: digits

definition num_bits :: "kind \<Rightarrow> nat \<Rightarrow> nat" where
  "num_bits k nb = (case k of Signed \<Rightarrow> nb | Unsigned \<Rightarrow> nb + 1)"

definition length_of :: "kind \<Rightarrow> sc_number \<Rightarrow> nat" where
  "length_of k u = (case k of Signed \<Rightarrow> nbits u | Unsigned \<Rightarrow> nbits u - 1)"

definition conv_of :: "kind \<Rightarrow> convert" where
  "conv_of k = (case k of Signed \<Rightarrow> convert_signed_SM_to_2C_to_SM
                        | Unsigned \<Rightarrow> convert_unsigned_SM_to_2C_to_SM)"

definition copy_of :: "kind \<Rightarrow> copy_digits" where
  "copy_of k = (case k of Signed \<Rightarrow> copy_digits_signed | Unsigned \<Rightarrow> copy_digits_unsigned)"

definition with_digits :: "sc_number \<Rightarrow> int \<times> digits \<Rightarrow> sc_number" where
  "with_digits u r = u\<lparr>sgn := fst r, digit := snd r\<rparr>"

definition copy_digits_to :: "kind \<Rightarrow> sc_number \<Rightarrow> nat \<Rightarrow> nat \<Rightarrow> digits \<Rightarrow> sc_number" where
  "copy_digits_to k u nb nd d =
     with_digits u (copy_of k (sgn u) (nbits u) (ndigits u) (digit u) nb nd d)"

definition makezero :: "sc_number \<Rightarrow> sc_number" where
  "makezero u = with_digits u (make_zero (ndigits u) (digit u))"

definition convert_2C_to_SM :: "kind \<Rightarrow> sc_number \<Rightarrow> sc_number" where
  "convert_2C_to_SM k u =
     with_digits u ((case k of Signed \<Rightarrow> convert_signed_2C_to_SM | Unsigned \<Rightarrow> convert_unsigned_2C_to_SM)
       (nbits u) (ndigits u) (digit u))"

definition number_SM_to_2C_to_SM :: "kind \<Rightarrow> sc_number \<Rightarrow> sc_number" where
  "number_SM_to_2C_to_SM k u = with_digits u (conv_of k (sgn u) (nbits u) (ndigits u) (digit u))"

definition number_SM_to_2C :: "sc_number \<Rightarrow> sc_number" where
  "number_SM_to_2C u = u\<lparr>digit := convert_SM_to_2C (sgn u) (ndigits u) (digit u)\<rparr>"

text \<open>The constructor reports an error when the length is not positive.\<close>

definition sc_number_ctor :: "kind \<Rightarrow> int \<Rightarrow> sc_number option" where
  "sc_number_ctor k nb =
     (if 0 < nb then
        let nb = num_bits k (nat nb); nd = DIV_CEIL nb
        in Some (makezero \<lparr>sgn = SC_POS, nbits = nb, ndigits = nd, digit = replicate nd 0\<rparr>)
      else None)"

text \<open>A copy of a number of the other class, and a number from its parts.\<close>

definition number_from_other :: "kind \<Rightarrow> sc_number \<Rightarrow> sc_number" where
  "number_from_other k v =
     (let nb = num_bits k (nbits v);
          nd = (case k of Signed \<Rightarrow> ndigits v | Unsigned \<Rightarrow> DIV_CEIL nb)
      in copy_digits_to k \<lparr>sgn = sgn v, nbits = nb, ndigits = nd, digit = replicate nd 0\<rparr>
           (nbits v) (ndigits v) (digit v))"

definition number_from_parts :: "kind \<Rightarrow> int \<Rightarrow> nat \<Rightarrow> nat \<Rightarrow> digits \<Rightarrow> sc_number" where
  "number_from_parts k s nb nd d =
     (let nb = num_bits k nb;
          n = DIV_CEIL nb;
          fresh = replicate n 0
      in \<lparr>sgn = s, nbits = nb, ndigits = n,
          digit = (if n \<le> nd then vec_copy n fresh d else vec_copy_and_zero n fresh nd d)\<rparr>)"

section \<open>Assignment\<close>

definition assign_number :: "kind \<Rightarrow> sc_number \<Rightarrow> sc_number \<Rightarrow> sc_number" where
  "assign_number k u v =
     (let u = u\<lparr>sgn := sgn v\<rparr>
      in if sgn u = SC_ZERO then u\<lparr>digit := vec_zero (ndigits u) (digit u)\<rparr>
         else copy_digits_to k u (nbits v) (ndigits v) (digit v))"

section \<open>Addition and subtraction\<close>

definition add_to :: "kind \<Rightarrow> sc_number \<Rightarrow> int \<Rightarrow> sc_number \<Rightarrow> sc_number" where
  "add_to k u vs v =
     number_SM_to_2C_to_SM k
       (with_digits u (add_on_help (sgn u) (ndigits u) (digit u) vs (ndigits v) (digit v)))"

definition plus_assign :: "kind \<Rightarrow> sc_number \<Rightarrow> sc_number \<Rightarrow> sc_number" where
  "plus_assign k u v =
     (if sgn u = SC_ZERO then assign_number k u v
      else if sgn v = SC_ZERO then u
      else add_to k u (sgn v) v)"

definition minus_assign :: "kind \<Rightarrow> sc_number \<Rightarrow> sc_number \<Rightarrow> sc_number" where
  "minus_assign k u v =
     (if sgn v = SC_ZERO then u
      else if sgn u = SC_ZERO then
        copy_digits_to k (u\<lparr>sgn := - sgn v\<rparr>) (nbits v) (ndigits v) (digit v)
      else add_to k u (- sgn v) v)"

section \<open>Multiplication, division, remainder\<close>

definition times_assign :: "kind \<Rightarrow> sc_number \<Rightarrow> sc_number \<Rightarrow> sc_number" where
  "times_assign k u v =
     (let u = u\<lparr>sgn := mul_signs (sgn u) (sgn v)\<rparr>
      in if sgn u = SC_ZERO then u\<lparr>digit := vec_zero (ndigits u) (digit u)\<rparr>
         else with_digits u
           ((case k of Signed \<Rightarrow> mul_on_help_signed | Unsigned \<Rightarrow> mul_on_help_unsigned)
             (sgn u) (nbits u) (ndigits u) (digit u) (nbits v) (ndigits v) (digit v)))"

text \<open>
  A division by zero is reported by an exception: \<open>Inl\<close> with the object as the exception leaves it.
\<close>

definition div_assign :: "kind \<Rightarrow> sc_number \<Rightarrow> sc_number \<Rightarrow> sc_number + sc_number" where
  "div_assign k u v =
     (let u = u\<lparr>sgn := mul_signs (sgn u) (sgn v)\<rparr>
      in if sgn u = SC_ZERO then
           if sgn v = SC_ZERO then Inl u
           else Inr (u\<lparr>digit := vec_zero (ndigits u) (digit u)\<rparr>)
         else Inr (with_digits u
           ((case k of Signed \<Rightarrow> div_on_help_signed | Unsigned \<Rightarrow> div_on_help_unsigned)
             (sgn u) (nbits u) (ndigits u) (digit u) (nbits v) (ndigits v) (digit v))))"

definition mod_assign :: "kind \<Rightarrow> sc_number \<Rightarrow> sc_number \<Rightarrow> sc_number + sc_number" where
  "mod_assign k u v =
     (if sgn u = SC_ZERO \<or> sgn v = SC_ZERO then
        if sgn v = SC_ZERO then Inl u
        else Inr (u\<lparr>digit := vec_zero (ndigits u) (digit u)\<rparr>)
      else Inr (with_digits u
        ((case k of Signed \<Rightarrow> mod_on_help_signed | Unsigned \<Rightarrow> mod_on_help_unsigned)
          (sgn u) (nbits u) (ndigits u) (digit u) (ndigits v) (digit v))))"

section \<open>Bitwise operators\<close>

definition and_assign :: "kind \<Rightarrow> sc_number \<Rightarrow> sc_number \<Rightarrow> sc_number" where
  "and_assign k u v =
     (if sgn u = SC_ZERO \<or> sgn v = SC_ZERO then makezero u
      else convert_2C_to_SM k
        (u\<lparr>digit := and_on_help (sgn u) (ndigits u) (digit u) (sgn v) (ndigits v) (digit v)\<rparr>))"

definition or_assign :: "kind \<Rightarrow> sc_number \<Rightarrow> sc_number \<Rightarrow> sc_number" where
  "or_assign k u v =
     (if sgn v = SC_ZERO then u
      else if sgn u = SC_ZERO then assign_number k u v
      else convert_2C_to_SM k
        (u\<lparr>digit := or_on_help (sgn u) (ndigits u) (digit u) (sgn v) (ndigits v) (digit v)\<rparr>))"

definition xor_assign :: "kind \<Rightarrow> sc_number \<Rightarrow> sc_number \<Rightarrow> sc_number" where
  "xor_assign k u v =
     (if sgn v = SC_ZERO then u
      else if sgn u = SC_ZERO then assign_number k u v
      else convert_2C_to_SM k
        (u\<lparr>digit := xor_on_help (sgn u) (ndigits u) (digit u) (sgn v) (ndigits v) (digit v)\<rparr>))"

definition complement_number :: "kind \<Rightarrow> sc_number \<Rightarrow> sc_number" where
  "complement_number k u =
     (if sgn u = SC_ZERO then number_from_parts k SC_NEG (nbits u) 1 [1]
      else
        let nd = ndigits u;
            (s, d) = (if sgn u = SC_POS then (SC_NEG, vec_add_small_on nd (digit u) 1)
                      else let d = vec_sub_small_on nd (digit u) 1
                           in (if is_zero_vec nd d then SC_ZERO else SC_POS, d))
        in number_from_parts k s (nbits u) nd d)"

section \<open>Shifts\<close>

text \<open>The distance is an \<^verbatim>\<open>unsigned long\<close>, which the helpers take as an \<^verbatim>\<open>int\<close>.\<close>

definition int_of_ulong :: "64 word \<Rightarrow> int" where
  "int_of_ulong v = sint (ucast v :: 32 word)"

definition shl_assign :: "kind \<Rightarrow> sc_number \<Rightarrow> 64 word \<Rightarrow> sc_number" where
  "shl_assign k u v =
     (if v = 0 then u
      else if sgn u = SC_ZERO then u
      else
        let u = number_SM_to_2C u
        in convert_2C_to_SM k (u\<lparr>digit := vec_shift_left (ndigits u) (digit u) (int_of_ulong v)\<rparr>))"

definition shr_assign :: "kind \<Rightarrow> sc_number \<Rightarrow> 64 word \<Rightarrow> sc_number" where
  "shr_assign k u v =
     (if v = 0 then u
      else if sgn u = SC_ZERO then u
      else
        let u = number_SM_to_2C u;
            fill = (if sgn u = SC_NEG then DIGIT_MASK else 0)
        in convert_2C_to_SM k
             (u\<lparr>digit := vec_shift_right (ndigits u) (digit u) (int_of_ulong v) fill\<rparr>))"

section \<open>Well-formed numbers and their values\<close>

definition val :: "sc_number \<Rightarrow> int" where
  "val u = smval (sgn u) (digit u)"

definition wrap_of :: "kind \<Rightarrow> nat \<Rightarrow> int \<Rightarrow> int" where
  "wrap_of k nb x = (case k of Signed \<Rightarrow> signed_take_bit (nb - 1) x | Unsigned \<Rightarrow> x mod 2 ^ (nb - 1))"

definition ok_of :: "kind \<Rightarrow> nat \<Rightarrow> int \<Rightarrow> digits \<Rightarrow> bool" where
  "ok_of k = (case k of Signed \<Rightarrow> signed_ok | Unsigned \<Rightarrow> unsigned_ok)"

definition number_ok :: "kind \<Rightarrow> sc_number \<Rightarrow> bool" where
  "number_ok k u \<longleftrightarrow> ndigits u = length (digit u) \<and> ok_of k (nbits u) (sgn u) (digit u)"

text \<open>What an operand has to be: a built-in integer of 64 bits is one, also an unsigned one.\<close>

definition operand_ok :: "sc_number \<Rightarrow> bool" where
  "operand_ok v \<longleftrightarrow> ndigits v = length (digit v) \<and> digits_ok (digit v) \<and>
     sign_ok (sgn v) (digit v) \<and> dval (digit v) < 2 ^ nbits v"

interpretation fmt: digit_format "conv_of k" "copy_of k" "wrap_of k" "ok_of k" for k
proof (cases k)
  case Signed
  then have "conv_of k = convert_signed_SM_to_2C_to_SM" "copy_of k = copy_digits_signed"
    "wrap_of k = (\<lambda>nb. signed_take_bit (nb - 1))" "ok_of k = signed_ok"
    by (simp_all add: conv_of_def copy_of_def wrap_of_def ok_of_def fun_eq_iff)
  then show "digit_format (conv_of k) (copy_of k) (wrap_of k) (ok_of k)"
    using sfmt.digit_format_axioms by simp
next
  case Unsigned
  then have "conv_of k = convert_unsigned_SM_to_2C_to_SM" "copy_of k = copy_digits_unsigned"
    "wrap_of k = (\<lambda>nb x. x mod 2 ^ (nb - 1))" "ok_of k = unsigned_ok"
    by (simp_all add: conv_of_def copy_of_def wrap_of_def ok_of_def fun_eq_iff)
  then show "digit_format (conv_of k) (copy_of k) (wrap_of k) (ok_of k)"
    using ufmt.digit_format_axioms by simp
qed

lemma ok_of_parts:
  assumes "ok_of k nb s d"
  shows "sized nb d" "sign_ok s d" "in_range nb (smval s d)"
proof -
  have "- (2 ^ (nb - 1)) \<le> (0 :: int)" by simp
  then have "- (2 ^ (nb - 1)) \<le> int (dval d)" by (rule order_trans) simp
  then show "sized nb d" "sign_ok s d" "in_range nb (smval s d)"
    using assms by (auto simp: ok_of_def signed_ok_def unsigned_ok_def in_range_def smval_def
        split: kind.splits)
qed

lemma wrap_mod_cong:
  assumes "x mod 2 ^ m = y mod 2 ^ m" "0 < nb" "nb \<le> m"
  shows "wrap_of k nb x = wrap_of k nb y"
proof (cases k)
  case Signed
  then show ?thesis using signed_take_bit_mod_cong [OF assms] by (simp add: wrap_of_def)
next
  case Unsigned
  have "(2 :: int) ^ (nb - 1) dvd 2 ^ m" using assms(3) by (intro le_imp_power_dvd) simp
  then show ?thesis using Unsigned assms(1) by (simp add: wrap_of_def) (metis mod_mod_cancel)
qed

lemma in_range_less: "0 < nb \<Longrightarrow> in_range nb (smval s d) \<Longrightarrow> dval d < 2 ^ nb"
proof -
  assume a: "0 < nb" "in_range nb (smval s d)"
  have "int (dval d) = smval s d \<or> int (dval d) = - smval s d" by (simp add: smval_def)
  then have "int (dval d) \<le> 2 ^ (nb - 1)" using a(2) unfolding in_range_def by linarith
  then have "int (dval d) \<le> int (2 ^ (nb - 1))" by simp
  then have "dval d \<le> 2 ^ (nb - 1)" by (simp only: of_nat_le_iff)
  also have "(2 :: nat) ^ (nb - 1) < 2 ^ nb" using a(1) by (intro power_strict_increasing) auto
  finally show ?thesis .
qed

lemma number_operand: "number_ok k v \<Longrightarrow> operand_ok v"
  using ok_of_parts [of k "nbits v" "sgn v" "digit v"] in_range_less [of "nbits v" "sgn v" "digit v"]
  by (auto simp: number_ok_def operand_ok_def sized_def)

lemma number_parts:
  assumes "number_ok k u"
  shows "sized (nbits u) (digit u)" "sign_ok (sgn u) (digit u)" "in_range (nbits u) (val u)"
    "ndigits u = length (digit u)" "0 < nbits u" "nbits u \<le> 30 * length (digit u)" "digits_ok (digit u)"
  using assms ok_of_parts [of k "nbits u" "sgn u" "digit u"] sized_top [of "nbits u" "digit u"]
  by (auto simp: number_ok_def val_def sized_def)

lemma number_wrap: "number_ok k u \<Longrightarrow> wrap_of k (nbits u) (val u) = val u"
  by (simp add: number_ok_def val_def fmt.ok_wrap)

lemma val_zero_iff: "operand_ok v \<Longrightarrow> sgn v = SC_ZERO \<longleftrightarrow> val v = 0"
  by (auto simp: operand_ok_def sign_ok_def val_def smval_def)

lemma nonzero_sign: "operand_ok v \<Longrightarrow> sgn v \<noteq> SC_ZERO \<Longrightarrow> sgn v \<in> {SC_NEG, SC_POS}"
  by (auto simp: operand_ok_def sign_ok_def)

lemma with_digits_simps [simp]:
  "sgn (with_digits u r) = fst r" "digit (with_digits u r) = snd r"
  "nbits (with_digits u r) = nbits u" "ndigits (with_digits u r) = ndigits u"
  by (simp_all add: with_digits_def)

text \<open>The result of an operator: a well-formed number of the same bits with this value.\<close>

definition yields :: "kind \<Rightarrow> sc_number \<Rightarrow> sc_number \<Rightarrow> int \<Rightarrow> bool" where
  "yields k u u' x \<longleftrightarrow> number_ok k u' \<and> nbits u' = nbits u \<and> val u' = wrap_of k (nbits u) x"

lemma yields_digits:
  assumes "sized (nbits u) (digit u)" "ndigits u = length (digit u)"
    "smval (fst r) (snd r) = wrap_of k (nbits u) x \<and> ok_of k (nbits u) (fst r) (snd r)"
  shows "yields k u (with_digits u r) x"
proof -
  have "length (snd r) = length (digit u)"
    using assms ok_of_parts(1) [of k "nbits u" "fst r" "snd r"] by (simp add: sized_def)
  then show ?thesis using assms by (simp add: yields_def number_ok_def val_def)
qed

section \<open>The operators wrap the exact result\<close>

lemma zeroed:
  assumes "number_ok k u"
  shows "yields k u (u\<lparr>sgn := SC_ZERO, digit := vec_zero (ndigits u) (digit u)\<rparr>) 0"
proof -
  note p = number_parts [OF assms]
  have "yields k u (with_digits u (SC_ZERO, vec_zero (length (digit u)) (digit u))) 0"
    using fmt.zero_result [OF p(1)] p(1,4) by (intro yields_digits) simp_all
  then show ?thesis by (simp add: with_digits_def p(4))
qed

lemma copied_value:
  assumes "sized (nbits u) (digit u)" "ndigits u = length (digit u)"
    and v: "ndigits v = length (digit v)" "digits_ok (digit v)" "dval (digit v) < 2 ^ nbits v"
    and s: "sign_ok (sgn u) (digit v)" "sgn u \<noteq> SC_ZERO"
  shows "yields k u (copy_digits_to k u (nbits v) (ndigits v) (digit v)) (smval (sgn u) (digit v))"
proof -
  let ?r = "copy_of k (sgn u) (nbits u) (length (digit u)) (digit u) (nbits v) (length (digit v)) (digit v)"
  have pm: "sgn u \<in> {SC_NEG, SC_POS}" using s by (auto simp: sign_ok_def)
  then have e: "smval (sgn u) (digit v) = sgn u * int (dval (digit v))"
    by (auto simp: smval_def SC_NEG_def SC_POS_def)
  have "nbits v < nbits u \<Longrightarrow> in_range (nbits u) (smval (sgn u) (take (length (digit v)) (digit v)))"
    using fmt.fits_below [OF pm v(3)] by (simp add: e)
  from fmt.copy_value [OF assms(1) v(2) _ _ this, where s' = "fst ?r" and d' = "snd ?r"] s(1)
  have "smval (fst ?r) (snd ?r) = wrap_of k (nbits u) (smval (sgn u) (digit v)) \<and>
      ok_of k (nbits u) (fst ?r) (snd ?r)" by simp
  from yields_digits [OF assms(1,2) this] show ?thesis by (simp add: copy_digits_to_def assms(2) v(1))
qed

lemma assign_value:
  assumes "number_ok k u" "operand_ok v"
  shows "yields k u (assign_number k u v) (val v)"
proof (cases "sgn v = SC_ZERO")
  case True
  then show ?thesis
    using zeroed [OF assms(1)] val_zero_iff [OF assms(2)] by (simp add: assign_number_def)
next
  case False
  note p = number_parts [OF assms(1)]
  have "yields k (u\<lparr>sgn := sgn v\<rparr>) (copy_digits_to k (u\<lparr>sgn := sgn v\<rparr>) (nbits v) (ndigits v) (digit v))
      (smval (sgn (u\<lparr>sgn := sgn v\<rparr>)) (digit v))"
    using assms(2) p False by (intro copied_value) (simp_all add: operand_ok_def)
  then show ?thesis using False by (simp add: assign_number_def val_def yields_def)
qed

lemma add_to_value:
  assumes "number_ok k u" "operand_ok v" "sgn u \<noteq> SC_ZERO" "sgn v \<noteq> SC_ZERO" "vs = sgn v \<or> vs = - sgn v"
  shows "yields k u (add_to k u vs v) (val u + smval vs (digit v))"
proof -
  note p = number_parts [OF assms(1)]
  have v: "digits_ok (digit v)" "ndigits v = length (digit v)" using assms(2) by (simp_all add: operand_ok_def)
  have s: "sgn u \<in> {SC_NEG, SC_POS}" "vs \<in> {SC_NEG, SC_POS}"
    using nonzero_sign [OF number_operand [OF assms(1)] assms(3)] nonzero_sign [OF assms(2,4)] assms(5)
    by (auto simp: SC_NEG_def SC_POS_def)
  define r where "r = add_on_help (sgn u) (length (digit u)) (digit u) vs (length (digit v)) (digit v)"
  let ?m = "30 * length (digit u)"
  have a: "smval (fst r) (snd r) mod 2 ^ ?m = (val u + smval vs (digit v)) mod 2 ^ ?m"
    "digits_ok (snd r)" "length (snd r) = length (digit u)"
    using add_on_help_value [OF p(7) v(1) _ s, of "length (digit v)" "fst r" "snd r"]
    by (simp_all add: r_def val_def)
  have sz: "sized (nbits u) (snd r)" using p(1) a(2,3) by (simp add: sized_def)
  let ?c = "conv_of k (fst r) (nbits u) (length (snd r)) (snd r)"
  have "smval (fst ?c) (snd ?c) = wrap_of k (nbits u) (smval (fst r) (snd r)) \<and>
      ok_of k (nbits u) (fst ?c) (snd ?c)"
    by (rule fmt.conv_value [OF sz]) simp
  then have c: "smval (fst ?c) (snd ?c) = wrap_of k (nbits u) (val u + smval vs (digit v)) \<and>
      ok_of k (nbits u) (fst ?c) (snd ?c)"
    using wrap_mod_cong [OF a(1) p(5,6)] by simp
  have "yields k (with_digits u r) (with_digits (with_digits u r) ?c) (val u + smval vs (digit v))"
    using sz c a(3) p(4) by (intro yields_digits) simp_all
  then show ?thesis
    using p(4) v(2) a(3) by (simp add: add_to_def number_SM_to_2C_to_SM_def yields_def r_def)
qed

lemma unchanged: "number_ok k u \<Longrightarrow> x = val u \<Longrightarrow> yields k u u x"
  by (simp add: yields_def number_wrap)

theorem plus_assign_value:
  assumes "number_ok k u" "operand_ok v"
  shows "yields k u (plus_assign k u v) (val u + val v)"
  using assign_value [OF assms] add_to_value [OF assms, of "sgn v"] unchanged [OF assms(1)]
    val_zero_iff [OF number_operand [OF assms(1)]] val_zero_iff [OF assms(2)]
  by (auto simp: plus_assign_def val_def [of v])

theorem minus_assign_value:
  assumes "number_ok k u" "operand_ok v"
  shows "yields k u (minus_assign k u v) (val u - val v)"
proof (cases "sgn v = SC_ZERO")
  case True
  then show ?thesis
    using unchanged [OF assms(1)] val_zero_iff [OF assms(2)] by (simp add: minus_assign_def)
next
  case False
  note p = number_parts [OF assms(1)] and s = nonzero_sign [OF assms(2) False]
  have neg: "smval (- sgn v) (digit v) = - val v"
    using s by (auto simp: val_def smval_def SC_NEG_def SC_POS_def)
  show ?thesis
  proof (cases "sgn u = SC_ZERO")
    case True
    have "yields k (u\<lparr>sgn := - sgn v\<rparr>)
        (copy_digits_to k (u\<lparr>sgn := - sgn v\<rparr>) (nbits v) (ndigits v) (digit v))
        (smval (sgn (u\<lparr>sgn := - sgn v\<rparr>)) (digit v))"
      using assms(2) p False s
      by (intro copied_value)
        (auto simp: operand_ok_def sign_ok_def SC_NEG_def SC_POS_def SC_ZERO_def)
    then show ?thesis
      using True False neg val_zero_iff [OF number_operand [OF assms(1)]]
      by (simp add: minus_assign_def yields_def)
  next
    case nz: False
    then show ?thesis
      using add_to_value [OF assms nz False, of "- sgn v"] neg False by (simp add: minus_assign_def)
  qed
qed

lemma nonzero_parts:
  assumes "operand_ok v" "sgn v \<noteq> SC_ZERO"
  shows "sgn v = 1 \<or> sgn v = - 1" "val v = sgn v * int (dval (digit v))" "dval (digit v) \<noteq> 0"
  using assms nonzero_sign [OF assms]
  by (auto simp: operand_ok_def sign_ok_def val_def smval_def SC_NEG_def SC_POS_def)

lemma mul_signs_eq:
  "us = 1 \<or> us = - 1 \<Longrightarrow> vs = 1 \<or> vs = - 1 \<Longrightarrow> mul_signs us vs = us * vs"
  by (auto simp: mul_signs_def SC_NEG_def SC_POS_def SC_ZERO_def)

lemma mul_signs_zero: "mul_signs us vs = SC_ZERO \<longleftrightarrow> us = SC_ZERO \<or> vs = SC_ZERO"
  by (auto simp: mul_signs_def)

text \<open>An operator on the magnitudes, when no operand is zero.\<close>

lemma helper_result:
  assumes "number_ok k u"
    and "smval (fst r) (snd r) = wrap_of k (nbits u) x \<and> ok_of k (nbits u) (fst r) (snd r)"
  shows "yields k u (with_digits (u\<lparr>sgn := s\<rparr>) r) x"
proof -
  have "yields k (u\<lparr>sgn := s\<rparr>) (with_digits (u\<lparr>sgn := s\<rparr>) r) x"
    using number_parts [OF assms(1)] assms(2) by (intro yields_digits) simp_all
  then show ?thesis by (simp add: yields_def)
qed

theorem times_assign_value:
  assumes "number_ok k u" "operand_ok v"
  shows "yields k u (times_assign k u v) (val u * val v)"
proof -
  note p = number_parts [OF assms(1)] and uop = number_operand [OF assms(1)]
  define s where "s = mul_signs (sgn u) (sgn v)"
  show ?thesis
  proof (cases "s = SC_ZERO")
    case True
    then have "val u * val v = 0"
      using val_zero_iff [OF uop] val_zero_iff [OF assms(2)] by (auto simp: s_def mul_signs_zero)
    then show ?thesis
      using zeroed [OF assms(1)] True by (simp add: times_assign_def s_def del: mult_eq_0_iff)
  next
    case False
    then have nz: "sgn u \<noteq> SC_ZERO" "sgn v \<noteq> SC_ZERO" by (simp_all add: s_def mul_signs_zero)
    note u = nonzero_parts [OF uop nz(1)] and v = nonzero_parts [OF assms(2) nz(2)]
    have s: "s = sgn u * sgn v" unfolding s_def by (rule mul_signs_eq [OF u(1) v(1)])
    then have pm: "s \<in> {SC_NEG, SC_POS}" using u(1) v(1) by (auto simp: SC_NEG_def SC_POS_def)
    have V: "digits_ok (digit v)" "ndigits v = length (digit v)" "dval (digit v) < 2 ^ nbits v"
      using assms(2) by (simp_all add: operand_ok_def)
    define r where "r = mul_on_help (conv_of k) (copy_of k) s (nbits u) (length (digit u)) (digit u)
      (nbits v) (length (digit v)) (digit v)"
    have "smval (fst r) (snd r) = wrap_of k (nbits u) (val u * val v) \<and> ok_of k (nbits u) (fst r) (snd r)"
      using fmt.mul_on_help_value [OF p(1) u(3) V(1) order_refl _ _ pm, of "nbits v" k "fst r" "snd r"]
        V(3) v(3) by (simp add: r_def s u(2) v(2) mult_ac)
    from helper_result [OF assms(1) this, of s] show ?thesis
      using False p(4) V(2)
      by (simp add: times_assign_def s_def [symmetric] r_def mul_on_help_signed_def mul_on_help_unsigned_def
          conv_of_def copy_of_def split: kind.splits)
  qed
qed

theorem div_assign_value:
  assumes "number_ok k u" "operand_ok v" "val v \<noteq> 0"
  shows "\<exists>u'. div_assign k u v = Inr u' \<and> yields k u u' (val u sdiv val v)"
proof -
  note p = number_parts [OF assms(1)] and uop = number_operand [OF assms(1)]
  have nzv: "sgn v \<noteq> SC_ZERO" using assms(3) val_zero_iff [OF assms(2)] by simp
  note v = nonzero_parts [OF assms(2) nzv]
  define s where "s = mul_signs (sgn u) (sgn v)"
  show ?thesis
  proof (cases "s = SC_ZERO")
    case True
    then have "val u = 0" using val_zero_iff [OF uop] nzv by (auto simp: s_def mul_signs_zero)
    then show ?thesis
      using zeroed [OF assms(1)] True nzv by (simp add: div_assign_def s_def signed_divide_int_def)
  next
    case False
    then have nz: "sgn u \<noteq> SC_ZERO" by (simp add: s_def mul_signs_zero)
    note u = nonzero_parts [OF uop nz]
    have s: "s = sgn u * sgn v" unfolding s_def by (rule mul_signs_eq [OF u(1) v(1)])
    then have pm: "s \<in> {SC_NEG, SC_POS}" using u(1) v(1) by (auto simp: SC_NEG_def SC_POS_def)
    have V: "digits_ok (digit v)" "ndigits v = length (digit v)"
      using assms(2) by (simp_all add: operand_ok_def)
    have q: "s * int (dval (digit u) div dval (digit v)) = val u sdiv val v"
      using u v by (auto simp: s signed_divide_int_def zdiv_int sgn_mult)
    define r where "r = div_on_help (conv_of k) (copy_of k) s (nbits u) (length (digit u)) (digit u)
      (nbits v) (length (digit v)) (digit v)"
    have "smval (fst r) (snd r) = wrap_of k (nbits u) (val u sdiv val v) \<and> ok_of k (nbits u) (fst r) (snd r)"
      using fmt.div_on_help_value [OF p(1) V(1) order_refl _ pm, of k "nbits v" "fst r" "snd r"]
        v(3) by (simp add: r_def q)
    from helper_result [OF assms(1) this, of s] show ?thesis
      using False p(4) V(2)
      by (simp add: div_assign_def s_def [symmetric] r_def div_on_help_signed_def div_on_help_unsigned_def
          conv_of_def copy_of_def split: kind.splits)
  qed
qed

theorem mod_assign_value:
  assumes "number_ok k u" "operand_ok v" "val v \<noteq> 0"
  shows "\<exists>u'. mod_assign k u v = Inr u' \<and> yields k u u' (val u smod val v)"
proof -
  note p = number_parts [OF assms(1)] and uop = number_operand [OF assms(1)]
  have nzv: "sgn v \<noteq> SC_ZERO" using assms(3) val_zero_iff [OF assms(2)] by simp
  note v = nonzero_parts [OF assms(2) nzv]
  show ?thesis
  proof (cases "sgn u = SC_ZERO")
    case True
    then have "val u = 0" using val_zero_iff [OF uop] by auto
    moreover have e: "u\<lparr>sgn := SC_ZERO, digit := d\<rparr> = u\<lparr>digit := d\<rparr>" for d
      by (rule sc_number.equality) (simp_all add: True)
    ultimately show ?thesis
      using zeroed [OF assms(1), unfolded e] True nzv by (simp add: mod_assign_def signed_modulo_int_def)
  next
    case nz: False
    note u = nonzero_parts [OF uop nz]
    have pm: "sgn u \<in> {SC_NEG, SC_POS}" by (rule nonzero_sign [OF uop nz])
    have V: "digits_ok (digit v)" "ndigits v = length (digit v)"
      using assms(2) by (simp_all add: operand_ok_def)
    have q: "sgn u * int (dval (digit u) mod dval (digit v)) = val u smod val v"
      using u v by (auto simp: signed_modulo_int_def zmod_int sgn_mult)
    define r where "r = mod_on_help (copy_of k) (sgn u) (nbits u) (length (digit u)) (digit u)
      (length (digit v)) (digit v)"
    have "smval (fst r) (snd r) = wrap_of k (nbits u) (val u smod val v) \<and> ok_of k (nbits u) (fst r) (snd r)"
      using fmt.mod_on_help_value [OF p(1) _ _ V(1) order_refl _ pm, of k "fst r" "snd r"]
        v(3) assms(1) p(3) by (simp add: r_def q number_ok_def val_def)
    from helper_result [OF assms(1) this, of "sgn u"] show ?thesis
      using nz nzv p(4) V(2)
      by (simp add: mod_assign_def r_def mod_on_help_signed_def mod_on_help_unsigned_def
          copy_of_def split: kind.splits)
  qed
qed

text \<open>Division by zero: the exception leaves a number whose sign is lost, the remainder does not.\<close>

theorem division_by_zero:
  assumes "val v = 0" "operand_ok v"
  shows "div_assign k u v = Inl (u\<lparr>sgn := SC_ZERO\<rparr>)" and "mod_assign k u v = Inl u"
proof -
  have "sgn v = SC_ZERO" using assms val_zero_iff by blast
  then show "div_assign k u v = Inl (u\<lparr>sgn := SC_ZERO\<rparr>)" "mod_assign k u v = Inl u"
    by (simp_all add: div_assign_def mod_assign_def mul_signs_def)
qed

section \<open>Bitwise operators and shifts\<close>

lemma convert_2C_value:
  assumes "sized (nbits u) (digit u)" "ndigits u = length (digit u)"
  shows "yields k u (convert_2C_to_SM k u) (int (dval (digit u)))"
proof (cases k)
  case Signed
  let ?c = "convert_signed_2C_to_SM (nbits u) (length (digit u)) (digit u)"
  note c = convert_signed_2C_to_SM_value [OF assms(1), of "fst ?c" "snd ?c"]
  have "sign_ok (fst ?c) (snd ?c)" using c(3) [OF prod.collapse [symmetric]] unfolding sign_ok_def .
  then have "smval (fst ?c) (snd ?c) = wrap_of k (nbits u) (int (dval (digit u))) \<and>
      ok_of k (nbits u) (fst ?c) (snd ?c)"
    using c(1,2) signed_take_bit_range [of "nbits u" "int (dval (digit u))"] Signed
    by (simp add: wrap_of_def ok_of_def signed_ok_def)
  from yields_digits [OF assms this] show ?thesis using Signed assms(2) by (simp add: convert_2C_to_SM_def)
next
  case Unsigned
  let ?c = "convert_unsigned_2C_to_SM (nbits u) (length (digit u)) (digit u)"
  have "convert_unsigned_SM_to_2C_to_SM SC_POS (nbits u) (length (digit u)) (digit u) = ?c"
    by (simp add: convert_unsigned_SM_to_2C_to_SM_def convert_SM_to_2C_def)
  then have "smval (fst ?c) (snd ?c) = wrap_of k (nbits u) (int (dval (digit u))) \<and>
      ok_of k (nbits u) (fst ?c) (snd ?c)"
    using convert_unsigned_SM_to_2C_to_SM_value [OF assms(1), of SC_POS "fst ?c" "snd ?c"] Unsigned
    by (simp add: wrap_of_def ok_of_def)
  from yields_digits [OF assms this] show ?thesis using Unsigned assms(2) by (simp add: convert_2C_to_SM_def)
qed

text \<open>New digits in two's complement that are right modulo all bits of the vector.\<close>

lemma digits_2C_value:
  assumes "number_ok k u" "digits_ok d" "length d = length (digit u)"
    "int (dval d) = x mod 2 ^ (30 * length (digit u))"
  shows "yields k u (convert_2C_to_SM k (u\<lparr>digit := d\<rparr>)) x"
proof -
  note p = number_parts [OF assms(1)]
  have "yields k (u\<lparr>digit := d\<rparr>) (convert_2C_to_SM k (u\<lparr>digit := d\<rparr>))
      (int (dval (digit (u\<lparr>digit := d\<rparr>))))"
    using p(1,4) assms(2,3) by (intro convert_2C_value) (simp_all add: sized_def)
  moreover have "wrap_of k (nbits u) (int (dval d)) = wrap_of k (nbits u) x"
    using assms(4) by (intro wrap_mod_cong [OF _ p(5,6)]) simp
  ultimately show ?thesis by (simp add: yields_def)
qed

theorem and_assign_value:
  assumes "number_ok k u" "operand_ok v"
  shows "yields k u (and_assign k u v) (val u AND val v)"
proof (cases "sgn u = SC_ZERO \<or> sgn v = SC_ZERO")
  case True
  then have "val u AND val v = 0"
    using val_zero_iff [OF number_operand [OF assms(1)]] val_zero_iff [OF assms(2)] by auto
  then show ?thesis
    using True zeroed [OF assms(1)] by (simp add: and_assign_def makezero_def make_zero_def with_digits_def)
next
  case False
  note p = number_parts [OF assms(1)] and uop = number_operand [OF assms(1)]
  have v: "digits_ok (digit v)" "ndigits v = length (digit v)" using assms(2) by (simp_all add: operand_ok_def)
  note o = and_op.on_help_value [OF p(7) v(1) order_refl nonzero_sign [OF uop] nonzero_sign [OF assms(2)]]
  show ?thesis
    using False o digits_2C_value [OF assms(1) o(2,3)]
    by (simp add: and_assign_def and_on_help_def and_cases_def p(4) v(2) val_def)
qed

theorem or_assign_value:
  assumes "number_ok k u" "operand_ok v"
  shows "yields k u (or_assign k u v) (val u OR val v)"
proof -
  note p = number_parts [OF assms(1)] and uop = number_operand [OF assms(1)]
  have v: "digits_ok (digit v)" "ndigits v = length (digit v)" using assms(2) by (simp_all add: operand_ok_def)
  note o = or_op.on_help_value [OF p(7) v(1) order_refl nonzero_sign [OF uop] nonzero_sign [OF assms(2)]]
  note z = val_zero_iff [OF uop] val_zero_iff [OF assms(2)]
  consider "val v = 0" | "val v \<noteq> 0" "val u = 0" | "val v \<noteq> 0" "val u \<noteq> 0" by blast
  then show ?thesis
  proof cases
    case 3
    then show ?thesis
      using o digits_2C_value [OF assms(1) o(2,3)] z
      by (simp add: or_assign_def or_on_help_def or_cases_def p(4) v(2) val_def [of u] val_def [of v])
  qed (use assign_value [OF assms] unchanged [OF assms(1)] z in \<open>simp_all add: or_assign_def\<close>)
qed

theorem xor_assign_value:
  assumes "number_ok k u" "operand_ok v"
  shows "yields k u (xor_assign k u v) (val u XOR val v)"
proof -
  note p = number_parts [OF assms(1)] and uop = number_operand [OF assms(1)]
  have v: "digits_ok (digit v)" "ndigits v = length (digit v)" using assms(2) by (simp_all add: operand_ok_def)
  note o = xor_op.on_help_value [OF p(7) v(1) order_refl nonzero_sign [OF uop] nonzero_sign [OF assms(2)]]
  note z = val_zero_iff [OF uop] val_zero_iff [OF assms(2)]
  consider "val v = 0" | "val v \<noteq> 0" "val u = 0" | "val v \<noteq> 0" "val u \<noteq> 0" by blast
  then show ?thesis
  proof cases
    case 3
    then show ?thesis
      using o digits_2C_value [OF assms(1) o(2,3)] z
      by (simp add: xor_assign_def xor_on_help_def xor_cases_def p(4) v(2) val_def [of u] val_def [of v])
  qed (use assign_value [OF assms] unchanged [OF assms(1)] z in \<open>simp_all add: xor_assign_def\<close>)
qed

lemma SM_to_2C_value:
  assumes "number_ok k u"
  defines "d \<equiv> digit (number_SM_to_2C u)"
  shows "int (dval d) = val u mod 2 ^ (30 * length (digit u))" "digits_ok d" "length d = length (digit u)"
  using convert_SM_to_2C_value [OF number_parts(7) [OF assms(1)], of "sgn u"] number_parts(4) [OF assms(1)]
  by (simp_all add: d_def number_SM_to_2C_def val_def)

lemma SM_to_2C_fields [simp]:
  "sgn (number_SM_to_2C u) = sgn u" "ndigits (number_SM_to_2C u) = ndigits u"
  "number_SM_to_2C u\<lparr>digit := d\<rparr> = u\<lparr>digit := d\<rparr>"
  by (simp_all add: number_SM_to_2C_def)

theorem shl_assign_value:
  assumes "number_ok k u"
  shows "yields k u (shl_assign k u v) (val u * 2 ^ nat (int_of_ulong v))"
proof -
  note p = number_parts [OF assms] and c = SM_to_2C_value [OF assms]
  consider "v = 0" | "sgn u = SC_ZERO" | "v \<noteq> 0" "sgn u \<noteq> SC_ZERO" by blast
  then show ?thesis
  proof cases
    case 1
    then show ?thesis using unchanged [OF assms] by (simp add: shl_assign_def int_of_ulong_def)
  next
    case 2
    then show ?thesis
      using unchanged [OF assms] val_zero_iff [OF number_operand [OF assms]] by (simp add: shl_assign_def)
  next
    case 3
    let ?d = "vec_shift_left (length (digit u)) (digit (number_SM_to_2C u)) (int_of_ulong v)"
      and ?m = "30 * length (digit u)" and ?p = "2 ^ nat (int_of_ulong v) :: int"
    note l = vec_shift_left_value [OF c(2), of "int_of_ulong v", unfolded c(3)]
    have "int (dval ?d) = ?p * (val u mod 2 ^ ?m) mod 2 ^ ?m"
      using l(1) by (simp add: zmod_int radix_power c(1))
    then have "int (dval ?d) = val u * ?p mod 2 ^ ?m" by (simp add: mod_mult_right_eq mult.commute)
    from digits_2C_value [OF assms l(2,3) this] show ?thesis
      using 3 p(4) by (simp add: shl_assign_def)
  qed
qed

theorem shr_assign_value:
  assumes "number_ok k u"
  shows "yields k u (shr_assign k u v) (val u div 2 ^ nat (int_of_ulong v))"
proof -
  note p = number_parts [OF assms] and c = SM_to_2C_value [OF assms]
  consider "v = 0" | "sgn u = SC_ZERO" | "v \<noteq> 0" "sgn u \<noteq> SC_ZERO" by blast
  then show ?thesis
  proof cases
    case 1
    then show ?thesis using unchanged [OF assms] by (simp add: shr_assign_def int_of_ulong_def)
  next
    case 2
    then show ?thesis
      using unchanged [OF assms] val_zero_iff [OF number_operand [OF assms]] by (simp add: shr_assign_def)
  next
    case 3
    let ?neg = "sgn u = SC_NEG" and ?k = "nat (int_of_ulong v)" and ?m = "30 * length (digit u)"
    let ?x = "digit (number_SM_to_2C u)" and ?R = "radix ^ length (digit u)"
    let ?d = "vec_shift_right (length (digit u)) ?x (int_of_ulong v) (if ?neg then DIGIT_MASK else 0)"
    note nz = nonzero_parts [OF number_operand [OF assms] 3(2)]
    note r = vec_shift_right_value [OF c(2), of "int_of_ulong v" ?neg, unfolded c(3)]
    have less: "dval (digit u) < ?R" using dval_less [OF p(7)] by simp
    have R: "int ?R = 2 ^ ?m" by (simp add: radix_power)
    have "int (dval ?d) = (val u div 2 ^ ?k) mod 2 ^ ?m"
    proof (cases ?neg)
      case True
      then have "val u = - int (dval (digit u))" by (simp add: val_def)
      then have "val u < 0" "- int ?R \<le> val u" using nz(3) less by linarith+
      from shifted_right_negative [OF this(1) _ this(2), of "dval ?x" ?k] show ?thesis
        using r(1) c(1) True R by simp
    next
      case False
      then have "val u = int (dval (digit u))" by (simp add: val_def smval_def)
      moreover from this have "int (dval ?x) = val u"
        using less c(1) R by (simp flip: R)
      moreover have "dval (digit u) div 2 ^ ?k < ?R" by (rule le_less_trans [OF div_le_dividend less])
      then have "int (dval (digit u) div 2 ^ ?k) mod int ?R = int (dval (digit u) div 2 ^ ?k)"
        by (simp only: mod_pos_pos_trivial of_nat_0_le_iff of_nat_less_iff)
      ultimately show ?thesis
        using r(1) False R by (simp add: shifted_right_def zdiv_int)
    qed
    from digits_2C_value [OF assms r(2,3) this] show ?thesis
      using 3 p(4) by (simp add: shr_assign_def)
  qed
qed

end
