(* ===== verification/Dt_Friends.thy ===== *)
theory Dt_Friends
  imports Dt_Number
begin

text \<open>
  The operators of \<^verbatim>\<open>sc_signed\<close> that make a new number: the helpers of
  datatypes/int/sc_nbfriends.inc and the operators of sc_signed.cpp that call them.  Here nothing is
  wrapped: the result has as many bits as the operator gives it and
  its value is exact.  Whether the value also lies in the range of these bits is a separate
  statement, which fails for the quotient of the least number by minus one and for the negation
  of the least number.

  \<^verbatim>\<open>CLASS_TYPE()\<close> is a zero of the length that the current \<^verbatim>\<open>sc_length_param\<close> says; it is
  the argument \<open>zero\<close>.
\<close>

unbundle bit_operations_syntax

section \<open>The helpers\<close>

definition ADD_HELPER ::
  "kind \<Rightarrow> sc_number \<Rightarrow> int \<Rightarrow> nat \<Rightarrow> nat \<Rightarrow> digits \<Rightarrow> int \<Rightarrow> nat \<Rightarrow> nat \<Rightarrow> digits \<Rightarrow> sc_number" where
  "ADD_HELPER k zero us unb und ud vs vnb vnd vd =
     (let und = vec_skip_leading_zeros und ud;
          vnd = vec_skip_leading_zeros vnd vd;
          nb = max unb vnb;
          nd = max und vnd + 1;
          d = replicate nd 0
      in if us = vs then
           number_from_parts k us (nb + 1) nd
             (if und = 1 \<and> vnd = 1 then
                let carry = ud ! 0 + vd ! 0
                in d[0 := carry AND DIGIT_MASK, 1 := drop_bit BITS_PER_DIGIT carry]
              else if vnd \<le> und then vec_add und ud vnd vd d
              else vec_add vnd vd und ud d)
         else
           let cmp_res = vec_cmp und ud vnd vd
           in if cmp_res = 0 then zero
              else if 0 < cmp_res then
                number_from_parts k us nb nd
                  (if und = 1 \<and> vnd = 1 then d[0 := ud ! 0 - vd ! 0] else vec_sub und ud vnd vd d)
              else
                number_from_parts k (- us) nb nd
                  (if und = 1 \<and> vnd = 1 then d[0 := vd ! 0 - ud ! 0] else vec_sub vnd vd und ud d))"

definition MUL_HELPER ::
  "kind \<Rightarrow> int \<Rightarrow> nat \<Rightarrow> nat \<Rightarrow> digits \<Rightarrow> nat \<Rightarrow> nat \<Rightarrow> digits \<Rightarrow> sc_number" where
  "MUL_HELPER k s unb und ud vnb vnd vd =
     (let und = vec_skip_leading_zeros und ud;
          vnd = vec_skip_leading_zeros vnd vd;
          nd = und + vnd;
          d = replicate nd 0;
          ud0 = ud ! 0;
          vd0 = vd ! 0
      in number_from_parts k s (unb + vnb) nd
           (if vnd = 1 \<and> vd0 = 1 then vec_copy und d ud
            else if und = 1 \<and> ud0 = 1 then vec_copy vnd d vd
            else if und = 1 \<and> vnd = 1 \<and> ud0 < HALF_DIGIT_RADIX \<and> vd0 < HALF_DIGIT_RADIX
              then d[0 := ud0 * vd0]
            else if und = 1 \<and> ud0 < HALF_DIGIT_RADIX then vec_mul_small vnd vd ud0 d
            else if vnd = 1 \<and> vd0 < HALF_DIGIT_RADIX then vec_mul_small und ud vd0 d
            else if vnd < und then vec_mul und ud vnd vd d
            else vec_mul vnd vd und ud d))"

definition DIV_HELPER ::
  "kind \<Rightarrow> sc_number \<Rightarrow> int \<Rightarrow> nat \<Rightarrow> nat \<Rightarrow> digits \<Rightarrow> nat \<Rightarrow> nat \<Rightarrow> digits \<Rightarrow> sc_number" where
  "DIV_HELPER k zero s unb und ud vnb vnd vd =
     (let und = vec_skip_leading_zeros und ud;
          vnd = vec_skip_leading_zeros vnd vd;
          cmp_res = vec_cmp und ud vnd vd
      in if cmp_res < 0 then zero
         else
           let nd = max und vnd + 1;
               d = replicate nd 0;
               vd0 = vd ! 0
           in number_from_parts k s (max unb vnb) (nd - 1)
                (if cmp_res = 0 then d[0 := 1]
                 else if vnd = 1 \<and> vd0 = 1 then vec_copy und d ud
                 else if vnd = 1 \<and> und = 1 then d[0 := ud ! 0 div vd0]
                 else if vnd = 1 \<and> vd0 < HALF_DIGIT_RADIX then vec_div_small und ud vd0 d
                 else vec_div_large und ud vnd vd d))"

definition MOD_HELPER ::
  "kind \<Rightarrow> sc_number \<Rightarrow> int \<Rightarrow> nat \<Rightarrow> nat \<Rightarrow> digits \<Rightarrow> nat \<Rightarrow> nat \<Rightarrow> digits \<Rightarrow> sc_number" where
  "MOD_HELPER k zero us unb und ud vnb vnd vd =
     (let und = vec_skip_leading_zeros und ud;
          vnd = vec_skip_leading_zeros vnd vd;
          cmp_res = vec_cmp und ud vnd vd;
          vd0 = vd ! 0
      in if cmp_res = 0 then zero
         else if 0 < cmp_res \<and> vnd = 1 \<and> vd0 = 1 then zero
         else
           let nd = max und vnd + 1;
               d = replicate nd 0;
               d = (if cmp_res < 0 then vec_copy und d ud
                    else if vnd = 1 \<and> und = 1 then d[0 := ud ! 0 mod vd0]
                    else if vnd = 1 \<and> vd0 < HALF_DIGIT_RADIX then d[0 := vec_rem_small und ud vd0]
                    else vec_rem_large und ud vnd vd d);
               us = check_for_zero us (nd - 1) d
           in if us = SC_ZERO then zero
              else number_from_parts k us (min unb vnb) (nd - 1) d)"

section \<open>The operators of signed numbers\<close>

definition number_with_sign :: "sc_number \<Rightarrow> int \<Rightarrow> sc_number" where
  "number_with_sign v s = v\<lparr>sgn := s, digit := vec_copy (ndigits v) (replicate (ndigits v) 0) (digit v)\<rparr>"

definition plus_number :: "sc_number \<Rightarrow> sc_number \<Rightarrow> sc_number \<Rightarrow> sc_number" where
  "plus_number zero u v =
     (if sgn u = SC_ZERO then v
      else if sgn v = SC_ZERO then u
      else ADD_HELPER Signed zero (sgn u) (nbits u) (ndigits u) (digit u)
             (sgn v) (nbits v) (ndigits v) (digit v))"

definition minus_number :: "sc_number \<Rightarrow> sc_number \<Rightarrow> sc_number \<Rightarrow> sc_number" where
  "minus_number zero u v =
     (if sgn v = SC_ZERO then u
      else if sgn u = SC_ZERO then number_with_sign v (- sgn v)
      else ADD_HELPER Signed zero (sgn u) (nbits u) (ndigits u) (digit u)
             (- sgn v) (nbits v) (ndigits v) (digit v))"

definition times_number :: "sc_number \<Rightarrow> sc_number \<Rightarrow> sc_number \<Rightarrow> sc_number" where
  "times_number zero u v =
     (let s = mul_signs (sgn u) (sgn v)
      in if s = SC_ZERO then zero
         else MUL_HELPER Signed s (nbits u) (ndigits u) (digit u) (nbits v) (ndigits v) (digit v))"

text \<open>\<open>None\<close> is the report of a division by zero.\<close>

definition divide_number :: "sc_number \<Rightarrow> sc_number \<Rightarrow> sc_number \<Rightarrow> sc_number option" where
  "divide_number zero u v =
     (let s = mul_signs (sgn u) (sgn v)
      in if s = SC_ZERO then if sgn v = SC_ZERO then None else Some zero
         else Some (DIV_HELPER Signed zero s (nbits u) (ndigits u) (digit u)
                      (nbits v) (ndigits v) (digit v)))"

definition modulo_number :: "sc_number \<Rightarrow> sc_number \<Rightarrow> sc_number \<Rightarrow> sc_number option" where
  "modulo_number zero u v =
     (if sgn u = SC_ZERO \<or> sgn v = SC_ZERO then if sgn v = SC_ZERO then None else Some zero
      else Some (MOD_HELPER Signed zero (sgn u) (nbits u) (ndigits u) (digit u)
                   (nbits v) (ndigits v) (digit v)))"

definition negate_number :: "sc_number \<Rightarrow> sc_number" where
  "negate_number u = number_with_sign u (- sgn u)"

section \<open>Numbers from their parts\<close>

text \<open>A number with the sign \<open>s\<close>, the magnitude \<open>m\<close> and \<open>nb\<close> bits; it need not lie in their range.\<close>

definition holds :: "sc_number \<Rightarrow> nat \<Rightarrow> int \<Rightarrow> bool" where
  "holds r nb x \<longleftrightarrow> val r = x \<and> nbits r = nb \<and> (number_ok Signed r \<longleftrightarrow> in_range nb x)"

lemma number_from_parts_holds:
  assumes "0 < nb" "digits_ok d" "nd \<le> length d" "dval (take nd d) = m" "m \<noteq> 0" "m \<le> 2 ^ (nb - 1)"
    and "s = 1 \<or> s = - 1"
  shows "holds (number_from_parts Signed s nb nd d) nb (s * int m)"
proof -
  let ?n = "DIV_CEIL nb" and ?r = "number_from_parts Signed s nb nd d"
  have n: "nb \<le> 30 * ?n" using \<open>0 < nb\<close> by (simp add: DIV_CEIL_def digit_consts)
  have "(2 :: nat) ^ (nb - 1) < 2 ^ nb" using \<open>0 < nb\<close> by (intro power_strict_increasing) auto
  also have "(2 :: nat) ^ nb \<le> 2 ^ (30 * ?n)" using n by (intro power_increasing) auto
  finally have "m < 2 ^ (30 * ?n)" by (rule le_less_trans [OF \<open>m \<le> 2 ^ (nb - 1)\<close>])
  then have less: "m < radix ^ ?n" by (simp add: radix_power)
  have "dval (digit ?r) = m \<and> digits_ok (digit ?r) \<and> length (digit ?r) = ?n"
  proof (cases "?n \<le> nd")
    case True
    have "dval (take ?n d) = dval (take nd d) mod radix ^ ?n"
      using dval_take [of "take nd d" ?n] assms(2) True by (simp add: min_absorb1)
    then show ?thesis using True assms(2-4) less
      by (simp add: number_from_parts_def num_bits_def Let_def vec_copy_eq)
  next
    case False
    then show ?thesis using assms(2-4)
      by (simp add: number_from_parts_def num_bits_def Let_def vec_copy_and_zero_eq)
  qed
  moreover have "nbits ?r = nb" "sgn ?r = s" "ndigits ?r = ?n"
    by (simp_all add: number_from_parts_def num_bits_def Let_def)
  moreover have "- (2 ^ (nb - 1)) \<le> int y" for y
    by (rule order_trans [of _ 0]) simp_all
  ultimately show ?thesis
    using assms(1,5,7)
    by (auto simp: holds_def val_def number_ok_def ok_of_def signed_ok_def sized_def sign_ok_def
        in_range_def smval_def SC_NEG_def SC_POS_def SC_ZERO_def)
qed

lemma number_from_all_holds:
  assumes "dval d = m" "digits_ok d" "length d = nd" "0 < nb" "m \<noteq> 0" "m \<le> 2 ^ (nb - 1)" "s = 1 \<or> s = - 1"
  shows "holds (number_from_parts Signed s nb nd d) nb (s * int m)"
  using assms by (intro number_from_parts_holds) simp_all

lemma holds_self: "number_ok Signed v \<Longrightarrow> val v = x \<Longrightarrow> holds v (nbits v) x"
  using number_parts(3) [of Signed v] by (simp add: holds_def)

lemma number_with_sign_holds:
  assumes "number_ok Signed v"
  shows "holds (number_with_sign v (- sgn v)) (nbits v) (- val v)"
proof -
  note p = number_parts [OF assms]
  have "number_with_sign v (- sgn v) = v\<lparr>sgn := - sgn v\<rparr>"
    using p(4) by (simp add: number_with_sign_def vec_copy_eq)
  then show ?thesis using p(1,2,4)
    by (auto simp: holds_def val_def number_ok_def ok_of_def signed_ok_def sign_ok_def
        in_range_def smval_def SC_NEG_def SC_POS_def SC_ZERO_def)
qed

lemma range_magnitude:
  assumes "number_ok Signed u"
  shows "dval (digit u) \<le> 2 ^ (nbits u - 1)"
proof -
  have "int (dval (digit u)) \<le> 2 ^ (nbits u - 1)"
    using number_parts(3) [OF assms] by (auto simp: in_range_def val_def smval_def split: if_splits)
  also have "\<dots> = int (2 ^ (nbits u - 1))" by simp
  finally show ?thesis by (simp only: of_nat_le_iff)
qed

section \<open>The magnitudes\<close>

text \<open>What all helpers do first.\<close>

lemma skipped:
  assumes "digits_ok u" "dval u \<noteq> 0"
  defines "m \<equiv> vec_skip_leading_zeros (length u) u"
  shows "m \<le> length u" "dval (take m u) = dval u" "normal m u" "0 < m"
    "m = 1 \<Longrightarrow> unat (u ! 0) = dval u" "dval u < radix ^ m"
proof -
  show m: "m \<le> length u" "dval (take m u) = dval u" "normal m u"
    using skip_le dval_skip [of "length u" u] by (simp_all add: m_def)
  then show "0 < m" using assms(2) by (auto intro: gr0I)
  with m show "unat (u ! 0) = dval u" if "m = 1" using that by (cases u) auto
  show "dval u < radix ^ m" using dval_less [of "take m u"] m assms(1) by simp
qed

lemma one_digit_sum:
  assumes "unat a < radix" "unat b < radix"
  shows "dval ((replicate 2 0)[0 := (a + b) AND DIGIT_MASK, 1 := drop_bit BITS_PER_DIGIT (a + b)]) =
      unat a + unat b \<and>
    digits_ok ((replicate 2 0)[0 := (a + b) AND DIGIT_MASK, 1 := drop_bit BITS_PER_DIGIT (a + b)])"
proof -
  have s: "unat (a + b) = unat a + unat b" using assms by (intro unat_plus_eq) simp
  have "unat ((a + b) AND DIGIT_MASK) = (unat a + unat b) mod radix"
    using and_mask_unat [of "a + b" 30] by (simp add: digit_mask s)
  moreover have "unat (drop_bit BITS_PER_DIGIT (a + b)) = (unat a + unat b) div radix"
    by (simp add: unat_drop_bit s BITS_PER_DIGIT_def)
  moreover have "(unat a + unat b) div radix < radix" using assms by (simp add: div_less_iff_less_mult)
  ultimately show ?thesis by (simp add: numeral_2_eq_2)
qed

lemma unat_digit_diff: "unat b \<le> unat a \<Longrightarrow> unat (a - b :: digit) = unat a - unat b"
  by (intro unat_minus_eq)

text \<open>The digits of a sum and of a difference, in vectors of the size the helper allocates.\<close>

lemma sum_digits:
  assumes "digits_ok u" "digits_ok v" "m \<le> length u" "n \<le> length v" "0 < m" "0 < n"
    and one: "m = 1 \<Longrightarrow> unat (u ! 0) = dval (take m u)" "n = 1 \<Longrightarrow> unat (v ! 0) = dval (take n v)"
  defines "z \<equiv> replicate (max m n + 1) 0"
  defines "d \<equiv> if m = 1 \<and> n = 1 then z[0 := (u ! 0 + v ! 0) AND DIGIT_MASK, 1 := drop_bit BITS_PER_DIGIT (u ! 0 + v ! 0)]
     else if n \<le> m then vec_add m u n v z else vec_add n v m u z"
  shows "dval d = dval (take m u) + dval (take n v)" "digits_ok d" "length d = max m n + 1"
proof -
  have z: "dval (drop k z) = 0" "digits_ok z" for k
    by (simp_all only: z_def drop_replicate dval_zeros digits_ok_simps)
  consider "m = 1 \<and> n = 1" | "\<not> (m = 1 \<and> n = 1)" "n \<le> m" | "\<not> (m = 1 \<and> n = 1)" "\<not> n \<le> m" by blast
  then have "dval d = dval (take m u) + dval (take n v) \<and> digits_ok d \<and> length d = max m n + 1"
  proof cases
    case 1
    have "unat (u ! 0) < radix" "unat (v ! 0) < radix"
      using assms(1-6) digits_ok_nth [of u 0] digits_ok_nth [of v 0] by linarith+
    from one_digit_sum [OF this] 1 one show ?thesis by (simp add: d_def z_def numeral_2_eq_2)
  next
    case 2
    then have "d = vec_add m u n v z" unfolding d_def if_not_P [OF 2(1)] by simp
    then show ?thesis using vec_add_value [OF 2(2) assms(3,4) _ assms(1,2) z(2,1)] 2 by (simp add: z_def)
  next
    case 3
    then have "d = vec_add n v m u z" unfolding d_def if_not_P [OF 3(1)] by simp
    then show ?thesis using vec_add_value [OF _ assms(4,3) _ assms(2,1) z(2,1)] 3 by (simp add: z_def)
  qed
  then show "dval d = dval (take m u) + dval (take n v)" "digits_ok d" "length d = max m n + 1" by blast+
qed

lemma difference_digits:
  assumes "digits_ok u" "digits_ok v" "m \<le> length u" "n \<le> length v" "0 < m" "0 < n"
    and one: "m = 1 \<Longrightarrow> unat (u ! 0) = dval (take m u)" "n = 1 \<Longrightarrow> unat (v ! 0) = dval (take n v)"
    and le: "dval (take n v) < dval (take m u)" "n \<le> m"
  defines "z \<equiv> replicate (max m n + 1) 0"
  defines "d \<equiv> if m = 1 \<and> n = 1 then z[0 := u ! 0 - v ! 0] else vec_sub m u n v z"
  shows "dval d = dval (take m u) - dval (take n v)" "digits_ok d" "length d = max m n + 1"
proof -
  have z: "dval (drop k z) = 0" "digits_ok z" for k
    by (simp_all only: z_def drop_replicate dval_zeros digits_ok_simps)
  have "dval d = dval (take m u) - dval (take n v) \<and> digits_ok d \<and> length d = max m n + 1"
  proof (cases "m = 1 \<and> n = 1")
    case True
    then have "unat (u ! 0 - v ! 0) = dval (take m u) - dval (take n v)"
      using one le unat_digit_diff [of "v ! 0" "u ! 0"] by simp
    moreover have "unat (u ! 0) < radix" using assms(1,3,5) digits_ok_nth [of u 0] by linarith
    ultimately show ?thesis
      using True one one_digit [of "max m n + 1" "u ! 0 - v ! 0"] by (simp add: d_def z_def)
  next
    case False
    then have "d = vec_sub m u n v z" unfolding d_def by (rule if_not_P)
    then show ?thesis using vec_sub_value [OF le(2) assms(3,4) _ assms(1,2) z(2,1)] le by (simp add: z_def)
  qed
  then show "dval d = dval (take m u) - dval (take n v)" "digits_ok d" "length d = max m n + 1" by blast+
qed

text \<open>
  The helper of addition: the exact sum, in one bit more than the operands when the signs agree.
\<close>

lemma ADD_HELPER_holds:
  fixes zero :: sc_number
  assumes u: "number_ok Signed u" "sgn u \<noteq> SC_ZERO" and v: "number_ok Signed v" "sgn v \<noteq> SC_ZERO"
    and vs: "vs = sgn v \<or> vs = - sgn v"
  defines "r \<equiv> ADD_HELPER Signed zero (sgn u) (nbits u) (ndigits u) (digit u) vs (nbits v) (ndigits v) (digit v)"
    and "x \<equiv> val u + vs * int (dval (digit v))"
  shows "x = 0 \<and> r = zero \<or> holds r (max (nbits u) (nbits v) + (if sgn u = vs then 1 else 0)) x"
proof -
  note pu = number_parts [OF u(1)] and pv = number_parts [OF v(1)]
  note nu = nonzero_parts [OF number_operand [OF u(1)] u(2)]
    and nv = nonzero_parts [OF number_operand [OF v(1)] v(2)]
  define m n where "m = vec_skip_leading_zeros (length (digit u)) (digit u)"
    and "n = vec_skip_leading_zeros (length (digit v)) (digit v)"
  note sm = skipped [OF pu(7) nu(3), folded m_def] and sn = skipped [OF pv(7) nv(3), folded n_def]
  let ?ud = "digit u" and ?vd = "digit v" and ?nb = "max (nbits u) (nbits v)"
  let ?U = "dval ?ud" and ?V = "dval ?vd" and ?nd = "max m n + 1"
  define cmp where "cmp = vec_cmp m ?ud n ?vd"
  note c = vec_cmp_eq [OF sm(3) sn(3) pu(7) pv(7), unfolded sm(2) sn(2), folded cmp_def]
  have r: "r = (if sgn u = vs then
        number_from_parts Signed (sgn u) (?nb + 1) ?nd
          (if m = 1 \<and> n = 1 then (replicate ?nd 0)
             [0 := (?ud ! 0 + ?vd ! 0) AND DIGIT_MASK, 1 := drop_bit BITS_PER_DIGIT (?ud ! 0 + ?vd ! 0)]
           else if n \<le> m then vec_add m ?ud n ?vd (replicate ?nd 0)
           else vec_add n ?vd m ?ud (replicate ?nd 0))
      else if cmp = 0 then zero
      else if 0 < cmp then
        number_from_parts Signed (sgn u) ?nb ?nd
          (if m = 1 \<and> n = 1 then (replicate ?nd 0)[0 := ?ud ! 0 - ?vd ! 0]
           else vec_sub m ?ud n ?vd (replicate ?nd 0))
      else
        number_from_parts Signed (- sgn u) ?nb ?nd
          (if m = 1 \<and> n = 1 then (replicate ?nd 0)[0 := ?vd ! 0 - ?ud ! 0]
           else vec_sub n ?vd m ?ud (replicate ?nd 0)))"
    unfolding r_def ADD_HELPER_def Let_def pu(4) pv(4) m_def n_def cmp_def by simp
  have UV: "?U \<le> 2 ^ (?nb - 1)" "?V \<le> 2 ^ (?nb - 1)"
    using range_magnitude [OF u(1)] range_magnitude [OF v(1)]
      power_increasing [of "nbits u - 1" "?nb - 1" "2 :: nat"]
      power_increasing [of "nbits v - 1" "?nb - 1" "2 :: nat"] by linarith+
  have nb: "0 < ?nb" using pu(5) by simp
  have vs1: "vs = 1 \<or> vs = - 1" using vs nv(1) by auto
  have shorter: "?V < ?U \<Longrightarrow> n \<le> m" "?U < ?V \<Longrightarrow> m \<le> n"
    using normal_length_less [OF sm(3) sn(3) pu(7)] normal_length_less [OF sn(3) sm(3) pv(7)] sm(2) sn(2)
    by (metis leI less_asym)+
  show ?thesis
  proof (cases "sgn u = vs")
    case True
    note d = sum_digits [OF pu(7) pv(7) sm(1) sn(1) sm(4) sn(4), unfolded sm(2) sn(2), OF sm(5) sn(5)]
    have "(2 :: nat) ^ (?nb + 1 - 1) = 2 * 2 ^ (?nb - 1)" using nb by (simp flip: power_Suc)
    then have "?U + ?V \<le> 2 ^ (?nb + 1 - 1)" using UV by linarith
    from number_from_all_holds [OF d _ _ this nu(1)] nu(3)
    have "holds r (?nb + 1) (sgn u * int (?U + ?V))" using True by (simp add: r)
    then show ?thesis using True nu(2) by (simp add: x_def distrib_left)
  next
    case False
    then have x: "x = sgn u * (int ?U - int ?V)" using vs1 nu(1,2) by (auto simp: x_def)
    consider "?U = ?V" | "?V < ?U" | "?U < ?V" by linarith
    then show ?thesis
    proof cases
      case 1
      then show ?thesis using False c(1) x by (simp add: r)
    next
      case 2
      then have "n \<le> m" by (rule shorter(1))
      note d = difference_digits [OF pu(7) pv(7) sm(1) sn(1) sm(4) sn(4), unfolded sm(2) sn(2),
          OF sm(5) sn(5) 2 this]
      have cs: "cmp \<noteq> 0" "0 < cmp" using 2 c by auto
      have "?U - ?V \<noteq> 0" "?U - ?V \<le> 2 ^ (?nb - 1)" using 2 UV by linarith+
      from number_from_all_holds [OF d nb this nu(1)]
      have "holds r ?nb (sgn u * int (?U - ?V))"
        unfolding r if_not_P [OF False] if_not_P [OF cs(1)] if_P [OF cs(2)] .
      then show ?thesis using False 2 by (simp add: x of_nat_diff)
    next
      case 3
      then have "m \<le> n" by (rule shorter(2))
      note d = difference_digits [OF pv(7) pu(7) sn(1) sm(1) sn(4) sm(4), unfolded sm(2) sn(2),
          OF sn(5) sm(5) 3 this]
      have sign: "- sgn u = 1 \<or> - sgn u = - 1" using nu(1) by auto
      have cs: "cmp \<noteq> 0" "\<not> 0 < cmp" using 3 c by auto
      have "?V - ?U \<noteq> 0" "?V - ?U \<le> 2 ^ (?nb - 1)" using 3 UV by linarith+
      from number_from_all_holds [OF d nb this sign]
      have "holds r ?nb (- sgn u * int (?V - ?U))"
        unfolding r if_not_P [OF False] if_not_P [OF cs(1)] if_not_P [OF cs(2)]
          max.commute [of n m] conj_commute [of "n = 1"] .
      then show ?thesis using False 3 by (simp add: x of_nat_diff algebra_simps)
    qed
  qed
qed

section \<open>Products, quotients and remainders\<close>

lemma copy_to_zeros:
  "m \<le> nd \<Longrightarrow> m \<le> length u \<Longrightarrow> vec_copy m (replicate nd 0) u = take m u @ replicate (nd - m) 0"
  using vec_copy_eq [of m "replicate nd 0" u] by (simp only: length_replicate drop_replicate)

text \<open>The products go through some more branches than in place.\<close>

lemma product_branches:
  fixes u v :: digits
  assumes ok: "digits_ok u" "digits_ok v" and m: "m \<le> length u" "0 < m" and n: "n \<le> length v" "0 < n"
    and one: "m = 1 \<Longrightarrow> unat (u ! 0) = dval (take m u)" "n = 1 \<Longrightarrow> unat (v ! 0) = dval (take n v)"
  defines "z \<equiv> replicate (m + n) (0 :: digit)"
  defines "d \<equiv> if n = 1 \<and> v ! 0 = 1 then vec_copy m z u
    else if m = 1 \<and> u ! 0 = 1 then vec_copy n z v
    else if m = 1 \<and> n = 1 \<and> u ! 0 < HALF_DIGIT_RADIX \<and> v ! 0 < HALF_DIGIT_RADIX then z[0 := u ! 0 * v ! 0]
    else if m = 1 \<and> u ! 0 < HALF_DIGIT_RADIX then vec_mul_small n v (u ! 0) z
    else if n = 1 \<and> v ! 0 < HALF_DIGIT_RADIX then vec_mul_small m u (v ! 0) z
    else if n < m then vec_mul m u n v z
    else vec_mul n v m u z"
  shows "dval d = dval (take m u) * dval (take n v) \<and> digits_ok d \<and> length d = m + n"
proof -
  consider "n = 1 \<and> v ! 0 = 1" | "\<not> (n = 1 \<and> v ! 0 = 1)" "m = 1 \<and> u ! 0 = 1"
    | "\<not> (n = 1 \<and> v ! 0 = 1)" "\<not> (m = 1 \<and> u ! 0 = 1)"
      "m = 1 \<and> n = 1 \<and> u ! 0 < HALF_DIGIT_RADIX \<and> v ! 0 < HALF_DIGIT_RADIX"
    | "\<not> (n = 1 \<and> v ! 0 = 1)" "\<not> (m = 1 \<and> u ! 0 = 1)"
      "\<not> (m = 1 \<and> n = 1 \<and> u ! 0 < HALF_DIGIT_RADIX \<and> v ! 0 < HALF_DIGIT_RADIX)" by blast
  then show ?thesis
  proof cases
    case 1
    then have "d = take m u @ replicate n 0"
      using copy_to_zeros [of m "m + n" u] m by (simp only: d_def if_P [OF 1] z_def) simp
    then show ?thesis using 1 one(2) ok m by auto
  next
    case 2
    then have "d = take n v @ replicate m 0"
      using copy_to_zeros [of n "m + n" v] n
      by (simp only: d_def if_not_P [OF 2(1)] if_P [OF 2(2)] z_def) simp
    then show ?thesis using 2(2) one(1) ok n by auto
  next
    case 3
    have d: "d = z[0 := u ! 0 * v ! 0]"
      unfolding d_def if_not_P [OF 3(1)] if_not_P [OF 3(2)] by (rule if_P [OF 3(3)])
    have h: "unat (u ! 0) < half" "unat (v ! 0) < half" using 3(3) half_digit by blast+
    have e: "unat (u ! 0 * v ! 0) = dval (take m u) * dval (take n v)"
      using unat_half_product [OF h] one 3(3) by simp
    have "unat (u ! 0 * v ! 0) < radix" using half_product [OF h] unat_half_product [OF h] by simp
    from one_digit [OF _ this, of "m + n"] show ?thesis using m(2) e by (simp add: d z_def)
  next
    case 4
    note p = product_digits [OF ok m n one]
    show ?thesis
      unfolding d_def z_def if_not_P [OF 4(1)] if_not_P [OF 4(2)] if_not_P [OF 4(3)] by (rule p)
  qed
qed

lemma MUL_HELPER_holds:
  assumes u: "number_ok Signed u" "sgn u \<noteq> SC_ZERO" and v: "number_ok Signed v" "sgn v \<noteq> SC_ZERO"
    and s: "s = 1 \<or> s = - 1"
  shows "holds (MUL_HELPER Signed s (nbits u) (ndigits u) (digit u) (nbits v) (ndigits v) (digit v))
    (nbits u + nbits v) (s * (int (dval (digit u)) * int (dval (digit v))))"
proof -
  note pu = number_parts [OF u(1)] and pv = number_parts [OF v(1)]
  note nu = nonzero_parts [OF number_operand [OF u(1)] u(2)]
    and nv = nonzero_parts [OF number_operand [OF v(1)] v(2)]
  define m n where "m = vec_skip_leading_zeros (length (digit u)) (digit u)"
    and "n = vec_skip_leading_zeros (length (digit v)) (digit v)"
  note sm = skipped [OF pu(7) nu(3), folded m_def] and sn = skipped [OF pv(7) nv(3), folded n_def]
  let ?U = "dval (digit u)" and ?V = "dval (digit v)"
  note d = product_branches [OF pu(7) pv(7) sm(1,4) sn(1,4), unfolded sm(2) sn(2), OF sm(5) sn(5)]
  have "?U * ?V \<le> 2 ^ (nbits u - 1) * 2 ^ (nbits v - 1)"
    by (intro mult_le_mono range_magnitude u(1) v(1))
  also have "\<dots> = 2 ^ (nbits u - 1 + (nbits v - 1))" by (rule power_add [symmetric])
  also have "\<dots> \<le> (2 :: nat) ^ (nbits u + nbits v - 1)" by (intro power_increasing) simp_all
  finally have le: "?U * ?V \<le> 2 ^ (nbits u + nbits v - 1)" .
  have "?U * ?V \<noteq> 0" "0 < nbits u + nbits v" using nu(3) nv(3) pu(5) by simp_all
  with number_from_all_holds [OF _ _ _ _ _ le s] d show ?thesis
    unfolding MUL_HELPER_def Let_def pu(4) pv(4) m_def [symmetric] n_def [symmetric] by simp
qed

lemma DIV_HELPER_holds:
  fixes zero :: sc_number
  assumes u: "number_ok Signed u" "sgn u \<noteq> SC_ZERO" and v: "number_ok Signed v" "sgn v \<noteq> SC_ZERO"
    and s: "s = 1 \<or> s = - 1"
  defines "r \<equiv> DIV_HELPER Signed zero s (nbits u) (ndigits u) (digit u) (nbits v) (ndigits v) (digit v)"
    and "q \<equiv> dval (digit u) div dval (digit v)"
  shows "q = 0 \<and> r = zero \<or> holds r (max (nbits u) (nbits v)) (s * int q)"
proof -
  note pu = number_parts [OF u(1)] and pv = number_parts [OF v(1)]
  note nu = nonzero_parts [OF number_operand [OF u(1)] u(2)]
    and nv = nonzero_parts [OF number_operand [OF v(1)] v(2)]
  define m n where "m = vec_skip_leading_zeros (length (digit u)) (digit u)"
    and "n = vec_skip_leading_zeros (length (digit v)) (digit v)"
  note sm = skipped [OF pu(7) nu(3), folded m_def] and sn = skipped [OF pv(7) nv(3), folded n_def]
  let ?ud = "digit u" and ?vd = "digit v" and ?nd = "max m n + 1" and ?nb = "max (nbits u) (nbits v)"
  let ?U = "dval ?ud" and ?V = "dval ?vd" and ?z = "replicate (max m n + 1) (0 :: digit)"
  define cmp where "cmp = vec_cmp m ?ud n ?vd"
  note c = vec_cmp_eq [OF sm(3) sn(3) pu(7) pv(7), unfolded sm(2) sn(2), folded cmp_def]
  define d where "d = (if cmp = 0 then ?z[0 := 1]
      else if n = 1 \<and> ?vd ! 0 = 1 then vec_copy m ?z ?ud
      else if n = 1 \<and> m = 1 then ?z[0 := ?ud ! 0 div ?vd ! 0]
      else if n = 1 \<and> ?vd ! 0 < HALF_DIGIT_RADIX then vec_div_small m ?ud (?vd ! 0) ?z
      else vec_div_large m ?ud n ?vd ?z)"
  have r: "r = (if cmp < 0 then zero else number_from_parts Signed s ?nb (?nd - 1) d)"
    unfolding r_def DIV_HELPER_def Let_def pu(4) pv(4) m_def [symmetric] n_def [symmetric]
      cmp_def [symmetric] d_def by (rule refl)
  show ?thesis
  proof (cases "cmp < 0")
    case True
    then show ?thesis using c(2) by (simp add: q_def r)
  next
    case False
    then have le: "?V \<le> ?U" using c(2) by linarith
    have d: "dval d = q \<and> digits_ok d \<and> length d = ?nd"
    proof -
      consider "cmp = 0" | "cmp \<noteq> 0" "n = 1 \<and> ?vd ! 0 = 1" | "cmp \<noteq> 0" "\<not> (n = 1 \<and> ?vd ! 0 = 1)" by blast
      then show ?thesis
      proof cases
        case 1
        then have "q = 1" using c(1) nu(3) by (simp add: q_def)
        then show ?thesis using one_digit [of ?nd 1] by (simp only: d_def if_P [OF 1]) simp
      next
        case 2
        have "d = vec_copy m ?z ?ud" unfolding d_def if_not_P [OF 2(1)] by (rule if_P [OF 2(2)])
        then have "d = take m ?ud @ replicate (?nd - m) 0"
          using copy_to_zeros [of m ?nd ?ud] sm(1) by simp
        moreover have "?V = 1" using 2(2) sn(5) by auto
        ultimately show ?thesis using sm(1,2) pu(7) by (simp add: q_def)
      next
        case 3
        note qd = quotient_digits [OF pu(7) pv(7) sm(1,4) sn(1,3), unfolded sm(2) sn(2), OF nv(3) sm(5) sn(5) le]
        show ?thesis
          unfolding d_def if_not_P [OF 3(1)] if_not_P [OF 3(2)] q_def by (rule qd)
      qed
    qed
    have q0: "q \<noteq> 0" using le nv(3) by (simp add: q_def div_eq_0_iff)
    have "q \<le> dval (take m ?ud)" using sm(2) by (simp add: q_def)
    with d have top: "dval (take (?nd - 1) d) = q"
      by (intro take_enough [OF _ _ _ pu(7) sm(1)]) simp_all
    have "q \<le> ?U" by (simp add: q_def)
    also have "\<dots> \<le> 2 ^ (nbits u - 1)" by (rule range_magnitude [OF u(1)])
    also have "\<dots> \<le> (2 :: nat) ^ (?nb - 1)" by (intro power_increasing) simp_all
    finally have bound: "q \<le> 2 ^ (?nb - 1)" .
    have nd: "?nd - 1 \<le> length d" and nb: "0 < ?nb" and ok: "digits_ok d"
      using d pu(5) by (auto simp: max_def)
    show ?thesis
      using number_from_parts_holds [OF nb ok nd top q0 bound s] unfolding r if_not_P [OF False] ..
  qed
qed

lemma MOD_HELPER_holds:
  fixes zero :: sc_number
  assumes u: "number_ok Signed u" "sgn u \<noteq> SC_ZERO" and v: "number_ok Signed v" "sgn v \<noteq> SC_ZERO"
  defines "r \<equiv> MOD_HELPER Signed zero (sgn u) (nbits u) (ndigits u) (digit u) (nbits v) (ndigits v) (digit v)"
    and "q \<equiv> dval (digit u) mod dval (digit v)"
  shows "q = 0 \<and> r = zero \<or> holds r (min (nbits u) (nbits v)) (sgn u * int q)"
proof -
  note pu = number_parts [OF u(1)] and pv = number_parts [OF v(1)]
  note nu = nonzero_parts [OF number_operand [OF u(1)] u(2)]
    and nv = nonzero_parts [OF number_operand [OF v(1)] v(2)]
  define m n where "m = vec_skip_leading_zeros (length (digit u)) (digit u)"
    and "n = vec_skip_leading_zeros (length (digit v)) (digit v)"
  note sm = skipped [OF pu(7) nu(3), folded m_def] and sn = skipped [OF pv(7) nv(3), folded n_def]
  let ?ud = "digit u" and ?vd = "digit v" and ?nd = "max m n + 1" and ?nb = "min (nbits u) (nbits v)"
  let ?U = "dval ?ud" and ?V = "dval ?vd" and ?z = "replicate (max m n + 1) (0 :: digit)"
  define cmp where "cmp = vec_cmp m ?ud n ?vd"
  note c = vec_cmp_eq [OF sm(3) sn(3) pu(7) pv(7), unfolded sm(2) sn(2), folded cmp_def]
  define d where "d = (if cmp < 0 then vec_copy m ?z ?ud
      else if n = 1 \<and> m = 1 then ?z[0 := ?ud ! 0 mod ?vd ! 0]
      else if n = 1 \<and> ?vd ! 0 < HALF_DIGIT_RADIX then ?z[0 := vec_rem_small m ?ud (?vd ! 0)]
      else vec_rem_large m ?ud n ?vd ?z)"
  have r: "r = (if cmp = 0 then zero else if 0 < cmp \<and> n = 1 \<and> ?vd ! 0 = 1 then zero
      else if check_for_zero (sgn u) (?nd - 1) d = SC_ZERO then zero
      else number_from_parts Signed (check_for_zero (sgn u) (?nd - 1) d) ?nb (?nd - 1) d)"
    unfolding r_def MOD_HELPER_def Let_def pu(4) pv(4) m_def [symmetric] n_def [symmetric]
      cmp_def [symmetric] d_def by (rule refl)
  consider "cmp = 0" | "cmp \<noteq> 0" "0 < cmp \<and> n = 1 \<and> ?vd ! 0 = 1"
    | "cmp \<noteq> 0" "\<not> (0 < cmp \<and> n = 1 \<and> ?vd ! 0 = 1)" by blast
  then show ?thesis
  proof cases
    case 1
    then show ?thesis using c(1) by (simp add: q_def r)
  next
    case 2
    then have "?V = 1" using sn(5) by auto
    then show ?thesis using 2 by (simp add: q_def r)
  next
    case 3
    have d: "dval d = q \<and> digits_ok d \<and> length d = ?nd"
    proof -
      consider "cmp < 0" | "\<not> cmp < 0" "n = 1 \<and> m = 1" | "\<not> cmp < 0" "\<not> (n = 1 \<and> m = 1)" by blast
      then show ?thesis
      proof cases
        case 1
        then have "q = ?U" using c(2) by (simp add: q_def)
        then show ?thesis
          using copy_to_zeros [of m ?nd ?ud] sm(1,2) pu(7) by (simp only: d_def if_P [OF 1]) simp
      next
        case 2
        have d: "d = ?z[0 := ?ud ! 0 mod ?vd ! 0]" unfolding d_def if_not_P [OF 2(1)] by (rule if_P [OF 2(2)])
        have "unat (?ud ! 0 mod ?vd ! 0) = q" using 2(2) sm(5) sn(5) by (simp add: unat_mod q_def)
        moreover have "q < ?V" using nv(3) by (simp add: q_def)
        then have "q < radix ^ n" using sn(6) by (rule less_trans)
        ultimately show ?thesis using one_digit [of ?nd "?ud ! 0 mod ?vd ! 0"] 2(2) by (simp add: d)
      next
        case 3
        then have le: "?V \<le> ?U" using c(2) by linarith
        note rd = remainder_digits [OF pu(7) pv(7) sm(1,4) sn(1,3), unfolded sm(2) sn(2), OF nv(3) sn(5) le]
        show ?thesis
          unfolding d_def if_not_P [OF 3(1)] if_not_P [OF 3(2)] q_def by (rule rd)
      qed
    qed
    have "q \<le> dval (take m ?ud)" using sm(2) by (simp add: q_def)
    with d have top: "dval (take (?nd - 1) d) = q"
      by (intro take_enough [OF _ _ _ pu(7) sm(1)]) simp_all
    have nd: "?nd - 1 \<le> length d" and nb: "0 < ?nb" and ok: "digits_ok d"
      using d pu(5) pv(5) by (auto simp: max_def)
    have cz: "check_for_zero (sgn u) (?nd - 1) d = (if q = 0 then SC_ZERO else sgn u)"
      using check_for_zero_eq [OF nd] top by simp
    have "q \<le> ?U" "q \<le> ?V" using nv(3) less_imp_le [OF mod_less_divisor] by (simp_all add: q_def)
    then have bound: "q \<le> 2 ^ (?nb - 1)"
      using range_magnitude [OF u(1)] range_magnitude [OF v(1)] by (cases "nbits u \<le> nbits v") auto
    show ?thesis
    proof (cases "q = 0")
      case True
      then show ?thesis unfolding r cz by simp
    next
      case False
      from number_from_parts_holds [OF nb ok nd top False bound nu(1)] show ?thesis
        unfolding r if_not_P [OF 3(1)] if_not_P [OF 3(2)] cz if_not_P [OF False] if_not_P [OF u(2)] ..
    qed
  qed
qed

section \<open>The operators are exact\<close>

lemma number_range:
  assumes "number_ok Signed u" "nbits u \<le> nb"
  shows "- (2 ^ (nb - 1)) \<le> val u" "val u < 2 ^ (nb - 1)"
proof -
  have "(2 :: int) ^ (nbits u - 1) \<le> 2 ^ (nb - 1)" using assms(2) by (intro power_increasing) auto
  then show "- (2 ^ (nb - 1)) \<le> val u" "val u < 2 ^ (nb - 1)"
    using number_parts(3) [OF assms(1)] unfolding in_range_def by linarith+
qed

text \<open>Both for the sum and, with \<open>vs\<close> the opposite sign, for the difference.\<close>

lemma ADD_HELPER_result:
  fixes zero :: sc_number
  assumes u: "number_ok Signed u" "sgn u \<noteq> SC_ZERO" and v: "number_ok Signed v" "sgn v \<noteq> SC_ZERO"
    and vs: "vs = sgn v \<or> vs = - sgn v" and zero: "number_ok Signed zero" "val zero = 0"
  defines "r \<equiv> ADD_HELPER Signed zero (sgn u) (nbits u) (ndigits u) (digit u) vs (nbits v) (ndigits v) (digit v)"
  shows "val r = val u + vs * int (dval (digit v)) \<and> number_ok Signed r"
proof -
  let ?nb = "max (nbits u) (nbits v)" and ?x = "val u + vs * int (dval (digit v))"
  define P where "P = (2 :: int) ^ (?nb - 1)"
  have P2: "2 ^ (?nb + 1 - 1) = 2 * P"
    using number_parts(5) [OF u(1)] by (simp add: P_def flip: power_Suc)
  note nu = nonzero_parts [OF number_operand [OF u(1)] u(2)]
    and nv = nonzero_parts [OF number_operand [OF v(1)] v(2)]
  define A B where "A = int (dval (digit u))" and "B = int (dval (digit v))"
  have AB: "0 < A" "0 < B" "val u = sgn u * A" "val v = sgn v * B" using nu nv by (simp_all add: A_def B_def)
  have bounds: "- P \<le> val u" "val u < P" "- P \<le> val v" "val v < P"
    using number_range [OF u(1), of ?nb] number_range [OF v(1), of ?nb] by (simp_all add: P_def)
  then have A: "A \<le> P" "sgn u = 1 \<Longrightarrow> A < P" and B: "B \<le> P" using nu(1) nv(1) AB by auto
  have vs1: "vs = 1 \<or> vs = - 1" using vs nv(1) by auto
  have "in_range (?nb + (if sgn u = vs then 1 else 0)) ?x"
  proof (cases "sgn u = vs")
    case True
    have "- (2 * P) \<le> sgn u * A + vs * B \<and> sgn u * A + vs * B < 2 * P"
      using vs1 A B AB(1,2) True by auto
    then show ?thesis unfolding in_range_def B_def [symmetric] AB(3) if_P [OF True] P2 .
  next
    case False
    have "- P \<le> sgn u * A + vs * B \<and> sgn u * A + vs * B < P"
      using vs1 nu(1) A B AB(1,2) False by auto
    then show ?thesis using False AB(3) by (simp add: in_range_def P_def B_def)
  qed
  then show ?thesis
    using ADD_HELPER_holds [OF u v vs, of zero] zero by (auto simp: holds_def r_def)
qed

section \<open>The operators are exact\<close>

lemma number_zero_iff: "number_ok Signed u \<Longrightarrow> sgn u = SC_ZERO \<longleftrightarrow> val u = 0"
  by (rule val_zero_iff [OF number_operand])

theorem plus_number_exact:
  assumes "number_ok Signed u" "number_ok Signed v" "number_ok Signed zero" "val zero = 0"
  shows "val (plus_number zero u v) = val u + val v \<and> number_ok Signed (plus_number zero u v)"
  using ADD_HELPER_result [OF assms(1) _ assms(2) _ _ assms(3,4), of "sgn v"] assms
    number_zero_iff [OF assms(1)] number_zero_iff [OF assms(2)]
    nonzero_parts(2) [OF number_operand [OF assms(2)]]
  by (simp add: plus_number_def)

theorem minus_number_exact:
  assumes "number_ok Signed u" "number_ok Signed v" "number_ok Signed zero" "val zero = 0"
  shows "val (minus_number zero u v) = val u - val v"
    "number_ok Signed (minus_number zero u v) \<longleftrightarrow> \<not> (val u = 0 \<and> val v = - (2 ^ (nbits v - 1)))"
proof -
  note neg = number_with_sign_holds [OF assms(2)]
  note rv = number_parts(3) [OF assms(2), unfolded in_range_def]
  consider "val v = 0" | "val v \<noteq> 0" "val u = 0" | "val v \<noteq> 0" "val u \<noteq> 0" by blast
  then have "val (minus_number zero u v) = val u - val v \<and>
    (number_ok Signed (minus_number zero u v) \<longleftrightarrow> \<not> (val u = 0 \<and> val v = - (2 ^ (nbits v - 1))))"
  proof cases
    case 2
    then show ?thesis
      using neg rv number_zero_iff [OF assms(1)] number_zero_iff [OF assms(2)]
      by (auto simp: minus_number_def holds_def in_range_def)
  next
    case 3
    then show ?thesis
      using ADD_HELPER_result [OF assms(1) _ assms(2) _ _ assms(3,4), of "- sgn v"]
        nonzero_parts(2) [OF number_operand [OF assms(2)]]
        number_zero_iff [OF assms(1)] number_zero_iff [OF assms(2)]
      by (simp add: minus_number_def)
  qed (use assms number_zero_iff [OF assms(2)] in \<open>simp add: minus_number_def\<close>)
  then show "val (minus_number zero u v) = val u - val v"
    "number_ok Signed (minus_number zero u v) \<longleftrightarrow> \<not> (val u = 0 \<and> val v = - (2 ^ (nbits v - 1)))"
    by blast+
qed

theorem negate_number_exact:
  assumes "number_ok Signed u"
  shows "val (negate_number u) = - val u"
    "number_ok Signed (negate_number u) \<longleftrightarrow> val u \<noteq> - (2 ^ (nbits u - 1))"
  using number_with_sign_holds [OF assms] number_parts(3) [OF assms]
  by (auto simp: negate_number_def holds_def in_range_def)

theorem times_number_exact:
  assumes "number_ok Signed u" "number_ok Signed v" "number_ok Signed zero" "val zero = 0"
  shows "val (times_number zero u v) = val u * val v \<and> number_ok Signed (times_number zero u v)"
proof (cases "val u = 0 \<or> val v = 0")
  case True
  then show ?thesis
    using assms number_zero_iff [OF assms(1)] number_zero_iff [OF assms(2)]
    by (auto simp: times_number_def mul_signs_zero)
next
  case False
  then have nz: "sgn u \<noteq> SC_ZERO" "sgn v \<noteq> SC_ZERO"
    using number_zero_iff [OF assms(1)] number_zero_iff [OF assms(2)] by simp_all
  note nu = nonzero_parts [OF number_operand [OF assms(1)] nz(1)]
    and nv = nonzero_parts [OF number_operand [OF assms(2)] nz(2)]
  define s where "s = mul_signs (sgn u) (sgn v)"
  have s: "s = sgn u * sgn v" "s = 1 \<or> s = - 1"
    using mul_signs_eq [OF nu(1) nv(1)] nu(1) nv(1) by (auto simp: s_def)
  define a b where "a = (2 :: int) ^ (nbits u - 1)" and "b = (2 :: int) ^ (nbits v - 1)"
  have "nbits u + nbits v - 1 = Suc (nbits u - 1 + (nbits v - 1))"
    using number_parts(5) [OF assms(1)] number_parts(5) [OF assms(2)] by simp
  then have p: "2 ^ (nbits u + nbits v - 1) = 2 * (a * b)"
    by (simp only: power_Suc power_add a_def b_def)
  have "\<bar>val u\<bar> \<le> a" "\<bar>val v\<bar> \<le> b" "0 < a" "0 < b"
    using number_range [OF assms(1) order_refl] number_range [OF assms(2) order_refl]
    by (simp_all add: a_def b_def abs_le_iff)
  then have "\<bar>val u * val v\<bar> \<le> a * b" "0 < a * b" by (simp_all add: abs_mult mult_mono)
  then have "- (2 * (a * b)) \<le> val u * val v \<and> val u * val v < 2 * (a * b)" by linarith
  then have "in_range (nbits u + nbits v) (val u * val v)" unfolding in_range_def p .
  moreover have "s * (int (dval (digit u)) * int (dval (digit v))) = val u * val v"
    by (simp add: s(1) nu(2) nv(2))
  moreover have "s \<noteq> SC_ZERO" using s(2) by (auto simp: SC_ZERO_def)
  ultimately show ?thesis
    using MUL_HELPER_holds [OF assms(1) nz(1) assms(2) nz(2) s(2)]
    by (simp add: times_number_def s_def [symmetric] holds_def)
qed

text \<open>
  The quotient has too few bits for one pair of operands: the least number divided by minus one.
\<close>

theorem divide_number_exact:
  assumes "number_ok Signed u" "number_ok Signed v" "number_ok Signed zero" "val zero = 0" "val v \<noteq> 0"
  shows "\<exists>q. divide_number zero u v = Some q \<and> val q = val u sdiv val v \<and>
    (number_ok Signed q \<longleftrightarrow> \<not> (val u = - (2 ^ (max (nbits u) (nbits v) - 1)) \<and> val v = - 1))"
proof (cases "val u = 0")
  case True
  then show ?thesis
    using assms number_zero_iff [OF assms(1)] number_zero_iff [OF assms(2)]
    by (simp add: divide_number_def mul_signs_zero)
next
  case False
  then have nz: "sgn u \<noteq> SC_ZERO" "sgn v \<noteq> SC_ZERO"
    using assms(5) number_zero_iff [OF assms(1)] number_zero_iff [OF assms(2)] by simp_all
  note nu = nonzero_parts [OF number_operand [OF assms(1)] nz(1)]
    and nv = nonzero_parts [OF number_operand [OF assms(2)] nz(2)]
  define s where "s = mul_signs (sgn u) (sgn v)"
  have s: "s = sgn u * sgn v" "s = 1 \<or> s = - 1"
    using mul_signs_eq [OF nu(1) nv(1)] nu(1) nv(1) by (auto simp: s_def)
  let ?U = "dval (digit u)" and ?V = "dval (digit v)" and ?nb = "max (nbits u) (nbits v)"
  define P where "P = (2 :: int) ^ (?nb - 1)"
  have val_q: "s * int (?U div ?V) = val u sdiv val v"
    using nu nv by (auto simp: s(1) signed_divide_int_def zdiv_int sgn_mult)
  have u: "- P \<le> val u" "val u < P" using number_range [OF assms(1), of ?nb] by (simp_all add: P_def)
  have "0 < P" by (simp add: P_def)
  have "int (?U div ?V) \<le> int ?U" by simp
  moreover have U: "int ?U \<le> P" using u nu(1,2) by auto
  ultimately have q: "0 \<le> int (?U div ?V)" "int (?U div ?V) \<le> P" by linarith+
  have range: "in_range ?nb (s * int (?U div ?V)) \<longleftrightarrow> \<not> (val u = - P \<and> val v = - 1)"
  proof
    assume "\<not> (val u = - P \<and> val v = - 1)"
    moreover have "val u = - P \<and> val v = - 1" if a: "s = 1" "int (?U div ?V) = P"
    proof -
      have "int ?U = P" using a(2) U \<open>int (?U div ?V) \<le> int ?U\<close> by linarith
      then have "?U div ?V = ?U" using a(2) by simp
      then have "?V = 1" using nu(3) div_less_dividend [of ?V ?U] nv(3) by (metis One_nat_def less_irrefl neq0_conv Suc_lessI)
      then show ?thesis using \<open>int ?U = P\<close> nu(1,2) nv(1,2) u(2) s(1) a(1) by auto
    qed
    ultimately have "s = 1 \<Longrightarrow> int (?U div ?V) \<noteq> P" by blast
    then show "in_range ?nb (s * int (?U div ?V))"
      using s(2) q \<open>0 < P\<close> unfolding in_range_def P_def [symmetric] by auto
  next
    assume "in_range ?nb (s * int (?U div ?V))"
    then show "\<not> (val u = - P \<and> val v = - 1)"
      unfolding val_q in_range_def P_def [symmetric] by auto
  qed
  have "s \<noteq> SC_ZERO" using s(2) by (auto simp: SC_ZERO_def)
  then have d: "divide_number zero u v =
      Some (DIV_HELPER Signed zero s (nbits u) (ndigits u) (digit u) (nbits v) (ndigits v) (digit v))"
    by (simp add: divide_number_def s_def [symmetric])
  show ?thesis
    using DIV_HELPER_holds [OF assms(1) nz(1) assms(2) nz(2) s(2), of zero] assms(3,4) range val_q
    unfolding d by (auto simp: holds_def P_def)
qed

theorem modulo_number_exact:
  assumes "number_ok Signed u" "number_ok Signed v" "number_ok Signed zero" "val zero = 0" "val v \<noteq> 0"
  shows "\<exists>r. modulo_number zero u v = Some r \<and> val r = val u smod val v \<and> number_ok Signed r"
proof (cases "val u = 0")
  case True
  then show ?thesis
    using assms number_zero_iff [OF assms(1)] number_zero_iff [OF assms(2)]
    by (simp add: modulo_number_def)
next
  case False
  then have nz: "sgn u \<noteq> SC_ZERO" "sgn v \<noteq> SC_ZERO"
    using assms(5) number_zero_iff [OF assms(1)] number_zero_iff [OF assms(2)] by simp_all
  note nu = nonzero_parts [OF number_operand [OF assms(1)] nz(1)]
    and nv = nonzero_parts [OF number_operand [OF assms(2)] nz(2)]
  let ?U = "dval (digit u)" and ?V = "dval (digit v)" and ?nb = "min (nbits u) (nbits v)"
  have val_r: "sgn u * int (?U mod ?V) = val u smod val v"
    using nu nv by (auto simp: signed_modulo_int_def zmod_int sgn_mult)
  have "in_range ?nb (sgn u * int (?U mod ?V))"
  proof -
    define q where "q = int (?U mod ?V)"
    have q: "0 \<le> q" "q < int ?V" "q \<le> int ?U" using nv(3) by (simp_all add: q_def)
    define P Q where "P = (2 :: int) ^ (nbits u - 1)" and "Q = (2 :: int) ^ (nbits v - 1)"
    have "0 < P" "- P \<le> val u" "val u < P" "- Q \<le> val v" "val v < Q"
      using number_range [OF assms(1) order_refl] number_range [OF assms(2) order_refl]
      by (simp_all add: P_def Q_def)
    then have "int ?U \<le> P" "sgn u = 1 \<Longrightarrow> int ?U < P" "int ?V \<le> Q"
      using nu(1,2) nv(1,2) by auto
    then have "- P \<le> sgn u * q \<and> sgn u * q < P" "- Q \<le> sgn u * q \<and> sgn u * q < Q"
      using nu(1) q \<open>0 < P\<close> by auto
    then have "in_range (nbits u) (sgn u * q)" "in_range (nbits v) (sgn u * q)"
      by (simp_all add: in_range_def P_def Q_def)
    then show ?thesis by (simp add: q_def min_def)
  qed
  then show ?thesis
    using MOD_HELPER_holds [OF assms(1) nz(1) assms(2) nz(2), of zero] assms(3,4) val_r nz
    by (auto simp: modulo_number_def holds_def)
qed

end
