(* ===== verification/Dt_Compare.thy ===== *)
theory Dt_Compare
  imports Dt_Friends
begin

text \<open>
  The bitwise operators of \<^verbatim>\<open>sc_signed\<close> that make a new number and its comparisons
  (datatypes/int/sc_signed.cpp, sc_nbcommon.inc).  The bitwise operators agree with those of the
  integers in two's complement of any width, the comparisons with the order of the values.
\<close>

unbundle bit_operations_syntax

section \<open>Bitwise operators\<close>

definition number_of_bits :: "int \<times> nat \<times> nat \<times> digits \<Rightarrow> sc_number" where
  "number_of_bits r = (case r of (s, nb, nd, d) \<Rightarrow> number_from_parts Signed s nb nd d)"

definition and_number :: "sc_number \<Rightarrow> sc_number \<Rightarrow> sc_number \<Rightarrow> sc_number" where
  "and_number zero u v =
     (if sgn u = SC_ZERO \<or> sgn v = SC_ZERO then zero
      else number_of_bits (AND_HELPER (sgn u) (nbits u) (ndigits u) (digit u)
             (sgn v) (nbits v) (ndigits v) (digit v)))"

definition or_number :: "sc_number \<Rightarrow> sc_number \<Rightarrow> sc_number" where
  "or_number u v =
     (if sgn v = SC_ZERO then u
      else if sgn u = SC_ZERO then v
      else number_of_bits (OR_HELPER (sgn u) (nbits u) (ndigits u) (digit u)
             (sgn v) (nbits v) (ndigits v) (digit v)))"

definition xor_number :: "sc_number \<Rightarrow> sc_number \<Rightarrow> sc_number" where
  "xor_number u v =
     (if sgn v = SC_ZERO then u
      else if sgn u = SC_ZERO then v
      else number_of_bits (XOR_HELPER (sgn u) (nbits u) (ndigits u) (digit u)
             (sgn v) (nbits v) (ndigits v) (digit v)))"

section \<open>Comparisons\<close>

definition equal_number :: "sc_number \<Rightarrow> sc_number \<Rightarrow> bool" where
  "equal_number u v =
     (if sgn u \<noteq> sgn v then False
      else vec_skip_and_cmp (ndigits u) (digit u) (ndigits v) (digit v) = 0)"

definition less_number :: "sc_number \<Rightarrow> sc_number \<Rightarrow> bool" where
  "less_number u v =
     (if sgn u < sgn v then True
      else if sgn v < sgn u then False
      else if sgn u = SC_POS then vec_skip_and_cmp (ndigits u) (digit u) (ndigits v) (digit v) < 0
      else if sgn u = SC_NEG then 0 < vec_skip_and_cmp (ndigits u) (digit u) (ndigits v) (digit v)
      else False)"

definition not_equal_number :: "sc_number \<Rightarrow> sc_number \<Rightarrow> bool" where
  "not_equal_number u v = (\<not> equal_number u v)"

definition less_equal_number :: "sc_number \<Rightarrow> sc_number \<Rightarrow> bool" where
  "less_equal_number u v = (less_number u v \<or> equal_number u v)"

definition greater_number :: "sc_number \<Rightarrow> sc_number \<Rightarrow> bool" where
  "greater_number u v = (\<not> less_equal_number u v)"

definition greater_equal_number :: "sc_number \<Rightarrow> sc_number \<Rightarrow> bool" where
  "greater_equal_number u v = (\<not> less_number u v)"

section \<open>The bitwise operators are exact\<close>

lemma number_of_bits_ok:
  assumes "signed_ok nb s d" "nd = length d"
  shows "val (number_of_bits (s, nb, nd, d)) = smval s d" "number_ok Signed (number_of_bits (s, nb, nd, d))"
proof -
  have n: "DIV_CEIL nb = nd" "digits_ok d" using assms by (simp_all add: signed_ok_def sized_def)
  then have "number_of_bits (s, nb, nd, d) = \<lparr>sgn = s, nbits = nb, ndigits = nd, digit = d\<rparr>"
    using assms(2) by (simp add: number_of_bits_def number_from_parts_def num_bits_def Let_def vec_copy_eq)
  then show "val (number_of_bits (s, nb, nd, d)) = smval s d"
    "number_ok Signed (number_of_bits (s, nb, nd, d))"
    using assms by (simp_all add: val_def number_ok_def ok_of_def)
qed

context bit_operator
begin

lemma bits_number:
  assumes "number_ok Signed u" "number_ok Signed v" "sgn u \<noteq> SC_ZERO" "sgn v \<noteq> SC_ZERO"
  defines "r \<equiv> number_of_bits (bits_helper (op_cases f g rest_pos rest_neg)
    (sgn u) (nbits u) (ndigits u) (digit u) (sgn v) (nbits v) (ndigits v) (digit v))"
  shows "val r = op_int (val u) (val v) \<and> number_ok Signed r"
proof -
  note pu = number_parts [OF assms(1)] and pv = number_parts [OF assms(2)]
  obtain s nb nd d where h: "bits_helper (op_cases f g rest_pos rest_neg)
      (sgn u) (nbits u) (length (digit u)) (digit u) (sgn v) (nbits v) (length (digit v)) (digit v) =
    (s, nb, nd, d)" by (metis prod_cases4)
  note b = bits_helper_value [OF pu(1) _ _ pv(1) _ _
      nonzero_sign [OF number_operand [OF assms(1)] assms(3)]
      nonzero_sign [OF number_operand [OF assms(2)] assms(4)] h]
  have r: "r = number_of_bits (s, nb, nd, d)" by (simp add: r_def pu(4) pv(4) h)
  have "smval s d = op_int (val u) (val v)" "nd = length d" "signed_ok nb s d"
    using b pu(3) pv(3) by (simp_all add: in_range_def val_def)
  then show ?thesis using number_of_bits_ok by (simp add: r)
qed

end

theorem and_number_exact:
  assumes "number_ok Signed u" "number_ok Signed v" "number_ok Signed zero" "val zero = 0"
  shows "val (and_number zero u v) = val u AND val v \<and> number_ok Signed (and_number zero u v)"
  using and_op.bits_number [OF assms(1,2)] assms number_zero_iff [OF assms(1)] number_zero_iff [OF assms(2)]
  by (auto simp: and_number_def AND_HELPER_def and_cases_def)

theorem or_number_exact:
  assumes "number_ok Signed u" "number_ok Signed v"
  shows "val (or_number u v) = val u OR val v \<and> number_ok Signed (or_number u v)"
  using or_op.bits_number [OF assms] assms number_zero_iff [OF assms(1)] number_zero_iff [OF assms(2)]
  by (auto simp: or_number_def OR_HELPER_def or_cases_def)

theorem xor_number_exact:
  assumes "number_ok Signed u" "number_ok Signed v"
  shows "val (xor_number u v) = val u XOR val v \<and> number_ok Signed (xor_number u v)"
  using xor_op.bits_number [OF assms] assms number_zero_iff [OF assms(1)] number_zero_iff [OF assms(2)]
  by (auto simp: xor_number_def XOR_HELPER_def xor_cases_def)

section \<open>The comparisons are those of the values\<close>

lemma vec_skip_and_cmp_value:
  assumes "digits_ok u" "digits_ok v"
  defines "c \<equiv> vec_skip_and_cmp (length u) u (length v) v"
  shows "c = 0 \<longleftrightarrow> dval u = dval v" "c < 0 \<longleftrightarrow> dval u < dval v" "0 < c \<longleftrightarrow> dval v < dval u"
proof -
  let ?m = "vec_skip_leading_zeros (length u) u" and ?n = "vec_skip_leading_zeros (length v) v"
  have "normal ?m u" "normal ?n v" by simp_all
  from vec_cmp_eq [OF this assms(1,2)]
  show "c = 0 \<longleftrightarrow> dval u = dval v" "c < 0 \<longleftrightarrow> dval u < dval v" "0 < c \<longleftrightarrow> dval v < dval u"
    using dval_skip [of "length u" u] dval_skip [of "length v" v]
    by (simp_all add: c_def vec_skip_and_cmp_def)
qed

theorem comparisons:
  assumes "operand_ok u" "operand_ok v"
  shows "equal_number u v \<longleftrightarrow> val u = val v" "less_number u v \<longleftrightarrow> val u < val v"
proof -
  have n: "ndigits u = length (digit u)" "ndigits v = length (digit v)"
    "digits_ok (digit u)" "digits_ok (digit v)"
    and s: "sign_ok (sgn u) (digit u)" "sign_ok (sgn v) (digit v)"
    using assms by (simp_all add: operand_ok_def)
  note c = vec_skip_and_cmp_value [OF n(3,4)]
  show "equal_number u v \<longleftrightarrow> val u = val v"
    using c(1) s unfolding equal_number_def n(1,2)
    by (auto simp: sign_ok_def val_def smval_def SC_NEG_def SC_POS_def SC_ZERO_def)
  show "less_number u v \<longleftrightarrow> val u < val v"
    using c(2,3) s unfolding less_number_def n(1,2)
    by (auto simp: sign_ok_def val_def smval_def SC_NEG_def SC_POS_def SC_ZERO_def)
qed

end
