(* ===== verification/Dt_Access.thy ===== *)
theory Dt_Access
  imports Dt_Number
begin

text \<open>
  Single bits of numbers, mirroring, the complement and the conversions to built-in integers
  (datatypes/int/sc_nbcommon.inc).  All are compared with the bits of the value in two's
  complement, which go on to the left without end.
\<close>

unbundle bit_operations_syntax

section \<open>Conversions to built-in integers\<close>

text \<open>The loop \<^verbatim>\<open>while (--vnd >= 0) v = (v << BITS_PER_DIGIT) + digit[vnd]\<close>.\<close>

fun digits_to_word :: "nat \<Rightarrow> digits \<Rightarrow> 'a::len word \<Rightarrow> 'a word" where
  "digits_to_word 0 d v = v"
| "digits_to_word (Suc vnd) d v = digits_to_word vnd d (push_bit BITS_PER_DIGIT v + ucast (d ! vnd))"

definition to_intx :: "nat \<Rightarrow> sc_number \<Rightarrow> 'a::len word" where
  "to_intx digits_per_type u =
     (if sgn u = SC_ZERO then 0
      else
        let v = digits_to_word (min digits_per_type (ndigits u)) (digit u) 0
        in if sgn u = SC_NEG then - v else v)"

definition DIGITS_PER_INT :: nat where "DIGITS_PER_INT = (32 + 29) div 30"
definition DIGITS_PER_INT64 :: nat where "DIGITS_PER_INT64 = (64 + 29) div 30"

definition to_int64 :: "sc_number \<Rightarrow> 64 word" where "to_int64 = to_intx DIGITS_PER_INT64"

definition to_int :: "sc_number \<Rightarrow> 32 word" where "to_int = to_intx DIGITS_PER_INT"

definition if_sc_signed :: "kind \<Rightarrow> nat" where
  "if_sc_signed k = (case k of Signed \<Rightarrow> 1 | Unsigned \<Rightarrow> 0)"

definition to_uintx :: "kind \<Rightarrow> nat \<Rightarrow> sc_number \<Rightarrow> 'a::len word" where
  "to_uintx k digits_per_type u =
     (if sgn u = SC_ZERO then 0
      else
        let vnd = min digits_per_type (ndigits u);
            d = (if sgn u = SC_NEG
                 then convert_SM_to_2C_trimmed (if_sc_signed k) (sgn u) (nbits u) (ndigits u) (digit u)
                 else digit u)
        in digits_to_word vnd d 0)"

definition to_uint64 :: "kind \<Rightarrow> sc_number \<Rightarrow> 64 word" where
  "to_uint64 k = to_uintx k DIGITS_PER_INT64"

definition to_uint :: "kind \<Rightarrow> sc_number \<Rightarrow> 32 word" where
  "to_uint k = to_uintx k DIGITS_PER_INT"

section \<open>Single bits\<close>

definition check_if_outside :: "kind \<Rightarrow> sc_number \<Rightarrow> int \<Rightarrow> bool" where
  "check_if_outside k u bit_num \<longleftrightarrow> bit_num < 0 \<or> nbits u \<le> num_bits k (nat bit_num)"

definition test :: "kind \<Rightarrow> sc_number \<Rightarrow> int \<Rightarrow> bool" where
  "test k u i =
     (if check_if_outside k u i then k = Signed \<and> sgn u = SC_NEG
      else
        let bit_num = bit_ord (nat i);
            digit_num = digit_ord (nat i);
            d = (if sgn u = SC_NEG then vec_complement (ndigits u) (digit u) else digit u)
        in d ! digit_num AND one_and_zeros bit_num \<noteq> 0)"

definition set_number_bit :: "kind \<Rightarrow> sc_number \<Rightarrow> int \<Rightarrow> sc_number" where
  "set_number_bit k u i =
     (if check_if_outside k u i then u
      else
        let bit_num = bit_ord (nat i);
            digit_num = digit_ord (nat i);
            u = number_SM_to_2C u;
            d = digit u;
            d = d[digit_num := d ! digit_num OR one_and_zeros bit_num];
            d = d[digit_num := d ! digit_num AND DIGIT_MASK]
        in convert_2C_to_SM k (u\<lparr>digit := d\<rparr>))"

definition clear_number_bit :: "kind \<Rightarrow> sc_number \<Rightarrow> int \<Rightarrow> sc_number" where
  "clear_number_bit k u i =
     (if check_if_outside k u i then u
      else
        let bit_num = bit_ord (nat i);
            digit_num = digit_ord (nat i);
            u = number_SM_to_2C u;
            d = digit u;
            d = d[digit_num := d ! digit_num AND NOT (one_and_zeros bit_num)];
            d = d[digit_num := d ! digit_num AND DIGIT_MASK]
        in convert_2C_to_SM k (u\<lparr>digit := d\<rparr>))"

definition reverse_number :: "kind \<Rightarrow> sc_number \<Rightarrow> sc_number option" where
  "reverse_number k u =
     (let u = number_SM_to_2C u
      in map_option (\<lambda>d. convert_2C_to_SM k (u\<lparr>digit := d\<rparr>))
           (vec_reverse (length_of k u) (ndigits u) (digit u) (length_of k u - 1) 0))"

section \<open>Conversions\<close>

lemma digits_to_word_value:
  "n \<le> length d \<Longrightarrow>
     digits_to_word n d v = v * 2 ^ (30 * n) + (of_nat (dval (take n d)) :: 'a::len word)"
proof (induction n arbitrary: v)
  case (Suc n)
  have u: "(ucast (d ! n) :: 'a word) = of_nat (unat (d ! n))" by simp
  have p: "(1073741824 :: 'a word) ^ n = 2 ^ (n * 30)" 
  proof -
    have "(2 :: 'a word) ^ (n * 30) = (2 ^ 30) ^ n" by (simp only: mult.commute [of n] power_mult)
    then show ?thesis by simp
  qed
  have "(2 :: 'a word) ^ (30 * Suc n) = 2 ^ 30 * 2 ^ (30 * n)" by (simp add: power_add)
  then show ?case
    using Suc by (simp add: dval_snoc u p push_bit_eq_mult algebra_simps digit_consts del: of_nat_unat)
qed simp

lemma digits_to_word_all:
  assumes "LENGTH('a) \<le> 30 * n"
  shows "digits_to_word (min n (length d)) d 0 = (of_nat (dval d) :: 'a::len word)"
proof (cases "length d \<le> n")
  case False
  then have "dval d = dval (take n d) + 2 ^ (30 * n) * dval (drop n d)"
    using dval_take_drop [of n d] by (simp add: radix_power)
  moreover have "2 ^ (30 * n) * x = 0" for x :: "'a word"
  proof -
    have "(2 :: 'a word) ^ (30 * n) = 0" using assms by (simp add: exp_eq_zero_iff)
    then show ?thesis by (simp only: mult_zero_left)
  qed
  ultimately show ?thesis using False digits_to_word_value [of n d 0] by simp
qed (simp add: digits_to_word_value)

theorem to_intx_value:
  assumes "operand_ok u" "LENGTH('a) \<le> 30 * n"
  shows "to_intx n u = (word_of_int (val u) :: 'a::len word)"
proof -
  have "ndigits u = length (digit u)" using assms(1) by (simp add: operand_ok_def)
  then show ?thesis
    using digits_to_word_all [OF assms(2), of "digit u"] val_zero_iff [OF assms(1)]
    by (simp add: to_intx_def Let_def val_def smval_def)
qed

theorem to_int64_value: "operand_ok u \<Longrightarrow> to_int64 u = word_of_int (val u)"
  by (simp add: to_int64_def to_intx_value DIGITS_PER_INT64_def)

theorem to_int_value: "operand_ok u \<Longrightarrow> to_int u = word_of_int (val u)"
  by (simp add: to_int_def to_intx_value DIGITS_PER_INT_def)

section \<open>Bits of the value\<close>

lemma bit_beyond:
  fixes x :: int
  assumes "- (2 ^ n) \<le> x" "x < 2 ^ n" "n \<le> i"
  shows "bit x i \<longleftrightarrow> x < 0"
proof -
  have s: "signed_take_bit n x = x" using assms(1,2) by (simp add: signed_take_bit_int_eq_self)
  have "bit (signed_take_bit n x) i \<longleftrightarrow> bit (signed_take_bit n x) n"
    using assms(3) by (simp add: bit_signed_take_bit_iff)
  then show ?thesis
    using signed_take_bit_negative_iff [of n x] s by simp
qed

lemma bit_below:
  assumes "int (dval d) = x mod 2 ^ m"
  shows "bit (dval d) i \<longleftrightarrow> i < m \<and> bit x i"
proof -
  have "bit (int (dval d)) i \<longleftrightarrow> i < m \<and> bit x i"
    by (simp add: assms bit_take_bit_iff flip: take_bit_eq_mod)
  then show ?thesis by (simp add: bit_of_nat_iff)
qed

lemma bit_sign:
  assumes "number_ok k u" "check_if_outside k u i" "0 \<le> i"
  shows "bit (val u) (nat i) \<longleftrightarrow> k = Signed \<and> sgn u = SC_NEG"
proof -
  note z = val_zero_iff [OF number_operand [OF assms(1)]]
  have "- (2 ^ (nbits u - 1)) \<le> val u" "val u < 2 ^ (nbits u - 1)"
    "k = Signed \<or> 0 \<le> val u"
    using assms(1) unfolding number_ok_def ok_of_def signed_ok_def unsigned_ok_def val_def smval_def
    by (auto split: kind.splits intro: order_trans [of _ 0])
  moreover have "nbits u - 1 \<le> nat i"
    using assms(2,3) by (auto simp: check_if_outside_def num_bits_def split: kind.splits)
  ultimately have "bit (val u) (nat i) \<longleftrightarrow> val u < 0" "k = Signed \<or> 0 \<le> val u"
    using bit_beyond by blast+
  moreover have "val u < 0 \<longleftrightarrow> sgn u = SC_NEG" using z by (auto simp: val_def smval_def)
  ultimately show ?thesis by auto
qed

lemma inside:
  assumes "number_ok k u" "\<not> check_if_outside k u i"
  shows "nat i < nbits u" "nat i < 30 * length (digit u)" "nat i < length_of k u" "0 \<le> i"
  using assms number_parts(6) [OF assms(1)]
  by (auto simp: check_if_outside_def num_bits_def length_of_def split: kind.splits)

theorem test_value:
  assumes "number_ok k u" "0 \<le> i"
  shows "test k u i \<longleftrightarrow> bit (val u) (nat i)"
proof (cases "check_if_outside k u i")
  case True
  then show ?thesis using bit_sign [OF assms(1) True assms(2)] by (simp add: test_def)
next
  case False
  note c = SM_to_2C_value [OF assms(1)] and l = inside [OF assms(1) False]
  have "test k u i \<longleftrightarrow> digit (number_SM_to_2C u) ! digit_ord (nat i) AND one_and_zeros (bit_ord (nat i)) \<noteq> 0"
    using False by (simp add: test_def Let_def number_SM_to_2C_def convert_SM_to_2C_def)
  then show ?thesis using test_bit_value [OF c(2)] c(3) l(2) bit_below [OF c(1)] by simp
qed

lemma masked_digit:
  assumes "digits_ok d" "q < length d"
  shows "d[q := d ! q AND DIGIT_MASK] = d"
proof -
  have "d ! q AND DIGIT_MASK = d ! q"
    using digits_ok_nth [OF assms] by (intro word_unat_eq_iff [THEN iffD2]) (simp add: digit_unat)
  then show ?thesis by simp
qed

lemma written_bit:
  assumes "number_ok k u" "\<not> check_if_outside k u i"
  shows "yields k u
    (convert_2C_to_SM k (u\<lparr>digit := safe_set (nat i) v (digit (number_SM_to_2C u))\<rparr>))
    (if v then set_bit (nat i) (val u) else unset_bit (nat i) (val u))" (is "yields k u _ ?x")
proof -
  note c = SM_to_2C_value [OF assms(1)] and l = inside [OF assms]
  let ?d = "safe_set (nat i) v (digit (number_SM_to_2C u))"
  have s: "digits_ok ?d" "length ?d = length (digit u)"
    "bit (dval ?d) j = (if j = nat i then v else bit (dval (digit (number_SM_to_2C u))) j)" for j
    using safe_set_value [OF c(2), of "nat i" v] l(2) c(3) by simp_all
  have "int (dval ?d) = ?x mod 2 ^ (30 * length (digit u))"
  proof (rule bit_eqI)
    fix j
    show "bit (int (dval ?d)) j = bit (?x mod 2 ^ (30 * length (digit u))) j"
      using l(2) by (auto simp: bit_of_nat_iff s(3) bit_below [OF c(1)] bit_take_bit_iff bit_set_bit_iff
          bit_unset_bit_iff simp flip: take_bit_eq_mod)
  qed
  then show ?thesis using digits_2C_value [OF assms(1) s(1,2)] by simp
qed

theorem set_bit_value:
  assumes "number_ok k u"
  shows "yields k u (set_number_bit k u i)
    (if check_if_outside k u i then val u else set_bit (nat i) (val u))"
proof (cases "check_if_outside k u i")
  case False
  note c = SM_to_2C_value [OF assms] and l = inside [OF assms False]
  let ?d = "safe_set (nat i) True (digit (number_SM_to_2C u))"
  have "digits_ok ?d" "digit_ord (nat i) < length ?d"
    using safe_set_value(1,2) [OF c(2), of "nat i" True] l(2) c(3)
    by (simp_all add: digit_ord_def digit_consts less_mult_imp_div_less mult.commute)
  from masked_digit [OF this] have "set_number_bit k u i = convert_2C_to_SM k (u\<lparr>digit := ?d\<rparr>)"
    using False by (simp add: set_number_bit_def Let_def safe_set_def)
  then show ?thesis using written_bit [OF assms False, of True] False by simp
qed (simp add: set_number_bit_def unchanged [OF assms])

theorem clear_bit_value:
  assumes "number_ok k u"
  shows "yields k u (clear_number_bit k u i)
    (if check_if_outside k u i then val u else unset_bit (nat i) (val u))"
proof (cases "check_if_outside k u i")
  case False
  note c = SM_to_2C_value [OF assms] and l = inside [OF assms False]
  let ?d = "safe_set (nat i) False (digit (number_SM_to_2C u))"
  have "digits_ok ?d" "digit_ord (nat i) < length ?d"
    using safe_set_value(1,2) [OF c(2), of "nat i" False] l(2) c(3)
    by (simp_all add: digit_ord_def digit_consts less_mult_imp_div_less mult.commute)
  from masked_digit [OF this] have "clear_number_bit k u i = convert_2C_to_SM k (u\<lparr>digit := ?d\<rparr>)"
    using False by (simp add: clear_number_bit_def Let_def safe_set_def)
  then show ?thesis using written_bit [OF assms False, of False] False by simp
qed (simp add: clear_number_bit_def unchanged [OF assms])

lemma bit_wrap:
  assumes "number_ok k u" "j < length_of k u"
  shows "bit (wrap_of k (nbits u) x) j = bit x j"
proof (cases k)
  case Signed
  then have "min j (nbits u - 1) = j" using assms(2) by (simp add: length_of_def)
  then show ?thesis using Signed by (simp add: wrap_of_def bit_signed_take_bit_iff)
next
  case Unsigned
  then show ?thesis
    using assms(2) by (simp add: wrap_of_def length_of_def bit_take_bit_iff flip: take_bit_eq_mod)
qed

lemma length_SM_to_2C [simp]: "length_of k (number_SM_to_2C u) = length_of k u"
  by (cases k) (simp_all add: length_of_def number_SM_to_2C_def)

theorem reverse_value:
  assumes "number_ok k u" "0 < length_of k u"
  shows "\<exists>u'. reverse_number k u = Some u' \<and> number_ok k u' \<and> nbits u' = nbits u \<and>
    (\<forall>j < length_of k u. bit (val u') j \<longleftrightarrow> bit (val u) (length_of k u - 1 - j))"
proof -
  note p = number_parts [OF assms(1)] and c = SM_to_2C_value [OF assms(1)]
  let ?D = "digit (number_SM_to_2C u)" and ?n = "length_of k u" and ?m = "30 * length (digit u)"
  have n: "?n \<le> nbits u" by (simp add: length_of_def split: kind.splits)
  obtain d where d: "vec_reverse ?n (ndigits u) ?D (?n - 1) 0 = Some d" "digits_ok d" "length d = length ?D"
    "\<forall>j. bit (dval d) j = (if 0 \<le> j \<and> j \<le> ?n - 1 then bit (dval ?D) (?n - 1 + 0 - j) else bit (dval ?D) j)"
    using vec_reverse_value [OF c(2), of "ndigits u" 0 "?n - 1" ?n] assms(2) p(4,6) c(3) n by auto
  have "int (dval d) < 2 ^ ?m" using dval_less [OF d(2)] d(3) c(3) by (simp add: radix_power)
  then have "int (dval d) = int (dval d) mod 2 ^ ?m" by simp
  from digits_2C_value [OF assms(1) d(2) _ this] have y:
    "yields k u (convert_2C_to_SM k (u\<lparr>digit := d\<rparr>)) (int (dval d))" using d(3) c(3) by simp
  have "bit (wrap_of k (nbits u) (int (dval d))) j \<longleftrightarrow> bit (val u) (?n - 1 - j)" if "j < ?n" for j
    using that d(4) n p(6) by (auto simp: bit_wrap [OF assms(1) that] bit_of_nat_iff bit_below [OF c(1)])
  then show ?thesis using y d(1) by (auto simp: reverse_number_def Let_def yields_def)
qed

theorem to_uintx_value:
  assumes "number_ok k u" "LENGTH('a) \<le> 30 * n"
  shows "to_uintx k n u = (word_of_int (take_bit (nbits u) (val u)) :: 'a::len word)"
proof -
  note p = number_parts [OF assms(1)] and uop = number_operand [OF assms(1)]
  let ?w = "\<lambda>d. digits_to_word (min n (length (digit u))) d 0 :: 'a word"
  consider "sgn u = SC_ZERO" | "sgn u = SC_POS" | "sgn u = SC_NEG" using p(2) by (auto simp: sign_ok_def)
  then show ?thesis
  proof cases
    case 1
    then show ?thesis using val_zero_iff [OF uop] by (simp add: to_uintx_def)
  next
    case 2
    have "val u = int (dval (digit u))" using 2 by (simp add: val_def)
    moreover have "take_bit (nbits u) (val u) = val u"
      using p(3,5) in_range_less [OF p(5) p(3) [unfolded val_def]] calculation
      by (simp add: take_bit_int_eq_self)
    ultimately show ?thesis
      using 2 p(4) digits_to_word_all [OF assms(2), of "digit u"] by (simp add: to_uintx_def Let_def)
  next
    case 3
    then have k: "k = Signed"
      using assms(1) by (cases k) (auto simp: number_ok_def ok_of_def unsigned_ok_def)
    note c = SM_to_2C_value [OF assms(1)] and t = sized_top [OF p(1)]
    let ?D = "digit (number_SM_to_2C u)" and ?b = "bit_ord (nbits u - 1) + 1"
    define d where "d = convert_SM_to_2C_trimmed 1 (sgn u) (nbits u) (ndigits u) (digit u)"
    have D: "?D \<noteq> []" using t(1) c(3) by auto
    have d: "d = ?D[length ?D - 1 := ?D ! (length ?D - 1) AND one_and_ones ?b]"
      using 3 p(4) c(3) by (simp add: d_def convert_SM_to_2C_trimmed_def trim_digits_def
          number_SM_to_2C_def convert_SM_to_2C_def)
    have "dval d = dval ?D mod 2 ^ (30 * (length ?D - 1) + ?b)"
      unfolding d by (rule trim_top(2) [OF D c(2)])
    then have "dval d = dval ?D mod 2 ^ nbits u" by (simp only: c(3) t(4))
    moreover have "length d = length (digit u)" by (simp add: d c(3))
    ultimately have "int (dval d) = take_bit (nbits u) (val u)" "length d = length (digit u)"
      using p(6) by (simp_all add: zmod_int c(1) take_bit_eq_mod mod_mod_cancel le_imp_power_dvd)
    moreover from this have "?w d = word_of_int (take_bit (nbits u) (val u))"
      using digits_to_word_all [OF assms(2), of d] by (simp flip: calculation(1))
    ultimately show ?thesis
      using 3 k p(4) by (simp add: to_uintx_def Let_def if_sc_signed_def d_def)
  qed
qed

theorem to_uint64_value: "number_ok k u \<Longrightarrow> to_uint64 k u = word_of_int (take_bit (nbits u) (val u))"
  by (simp add: to_uint64_def to_uintx_value DIGITS_PER_INT64_def)

theorem to_uint_value: "number_ok k u \<Longrightarrow> to_uint k u = word_of_int (take_bit (nbits u) (val u))"
  by (simp add: to_uint_def to_uintx_value DIGITS_PER_INT_def)

section \<open>The complement\<close>

lemma parts_value:
  assumes "digits_ok d" "nd = length d" "nd \<le> DIV_CEIL (num_bits k nb)" "sign_ok s d"
    "dval d < 2 ^ num_bits k nb"
  defines "u \<equiv> number_from_parts k s nb nd d"
  shows "val u = smval s d" "nbits u = num_bits k nb" "operand_ok u"
proof -
  let ?n = "DIV_CEIL (num_bits k nb)"
  have "digit u = d @ replicate (?n - nd) 0"
    using assms(2,3) by (auto simp: u_def number_from_parts_def Let_def vec_copy_eq vec_copy_and_zero_eq)
  moreover have f: "sgn u = s" "nbits u = num_bits k nb" "ndigits u = ?n"
    by (simp_all add: u_def number_from_parts_def Let_def)
  ultimately have d: "dval (digit u) = dval d" "digits_ok (digit u)" "length (digit u) = ?n"
    using assms(1-3) by simp_all
  show "val u = smval s d" "nbits u = num_bits k nb" "operand_ok u"
    using assms(4,5) d f unfolding val_def smval_def operand_ok_def sign_ok_def by auto
qed

lemma is_zero_vec_eq: "n \<le> length u \<Longrightarrow> is_zero_vec n u \<longleftrightarrow> dval (take n u) = 0"
  using check_for_zero_eq [of n u SC_POS] by (auto simp: is_zero_vec_def check_for_zero_def split: if_splits)

lemma DIV_CEIL_mono: "a \<le> b \<Longrightarrow> DIV_CEIL a \<le> DIV_CEIL b"
  by (simp add: DIV_CEIL_def div_le_mono)

theorem complement_value:
  assumes "number_ok k u"
  shows "val (complement_number k u) = NOT (val u)" (is ?val)
    and "nbits (complement_number k u) = num_bits k (nbits u)" (is ?bits)
    and "operand_ok (complement_number k u)" (is ?ok)
proof -
  note p = number_parts [OF assms] and uop = number_operand [OF assms] and t = sized_top [OF p(1)]
  let ?d = "digit u" and ?nb = "num_bits k (nbits u)"
  have one: "digits_ok [1]" "dval [1] = 1" by simp_all
  have nb: "nbits u \<le> ?nb" by (simp add: num_bits_def split: kind.splits)
  then have n: "length ?d \<le> DIV_CEIL ?nb" using p(1) DIV_CEIL_mono by (simp add: sized_def)
  have small: "dval ?d < 2 ^ nbits u" using uop by (simp add: operand_ok_def)
  have pow: "(2 :: nat) ^ nbits u \<le> 2 ^ ?nb" "(2 :: nat) ^ nbits u \<le> radix ^ length ?d"
    using nb p(6) unfolding radix_power by (simp_all add: power_increasing)
  consider "sgn u = SC_ZERO" | "sgn u = SC_POS" | "sgn u = SC_NEG" using p(2) by (auto simp: sign_ok_def)
  then have "?val \<and> ?bits \<and> ?ok"
  proof cases
    case 1
    have "(1 :: nat) < 2 ^ ?nb" using p(5) nb by (intro one_less_power) simp_all
    then have "val (number_from_parts k SC_NEG (nbits u) 1 [1]) = - 1"
      "nbits (number_from_parts k SC_NEG (nbits u) 1 [1]) = ?nb"
      "operand_ok (number_from_parts k SC_NEG (nbits u) 1 [1])"
      using parts_value [OF one(1), of 1 k "nbits u" SC_NEG] by (simp_all add: DIV_CEIL_def sign_ok_def)
    moreover have "val u = 0" using 1 val_zero_iff [OF uop] by simp
    ultimately show ?thesis using 1 by (simp add: complement_number_def)
  next
    case 2
    let ?e = "vec_add_small_on (length ?d) ?d 1"
    have v: "val u = int (dval ?d)" using 2 by (simp add: val_def)
    then have "int (dval ?d) < 2 ^ (nbits u - 1)"
      using p(3) assms 2 by (auto simp: number_ok_def ok_of_def signed_ok_def unsigned_ok_def val_def
        split: kind.splits)
    then have "int (dval ?d) < int (2 ^ (nbits u - 1))" by simp
    then have "dval ?d < 2 ^ (nbits u - 1)" by (simp only: of_nat_less_iff)
    moreover have "(2 :: nat) ^ nbits u = 2 * 2 ^ (nbits u - 1)" using p(5) by (cases "nbits u") simp_all
    moreover have "(0 :: nat) < 2 ^ (nbits u - 1)" by simp
    ultimately have less: "dval ?d + 1 < 2 ^ nbits u" by linarith
    then have e: "dval ?e = dval ?d + 1" "digits_ok ?e" "length ?e = length ?d"
      using vec_add_small_on_value [OF p(7), of 1] pow(2) by simp_all
    have "val (number_from_parts k SC_NEG (nbits u) (length ?d) ?e) = smval SC_NEG ?e"
      "nbits (number_from_parts k SC_NEG (nbits u) (length ?d) ?e) = ?nb"
      "operand_ok (number_from_parts k SC_NEG (nbits u) (length ?d) ?e)"
      using parts_value [OF e(2), of "length ?d" k "nbits u" SC_NEG] n e less pow(1)
      by (simp_all add: sign_ok_def)
    then show ?thesis using 2 v e(1) p(4) by (simp add: complement_number_def Let_def not_int_def)
  next
    case 3
    let ?e = "vec_sub_small_on (length ?d) ?d 1"
    let ?s = "if is_zero_vec (length ?d) ?e then SC_ZERO else SC_POS"
    have v: "val u = - int (dval ?d)" using 3 by (simp add: val_def)
    have pos: "1 \<le> dval ?d" using 3 p(2) by (auto simp: sign_ok_def Suc_le_eq)
    have e: "dval ?e = dval ?d - 1" "digits_ok ?e" "length ?e = length ?d"
      using vec_sub_small_on_value [OF p(7), of 1] pos by simp_all
    define s where "s = ?s"
    have s: "s = (if dval ?e = 0 then SC_ZERO else SC_POS)"
      using is_zero_vec_eq [of "length ?d" ?e] e(3) by (simp add: s_def)
    have "dval ?e < 2 ^ ?nb" using e(1) small pow(1) by linarith
    note v' = parts_value [OF e(2) e(3) [symmetric] n _ this, of s]
    have "sign_ok s ?e" by (simp add: s sign_ok_def)
    moreover have "smval s ?e = int (dval ?d) - 1" using e(1) pos by (simp add: s smval_def)
    ultimately have "val (number_from_parts k s (nbits u) (length ?d) ?e) = int (dval ?d) - 1"
      "nbits (number_from_parts k s (nbits u) (length ?d) ?e) = ?nb"
      "operand_ok (number_from_parts k s (nbits u) (length ?d) ?e)"
      using v' by simp_all
    moreover have "complement_number k u = number_from_parts k s (nbits u) (length ?d) ?e"
      using 3 p(4) by (simp add: complement_number_def Let_def s_def)
    ultimately show ?thesis using v by (simp add: not_int_def)
  qed
  then show ?val ?bits ?ok by blast+
qed

end
