(* ===== verification/Dt_Packed.thy ===== *)
theory Dt_Packed
  imports Dt_Access
begin

text \<open>
  The packed representation of a number in words of 32 bits (datatypes/int/sc_nbcommon.inc) and
  the reductions of its bits to one (sc_signed.cpp, sc_unsigned.cpp).
\<close>

unbundle bit_operations_syntax

section \<open>Packed representation\<close>

text \<open>The words of 32 bits into which the bits are packed.\<close>

definition get_packed_rep :: "kind \<Rightarrow> sc_number \<Rightarrow> 32 word list" where
  "get_packed_rep k u =
     (let buf_ndigits = (length_of k u - 1) div 32 + 1;
          buf = replicate buf_ndigits 0
      in if sgn u = SC_ZERO then buf
         else
           let (d, buf) = (if sgn u = SC_POS then (digit u, buf)
                 else (vec_complement (ndigits u) (digit u), buf[buf_ndigits - 1 := NOT 0]))
           in foldl (\<lambda>buf i.
                buf[i div 32 :=
                  (if d ! digit_ord i AND one_and_zeros (bit_ord i) \<noteq> 0
                   then buf ! (i div 32) OR one_and_zeros (i mod 32)
                   else buf ! (i div 32) AND NOT (one_and_zeros (i mod 32)))])
              buf (rev [0..<length_of k u]))"

definition set_packed_rep :: "kind \<Rightarrow> sc_number \<Rightarrow> 32 word list \<Rightarrow> sc_number" where
  "set_packed_rep k u buf =
     (let d = vec_zero (ndigits u) (digit u);
          d = foldl (\<lambda>d i. safe_set i (buf ! (i div 32) AND one_and_zeros (i mod 32) \<noteq> 0) d)
                d (rev [0..<length_of k u])
      in convert_2C_to_SM k (u\<lparr>digit := d\<rparr>))"

section \<open>Reductions\<close>

text \<open>The loops on the digits below the top one; \<open>None\<close> is the early return of false.\<close>

fun and_reduce_loop :: "digit \<Rightarrow> digits \<Rightarrow> digit option" where
  "and_reduce_loop current [] = Some current"
| "and_reduce_loop current (d # ds) =
     (let current = drop_bit BITS_PER_DIGIT current + (d XOR DIGIT_MASK)
      in if current AND DIGIT_MASK \<noteq> DIGIT_MASK then None else and_reduce_loop current ds)"

definition and_reduce_signed :: "sc_number \<Rightarrow> bool" where
  "and_reduce_signed u =
     (sgn u = SC_NEG \<and>
      (case and_reduce_loop (push_bit BITS_PER_DIGIT 1) (take (ndigits u - 1) (digit u)) of
         None \<Rightarrow> False
       | Some current \<Rightarrow>
           let current = drop_bit BITS_PER_DIGIT current + (digit u ! (ndigits u - 1) XOR DIGIT_MASK);
               mask = NOT (push_bit (nbits u mod BITS_PER_DIGIT) (- 1))
           in current AND mask = mask))"

definition and_reduce_unsigned :: "sc_number \<Rightarrow> bool" where
  "and_reduce_unsigned u =
     (if sgn u = SC_ZERO then False
      else if \<exists>d \<in> set (take (ndigits u - 1) (digit u)). d AND DIGIT_MASK \<noteq> DIGIT_MASK then False
      else let mask = NOT (push_bit ((nbits u - 1) mod BITS_PER_DIGIT) (- 1))
           in digit u ! (ndigits u - 1) AND mask = mask)"

definition or_reduce :: "sc_number \<Rightarrow> bool" where
  "or_reduce u = (if sgn u = SC_ZERO then False else True)"

definition xor_reduce :: "kind \<Rightarrow> sc_number \<Rightarrow> bool" where
  "xor_reduce k u = foldl (\<lambda>odd i. if test k u (int i) then \<not> odd else odd) False [0..<length_of k u]"

section \<open>What the reductions compute\<close>

theorem or_reduce_value: "operand_ok u \<Longrightarrow> or_reduce u \<longleftrightarrow> val u \<noteq> 0"
  using val_zero_iff [of u] by (simp add: or_reduce_def)

theorem xor_reduce_value:
  assumes "number_ok k u"
  shows "xor_reduce k u \<longleftrightarrow> odd (card {i. i < length_of k u \<and> bit (val u) i})"
proof -
  have "foldl (\<lambda>odd i. if test k u (int i) then \<not> odd else odd) False [0..<n] \<longleftrightarrow>
      odd (card {i. i < n \<and> bit (val u) i})" for n
  proof (induction n)
    case (Suc n)
    have "{i. i < Suc n \<and> bit (val u) i} =
        (if bit (val u) n then insert n {i. i < n \<and> bit (val u) i} else {i. i < n \<and> bit (val u) i})"
      by (auto simp: less_Suc_eq)
    then show ?case using Suc by (simp add: test_value [OF assms])
  qed simp
  then show ?thesis by (simp add: xor_reduce_def)
qed

text \<open>All digits are full below the top one, and the top one up to the bit \<open>r\<close>.\<close>

lemma all_less_add: "(\<forall>i < a + r. P i) \<longleftrightarrow> (\<forall>i < a. P i) \<and> (\<forall>j < r. P (a + j))" for a r :: nat
proof (intro iffI conjI allI impI)
  fix i assume "(\<forall>i < a. P i) \<and> (\<forall>j < r. P (a + j))" "i < a + r"
  then show "P i" by (cases "i < a") (auto dest: spec [of _ "i - a"])
qed simp_all

lemma full_bits:
  assumes "digits_ok d" "d \<noteq> []" "r < 30"
  shows "(\<forall>x \<in> set (butlast d). x = DIGIT_MASK) \<and> last d AND mask r = mask r \<longleftrightarrow>
    (\<forall>i < 30 * (length d - 1) + r. bit (dval d) i)"
proof -
  obtain ds t where d: "d = ds @ [t]" using assms(2) by (metis append_butlast_last_id)
  have full: "x = DIGIT_MASK \<longleftrightarrow> (\<forall>j < 30. bit x j)" if "unat x < radix" for x :: digit
  proof -
    have "x AND mask 30 = x" using that by (intro word_unat_eq_iff [THEN iffD2]) (simp add: and_mask_unat)
    then have x: "j < 30" if "bit x j" for j using that by (metis bit_and_iff bit_mask_iff)
    have m: "DIGIT_MASK = (mask 30 :: digit)" by (simp add: digit_consts mask_eq_exp_minus_1)
    have b: "bit DIGIT_MASK j \<longleftrightarrow> j < 30" for j unfolding m by (auto simp: bit_mask_iff)
    have "x = DIGIT_MASK" if "\<forall>j < 30. bit x j" by (rule bit_eqI) (use that x b in blast)
    then show ?thesis using b by blast
  qed
  have top: "t AND mask r = mask r \<longleftrightarrow> (\<forall>j < r. bit t j)"
  proof (intro iffI allI impI)
    fix j assume m: "t AND mask r = mask r" and "j < r"
    then have "bit (t AND mask r) j" using assms(3) unfolding m by (simp add: bit_mask_iff)
    then show "bit t j" by (simp add: bit_and_iff)
  next
    assume "\<forall>j < r. bit t j"
    then show "t AND mask r = mask r" by (intro bit_eqI) (auto simp: bit_and_iff bit_mask_iff)
  qed
  have b: "bit (dval d) i \<longleftrightarrow> i div 30 < length d \<and> bit (d ! (i div 30)) (i mod 30)" for i
    by (rule bit_dval [OF assms(1)])
  have "(\<forall>x \<in> set ds. x = DIGIT_MASK) \<longleftrightarrow> (\<forall>q < length ds. \<forall>j < 30. bit (ds ! q) j)"
    using full assms(1) by (auto simp: d all_set_conv_all_nth digits_ok_nth)
  also have "\<dots> \<longleftrightarrow> (\<forall>i < 30 * length ds. bit (dval d) i)"
  proof (intro iffI allI impI)
    fix i assume "\<forall>q < length ds. \<forall>j < 30. bit (ds ! q) j" "i < 30 * length ds"
    moreover from this(2) have "i div 30 < length ds" by (simp add: less_mult_imp_div_less mult.commute)
    ultimately show "bit (dval d) i" unfolding b by (simp add: d nth_append)
  next
    fix q j :: nat assume a: "\<forall>i < 30 * length ds. bit (dval d) i" "q < length ds" "j < 30"
    then have "30 * q + j < 30 * length ds" by linarith
    then have "bit (dval d) (30 * q + j)" using a(1) by blast
    then show "bit (ds ! q) j" using a(2,3) unfolding b by (simp add: d nth_append)
  qed
  finally have low: "(\<forall>x \<in> set ds. x = DIGIT_MASK) \<longleftrightarrow> (\<forall>i < 30 * length ds. bit (dval d) i)" .
  have high: "bit (dval d) (30 * length ds + j) \<longleftrightarrow> bit t j" if "j < r" for j
    using that assms(3) unfolding b by (simp add: d nth_append)
  have "(\<forall>i < 30 * length ds + r. bit (dval d) i) \<longleftrightarrow>
      (\<forall>i < 30 * length ds. bit (dval d) i) \<and> (\<forall>j < r. bit (dval d) (30 * length ds + j))"
    by (rule all_less_add)
  then show ?thesis using low top high by (simp add: d)
qed

lemma digit_flip: "unat d < radix \<Longrightarrow> d XOR DIGIT_MASK = NOT d AND DIGIT_MASK"
proof -
  assume "unat d < radix"
  then have "d AND DIGIT_MASK = d" by (intro word_unat_eq_iff [THEN iffD2]) (simp add: digit_unat)
  then have "d XOR DIGIT_MASK = (d AND DIGIT_MASK) XOR DIGIT_MASK" by simp
  also have "\<dots> = NOT d AND DIGIT_MASK" by (rule bit_eqI) (auto simp: bit_simps)
  finally show ?thesis .
qed

lemma digit_mask_and: "mask (n mod 30) AND DIGIT_MASK = (mask (n mod 30) :: digit)"
proof -
  have m: "DIGIT_MASK = (mask 30 :: digit)" by (simp add: digit_consts mask_eq_exp_minus_1)
  have "n mod 30 < 30" by simp
  then show ?thesis unfolding m by (intro bit_eqI) (auto simp: bit_and_iff bit_mask_iff)
qed

lemma and_reduce_loop_full:
  "digits_ok (ds @ [t]) \<Longrightarrow> m AND DIGIT_MASK = m \<Longrightarrow>
     (case and_reduce_loop current ds of None \<Rightarrow> False
      | Some current \<Rightarrow> (drop_bit BITS_PER_DIGIT current + (t XOR DIGIT_MASK)) AND m = m) \<longleftrightarrow>
     (\<forall>x \<in> set (butlast (complement_loop (drop_bit BITS_PER_DIGIT current) (ds @ [t]))). x = DIGIT_MASK) \<and>
     last (complement_loop (drop_bit BITS_PER_DIGIT current) (ds @ [t])) AND m = m"
proof (induction ds arbitrary: current)
  case Nil
  have "t XOR DIGIT_MASK = NOT t AND DIGIT_MASK" using Nil.prems by (simp add: digit_flip)
  moreover have "(x AND DIGIT_MASK) AND m = x AND m" for x :: digit
    using Nil.prems(2) by (simp add: and.assoc and.commute [of DIGIT_MASK m])
  ultimately show ?case by (simp add: Let_def)
next
  case (Cons d ds)
  have "d XOR DIGIT_MASK = NOT d AND DIGIT_MASK" using Cons.prems by (simp add: digit_flip)
  moreover have "complement_loop c (ds @ [t]) \<noteq> []" for c
    by (metis complement_loop_length length_0_conv snoc_eq_iff_butlast)
  ultimately show ?case using Cons by (simp add: Let_def)
qed

text \<open>
  The conjunction of all bits of a signed number: the mask for the top digit is empty when the
  number of bits is a multiple of 30, and then the bits of the top digit are not looked at.
\<close>

theorem and_reduce_signed_value:
  assumes "number_ok Signed u"
  shows "and_reduce_signed u \<longleftrightarrow>
    val u < 0 \<and> (\<forall>i < 30 * (ndigits u - 1) + nbits u mod 30. bit (val u) i)"
proof (cases "sgn u = SC_NEG")
  case True
  note p = number_parts [OF assms] and c = SM_to_2C_value [OF assms] and t = sized_top [OF p(1)]
  let ?D = "digit (number_SM_to_2C u)" and ?r = "nbits u mod 30"
  have mask: "NOT (push_bit ?r (- 1)) = (mask ?r :: digit)" by (simp add: push_bit_minus_one_eq_not_mask)
  have m: "mask ?r AND DIGIT_MASK = mask ?r" by (simp add: digit_mask_and)
  obtain ds x where d: "digit u = ds @ [x]" using t(1) by (metis append_butlast_last_id)
  have D: "?D = complement_loop 1 (ds @ [x])"
    using True p(4) by (simp add: number_SM_to_2C_def convert_SM_to_2C_def vec_complement_def d)
  have ne: "?D \<noteq> []" using c(3) t(1) by auto
  have one: "drop_bit BITS_PER_DIGIT (push_bit BITS_PER_DIGIT 1) = (1 :: digit)"
    by (simp add: digit_consts)
  have "and_reduce_signed u \<longleftrightarrow>
      (\<forall>x \<in> set (butlast ?D). x = DIGIT_MASK) \<and> last ?D AND mask ?r = mask ?r"
    using and_reduce_loop_full [of ds x "mask ?r" "push_bit BITS_PER_DIGIT 1"] p(4,7) m
    by (simp add: and_reduce_signed_def True d D mask one Let_def nth_append digit_consts split: option.splits)
  also have "\<dots> \<longleftrightarrow> (\<forall>i < 30 * (length ?D - 1) + ?r. bit (dval ?D) i)"
    by (rule full_bits [OF c(2) ne]) simp
  also have "\<dots> \<longleftrightarrow> (\<forall>i < 30 * (length (digit u) - 1) + ?r. bit (val u) i)"
  proof -
    have "0 < length (digit u)" "?r < 30" using t(1) by simp_all
    then have "i < 30 * length (digit u)" if "i < 30 * (length (digit u) - 1) + ?r" for i
      using that by linarith
    then show ?thesis unfolding bit_below [OF c(1)] c(3) by blast
  qed
  finally show ?thesis using True p(2,4) by (auto simp: val_def sign_ok_def)
next
  case False
  then have "\<not> val u < 0" by (simp add: val_def smval_def)
  then show ?thesis using False by (simp add: and_reduce_signed_def)
qed

lemma all_ones:
  assumes "number_ok Signed u"
  shows "(\<forall>i < nbits u. bit (val u) i) \<longleftrightarrow> val u = - 1"
proof
  assume a: "\<forall>i < nbits u. bit (val u) i"
  note p = number_parts [OF assms]
  have r: "- (2 ^ (nbits u - 1)) \<le> val u" "val u < 2 ^ (nbits u - 1)"
    using assms by (simp_all add: number_ok_def ok_of_def signed_ok_def val_def)
  have "bit (val u) (nbits u - 1)" using a p(5) by simp
  then have neg: "val u < 0" using bit_beyond [OF r order_refl] by simp
  have "bit (val u) i" for i using a bit_beyond [OF r, of i] neg by (cases "i < nbits u") auto
  then show "val u = - 1" by (intro bit_eqI) simp
qed simp

theorem and_reduce_signed_right:
  assumes "number_ok Signed u" "nbits u mod 30 \<noteq> 0"
  shows "and_reduce_signed u \<longleftrightarrow> val u = - 1"
proof -
  note p = number_parts [OF assms(1)] and t = sized_top [OF p(1)]
  have "nbits u - 1 = 30 * (nbits u div 30) + (nbits u mod 30 - 1)" "nbits u mod 30 - 1 < 30"
    using mult_div_mod_eq [of 30 "nbits u"] assms(2) by linarith+
  then have "(nbits u - 1) div 30 = nbits u div 30" by (metis split_index(1))
  then have "30 * (ndigits u - 1) + nbits u mod 30 = nbits u" using p(4) t(3) by simp
  then show ?thesis
    using and_reduce_signed_value [OF assms(1)] all_ones [OF assms(1)] by auto
qed

text \<open>With 30 bits every negative number passes for one whose bits are all set.\<close>

theorem and_reduce_signed_wrong:
  assumes "number_ok Signed u" "nbits u = 30"
  shows "and_reduce_signed u \<longleftrightarrow> val u < 0"
proof -
  note p = number_parts [OF assms(1)] and t = sized_top [OF p(1)]
  have "ndigits u = 1" using p(1,4) assms(2) by (simp add: sized_def DIV_CEIL_def digit_consts)
  then show ?thesis using and_reduce_signed_value [OF assms(1)] assms(2) by simp
qed

theorem and_reduce_unsigned_value:
  assumes "number_ok Unsigned u" "0 < length_of Unsigned u"
  shows "and_reduce_unsigned u \<longleftrightarrow> val u = mask (length_of Unsigned u)"
proof -
  note p = number_parts [OF assms(1)] and t = sized_top [OF p(1)] and uop = number_operand [OF assms(1)]
  let ?n = "nbits u - 1"
  have v: "val u = int (dval (digit u))" and pos: "sgn u \<noteq> SC_NEG"
    using assms(1) by (auto simp: number_ok_def ok_of_def unsigned_ok_def val_def smval_def)
  have less: "val u < 2 ^ ?n" "0 \<le> val u"
    using assms(1) by (auto simp: number_ok_def ok_of_def unsigned_ok_def v)
  have mask: "NOT (push_bit r (- 1)) = (mask r :: digit)" for r
    by (simp add: push_bit_minus_one_eq_not_mask)
  have top: "\<And>r. digit u ! (ndigits u - 1) AND mask r = last (digit u) AND (mask r :: digit)"
    using t(1) p(4) by (simp add: last_conv_nth)
  have low: "x AND DIGIT_MASK = x" if "x \<in> set (take (ndigits u - 1) (digit u))" for x
    using p(7) that by (intro word_unat_eq_iff [THEN iffD2])
      (auto simp: digit_unat digits_ok_def dest: in_set_takeD)
  have n: "?n = 30 * (length (digit u) - 1) + ?n mod 30" using t(3) by simp
  have "\<not> (\<exists>d \<in> set (take (ndigits u - 1) (digit u)). d AND DIGIT_MASK \<noteq> DIGIT_MASK) \<longleftrightarrow>
      (\<forall>x \<in> set (butlast (digit u)). x = DIGIT_MASK)"
    using low p(4) by (simp add: butlast_conv_take)
  then have "and_reduce_unsigned u \<longleftrightarrow> sgn u \<noteq> SC_ZERO \<and>
      (\<forall>x \<in> set (butlast (digit u)). x = DIGIT_MASK) \<and> last (digit u) AND mask (?n mod 30) = mask (?n mod 30)"
    by (simp only: and_reduce_unsigned_def mask top Let_def digit_consts) auto
  also have "\<dots> \<longleftrightarrow> val u \<noteq> 0 \<and> (\<forall>i < 30 * (length (digit u) - 1) + ?n mod 30. bit (dval (digit u)) i)"
    using full_bits [OF p(7) t(1), of "?n mod 30"] val_zero_iff [OF uop] by simp
  also have "\<dots> \<longleftrightarrow> val u \<noteq> 0 \<and> (\<forall>i < ?n. bit (val u) i)"
    by (simp only: n [symmetric] v bit_of_nat_iff) (simp add: bit_of_nat_iff)
  also have "\<dots> \<longleftrightarrow> val u = mask ?n"
  proof (intro iffI conjI)
    assume "val u \<noteq> 0 \<and> (\<forall>i < ?n. bit (val u) i)"
    moreover have "bit (val u) i \<Longrightarrow> i < ?n" for i
      using bit_beyond [of ?n "val u" i] less by (cases "i < ?n") auto
    ultimately show "val u = mask ?n" by (intro bit_eqI) (auto simp: bit_mask_iff)
  next
    assume m: "val u = mask ?n"
    have "bit (mask ?n :: int) 0" using assms(2) by (simp add: bit_mask_iff length_of_def)
    then show "val u \<noteq> 0" unfolding m by auto
    show "\<forall>i < ?n. bit (val u) i" by (simp add: m bit_mask_iff)
  qed
  finally show ?thesis by (simp add: length_of_def)
qed

section \<open>What is packed\<close>

lemma packed_bits:
  fixes f :: "nat \<Rightarrow> bool" and buf :: "32 word list"
  defines "put b i \<equiv> b[i div 32 := (if f i then b ! (i div 32) OR one_and_zeros (i mod 32)
                                  else b ! (i div 32) AND NOT (one_and_zeros (i mod 32)))]"
  assumes "n \<le> 32 * length buf"
  shows "length (foldl put buf (rev [0..<n])) = length buf \<and>
    (\<forall>j < 32 * length buf. bit (foldl put buf (rev [0..<n]) ! (j div 32)) (j mod 32) =
      (if j < n then f j else bit (buf ! (j div 32)) (j mod 32)))"
  using assms(2)
proof (induction n arbitrary: buf)
  case (Suc n)
  have l: "length (put buf n) = length buf" "n \<le> 32 * length (put buf n)"
    using Suc.prems by (simp_all add: put_def)
  have q: "n div 32 < length buf" using Suc.prems by (simp add: less_mult_imp_div_less mult.commute)
  have "bit (put buf n ! (j div 32)) (j mod 32) = (if j = n then f n else bit (buf ! (j div 32)) (j mod 32))"
    if "j < 32 * length buf" for j
  proof (cases "j div 32 = n div 32")
    case True
    then have "j = n \<longleftrightarrow> j mod 32 = n mod 32" by (metis div_mult_mod_eq)
    then show ?thesis
      using True q by (auto simp: put_def one_and_zeros_def bit_simps)
  next
    case False
    then show ?thesis by (auto simp: put_def)
  qed
  then show ?case using Suc.IH [OF l(2)] l(1) by (auto simp: less_Suc_eq)
qed simp

lemma safe_set_down:
  fixes f :: "nat \<Rightarrow> bool"
  assumes "digits_ok d" "n \<le> 30 * length d"
  shows "digits_ok (foldl (\<lambda>d i. safe_set i (f i) d) d (rev [0..<n])) \<and>
    length (foldl (\<lambda>d i. safe_set i (f i) d) d (rev [0..<n])) = length d \<and>
    (\<forall>j. bit (dval (foldl (\<lambda>d i. safe_set i (f i) d) d (rev [0..<n]))) j =
      (if j < n then f j else bit (dval d) j))"
  using assms
proof (induction n arbitrary: d)
  case (Suc n)
  have "n < 30 * length d" using Suc.prems by simp
  note s = safe_set_value [OF Suc.prems(1) this, of "f n"]
  then show ?case using Suc.IH [OF s(1)] Suc.prems by (auto simp: less_Suc_eq)
qed simp

theorem get_packed_rep_value:
  assumes "number_ok k u" "0 < length_of k u"
  defines "buf \<equiv> get_packed_rep k u"
  shows "length buf = (length_of k u - 1) div 32 + 1"
    and "i < length_of k u \<Longrightarrow> bit (buf ! (i div 32)) (i mod 32) \<longleftrightarrow> bit (val u) i"
proof -
  let ?n = "length_of k u" and ?D = "digit (number_SM_to_2C u)"
  note p = number_parts [OF assms(1)] and c = SM_to_2C_value [OF assms(1)]
  define m where "m = (?n - 1) div 32 + 1"
  define f where "f i \<longleftrightarrow> ?D ! digit_ord i AND one_and_zeros (bit_ord i) \<noteq> 0" for i
  have n: "?n \<le> nbits u" by (simp add: length_of_def split: kind.splits)
  have m: "?n \<le> 32 * m" "i < ?n \<Longrightarrow> i div 32 < m" for i
    using mult_div_mod_eq [of 32 "?n - 1"] mod_less_divisor [of 32 "?n - 1"]
    by (simp_all add: m_def less_Suc_eq_le div_le_mono)
  have f: "f i \<longleftrightarrow> bit (val u) i" if "i < ?n" for i
    using test_bit_value [OF c(2), of i] bit_below [OF c(1)] c(3) that n p(6) by (simp add: f_def)
  have "length buf = m \<and> (i < ?n \<longrightarrow> bit (buf ! (i div 32)) (i mod 32) = bit (val u) i)" for i
  proof (cases "sgn u = SC_ZERO")
    case True
    then have "val u = 0" "buf = replicate m 0"
      using val_zero_iff [OF number_operand [OF assms(1)]]
      by (simp_all add: buf_def get_packed_rep_def m_def Let_def)
    then show ?thesis using m(2) by simp
  next
    case False
    define b where "b = (if sgn u = SC_POS then replicate m 0 else (replicate m 0)[m - 1 := NOT 0 :: 32 word])"
    have "sgn u \<noteq> SC_POS \<Longrightarrow> sgn u = SC_NEG" using False p(2) by (auto simp: sign_ok_def)
    then have "buf = foldl (\<lambda>b i. b[i div 32 := (if f i then b ! (i div 32) OR one_and_zeros (i mod 32)
        else b ! (i div 32) AND NOT (one_and_zeros (i mod 32)))]) b (rev [0..<?n])"
      using False p(4) by (auto simp: buf_def get_packed_rep_def Let_def f_def b_def m_def
          number_SM_to_2C_def convert_SM_to_2C_def)
    moreover have lb: "length b = m" by (simp add: b_def)
    note pb = packed_bits [of ?n b f, unfolded lb, OF m(1)]
    ultimately have "length buf = m" "i < 32 * m \<Longrightarrow> i < ?n \<Longrightarrow> bit (buf ! (i div 32)) (i mod 32) = f i"
      using pb by simp_all
    then show ?thesis using m(1) f by (auto dest: order_less_le_trans)
  qed
  then show "length buf = (?n - 1) div 32 + 1"
    "i < ?n \<Longrightarrow> bit (buf ! (i div 32)) (i mod 32) \<longleftrightarrow> bit (val u) i" by (auto simp: m_def)
qed

theorem set_packed_rep_value:
  assumes "number_ok k u" "0 < length_of k u"
    and "\<And>i. i < length_of k u \<Longrightarrow> bit (buf ! (i div 32)) (i mod 32) \<longleftrightarrow> bit x i"
  shows "yields k u (set_packed_rep k u buf) x"
proof -
  let ?n = "length_of k u" and ?z = "vec_zero (ndigits u) (digit u)"
  let ?f = "\<lambda>i. buf ! (i div 32) AND one_and_zeros (i mod 32) \<noteq> 0"
  note p = number_parts [OF assms(1)] and t = sized_top [OF number_parts(1) [OF assms(1)]]
  define d where "d = foldl (\<lambda>d i. safe_set i (?f i) d) ?z (rev [0..<?n])"
  have n: "?n \<le> nbits u" by (simp add: length_of_def split: kind.splits)
  have z: "?z = replicate (length (digit u)) 0" by (simp add: p(4) vec_zero_eq)
  have f: "?f i \<longleftrightarrow> bit x i" if "i < ?n" for i using assms(3) [OF that] by (simp add: and_zeros_iff)
  have d: "digits_ok d" "length d = length (digit u)" "bit (dval d) j = (if j < ?n then bit x j else False)" for j
    using safe_set_down [of ?z ?n ?f] n p(6) f by (simp_all add: z d_def)
  have "yields k (u\<lparr>digit := d\<rparr>) (convert_2C_to_SM k (u\<lparr>digit := d\<rparr>)) (int (dval (digit (u\<lparr>digit := d\<rparr>))))"
    using p(1,4) d(1,2) by (intro convert_2C_value) (simp_all add: sized_def)
  then have y: "yields k u (set_packed_rep k u buf) (int (dval d))"
    by (simp add: set_packed_rep_def Let_def d_def yields_def)
  have md: "int (dval d) mod 2 ^ ?n = x mod 2 ^ ?n"
    by (rule bit_eqI) (auto simp: bit_of_nat_iff d(3) bit_take_bit_iff simp flip: take_bit_eq_mod)
  have "wrap_of k (nbits u) (int (dval d)) = wrap_of k (nbits u) x"
    using assms(2) md signed_take_bit_mod_cong [OF md, of "nbits u"]
    by (cases k) (simp_all add: length_of_def wrap_of_def)
  then show ?thesis using y by (simp add: yields_def)
qed

end
