(* ===== verification/Dt_Builtin.thy ===== *)
theory Dt_Builtin
  imports Dt_Number
begin

text \<open>
  The operators in place with a built-in integer as their operand (datatypes/int/sc_nbcommon.inc)
  and the assignment of one (sc_signed.cpp, sc_unsigned.cpp).  A \<^verbatim>\<open>long\<close> has the 64 bits of an
  \<^verbatim>\<open>int64\<close>, so that the overloads for it are the same functions.  The operand is turned into
  sign and digits, and what the operators compute follows from those on two numbers.
\<close>

unbundle bit_operations_syntax

section \<open>Built-in integers as operands\<close>

datatype builtin = Int64 "64 word" | UInt64 "64 word"

definition get_sign_of :: "builtin \<Rightarrow> int \<times> 64 word" where
  "get_sign_of v = (case v of Int64 v \<Rightarrow> get_sign v | UInt64 v \<Rightarrow> get_sign_unsigned v)"

definition is_zero :: "builtin \<Rightarrow> bool" where
  "is_zero v = (case v of Int64 v \<Rightarrow> v = 0 | UInt64 v \<Rightarrow> v = 0)"

text \<open>The cast to a signed integer.\<close>

definition to_signed :: "builtin \<Rightarrow> 64 word" where
  "to_signed v = (case v of Int64 v \<Rightarrow> v | UInt64 v \<Rightarrow> v)"

definition BITS_PER_UINT64 :: nat where "BITS_PER_UINT64 = 64"
definition DIGITS_PER_UINT64 :: nat where "DIGITS_PER_UINT64 = (BITS_PER_UINT64 + 29) div 30"

definition CONVERT_INT64_2 :: "64 word \<Rightarrow> digits" where
  "CONVERT_INT64_2 u = from_uint DIGITS_PER_UINT64 (replicate DIGITS_PER_UINT64 0) u"

definition CONVERT_INT64 :: "builtin \<Rightarrow> int \<times> digits" where
  "CONVERT_INT64 v = (let (vs, u) = get_sign_of v in (vs, CONVERT_INT64_2 u))"

section \<open>The operators\<close>

definition assign_builtin :: "kind \<Rightarrow> sc_number \<Rightarrow> builtin \<Rightarrow> sc_number" where
  "assign_builtin k u v =
     (let (s, w) = get_sign_of v; u = u\<lparr>sgn := s\<rparr>
      in if s = SC_ZERO then u\<lparr>digit := vec_zero (ndigits u) (digit u)\<rparr>
         else
           let u = u\<lparr>digit := from_uint (ndigits u) (digit u) w\<rparr>
           in case k of
                Signed \<Rightarrow> if nbits u \<le> 64 then number_SM_to_2C_to_SM Signed u else u
              | Unsigned \<Rightarrow> number_SM_to_2C_to_SM Unsigned u)"

definition plus_assign_builtin :: "kind \<Rightarrow> sc_number \<Rightarrow> builtin \<Rightarrow> sc_number" where
  "plus_assign_builtin k u v =
     (if sgn u = SC_ZERO then assign_builtin k u v
      else if is_zero v then u
      else
        let (vs, vd) = CONVERT_INT64 v
        in number_SM_to_2C_to_SM k
             (with_digits u (add_on_help (sgn u) (ndigits u) (digit u) vs DIGITS_PER_UINT64 vd)))"

definition minus_assign_builtin :: "kind \<Rightarrow> sc_number \<Rightarrow> builtin \<Rightarrow> sc_number" where
  "minus_assign_builtin k u v =
     (if is_zero v then u
      else if sgn u = SC_ZERO then assign_builtin k u (Int64 (- to_signed v))
      else
        let (vs, vd) = CONVERT_INT64 v
        in number_SM_to_2C_to_SM k
             (with_digits u (add_on_help (sgn u) (ndigits u) (digit u) (- vs) DIGITS_PER_UINT64 vd)))"

definition times_assign_builtin :: "kind \<Rightarrow> sc_number \<Rightarrow> builtin \<Rightarrow> sc_number" where
  "times_assign_builtin k u v =
     (let (vs, w) = get_sign_of v; u = u\<lparr>sgn := mul_signs (sgn u) vs\<rparr>
      in if sgn u = SC_ZERO then u\<lparr>digit := vec_zero (ndigits u) (digit u)\<rparr>
         else with_digits u
           ((case k of Signed \<Rightarrow> mul_on_help_signed | Unsigned \<Rightarrow> mul_on_help_unsigned)
             (sgn u) (nbits u) (ndigits u) (digit u) BITS_PER_UINT64 DIGITS_PER_UINT64 (CONVERT_INT64_2 w)))"

definition div_assign_builtin :: "kind \<Rightarrow> sc_number \<Rightarrow> builtin \<Rightarrow> sc_number + sc_number" where
  "div_assign_builtin k u v =
     (let (vs, w) = get_sign_of v; u = u\<lparr>sgn := mul_signs (sgn u) vs\<rparr>
      in if sgn u = SC_ZERO then
           if w = 0 then Inl u else Inr (u\<lparr>digit := vec_zero (ndigits u) (digit u)\<rparr>)
         else Inr (with_digits u
           ((case k of Signed \<Rightarrow> div_on_help_signed | Unsigned \<Rightarrow> div_on_help_unsigned)
             (sgn u) (nbits u) (ndigits u) (digit u) BITS_PER_UINT64 DIGITS_PER_UINT64 (CONVERT_INT64_2 w))))"

definition mod_assign_builtin :: "kind \<Rightarrow> sc_number \<Rightarrow> builtin \<Rightarrow> sc_number + sc_number" where
  "mod_assign_builtin k u v =
     (let (vs, w) = get_sign_of v
      in if sgn u = SC_ZERO \<or> vs = SC_ZERO then
           if w = 0 then Inl u else Inr (u\<lparr>digit := vec_zero (ndigits u) (digit u)\<rparr>)
         else Inr (with_digits u
           ((case k of Signed \<Rightarrow> mod_on_help_signed | Unsigned \<Rightarrow> mod_on_help_unsigned)
             (sgn u) (nbits u) (ndigits u) (digit u) DIGITS_PER_UINT64 (CONVERT_INT64_2 w))))"

definition and_assign_builtin :: "kind \<Rightarrow> sc_number \<Rightarrow> builtin \<Rightarrow> sc_number" where
  "and_assign_builtin k u v =
     (if sgn u = SC_ZERO \<or> is_zero v then makezero u
      else
        let (vs, vd) = CONVERT_INT64 v
        in convert_2C_to_SM k
             (u\<lparr>digit := and_on_help (sgn u) (ndigits u) (digit u) vs DIGITS_PER_UINT64 vd\<rparr>))"

definition or_assign_builtin :: "kind \<Rightarrow> sc_number \<Rightarrow> builtin \<Rightarrow> sc_number" where
  "or_assign_builtin k u v =
     (if is_zero v then u
      else if sgn u = SC_ZERO then assign_builtin k u v
      else
        let (vs, vd) = CONVERT_INT64 v
        in convert_2C_to_SM k
             (u\<lparr>digit := or_on_help (sgn u) (ndigits u) (digit u) vs DIGITS_PER_UINT64 vd\<rparr>))"

definition xor_assign_builtin :: "kind \<Rightarrow> sc_number \<Rightarrow> builtin \<Rightarrow> sc_number" where
  "xor_assign_builtin k u v =
     (if is_zero v then u
      else if sgn u = SC_ZERO then assign_builtin k u v
      else
        let (vs, vd) = CONVERT_INT64 v
        in convert_2C_to_SM k
             (u\<lparr>digit := xor_on_help (sgn u) (ndigits u) (digit u) vs DIGITS_PER_UINT64 vd\<rparr>))"

definition shl_assign_builtin :: "kind \<Rightarrow> sc_number \<Rightarrow> builtin \<Rightarrow> sc_number" where
  "shl_assign_builtin k u v =
     (case v of Int64 v \<Rightarrow> if v \<le>s 0 then u else shl_assign k u v
              | UInt64 v \<Rightarrow> if v = 0 then u else shl_assign k u v)"

definition shr_assign_builtin :: "kind \<Rightarrow> sc_number \<Rightarrow> builtin \<Rightarrow> sc_number" where
  "shr_assign_builtin k u v =
     (case v of Int64 v \<Rightarrow> if v \<le>s 0 then u else shr_assign k u v
              | UInt64 v \<Rightarrow> if v = 0 then u else shr_assign k u v)"

section \<open>The number that a built-in integer stands for\<close>

definition builtin_val :: "builtin \<Rightarrow> int" where
  "builtin_val v = (case v of Int64 v \<Rightarrow> sint v | UInt64 v \<Rightarrow> uint v)"

definition operand_of :: "builtin \<Rightarrow> sc_number" where
  "operand_of v =
     \<lparr>sgn = fst (CONVERT_INT64 v), nbits = 64, ndigits = DIGITS_PER_UINT64, digit = snd (CONVERT_INT64 v)\<rparr>"

lemma from_uint_loop_value:
  "length (from_uint_loop n v) \<le> n \<and> digits_ok (from_uint_loop n v) \<and>
     dval (from_uint_loop n v) = unat (v :: 64 word) mod radix ^ n"
proof (induction n arbitrary: v)
  case (Suc n)
  have m: "unat (v AND ucast DIGIT_MASK) = unat v mod radix"
    using unat_low_bits [of v 30] by (simp add: digit_consts)
  then have d: "unat (ucast (v AND ucast DIGIT_MASK) :: digit) = unat v mod radix"
    by (simp add: unsigned_ucast_eq take_bit_eq_mod)
  have r: "unat (drop_bit BITS_PER_DIGIT v) = unat v div radix"
    by (simp add: unat_drop_bit digit_consts)
  have "unat v mod radix ^ Suc n = radix * (unat v div radix mod radix ^ n) + unat v mod radix"
    by (simp add: mod_mult2_eq)
  then show ?case using Suc.IH [of "drop_bit BITS_PER_DIGIT v"] d r by simp
qed simp

lemma from_uint_value:
  fixes w :: "64 word" and d :: digits
  defines "d' \<equiv> from_uint (length d) d w"
  shows "dval d' = unat w mod radix ^ length d" "digits_ok d' " "length d' = length d"
proof -
  let ?l = "from_uint_loop (length d) w"
  note l = from_uint_loop_value [of "length d" w]
  have "d' = ?l @ replicate (length d - length ?l) 0"
    using l by (simp add: d'_def from_uint_def Let_def vec_zero_from_eq)
  then show "dval d' = unat w mod radix ^ length d" "digits_ok d' " "length d' = length d"
    using l by simp_all
qed

lemma sint_range64: "- 9223372036854775808 \<le> sint x" "sint x < 9223372036854775808" for x :: "64 word"
  using sint_ge [of x] sint_lt [of x] by simp_all

lemma uint_of_sint: "uint x = sint x mod 18446744073709551616" for x :: "64 word"
proof -
  have e: "word_of_int (sint x) = x" by simp
  have "uint (word_of_int (sint x) :: 64 word) = sint x mod 2 ^ 64" by (simp only: uint_word_of_int) simp
  then show ?thesis unfolding e by simp
qed

lemma uint_positive: "0 \<le> sint x \<Longrightarrow> uint x = sint x" for x :: "64 word"
  using sint_range64(2) [of x] by (simp add: uint_of_sint)

lemma uint_negated: "uint (- x) = - sint x" if "sint x < 0" for x :: "64 word"
proof -
  have "- x = word_of_int (- sint x)" by simp
  then have "uint (- x) = (- sint x) mod 2 ^ 64" by (simp only: uint_word_of_int) simp
  then show ?thesis using that sint_range64(1) [of x] by simp
qed

lemma get_sign_of_value:
  assumes "get_sign_of v = (s, w)"
  shows "s \<in> {SC_NEG, SC_ZERO, SC_POS}" "s = SC_ZERO \<longleftrightarrow> w = 0" "s = SC_ZERO \<longleftrightarrow> is_zero v"
    and "builtin_val v = (if s = SC_NEG then - uint w else uint w)" "is_zero v \<longleftrightarrow> builtin_val v = 0"
proof -
  have "s \<in> {SC_NEG, SC_ZERO, SC_POS} \<and> (s = SC_ZERO \<longleftrightarrow> w = 0) \<and> (s = SC_ZERO \<longleftrightarrow> is_zero v) \<and>
      builtin_val v = (if s = SC_NEG then - uint w else uint w)"
  proof (cases v)
    case (Int64 x)
    consider "0 < sint x" | "x = 0" | "sint x < 0" by (metis linorder_less_linear signed_eq_0_iff)
    then show ?thesis
      using assms Int64 uint_positive [of x] uint_negated [of x]
      by cases (auto simp: get_sign_of_def get_sign_def is_zero_def builtin_val_def split: if_splits)
  next
    case (UInt64 x)
    then show ?thesis
      using assms by (auto simp: get_sign_of_def get_sign_unsigned_def is_zero_def builtin_val_def word_gt_0
          split: if_splits)
  qed
  then show "s \<in> {SC_NEG, SC_ZERO, SC_POS}" "s = SC_ZERO \<longleftrightarrow> w = 0" "s = SC_ZERO \<longleftrightarrow> is_zero v"
    "builtin_val v = (if s = SC_NEG then - uint w else uint w)" by blast+
  show "is_zero v \<longleftrightarrow> builtin_val v = 0"
    by (cases v) (auto simp: is_zero_def builtin_val_def uint_0_iff signed_eq_0_iff)
qed

lemma operand_of_value:
  shows "operand_ok (operand_of v)" "val (operand_of v) = builtin_val v"
    and "sgn (operand_of v) = SC_ZERO \<longleftrightarrow> is_zero v"
proof -
  obtain s w where c: "get_sign_of v = (s, w)" by fastforce
  note g = get_sign_of_value [OF c]
  let ?d = "CONVERT_INT64_2 w"
  have n: "DIGITS_PER_UINT64 = 3" by (simp add: DIGITS_PER_UINT64_def BITS_PER_UINT64_def)
  have w: "unat w < 2 ^ 64" using unsigned_less [of w, where 'a = nat] by simp
  then have "unat w mod radix ^ 3 = unat w" by simp
  then have d: "dval ?d = unat w" "digits_ok ?d" "length ?d = 3"
    using from_uint_value [of "replicate 3 0" w] by (simp_all add: CONVERT_INT64_2_def n)
  have f: "operand_of v = \<lparr>sgn = s, nbits = 64, ndigits = 3, digit = ?d\<rparr>"
    by (simp add: operand_of_def CONVERT_INT64_def c n)
  have "w = 0 \<longleftrightarrow> unat w = 0" by (simp add: unat_eq_0)
  then show "operand_ok (operand_of v)"
    unfolding f operand_ok_def using d w g(1,2) by (simp add: sign_ok_def)
  show "val (operand_of v) = builtin_val v" by (simp add: f val_def smval_def d(1) g(4))
  show "sgn (operand_of v) = SC_ZERO \<longleftrightarrow> is_zero v" using g(3) by (simp add: f)
qed

lemma operand_of_parts:
  assumes "get_sign_of v = (s, w)"
  shows "sgn (operand_of v) = s" "nbits (operand_of v) = 64" "ndigits (operand_of v) = DIGITS_PER_UINT64"
    "digit (operand_of v) = CONVERT_INT64_2 w" "CONVERT_INT64 v = (s, CONVERT_INT64_2 w)"
  using assms by (simp_all add: operand_of_def CONVERT_INT64_def)

text \<open>The operators on two numbers, with a built-in integer for the second one.\<close>

theorem builtin_operators:
  shows "times_assign_builtin k u v = times_assign k u (operand_of v)"
    and "div_assign_builtin k u v = div_assign k u (operand_of v)"
    and "mod_assign_builtin k u v = mod_assign k u (operand_of v)"
    and "and_assign_builtin k u v = and_assign k u (operand_of v)"
    and "sgn u \<noteq> SC_ZERO \<Longrightarrow> plus_assign_builtin k u v = plus_assign k u (operand_of v)"
    and "sgn u \<noteq> SC_ZERO \<Longrightarrow> minus_assign_builtin k u v = minus_assign k u (operand_of v)"
    and "sgn u \<noteq> SC_ZERO \<Longrightarrow> or_assign_builtin k u v = or_assign k u (operand_of v)"
    and "sgn u \<noteq> SC_ZERO \<Longrightarrow> xor_assign_builtin k u v = xor_assign k u (operand_of v)"
proof -
  obtain s w where c: "get_sign_of v = (s, w)" by fastforce
  note g = get_sign_of_value(2,3) [OF c] and o = operand_of_parts [OF c]
  note z = operand_of_value(3) [of v, unfolded o(1)]
  show "times_assign_builtin k u v = times_assign k u (operand_of v)"
    by (simp add: times_assign_builtin_def times_assign_def Let_def c o BITS_PER_UINT64_def)
  show "div_assign_builtin k u v = div_assign k u (operand_of v)"
    using g by (simp add: div_assign_builtin_def div_assign_def Let_def c o BITS_PER_UINT64_def)
  show "mod_assign_builtin k u v = mod_assign k u (operand_of v)"
    using g by (simp add: mod_assign_builtin_def mod_assign_def Let_def c o)
  show "and_assign_builtin k u v = and_assign k u (operand_of v)"
    by (simp add: and_assign_builtin_def and_assign_def o z)
  show "sgn u \<noteq> SC_ZERO \<Longrightarrow> plus_assign_builtin k u v = plus_assign k u (operand_of v)"
    by (simp add: plus_assign_builtin_def plus_assign_def add_to_def Let_def o z)
  show "sgn u \<noteq> SC_ZERO \<Longrightarrow> minus_assign_builtin k u v = minus_assign k u (operand_of v)"
    by (simp add: minus_assign_builtin_def minus_assign_def add_to_def Let_def o z)
  show "sgn u \<noteq> SC_ZERO \<Longrightarrow> or_assign_builtin k u v = or_assign k u (operand_of v)"
    by (simp add: or_assign_builtin_def or_assign_def o z)
  show "sgn u \<noteq> SC_ZERO \<Longrightarrow> xor_assign_builtin k u v = xor_assign k u (operand_of v)"
    by (simp add: xor_assign_builtin_def xor_assign_def o z)
qed

section \<open>Assignment\<close>

lemma minus_mod_cong: "a mod b = a' mod b \<Longrightarrow> (- a) mod b = (- a') mod b" for a b :: int
  by (metis mod_minus_eq)

lemma unwrapped:
  assumes "number_ok Signed u" "64 < nbits u" "digits_ok d" "length d = length (digit u)"
    "sign_ok s d" "dval d < 2 ^ 64"
  shows "yields Signed u (u\<lparr>sgn := s, digit := d\<rparr>) (smval s d)"
proof -
  note p = number_parts [OF assms(1)]
  have "(2 :: int) ^ 64 \<le> 2 ^ (nbits u - 1)" using assms(2) by (intro power_increasing) simp_all
  moreover have "int (dval d) < 2 ^ 64" using assms(6) by (metis of_nat_less_iff of_nat_numeral of_nat_power)
  moreover have "\<bar>smval s d\<bar> = int (dval d)" by simp
  ultimately have r: "- (2 ^ (nbits u - 1)) \<le> smval s d" "smval s d < 2 ^ (nbits u - 1)" by linarith+
  then have "signed_ok (nbits u) s d"
    using p(1) assms(3-5) by (simp add: signed_ok_def sized_def)
  then show ?thesis
    using r p(4) assms(4) by (simp add: yields_def number_ok_def ok_of_def val_def wrap_of_def signed_take_bit_int_eq_self)
qed

theorem assign_builtin_value:
  assumes "number_ok k u"
  shows "yields k u (assign_builtin k u v) (builtin_val v)"
proof -
  obtain s w where c: "get_sign_of v = (s, w)" by fastforce
  note g = get_sign_of_value [OF c] and p = number_parts [OF assms]
  let ?d = "from_uint (length (digit u)) (digit u) w"
  let ?u = "u\<lparr>sgn := s, digit := ?d\<rparr>" and ?m = "30 * length (digit u)"
  note d = from_uint_value [of "digit u" w]
  have w: "unat w < 2 ^ 64" using unsigned_less [of w, where 'a = nat] by simp
  show ?thesis
  proof (cases "s = SC_ZERO")
    case True
    then have "builtin_val v = 0" using g by simp
    then show ?thesis using zeroed [OF assms] True by (simp add: assign_builtin_def c)
  next
    case False
    have sz: "sized (nbits u) ?d" using p(1) d by (simp add: sized_def)
    have conv: "yields k u (number_SM_to_2C_to_SM k ?u) (builtin_val v)"
    proof -
      let ?r = "conv_of k s (nbits u) (length ?d) ?d"
      have "smval (fst ?r) (snd ?r) = wrap_of k (nbits u) (smval s ?d) \<and> ok_of k (nbits u) (fst ?r) (snd ?r)"
        using fmt.conv_value [OF sz, of k s "fst ?r" "snd ?r"] by simp
      moreover have "wrap_of k (nbits u) (smval s ?d) = wrap_of k (nbits u) (builtin_val v)"
      proof (rule wrap_mod_cong [OF _ p(5,6)])
        have m: "int (dval ?d) mod 2 ^ ?m = uint w mod 2 ^ ?m"
          by (simp add: d(1) radix_power zmod_int)
        show "smval s ?d mod 2 ^ ?m = builtin_val v mod 2 ^ ?m"
        proof (cases "s = SC_NEG")
          case True
          show ?thesis unfolding smval_def g(4) if_P [OF True] by (rule minus_mod_cong [OF m])
        next
          case False
          show ?thesis unfolding smval_def g(4) if_not_P [OF False] by (rule m)
        qed
      qed
      ultimately have "yields k ?u (with_digits ?u ?r) (builtin_val v)"
        using sz p(4) d(3) by (intro yields_digits) simp_all
      then show ?thesis using p(4) d(3) by (simp add: number_SM_to_2C_to_SM_def yields_def)
    qed
    show ?thesis
    proof (cases "k = Signed \<and> 64 < nbits u")
      case True
      then have "(2 :: nat) ^ 64 \<le> radix ^ length (digit u)"
        using p(6) unfolding radix_power by (intro power_increasing) simp_all
      then have dv: "dval ?d = unat w" using d(1) w by simp
      then have "sign_ok s ?d" using g(1,2) by (simp add: sign_ok_def unat_eq_0)
      then have "yields Signed u ?u (smval s ?d)"
        using unwrapped [of u ?d s] True assms d(2,3) dv w by simp
      moreover have "smval s ?d = builtin_val v" by (simp add: smval_def dv g(4))
      ultimately show ?thesis using True False p(4) by (simp add: assign_builtin_def c Let_def)
    next
      case not_wide: False
      then have "assign_builtin k u v = number_SM_to_2C_to_SM k ?u"
        using False p(4) by (cases k) (simp_all add: assign_builtin_def c Let_def)
      then show ?thesis using conv by simp
    qed
  qed
qed

section \<open>The operators wrap the exact result\<close>

theorem builtin_operators_wrap:
  assumes "number_ok k u"
  shows "yields k u (plus_assign_builtin k u v) (val u + builtin_val v)"
    and "yields k u (times_assign_builtin k u v) (val u * builtin_val v)"
    and "yields k u (and_assign_builtin k u v) (val u AND builtin_val v)"
    and "yields k u (or_assign_builtin k u v) (val u OR builtin_val v)"
    and "yields k u (xor_assign_builtin k u v) (val u XOR builtin_val v)"
proof -
  note o = operand_of_value [of v] and b = builtin_operators [where k = k and u = u and v = v]
  note a = assign_builtin_value [OF assms, of v] and un = unchanged [OF assms]
  have z: "sgn u = SC_ZERO \<Longrightarrow> val u = 0" using val_zero_iff [OF number_operand [OF assms]] by simp
  have zv: "is_zero v \<Longrightarrow> builtin_val v = 0" using val_zero_iff [OF o(1)] o by simp
  show "yields k u (plus_assign_builtin k u v) (val u + builtin_val v)"
    using plus_assign_value [OF assms o(1)] o(2) b(5) a z
    by (cases "sgn u = SC_ZERO") (simp_all add: plus_assign_builtin_def [of k u v])
  show "yields k u (times_assign_builtin k u v) (val u * builtin_val v)"
    using times_assign_value [OF assms o(1)] o(2) b(1) by simp
  show "yields k u (and_assign_builtin k u v) (val u AND builtin_val v)"
    using and_assign_value [OF assms o(1)] o(2) b(4) by simp
  show "yields k u (or_assign_builtin k u v) (val u OR builtin_val v)"
    using or_assign_value [OF assms o(1)] o(2) b(7) a z zv un
    by (cases "sgn u = SC_ZERO"; cases "is_zero v") (simp_all add: or_assign_builtin_def)
  show "yields k u (xor_assign_builtin k u v) (val u XOR builtin_val v)"
    using xor_assign_value [OF assms o(1)] o(2) b(8) a z zv un
    by (cases "sgn u = SC_ZERO"; cases "is_zero v") (simp_all add: xor_assign_builtin_def)
qed

text \<open>
  Subtraction from zero assigns the negated operand as a signed integer of 64 bits, which is wrong
  for the least \<^verbatim>\<open>int64\<close> and for the greater half of \<^verbatim>\<open>uint64\<close> when the number has more bits.
\<close>

theorem minus_assign_builtin_value:
  assumes "number_ok k u"
  shows "yields k u (minus_assign_builtin k u v)
    (if val u = 0 \<and> builtin_val v \<noteq> 0 then sint (- to_signed v) else val u - builtin_val v)"
proof -
  note o = operand_of_value [of v] and uop = number_operand [OF assms]
  consider "is_zero v" | "\<not> is_zero v" "val u = 0" | "\<not> is_zero v" "val u \<noteq> 0" by blast
  then show ?thesis
  proof cases
    case 1
    then have "builtin_val v = 0" using val_zero_iff [OF o(1)] o by simp
    then show ?thesis using 1 unchanged [OF assms] by (simp add: minus_assign_builtin_def)
  next
    case 2
    then have "builtin_val v \<noteq> 0" using val_zero_iff [OF o(1)] o by simp
    moreover have "sgn u = SC_ZERO" using 2 val_zero_iff [OF uop] by simp
    ultimately show ?thesis
      using 2 assign_builtin_value [OF assms, of "Int64 (- to_signed v)"]
      by (simp add: minus_assign_builtin_def builtin_val_def)
  next
    case 3
    then have "sgn u \<noteq> SC_ZERO" using val_zero_iff [OF uop] by simp
    then show ?thesis
      using 3 minus_assign_value [OF assms o(1)] o(2) builtin_operators(6) [where k = k and u = u and v = v] by simp
  qed
qed

theorem minus_assign_builtin_right:
  assumes "number_ok k u" "val u \<noteq> 0 \<or> - (2 ^ 63) < builtin_val v \<and> builtin_val v \<le> 2 ^ 63"
  shows "yields k u (minus_assign_builtin k u v) (val u - builtin_val v)"
proof (cases "val u = 0 \<and> builtin_val v \<noteq> 0")
  case True
  have "signed_take_bit 63 (uint (- x)) = signed_take_bit 63 (- uint x)" for x :: "64 word"
    using signed_wrap_mod [of 64 64 "- uint x"] by (simp add: uint_word_ariths)
  then have s: "sint (- to_signed v) = signed_take_bit 63 (- builtin_val v)"
    by (cases v) (simp_all add: to_signed_def builtin_val_def sint_word_ariths sint_uint signed_take_bit_minus)
  then have "sint (- to_signed v) = - builtin_val v"
    using True assms(2) by (simp add: signed_take_bit_int_eq_self)
  then show ?thesis using minus_assign_builtin_value [OF assms(1), of v] True by simp
next
  case False
  then show ?thesis using minus_assign_builtin_value [OF assms(1), of v] by (simp only: if_False)
qed

text \<open>Zero of 100 bits minus the greatest \<^verbatim>\<open>uint64\<close> is one.\<close>

theorem minus_assign_builtin_wrong:
  "\<exists>u. number_ok Signed u \<and> val u = 0 \<and> nbits u = 100 \<and>
     val (minus_assign_builtin Signed u (UInt64 18446744073709551615)) = 1"
proof -
  let ?u = "\<lparr>sgn = SC_ZERO, nbits = 100, ndigits = 4, digit = replicate 4 0\<rparr>"
  have "number_ok Signed ?u" "val ?u = 0"
    by (simp_all add: number_ok_def ok_of_def signed_ok_def sized_def sign_ok_def val_def DIV_CEIL_def digit_consts)
  moreover from this(1) have "yields Signed ?u (minus_assign_builtin Signed ?u (UInt64 18446744073709551615)) 1"
    using minus_assign_builtin_value [of Signed ?u "UInt64 18446744073709551615"] calculation(2)
    by (simp add: builtin_val_def to_signed_def)
  ultimately show ?thesis by (intro exI [of _ ?u]) (simp add: yields_def wrap_of_def signed_take_bit_int_eq_self)
qed

end
