(* ===== verification/Dt_Overloads.thy ===== *)
theory Dt_Overloads
  imports Dt_Builtin Dt_Compare
begin

text \<open>
  The overloads of the signed operators (datatypes/int/sc_signed.cpp).  Each operator is there for
  two numbers, of which one may be unsigned, for a number and a built-in integer, and for a
  built-in integer and a number; the three texts are the three cases of a definition.  All compute
  the same function of the values of their operands.
\<close>

unbundle bit_operations_syntax

section \<open>The operators\<close>

datatype operands =
    Numbers kind sc_number kind sc_number
  | With_builtin kind sc_number builtin
  | Builtin_with builtin kind sc_number

text \<open>\<^verbatim>\<open>sc_signed(v)\<close> of a number of either class, and \<^verbatim>\<open>sc_signed(v, -v.sgn)\<close>.\<close>

definition as_signed :: "kind \<Rightarrow> sc_number \<Rightarrow> sc_number" where
  "as_signed k v = (case k of Signed \<Rightarrow> v | Unsigned \<Rightarrow> number_from_other Signed v)"

definition as_negated :: "kind \<Rightarrow> sc_number \<Rightarrow> sc_number" where
  "as_negated k v =
     (case k of
        Signed \<Rightarrow> number_with_sign v (- sgn v)
      | Unsigned \<Rightarrow>
          copy_digits_to Signed
            \<lparr>sgn = - sgn v, nbits = nbits v, ndigits = ndigits v, digit = replicate (ndigits v) 0\<rparr>
            (nbits v) (ndigits v) (digit v))"

text \<open>\<^verbatim>\<open>sc_signed(vs, BITS_PER_UINT64, DIGITS_PER_UINT64, vd, false)\<close>.\<close>

definition from_digits :: "int \<Rightarrow> digits \<Rightarrow> sc_number" where
  "from_digits vs vd = number_from_parts Signed vs BITS_PER_UINT64 DIGITS_PER_UINT64 vd"

definition plus_operator :: "sc_number \<Rightarrow> operands \<Rightarrow> sc_number" where
  "plus_operator zero os =
     (case os of
        Numbers k u l v \<Rightarrow>
          if sgn u = SC_ZERO then as_signed l v
          else if sgn v = SC_ZERO then as_signed k u
          else ADD_HELPER Signed zero (sgn u) (nbits u) (ndigits u) (digit u)
                 (sgn v) (nbits v) (ndigits v) (digit v)
      | With_builtin k u v \<Rightarrow>
          if is_zero v then as_signed k u
          else
            let (vs, vd) = CONVERT_INT64 v
            in if sgn u = SC_ZERO then from_digits vs vd
               else ADD_HELPER Signed zero (sgn u) (nbits u) (ndigits u) (digit u)
                      vs BITS_PER_UINT64 DIGITS_PER_UINT64 vd
      | Builtin_with u l v \<Rightarrow>
          if is_zero u then as_signed l v
          else
            let (us, ud) = CONVERT_INT64 u
            in if sgn v = SC_ZERO then from_digits us ud
               else ADD_HELPER Signed zero us BITS_PER_UINT64 DIGITS_PER_UINT64 ud
                      (sgn v) (nbits v) (ndigits v) (digit v))"

definition minus_operator :: "sc_number \<Rightarrow> operands \<Rightarrow> sc_number" where
  "minus_operator zero os =
     (case os of
        Numbers k u l v \<Rightarrow>
          if sgn v = SC_ZERO then as_signed k u
          else if sgn u = SC_ZERO then as_negated l v
          else ADD_HELPER Signed zero (sgn u) (nbits u) (ndigits u) (digit u)
                 (- sgn v) (nbits v) (ndigits v) (digit v)
      | With_builtin k u v \<Rightarrow>
          if is_zero v then as_signed k u
          else
            let (vs, vd) = CONVERT_INT64 v
            in if sgn u = SC_ZERO then from_digits (- vs) vd
               else ADD_HELPER Signed zero (sgn u) (nbits u) (ndigits u) (digit u)
                      (- vs) BITS_PER_UINT64 DIGITS_PER_UINT64 vd
      | Builtin_with u l v \<Rightarrow>
          if is_zero u then as_negated l v
          else
            let (us, ud) = CONVERT_INT64 u
            in if sgn v = SC_ZERO then from_digits us ud
               else ADD_HELPER Signed zero us BITS_PER_UINT64 DIGITS_PER_UINT64 ud
                      (- sgn v) (nbits v) (ndigits v) (digit v))"

definition times_operator :: "sc_number \<Rightarrow> operands \<Rightarrow> sc_number" where
  "times_operator zero os =
     (case os of
        Numbers k u l v \<Rightarrow>
          let s = mul_signs (sgn u) (sgn v)
          in if s = SC_ZERO then zero
             else MUL_HELPER Signed s (nbits u) (ndigits u) (digit u) (nbits v) (ndigits v) (digit v)
      | With_builtin k u v \<Rightarrow>
          let (vs, w) = get_sign_of v; s = mul_signs (sgn u) vs
          in if s = SC_ZERO then zero
             else MUL_HELPER Signed s (nbits u) (ndigits u) (digit u)
                    BITS_PER_UINT64 DIGITS_PER_UINT64 (CONVERT_INT64_2 w)
      | Builtin_with u l v \<Rightarrow>
          let (us, w) = get_sign_of u; s = mul_signs (sgn v) us
          in if s = SC_ZERO then zero
             else MUL_HELPER Signed s BITS_PER_UINT64 DIGITS_PER_UINT64 (CONVERT_INT64_2 w)
                    (nbits v) (ndigits v) (digit v))"

definition divide_operator :: "sc_number \<Rightarrow> operands \<Rightarrow> sc_number option" where
  "divide_operator zero os =
     (case os of
        Numbers k u l v \<Rightarrow>
          let s = mul_signs (sgn u) (sgn v)
          in if s = SC_ZERO then if sgn v = SC_ZERO then None else Some zero
             else Some (DIV_HELPER Signed zero s (nbits u) (ndigits u) (digit u)
                          (nbits v) (ndigits v) (digit v))
      | With_builtin k u v \<Rightarrow>
          let (vs, w) = get_sign_of v; s = mul_signs (sgn u) vs
          in if s = SC_ZERO then if w = 0 then None else Some zero
             else Some (DIV_HELPER Signed zero s (nbits u) (ndigits u) (digit u)
                          BITS_PER_UINT64 DIGITS_PER_UINT64 (CONVERT_INT64_2 w))
      | Builtin_with u l v \<Rightarrow>
          let (us, w) = get_sign_of u; s = mul_signs (sgn v) us
          in if s = SC_ZERO then if sgn v = SC_ZERO then None else Some zero
             else Some (DIV_HELPER Signed zero s BITS_PER_UINT64 DIGITS_PER_UINT64 (CONVERT_INT64_2 w)
                          (nbits v) (ndigits v) (digit v)))"

definition modulo_operator :: "sc_number \<Rightarrow> operands \<Rightarrow> sc_number option" where
  "modulo_operator zero os =
     (case os of
        Numbers k u l v \<Rightarrow>
          if sgn u = SC_ZERO \<or> sgn v = SC_ZERO then if sgn v = SC_ZERO then None else Some zero
          else Some (MOD_HELPER Signed zero (sgn u) (nbits u) (ndigits u) (digit u)
                       (nbits v) (ndigits v) (digit v))
      | With_builtin k u v \<Rightarrow>
          let (vs, w) = get_sign_of v
          in if sgn u = SC_ZERO \<or> vs = SC_ZERO then if w = 0 then None else Some zero
             else Some (MOD_HELPER Signed zero (sgn u) (nbits u) (ndigits u) (digit u)
                          BITS_PER_UINT64 DIGITS_PER_UINT64 (CONVERT_INT64_2 w))
      | Builtin_with u l v \<Rightarrow>
          let (us, w) = get_sign_of u
          in if us = SC_ZERO \<or> sgn v = SC_ZERO then if sgn v = SC_ZERO then None else Some zero
             else Some (MOD_HELPER Signed zero us BITS_PER_UINT64 DIGITS_PER_UINT64 (CONVERT_INT64_2 w)
                          (nbits v) (ndigits v) (digit v)))"

definition and_operator :: "sc_number \<Rightarrow> operands \<Rightarrow> sc_number" where
  "and_operator zero os =
     (case os of
        Numbers k u l v \<Rightarrow>
          if sgn u = SC_ZERO \<or> sgn v = SC_ZERO then zero
          else number_of_bits (AND_HELPER (sgn u) (nbits u) (ndigits u) (digit u)
                 (sgn v) (nbits v) (ndigits v) (digit v))
      | With_builtin k u v \<Rightarrow>
          if sgn u = SC_ZERO \<or> is_zero v then zero
          else
            let (vs, vd) = CONVERT_INT64 v
            in number_of_bits (AND_HELPER (sgn u) (nbits u) (ndigits u) (digit u)
                 vs BITS_PER_UINT64 DIGITS_PER_UINT64 vd)
      | Builtin_with u l v \<Rightarrow>
          if is_zero u \<or> sgn v = SC_ZERO then zero
          else
            let (us, ud) = CONVERT_INT64 u
            in number_of_bits (AND_HELPER us BITS_PER_UINT64 DIGITS_PER_UINT64 ud
                 (sgn v) (nbits v) (ndigits v) (digit v)))"

definition or_operator :: "operands \<Rightarrow> sc_number" where
  "or_operator os =
     (case os of
        Numbers k u l v \<Rightarrow>
          if sgn v = SC_ZERO then as_signed k u
          else if sgn u = SC_ZERO then as_signed l v
          else number_of_bits (OR_HELPER (sgn u) (nbits u) (ndigits u) (digit u)
                 (sgn v) (nbits v) (ndigits v) (digit v))
      | With_builtin k u v \<Rightarrow>
          if is_zero v then as_signed k u
          else
            let (vs, vd) = CONVERT_INT64 v
            in if sgn u = SC_ZERO then from_digits vs vd
               else number_of_bits (OR_HELPER (sgn u) (nbits u) (ndigits u) (digit u)
                      vs BITS_PER_UINT64 DIGITS_PER_UINT64 vd)
      | Builtin_with u l v \<Rightarrow>
          if is_zero u then as_signed l v
          else
            let (us, ud) = CONVERT_INT64 u
            in if sgn v = SC_ZERO then from_digits us ud
               else number_of_bits (OR_HELPER us BITS_PER_UINT64 DIGITS_PER_UINT64 ud
                      (sgn v) (nbits v) (ndigits v) (digit v)))"

definition xor_operator :: "operands \<Rightarrow> sc_number" where
  "xor_operator os =
     (case os of
        Numbers k u l v \<Rightarrow>
          if sgn v = SC_ZERO then as_signed k u
          else if sgn u = SC_ZERO then as_signed l v
          else number_of_bits (XOR_HELPER (sgn u) (nbits u) (ndigits u) (digit u)
                 (sgn v) (nbits v) (ndigits v) (digit v))
      | With_builtin k u v \<Rightarrow>
          if is_zero v then as_signed k u
          else
            let (vs, vd) = CONVERT_INT64 v
            in if sgn u = SC_ZERO then from_digits vs vd
               else number_of_bits (XOR_HELPER (sgn u) (nbits u) (ndigits u) (digit u)
                      vs BITS_PER_UINT64 DIGITS_PER_UINT64 vd)
      | Builtin_with u l v \<Rightarrow>
          if is_zero u then as_signed l v
          else
            let (us, ud) = CONVERT_INT64 u
            in if sgn v = SC_ZERO then from_digits us ud
               else number_of_bits (XOR_HELPER us BITS_PER_UINT64 DIGITS_PER_UINT64 ud
                      (sgn v) (nbits v) (ndigits v) (digit v)))"

section \<open>Comparisons\<close>

definition equal_operator :: "operands \<Rightarrow> bool" where
  "equal_operator os =
     (case os of
        Numbers k u l v \<Rightarrow> equal_number u v
      | With_builtin k u v \<Rightarrow>
          let (vs, vd) = CONVERT_INT64 v
          in if sgn u \<noteq> vs then False
             else vec_skip_and_cmp (ndigits u) (digit u) DIGITS_PER_UINT64 vd = 0
      | Builtin_with u l v \<Rightarrow>
          let (us, ud) = CONVERT_INT64 u
          in if us \<noteq> sgn v then False
             else vec_skip_and_cmp DIGITS_PER_UINT64 ud (ndigits v) (digit v) = 0)"

text \<open>The overloads for unsigned integers leave out the case of two negative ones.\<close>

definition less_operator :: "operands \<Rightarrow> bool" where
  "less_operator os =
     (case os of
        Numbers k u l v \<Rightarrow> less_number u v
      | With_builtin k u v \<Rightarrow>
          let (vs, vd) = CONVERT_INT64 v; c = vec_skip_and_cmp (ndigits u) (digit u) DIGITS_PER_UINT64 vd
          in if sgn u < vs then True
             else if vs < sgn u then False
             else if vs = SC_POS then c < 0
             else if vs = SC_NEG then 0 < c
             else False
      | Builtin_with u l v \<Rightarrow>
          let (us, ud) = CONVERT_INT64 u; c = vec_skip_and_cmp DIGITS_PER_UINT64 ud (ndigits v) (digit v)
          in if us < sgn v then True
             else if sgn v < us then False
             else if us = SC_POS then c < 0
             else if us = SC_NEG then 0 < c
             else False)"

section \<open>What they compute\<close>

text \<open>The two operands as numbers, and the condition that both lie in the range of their bits.\<close>

definition left_of :: "operands \<Rightarrow> sc_number" where
  "left_of os = (case os of Numbers k u l v \<Rightarrow> u | With_builtin k u v \<Rightarrow> u | Builtin_with u l v \<Rightarrow> operand_of u)"

definition right_of :: "operands \<Rightarrow> sc_number" where
  "right_of os = (case os of Numbers k u l v \<Rightarrow> v | With_builtin k u v \<Rightarrow> operand_of v | Builtin_with u l v \<Rightarrow> v)"

definition fits_signed :: "builtin \<Rightarrow> bool" where
  "fits_signed v \<longleftrightarrow> builtin_val v < 2 ^ 63"

definition operands_ok :: "operands \<Rightarrow> bool" where
  "operands_ok os \<longleftrightarrow>
     (case os of
        Numbers k u l v \<Rightarrow> number_ok k u \<and> number_ok l v
      | With_builtin k u v \<Rightarrow> number_ok k u \<and> fits_signed v
      | Builtin_with u l v \<Rightarrow> fits_signed u \<and> number_ok l v)"

lemma unsigned_is_signed: "number_ok k u \<Longrightarrow> number_ok Signed u"
proof (cases k)
  case Unsigned
  assume "number_ok k u"
  then have "ndigits u = length (digit u)" "sized (nbits u) (digit u)" "sign_ok (sgn u) (digit u)"
    "val u = int (dval (digit u))" "int (dval (digit u)) < int (2 ^ (nbits u - 1))"
    using Unsigned by (auto simp: number_ok_def ok_of_def unsigned_ok_def val_def smval_def)
  moreover have "- (2 ^ (nbits u - 1)) \<le> int (dval (digit u))"
    by (rule order_trans [of _ 0]) simp_all
  ultimately show ?thesis by (simp add: number_ok_def ok_of_def signed_ok_def val_def)
qed simp

lemma operand_of_signed: "fits_signed v \<Longrightarrow> number_ok Signed (operand_of v)"
proof -
  assume f: "fits_signed v"
  note o = operand_of_value [of v]
  have "nbits (operand_of v) = 64" "ndigits (operand_of v) = 3"
    by (simp_all add: operand_of_def DIGITS_PER_UINT64_def BITS_PER_UINT64_def)
  moreover have "- (2 ^ 63) \<le> builtin_val v"
    using sint_range64(1) by (cases v) (auto simp: builtin_val_def intro: order_trans [of _ 0])
  ultimately show ?thesis
    using o f by (simp add: number_ok_def ok_of_def signed_ok_def sized_def operand_ok_def fits_signed_def
        DIV_CEIL_def digit_consts val_def)
qed

lemma operands_signed:
  assumes "operands_ok os"
  shows "number_ok Signed (left_of os)" "number_ok Signed (right_of os)"
  using assms by (cases os; auto simp: operands_ok_def left_of_def right_of_def
      intro: unsigned_is_signed operand_of_signed)+

lemma signed_copy:
  fixes s :: int
  assumes "number_ok Unsigned v" "s = sgn v \<or> s = - sgn v"
  defines "r \<equiv> copy_digits_to Signed
      \<lparr>sgn = s, nbits = nbits v, ndigits = ndigits v, digit = replicate (ndigits v) 0\<rparr>
      (nbits v) (ndigits v) (digit v)"
  shows "val r = (if s = sgn v then val v else - val v) \<and> number_ok Signed r"
proof -
  note p = number_parts [OF assms(1)]
  let ?d = "digit v" and ?z = "replicate (length (digit v)) (0 :: digit)"
  let ?c = "copy_digits_signed s (nbits v) (length ?z) ?z (nbits v) (length ?d) ?d"
  have o: "sgn v \<noteq> SC_NEG" "dval ?d < 2 ^ (nbits v - 1)"
    using assms(1) by (simp_all add: number_ok_def ok_of_def unsigned_ok_def)
  have "int (dval ?d) < int (2 ^ (nbits v - 1))" using o(2) by (rule of_nat_less_iff [THEN iffD2])
  then have v: "sgn v \<in> {SC_ZERO, SC_POS}" "val v = int (dval ?d)" "int (dval ?d) < 2 ^ (nbits v - 1)"
    using o(1) p(2) by (auto simp: sign_ok_def val_def smval_def)
  have zs: "sized (nbits v) ?z" using p(1) by (simp add: sized_def)
  consider "sgn v = SC_ZERO" "s = SC_ZERO" "dval ?d = 0"
    | "sgn v = SC_POS" "s = SC_POS" "dval ?d \<noteq> 0" | "sgn v = SC_POS" "s = SC_NEG" "dval ?d \<noteq> 0"
    using assms(2) v(1) p(2) by (fastforce simp: sign_ok_def SC_NEG_def SC_POS_def SC_ZERO_def)
  then have so: "sign_ok s (take (length ?d) ?d)"
    and sv: "smval s ?d = (if s = sgn v then val v else - val v)"
    by (cases; simp add: v(2) sign_ok_def)+
  have c: "smval (fst ?c) (snd ?c) = signed_take_bit (nbits v - 1) (smval s ?d)"
    "signed_ok (nbits v) (fst ?c) (snd ?c)"
    using copy_digits_signed_value [OF zs p(7) order_refl so _, of "nbits v" "fst ?c" "snd ?c"] by simp_all
  have "- (2 ^ (nbits v - 1)) \<le> smval s ?d" "smval s ?d < 2 ^ (nbits v - 1)"
    using v(3) abs_smval [of s ?d] by linarith+
  then have "smval (fst ?c) (snd ?c) = smval s ?d" using c(1) by (simp add: signed_take_bit_int_eq_self)
  moreover have "length (snd ?c) = length ?d" using c(2) p(1) by (simp add: signed_ok_def sized_def)
  moreover have "r = \<lparr>sgn = fst ?c, nbits = nbits v, ndigits = length ?d, digit = snd ?c\<rparr>"
    by (simp add: r_def copy_digits_to_def with_digits_def copy_of_def p(4))
  ultimately show ?thesis using c(2) sv by (simp add: val_def number_ok_def ok_of_def)
qed

lemma as_signed_value:
  assumes "number_ok k v"
  shows "val (as_signed k v) = val v \<and> number_ok Signed (as_signed k v)"
proof (cases k)
  case Unsigned
  then show ?thesis
    using signed_copy [of v "sgn v"] assms by (simp add: as_signed_def number_from_other_def num_bits_def Let_def)
qed (use assms in \<open>simp add: as_signed_def\<close>)

lemma as_negated_value:
  assumes "number_ok k v"
  shows "val (as_negated k v) = - val v"
    and "number_ok Signed (as_negated k v) \<longleftrightarrow> val v \<noteq> - (2 ^ (nbits v - 1))"
proof -
  have "val (as_negated k v) = - val v \<and>
    (number_ok Signed (as_negated k v) \<longleftrightarrow> val v \<noteq> - (2 ^ (nbits v - 1)))"
  proof (cases k)
    case Signed
    then show ?thesis using negate_number_exact [of v] assms by (simp add: as_negated_def negate_number_def)
  next
    case Unsigned
    then have "sgn v \<noteq> SC_NEG" using assms by (simp add: number_ok_def ok_of_def unsigned_ok_def)
    then have "0 \<le> val v" by (simp add: val_def smval_def)
    moreover have "- (2 ^ (nbits v - 1)) < (0 :: int)" by simp
    ultimately have "val v \<noteq> - (2 ^ (nbits v - 1))" by linarith
    moreover have "- sgn v = sgn v \<Longrightarrow> val v = 0"
      using val_zero_iff [OF number_operand [OF assms]] by (auto simp: SC_ZERO_def)
    ultimately show ?thesis
      using Unsigned signed_copy [of v "- sgn v"] assms by (auto simp: as_negated_def split: if_splits)
  qed
  then show "val (as_negated k v) = - val v"
    "number_ok Signed (as_negated k v) \<longleftrightarrow> val v \<noteq> - (2 ^ (nbits v - 1))" by blast+
qed

lemma from_digits_value:
  assumes "CONVERT_INT64 v = (vs, vd)"
  shows "from_digits vs vd = operand_of v" "from_digits (- vs) vd = (operand_of v)\<lparr>sgn := - vs\<rparr>"
proof -
  have "length vd = 3"
    using operand_of_value(1) [of v] assms
    by (simp add: operand_ok_def operand_of_def DIGITS_PER_UINT64_def BITS_PER_UINT64_def)
  then show "from_digits vs vd = operand_of v" "from_digits (- vs) vd = (operand_of v)\<lparr>sgn := - vs\<rparr>"
    using assms by (simp_all add: from_digits_def operand_of_def number_from_parts_def num_bits_def Let_def
        vec_copy_eq DIGITS_PER_UINT64_def BITS_PER_UINT64_def DIV_CEIL_def digit_consts)
qed

lemma operand_of_converted:
  assumes "CONVERT_INT64 v = (vs, vd)"
  shows "sgn (operand_of v) = vs" "nbits (operand_of v) = BITS_PER_UINT64"
    "ndigits (operand_of v) = DIGITS_PER_UINT64" "digit (operand_of v) = vd"
    "is_zero v \<longleftrightarrow> vs = SC_ZERO" "get_sign_of v = (vs, w) \<Longrightarrow> CONVERT_INT64_2 w = vd"
    "get_sign_of v = (vs', w) \<Longrightarrow> vs' = vs \<and> (w = 0 \<longleftrightarrow> vs = SC_ZERO)"
  using assms operand_of_value(3) [of v] get_sign_of_value(2) [of v vs' w]
  by (auto simp: operand_of_def CONVERT_INT64_def BITS_PER_UINT64_def)

lemma mul_signs_commute: "mul_signs a b = mul_signs b a"
  by (auto simp: mul_signs_def)

lemmas operator_parts = left_of_def right_of_def Let_def

lemma operator_equations:
  shows "times_operator zero os = times_number zero (left_of os) (right_of os)"
    and "divide_operator zero os = divide_number zero (left_of os) (right_of os)"
    and "modulo_operator zero os = modulo_number zero (left_of os) (right_of os)"
    and "and_operator zero os = and_number zero (left_of os) (right_of os)"
    and "equal_operator os = equal_number (left_of os) (right_of os)"
    and "less_operator os = less_number (left_of os) (right_of os)"
proof -
  consider k u l v where "os = Numbers k u l v" | k u v vs vd where "os = With_builtin k u v" "CONVERT_INT64 v = (vs, vd)"
    | u us ud l v where "os = Builtin_with u l v" "CONVERT_INT64 u = (us, ud)"
    by (metis operands.exhaust surj_pair)
  then have "times_operator zero os = times_number zero (left_of os) (right_of os) \<and>
    divide_operator zero os = divide_number zero (left_of os) (right_of os) \<and>
    modulo_operator zero os = modulo_number zero (left_of os) (right_of os) \<and>
    and_operator zero os = and_number zero (left_of os) (right_of os) \<and>
    equal_operator os = equal_number (left_of os) (right_of os) \<and>
    less_operator os = less_number (left_of os) (right_of os)"
  proof cases
    case 1
    then show ?thesis
      by (simp add: operator_parts times_operator_def times_number_def divide_operator_def divide_number_def
          modulo_operator_def modulo_number_def and_operator_def and_number_def equal_operator_def less_operator_def)
  next
    case (2 k u v vs vd)
    obtain s w where g: "get_sign_of v = (s, w)" by fastforce
    note o = operand_of_converted [OF 2(2)]
    show ?thesis
      using o(1-5) o(6) [of w] o(7) [OF g] g
      by (simp add: 2 operator_parts times_operator_def times_number_def divide_operator_def divide_number_def
          modulo_operator_def modulo_number_def and_operator_def and_number_def equal_operator_def
          equal_number_def less_operator_def less_number_def)
  next
    case (3 u us ud l v)
    obtain s w where g: "get_sign_of u = (s, w)" by fastforce
    note o = operand_of_converted [OF 3(2)]
    show ?thesis
      using o(1-5) o(6) [of w] o(7) [OF g] g
      by (simp add: 3 operator_parts times_operator_def times_number_def divide_operator_def divide_number_def
          modulo_operator_def modulo_number_def and_operator_def and_number_def equal_operator_def
          equal_number_def less_operator_def less_number_def mul_signs_commute)
  qed
  then show "times_operator zero os = times_number zero (left_of os) (right_of os)"
    "divide_operator zero os = divide_number zero (left_of os) (right_of os)"
    "modulo_operator zero os = modulo_number zero (left_of os) (right_of os)"
    "and_operator zero os = and_number zero (left_of os) (right_of os)"
    "equal_operator os = equal_number (left_of os) (right_of os)"
    "less_operator os = less_number (left_of os) (right_of os)" by blast+
qed

text \<open>
  Addition, disjunction and exclusive disjunction of two operands that are not zero are those of
  two numbers; with a zero they give the other operand as a signed number.
\<close>

lemma operator_cases:
  obtains (numbers) k u l v where "os = Numbers k u l v"
    | (with_builtin) k u v vs vd where "os = With_builtin k u v" "CONVERT_INT64 v = (vs, vd)"
    | (builtin_with) u us ud l v where "os = Builtin_with u l v" "CONVERT_INT64 u = (us, ud)"
  by (metis operands.exhaust surj_pair)

lemma nonzero_equations:
  assumes "sgn (left_of os) \<noteq> SC_ZERO" "sgn (right_of os) \<noteq> SC_ZERO"
  shows "plus_operator zero os = plus_number zero (left_of os) (right_of os)"
    and "minus_operator zero os = minus_number zero (left_of os) (right_of os)"
    and "or_operator os = or_number (left_of os) (right_of os)"
    and "xor_operator os = xor_number (left_of os) (right_of os)"
  using assms
  by (cases os rule: operator_cases;
      simp add: operator_parts operand_of_converted plus_operator_def plus_number_def minus_operator_def
        minus_number_def or_operator_def or_number_def xor_operator_def xor_number_def)+

lemma operand_negated:
  assumes "fits_signed v" "CONVERT_INT64 v = (vs, vd)"
  shows "val (from_digits (- vs) vd) = - builtin_val v"
    and "number_ok Signed (from_digits (- vs) vd) \<longleftrightarrow> builtin_val v \<noteq> - (2 ^ 63)"
proof -
  note h = number_with_sign_holds [OF operand_of_signed [OF assms(1)]] and o = operand_of_value [of v]
  have n: "nbits (operand_of v) = 64" "length vd = 3" "ndigits (operand_of v) = 3"
    "digit (operand_of v) = vd" "sgn (operand_of v) = vs"
    using o(1) assms(2)
    by (simp_all add: operand_ok_def operand_of_def DIGITS_PER_UINT64_def BITS_PER_UINT64_def)
  then have "number_with_sign (operand_of v) (- sgn (operand_of v)) = from_digits (- vs) vd"
    by (simp add: number_with_sign_def from_digits_value(2) [OF assms(2)] vec_copy_eq)
  then show "val (from_digits (- vs) vd) = - builtin_val v"
    "number_ok Signed (from_digits (- vs) vd) \<longleftrightarrow> builtin_val v \<noteq> - (2 ^ 63)"
    using h number_range [OF operand_of_signed [OF assms(1)] order_refl] n(1) o(2)
    by (auto simp: holds_def in_range_def)
qed

lemma operand_zero_iff:
  assumes "operands_ok os"
  shows "sgn (left_of os) = SC_ZERO \<longleftrightarrow> val (left_of os) = 0"
    and "sgn (right_of os) = SC_ZERO \<longleftrightarrow> val (right_of os) = 0"
  using operands_signed [OF assms] by (simp_all add: number_zero_iff)

lemma zero_equations:
  assumes "operands_ok os" "sgn (left_of os) = SC_ZERO \<or> sgn (right_of os) = SC_ZERO"
  defines "a \<equiv> val (left_of os)" and "b \<equiv> val (right_of os)"
  shows "val (plus_operator zero os) = a + b \<and> number_ok Signed (plus_operator zero os)"
    and "val (or_operator os) = a OR b \<and> number_ok Signed (or_operator os)"
    and "val (xor_operator os) = a XOR b \<and> number_ok Signed (xor_operator os)"
    and "val (minus_operator zero os) = a - b \<and>
      (number_ok Signed (minus_operator zero os) \<longleftrightarrow> \<not> (a = 0 \<and> b = - (2 ^ (nbits (right_of os) - 1))))"
proof -
  have bits: "nbits (operand_of v) = 64" for v by (simp add: operand_of_def)
  have "(val (plus_operator zero os) = a + b \<and> number_ok Signed (plus_operator zero os)) \<and>
    (val (or_operator os) = a OR b \<and> number_ok Signed (or_operator os)) \<and>
    (val (xor_operator os) = a XOR b \<and> number_ok Signed (xor_operator os)) \<and>
    val (minus_operator zero os) = a - b \<and>
      (number_ok Signed (minus_operator zero os) \<longleftrightarrow> \<not> (a = 0 \<and> b = - (2 ^ (nbits (right_of os) - 1))))"
  proof (cases os rule: operator_cases)
    case (numbers k u l v)
    then have ok: "number_ok k u" "number_ok l v" using assms(1) by (simp_all add: operands_ok_def)
    note z = number_zero_iff [OF unsigned_is_signed [OF ok(1)]] number_zero_iff [OF unsigned_is_signed [OF ok(2)]]
    have "sgn u = SC_ZERO \<or> sgn v = SC_ZERO" using assms(2) numbers by (simp add: operator_parts)
    then show ?thesis
      using as_signed_value [OF ok(1)] as_signed_value [OF ok(2)] as_negated_value [OF ok(2)] z
      by (auto simp: numbers a_def b_def operator_parts plus_operator_def or_operator_def xor_operator_def
          minus_operator_def)
  next
    case (with_builtin k u v vs vd)
    then have ok: "number_ok k u" "fits_signed v" using assms(1) by (simp_all add: operands_ok_def)
    note z = number_zero_iff [OF unsigned_is_signed [OF ok(1)]] number_zero_iff [OF operand_of_signed [OF ok(2)]]
    have "sgn u = SC_ZERO \<or> vs = SC_ZERO"
      using assms(2) with_builtin by (simp add: operator_parts operand_of_converted)
    then show ?thesis
      using as_signed_value [OF ok(1)] operand_of_signed [OF ok(2)] operand_negated [OF ok(2) with_builtin(2)]
        z operand_of_value(2) [of v] operand_of_converted(1,5) [OF with_builtin(2)]
      by (auto simp: with_builtin a_def b_def operator_parts plus_operator_def or_operator_def
          xor_operator_def minus_operator_def from_digits_value(1) [OF with_builtin(2)] bits)
  next
    case (builtin_with u us ud l v)
    then have ok: "fits_signed u" "number_ok l v" using assms(1) by (simp_all add: operands_ok_def)
    note z = number_zero_iff [OF operand_of_signed [OF ok(1)]] number_zero_iff [OF unsigned_is_signed [OF ok(2)]]
    have "us = SC_ZERO \<or> sgn v = SC_ZERO"
      using assms(2) builtin_with by (simp add: operator_parts operand_of_converted)
    then show ?thesis
      using as_signed_value [OF ok(2)] operand_of_signed [OF ok(1)] as_negated_value [OF ok(2)]
        z operand_of_value(2) [of u] operand_of_converted(1,5) [OF builtin_with(2)]
      by (auto simp: builtin_with a_def b_def operator_parts plus_operator_def or_operator_def
          xor_operator_def minus_operator_def from_digits_value(1) [OF builtin_with(2)])
  qed
  then show "val (plus_operator zero os) = a + b \<and> number_ok Signed (plus_operator zero os)"
    "val (or_operator os) = a OR b \<and> number_ok Signed (or_operator os)"
    "val (xor_operator os) = a XOR b \<and> number_ok Signed (xor_operator os)"
    "val (minus_operator zero os) = a - b \<and>
      (number_ok Signed (minus_operator zero os) \<longleftrightarrow> \<not> (a = 0 \<and> b = - (2 ^ (nbits (right_of os) - 1))))"
    by blast+
qed

text \<open>All overloads compute the same function of the values.\<close>

theorem operators_exact:
  assumes "operands_ok os" "number_ok Signed zero" "val zero = 0"
  defines "a \<equiv> val (left_of os)" and "b \<equiv> val (right_of os)"
  shows "val (plus_operator zero os) = a + b \<and> number_ok Signed (plus_operator zero os)"
    and "val (minus_operator zero os) = a - b \<and>
      (number_ok Signed (minus_operator zero os) \<longleftrightarrow> \<not> (a = 0 \<and> b = - (2 ^ (nbits (right_of os) - 1))))"
    and "val (times_operator zero os) = a * b \<and> number_ok Signed (times_operator zero os)"
    and "val (and_operator zero os) = a AND b \<and> number_ok Signed (and_operator zero os)"
    and "val (or_operator os) = a OR b \<and> number_ok Signed (or_operator os)"
    and "val (xor_operator os) = a XOR b \<and> number_ok Signed (xor_operator os)"
proof -
  note ok = operands_signed [OF assms(1)] and e = operator_equations
  show "val (times_operator zero os) = a * b \<and> number_ok Signed (times_operator zero os)"
    unfolding e a_def b_def by (rule times_number_exact [OF ok assms(2,3)])
  show "val (and_operator zero os) = a AND b \<and> number_ok Signed (and_operator zero os)"
    unfolding e a_def b_def by (rule and_number_exact [OF ok assms(2,3)])
  show "val (plus_operator zero os) = a + b \<and> number_ok Signed (plus_operator zero os)"
    "val (minus_operator zero os) = a - b \<and>
      (number_ok Signed (minus_operator zero os) \<longleftrightarrow> \<not> (a = 0 \<and> b = - (2 ^ (nbits (right_of os) - 1))))"
    "val (or_operator os) = a OR b \<and> number_ok Signed (or_operator os)"
    "val (xor_operator os) = a XOR b \<and> number_ok Signed (xor_operator os)"
    using zero_equations [OF assms(1)] nonzero_equations [of os]
      plus_number_exact [OF ok assms(2,3)] minus_number_exact [OF ok assms(2,3)]
      or_number_exact [OF ok] xor_number_exact [OF ok] unfolding a_def b_def by metis+
qed

theorem division_operators_exact:
  assumes "operands_ok os" "number_ok Signed zero" "val zero = 0"
  defines "a \<equiv> val (left_of os)" and "b \<equiv> val (right_of os)"
  shows "b \<noteq> 0 \<Longrightarrow> \<exists>q. divide_operator zero os = Some q \<and> val q = a sdiv b \<and>
      (number_ok Signed q \<longleftrightarrow>
        \<not> (a = - (2 ^ (max (nbits (left_of os)) (nbits (right_of os)) - 1)) \<and> b = - 1))"
    and "b \<noteq> 0 \<Longrightarrow> \<exists>r. modulo_operator zero os = Some r \<and> val r = a smod b \<and> number_ok Signed r"
    and "b = 0 \<Longrightarrow> divide_operator zero os = None \<and> modulo_operator zero os = None"
proof -
  note ok = operands_signed [OF assms(1)] and e = operator_equations
  show "b \<noteq> 0 \<Longrightarrow> \<exists>q. divide_operator zero os = Some q \<and> val q = a sdiv b \<and>
      (number_ok Signed q \<longleftrightarrow>
        \<not> (a = - (2 ^ (max (nbits (left_of os)) (nbits (right_of os)) - 1)) \<and> b = - 1))"
    unfolding e a_def b_def by (rule divide_number_exact [OF ok assms(2,3)])
  show "b \<noteq> 0 \<Longrightarrow> \<exists>r. modulo_operator zero os = Some r \<and> val r = a smod b \<and> number_ok Signed r"
    unfolding e a_def b_def by (rule modulo_number_exact [OF ok assms(2,3)])
  show "b = 0 \<Longrightarrow> divide_operator zero os = None \<and> modulo_operator zero os = None"
    using operand_zero_iff(2) [OF assms(1)]
    by (simp add: e b_def divide_number_def modulo_number_def mul_signs_def)
qed

theorem comparison_operators:
  assumes "operands_ok os"
  shows "equal_operator os \<longleftrightarrow> val (left_of os) = val (right_of os)"
    and "less_operator os \<longleftrightarrow> val (left_of os) < val (right_of os)"
  unfolding operator_equations(5,6)
  using comparisons [OF number_operand number_operand] operands_signed [OF assms] by blast+

end
