(* ===== verification/Dt_Integers.thy ===== *)
theory Dt_Integers
  imports Dt_Packed Dt_Overloads
begin

text \<open>
  What the arbitrary precision integers promise, over the operations of all their theories: a
  number changed in place behaves as an integer that is wrapped to its bits after every step, the
  operators that make a new number are exact, and the packed representation can be read back.
\<close>

unbundle bit_operations_syntax

section \<open>Sequences of operations in place\<close>

datatype in_place =
    Assign sc_number | Plus sc_number | Minus sc_number | Times sc_number
  | Divide sc_number | Modulo sc_number | And sc_number | Or sc_number | Xor sc_number
  | Shift_left "64 word" | Shift_right "64 word" | Set_bit int | Clear_bit int

text \<open>\<open>None\<close> is the report of a division by zero.\<close>

fun change :: "kind \<Rightarrow> in_place \<Rightarrow> sc_number \<Rightarrow> sc_number option" where
  "change k (Assign v) u = Some (assign_number k u v)"
| "change k (Plus v) u = Some (plus_assign k u v)"
| "change k (Minus v) u = Some (minus_assign k u v)"
| "change k (Times v) u = Some (times_assign k u v)"
| "change k (Divide v) u = (case div_assign k u v of Inl _ \<Rightarrow> None | Inr u \<Rightarrow> Some u)"
| "change k (Modulo v) u = (case mod_assign k u v of Inl _ \<Rightarrow> None | Inr u \<Rightarrow> Some u)"
| "change k (And v) u = Some (and_assign k u v)"
| "change k (Or v) u = Some (or_assign k u v)"
| "change k (Xor v) u = Some (xor_assign k u v)"
| "change k (Shift_left n) u = Some (shl_assign k u n)"
| "change k (Shift_right n) u = Some (shr_assign k u n)"
| "change k (Set_bit i) u = Some (set_number_bit k u i)"
| "change k (Clear_bit i) u = Some (clear_number_bit k u i)"

fun changes :: "kind \<Rightarrow> in_place list \<Rightarrow> sc_number \<Rightarrow> sc_number option" where
  "changes k [] u = Some u"
| "changes k (c # cs) u = Option.bind (change k c u) (changes k cs)"

text \<open>The same on integers, before the wrap; \<open>len\<close> is the length of the number.\<close>

fun exact :: "nat \<Rightarrow> in_place \<Rightarrow> int \<Rightarrow> int option" where
  "exact len (Assign v) x = Some (val v)"
| "exact len (Plus v) x = Some (x + val v)"
| "exact len (Minus v) x = Some (x - val v)"
| "exact len (Times v) x = Some (x * val v)"
| "exact len (Divide v) x = (if val v = 0 then None else Some (x sdiv val v))"
| "exact len (Modulo v) x = (if val v = 0 then None else Some (x smod val v))"
| "exact len (And v) x = Some (x AND val v)"
| "exact len (Or v) x = Some (x OR val v)"
| "exact len (Xor v) x = Some (x XOR val v)"
| "exact len (Shift_left n) x = Some (x * 2 ^ nat (int_of_ulong n))"
| "exact len (Shift_right n) x = Some (x div 2 ^ nat (int_of_ulong n))"
| "exact len (Set_bit i) x = Some (if 0 \<le> i \<and> i < int len then set_bit (nat i) x else x)"
| "exact len (Clear_bit i) x = Some (if 0 \<le> i \<and> i < int len then unset_bit (nat i) x else x)"

fun wrapped :: "kind \<Rightarrow> nat \<Rightarrow> in_place list \<Rightarrow> int \<Rightarrow> int option" where
  "wrapped k len [] x = Some x"
| "wrapped k len (c # cs) x =
     Option.bind (map_option (wrap_of k (num_bits k len)) (exact len c x)) (wrapped k len cs)"

definition operand_in :: "in_place \<Rightarrow> bool" where
  "operand_in c \<longleftrightarrow>
     (case c of
        Assign v \<Rightarrow> operand_ok v | Plus v \<Rightarrow> operand_ok v | Minus v \<Rightarrow> operand_ok v
      | Times v \<Rightarrow> operand_ok v | Divide v \<Rightarrow> operand_ok v | Modulo v \<Rightarrow> operand_ok v
      | And v \<Rightarrow> operand_ok v | Or v \<Rightarrow> operand_ok v | Xor v \<Rightarrow> operand_ok v | _ \<Rightarrow> True)"

lemma bits_of_length: "number_ok k u \<Longrightarrow> num_bits k (length_of k u) = nbits u"
  using number_parts(5) [of k u] by (cases k) (simp_all add: num_bits_def length_of_def)

lemma outside_iff: "number_ok k u \<Longrightarrow> \<not> check_if_outside k u i \<longleftrightarrow> 0 \<le> i \<and> i < int (length_of k u)"
  using number_parts(5) [of k u]
  by (cases k) (auto simp: check_if_outside_def num_bits_def length_of_def)

lemma change_step:
  assumes "number_ok k u" "operand_in c"
  shows "case exact (length_of k u) c (val u) of
      None \<Rightarrow> change k c u = None
    | Some x \<Rightarrow> \<exists>u'. change k c u = Some u' \<and> yields k u u' x"
proof (cases c)
  case (Divide v)
  then show ?thesis
    using assms div_assign_value [of k u v] division_by_zero(1) [of v k u] by (auto simp: operand_in_def)
next
  case (Modulo v)
  then show ?thesis
    using assms mod_assign_value [of k u v] division_by_zero(2) [of v k u] by (auto simp: operand_in_def)
next
  case (Set_bit i)
  then show ?thesis
    using set_bit_value [OF assms(1), of i] outside_iff [OF assms(1), of i]
    by (cases "check_if_outside k u i") auto
next
  case (Clear_bit i)
  then show ?thesis
    using clear_bit_value [OF assms(1), of i] outside_iff [OF assms(1), of i]
    by (cases "check_if_outside k u i") auto
qed (use assms in \<open>simp_all add: operand_in_def assign_value plus_assign_value minus_assign_value
      times_assign_value and_assign_value or_assign_value xor_assign_value shl_assign_value shr_assign_value\<close>)

lemma yields_length: "number_ok k u \<Longrightarrow> yields k u u' x \<Longrightarrow> length_of k u' = length_of k u"
  by (cases k) (simp_all add: yields_def length_of_def)

text \<open>
  C14. Any sequence of assignments, arithmetic, bitwise operators, shifts and writes of single bits
  on a signed or unsigned number in place does what the same sequence does on integers, when every
  intermediate result is wrapped to the bits of the number: modulo a power of two, and into the
  range of two's complement for a signed number.  Division and remainder round towards zero, and
  the sequence is left by a report exactly at a division by zero.
\<close>

theorem numbers_refine_integers:
  assumes "number_ok k u" "\<forall>c \<in> set cs. operand_in c"
  shows "case wrapped k (length_of k u) cs (val u) of
      None \<Rightarrow> changes k cs u = None
    | Some x \<Rightarrow> \<exists>u'. changes k cs u = Some u' \<and> number_ok k u' \<and> nbits u' = nbits u \<and> val u' = x"
  using assms
proof (induction cs arbitrary: u)
  case (Cons c cs)
  then have "number_ok k u" "operand_in c" by simp_all
  note s = change_step [OF this] and b = bits_of_length [OF this(1)]
  show ?case
  proof (cases "exact (length_of k u) c (val u)")
    case (Some x)
    then obtain u' where u': "change k c u = Some u'" "yields k u u' x" using s by auto
    then have "number_ok k u'" "nbits u' = nbits u" "val u' = wrap_of k (nbits u) x"
      "length_of k u' = length_of k u" using yields_length [OF Cons.prems(1)] by (simp_all add: yields_def)
    then show ?thesis using Cons.IH [of u'] Cons.prems(2) Some u'(1) b by (simp split: option.splits)
  qed (use s in simp)
qed simp

definition example_number :: "int \<Rightarrow> digit \<Rightarrow> sc_number" where
  "example_number s d = \<lparr>sgn = s, nbits = 8, ndigits = 1, digit = [d]\<rparr>"

lemma example_number_ok:
  assumes "s \<in> {SC_NEG, SC_POS}" "0 < unat d" "unat d < 128"
  shows "number_ok Signed (example_number s d)" "operand_ok (example_number s d)"
    "val (example_number s d) = (if s = SC_NEG then - uint d else uint d)"
    "length_of Signed (example_number s d) = 8"
proof -
  have "uint d < 128" using of_nat_less_iff [of "unat d" 128, where 'a = int] assms(3)
    by simp
  moreover have "- 128 \<le> uint d" "- uint d < 128" using uint_ge_0 [of d] by linarith+
  ultimately show ok: "number_ok Signed (example_number s d)"
    using assms by (auto simp: example_number_def number_ok_def ok_of_def signed_ok_def sized_def
        sign_ok_def smval_def DIV_CEIL_def digit_consts)
  show "operand_ok (example_number s d)" by (rule number_operand [OF ok])
  show "val (example_number s d) = (if s = SC_NEG then - uint d else uint d)"
    by (simp add: example_number_def val_def smval_def)
  show "length_of Signed (example_number s d) = 8" by (simp add: example_number_def length_of_def)
qed

lemma numbers_refine_integers_witness:
  "\<exists>u'. changes Signed [Plus (example_number SC_POS 100), Times (example_number SC_NEG 3),
      Divide (example_number SC_POS 5), Set_bit 4] (example_number SC_POS 100) = Some u' \<and> val u' = - 1"
proof -
  let ?cs = "[Plus (example_number SC_POS 100), Times (example_number SC_NEG 3),
    Divide (example_number SC_POS 5), Set_bit 4]" and ?u = "example_number SC_POS 100"
  have "wrapped Signed 8 ?cs 100 = Some (- 1)"
    by (simp add: example_number_ok wrap_of_def num_bits_def)
  then show ?thesis
    using numbers_refine_integers [of Signed ?u ?cs]
    by (auto simp add: example_number_ok operand_in_def simp del: wrapped.simps changes.simps change.simps)
qed

section \<open>Operators with a new result\<close>


definition example_zero :: sc_number where
  "example_zero = \<lparr>sgn = SC_ZERO, nbits = 32, ndigits = 2, digit = [0, 0]\<rparr>"

lemma example_zero_ok: "number_ok Signed example_zero" "val example_zero = 0"
  by (simp_all add: example_zero_def number_ok_def ok_of_def signed_ok_def sized_def sign_ok_def
      val_def smval_def DIV_CEIL_def digit_consts)




section \<open>Built-in operands\<close>

text \<open>
  C27. The operators in place with a built-in integer wrap the exact result to the bits of the
  number.  The one exception is subtraction from zero: it stores the negated operand as a signed
  integer of 64 bits, so that a wider number becomes wrong for an unsigned operand above the
  middle of its range and for the least signed one.
\<close>

theorem builtin_in_place:
  assumes "number_ok k u"
  shows "(let x = val u; y = builtin_val v; wrong = (x = 0 \<and> \<not> (- (2 ^ 63) < y \<and> y \<le> 2 ^ 63)) in
    yields k u (assign_builtin k u v) y \<and>
    yields k u (plus_assign_builtin k u v) (x + y) \<and>
    yields k u (minus_assign_builtin k u v) (if wrong then sint (- to_signed v) else x - y) \<and>
    yields k u (times_assign_builtin k u v) (x * y) \<and>
    yields k u (and_assign_builtin k u v) (x AND y) \<and>
    yields k u (or_assign_builtin k u v) (x OR y) \<and>
    yields k u (xor_assign_builtin k u v) (x XOR y) \<and>
    (if y = 0 then div_assign_builtin k u v = Inl (u\<lparr>sgn := SC_ZERO\<rparr>) \<and> mod_assign_builtin k u v = Inl u
     else \<exists>q r. div_assign_builtin k u v = Inr q \<and> mod_assign_builtin k u v = Inr r \<and>
       yields k u q (x sdiv y) \<and> yields k u r (x smod y)))"
proof -
  note o = operand_of_value [of v] and w = builtin_operators_wrap [OF assms]
  have m: "yields k u (minus_assign_builtin k u v)
    (if val u = 0 \<and> \<not> (- (2 ^ 63) < builtin_val v \<and> builtin_val v \<le> 2 ^ 63)
     then sint (- to_signed v) else val u - builtin_val v)"
  proof (cases "val u = 0 \<and> \<not> (- (2 ^ 63) < builtin_val v \<and> builtin_val v \<le> 2 ^ 63)")
    case True
    then have "val u = 0" "builtin_val v \<noteq> 0" by auto
    then show ?thesis using minus_assign_builtin_value [OF assms, of v] True by simp
  next
    case False
    then show ?thesis using minus_assign_builtin_right [OF assms] by (simp only: if_False) blast
  qed
  have d: "if builtin_val v = 0
      then div_assign_builtin k u v = Inl (u\<lparr>sgn := SC_ZERO\<rparr>) \<and> mod_assign_builtin k u v = Inl u
      else \<exists>q r. div_assign_builtin k u v = Inr q \<and> mod_assign_builtin k u v = Inr r \<and>
        yields k u q (val u sdiv builtin_val v) \<and> yields k u r (val u smod builtin_val v)"
    unfolding builtin_operators(2,3)
    using division_by_zero [of "operand_of v" k u] div_assign_value [OF assms o(1)]
      mod_assign_value [OF assms o(1)] o by auto
  show ?thesis
    unfolding Let_def using assign_builtin_value [OF assms] w m d by blast
qed

lemma builtin_in_place_witness:
  "val (plus_assign_builtin Signed (example_number SC_POS 100) (Int64 100)) = - 56"
  using builtin_in_place [OF example_number_ok(1), of SC_POS 100 "Int64 100"]
  by (simp add: Let_def yields_def example_number_ok builtin_val_def wrap_of_def) (simp add: example_number_def)

section \<open>Packed words and reductions\<close>

text \<open>
  C28. A number written out as packed words of 32 bits and read into another number of the same
  class and length gives the same value, for negative numbers as well.
\<close>

theorem packed_round_trip:
  assumes "number_ok k u" "number_ok k w" "nbits w = nbits u" "0 < length_of k u"
  shows "val (set_packed_rep k w (get_packed_rep k u)) = val u \<and>
    number_ok k (set_packed_rep k w (get_packed_rep k u))"
proof -
  have l: "length_of k w = length_of k u" using assms(3) by (cases k) (simp_all add: length_of_def)
  have "yields k w (set_packed_rep k w (get_packed_rep k u)) (val u)"
    using get_packed_rep_value(2) [OF assms(1,4)] assms(4) l
    by (intro set_packed_rep_value [OF assms(2)]) simp_all
  then show ?thesis using number_wrap [OF assms(1)] assms(3) by (simp add: yields_def)
qed

lemma packed_round_trip_witness:
  "val (set_packed_rep Signed (example_number SC_POS 1) (get_packed_rep Signed (example_number SC_NEG 100))) = - 100"
  using packed_round_trip [OF example_number_ok(1) example_number_ok(1), of SC_NEG 100 SC_POS 1]
  by (simp add: example_number_ok) (simp add: example_number_def)

text \<open>
  C29. The reductions of a signed number: the disjunction of its bits says that it is not zero, the
  exclusive disjunction that an odd number of its bits are set, and the conjunction that it is
  minus one -- unless its length is a multiple of the 30 bits of a digit: then the bits of the top
  digit are not looked at, and of 30 bits every negative number passes.
\<close>

theorem signed_reductions:
  assumes "number_ok Signed u"
  shows "(or_reduce u \<longleftrightarrow> val u \<noteq> 0) \<and>
    (xor_reduce Signed u \<longleftrightarrow> odd (card {i. i < nbits u \<and> bit (val u) i})) \<and>
    (and_reduce_signed u \<longleftrightarrow>
       (if nbits u mod 30 = 0 then val u < 0 \<and> (\<forall>i < nbits u - 30. bit (val u) i) else val u = - 1))"
proof (intro conjI)
  show "or_reduce u \<longleftrightarrow> val u \<noteq> 0" by (rule or_reduce_value [OF number_operand [OF assms]])
  show "xor_reduce Signed u \<longleftrightarrow> odd (card {i. i < nbits u \<and> bit (val u) i})"
    using xor_reduce_value [OF assms] by (simp add: length_of_def)
  show "and_reduce_signed u \<longleftrightarrow>
       (if nbits u mod 30 = 0 then val u < 0 \<and> (\<forall>i < nbits u - 30. bit (val u) i) else val u = - 1)"
  proof (cases "nbits u mod 30 = 0")
    case True
    note p = number_parts [OF assms] and t = sized_top [OF number_parts(1) [OF assms]]
    obtain m where m: "nbits u = 30 * m" using True by (metis mod_0_imp_dvd dvdE)
    then have "0 < m" "(nbits u - 1) div 30 = m - 1" using p(5) by simp_all
    then have "30 * (ndigits u - 1) = nbits u - 30" using p(4) t(3) m by (simp add: algebra_simps)
    then show ?thesis using and_reduce_signed_value [OF assms] True by simp
  next
    case False
    then show ?thesis using and_reduce_signed_right [OF assms] by simp
  qed
qed

lemma signed_reductions_witness: "or_reduce (example_number SC_NEG 1) \<and> and_reduce_signed (example_number SC_NEG 1)"
  using signed_reductions [OF example_number_ok(1), of SC_NEG 1]
  by (simp add: example_number_ok)

end
